(* ===== verification/Prelude.thy ===== *)
theory Prelude
  imports Main "HOL-Library.Word"
begin

text \<open>
  What every component of the development shares: C++'s fixed-width integer conversions,
  bounds-checked block copies (the model of \<open>memcpy\<close>), the suffix of a list, and the
  theorem collections that the component proofs rewrite with.  An operation whose C++
  counterpart would have undefined behaviour (an access out of range, a signed overflow, a
  division by zero) returns \<^term>\<open>None\<close>; that it never does is then a theorem.
\<close>

type_synonym byte = "8 word"
type_synonym u32 = "32 word"

named_theorems mem_simps \<open>rewriting the checked block reads and writes\<close>
named_theorems cint_simps \<open>conversions between the integer types of C++\<close>

section \<open>Integers of C++\<close>

definition int32_ok :: "int \<Rightarrow> bool" where
  "int32_ok x \<longleftrightarrow> - (2 ^ 31) \<le> x \<and> x < 2 ^ 31"

text \<open>The conversions to \<open>size_t\<close> (64 bits) and to \<open>int\<close> (32 bits, two's complement).\<close>

definition to_size_t :: "int \<Rightarrow> nat" where
  "to_size_t x = nat (x mod 2 ^ 64)"

definition to_int32 :: "int \<Rightarrow> int" where
  "to_int32 x = (x + 2 ^ 31) mod 2 ^ 32 - 2 ^ 31"

text \<open>Division of C++ truncates towards zero, and its remainder has the dividend's sign.\<close>

definition tdiv :: "int \<Rightarrow> int \<Rightarrow> int" where
  "tdiv a b = sgn a * sgn b * (\<bar>a\<bar> div \<bar>b\<bar>)"

definition tmod :: "int \<Rightarrow> int \<Rightarrow> int" where
  "tmod a b = a - tdiv a b * b"

lemma to_int32_id [cint_simps]: "int32_ok x \<Longrightarrow> to_int32 x = x"
  by (simp add: to_int32_def int32_ok_def)

lemma to_size_t_id [cint_simps]: "0 \<le> x \<Longrightarrow> x < 2 ^ 64 \<Longrightarrow> to_size_t x = nat x"
  by (simp add: to_size_t_def)

lemma to_size_t_neg: "- (2 ^ 63) \<le> x \<Longrightarrow> x < 0 \<Longrightarrow> 2 ^ 63 \<le> to_size_t x"
proof -
  assume a: "- (2 ^ 63) \<le> x" "x < 0"
  have "x mod 2 ^ 64 = (x + 2 ^ 64) mod 2 ^ 64" by simp
  also have "\<dots> = x + 2 ^ 64" using a by (intro mod_pos_pos_trivial) auto
  finally show ?thesis using a by (simp add: to_size_t_def nat_le_iff le_nat_iff)
qed

lemma tdiv_nonneg [cint_simps]: "0 \<le> a \<Longrightarrow> 0 < b \<Longrightarrow> tdiv a b = a div b"
  by (cases "a = 0") (simp_all add: tdiv_def)

lemma tdiv_neg_le: "a < 0 \<Longrightarrow> 0 < b \<Longrightarrow> tdiv a b \<le> 0"
  by (simp add: tdiv_def pos_imp_zdiv_nonneg_iff)

lemma int_div_le_self: "0 \<le> a \<Longrightarrow> 0 < b \<Longrightarrow> a div b \<le> (a::int)"
  using zdiv_mono2 [of a 1 b] by simp

lemma tdiv_abs_le: "0 < b \<Longrightarrow> \<bar>tdiv a b\<bar> \<le> \<bar>a\<bar>"
proof -
  assume b: "0 < b"
  have "\<bar>a\<bar> div b \<le> \<bar>a\<bar>" using b by (simp add: int_div_le_self)
  moreover have "0 \<le> \<bar>a\<bar> div b" using b by (simp add: pos_imp_zdiv_nonneg_iff)
  ultimately show ?thesis using b by (cases "a = 0") (simp_all add: tdiv_def abs_mult abs_sgn_eq)
qed

section \<open>Suffixes of lists\<close>

definition lastn :: "nat \<Rightarrow> 'a list \<Rightarrow> 'a list" where
  "lastn n xs = drop (length xs - n) xs"

lemma length_lastn [simp]: "length (lastn n xs) = min n (length xs)"
  by (simp add: lastn_def)

lemma lastn_0 [simp]: "lastn 0 xs = []"
  by (simp add: lastn_def)

lemma lastn_all: "length xs \<le> n \<Longrightarrow> lastn n xs = xs"
  by (simp add: lastn_def)

lemma lastn_append: "lastn n (xs @ ys) = lastn (n - length ys) xs @ lastn n ys"
proof (cases "n \<le> length ys")
  case False
  then have "length (xs @ ys) - n = length xs - (n - length ys)" "length (xs @ ys) - n - length xs = 0"
    by simp_all
  then show ?thesis by (simp only: lastn_def drop_append) (use False in simp)
qed (simp add: lastn_def)

lemma lastn_append_le: "n \<le> length ys \<Longrightarrow> lastn n (xs @ ys) = lastn n ys"
  by (simp add: lastn_append)

lemma lastn_append_exact: "lastn (length ys) (xs @ ys) = ys"
  by (simp add: lastn_append lastn_all)

lemma lastn_lastn: "lastn m (lastn n xs) = lastn (min m n) xs"
proof (cases "n \<le> length xs")
  case True
  then have "length xs - (length xs - n) = n" by simp
  moreover from True have "n - m + (length xs - n) = length xs - min m n" by (simp add: min_def)
  ultimately show ?thesis by (simp only: lastn_def length_drop drop_drop)
qed (simp add: lastn_def min_def)

lemma lastn_lastn_append: "lastn n (lastn n xs @ ys) = lastn n (xs @ ys)"
  by (simp add: lastn_append lastn_lastn)

lemma lastn_append_lastn: "lastn n (xs @ lastn n ys) = lastn n (xs @ ys)"
  by (cases "length ys \<le> n") (simp_all add: lastn_append lastn_lastn lastn_all)

lemma lastn_suffix: "\<exists>zs. xs = zs @ lastn n xs"
  by (metis append_take_drop_id lastn_def)

lemma nth_lastn: "i < n \<Longrightarrow> n \<le> length xs \<Longrightarrow> lastn n xs ! i = xs ! (length xs - n + i)"
  by (simp add: lastn_def)

section \<open>Checked block copies\<close>

definition mem_read :: "'a list \<Rightarrow> nat \<Rightarrow> nat \<Rightarrow> 'a list option" where
  "mem_read m off n = (if off + n \<le> length m then Some (take n (drop off m)) else None)"

definition mem_write :: "'a list \<Rightarrow> nat \<Rightarrow> 'a list \<Rightarrow> 'a list option" where
  "mem_write m off xs =
     (if off + length xs \<le> length m
      then Some (take off m @ xs @ drop (off + length xs) m) else None)"

lemma mem_read_Some [mem_simps]: "off + n \<le> length m \<Longrightarrow> mem_read m off n = Some (take n (drop off m))"
  by (simp add: mem_read_def)

lemma mem_write_Some [mem_simps]:
  "off + length xs \<le> length m \<Longrightarrow> mem_write m off xs = Some (take off m @ xs @ drop (off + length xs) m)"
  by (simp add: mem_write_def)

lemma mem_write_length: "mem_write m off xs = Some m' \<Longrightarrow> length m' = length m"
  by (auto simp: mem_write_def split: if_splits)

lemma mem_read_length: "mem_read m off n = Some xs \<Longrightarrow> length xs = n"
  by (auto simp: mem_read_def split: if_splits)

lemma mem_read_write:
  assumes "mem_write m off xs = Some m'"
  shows "mem_read m' off (length xs) = Some xs"
  using assms by (auto simp: mem_write_def mem_read_def split: if_splits)

end
