(* ===== verification/Audio_Ring.thy ===== *)
theory Audio_Ring
  imports Prelude "HOL-Library.Monad_Syntax"
begin

text \<open>
  The SDL capture component, \<open>src/stream/common-sdl.cpp\<close> and \<open>src/stream/common-sdl.h\<close>: the class
  \<open>audio_async\<close>, a circular buffer that the SDL callback fills and the main loop reads.  The
  SDL library itself (device numbers, the sample rate it grants, its event queue) is a parameter
  of the operations that call it.  A sample is the 32-bit pattern of a \<open>float\<close>, which this
  component only copies.
\<close>

section \<open>The state and its operations\<close>

type_synonym sample = "32 word"

record audio_async =
  m_dev_id_in :: nat
  m_len_ms :: int
  m_sample_rate :: int
  m_running :: bool
  m_audio :: "sample list"
  m_audio_pos :: nat
  m_audio_len :: nat

definition audio_new :: "int \<Rightarrow> audio_async" where
  "audio_new len_ms = \<lparr>m_dev_id_in = 0, m_len_ms = len_ms, m_sample_rate = 0, m_running = False,
     m_audio = [], m_audio_pos = 0, m_audio_len = 0\<rparr>"

text \<open>
  \<open>init\<close>: the parameters are whether \<open>SDL_Init\<close> succeeds, the device number that
  \<open>SDL_OpenAudioDevice\<close> returns for the requested capture device (0 when it cannot be opened)
  and the rate it grants.  \<open>resize\<close> fills with \<open>0.0f\<close>, and with a negative size it throws
  \<open>length_error\<close>, which is \<^term>\<open>None\<close> here.
\<close>

definition audio_init :: "bool \<Rightarrow> (int \<Rightarrow> nat) \<Rightarrow> (int \<Rightarrow> int) \<Rightarrow> audio_async \<Rightarrow> int \<Rightarrow> int
    \<Rightarrow> (bool \<times> audio_async) option" where
  "audio_init sdl_ok open_dev freq a capture_id sample_rate =
     (if \<not> sdl_ok then Some (False, a)
      else let a1 = a\<lparr>m_dev_id_in := open_dev capture_id\<rparr>
       in if m_dev_id_in a1 = 0 then Some (False, a1)
          else let r = freq sample_rate; p = r * m_len_ms a1
           in if \<not> int32_ok p \<or> tdiv p 1000 < 0 then None
              else let n = to_size_t (tdiv p 1000)
               in Some (True, a1\<lparr>m_sample_rate := r,
                    m_audio := take n (m_audio a1) @ replicate (n - length (m_audio a1)) 0\<rparr>))"

definition audio_resume :: "audio_async \<Rightarrow> bool \<times> audio_async" where
  "audio_resume a = (if m_dev_id_in a = 0 then (False, a)
     else if m_running a then (False, a) else (True, a\<lparr>m_running := True\<rparr>))"

definition audio_pause :: "audio_async \<Rightarrow> bool \<times> audio_async" where
  "audio_pause a = (if m_dev_id_in a = 0 then (False, a)
     else if \<not> m_running a then (False, a) else (True, a\<lparr>m_running := False\<rparr>))"

definition audio_clear :: "audio_async \<Rightarrow> bool \<times> audio_async" where
  "audio_clear a = (if m_dev_id_in a = 0 then (False, a)
     else if \<not> m_running a then (False, a)
     else (True, a\<lparr>m_audio_pos := 0, m_audio_len := 0\<rparr>))"

text \<open>The \<open>float\<close>s that a byte stream holds, four bytes each, little-endian.\<close>

fun samples_of :: "byte list \<Rightarrow> sample list" where
  "samples_of (b0 # b1 # b2 # b3 # bs) = word_rcat [b3, b2, b1, b0] # samples_of bs"
| "samples_of _ = []"

definition load_floats :: "byte list \<Rightarrow> nat \<Rightarrow> sample list option" where
  "load_floats stream n = (if 4 * n \<le> length stream then Some (take n (samples_of stream)) else None)"

text \<open>
  The SDL callback.  \<open>None\<close> is undefined behaviour: a copy out of range of the stream or of the
  buffer, or the remainder by an empty buffer's size.
\<close>

definition audio_callback :: "audio_async \<Rightarrow> byte list \<Rightarrow> audio_async option" where
  "audio_callback a stream =
     (if \<not> m_running a then Some a
      else let sz = length (m_audio a); pos = m_audio_pos a; len = length stream;
               n_samples = (if len div 4 > sz then sz else len div 4);
               src = (if len div 4 > sz then drop (len - n_samples * 4) stream else stream)
       in do {
         audio \<leftarrow>
           (if pos + n_samples > sz
            then let n0 = sz - pos in do {
              xs \<leftarrow> load_floats src n0;
              m1 \<leftarrow> mem_write (m_audio a) pos xs;
              ys \<leftarrow> load_floats (drop (n0 * 4) src) (n_samples - n0);
              mem_write m1 0 ys }
            else do { xs \<leftarrow> load_floats src n_samples; mem_write (m_audio a) pos xs });
         if sz = 0 then None
         else Some (a\<lparr>m_audio := audio, m_audio_pos := (pos + n_samples) mod sz,
                m_audio_len := min (m_audio_len a + n_samples) sz\<rparr>) })"

text \<open>
  \<open>get\<close>: \<open>result\<close> is the caller's vector, returned unchanged on the two early returns.  The
  start \<open>s0\<close> is an \<open>int\<close> computed from \<open>size_t\<close> values, so both conversions are written out.
\<close>

definition audio_get :: "audio_async \<Rightarrow> int \<Rightarrow> sample list \<Rightarrow> sample list option" where
  "audio_get a ms result =
     (if m_dev_id_in a = 0 then Some result
      else if \<not> m_running a then Some result
      else let ms = (if ms \<le> 0 then m_len_ms a else ms); p = m_sample_rate a * ms;
               sz = length (m_audio a)
       in if \<not> int32_ok p then None
          else let n_samples = min (to_size_t (tdiv p 1000)) (m_audio_len a);
                   s0 = to_int32 (int (m_audio_pos a) - int n_samples);
                   s0 = (if s0 < 0 then to_int32 (s0 + int sz) else s0)
           in if s0 < 0 then None
              else let s = nat s0 in
                if s + n_samples > sz
                then let n0 = sz - s in do {
                  xs \<leftarrow> mem_read (m_audio a) s n0;
                  ys \<leftarrow> mem_read (m_audio a) 0 (n_samples - n0);
                  Some (xs @ ys) }
                else mem_read (m_audio a) s n_samples)"

text \<open>
  \<open>wait_for_audio\<close> decides, under the lock, whether enough samples are buffered; the condition
  variable re-evaluates the predicate over the states that the callbacks produce (\<open>seen\<close>, from
  the call until the timeout) and returns at the first that satisfies it.
\<close>

definition wait_for_audio :: "audio_async \<Rightarrow> int \<Rightarrow> audio_async list \<Rightarrow> bool option" where
  "wait_for_audio a ms seen =
     (if m_dev_id_in a = 0 then Some False
      else if \<not> m_running a then Some False
      else let p = m_sample_rate a * ms
       in if \<not> int32_ok p then None
          else let n_samples_needed = to_size_t (tdiv p 1000)
           in Some (list_ex (\<lambda>s. m_audio_len s \<ge> n_samples_needed) (a # seen)))"

text \<open>\<open>sdl_poll_events\<close> drains the pending events up to the first \<open>SDL_QUIT\<close>.\<close>

datatype sdl_event = SDL_QUIT | SDL_OTHER

fun sdl_poll_events :: "sdl_event list \<Rightarrow> bool \<times> sdl_event list" where
  "sdl_poll_events [] = (True, [])"
| "sdl_poll_events (SDL_QUIT # es) = (False, es)"
| "sdl_poll_events (SDL_OTHER # es) = sdl_poll_events es"

section \<open>The invariant and the abstract history\<close>

definition audio_inv :: "audio_async \<Rightarrow> bool" where
  "audio_inv a \<longleftrightarrow> 0 < length (m_audio a) \<and> length (m_audio a) < 2 ^ 31 \<and>
     m_audio_pos a < length (m_audio a) \<and> m_audio_len a \<le> length (m_audio a)"

text \<open>What the buffer remembers: the last \<open>m_audio_len\<close> samples, oldest first.\<close>

definition audio_hist :: "audio_async \<Rightarrow> sample list" where
  "audio_hist a = lastn (m_audio_len a) (rotate (m_audio_pos a) (m_audio a))"


section \<open>The buffer as a bounded history\<close>

lemma length_samples_of: "length (samples_of bs) = length bs div 4"
  by (induction bs rule: samples_of.induct) auto

lemma samples_of_drop: "samples_of (drop (4 * n) bs) = drop n (samples_of bs)"
proof (induction n arbitrary: bs)
  case (Suc n)
  show ?case
  proof (cases bs rule: samples_of.cases)
    case (1 b0 b1 b2 b3 rest)
    then show ?thesis using Suc [of rest] by (simp add: numeral_eq_Suc)
  qed (simp_all add: numeral_eq_Suc)
qed simp

lemma load_floats_Some [mem_simps]:
  "4 * n \<le> length stream \<Longrightarrow> load_floats stream n = Some (take n (samples_of stream))"
  by (simp add: load_floats_def)

lemma rotate_split: "p \<le> length m \<Longrightarrow> rotate p m = drop p m @ take p m"
  by (cases "p = length m") (simp_all add: rotate_drop_take)

text \<open>Writing \<open>xs\<close> at the position, in one piece or wrapped, appends it to the rotation.\<close>

lemma ring_write_flat:
  assumes "p < length m" and "p + length xs \<le> length m"
  shows "rotate ((p + length xs) mod length m) (take p m @ xs @ drop (p + length xs) m) =
    drop (length xs) (rotate p m) @ xs"
proof (cases "p + length xs = length m")
  case True
  then show ?thesis using assms(1) by (simp add: rotate_split)
next
  case False
  then have "p + length xs < length m" using assms by simp
  then show ?thesis using assms(1) by (simp add: rotate_split add.commute)
qed

lemma ring_write_wrapped:
  assumes p: "p < length m" and w: "length m < p + length xs" and n: "length xs \<le> length m"
  defines "n0 \<equiv> length m - p"
  shows "rotate ((p + length xs) mod length m)
      (drop n0 xs @ drop (length xs - n0) (take p m @ take n0 xs)) = drop (length xs) (rotate p m) @ xs"
proof -
  let ?k = "length xs - n0"
  have k: "?k \<le> p" "n0 < length xs" "?k = p + length xs - length m"
    using p w n by (auto simp: n0_def)
  have "(p + length xs) mod length m = (p + length xs - length m) mod length m"
    using w by (simp add: le_mod_geq)
  also have "\<dots> = ?k" using k p by simp
  finally have m: "(p + length xs) mod length m = ?k" .
  let ?m' = "drop n0 xs @ drop ?k (take p m) @ take n0 xs"
  have "?k \<le> length ?m'" by simp
  then have "rotate ?k ?m' = drop ?k (take p m) @ take n0 xs @ drop n0 xs"
    using p by (simp add: rotate_split)
  moreover have "drop ?k (take p m) = drop (length xs) (rotate p m)"
    using p w k by (simp add: rotate_split n0_def)
  ultimately have "rotate ?k ?m' = drop (length xs) (rotate p m) @ xs" by simp
  moreover have "drop ?k (take p m @ take n0 xs) = drop ?k (take p m) @ take n0 xs"
    using k p by simp
  ultimately show ?thesis by (simp only: m)
qed

text \<open>Appending to the rotation appends to the history, of which the buffer keeps its size.\<close>

lemma hist_append:
  assumes "length xs \<le> length r" and "l \<le> length r"
  shows "lastn (min (l + length xs) (length r)) (drop (length xs) r @ xs) =
    lastn (length r) (lastn l r @ xs)"
proof -
  have d: "drop (length xs) r = lastn (length r - length xs) r"
    using assms by (simp add: lastn_def)
  have i: "min (min (l + length xs) (length r) - length xs) (length r - length xs) =
      min (length r - length xs) l"
    using assms by linarith
  have "lastn (min (l + length xs) (length r)) xs = xs" "lastn (length r) xs = xs"
    using assms by (simp_all add: lastn_all)
  then show ?thesis
    unfolding d by (simp only: lastn_append lastn_lastn i)
qed

lemma audio_hist_length: "audio_inv a \<Longrightarrow> length (audio_hist a) = m_audio_len a"
  by (simp add: audio_inv_def audio_hist_def)

text \<open>The bytes that the callback copies: the whole stream, or its tail when it is too long.\<close>

definition callback_count :: "audio_async \<Rightarrow> byte list \<Rightarrow> nat" where
  "callback_count a stream = min (length stream div 4) (length (m_audio a))"

definition callback_src :: "audio_async \<Rightarrow> byte list \<Rightarrow> byte list" where
  "callback_src a stream = (if length stream div 4 > length (m_audio a)
     then drop (length stream - callback_count a stream * 4) stream else stream)"

definition callback_samples :: "audio_async \<Rightarrow> byte list \<Rightarrow> sample list" where
  "callback_samples a stream = take (callback_count a stream) (samples_of (callback_src a stream))"

lemma callback_src_length: "4 * callback_count a stream \<le> length (callback_src a stream)"
  by (auto simp: callback_src_def callback_count_def)

lemma audio_callback_eq:
  "m_running a \<Longrightarrow> audio_callback a stream =
     (let sz = length (m_audio a); pos = m_audio_pos a; n = callback_count a stream;
          src = callback_src a stream
      in do {
         audio \<leftarrow>
           (if pos + n > sz
            then let n0 = sz - pos in do {
              xs \<leftarrow> load_floats src n0;
              m1 \<leftarrow> mem_write (m_audio a) pos xs;
              ys \<leftarrow> load_floats (drop (n0 * 4) src) (n - n0);
              mem_write m1 0 ys }
            else do { xs \<leftarrow> load_floats src n; mem_write (m_audio a) pos xs });
         if sz = 0 then None
         else Some (a\<lparr>m_audio := audio, m_audio_pos := (pos + n) mod sz,
                m_audio_len := min (m_audio_len a + n) sz\<rparr>) })"
  unfolding audio_callback_def callback_src_def callback_count_def
  by (cases "length stream div 4 > length (m_audio a)") (simp_all add: Let_def min_def)

lemma length_callback_samples: "length (callback_samples a stream) = callback_count a stream"
  using callback_src_length [of a stream] by (simp add: callback_samples_def length_samples_of)

lemma callback_samples_aligned:
  assumes "4 dvd length stream"
  shows "callback_samples a stream = lastn (length (m_audio a)) (samples_of stream)"
proof (cases "length stream div 4 > length (m_audio a)")
  case True
  let ?sz = "length (m_audio a)"
  from assms obtain k where k: "length stream = 4 * k" by blast
  then have "length stream - ?sz * 4 = 4 * (k - ?sz)" by simp
  then have "samples_of (drop (length stream - ?sz * 4) stream) = lastn ?sz (samples_of stream)"
    using k by (simp only: samples_of_drop) (simp add: lastn_def length_samples_of)
  then show ?thesis using True by (simp add: callback_samples_def callback_src_def callback_count_def)
next
  case False
  then show ?thesis
    by (simp add: callback_samples_def callback_src_def callback_count_def lastn_all length_samples_of)
qed

lemma audio_callback_step:
  assumes inv: "audio_inv a" and run: "m_running a"
  shows "\<exists>m'. length m' = length (m_audio a) \<and>
      rotate ((m_audio_pos a + callback_count a stream) mod length (m_audio a)) m' =
        drop (callback_count a stream) (rotate (m_audio_pos a) (m_audio a)) @ callback_samples a stream \<and>
      audio_callback a stream = Some (a\<lparr>m_audio := m',
        m_audio_pos := (m_audio_pos a + callback_count a stream) mod length (m_audio a),
        m_audio_len := min (m_audio_len a + callback_count a stream) (length (m_audio a))\<rparr>)"
proof -
  let ?m = "m_audio a" and ?p = "m_audio_pos a" and ?n = "callback_count a stream"
  let ?xs = "callback_samples a stream"
  let ?src = "callback_src a stream"
  have p: "?p < length ?m" and ne: "?m \<noteq> []" using inv by (auto simp: audio_inv_def)
  have n: "length ?xs = ?n" "?n \<le> length ?m"
    by (simp_all add: length_callback_samples) (simp add: callback_count_def)
  have src: "4 * ?n \<le> length ?src" by (rule callback_src_length)
  have xs: "?xs = take ?n (samples_of ?src)" by (simp only: callback_samples_def)
  show ?thesis
  proof (cases "?p + ?n > length ?m")
    case True
    define n0 where "n0 = length ?m - ?p"
    have n0: "n0 \<le> ?n" "?p + n0 = length ?m" using True p by (auto simp: n0_def)
    have len0: "length (take n0 ?xs) = n0" using n0 n by simp
    have "samples_of (drop (n0 * 4) ?src) = drop n0 (samples_of ?src)"
      using samples_of_drop [of n0 ?src] by (simp only: mult.commute)
    then have l1: "load_floats (drop (n0 * 4) ?src) (?n - n0) = Some (drop n0 ?xs)"
      using src xs by (simp add: load_floats_def drop_take)
    have l0: "load_floats ?src n0 = Some (take n0 ?xs)"
      using src n0 xs by (simp add: load_floats_def min_absorb1)
    have w0: "mem_write ?m ?p (take n0 ?xs) = Some (take ?p ?m @ take n0 ?xs)"
      using len0 n0 p by (simp add: mem_write_def)
    have w1: "mem_write (take ?p ?m @ take n0 ?xs) 0 (drop n0 ?xs) =
        Some (drop n0 ?xs @ drop (?n - n0) (take ?p ?m @ take n0 ?xs))"
      using n n0 p by (simp add: mem_write_def)
    show ?thesis
      apply (rule exI [of _ "drop n0 ?xs @ drop (?n - n0) (take ?p ?m @ take n0 ?xs)"])
      using ring_write_wrapped [OF p, of ?xs] True n n0 p ne run
      by (simp add: audio_callback_eq Let_def n0_def [symmetric] l0 l1 w0 w1)
  next
    case False
    have l0: "load_floats ?src ?n = Some ?xs" using src xs by (simp add: load_floats_def)
    have w0: "mem_write ?m ?p ?xs = Some (take ?p ?m @ ?xs @ drop (?p + ?n) ?m)"
      using False n by (simp add: mem_write_def)
    show ?thesis
      apply (rule exI [of _ "take ?p ?m @ ?xs @ drop (?p + ?n) ?m"])
      using ring_write_flat [OF p, of ?xs] p ne n False run
      by (simp add: audio_callback_eq Let_def l0 w0)
  qed
qed


lemma audio_callback_step_hist:
  assumes inv: "audio_inv a" and run: "m_running a"
  shows "\<exists>a'. audio_callback a stream = Some a' \<and> audio_inv a' \<and> m_running a' \<and>
    m_dev_id_in a' = m_dev_id_in a \<and> m_len_ms a' = m_len_ms a \<and> m_sample_rate a' = m_sample_rate a \<and>
    length (m_audio a') = length (m_audio a) \<and>
    audio_hist a' = lastn (length (m_audio a)) (audio_hist a @ callback_samples a stream)"
proof -
  obtain m' where m': "length m' = length (m_audio a)"
      "rotate ((m_audio_pos a + callback_count a stream) mod length (m_audio a)) m' =
        drop (callback_count a stream) (rotate (m_audio_pos a) (m_audio a)) @ callback_samples a stream"
      "audio_callback a stream = Some (a\<lparr>m_audio := m',
        m_audio_pos := (m_audio_pos a + callback_count a stream) mod length (m_audio a),
        m_audio_len := min (m_audio_len a + callback_count a stream) (length (m_audio a))\<rparr>)"
    using audio_callback_step [OF inv run, of stream] by blast
  have len: "length (callback_samples a stream) = callback_count a stream"
    by (rule length_callback_samples)
  have "callback_count a stream \<le> length (m_audio a)" by (simp add: callback_count_def)
  moreover have "m_audio_len a \<le> length (m_audio a)" using inv by (simp add: audio_inv_def)
  ultimately have "lastn (min (m_audio_len a + callback_count a stream) (length (m_audio a)))
      (drop (callback_count a stream) (rotate (m_audio_pos a) (m_audio a)) @ callback_samples a stream) =
      lastn (length (m_audio a)) (lastn (m_audio_len a) (rotate (m_audio_pos a) (m_audio a)) @
        callback_samples a stream)"
    using hist_append [of "callback_samples a stream" "rotate (m_audio_pos a) (m_audio a)" "m_audio_len a"]
    by (simp add: len)
  then show ?thesis
    using m' inv run by (auto simp: audio_inv_def audio_hist_def)
qed

section \<open>Reading the buffer\<close>

text \<open>The number of samples that \<open>get\<close> asks for, before it is cut to what is buffered.\<close>

definition requested_samples :: "audio_async \<Rightarrow> int \<Rightarrow> nat" where
  "requested_samples a ms =
     to_size_t (tdiv (m_sample_rate a * (if ms \<le> 0 then m_len_ms a else ms)) 1000)"

lemma ring_read_flat:
  assumes "n \<le> p" and "p \<le> length m"
  shows "take n (drop (p - n) m) = lastn n (rotate p m)"
proof -
  have "lastn n (rotate p m) = lastn n (take p m)"
    using assms by (simp add: rotate_split lastn_append_le)
  also have "\<dots> = drop (p - n) (take p m)" using assms by (simp add: lastn_def)
  finally show ?thesis using assms by (simp add: drop_take)
qed

lemma ring_read_wrapped:
  assumes "p < n" and "n \<le> length m"
  shows "drop (p + length m - n) m @ take p m = lastn n (rotate p m)"
proof -
  have "lastn n (rotate p m) = drop (length m - n) (drop p m @ take p m)"
    using assms by (simp add: rotate_split lastn_def)
  also have "\<dots> = drop (length m - n + p) m @ take p m" using assms by simp
  finally show ?thesis using assms by (simp add: add.commute)
qed

lemma audio_get_hist:
  assumes inv: "audio_inv a" and run: "m_running a" "m_dev_id_in a \<noteq> 0"
    and ok: "int32_ok (m_sample_rate a * (if ms \<le> 0 then m_len_ms a else ms))"
  shows "audio_get a ms result = Some (lastn (requested_samples a ms) (audio_hist a))"
proof -
  let ?m = "m_audio a" and ?p = "m_audio_pos a"
  define n where "n = min (requested_samples a ms) (m_audio_len a)"
  have b: "?p < length ?m" "m_audio_len a \<le> length ?m" "length ?m < 2 ^ 31" "n \<le> length ?m"
    using inv by (auto simp: audio_inv_def n_def)
  have h: "lastn (requested_samples a ms) (audio_hist a) = lastn n (rotate ?p ?m)"
    by (simp add: audio_hist_def lastn_lastn n_def)
  have s0: "to_int32 (int ?p - int n) = int ?p - int n"
    using b by (intro to_int32_id) (simp add: int32_ok_def)
  have s1: "to_int32 (int ?p - int n + int (length ?m)) = int ?p - int n + int (length ?m)" if "?p < n"
    using b that by (intro to_int32_id) (simp add: int32_ok_def)
  show ?thesis
  proof (cases "?p < n")
    case False
    then have "nat (int ?p - int n) + n \<le> length ?m" "nat (int ?p - int n) = ?p - n" using b by auto
    then show ?thesis
      using run ok False b ring_read_flat [of n ?p ?m] unfolding h
      by (simp add: audio_get_def Let_def requested_samples_def [symmetric] n_def [symmetric] s0 mem_read_def)
  next
    case True
    define s where "s = ?p + length ?m - n"
    have s: "nat (int ?p - int n + int (length ?m)) = s" "s \<le> length ?m" "s + n = ?p + length ?m"
      "0 \<le> int ?p - int n + int (length ?m)"
      using True b by (auto simp: s_def)
    have n0: "n - (length ?m - s) = ?p" using s by linarith
    have "audio_get a ms result = Some (drop s ?m @ take ?p ?m)"
      using run ok True b s n0 s1
      by (auto simp add: audio_get_def Let_def requested_samples_def [symmetric] n_def [symmetric] s0
          mem_read_def)
    then show ?thesis using ring_read_wrapped [OF True b(4)] unfolding h s_def by simp
  qed
qed


section \<open>The interface of a capture buffer\<close>

text \<open>
  What the main loop relies on: pushing a chunk of the device's data appends its payload to the
  history, of which the buffer keeps the last \<open>cap\<close> items, and leaves its configuration alone.
\<close>

primrec push_all :: "('s \<Rightarrow> 'c \<Rightarrow> 's option) \<Rightarrow> 's \<Rightarrow> 'c list \<Rightarrow> 's option" where
  "push_all push s [] = Some s"
| "push_all push s (c # cs) = (case push s c of None \<Rightarrow> None | Some s' \<Rightarrow> push_all push s' cs)"

locale history_buffer =
  fixes inv :: "'s \<Rightarrow> bool"
    and hist :: "'s \<Rightarrow> 'a list"
    and cap :: "'s \<Rightarrow> nat"
    and cfg :: "'s \<Rightarrow> 'b"
    and push :: "'s \<Rightarrow> 'c \<Rightarrow> 's option"
    and payload :: "'c \<Rightarrow> 'a list"
    and good :: "'c \<Rightarrow> bool"
  assumes hist_cap: "inv s \<Longrightarrow> length (hist s) \<le> cap s"
    and push_ok: "inv s \<Longrightarrow> good c \<Longrightarrow>
      \<exists>s'. push s c = Some s' \<and> inv s' \<and> cap s' = cap s \<and> cfg s' = cfg s \<and>
        hist s' = lastn (cap s) (hist s @ payload c)"
begin

lemma pushes:
  "inv s \<Longrightarrow> list_all good cs \<Longrightarrow>
    \<exists>s'. push_all push s cs = Some s' \<and> inv s' \<and> cap s' = cap s \<and> cfg s' = cfg s \<and>
      hist s' = lastn (cap s) (hist s @ concat (map payload cs))"
proof (induction cs arbitrary: s)
  case Nil
  then show ?case by (simp add: lastn_all hist_cap)
next
  case (Cons c cs)
  then obtain s1 where s1: "push s c = Some s1" "inv s1" "cap s1 = cap s" "cfg s1 = cfg s"
      "hist s1 = lastn (cap s) (hist s @ payload c)"
    using push_ok [of s c] by auto
  then obtain s2 where "push_all push s1 cs = Some s2" "inv s2" "cap s2 = cap s" "cfg s2 = cfg s"
      "hist s2 = lastn (cap s) (hist s1 @ concat (map payload cs))"
    using Cons.IH [of s1] Cons.prems(2) by auto
  then show ?case by (simp add: s1 lastn_lastn_append)
qed

end

abbreviation audio_ready :: "audio_async \<Rightarrow> bool" where
  "audio_ready a \<equiv> audio_inv a \<and> m_running a \<and> m_dev_id_in a \<noteq> 0"

lemma audio_callback_aligned:
  assumes "audio_ready a" and "4 dvd length stream"
  shows "\<exists>a'. audio_callback a stream = Some a' \<and> audio_ready a' \<and>
    length (m_audio a') = length (m_audio a) \<and>
    (m_sample_rate a', m_len_ms a') = (m_sample_rate a, m_len_ms a) \<and>
    audio_hist a' = lastn (length (m_audio a)) (audio_hist a @ samples_of stream)"
  using audio_callback_step_hist [of a stream] assms
  by (auto simp: callback_samples_aligned lastn_append_lastn)

interpretation sdl: history_buffer audio_ready audio_hist "\<lambda>a. length (m_audio a)"
    "\<lambda>a. (m_sample_rate a, m_len_ms a)" audio_callback samples_of "\<lambda>c. 4 dvd length c"
proof (unfold_locales, goal_cases)
  case (1 a)
  then show ?case by (simp add: audio_hist_length) (simp add: audio_inv_def)
next
  case (2 a c)
  then show ?case using audio_callback_aligned by blast
qed

section \<open>Properties\<close>

text \<open>
  C3: after \<open>clear\<close>, whatever chunks the device delivers (of whole samples), \<open>get\<close> returns the
  most recent samples delivered, as many as were asked for, delivered and fit; no access is out of range.
\<close>

theorem audio_stream_recent:
  assumes "audio_inv a" and "m_running a" and "m_dev_id_in a \<noteq> 0"
    and "list_all (\<lambda>c. 4 dvd length c) cs"
    and "int32_ok (m_sample_rate a * (if ms \<le> 0 then m_len_ms a else ms))"
  shows "\<exists>a'. push_all audio_callback (snd (audio_clear a)) cs = Some a' \<and>
    audio_get a' ms result =
      Some (lastn (min (requested_samples a ms) (length (m_audio a))) (concat (map samples_of cs)))"
proof -
  let ?b = "snd (audio_clear a)"
  have b: "audio_ready ?b" "audio_hist ?b = []" "length (m_audio ?b) = length (m_audio a)"
      "m_sample_rate ?b = m_sample_rate a" "m_len_ms ?b = m_len_ms a"
    using assms(1-3) by (auto simp: audio_clear_def audio_inv_def audio_hist_def)
  obtain a' where a': "push_all audio_callback ?b cs = Some a'" "audio_ready a'"
      "m_sample_rate a' = m_sample_rate a" "m_len_ms a' = m_len_ms a"
      "audio_hist a' = lastn (length (m_audio a)) (concat (map samples_of cs))"
    using sdl.pushes [OF b(1) assms(4)] b(2-5) by auto
  have "requested_samples a' ms = requested_samples a ms"
    using a'(3,4) by (simp add: requested_samples_def)
  then show ?thesis
    using a' assms(5) audio_get_hist [of a' ms result] by (simp add: lastn_lastn min.commute cong: if_cong)
qed

text \<open>A four-sample buffer at 1000 Hz that receives five samples and is asked for three.\<close>

definition small_ring :: audio_async where
  "small_ring = \<lparr>m_dev_id_in = 2, m_len_ms = 4, m_sample_rate = 1000, m_running = True,
     m_audio = [9, 9, 9, 9], m_audio_pos = 3, m_audio_len = 2\<rparr>"

theorem audio_stream_recent_witness:
  "\<exists>a'. push_all audio_callback (snd (audio_clear small_ring)) 
      [[1, 0, 0, 0, 2, 0, 0, 0, 3, 0, 0, 0], [4, 0, 0, 0, 5, 0, 0, 0]] = Some a' \<and>
    audio_get a' 3 [] = Some [3, 4, 5]"
proof -
  have "\<exists>a'. push_all audio_callback (snd (audio_clear small_ring)) 
      [[1, 0, 0, 0, 2, 0, 0, 0, 3, 0, 0, 0], [4, 0, 0, 0, 5, 0, 0, 0]] = Some a' \<and>
    audio_get a' 3 [] = Some (lastn (min (requested_samples small_ring 3) (length (m_audio small_ring)))
      (concat (map samples_of [[1, 0, 0, 0, 2, 0, 0, 0, 3, 0, 0, 0], [4, 0, 0, 0, 5, 0, 0, 0]])))"
    by (rule audio_stream_recent; simp add: small_ring_def audio_inv_def int32_ok_def; presburger?)
  then show ?thesis
    by (simp add: small_ring_def requested_samples_def to_size_t_def tdiv_def lastn_def
        word_rcat_def horner_sum_simps)
qed

text \<open>
  The callback is safe for every stream, also one longer than the buffer or with a partial
  sample at its end: under the invariant it never copies out of range, and it keeps the invariant.
\<close>

theorem audio_callback_safe:
  assumes "audio_inv a"
  shows "\<exists>a'. audio_callback a stream = Some a' \<and> audio_inv a' \<and>
    length (m_audio a') = length (m_audio a)"
proof (cases "m_running a")
  case True
  then show ?thesis using audio_callback_step_hist [OF assms True, of stream] by blast
next
  case False
  then show ?thesis using assms by (simp add: audio_callback_def)
qed

theorem audio_callback_safe_witness:
  "\<exists>a'. audio_callback small_ring (replicate 23 7) = Some a' \<and> audio_inv a' \<and>
    length (m_audio a') = length (m_audio small_ring)"
  by (rule audio_callback_safe) (simp add: small_ring_def audio_inv_def)

end
