(* ===== verification/Strings.thy ===== *)
theory Strings
  imports Prelude
begin

text \<open>
  The parts of C++'s \<open>std::string\<close> and \<open><cctype>\<close> that the components use, on \<^typ>\<open>string\<close>
  (a list of 8-bit \<open>char\<close>s): character classes of the "C" locale, \<open>find\<close>, path joining, and
  decimal numerals.
\<close>

section \<open>Character classes\<close>

definition isspace :: "char \<Rightarrow> bool" where
  "isspace c \<longleftrightarrow> (let n = of_char c :: nat in n = 32 \<or> (9 \<le> n \<and> n \<le> 13))"

definition isdigit :: "char \<Rightarrow> bool" where
  "isdigit c \<longleftrightarrow> (let n = of_char c :: nat in 48 \<le> n \<and> n \<le> 57)"

definition isalpha :: "char \<Rightarrow> bool" where
  "isalpha c \<longleftrightarrow> (let n = of_char c :: nat in (65 \<le> n \<and> n \<le> 90) \<or> (97 \<le> n \<and> n \<le> 122))"

definition NUL :: char where
  "NUL = CHR 0x00"

section \<open>Searching\<close>

text \<open>\<open>s.find(pat, pos)\<close>: the least position from \<open>pos\<close> at which \<open>pat\<close> occurs (\<open>npos\<close> is \<^term>\<open>None\<close>).\<close>

definition occurs_at :: "'a list \<Rightarrow> 'a list \<Rightarrow> nat \<Rightarrow> bool" where
  "occurs_at s pat i \<longleftrightarrow> take (length pat) (drop i s) = pat"

definition str_find :: "'a list \<Rightarrow> 'a list \<Rightarrow> nat \<Rightarrow> nat option" where
  "str_find s pat pos = List.find (occurs_at s pat) [pos ..< Suc (length s)]"

lemma occurs_at_iff:
  "i \<le> length s \<Longrightarrow> occurs_at s pat i \<longleftrightarrow> (\<exists>u v. s = u @ pat @ v \<and> length u = i)"
proof
  assume i: "i \<le> length s" and occ: "occurs_at s pat i"
  have "drop i s = pat @ drop (length pat) (drop i s)"
    using occ by (metis append_take_drop_id occurs_at_def)
  moreover have "s = take i s @ drop i s" by simp
  ultimately show "\<exists>u v. s = u @ pat @ v \<and> length u = i"
    using i by (metis length_take min.absorb2)
qed (auto simp: occurs_at_def)

lemma occurs_at_length: "occurs_at s pat i \<Longrightarrow> pat \<noteq> [] \<Longrightarrow> i + length pat \<le> length s"
proof -
  assume a: "occurs_at s pat i" "pat \<noteq> []"
  then have "length (take (length pat) (drop i s)) = length pat" by (simp add: occurs_at_def)
  then have "length pat \<le> length s - i" by simp
  moreover have "0 < length pat" using a(2) by simp
  ultimately show ?thesis by linarith
qed

lemma find_upt_Some:
  "List.find P [a ..< b] = Some i \<longleftrightarrow> a \<le> i \<and> i < b \<and> P i \<and> (\<forall>j. a \<le> j \<and> j < i \<longrightarrow> \<not> P j)"
proof
  assume "List.find P [a ..< b] = Some i"
  then obtain k where "k < b - a" "P (a + k)" "i = a + k" "\<forall>j<k. \<not> P (a + j)"
    by (auto simp: find_Some_iff)
  then show "a \<le> i \<and> i < b \<and> P i \<and> (\<forall>j. a \<le> j \<and> j < i \<longrightarrow> \<not> P j)"
    by (auto dest: le_Suc_ex)
next
  assume a: "a \<le> i \<and> i < b \<and> P i \<and> (\<forall>j. a \<le> j \<and> j < i \<longrightarrow> \<not> P j)"
  then show "List.find P [a ..< b] = Some i"
    by (auto simp: find_Some_iff intro!: exI [of _ "i - a"])
qed

lemma find_upt_None: "List.find P [a ..< b] = None \<longleftrightarrow> (\<forall>j. a \<le> j \<and> j < b \<longrightarrow> \<not> P j)"
  by (auto simp: find_None_iff)

lemma str_find_Some:
  "str_find s pat pos = Some i \<longleftrightarrow> pos \<le> i \<and> i \<le> length s \<and> occurs_at s pat i \<and>
     (\<forall>j. pos \<le> j \<and> j < i \<longrightarrow> \<not> occurs_at s pat j)"
  by (auto simp: str_find_def find_upt_Some simp del: upt_Suc)

lemma str_find_None:
  "str_find s pat pos = None \<longleftrightarrow> (\<forall>j. pos \<le> j \<and> j \<le> length s \<longrightarrow> \<not> occurs_at s pat j)"
  by (auto simp: str_find_def find_upt_None simp del: upt_Suc)

lemma str_find_0_None: "str_find s pat 0 = None \<longleftrightarrow> (\<nexists>u v. s = u @ pat @ v)"
proof -
  have "(\<exists>j\<le>length s. occurs_at s pat j) \<longleftrightarrow> (\<exists>u v. s = u @ pat @ v)" (is "?L \<longleftrightarrow> ?R")
  proof
    assume ?L
    then show ?R by (metis occurs_at_iff)
  next
    assume ?R
    then obtain u v where "s = u @ pat @ v" by blast
    then have "length u \<le> length s \<and> occurs_at s pat (length u)" by (simp add: occurs_at_def)
    then show ?L by blast
  qed
  then show ?thesis by (auto simp: str_find_None)
qed

lemma str_find_char: "str_find s [c] 0 = None \<longleftrightarrow> c \<notin> set s"
  by (simp add: str_find_0_None in_set_conv_decomp)

section \<open>Paths\<close>

text \<open>\<open>std::filesystem::path::operator/\<close> on POSIX.\<close>

definition path_join :: "string \<Rightarrow> string \<Rightarrow> string" where
  "path_join p q =
     (if q \<noteq> [] \<and> hd q = CHR ''/'' then q
      else if p = [] \<or> last p = CHR ''/'' then p @ q
      else p @ ''/'' @ q)"

section \<open>Decimal numerals\<close>

fun nat_str_rev :: "nat \<Rightarrow> string" where
  "nat_str_rev n = (if n < 10 then [char_of (48 + n)] else char_of (48 + n mod 10) # nat_str_rev (n div 10))"

declare nat_str_rev.simps [simp del]

definition nat_str :: "nat \<Rightarrow> string" where
  "nat_str n = rev (nat_str_rev n)"

definition int_str :: "int \<Rightarrow> string" where
  "int_str i = (if i < 0 then ''-'' @ nat_str (nat (- i)) else nat_str (nat i))"

definition digit_val :: "char \<Rightarrow> nat" where
  "digit_val c = of_char c - 48"

definition digits_val :: "string \<Rightarrow> nat" where
  "digits_val ds = foldl (\<lambda>v c. v * 10 + digit_val c) 0 ds"

lemma digits_val_append: "digits_val (xs @ [c]) = digits_val xs * 10 + digit_val c"
  by (simp add: digits_val_def)

lemma of_char_of_digit: "n < 10 \<Longrightarrow> of_char (char_of (48 + n) :: char) = 48 + (n::nat)"
  by simp

lemma nat_str_rev_props:
  "list_all isdigit (nat_str_rev n) \<and> nat_str_rev n \<noteq> [] \<and> digits_val (rev (nat_str_rev n)) = n"
proof (induction n rule: nat_str_rev.induct)
  case (1 n)
  show ?case
  proof (cases "n < 10")
    case True
    then show ?thesis
      by (simp add: nat_str_rev.simps [of n] isdigit_def digits_val_def digit_val_def)
  next
    case False
    then have IH: "list_all isdigit (nat_str_rev (n div 10))" "digits_val (rev (nat_str_rev (n div 10))) = n div 10"
      using 1 by auto
    have "n mod 10 < 10" by simp
    then have "of_char (char_of (48 + n mod 10) :: char) = 48 + n mod 10" by (rule of_char_of_digit)
    then show ?thesis
      using False IH \<open>n mod 10 < 10\<close>
      by (simp add: nat_str_rev.simps [of n] digits_val_append digit_val_def) (simp add: isdigit_def)
  qed
qed

lemma nat_str_digits: "list_all isdigit (nat_str n)"
  using nat_str_rev_props [of n] by (simp add: nat_str_def list_all_iff)

lemma nat_str_nonempty: "nat_str n \<noteq> []"
  using nat_str_rev_props [of n] by (simp add: nat_str_def)

lemma digits_val_nat_str: "digits_val (nat_str n) = n"
  using nat_str_rev_props [of n] by (simp add: nat_str_def)

lemma nat_str_inj: "nat_str m = nat_str n \<Longrightarrow> m = n"
  by (metis digits_val_nat_str)

end
