(* ===== verification/Text_Cleanup.thy ===== *)
theory Text_Cleanup
  imports Strings
begin

text \<open>
  The text pipeline of \<open>src/stream/stream.cpp\<close>: \<open>remove_bracketed_text\<close>, \<open>lrtrim\<close> and
  \<open>process_text\<close>, which clean a transcription before it is logged and broadcast.
\<close>

section \<open>Definitions\<close>

text \<open>The loop over the characters, with its two flags and the result built so far.\<close>

fun bracket_loop :: "bool \<Rightarrow> bool \<Rightarrow> string \<Rightarrow> string \<Rightarrow> string" where
  "bracket_loop in_bracket in_paren result [] = result"
| "bracket_loop in_bracket in_paren result (c # cs) =
     (if \<not> in_bracket \<and> \<not> in_paren then
        if c = CHR ''['' then bracket_loop True in_paren result cs
        else if c = CHR ''('' then bracket_loop in_bracket True result cs
        else bracket_loop in_bracket in_paren (result @ [c]) cs
      else if in_bracket \<and> c = CHR '']'' then bracket_loop False in_paren result cs
      else if in_paren \<and> c = CHR '')'' then bracket_loop in_bracket False result cs
      else bracket_loop in_bracket in_paren result cs)"

definition remove_bracketed_text :: "string \<Rightarrow> string" where
  "remove_bracketed_text text = bracket_loop False False [] text"

definition lrtrim :: "string \<Rightarrow> string" where
  "lrtrim s = (let s = dropWhile isspace s in rev (dropWhile isspace (rev s)))"

definition process_text :: "string \<Rightarrow> string" where
  "process_text input = lrtrim (remove_bracketed_text input)"

section \<open>Lemmas\<close>

lemma bracket_loop_acc: "bracket_loop b p (r @ s) cs = r @ bracket_loop b p s cs"
  by (induction b p s cs rule: bracket_loop.induct) auto

lemma bracket_loop_Nil: "bracket_loop b p r cs = r @ bracket_loop b p [] cs"
  using bracket_loop_acc [of b p r "[]" cs] by simp

lemma bracket_loop_clean: "\<forall>c \<in> set (bracket_loop b p [] cs). c \<noteq> CHR ''['' \<and> c \<noteq> CHR ''(''"
proof (induction cs arbitrary: b p)
  case (Cons c cs)
  then show ?case by (auto simp: bracket_loop_Nil [of _ _ "[c]"])
qed simp

lemma bracket_loop_plain:
  "\<forall>c \<in> set u. c \<noteq> CHR ''['' \<and> c \<noteq> CHR ''('' \<Longrightarrow>
     bracket_loop False False r (u @ cs) = bracket_loop False False (r @ u) cs"
  by (induction u arbitrary: r) auto

lemma bracket_loop_skip_bracket:
  "CHR '']'' \<notin> set w \<Longrightarrow> bracket_loop True False r (w @ CHR '']'' # v) = bracket_loop False False r v"
  by (induction w) auto

lemma bracket_loop_skip_paren:
  "CHR '')'' \<notin> set w \<Longrightarrow> bracket_loop False True r (w @ CHR '')'' # v) = bracket_loop False False r v"
  by (induction w) auto

lemma bracket_loop_unclosed:
  "CHR '']'' \<notin> set w \<Longrightarrow> bracket_loop True False r w = r"
  "CHR '')'' \<notin> set w \<Longrightarrow> bracket_loop False True r w = r"
  by (induction w) auto

lemma remove_bracketed_plain:
  "\<forall>c \<in> set u. c \<noteq> CHR ''['' \<and> c \<noteq> CHR ''('' \<Longrightarrow> remove_bracketed_text u = u"
  using bracket_loop_plain [of u "[]" "[]"] by (simp add: remove_bracketed_text_def)

lemma dropWhile_hd: "dropWhile P xs \<noteq> [] \<Longrightarrow> \<not> P (hd (dropWhile P xs))"
  by (rule hd_dropWhile)

lemma lrtrim_ends:
  assumes "lrtrim s \<noteq> []"
  shows "\<not> isspace (hd (lrtrim s)) \<and> \<not> isspace (last (lrtrim s))"
proof -
  let ?t = "dropWhile isspace s" and ?r = "dropWhile isspace (rev (dropWhile isspace s))"
  have r: "?r \<noteq> []" using assms by (simp add: lrtrim_def)
  have t: "?t \<noteq> []" using r by (metis dropWhile.simps(1) rev.simps(1))
  have "\<not> isspace (hd ?r)" using r by (rule dropWhile_hd)
  then have l: "\<not> isspace (last (lrtrim s))" using r by (simp add: lrtrim_def last_rev)
  obtain w where "?t = rev ?r @ w"
    by (metis rev_append rev_rev_ident takeWhile_dropWhile_id)
  then have "hd (rev ?r) = hd ?t" using r by (metis hd_append2 rev_is_Nil_conv)
  then show ?thesis using l dropWhile_hd [OF t] by (simp add: lrtrim_def)
qed

lemma lrtrim_id: "s \<noteq> [] \<Longrightarrow> \<not> isspace (hd s) \<Longrightarrow> \<not> isspace (last s) \<Longrightarrow> lrtrim s = s"
proof -
  assume a: "s \<noteq> []" "\<not> isspace (hd s)" "\<not> isspace (last s)"
  have "dropWhile isspace s = s" using a by (cases s) auto
  moreover have "dropWhile isspace (rev s) = rev s" using a by (cases s rule: rev_cases) auto
  ultimately show ?thesis by (simp add: lrtrim_def)
qed

lemma lrtrim_idem: "lrtrim (lrtrim s) = lrtrim s"
proof (cases "lrtrim s = []")
  case True
  then show ?thesis by (simp only: True) (simp add: lrtrim_def)
next
  case False
  then show ?thesis using lrtrim_ends [OF False] by (intro lrtrim_id) auto
qed

lemma set_lrtrim: "set (lrtrim s) \<subseteq> set s"
  by (auto simp: lrtrim_def dest!: set_dropWhileD)

section \<open>Properties\<close>

text \<open>
  Cleaning removes each bracketed or parenthesised passage up to its first closing
  character, and everything after an opening character that is never closed.
\<close>

theorem remove_bracketed_passage:
  assumes "\<forall>c \<in> set u. c \<noteq> CHR ''['' \<and> c \<noteq> CHR ''(''"
  shows "(CHR '']'' \<notin> set w \<longrightarrow>
      remove_bracketed_text (u @ CHR ''['' # w @ CHR '']'' # v) = u @ remove_bracketed_text v \<and>
      remove_bracketed_text (u @ CHR ''['' # w) = u) \<and>
    (CHR '')'' \<notin> set w \<longrightarrow>
      remove_bracketed_text (u @ CHR ''('' # w @ CHR '')'' # v) = u @ remove_bracketed_text v \<and>
      remove_bracketed_text (u @ CHR ''('' # w) = u)"
  using assms
  by (simp add: remove_bracketed_text_def bracket_loop_plain bracket_loop_skip_bracket
      bracket_loop_skip_paren bracket_loop_unclosed bracket_loop_Nil [of False False u])

theorem remove_bracketed_passage_witness:
  "remove_bracketed_text ''hi [a (b] there'' = ''hi  there''"
proof -
  have "remove_bracketed_text (''hi '' @ CHR ''['' # ''a (b'' @ CHR '']'' # '' there'') =
      ''hi '' @ remove_bracketed_text '' there''"
    using remove_bracketed_passage [of "''hi ''" "''a (b''" "'' there''"] by simp
  then show ?thesis by (simp add: remove_bracketed_plain)
qed

text \<open>
  A processed text has no opening bracket, and unless it is empty it starts and ends with a
  character that is not white space; processing it again changes nothing.
\<close>

theorem process_text_normal:
  "process_text (process_text s) = process_text s \<and>
   (\<forall>c \<in> set (process_text s). c \<noteq> CHR ''['' \<and> c \<noteq> CHR ''('') \<and>
   (process_text s = [] \<or>
     \<not> isspace (hd (process_text s)) \<and> \<not> isspace (last (process_text s)))"
proof -
  have "\<forall>c \<in> set (remove_bracketed_text s). c \<noteq> CHR ''['' \<and> c \<noteq> CHR ''(''"
    unfolding remove_bracketed_text_def by (rule bracket_loop_clean)
  then have c: "\<forall>c \<in> set (process_text s). c \<noteq> CHR ''['' \<and> c \<noteq> CHR ''(''"
    unfolding process_text_def by (meson set_lrtrim subsetD)
  have "process_text (process_text s) = lrtrim (process_text s)"
    by (simp only: process_text_def [of "process_text s"] remove_bracketed_plain [OF c])
  also have "\<dots> = process_text s" by (simp only: process_text_def lrtrim_idem)
  finally have i: "process_text (process_text s) = process_text s" .
  have e: "process_text s = [] \<or> \<not> isspace (hd (process_text s)) \<and> \<not> isspace (last (process_text s))"
    unfolding process_text_def by (metis lrtrim_ends)
  show ?thesis using i c e by (intro conjI)
qed

theorem process_text_normal_witness:
  "process_text '' [laughs] hello (door) '' = ''hello'' \<and>
   process_text (process_text '' [laughs] hello (door) '') = ''hello'' \<and>
   \<not> isspace (hd (process_text '' [laughs] hello (door) ''))"
proof -
  have e: "process_text '' [laughs] hello (door) '' = ''hello''" by code_simp
  then show ?thesis using process_text_normal [of "'' [laughs] hello (door) ''"] by simp
qed

end
