(* ===== verification/Channels.thy ===== *)
theory Channels
  imports Strings
begin

text \<open>
  The two channels that carry transcriptions out of the main loop of \<open>src/stream/stream.cpp\<close>:
  \<open>TranscriptionQueue\<close>, drained by \<open>broadcast_thread\<close>, and \<open>TranscriptionLogger\<close> with its writer
  thread.  Each has one producer (the main loop) and one consumer, for which the lock-free queue
  they contain is first-in first-out; it is a list here.  What other threads do while a call
  waits is an argument of the model or a step of the relation.
\<close>

section \<open>TranscriptionQueue\<close>

record transcription_queue =
  tq_queue :: "string list"
  tq_new_data :: bool

definition tq_empty :: transcription_queue where
  "tq_empty = \<lparr>tq_queue = [], tq_new_data = False\<rparr>"

definition tq_push :: "transcription_queue \<Rightarrow> string \<Rightarrow> transcription_queue" where
  "tq_push q t = q\<lparr>tq_queue := tq_queue q @ [t], tq_new_data := True\<rparr>"

definition tq_pop :: "transcription_queue \<Rightarrow> string option \<times> transcription_queue" where
  "tq_pop q = (case tq_queue q of [] \<Rightarrow> (None, q) | t # ts \<Rightarrow> (Some t, q\<lparr>tq_queue := ts\<rparr>))"

text \<open>
  \<open>pushed\<close>: what the producer pushes between the first attempt and the end of the wait, which is
  when the predicate holds or the time is out; \<open>running\<close>: the flag \<open>is_running\<close> at that moment.
\<close>

definition tq_wait_and_pop :: "transcription_queue \<Rightarrow> string list \<Rightarrow> bool
    \<Rightarrow> string option \<times> transcription_queue" where
  "tq_wait_and_pop q pushed running =
     (case tq_pop q of (Some t, q') \<Rightarrow> (Some t, foldl tq_push q' pushed)
      | (None, q') \<Rightarrow>
        let q1 = foldl tq_push q' pushed in
        if tq_new_data q1 \<or> \<not> running then
          let q2 = q1\<lparr>tq_new_data := False\<rparr> in
          if \<not> running then (None, q2) else tq_pop q2
        else (None, q1))"

text \<open>
  \<open>broadcast_thread\<close>: each entry of the schedule is one iteration, with \<open>is_running\<close> at the loop
  test, the pushes during \<open>wait_and_pop\<close> and \<open>is_running\<close> at the end of its wait.  The result is
  the sequence passed to \<open>broadcast\<close>.
\<close>

fun broadcast_thread :: "transcription_queue \<Rightarrow> (bool \<times> string list \<times> bool) list
    \<Rightarrow> string list \<times> transcription_queue" where
  "broadcast_thread q [] = ([], q)"
| "broadcast_thread q ((is_running, pushed, running) # sched) =
     (if \<not> is_running then ([], q)
      else case tq_wait_and_pop q pushed running of
        (Some t, q') \<Rightarrow> (let (ts, q'') = broadcast_thread q' sched in (t # ts, q''))
      | (None, q') \<Rightarrow> broadcast_thread q' sched)"

section \<open>The interface of a channel and its consumer\<close>

text \<open>
  What a consumer relies on: an item is taken from the front, and what is pushed in the meantime
  is appended.  \<open>take_from q ev\<close> is one attempt during which the environment does \<open>ev\<close>.
\<close>

primrec consume :: "('q \<Rightarrow> 'e \<Rightarrow> 'm option \<times> 'q) \<Rightarrow> 'q \<Rightarrow> 'e list \<Rightarrow> 'm list \<times> 'q" where
  "consume take_from q [] = ([], q)"
| "consume take_from q (e # es) =
     (case take_from q e of
        (None, q') \<Rightarrow> consume take_from q' es
      | (Some m, q') \<Rightarrow> (let (ms, q'') = consume take_from q' es in (m # ms, q'')))"

locale message_channel =
  fixes contents :: "'q \<Rightarrow> 'm list"
    and take_from :: "'q \<Rightarrow> 'e \<Rightarrow> 'm option \<times> 'q"
    and added :: "'e \<Rightarrow> 'm list"
    and enabled :: "'e \<Rightarrow> bool"
  assumes conserve: "take_from q e = (r, q') \<Longrightarrow>
      (case r of None \<Rightarrow> [] | Some m \<Rightarrow> [m]) @ contents q' = contents q @ added e"
    and progress: "contents q \<noteq> [] \<Longrightarrow> enabled e \<Longrightarrow> fst (take_from q e) \<noteq> None"
begin

lemma consume_conserves:
  "consume take_from q es = (ms, q') \<Longrightarrow> ms @ contents q' = contents q @ concat (map added es)"
proof (induction es arbitrary: q ms)
  case (Cons e es)
  obtain r q1 where t: "take_from q e = (r, q1)" by fastforce
  obtain ms1 where c: "consume take_from q1 es = (ms1, q')" and
      ms: "ms = (case r of None \<Rightarrow> [] | Some m \<Rightarrow> [m]) @ ms1"
    using Cons.prems t by (auto split: option.splits prod.splits)
  then show ?case
    using Cons.IH [OF c] conserve [OF t] by (metis append.assoc concat.simps(2) list.map(2))
qed simp

lemma consume_length:
  "list_all enabled es \<Longrightarrow>
    min (length es) (length (contents q)) \<le> length (fst (consume take_from q es))"
proof (induction es arbitrary: q)
  case (Cons e es)
  obtain r q1 where t: "take_from q e = (r, q1)" by fastforce
  show ?case
  proof (cases "contents q = []")
    case False
    then obtain m where r: "r = Some m" using progress [of q e] t Cons.prems by auto
    have "m # contents q1 = contents q @ added e" using conserve [OF t] r by simp
    then have "length (contents q) \<le> Suc (length (contents q1))"
      by (metis length_Cons length_append le_add1)
    then show ?thesis using Cons.IH [of q1] Cons.prems t r by (auto split: prod.splits)
  qed simp
qed simp

lemma consume_delivers:
  assumes "list_all enabled es" and "length (contents q) \<le> length es"
  shows "\<exists>rest. fst (consume take_from q es) = contents q @ rest"
proof -
  obtain ms q' where c: "consume take_from q es = (ms, q')" by fastforce
  have "length (contents q) \<le> length ms" using consume_length [OF assms(1), of q] assms(2) c by simp
  moreover have m: "ms @ contents q' = contents q @ concat (map added es)" by (rule consume_conserves [OF c])
  ultimately have "take (length (contents q)) ms = contents q"
    by (metis append_eq_conv_conj take_append take_eq_Nil2 append_Nil2 diff_is_0_eq take0)
  then show ?thesis by (metis append_take_drop_id c fst_conv)
qed

end

lemma tq_pushes: "tq_queue (foldl tq_push q ts) = tq_queue q @ ts"
  by (induction ts arbitrary: q) (simp_all add: tq_push_def)

abbreviation tq_attempt :: "transcription_queue \<Rightarrow> bool \<times> string list \<times> bool
    \<Rightarrow> string option \<times> transcription_queue" where
  "tq_attempt q e \<equiv> tq_wait_and_pop q (fst (snd e)) (snd (snd e))"

interpretation tq: message_channel tq_queue tq_attempt "\<lambda>e. fst (snd e)" "\<lambda>_. True"
proof (unfold_locales, goal_cases)
  case (1 q e r q')
  then show ?case
    by (auto simp: tq_wait_and_pop_def tq_pop_def tq_pushes Let_def split: list.splits if_splits)
next
  case (2 q e)
  then show ?case by (auto simp: tq_wait_and_pop_def tq_pop_def split: list.splits)
qed

lemma broadcast_thread_consume:
  "broadcast_thread q sched = consume tq_attempt q (takeWhile fst sched)"
  by (induction q sched rule: broadcast_thread.induct) (auto split: option.splits prod.splits)

section \<open>TranscriptionLogger\<close>

datatype writer_pc = LoopTest | Waiting | Draining | FinalDrain | Finished

text \<open>
  \<open>lg_file\<close> is what the log file holds, one line per entry; \<open>lg_logged\<close> records the messages that
  \<open>log\<close> accepted and \<open>lg_late\<close> whether one was accepted after \<open>stop\<close> (neither is read by a step).
\<close>

record logger =
  lg_queue :: "string list"
  lg_buffer :: "string list"
  lg_running :: bool
  lg_initialized :: bool
  lg_new_data :: bool
  lg_flush_threshold :: nat
  lg_pc :: writer_pc
  lg_file :: "string list"
  lg_logged :: "string list"
  lg_late :: bool

definition get_log_directory :: "(string \<Rightarrow> string option) \<Rightarrow> string option" where
  "get_log_directory getenv =
     (case (case getenv ''HOME'' of Some h \<Rightarrow> Some h | None \<Rightarrow> getenv ''USERPROFILE'') of
        None \<Rightarrow> None | Some home \<Rightarrow> Some (path_join home ''.wstream''))"

text \<open>The constructor: \<open>dir_exists\<close> and \<open>create\<close> are the file system's answers for the directory.\<close>

definition logger_new :: "(string \<Rightarrow> string option) \<Rightarrow> (string \<Rightarrow> bool) \<Rightarrow> (string \<Rightarrow> bool) \<Rightarrow> nat \<Rightarrow> logger" where
  "logger_new getenv dir_exists create threshold =
     (let l = \<lparr>lg_queue = [], lg_buffer = [], lg_running = False, lg_initialized = False,
               lg_new_data = False, lg_flush_threshold = threshold, lg_pc = Finished, lg_file = [],
               lg_logged = [], lg_late = False\<rparr>
      in case get_log_directory getenv of None \<Rightarrow> l
         | Some dir \<Rightarrow>
           if \<not> dir_exists dir \<and> \<not> create dir then l
           else l\<lparr>lg_initialized := True, lg_running := True, lg_pc := LoopTest\<rparr>)"

definition logger_log :: "logger \<Rightarrow> string \<Rightarrow> logger" where
  "logger_log l t =
     (if \<not> lg_initialized l \<or> t = [] then l
      else l\<lparr>lg_queue := lg_queue l @ [t], lg_new_data := True, lg_logged := lg_logged l @ [t],
             lg_late := (lg_late l \<or> \<not> lg_running l)\<rparr>)"

definition logger_stop :: "logger \<Rightarrow> logger" where
  "logger_stop l = l\<lparr>lg_running := False\<rparr>"

text \<open>\<open>opened\<close>: whether the log file could be opened for appending.\<close>

definition flush_buffer_to_file :: "bool \<Rightarrow> logger \<Rightarrow> logger" where
  "flush_buffer_to_file opened l =
     (if lg_buffer l = [] then l
      else if \<not> opened then l
      else l\<lparr>lg_file := lg_file l @ lg_buffer l, lg_buffer := []\<rparr>)"

text \<open>
  One step of \<open>writer_loop\<close>, by program point; \<open>timeout\<close> and \<open>opened\<close> are the environment's
  choices.  A wait that may not end yet is a step that changes nothing.
\<close>

definition writer_step :: "bool \<Rightarrow> bool \<Rightarrow> logger \<Rightarrow> logger" where
  "writer_step timeout opened l =
     (case lg_pc l of
        LoopTest \<Rightarrow> l\<lparr>lg_pc := (if lg_running l then Waiting else FinalDrain)\<rparr>
      | Waiting \<Rightarrow>
          if lg_new_data l \<or> \<not> lg_running l \<or> timeout
          then l\<lparr>lg_new_data := False, lg_pc := Draining\<rparr> else l
      | Draining \<Rightarrow>
          (case lg_queue l of
             [] \<Rightarrow> l\<lparr>lg_pc := LoopTest\<rparr>
           | t # ts \<Rightarrow>
               let l1 = l\<lparr>lg_queue := ts, lg_buffer := lg_buffer l @ [t]\<rparr>
               in if length (lg_buffer l1) \<ge> lg_flush_threshold l1
                  then flush_buffer_to_file opened l1 else l1)
      | FinalDrain \<Rightarrow>
          (case lg_queue l of
             [] \<Rightarrow> (flush_buffer_to_file opened l)\<lparr>lg_pc := Finished\<rparr>
           | t # ts \<Rightarrow> l\<lparr>lg_queue := ts, lg_buffer := lg_buffer l @ [t]\<rparr>)
      | Finished \<Rightarrow> l)"

text \<open>The threads interleave: the main thread logs and stops, the writer steps.\<close>

inductive logger_run :: "logger \<Rightarrow> logger \<Rightarrow> bool" for l0 where
  lr_start: "logger_run l0 l0"
| lr_log: "logger_run l0 l \<Longrightarrow> logger_run l0 (logger_log l t)"
| lr_stop: "logger_run l0 l \<Longrightarrow> logger_run l0 (logger_stop l)"
| lr_writer: "logger_run l0 l \<Longrightarrow> logger_run l0 (writer_step timeout opened l)"

subsection \<open>Invariant\<close>

definition logger_inv :: "logger \<Rightarrow> bool" where
  "logger_inv l \<longleftrightarrow>
     lg_file l @ lg_buffer l @ lg_queue l = lg_logged l \<and>
     (lg_pc l \<in> {FinalDrain, Finished} \<longrightarrow> \<not> lg_running l) \<and>
     (lg_pc l = Finished \<and> \<not> lg_late l \<longrightarrow> lg_queue l = [])"

lemma logger_inv_new: "logger_inv (logger_new getenv ex cr n)"
  by (auto simp: logger_new_def logger_inv_def Let_def split: option.splits)

lemma logger_inv_log: "logger_inv l \<Longrightarrow> logger_inv (logger_log l t)"
  by (auto simp: logger_log_def logger_inv_def)

lemma logger_inv_stop: "logger_inv l \<Longrightarrow> logger_inv (logger_stop l)"
  by (auto simp: logger_stop_def logger_inv_def)

lemma flush_conserves [simp]:
  "lg_file (flush_buffer_to_file b l) @ lg_buffer (flush_buffer_to_file b l) @ zs =
   lg_file l @ lg_buffer l @ zs"
  "lg_file (flush_buffer_to_file b l) @ lg_buffer (flush_buffer_to_file b l) = lg_file l @ lg_buffer l"
  by (simp_all add: flush_buffer_to_file_def)

lemma flush_frame [simp]:
  "lg_queue (flush_buffer_to_file b l) = lg_queue l"
  "lg_pc (flush_buffer_to_file b l) = lg_pc l"
  "lg_running (flush_buffer_to_file b l) = lg_running l"
  "lg_logged (flush_buffer_to_file b l) = lg_logged l"
  "lg_late (flush_buffer_to_file b l) = lg_late l"
  "lg_flush_threshold (flush_buffer_to_file b l) = lg_flush_threshold l"
  by (simp_all add: flush_buffer_to_file_def)

lemma logger_inv_writer: "logger_inv l \<Longrightarrow> logger_inv (writer_step timeout opened l)"
  by (cases "lg_pc l") (auto simp: writer_step_def logger_inv_def Let_def split: list.splits)

lemma logger_run_inv: "logger_run l0 l \<Longrightarrow> logger_inv l0 \<Longrightarrow> logger_inv l"
  by (induction rule: logger_run.induct)
    (simp_all add: logger_inv_log logger_inv_stop logger_inv_writer)


subsection \<open>Shutdown\<close>

text \<open>How many writer steps remain after \<open>stop\<close>.\<close>

definition writer_left :: "logger \<Rightarrow> nat" where
  "writer_left l = (case lg_pc l of Finished \<Rightarrow> 0 | FinalDrain \<Rightarrow> length (lg_queue l) + 1
     | LoopTest \<Rightarrow> length (lg_queue l) + 2 | Draining \<Rightarrow> length (lg_queue l) + 3
     | Waiting \<Rightarrow> length (lg_queue l) + 4)"

lemma writer_left_step:
  "\<not> lg_running l \<Longrightarrow> writer_left (writer_step timeout opened l) \<le> writer_left l - 1"
  by (cases "lg_pc l") (auto simp: writer_step_def writer_left_def Let_def split: list.splits)

lemma writer_step_frame:
  "lg_running (writer_step timeout opened l) = lg_running l"
  "lg_late (writer_step timeout opened l) = lg_late l"
  "lg_logged (writer_step timeout opened l) = lg_logged l"
  by (auto simp: writer_step_def Let_def split: writer_pc.splits list.splits)

definition writer_finish :: "bool list \<Rightarrow> logger \<Rightarrow> logger" where
  "writer_finish timeouts l = fold (\<lambda>timeout. writer_step timeout True) timeouts l"

lemma writer_finish_Cons:
  "writer_finish (t # ts) l = writer_finish ts (writer_step t True l)"
  by (simp add: writer_finish_def)

text \<open>When every flush succeeds, the buffer is empty once the writer has finished.\<close>

lemma writer_step_flushed:
  "lg_pc l = Finished \<longrightarrow> lg_buffer l = [] \<Longrightarrow>
   lg_pc (writer_step t True l) = Finished \<longrightarrow> lg_buffer (writer_step t True l) = []"
  by (cases "lg_pc l") (auto simp: writer_step_def Let_def flush_buffer_to_file_def split: list.splits)

lemma writer_finish_finishes:
  "\<not> lg_running l \<Longrightarrow> logger_inv l \<Longrightarrow> (lg_pc l = Finished \<longrightarrow> lg_buffer l = []) \<Longrightarrow>
   writer_left l \<le> length ts \<Longrightarrow>
   lg_pc (writer_finish ts l) = Finished \<and> lg_buffer (writer_finish ts l) = [] \<and>
   logger_inv (writer_finish ts l) \<and> lg_late (writer_finish ts l) = lg_late l \<and>
   lg_logged (writer_finish ts l) = lg_logged l"
proof (induction ts arbitrary: l)
  case Nil
  then have "lg_pc l = Finished" by (auto simp: writer_left_def split: writer_pc.splits)
  then show ?case using Nil by (simp add: writer_finish_def)
next
  case (Cons t ts)
  let ?l = "writer_step t True l"
  have "writer_left ?l \<le> length ts" using writer_left_step [OF Cons.prems(1), of t True] Cons.prems(4) by simp
  moreover have "lg_pc ?l = Finished \<longrightarrow> lg_buffer ?l = []" using Cons.prems(3) by (rule writer_step_flushed)
  moreover have "\<not> lg_running ?l" using Cons.prems(1) by (simp add: writer_step_frame)
  moreover have "logger_inv ?l" using Cons.prems(2) by (rule logger_inv_writer)
  ultimately show ?case using Cons.IH [of ?l] by (simp add: writer_finish_Cons writer_step_frame)
qed

section \<open>Properties\<close>

text \<open>
  The broadcast thread passes on exactly what was pushed, in order: the messages it
  delivered, followed by what is still queued when it stops, are the initial queue followed by
  all that was pushed while it ran.
\<close>

theorem broadcast_thread_order:
  assumes "broadcast_thread q sched = (ms, q')"
  shows "ms @ tq_queue q' = tq_queue q @ concat (map (\<lambda>e. fst (snd e)) (takeWhile fst sched))"
  using tq.consume_conserves [of q "takeWhile fst sched" ms q'] assms
  by (simp add: broadcast_thread_consume)

theorem broadcast_thread_order_witness:
  "fst (broadcast_thread (tq_push tq_empty ''a'')
      [(True, [''b''], True), (True, [], True), (True, [''c'', ''d''], True), (False, [], False)]) @ [''d''] =
    [''a'', ''b'', ''c'', ''d'']"
proof -
  let ?q = "tq_push tq_empty ''a''"
  let ?s = "[(True, [''b''], True), (True, [], True), (True, [''c'', ''d''], True), (False, [], False)]"
  have b: "broadcast_thread ?q ?s = ([''a'', ''b'', ''c''], \<lparr>tq_queue = [''d''], tq_new_data = False\<rparr>)"
    by code_simp
  show ?thesis using broadcast_thread_order [OF b] unfolding b by (simp add: tq_push_def tq_empty_def)
qed

text \<open>
  C12: while the program runs, no message waits longer than its place in the queue: \<open>n\<close> queued
  messages have all been broadcast, in order, after \<open>n\<close> iterations.
\<close>

theorem broadcast_thread_delivers:
  assumes "list_all fst sched" and "length (tq_queue q) \<le> length sched"
  shows "\<exists>rest. fst (broadcast_thread q sched) = tq_queue q @ rest"
proof -
  have tw: "takeWhile fst sched = sched" using assms(1) by (simp add: list_all_iff takeWhile_eq_all_conv)
  then show ?thesis
    unfolding broadcast_thread_consume tw
    by (intro tq.consume_delivers assms(2)) (simp add: list_all_iff)
qed

theorem broadcast_thread_delivers_witness:
  "\<exists>rest. fst (broadcast_thread (tq_push (tq_push tq_empty ''a'') ''b'')
      [(True, [], True), (True, [''c''], False)]) = [''a'', ''b''] @ rest"
  using broadcast_thread_delivers [of "[(True, [], True), (True, [''c''], False)]"
      "tq_push (tq_push tq_empty ''a'') ''b''"]
  by (simp add: tq_push_def tq_empty_def)

text \<open>
  At every moment, under every interleaving of the main thread with the writer and whatever
  the file system does, the log file followed by the buffer and the queue is exactly the sequence
  of messages logged: nothing is lost, duplicated or reordered.
\<close>

theorem logger_conserves:
  assumes "logger_run (logger_new getenv dir_exists create threshold) l"
  shows "lg_file l @ lg_buffer l @ lg_queue l = lg_logged l"
  using logger_run_inv [OF assms logger_inv_new] by (simp add: logger_inv_def)

theorem logger_conserves_witness:
  "\<exists>l. logger_run (logger_new (\<lambda>_. Some ''/h'') (\<lambda>_. True) (\<lambda>_. False) 2) l \<and>
    lg_logged l = [''x''] \<and> lg_file l @ lg_buffer l @ lg_queue l = [''x'']"
proof -
  let ?l0 = "logger_new (\<lambda>_. Some ''/h'') (\<lambda>_. True) (\<lambda>_. False) 2"
  have r: "logger_run ?l0 (logger_log ?l0 ''x'')" by (intro lr_log lr_start)
  have "lg_logged (logger_log ?l0 ''x'') = [''x'']"
    by (simp add: logger_log_def logger_new_def get_log_directory_def path_join_def)
  then show ?thesis using r logger_conserves [OF r] by auto
qed

text \<open>
  C14: once \<open>stop\<close> was called, the writer finishes within as many steps as there are queued
  messages plus four, and if the file can be opened it then holds every message logged before.
\<close>

theorem logger_shutdown_flushes:
  assumes "logger_run (logger_new getenv dir_exists create threshold) l"
    and "lg_pc l \<noteq> Finished" and "\<not> lg_late l"
    and "length (lg_queue l) + 4 \<le> length timeouts"
  shows "lg_pc (writer_finish timeouts (logger_stop l)) = Finished \<and>
    lg_file (writer_finish timeouts (logger_stop l)) = lg_logged l"
proof -
  have inv: "logger_inv (logger_stop l)"
    using logger_run_inv [OF assms(1) logger_inv_new] by (rule logger_inv_stop)
  have "writer_left (logger_stop l) \<le> length timeouts"
    using assms(4) by (auto simp: writer_left_def logger_stop_def split: writer_pc.splits)
  then have f: "lg_pc (writer_finish timeouts (logger_stop l)) = Finished"
      "lg_buffer (writer_finish timeouts (logger_stop l)) = []"
      "logger_inv (writer_finish timeouts (logger_stop l))"
      "lg_late (writer_finish timeouts (logger_stop l)) = lg_late l"
      "lg_logged (writer_finish timeouts (logger_stop l)) = lg_logged l"
    using writer_finish_finishes [of "logger_stop l" timeouts] inv assms(2)
    by (auto simp: logger_stop_def)
  then show ?thesis using assms(3) by (auto simp: logger_inv_def)
qed

theorem logger_shutdown_flushes_witness:
  "lg_file (writer_finish [False, False, False, False, False]
     (logger_stop (logger_log (logger_new (\<lambda>_. Some ''/h'') (\<lambda>_. True) (\<lambda>_. False) 2) ''x''))) = [''x'']"
proof -
  let ?l0 = "logger_new (\<lambda>_. Some ''/h'') (\<lambda>_. True) (\<lambda>_. False) 2"
  have r: "logger_run ?l0 (logger_log ?l0 ''x'')" by (intro lr_log lr_start)
  have l: "lg_pc (logger_log ?l0 ''x'') \<noteq> Finished" "\<not> lg_late (logger_log ?l0 ''x'')"
      "length (lg_queue (logger_log ?l0 ''x'')) + 4 \<le> length [False, False, False, False, False]"
      "lg_logged (logger_log ?l0 ''x'') = [''x'']"
    by (simp_all add: logger_log_def logger_new_def get_log_directory_def path_join_def)
  show ?thesis using logger_shutdown_flushes [OF r l(1-3)] l(4) by simp
qed

end
