(* ===== verification/Security.thy ===== *)
theory Security
  imports Strings
begin

unbundle bit_operations_syntax

text \<open>
  The security helpers of \<open>src/stream/stream.cpp\<close>: the limits and the Origin allow-list, the control
  token and its comparison, the host validator and \<open>run_ping\<close>, and the transcript reader with its
  containment check.  The environment, the file system and the spawned process are parameters.
\<close>

section \<open>Configuration\<close>

definition WSTREAM_MAX_CLIENTS :: nat where
  "WSTREAM_MAX_CLIENTS = 64"

definition WSTREAM_MAX_TRANSCRIPT_BYTES :: nat where
  "WSTREAM_MAX_TRANSCRIPT_BYTES = 4 * 1024 * 1024"

definition WSTREAM_ALLOWED_ORIGINS :: "string list" where
  "WSTREAM_ALLOWED_ORIGINS = [
     '''',
     ''http://localhost'',
     ''http://localhost:8080'',
     ''http://127.0.0.1'',
     ''http://127.0.0.1:8080'']"

definition load_control_token :: "(string \<Rightarrow> string option) \<Rightarrow> string" where
  "load_control_token getenv = (case getenv ''WSTREAM_CONTROL_TOKEN'' of Some t \<Rightarrow> t | None \<Rightarrow> '''')"

section \<open>Comparing the token\<close>

text \<open>The loop accumulates the differing bits of all bytes in the \<open>volatile unsigned char\<close> \<open>r\<close>.\<close>

fun secure_loop :: "byte \<Rightarrow> string \<Rightarrow> string \<Rightarrow> byte" where
  "secure_loop r (a # as) (b # bs) = secure_loop (r OR (of_char a XOR of_char b)) as bs"
| "secure_loop r _ _ = r"

definition secure_compare :: "string \<Rightarrow> string \<Rightarrow> bool" where
  "secure_compare a b = (if length a \<noteq> length b then False else secure_loop 0 a b = 0)"

lemma or_eq_0_iff: "(r OR s :: byte) = 0 \<longleftrightarrow> r = 0 \<and> s = 0"
  by (metis or.left_neutral or_eq_0_iff)

lemma xor_eq_0_iff: "(r XOR s :: byte) = 0 \<longleftrightarrow> r = s"
  by (metis xor.assoc xor.right_neutral xor_self_eq)

lemma of_char_byte_inj: "(of_char a :: byte) = of_char b \<longleftrightarrow> a = b"
proof
  assume "(of_char a :: byte) = of_char b"
  then have "of_nat (of_char a) = (of_nat (of_char b) :: byte)" by (simp only: of_nat_of_char)
  then have "(of_char a :: nat) mod 256 = of_char b mod 256"
    by (simp only: word_of_nat_eq_iff) (simp add: take_bit_eq_mod)
  then show "a = b" by simp
qed simp

lemma secure_loop_0: "length a = length b \<Longrightarrow> secure_loop r a b = 0 \<longleftrightarrow> r = 0 \<and> a = b"
  by (induction r a b rule: secure_loop.induct) (auto simp: or_eq_0_iff xor_eq_0_iff of_char_byte_inj)

section \<open>Hosts and the diagnostic command\<close>

text \<open>The two character classes of the regular expression, and \<open>std::regex_match\<close> of the whole string.\<close>

definition host_first :: "char \<Rightarrow> bool" where
  "host_first c \<longleftrightarrow> isalpha c \<or> isdigit c \<or> c = CHR ''.'' \<or> c = CHR '':''"

definition host_rest :: "char \<Rightarrow> bool" where
  "host_rest c \<longleftrightarrow> isalpha c \<or> isdigit c \<or> c = CHR ''.'' \<or> c = CHR ''-'' \<or> c = CHR '':''"

definition is_safe_host :: "string \<Rightarrow> bool" where
  "is_safe_host h = (case h of [] \<Rightarrow> False
     | c # cs \<Rightarrow> host_first c \<and> list_all host_rest cs \<and> length cs \<le> 252)"

text \<open>
  \<open>run_ping\<close>: \<open>pipe_ok\<close> is whether \<open>pipe()\<close> succeeds, and \<open>spawn\<close> takes the argument vector to
  \<open>posix_spawnp\<close>'s return code and the successive results of \<open>read\<close>, each of at most 512 bytes.
\<close>

fun read_capped :: "string \<Rightarrow> string list \<Rightarrow> string" where
  "read_capped out [] = out"
| "read_capped out (c # cs) =
     (if c = [] then out
      else if length (out @ c) > 8192 then out @ c else read_capped (out @ c) cs)"

definition ping_argv :: "string \<Rightarrow> string list" where
  "ping_argv host = [''ping'', ''-c'', ''1'', ''-W'', ''1'', takeWhile (\<lambda>c. c \<noteq> NUL) host]"

definition run_ping :: "bool \<Rightarrow> (string list \<Rightarrow> int \<times> string list) \<Rightarrow> string \<Rightarrow> string" where
  "run_ping pipe_ok spawn host =
     (if \<not> pipe_ok then ''diagnostic: pipe() failed''
      else let (rc, chunks) = spawn (ping_argv host)
       in if rc \<noteq> 0 then ''diagnostic: failed to spawn ping'' else read_capped [] chunks)"

section \<open>Reading a transcript\<close>

text \<open>
  The file system as the code sees it: \<open>fs_canonical\<close> is \<open>weakly_canonical\<close> (\<^term>\<open>None\<close> when it sets
  the error code), \<open>fs_regular\<close> returns \<open>is_regular_file\<close>'s result and whether it set the error code.
\<close>

record file_system =
  fs_home :: "string option"
  fs_canonical :: "string \<Rightarrow> string option"
  fs_regular :: "string \<Rightarrow> bool \<times> bool"
  fs_size :: "string \<Rightarrow> nat option"
  fs_read :: "string \<Rightarrow> string option"

definition bad_filename :: "string \<Rightarrow> bool" where
  "bad_filename f \<longleftrightarrow> f = [] \<or> str_find f ''/'' 0 \<noteq> None \<or> str_find f [CHR 0x5C] 0 \<noteq> None \<or>
     str_find f [NUL] 0 \<noteq> None \<or> str_find f ''..'' 0 \<noteq> None"

definition outside :: "string \<Rightarrow> string \<Rightarrow> bool" where
  "outside dir_str file_str \<longleftrightarrow>
     take (length dir_str) file_str \<noteq> dir_str \<or>
     (length file_str > length dir_str \<and> file_str ! length dir_str \<noteq> CHR ''/'')"

definition read_transcript_file :: "file_system \<Rightarrow> string \<Rightarrow> string + string" where
  "read_transcript_file fs filename =
     (if bad_filename filename then Inl ''invalid filename''
      else case fs_home fs of None \<Rightarrow> Inl ''server misconfiguration'' | Some home \<Rightarrow>
      (case fs_canonical fs (path_join home ''.wstream'') of
        None \<Rightarrow> Inl ''log directory unavailable''
      | Some log_dir \<Rightarrow>
      (case fs_canonical fs (path_join log_dir filename) of
        None \<Rightarrow> Inl ''file not found''
      | Some candidate \<Rightarrow>
        if outside log_dir candidate then Inl ''access denied''
        else let (reg, ec) = fs_regular fs candidate in
          if \<not> reg \<or> ec then Inl ''file not found''
          else case fs_size fs candidate of None \<Rightarrow> Inl ''file too large'' | Some sz \<Rightarrow>
            if sz > WSTREAM_MAX_TRANSCRIPT_BYTES then Inl ''file too large''
            else case fs_read fs candidate of None \<Rightarrow> Inl ''read failed''
              | Some contents \<Rightarrow> Inr contents)))"


section \<open>Lemmas\<close>

lemma host_rest_chars: "host_rest c \<Longrightarrow> c \<notin> {CHR '' '', CHR '';'', CHR ''&'', CHR ''|'', CHR ''$'', CHR ''`'', CHR ''/'', NUL}"
  by (auto simp: host_rest_def isalpha_def isdigit_def NUL_def)

lemma host_first_rest: "host_first c \<Longrightarrow> host_rest c \<and> c \<noteq> CHR ''-''"
  by (auto simp: host_first_def host_rest_def isalpha_def isdigit_def)

lemma is_safe_host_chars: "is_safe_host h \<Longrightarrow> list_all host_rest h"
  by (cases h) (auto simp: is_safe_host_def host_first_rest)

lemma read_capped_bound:
  "length out \<le> 8192 \<Longrightarrow> list_all (\<lambda>c. length c \<le> 512) cs \<Longrightarrow> length (read_capped out cs) \<le> 8192 + 512"
  by (induction out cs rule: read_capped.induct) auto

lemma bad_filename_iff:
  "\<not> bad_filename f \<longleftrightarrow> f \<noteq> [] \<and> CHR ''/'' \<notin> set f \<and> CHR 0x5C \<notin> set f \<and> NUL \<notin> set f \<and>
     (\<nexists>u v. f = u @ ''..'' @ v)"
  unfolding bad_filename_def str_find_0_None [of f "''..''", symmetric] str_find_char [symmetric]
  by simp

lemma not_outside_cases:
  assumes "\<not> outside dir file"
  shows "file = dir \<or> (\<exists>rest. file = dir @ CHR ''/'' # rest)"
proof (cases "length file > length dir")
  case True
  from assms have t: "take (length dir) file = dir" by (simp add: outside_def)
  from assms True have c: "file ! length dir = CHR ''/''" by (simp add: outside_def)
  have "file = take (length dir) file @ file ! length dir # drop (Suc (length dir)) file"
    using True by (simp add: id_take_nth_drop)
  then have "file = dir @ CHR ''/'' # drop (Suc (length dir)) file" by (simp only: t c)
  then show ?thesis by blast
next
  case False
  with assms show ?thesis by (simp add: outside_def)
qed

section \<open>Properties\<close>

text \<open>
  The constant-time comparison decides equality, and only the lengths, never the bytes,
  decide whether the loop over the bytes runs.
\<close>

theorem secure_compare_iff: "secure_compare a b \<longleftrightarrow> a = b"
  by (auto simp: secure_compare_def secure_loop_0)

text \<open>
  C6: a host that the validator accepts reaches \<open>ping\<close> as one whole argument that is not empty,
  does not start with a dash (so it is no option) and has no blank, slash or shell character.
\<close>

theorem safe_host_argv:
  assumes "is_safe_host h"
  shows "ping_argv h = [''ping'', ''-c'', ''1'', ''-W'', ''1'', h] \<and> h \<noteq> [] \<and> hd h \<noteq> CHR ''-'' \<and>
    length h \<le> 253 \<and>
    set h \<inter> {CHR '' '', CHR '';'', CHR ''&'', CHR ''|'', CHR ''$'', CHR ''`'', CHR ''/'', NUL} = {}"
proof -
  from assms obtain c cs where h: "h = c # cs" "host_first c" "list_all host_rest cs" "length cs \<le> 252"
    by (cases h) (auto simp: is_safe_host_def)
  have all: "\<forall>c \<in> set h. host_rest c" using is_safe_host_chars [OF assms] by (simp add: list_all_iff)
  have "takeWhile (\<lambda>c. c \<noteq> NUL) h = h"
    using all host_rest_chars by (subst takeWhile_eq_all_conv) blast
  moreover have "set h \<inter> {CHR '' '', CHR '';'', CHR ''&'', CHR ''|'', CHR ''$'', CHR ''`'', CHR ''/'', NUL} = {}"
    using all host_rest_chars by blast
  ultimately show ?thesis using h host_first_rest [OF h(2)] by (simp add: ping_argv_def)
qed

theorem safe_host_argv_witness:
  "is_safe_host ''fe80::1-a.b'' \<and> ping_argv ''fe80::1-a.b'' = [''ping'', ''-c'', ''1'', ''-W'', ''1'', ''fe80::1-a.b'']"
proof -
  have "is_safe_host ''fe80::1-a.b''"
    by (simp add: is_safe_host_def host_first_def host_rest_def isalpha_def isdigit_def)
  then show ?thesis using safe_host_argv by blast
qed

text \<open>
  The output of the diagnostic command is bounded by the cap plus one read, whatever the
  spawned process writes.
\<close>

theorem run_ping_bounded:
  assumes "\<forall>c \<in> set (snd (spawn (ping_argv host))). length c \<le> 512"
  shows "length (run_ping pipe_ok spawn host) \<le> 8192 + 512"
proof -
  have "length (read_capped [] (snd (spawn (ping_argv host)))) \<le> 8192 + 512"
    by (rule read_capped_bound) (use assms in \<open>simp_all add: list_all_iff\<close>)
  then show ?thesis by (auto simp: run_ping_def split: prod.splits)
qed

theorem run_ping_bounded_witness:
  "length (run_ping True (\<lambda>argv. (0, replicate 99 (replicate 500 (hd (last argv))))) ''localhost'') \<le> 8192 + 512"
  by (rule run_ping_bounded) simp

text \<open>
  C8: a transcript that is returned was read from a path inside the canonical log directory, that
  is a regular file of at most 4 MiB, for a file name without separators, NUL or dot-dot.
\<close>

theorem read_transcript_contained:
  assumes "read_transcript_file fs filename = Inr contents"
  shows "\<exists>home log_dir path sz. fs_home fs = Some home \<and>
    fs_canonical fs (path_join home ''.wstream'') = Some log_dir \<and>
    fs_canonical fs (path_join log_dir filename) = Some path \<and>
    (path = log_dir \<or> (\<exists>rest. path = log_dir @ CHR ''/'' # rest)) \<and>
    fst (fs_regular fs path) \<and> fs_size fs path = Some sz \<and> sz \<le> 4194304 \<and>
    fs_read fs path = Some contents \<and>
    filename \<noteq> [] \<and> CHR ''/'' \<notin> set filename \<and> CHR 0x5C \<notin> set filename \<and> NUL \<notin> set filename \<and>
    (\<nexists>u v. filename = u @ ''..'' @ v)"
proof -
  have nb: "\<not> bad_filename filename"
    using assms by (auto simp: read_transcript_file_def split: if_splits)
  obtain home log_dir path where p: "fs_home fs = Some home"
      "fs_canonical fs (path_join home ''.wstream'') = Some log_dir"
      "fs_canonical fs (path_join log_dir filename) = Some path" "\<not> outside log_dir path"
      "fst (fs_regular fs path)" "fs_read fs path = Some contents"
      "\<exists>sz. fs_size fs path = Some sz \<and> sz \<le> WSTREAM_MAX_TRANSCRIPT_BYTES"
    using assms by (auto simp: read_transcript_file_def Let_def split: if_splits option.splits prod.splits)
  then obtain sz where "fs_size fs path = Some sz" "sz \<le> 4194304"
    by (auto simp: WSTREAM_MAX_TRANSCRIPT_BYTES_def)
  then show ?thesis
    using p not_outside_cases [OF p(4)] nb [unfolded bad_filename_iff] by blast
qed

text \<open>A file system with one log, reached through a symbolic link of the home directory.\<close>

definition demo_fs :: file_system where
  "demo_fs = \<lparr>fs_home = Some ''/home/u'',
     fs_canonical = (\<lambda>p. if take 7 p = ''/home/u'' then Some (''/data'' @ drop 7 p) else Some p),
     fs_regular = (\<lambda>p. (p = ''/data/.wstream/a.log'', False)),
     fs_size = (\<lambda>p. if p = ''/data/.wstream/a.log'' then Some 5 else None),
     fs_read = (\<lambda>p. if p = ''/data/.wstream/a.log'' then Some ''hello'' else None)\<rparr>"

theorem read_transcript_contained_witness:
  "read_transcript_file demo_fs ''a.log'' = Inr ''hello'' \<and>
   (\<exists>home log_dir path. fs_home demo_fs = Some home \<and>
    fs_canonical demo_fs (path_join home ''.wstream'') = Some log_dir \<and>
    (path = log_dir \<or> (\<exists>rest. path = log_dir @ CHR ''/'' # rest)) \<and>
    fs_read demo_fs path = Some ''hello'')"
proof -
  have h: "read_transcript_file demo_fs ''a.log'' = Inr ''hello''"
    by (simp add: read_transcript_file_def demo_fs_def path_join_def bad_filename_def str_find_def
        occurs_at_def upt_rec NUL_def outside_def WSTREAM_MAX_TRANSCRIPT_BYTES_def)
  show ?thesis using h read_transcript_contained [OF h] by blast
qed

end
