(* ===== verification/Shared_State.thy ===== *)
theory Shared_State
  imports Security
begin

text \<open>
  The class \<open>shared_state\<close> of \<open>src/stream/stream.cpp\<close>: the list of connected clients, and the protocol
  by which several threads write to a client's stream while its session may be tearing it down.
  First the operations as one thread performs them, then the interleaving of all threads at the
  granularity of the two mutexes (\<open>m_mutex\<close> sections are single steps, since nothing blocks inside
  them; a \<open>write_mtx\<close> section is split at each access), with the theorem the code's comment claims:
  no thread touches a destroyed stream.
\<close>

section \<open>The operations\<close>

text \<open>
  A client is known by the number of its handle.  \<open>ss_sent\<close> is what was written to its stream,
  \<open>ss_writable\<close> whether a write succeeds (it throws otherwise), \<open>ss_cancelled\<close> whether its socket
  was cancelled; these three stand for the stream object behind \<open>ws\<close>.
\<close>

record shared_state =
  m_connections :: "nat list"
  ss_next :: nat
  ss_alive :: "nat \<Rightarrow> bool"
  ss_writable :: "nat \<Rightarrow> bool"
  ss_sent :: "nat \<Rightarrow> string list"
  ss_cancelled :: "nat \<Rightarrow> bool"

definition shared_new :: shared_state where
  "shared_new = \<lparr>m_connections = [], ss_next = 0, ss_alive = (\<lambda>_. False), ss_writable = (\<lambda>_. True),
     ss_sent = (\<lambda>_. []), ss_cancelled = (\<lambda>_. False)\<rparr>"

definition ss_join :: "shared_state \<Rightarrow> nat option \<times> shared_state" where
  "ss_join s =
     (if length (m_connections s) \<ge> WSTREAM_MAX_CLIENTS then (None, s)
      else let h = ss_next s in
        (Some h, s\<lparr>m_connections := m_connections s @ [h], ss_next := Suc h,
           ss_alive := (ss_alive s)(h := True)\<rparr>))"

definition ss_leave :: "shared_state \<Rightarrow> nat option \<Rightarrow> shared_state" where
  "ss_leave s h = (case h of None \<Rightarrow> s
     | Some h \<Rightarrow> s\<lparr>ss_alive := (ss_alive s)(h := False), m_connections := removeAll h (m_connections s)\<rparr>)"

definition is_client_connected :: "shared_state \<Rightarrow> bool" where
  "is_client_connected s \<longleftrightarrow> m_connections s \<noteq> []"

definition client_count :: "shared_state \<Rightarrow> nat" where
  "client_count s = length (m_connections s)"

text \<open>One iteration of the loops over the snapshot: a dead client is skipped, a throw is caught.\<close>

definition write_to :: "string \<Rightarrow> shared_state \<Rightarrow> nat \<Rightarrow> shared_state" where
  "write_to message s h =
     (if \<not> ss_alive s h then s
      else if \<not> ss_writable s h then s
      else s\<lparr>ss_sent := (ss_sent s)(h := ss_sent s h @ [message])\<rparr>)"

definition cancel_one :: "shared_state \<Rightarrow> nat \<Rightarrow> shared_state" where
  "cancel_one s h = (if \<not> ss_alive s h then s else s\<lparr>ss_cancelled := (ss_cancelled s)(h := True)\<rparr>)"

definition close_all :: "shared_state \<Rightarrow> shared_state" where
  "close_all s = foldl cancel_one s (m_connections s)"

text \<open>
  \<open>broadcast\<close>: \<open>dump\<close> serialises the message object with the given content; it throws
  (\<^term>\<open>None\<close>) when the content is not valid UTF-8, which nothing in this function catches.
\<close>

definition broadcast :: "(string \<Rightarrow> string option) \<Rightarrow> shared_state \<Rightarrow> string \<Rightarrow> shared_state option" where
  "broadcast dump s transcription =
     (if transcription = [] then Some s
      else case dump transcription of None \<Rightarrow> None
       | Some message \<Rightarrow>
         if m_connections s = [] then Some s
         else Some (foldl (write_to message) s (m_connections s)))"

definition shared_inv :: "shared_state \<Rightarrow> bool" where
  "shared_inv s \<longleftrightarrow> distinct (m_connections s) \<and> length (m_connections s) \<le> WSTREAM_MAX_CLIENTS \<and>
     (\<forall>h \<in> set (m_connections s). h < ss_next s \<and> ss_alive s h)"

lemma write_to_frame [simp]:
  "m_connections (write_to m s h) = m_connections s" "ss_alive (write_to m s h) = ss_alive s"
  "ss_next (write_to m s h) = ss_next s" "ss_writable (write_to m s h) = ss_writable s"
  by (simp_all add: write_to_def)

lemma write_all_frame [simp]:
  "m_connections (foldl (write_to m) s hs) = m_connections s"
  "ss_alive (foldl (write_to m) s hs) = ss_alive s" "ss_next (foldl (write_to m) s hs) = ss_next s"
  by (induction hs arbitrary: s) simp_all

lemma write_all_sent:
  "distinct hs \<Longrightarrow> ss_sent (foldl (write_to m) s hs) h =
     (if h \<in> set hs \<and> ss_alive s h \<and> ss_writable s h then ss_sent s h @ [m] else ss_sent s h)"
proof (induction hs arbitrary: s)
  case (Cons g hs)
  then show ?case by (auto simp: write_to_def)
qed simp

lemma shared_inv_join: "shared_inv s \<Longrightarrow> ss_join s = (r, s') \<Longrightarrow> shared_inv s'"
  by (auto simp: shared_inv_def ss_join_def Let_def less_Suc_eq split: if_splits)

lemma shared_inv_leave: "shared_inv s \<Longrightarrow> shared_inv (ss_leave s h)"
  by (auto simp: shared_inv_def ss_leave_def distinct_removeAll split: option.splits
      intro: order.trans [OF length_removeAll_less_eq])

lemma shared_inv_broadcast: "shared_inv s \<Longrightarrow> broadcast dump s t = Some s' \<Longrightarrow> shared_inv s'"
  by (auto simp: shared_inv_def broadcast_def split: if_splits option.splits)

section \<open>The threads interleaved\<close>

text \<open>
  Each client \<open>h\<close> has a session thread, whose stages are those of \<open>do_session\<close>; activities, any
  number of them, are the calls of \<open>broadcast\<close> and \<open>close_all\<close> in progress (by the broadcast
  thread, by sessions that inject a text, by the main thread).
\<close>

datatype stage = Fresh | Serving | Leaving | Flipped | Gone | Destroyed

datatype owner = Session nat | Activity nat

datatype act_pc =
    Idle
  | Next "nat list"
  | Locked nat "nat list"
  | Touching nat "nat list"

record system =
  conns :: "nat list"
  stages :: "nat \<Rightarrow> stage"
  alive :: "nat \<Rightarrow> bool"
  lock :: "nat \<Rightarrow> owner option"
  acts :: "nat \<Rightarrow> act_pc"
  touched_dead :: bool

definition system_init :: system where
  "system_init = \<lparr>conns = [], stages = (\<lambda>_. Fresh), alive = (\<lambda>_. False), lock = (\<lambda>_. None),
     acts = (\<lambda>_. Idle), touched_dead = False\<rparr>"

text \<open>The stream of a client exists from its session's start until the end of \<open>do_session\<close>.\<close>

definition stream_exists :: "system \<Rightarrow> nat \<Rightarrow> bool" where
  "stream_exists s h \<longleftrightarrow> stages s h \<notin> {Fresh, Destroyed}"

inductive sys_step :: "system \<Rightarrow> system \<Rightarrow> bool" where
  join: "stages s h = Fresh \<Longrightarrow> length (conns s) < WSTREAM_MAX_CLIENTS \<Longrightarrow>
    sys_step s (s\<lparr>conns := conns s @ [h], stages := (stages s)(h := Serving),
      alive := (alive s)(h := True)\<rparr>)"
| own_write_lock: "stages s h = Serving \<Longrightarrow> lock s h = None \<Longrightarrow>
    sys_step s (s\<lparr>lock := (lock s)(h := Some (Session h))\<rparr>)"
| own_write: "stages s h = Serving \<Longrightarrow> lock s h = Some (Session h) \<Longrightarrow>
    sys_step s (s\<lparr>lock := (lock s)(h := None)\<rparr>)"
| leave_lock: "stages s h = Serving \<Longrightarrow> lock s h = None \<Longrightarrow>
    sys_step s (s\<lparr>lock := (lock s)(h := Some (Session h)), stages := (stages s)(h := Leaving)\<rparr>)"
| leave_flip: "stages s h = Leaving \<Longrightarrow>
    sys_step s (s\<lparr>alive := (alive s)(h := False), lock := (lock s)(h := None),
      stages := (stages s)(h := Flipped)\<rparr>)"
| leave_remove: "stages s h = Flipped \<Longrightarrow>
    sys_step s (s\<lparr>conns := removeAll h (conns s), stages := (stages s)(h := Gone)\<rparr>)"
| destroy: "stages s h = Gone \<Longrightarrow>
    sys_step s (s\<lparr>stages := (stages s)(h := Destroyed)\<rparr>)"
| snapshot: "acts s a = Idle \<Longrightarrow>
    sys_step s (s\<lparr>acts := (acts s)(a := Next (conns s))\<rparr>)"
| act_lock: "acts s a = Next (h # hs) \<Longrightarrow> lock s h = None \<Longrightarrow>
    sys_step s (s\<lparr>lock := (lock s)(h := Some (Activity a)), acts := (acts s)(a := Locked h hs)\<rparr>)"
| act_skip: "acts s a = Locked h hs \<Longrightarrow> \<not> alive s h \<Longrightarrow>
    sys_step s (s\<lparr>lock := (lock s)(h := None), acts := (acts s)(a := Next hs)\<rparr>)"
| act_check: "acts s a = Locked h hs \<Longrightarrow> alive s h \<Longrightarrow>
    sys_step s (s\<lparr>acts := (acts s)(a := Touching h hs)\<rparr>)"
| act_touch: "acts s a = Touching h hs \<Longrightarrow>
    sys_step s (s\<lparr>lock := (lock s)(h := None), acts := (acts s)(a := Next hs),
      touched_dead := (touched_dead s \<or> \<not> stream_exists s h)\<rparr>)"
| act_done: "acts s a = Next [] \<Longrightarrow>
    sys_step s (s\<lparr>acts := (acts s)(a := Idle)\<rparr>)"

inductive sys_reachable :: "system \<Rightarrow> bool" where
  start: "sys_reachable system_init"
| step: "sys_reachable s \<Longrightarrow> sys_step s t \<Longrightarrow> sys_reachable t"

subsection \<open>The invariant\<close>

text \<open>The client at which an activity holds the write mutex, if any.\<close>

fun holds :: "act_pc \<Rightarrow> nat option" where
  "holds Idle = None"
| "holds (Next hs) = None"
| "holds (Locked h hs) = Some h"
| "holds (Touching h hs) = Some h"

definition life_inv :: "system \<Rightarrow> bool" where
  "life_inv s \<longleftrightarrow> (\<forall>h. alive s h \<longleftrightarrow> stages s h = Serving \<or> stages s h = Leaving)"

definition conn_inv :: "system \<Rightarrow> bool" where
  "conn_inv s \<longleftrightarrow> distinct (conns s) \<and> length (conns s) \<le> WSTREAM_MAX_CLIENTS \<and>
     (\<forall>h. h \<in> set (conns s) \<longleftrightarrow> stages s h = Serving \<or> stages s h = Leaving \<or> stages s h = Flipped)"

definition lock_ok :: "system \<Rightarrow> nat \<Rightarrow> bool" where
  "lock_ok s h \<longleftrightarrow> (case lock s h of
       None \<Rightarrow> stages s h \<noteq> Leaving \<and> (\<forall>a. holds (acts s a) \<noteq> Some h)
     | Some (Session g) \<Rightarrow> g = h \<and> (stages s h = Serving \<or> stages s h = Leaving) \<and>
         (\<forall>a. holds (acts s a) \<noteq> Some h)
     | Some (Activity a) \<Rightarrow> stages s h \<noteq> Leaving \<and> (\<forall>b. holds (acts s b) = Some h \<longleftrightarrow> b = a))"

definition touch_inv :: "system \<Rightarrow> bool" where
  "touch_inv s \<longleftrightarrow> \<not> touched_dead s \<and> (\<forall>a h hs. acts s a = Touching h hs \<longrightarrow> alive s h)"

definition sys_inv :: "system \<Rightarrow> bool" where
  "sys_inv s \<longleftrightarrow> life_inv s \<and> conn_inv s \<and> (\<forall>h. lock_ok s h) \<and> touch_inv s"

lemmas inv_defs = life_inv_def conn_inv_def lock_ok_def touch_inv_def

lemma sys_inv_init: "sys_inv system_init"
  by (simp add: sys_inv_def inv_defs system_init_def)

lemma life_inv_step: "sys_step s t \<Longrightarrow> life_inv s \<Longrightarrow> life_inv t"
  by (erule sys_step.cases; auto simp: life_inv_def)

lemma conn_inv_step:
  assumes "sys_step s t" and c: "conn_inv s"
  shows "conn_inv t"
  using assms(1)
proof (cases rule: sys_step.cases)
  case (leave_remove h)
  have "length (removeAll h (conns s)) \<le> WSTREAM_MAX_CLIENTS"
    using c by (auto simp: conn_inv_def intro: order.trans [OF length_removeAll_less_eq])
  then show ?thesis using leave_remove c by (auto simp: conn_inv_def distinct_removeAll)
qed (use c in \<open>auto simp: conn_inv_def\<close>)

lemma lock_ok_leaving:
  "lock_ok s h \<Longrightarrow> stages s h = Leaving \<Longrightarrow> lock s h = Some (Session h) \<and> holds (acts s a) \<noteq> Some h"
  by (cases "lock s h") (auto simp: lock_ok_def split: owner.splits)

lemma lock_ok_holds: "lock_ok s h \<Longrightarrow> holds (acts s a) = Some h \<Longrightarrow> lock s h = Some (Activity a)"
  by (cases "lock s h") (auto simp: lock_ok_def split: owner.splits)

lemma touch_inv_step:
  assumes "sys_step s t" and "life_inv s" and "\<forall>h. lock_ok s h" and "touch_inv s"
  shows "touch_inv t"
  using assms(1)
proof (cases rule: sys_step.cases)
  case (leave_flip h)
  have "holds (acts s a) \<noteq> Some h" for a
    using assms(3) leave_flip lock_ok_leaving by blast
  then have "acts s a \<noteq> Touching h hs" for a hs by (metis holds.simps(4))
  then show ?thesis using leave_flip assms(4) by (auto simp: touch_inv_def)
next
  case (act_touch a h hs)
  then have "alive s h" using assms(4) by (auto simp: touch_inv_def)
  then have "stream_exists s h" using assms(2) by (auto simp: life_inv_def stream_exists_def)
  then show ?thesis using act_touch assms(4) by (auto simp: touch_inv_def)
qed (use assms(4) in \<open>auto simp: touch_inv_def\<close>)

lemma lock_ok_owner: "lock_ok s h \<Longrightarrow> lock s h = Some (Activity a) \<longleftrightarrow> holds (acts s a) = Some h"
  by (cases "lock s h") (auto simp: lock_ok_def split: owner.splits)

lemma lock_ok_frame:
  assumes "lock_ok s h" "lock t h = lock s h" "stages t h = stages s h"
    and "\<And>a. holds (acts t a) = holds (acts s a)"
  shows "lock_ok t h"
  using assms(1) unfolding lock_ok_def assms(2) assms(3) assms(4) .

text \<open>What an activity does at \<open>g\<close> leaves every other client's mutex as it was.\<close>

lemma lock_ok_other:
  assumes "lock_ok s h" "g \<noteq> h" "holds (acts s a) \<noteq> Some h" "holds pc \<noteq> Some h"
    and "lock t h = lock s h" "stages t = stages s" "acts t = (acts s)(a := pc)"
  shows "lock_ok t h"
proof -
  have "lock s h \<noteq> Some (Activity a)" using assms lock_ok_owner by blast
  then show ?thesis using assms
    by (cases "lock s h"; cases "the (lock s h)") (auto simp: lock_ok_def)
qed

text \<open>An activity that holds a client's mutex and lets go of it.\<close>

lemma lock_ok_release:
  assumes "lock_ok s h" "holds (acts s a) = Some h" "holds pc = None"
    and "lock t h = None" "stages t = stages s" "acts t = (acts s)(a := pc)"
  shows "lock_ok t h"
proof -
  have "lock s h = Some (Activity a)" using assms lock_ok_holds by blast
  then show ?thesis using assms by (auto simp: lock_ok_def)
qed

lemma lock_ok_step:
  assumes "sys_step s t" and ok: "lock_ok s h"
  shows "lock_ok t h"
  using assms(1)
proof (cases rule: sys_step.cases)
  case (act_lock a g gs)
  show ?thesis
  proof (cases "g = h")
    case True
    then show ?thesis using act_lock ok by (auto simp: lock_ok_def)
  next
    case False
    then show ?thesis using act_lock by (auto intro!: lock_ok_other [OF ok, of g a "Locked g gs"])
  qed
next
  case (act_skip a g gs)
  show ?thesis
  proof (cases "g = h")
    case True
    then show ?thesis using act_skip by (auto intro!: lock_ok_release [OF ok, of a "Next gs"])
  next
    case False
    then show ?thesis using act_skip by (auto intro!: lock_ok_other [OF ok, of g a "Next gs"])
  qed
next
  case (act_touch a g gs)
  show ?thesis
  proof (cases "g = h")
    case True
    then show ?thesis using act_touch by (auto intro!: lock_ok_release [OF ok, of a "Next gs"])
  next
    case False
    then show ?thesis using act_touch by (auto intro!: lock_ok_other [OF ok, of g a "Next gs"])
  qed
next
  case (snapshot a)
  then show ?thesis using ok by (auto intro!: lock_ok_frame [OF ok])
next
  case (act_check a g gs)
  then show ?thesis using ok by (auto intro!: lock_ok_frame [OF ok])
next
  case (act_done a)
  then show ?thesis using ok by (auto intro!: lock_ok_frame [OF ok])
next
  case (join g)
  then show ?thesis using ok
    by (cases "g = h"; cases "lock s h"; cases "the (lock s h)") (auto simp: lock_ok_def)
next
  case (own_write_lock g)
  show ?thesis
  proof (cases "g = h")
    case True
    then show ?thesis using own_write_lock ok by (auto simp: lock_ok_def)
  next
    case False
    then show ?thesis using own_write_lock by (auto intro!: lock_ok_frame [OF ok])
  qed
next
  case (own_write g)
  show ?thesis
  proof (cases "g = h")
    case True
    then show ?thesis using own_write ok by (auto simp: lock_ok_def)
  next
    case False
    then show ?thesis using own_write by (auto intro!: lock_ok_frame [OF ok])
  qed
next
  case (leave_lock g)
  show ?thesis
  proof (cases "g = h")
    case True
    then show ?thesis using leave_lock ok by (auto simp: lock_ok_def)
  next
    case False
    then show ?thesis using leave_lock by (auto intro!: lock_ok_frame [OF ok])
  qed
next
  case (leave_flip g)
  show ?thesis
  proof (cases "g = h")
    case True
    then show ?thesis using leave_flip ok lock_ok_leaving [of s h] by (auto simp: lock_ok_def)
  next
    case False
    then show ?thesis using leave_flip by (auto intro!: lock_ok_frame [OF ok])
  qed
next
  case (leave_remove g)
  then show ?thesis using ok
    by (cases "g = h"; cases "lock s h"; cases "the (lock s h)") (auto simp: lock_ok_def)
next
  case (destroy g)
  then show ?thesis using ok
    by (cases "g = h"; cases "lock s h"; cases "the (lock s h)") (auto simp: lock_ok_def)
qed

lemma sys_inv_step: "sys_step s t \<Longrightarrow> sys_inv s \<Longrightarrow> sys_inv t"
  unfolding sys_inv_def using life_inv_step conn_inv_step lock_ok_step touch_inv_step by blast

lemma sys_reachable_inv: "sys_reachable s \<Longrightarrow> sys_inv s"
  by (induction rule: sys_reachable.induct) (auto intro: sys_inv_init sys_inv_step)


section \<open>Properties\<close>

text \<open>
  C2: no thread ever touches a destroyed stream.  In every reachable state of every interleaving,
  an activity that is about to use a client's stream holds that client's write mutex, the client
  is alive and its stream exists.
\<close>

theorem no_use_after_free:
  assumes "sys_reachable s"
  shows "\<not> touched_dead s \<and>
    (\<forall>a h hs. acts s a = Touching h hs \<longrightarrow>
       stream_exists s h \<and> alive s h \<and> lock s h = Some (Activity a))"
proof -
  have inv: "sys_inv s" using assms by (rule sys_reachable_inv)
  have "stream_exists s h \<and> alive s h \<and> lock s h = Some (Activity a)" if "acts s a = Touching h hs" for a h hs
  proof -
    have "alive s h" using inv that by (auto simp: sys_inv_def touch_inv_def)
    moreover from this have "stream_exists s h"
      using inv by (auto simp: sys_inv_def life_inv_def stream_exists_def)
    moreover have "lock s h = Some (Activity a)"
      using inv that lock_ok_holds [of s h a] by (simp add: sys_inv_def)
    ultimately show ?thesis by blast
  qed
  then show ?thesis using inv by (auto simp: sys_inv_def touch_inv_def)
qed

definition one_client :: system where
  "one_client = system_init\<lparr>conns := [7], stages := (stages system_init)(7 := Serving),
     alive := (alive system_init)(7 := True)\<rparr>"

lemma one_client_reachable: "sys_reachable one_client"
proof -
  have "sys_step system_init one_client"
    using sys_step.join [of system_init 7]
    by (simp add: one_client_def system_init_def WSTREAM_MAX_CLIENTS_def)
  then show ?thesis using sys_reachable.start sys_reachable.step by blast
qed

lemma touching_reachable:
  "sys_reachable (one_client\<lparr>lock := (lock one_client)(7 := Some (Activity 3)),
     acts := (acts one_client)(3 := Touching 7 [])\<rparr>)"
proof -
  let ?s1 = "one_client\<lparr>acts := (acts one_client)(3 := Next [7])\<rparr>"
  let ?s2 = "?s1\<lparr>lock := (lock ?s1)(7 := Some (Activity 3)), acts := (acts ?s1)(3 := Locked 7 [])\<rparr>"
  let ?s3 = "?s2\<lparr>acts := (acts ?s2)(3 := Touching 7 [])\<rparr>"
  have "sys_step one_client ?s1"
    using sys_step.snapshot [of one_client 3] by (simp add: one_client_def system_init_def)
  moreover have "sys_step ?s1 ?s2"
    using sys_step.act_lock [of ?s1 3 7 "[]"] by (simp add: one_client_def system_init_def)
  moreover have "sys_step ?s2 ?s3"
    using sys_step.act_check [of ?s2 3 7 "[]"] by (simp add: one_client_def system_init_def)
  ultimately have "sys_reachable ?s3" using one_client_reachable sys_reachable.step by blast
  then show ?thesis by simp
qed

theorem no_use_after_free_witness:
  "\<not> touched_dead (one_client\<lparr>lock := (lock one_client)(7 := Some (Activity 3)),
     acts := (acts one_client)(3 := Touching 7 [])\<rparr>)"
  using no_use_after_free [OF touching_reachable] by blast

text \<open>
  No client's write mutex is held forever by a stuck thread: whoever holds it can release it
  within two of its own steps.
\<close>

theorem write_mutex_released:
  assumes "sys_reachable s" and "lock s h = Some w"
  shows "\<exists>t u. (t = s \<or> sys_step s t) \<and> sys_step t u \<and> lock u h = None"
proof -
  have ok: "lock_ok s h" using sys_reachable_inv [OF assms(1)] by (simp add: sys_inv_def)
  show ?thesis
  proof (cases w)
    case (Session g)
    then have g: "g = h" "stages s h = Serving \<or> stages s h = Leaving" "lock s h = Some (Session h)"
      using ok assms(2) by (auto simp: lock_ok_def)
    then have "\<exists>u. sys_step s u \<and> lock u h = None"
      using sys_step.own_write [of s h] sys_step.leave_flip [of s h] by fastforce
    then show ?thesis by blast
  next
    case (Activity a)
    then have "holds (acts s a) = Some h" using ok assms(2) by (auto simp: lock_ok_def)
    then consider hs where "acts s a = Locked h hs" | hs where "acts s a = Touching h hs"
      by (cases "acts s a") auto
    then show ?thesis
    proof cases
      case 1
      show ?thesis
      proof (cases "alive s h")
        case True
        let ?t = "s\<lparr>acts := (acts s)(a := Touching h hs)\<rparr>"
        have "sys_step s ?t" using 1 True by (rule sys_step.act_check)
        moreover have "\<exists>u. sys_step ?t u \<and> lock u h = None"
          using sys_step.act_touch [of ?t a h hs] by fastforce
        ultimately show ?thesis by blast
      next
        case False
        then show ?thesis using sys_step.act_skip [of s a h hs] 1 by fastforce
      qed
    next
      case 2
      then show ?thesis using sys_step.act_touch [of s a h hs] by fastforce
    qed
  qed
qed

theorem write_mutex_released_witness:
  "\<exists>s t u. lock s 7 = Some (Activity 3) \<and> (t = s \<or> sys_step s t) \<and> sys_step t u \<and> lock u 7 = None"
proof -
  let ?s = "one_client\<lparr>lock := (lock one_client)(7 := Some (Activity 3)),
     acts := (acts one_client)(3 := Touching 7 [])\<rparr>"
  have l: "lock ?s 7 = Some (Activity 3)" by simp
  show ?thesis using write_mutex_released [OF touching_reachable l] l by blast
qed

text \<open>
  C15: \<open>broadcast\<close> appends the message exactly once to every connected client whose stream accepts
  it, and to no other; a failing client does not keep the others from their message.
\<close>

theorem broadcast_delivers:
  assumes "shared_inv s" and "t \<noteq> []" and "dump t = Some m"
  shows "\<exists>s'. broadcast dump s t = Some s' \<and> shared_inv s' \<and>
    m_connections s' = m_connections s \<and>
    (\<forall>h. ss_sent s' h = (if h \<in> set (m_connections s) \<and> ss_writable s h
                         then ss_sent s h @ [m] else ss_sent s h))"
proof -
  obtain s' where b: "broadcast dump s t = Some s'"
    using assms by (cases "m_connections s = []") (auto simp: broadcast_def)
  moreover have "shared_inv s'" using shared_inv_broadcast [OF assms(1) b] .
  ultimately show ?thesis
    using assms by (auto simp: broadcast_def write_all_sent shared_inv_def split: if_splits)
qed

theorem broadcast_delivers_witness:
  "\<exists>s'. broadcast Some (snd (ss_join (snd (ss_join shared_new)))) ''hi'' = Some s' \<and>
    ss_sent s' 0 = [''hi''] \<and> ss_sent s' 1 = [''hi''] \<and> ss_sent s' 2 = []"
proof -
  let ?s = "snd (ss_join (snd (ss_join shared_new)))"
  have s: "?s = \<lparr>m_connections = [0, 1], ss_next = 2, ss_alive = ((\<lambda>_. False)(0 := True))(1 := True),
      ss_writable = (\<lambda>_. True), ss_sent = (\<lambda>_. []), ss_cancelled = (\<lambda>_. False)\<rparr>"
    by (simp add: ss_join_def shared_new_def WSTREAM_MAX_CLIENTS_def numeral_2_eq_2)
  have "shared_inv ?s" unfolding s by (simp add: shared_inv_def WSTREAM_MAX_CLIENTS_def less_Suc_eq)
  from broadcast_delivers [of ?s "''hi''" Some "''hi''", OF this] show ?thesis
    by (auto simp: s)
qed

end
