(* ===== verification/Session.thy ===== *)
theory Session
  imports Shared_State
begin

text \<open>
  A client's session, \<open>do_session\<close> of \<open>src/stream/stream.cpp\<close>: the handshake with its Origin check, the
  dispatch of one JSON message, and the loop around it.  The JSON library (its parser and its
  serialiser), the file system and the spawned process are parameters, collected in
  \<open>session_env\<close>; \<open>world\<close> is what the process shares between its threads.
\<close>

section \<open>JSON values\<close>

datatype json =
    JNull
  | JBool bool
  | JNumber string
  | JStr string
  | JArr "json list"
  | JObj "(string \<times> json) list"

fun is_object :: "json \<Rightarrow> bool" where
  "is_object (JObj _) = True"
| "is_object _ = False"

text \<open>
  What can be thrown inside the session: an exception of the JSON library, or one of the transport
  (\<open>beast::system_error\<close>).
\<close>

datatype exn = Json_Exn | Transport_Exn

text \<open>\<open>value(key, default)\<close> of a string default: the default if the key is absent, a type error if
  the key has another type.\<close>

definition json_value :: "(string \<times> json) list \<Rightarrow> string \<Rightarrow> string \<Rightarrow> exn + string" where
  "json_value obj key dflt = (case map_of obj key of
       None \<Rightarrow> Inr dflt
     | Some (JStr v) \<Rightarrow> Inr v
     | Some _ \<Rightarrow> Inl Json_Exn)"

definition error_json :: "string \<Rightarrow> json" where
  "error_json e = JObj [(''type'', JStr ''error''), (''error'', JStr e)]"

section \<open>The session's environment and the shared world\<close>

record session_env =
  control_token :: string
  parse :: "string \<Rightarrow> json option"
  dump :: "json \<Rightarrow> string option"
  files :: file_system
  pipe_ok :: bool
  spawn :: "string list \<Rightarrow> int \<times> string list"

record world =
  is_running :: bool
  shared :: shared_state
  spawned :: "string list list"

definition transcribe_json :: "string \<Rightarrow> json" where
  "transcribe_json content = JObj [(''content'', JStr content), (''type'', JStr ''transcribe'')]"

text \<open>\<open>send_json\<close>: serialise, then write to the session's own stream, which throws when it is closed.\<close>

definition send_json :: "session_env \<Rightarrow> nat \<Rightarrow> world \<Rightarrow> json \<Rightarrow> exn + world" where
  "send_json env h w resp = (case dump env resp of
       None \<Rightarrow> Inl Json_Exn
     | Some payload \<Rightarrow>
         if \<not> ss_writable (shared w) h then Inl Transport_Exn
         else Inr (w\<lparr>shared := (shared w)\<lparr>ss_sent :=
                (ss_sent (shared w))(h := ss_sent (shared w) h @ [payload])\<rparr>\<rparr>))"

section \<open>The commands\<close>

text \<open>The guard of the privileged commands.\<close>

definition unauthorised :: "session_env \<Rightarrow> string \<Rightarrow> bool" where
  "unauthorised env token \<longleftrightarrow> control_token env = [] \<or> \<not> secure_compare token (control_token env)"

text \<open>\<open>json_message.value("token", "")\<close> is evaluated only when the control token is not empty.\<close>

definition token_guard :: "session_env \<Rightarrow> (string \<times> json) list \<Rightarrow> exn + bool" where
  "token_guard env obj =
     (if control_token env = [] then Inr False
      else case json_value obj ''token'' '''' of
        Inl e \<Rightarrow> Inl e
      | Inr token \<Rightarrow> Inr (secure_compare token (control_token env)))"

definition do_diagnostic :: "session_env \<Rightarrow> nat \<Rightarrow> world \<Rightarrow> (string \<times> json) list \<Rightarrow> exn + world" where
  "do_diagnostic env h w obj = (case token_guard env obj of
       Inl e \<Rightarrow> Inl e
     | Inr False \<Rightarrow> send_json env h w (error_json ''unauthorised'')
     | Inr True \<Rightarrow> (case json_value obj ''host'' ''localhost'' of
         Inl e \<Rightarrow> Inl e
       | Inr host \<Rightarrow>
           if \<not> is_safe_host host then send_json env h w (error_json ''invalid host'')
           else send_json env h
                  (if pipe_ok env then w\<lparr>spawned := spawned w @ [ping_argv host]\<rparr> else w)
                  (JObj [(''type'', JStr ''diagnostic_result''),
                         (''output'', JStr (run_ping (pipe_ok env) (spawn env) host))])))"

definition do_fetch :: "session_env \<Rightarrow> nat \<Rightarrow> world \<Rightarrow> (string \<times> json) list \<Rightarrow> exn + world" where
  "do_fetch env h w obj = (case json_value obj ''file'' '''' of
       Inl e \<Rightarrow> Inl e
     | Inr filename \<Rightarrow> (case read_transcript_file (files env) filename of
         Inr contents \<Rightarrow> send_json env h w
           (JObj [(''type'', JStr ''transcript_content''), (''file'', JStr filename),
                  (''content'', JStr contents)])
       | Inl errmsg \<Rightarrow> send_json env h w (error_json errmsg)))"

definition do_inject :: "session_env \<Rightarrow> nat \<Rightarrow> world \<Rightarrow> (string \<times> json) list \<Rightarrow> exn + world" where
  "do_inject env h w obj = (case token_guard env obj of
       Inl e \<Rightarrow> Inl e
     | Inr False \<Rightarrow> send_json env h w (error_json ''unauthorised'')
     | Inr True \<Rightarrow> (case json_value obj ''text'' '''' of
         Inl e \<Rightarrow> Inl e
       | Inr t \<Rightarrow>
           if t \<noteq> [] \<and> length t \<le> 4096 then
             (case broadcast (\<lambda>c. dump env (transcribe_json c)) (shared w) t of
                None \<Rightarrow> Inl Json_Exn
              | Some s \<Rightarrow> Inr (w\<lparr>shared := s\<rparr>))
           else Inr w))"

definition do_control :: "session_env \<Rightarrow> nat \<Rightarrow> world \<Rightarrow> (string \<times> json) list \<Rightarrow> exn + world" where
  "do_control env h w obj = (case json_value obj ''token'' '''' of
       Inl e \<Rightarrow> Inl e
     | Inr token \<Rightarrow> (case json_value obj ''action'' '''' of
         Inl e \<Rightarrow> Inl e
       | Inr action \<Rightarrow>
           if unauthorised env token then send_json env h w (error_json ''unauthorised'')
           else if action = ''shutdown'' then Inr (w\<lparr>is_running := False\<rparr>)
           else if action = ''status'' then send_json env h w
             (JObj [(''type'', JStr ''status''), (''running'', JBool (is_running w)),
                    (''clients'', JNumber (nat_str (client_count (shared w))))])
           else Inr w))"

text \<open>The chain of \<open>if (type == ...)\<close>; an unknown type does nothing.\<close>

definition handle_object :: "session_env \<Rightarrow> nat \<Rightarrow> world \<Rightarrow> (string \<times> json) list \<Rightarrow> exn + world" where
  "handle_object env h w obj = (case json_value obj ''type'' '''' of
       Inl e \<Rightarrow> Inl e
     | Inr ty \<Rightarrow>
         if ty = ''reset'' then Inr w
         else if ty = ''diagnostic'' then do_diagnostic env h w obj
         else if ty = ''fetch_transcript'' then do_fetch env h w obj
         else if ty = ''inject'' then do_inject env h w obj
         else if ty = ''control'' then do_control env h w obj
         else Inr w)"

text \<open>
  The body of the loop.  An exception of the JSON library inside the dispatch is answered with
  one error frame; what remains a \<^term>\<open>Inl\<close> here leaves the loop.
\<close>

definition handle_message :: "session_env \<Rightarrow> nat \<Rightarrow> world \<Rightarrow> string \<Rightarrow> exn + world" where
  "handle_message env h w message = (case parse env message of
       None \<Rightarrow> send_json env h w (error_json ''malformed JSON'')
     | Some (JObj obj) \<Rightarrow> (case handle_object env h w obj of
         Inl Json_Exn \<Rightarrow> send_json env h w (error_json ''invalid field type'')
       | r \<Rightarrow> r)
     | Some _ \<Rightarrow> Inr w)"

section \<open>The session\<close>

text \<open>
  The loop reads the client's messages one after the other; when they end, \<open>ws.read\<close> throws.  What
  the other threads do between two messages is in \<^theory_text>\<open>Shared_State\<close>.
\<close>

fun session_loop :: "session_env \<Rightarrow> nat \<Rightarrow> world \<Rightarrow> string list \<Rightarrow> world" where
  "session_loop env h w [] = w"
| "session_loop env h w (m # ms) =
     (if \<not> is_running w then w
      else case handle_message env h w m of
        Inl _ \<Rightarrow> w
      | Inr w' \<Rightarrow> session_loop env h w' ms)"

datatype handshake = Forbidden_Origin | Try_Again_Later | Served

definition do_session :: "session_env \<Rightarrow> world \<Rightarrow> string \<Rightarrow> string list \<Rightarrow> handshake \<times> world" where
  "do_session env w origin inputs =
     (if origin \<notin> set WSTREAM_ALLOWED_ORIGINS then (Forbidden_Origin, w)
      else case ss_join (shared w) of
        (None, s) \<Rightarrow> (Try_Again_Later, w\<lparr>shared := s\<rparr>)
      | (Some h, s) \<Rightarrow>
          let w' = session_loop env h (w\<lparr>shared := s\<rparr>) inputs
          in (Served, w'\<lparr>shared := ss_leave (shared w') (Some h)\<rparr>))"

section \<open>The server's address\<close>

text \<open>\<open>std::stoi\<close>: blanks, a sign, digits; it throws when there are none or the value is no \<open>int\<close>.\<close>

definition stoi :: "string \<Rightarrow> int option" where
  "stoi s = (let t = dropWhile isspace s;
       (neg, u) = (case t of c # cs \<Rightarrow> if c = CHR ''-'' then (True, cs)
                                      else if c = CHR ''+'' then (False, cs) else (False, t)
                   | [] \<Rightarrow> (False, []));
       ds = takeWhile isdigit u;
       v = (if neg then - int (digits_val ds) else int (digits_val ds))
     in if ds = [] \<or> \<not> int32_ok v then None else Some v)"

definition server_address :: "(string \<Rightarrow> string option) \<Rightarrow> string \<times> 16 word" where
  "server_address getenv =
     ((case getenv ''WSTREAM_BIND'' of None \<Rightarrow> ''127.0.0.1'' | Some b \<Rightarrow> b),
      (case getenv ''WSTREAM_PORT'' of None \<Rightarrow> 8080
       | Some p \<Rightarrow> (case stoi p of None \<Rightarrow> 8080 | Some v \<Rightarrow> word_of_int v)))"

section \<open>Lemmas\<close>

text \<open>What one message may do to the frames of the clients: append at most one to each.\<close>

definition one_frame :: "shared_state \<Rightarrow> shared_state \<Rightarrow> bool" where
  "one_frame s s' \<longleftrightarrow> (\<forall>g. ss_sent s' g = ss_sent s g \<or> (\<exists>x. ss_sent s' g = ss_sent s g @ [x]))"

text \<open>What does not depend on the message at all: the registry of the clients.\<close>

definition same_registry :: "shared_state \<Rightarrow> shared_state \<Rightarrow> bool" where
  "same_registry s s' \<longleftrightarrow> m_connections s' = m_connections s \<and> ss_next s' = ss_next s \<and>
     ss_alive s' = ss_alive s \<and> ss_writable s' = ss_writable s"

lemma same_registry_refl [simp]: "same_registry s s" by (simp add: same_registry_def)

lemma one_frame_refl [simp]: "one_frame s s" by (simp add: one_frame_def)

lemma send_json_Inr:
  "send_json env h w j = Inr w' \<Longrightarrow>
     same_registry (shared w) (shared w') \<and> one_frame (shared w) (shared w') \<and>
     is_running w' = is_running w \<and> spawned w' = spawned w \<and>
     (\<forall>g. g \<noteq> h \<longrightarrow> ss_sent (shared w') g = ss_sent (shared w) g)"
  by (auto simp: send_json_def same_registry_def one_frame_def split: option.splits if_splits)

lemma write_all_writable: "ss_writable (foldl (write_to m) s hs) = ss_writable s"
  by (induction hs arbitrary: s) simp_all

lemma broadcast_Some:
  assumes "broadcast d s t = Some s'" and "shared_inv s"
  shows "same_registry s s' \<and> one_frame s s'"
  using assms by (auto simp: broadcast_def same_registry_def one_frame_def write_all_sent
      write_all_writable shared_inv_def split: if_splits option.splits)

lemmas session_defs = do_diagnostic_def do_fetch_def do_inject_def do_control_def

lemma handle_object_frames:
  assumes "handle_object env h w obj = Inr w'" and "shared_inv (shared w)"
  shows "same_registry (shared w) (shared w') \<and> one_frame (shared w) (shared w')"
  using assms
  by (auto simp: handle_object_def session_defs split: sum.splits if_splits option.splits bool.splits
      dest!: send_json_Inr dest: broadcast_Some)

lemma handle_message_frames:
  assumes "handle_message env h w m = Inr w'" and "shared_inv (shared w)"
  shows "same_registry (shared w) (shared w') \<and> one_frame (shared w) (shared w')"
  using assms
  by (auto simp: handle_message_def split: sum.splits option.splits json.splits exn.splits
      dest!: send_json_Inr dest: handle_object_frames)

text \<open>The message holds an object whose token field is the control token, which is not empty.\<close>

definition authorised :: "session_env \<Rightarrow> string \<Rightarrow> bool" where
  "authorised env m \<longleftrightarrow> control_token env \<noteq> [] \<and> (case parse env m of
       Some (JObj obj) \<Rightarrow> map_of obj ''token'' = Some (JStr (control_token env))
     | _ \<Rightarrow> False)"

text \<open>Only the client's own stream was written, and nothing else changed.\<close>

definition own_stream_only :: "nat \<Rightarrow> world \<Rightarrow> world \<Rightarrow> bool" where
  "own_stream_only h w w' \<longleftrightarrow> is_running w' = is_running w \<and> spawned w' = spawned w \<and>
     (\<forall>g. g \<noteq> h \<longrightarrow> ss_sent (shared w') g = ss_sent (shared w) g)"

lemma own_stream_only_refl [simp]: "own_stream_only h w w"
  by (simp add: own_stream_only_def)

lemma send_json_own: "send_json env h w j = Inr w' \<Longrightarrow> own_stream_only h w w'"
  using send_json_Inr [of env h w j w'] by (simp add: own_stream_only_def)

lemma json_value_token:
  "json_value obj ''token'' '''' = Inr t \<Longrightarrow> t \<noteq> [] \<Longrightarrow> map_of obj ''token'' = Some (JStr t)"
  by (auto simp: json_value_def split: option.splits json.splits)

lemma token_guard_True:
  "token_guard env obj = Inr True \<longleftrightarrow>
     control_token env \<noteq> [] \<and> map_of obj ''token'' = Some (JStr (control_token env))"
  by (auto simp: token_guard_def secure_compare_def secure_loop_0 json_value_def
      split: sum.splits option.splits json.splits if_splits)

lemma unauthorised_False:
  "json_value obj ''token'' '''' = Inr t \<Longrightarrow> \<not> unauthorised env t \<Longrightarrow>
     control_token env \<noteq> [] \<and> map_of obj ''token'' = Some (JStr (control_token env))"
  by (auto simp: unauthorised_def secure_compare_def secure_loop_0 dest: json_value_token split: if_splits)

lemma diagnostic_own:
  "do_diagnostic env h w obj = Inr w' \<Longrightarrow> token_guard env obj \<noteq> Inr True \<Longrightarrow> own_stream_only h w w'"
  by (auto simp: do_diagnostic_def send_json_own split: sum.splits bool.splits)

lemma fetch_own: "do_fetch env h w obj = Inr w' \<Longrightarrow> own_stream_only h w w'"
  by (auto simp: do_fetch_def send_json_own split: sum.splits)

lemma inject_own:
  "do_inject env h w obj = Inr w' \<Longrightarrow> token_guard env obj \<noteq> Inr True \<Longrightarrow> own_stream_only h w w'"
  by (auto simp: do_inject_def send_json_own split: sum.splits bool.splits)

lemma control_own:
  assumes "do_control env h w obj = Inr w'"
    and "\<not> (control_token env \<noteq> [] \<and> map_of obj ''token'' = Some (JStr (control_token env)))"
  shows "own_stream_only h w w'"
proof (cases "json_value obj ''token'' ''''")
  case (Inr t)
  then have "unauthorised env t" using unauthorised_False assms(2) by blast
  then show ?thesis using assms(1) Inr
    by (auto simp: do_control_def send_json_own split: sum.splits)
qed (use assms(1) in \<open>simp add: do_control_def\<close>)

lemma handle_object_own:
  assumes "handle_object env h w obj = Inr w'"
    and "\<not> (control_token env \<noteq> [] \<and> map_of obj ''token'' = Some (JStr (control_token env)))"
  shows "own_stream_only h w w'"
proof -
  have g: "token_guard env obj \<noteq> Inr True" using assms(2) token_guard_True by blast
  have c: "do_control env h w obj = Inr w' \<Longrightarrow> own_stream_only h w w'"
    using control_own assms(2) by blast
  show ?thesis using assms(1) diagnostic_own [OF _ g] fetch_own inject_own [OF _ g] c
    by (simp add: handle_object_def split: sum.splits if_splits)
qed

lemma json_value_exn: "json_value obj k d = Inl e \<Longrightarrow> e = Json_Exn"
  by (auto simp: json_value_def split: option.splits json.splits)

lemma token_guard_exn: "token_guard env obj = Inl e \<Longrightarrow> e = Json_Exn"
  by (auto simp: token_guard_def dest: json_value_exn split: sum.splits if_splits)

lemma send_json_exn: "ss_writable (shared w) h \<Longrightarrow> send_json env h w j = Inl e \<Longrightarrow> e = Json_Exn"
  by (auto simp: send_json_def split: option.splits)

lemma diagnostic_exn:
  "ss_writable (shared w) h \<Longrightarrow> do_diagnostic env h w obj = Inl e \<Longrightarrow> e = Json_Exn"
  by (auto simp: do_diagnostic_def split: sum.splits bool.splits if_splits
      dest: json_value_exn token_guard_exn send_json_exn [rotated])

lemma fetch_exn: "ss_writable (shared w) h \<Longrightarrow> do_fetch env h w obj = Inl e \<Longrightarrow> e = Json_Exn"
  by (auto simp: do_fetch_def split: sum.splits dest: json_value_exn send_json_exn [rotated])

lemma inject_exn: "ss_writable (shared w) h \<Longrightarrow> do_inject env h w obj = Inl e \<Longrightarrow> e = Json_Exn"
  by (auto simp: do_inject_def split: sum.splits bool.splits if_splits option.splits
      dest: json_value_exn token_guard_exn send_json_exn [rotated])

lemma control_exn: "ss_writable (shared w) h \<Longrightarrow> do_control env h w obj = Inl e \<Longrightarrow> e = Json_Exn"
  by (auto simp: do_control_def split: sum.splits if_splits
      dest: json_value_exn send_json_exn [rotated])

lemma handle_object_exn:
  assumes "ss_writable (shared w) h"
  shows "handle_object env h w obj \<noteq> Inl Transport_Exn"
proof
  assume "handle_object env h w obj = Inl Transport_Exn"
  then have "Transport_Exn = Json_Exn"
    by (auto simp: handle_object_def split: sum.splits if_splits dest: json_value_exn
        diagnostic_exn [OF assms] fetch_exn [OF assms] inject_exn [OF assms] control_exn [OF assms])
  then show False by simp
qed

lemma send_json_ok:
  "ss_writable (shared w) h \<Longrightarrow> dump env j = Some p \<Longrightarrow>
     send_json env h w j = Inr (w\<lparr>shared := (shared w)\<lparr>ss_sent :=
                (ss_sent (shared w))(h := ss_sent (shared w) h @ [p])\<rparr>\<rparr>)"
  by (simp add: send_json_def)

lemma session_loop_registry:
  "shared_inv (shared w) \<Longrightarrow> same_registry (shared w) (shared (session_loop env h w ms)) \<and>
     shared_inv (shared (session_loop env h w ms))"
proof (induction ms arbitrary: w)
  case (Cons m ms)
  show ?case
  proof (cases "is_running w")
    case True
    show ?thesis
    proof (cases "handle_message env h w m")
      case (Inr w')
      then have "same_registry (shared w) (shared w')" using handle_message_frames Cons.prems by blast
      then have "shared_inv (shared w')" "same_registry (shared w) (shared w')"
        using Cons.prems by (auto simp: shared_inv_def same_registry_def)
      then show ?thesis using Cons.IH [of w'] Inr True by (simp add: same_registry_def)
    qed (use True Cons.prems in simp)
  qed (use Cons.prems in simp)
qed simp

section \<open>Properties\<close>

text \<open>
  C3: a message without the control token can only be answered on its own connection: it shuts
  nothing down, starts no process and puts no frame on another client's stream.
\<close>

theorem privileged_needs_token:
  assumes "handle_message env h w m = Inr w'" and "\<not> authorised env m"
  shows "is_running w' = is_running w \<and> spawned w' = spawned w \<and>
    (\<forall>g. g \<noteq> h \<longrightarrow> ss_sent (shared w') g = ss_sent (shared w) g)"
proof -
  have "own_stream_only h w w'"
  proof (cases "parse env m")
    case None
    then show ?thesis using assms(1) by (auto simp: handle_message_def dest: send_json_own)
  next
    case (Some j)
    show ?thesis
    proof (cases j)
      case (JObj obj)
      have "handle_object env h w obj = Inr w' \<Longrightarrow> own_stream_only h w w'"
        by (rule handle_object_own) (use assms(2) Some JObj in \<open>auto simp: authorised_def\<close>)
      then show ?thesis using assms(1) Some JObj
        by (auto simp: handle_message_def split: sum.splits exn.splits dest: send_json_own)
    qed (use assms(1) Some in \<open>auto simp: handle_message_def\<close>)
  qed
  then show ?thesis by (simp add: own_stream_only_def)
qed


text \<open>
  One message appends at most one frame to any client's stream, the sender's included.
\<close>

theorem at_most_one_frame:
  assumes "handle_message env h w m = Inr w'" and "shared_inv (shared w)"
  shows "\<forall>g. ss_sent (shared w') g = ss_sent (shared w) g \<or>
    (\<exists>x. ss_sent (shared w') g = ss_sent (shared w) g @ [x])"
  using handle_message_frames [OF assms] by (simp add: one_frame_def)

text \<open>
  C5: a session leaves the registry as it found it, whatever happens in it: the connected
  clients afterwards are those before, and nothing at all happens to a foreign origin or a client
  beyond the capacity.
\<close>

theorem session_balanced:
  assumes "shared_inv (shared w)"
  shows "case do_session env w origin inputs of (r, w') \<Rightarrow>
    m_connections (shared w') = m_connections (shared w) \<and> shared_inv (shared w') \<and>
    (r = Forbidden_Origin \<longleftrightarrow> origin \<notin> set WSTREAM_ALLOWED_ORIGINS) \<and>
    (r = Try_Again_Later \<longleftrightarrow>
       origin \<in> set WSTREAM_ALLOWED_ORIGINS \<and> client_count (shared w) = WSTREAM_MAX_CLIENTS) \<and>
    (r \<noteq> Served \<longrightarrow> w' = w)"
proof (cases "origin \<in> set WSTREAM_ALLOWED_ORIGINS")
  case False
  then show ?thesis using assms by (simp add: do_session_def)
next
  case allowed: True
  show ?thesis
  proof (cases "length (m_connections (shared w)) \<ge> WSTREAM_MAX_CLIENTS")
    case True
    then show ?thesis using allowed assms
      by (auto simp: do_session_def ss_join_def client_count_def shared_inv_def)
  next
    case False
    define h where "h = ss_next (shared w)"
    define s where "s = snd (ss_join (shared w))"
    have j: "ss_join (shared w) = (Some h, s)" using False by (simp add: ss_join_def s_def h_def Let_def)
    have fresh: "h \<notin> set (m_connections (shared w))" using assms by (auto simp: shared_inv_def h_def)
    have conns: "m_connections s = m_connections (shared w) @ [h]"
      using False by (simp add: s_def h_def ss_join_def Let_def)
    have inv: "shared_inv s" using shared_inv_join [OF assms j] .
    define w' where "w' = session_loop env h (w\<lparr>shared := s\<rparr>) inputs"
    have w': "same_registry s (shared w')" "shared_inv (shared w')"
      using session_loop_registry [of "w\<lparr>shared := s\<rparr>" env h inputs] inv by (simp_all add: w'_def)
    have "do_session env w origin inputs = (Served, w'\<lparr>shared := ss_leave (shared w') (Some h)\<rparr>)"
      using allowed j by (simp add: do_session_def w'_def Let_def)
    moreover have "m_connections (ss_leave (shared w') (Some h)) = m_connections (shared w)"
      using w'(1) conns fresh by (simp add: same_registry_def ss_leave_def)
    moreover have "shared_inv (ss_leave (shared w') (Some h))" using shared_inv_leave [OF w'(2)] .
    ultimately show ?thesis using False allowed by (simp add: client_count_def)
  qed
qed

section \<open>Witnesses\<close>

text \<open>A server with a token, one client whose message is a JSON object or nothing, and a plain serialiser.\<close>

definition demo_env :: session_env where
  "demo_env = \<lparr>control_token = ''s3cret'',
     parse = (\<lambda>m. if m = ''bad'' then None
               else Some (JObj [(''type'', JStr ''control''), (''action'', JStr ''shutdown''), (''token'', JStr m)])),
     dump = (\<lambda>j. case j of JObj ((_, JStr a) # (_, JStr b) # _) \<Rightarrow> Some b | _ \<Rightarrow> None),
     files = demo_fs, pipe_ok = True, spawn = (\<lambda>_. (0, []))\<rparr>"

definition demo_world :: world where
  "demo_world = \<lparr>is_running = True, shared = shared_new, spawned = []\<rparr>"

lemma demo_refused:
  "handle_message demo_env 0 demo_world ''guess'' =
     Inr (demo_world\<lparr>shared := shared_new\<lparr>ss_sent := (ss_sent shared_new)(0 := [''unauthorised''])\<rparr>\<rparr>)"
  by (simp add: handle_message_def demo_env_def handle_object_def json_value_def do_control_def
      unauthorised_def secure_compare_def send_json_def error_json_def demo_world_def shared_new_def)

lemma demo_shared_inv: "shared_inv (shared demo_world)"
  by (simp add: demo_world_def shared_new_def shared_inv_def)

theorem privileged_needs_token_witness:
  "\<exists>w'. handle_message demo_env 0 demo_world ''guess'' = Inr w' \<and> is_running w' \<and> spawned w' = []"
proof -
  have "\<not> authorised demo_env ''guess''" by (simp add: authorised_def demo_env_def)
  from privileged_needs_token [OF demo_refused this] demo_refused show ?thesis
    by (simp add: demo_world_def)
qed


theorem at_most_one_frame_witness:
  "\<exists>w'. handle_message demo_env 0 demo_world ''guess'' = Inr w' \<and>
    (\<forall>g. ss_sent (shared w') g = [] \<or> (\<exists>x. ss_sent (shared w') g = [x]))"
  using at_most_one_frame [OF demo_refused demo_shared_inv] demo_refused
  by (simp add: demo_world_def shared_new_def)

theorem session_balanced_witness:
  "case do_session demo_env demo_world '''' [''guess'', ''bad'', ''s3cret''] of (r, w') \<Rightarrow>
     r = Served \<and> m_connections (shared w') = []"
proof -
  obtain r w' where e: "do_session demo_env demo_world '''' [''guess'', ''bad'', ''s3cret''] = (r, w')"
    by fastforce
  have "m_connections (shared demo_world) = []" "'''' \<in> set WSTREAM_ALLOWED_ORIGINS"
      "client_count (shared demo_world) \<noteq> WSTREAM_MAX_CLIENTS"
    by (simp_all add: demo_world_def shared_new_def WSTREAM_ALLOWED_ORIGINS_def client_count_def
        WSTREAM_MAX_CLIENTS_def)
  then show ?thesis
    using session_balanced [OF demo_shared_inv, where env = demo_env and origin = "''''" and
      inputs = "[''guess'', ''bad'', ''s3cret'']"] e
    by (cases r) auto
qed

end
