(* ===== verification/Main_Loop.thy ===== *)
theory Main_Loop
  imports Audio_Ring Text_Cleanup Channels Session
begin

text \<open>
  \<open>main\<close> of \<open>src/stream/stream.cpp\<close>: the loop that waits for three seconds of audio, puts the tail of the
  previous window in front of it, runs the inference on the window and hands the cleaned text to
  the logger and to the broadcast queue.  The branch of \<open>use_vad\<close>, a constant \<open>false\<close>, is left out.
  \<open>whisper_full\<close> is a parameter here: the texts of the segments, or \<^term>\<open>None\<close> when it fails.
\<close>

section \<open>Constants and start-up\<close>

definition get_optimal_thread_count :: "int \<Rightarrow> int" where
  "get_optimal_thread_count hardware_threads = min 6 (max 1 (tdiv hardware_threads 4))"

definition select_model_path :: "(string \<Rightarrow> bool) \<Rightarrow> string list \<Rightarrow> string" where
  "select_model_path exists argv =
     (if length argv > 1 \<and> exists (argv ! 1) then argv ! 1 else ''models/ggml-small.en-q5_1.bin'')"

definition WHISPER_SAMPLE_RATE :: int where
  "WHISPER_SAMPLE_RATE = 16000"

definition step_ms :: int where "step_ms = 3000"
definition length_ms :: int where "length_ms = 10000"
definition n_samples_30s :: nat where "n_samples_30s = 480000"
definition n_samples_len :: nat where "n_samples_len = 160000"
definition n_samples_step :: nat where "n_samples_step = 48000"
definition n_samples_keep :: nat where "n_samples_keep = 3200"

lemmas loop_consts = step_ms_def length_ms_def n_samples_30s_def n_samples_len_def
  n_samples_step_def n_samples_keep_def WHISPER_SAMPLE_RATE_def

section \<open>Listening for audio\<close>

text \<open>
  What happens before one poll of the inner loop: whether another thread stored \<open>false\<close> into
  \<open>is_running\<close>, the SDL events that arrived, the chunks that the capture device delivered.
\<close>

record tick =
  t_stored :: bool
  t_events :: "sdl_event list"
  t_chunks :: "byte list list"

text \<open>The loop is still waiting when the ticks end, or it is left with a captured vector.\<close>

datatype capture =
    Listening
  | Captured bool audio_async "sdl_event list" "sample list"

fun capture_loop :: "bool \<Rightarrow> audio_async \<Rightarrow> sdl_event list \<Rightarrow> sample list \<Rightarrow> tick list
    \<Rightarrow> capture option" where
  "capture_loop running a q pcmf32_new [] = Some Listening"
| "capture_loop running a q pcmf32_new (t # ts) =
     (let running = (if t_stored t then False else running);
          (polled, q') = sdl_poll_events (q @ t_events t);
          running = polled
      in if \<not> running then Some (Captured running a q' pcmf32_new)
         else case push_all audio_callback a (t_chunks t) of None \<Rightarrow> None
         | Some a \<Rightarrow> (case audio_get a step_ms pcmf32_new of None \<Rightarrow> None
           | Some new \<Rightarrow>
               if length new > 2 * n_samples_step
               then capture_loop running (snd (audio_clear a)) q' new ts
               else if length new \<ge> n_samples_step
               then Some (Captured running (snd (audio_clear a)) q' new)
               else capture_loop running a q' new ts))"

section \<open>The window\<close>

text \<open>The loop over the kept samples and the \<open>memcpy\<close> behind them fill the resized vector.\<close>

definition samples_take :: "sample list \<Rightarrow> sample list \<Rightarrow> nat" where
  "samples_take pcmf32_old pcmf32_new =
     nat (min (int (length pcmf32_old))
              (max 0 (int n_samples_keep + int n_samples_len - int (length pcmf32_new))))"

definition make_window :: "sample list \<Rightarrow> sample list \<Rightarrow> sample list" where
  "make_window pcmf32_old pcmf32_new =
     (let n = samples_take pcmf32_old pcmf32_new
      in map (\<lambda>i. pcmf32_old ! (length pcmf32_old - n + i)) [0 ..< n] @ pcmf32_new)"

text \<open>
  \<open>pcmf32_old.assign(end - n_samples_keep, end)\<close>: the first iterator must not lie before the
  beginning of the vector.
\<close>

definition keep_tail :: "sample list \<Rightarrow> sample list option" where
  "keep_tail pcmf32 =
     (if length pcmf32 < n_samples_keep then None
      else Some (drop (length pcmf32 - n_samples_keep) pcmf32))"

section \<open>One iteration, and the loop\<close>

record loop_state =
  ls_running :: bool
  ls_audio :: audio_async
  ls_events :: "sdl_event list"
  ls_new :: "sample list"
  ls_old :: "sample list"
  ls_logger :: logger
  ls_queue :: transcription_queue

text \<open>
  What happens around one iteration: the events before the poll at its start, the ticks of its
  inner loop, and whether \<open>false\<close> is stored between the last poll and the test of the outer loop.
\<close>

record round =
  r_events :: "sdl_event list"
  r_ticks :: "tick list"
  r_stored :: bool

datatype outcome =
    Still_Waiting
  | Left loop_state
  | Next_Round loop_state

text \<open>Segments without a text (a null pointer) are skipped.\<close>

definition segments_text :: "string option list \<Rightarrow> string" where
  "segments_text segs = concat (map (\<lambda>t. case t of None \<Rightarrow> [] | Some t \<Rightarrow> t) segs)"

definition publish :: "loop_state \<Rightarrow> string option list \<Rightarrow> loop_state" where
  "publish s segs =
     (if segs = [] then s
      else let processed_text = process_text (segments_text segs)
        in if processed_text = [] then s
           else s\<lparr>ls_logger := logger_log (ls_logger s) processed_text,
                  ls_queue := tq_push (ls_queue s) processed_text\<rparr>)"

definition iteration :: "(sample list \<Rightarrow> string option list option) \<Rightarrow> loop_state \<Rightarrow> round
    \<Rightarrow> outcome option" where
  "iteration whisper_full s r =
     (let (polled, q) = sdl_poll_events (ls_events s @ r_events r);
          s = s\<lparr>ls_running := polled, ls_events := q\<rparr>
      in if \<not> ls_running s then Some (Left s)
         else case capture_loop True (ls_audio s) q (ls_new s) (r_ticks r) of
           None \<Rightarrow> None
         | Some Listening \<Rightarrow> Some Still_Waiting
         | Some (Captured running a q new) \<Rightarrow>
             let pcmf32 = make_window (ls_old s) new;
                 s = s\<lparr>ls_running := running, ls_audio := a, ls_events := q, ls_new := new,
                       ls_old := pcmf32\<rparr>;
                 after = (\<lambda>s. s\<lparr>ls_running := ls_running s \<and> \<not> r_stored r\<rparr>)
             in if pcmf32 = [] then Some (Next_Round (after s))
                else (case whisper_full pcmf32 of
                    None \<Rightarrow> Some (Left s)
                  | Some segs \<Rightarrow>
                     (case keep_tail pcmf32 of None \<Rightarrow> None
                      | Some old \<Rightarrow> Some (Next_Round (after ((publish s segs)\<lparr>ls_old := old\<rparr>))))))"

fun main_loop :: "(sample list \<Rightarrow> string option list option) \<Rightarrow> loop_state \<Rightarrow> round list
    \<Rightarrow> loop_state option" where
  "main_loop whisper_full s [] = Some s"
| "main_loop whisper_full s (r # rs) =
     (if \<not> ls_running s then Some s
      else case iteration whisper_full s r of
        None \<Rightarrow> None
      | Some Still_Waiting \<Rightarrow> Some s
      | Some (Left s') \<Rightarrow> Some s'
      | Some (Next_Round s') \<Rightarrow> main_loop whisper_full s' rs)"

text \<open>The end of \<open>main\<close>: the capture is paused, the flag cleared, the clients' reads cancelled and the
  logger told to stop (its thread is joined, see \<^theory_text>\<open>Channels\<close>).\<close>

definition main_shutdown :: "loop_state \<Rightarrow> shared_state \<Rightarrow> loop_state \<times> shared_state" where
  "main_shutdown s clients =
     (s\<lparr>ls_audio := snd (audio_pause (ls_audio s)), ls_running := False,
        ls_logger := logger_stop (ls_logger s)\<rparr>,
      close_all clients)"

section \<open>Lemmas\<close>

abbreviation loop_ok :: "audio_async \<Rightarrow> bool" where
  "loop_ok a \<equiv> audio_ready a \<and> m_sample_rate a = WHISPER_SAMPLE_RATE"

lemma requested_step: "m_sample_rate a = WHISPER_SAMPLE_RATE \<Longrightarrow> requested_samples a step_ms = n_samples_step"
  by (simp add: requested_samples_def loop_consts tdiv_def to_size_t_def)

lemma get_step:
  assumes "loop_ok a"
  shows "\<exists>new. audio_get a step_ms old = Some new \<and> length new \<le> n_samples_step"
proof -
  have "audio_get a step_ms old = Some (lastn n_samples_step (audio_hist a))"
    using audio_get_hist [of a step_ms old] assms requested_step [of a]
    by (simp add: loop_consts int32_ok_def)
  then show ?thesis by simp
qed

lemma push_all_safe:
  "loop_ok a \<Longrightarrow> \<exists>a'. push_all audio_callback a cs = Some a' \<and> loop_ok a'"
proof (induction cs arbitrary: a)
  case (Cons c cs)
  obtain a' where "audio_callback a c = Some a'" "loop_ok a'"
    using audio_callback_step_hist [of a c] Cons.prems by auto
  then show ?case using Cons.IH by simp
qed simp

lemma audio_clear_ok: "loop_ok a \<Longrightarrow> loop_ok (snd (audio_clear a))"
  by (auto simp: audio_clear_def audio_inv_def)

lemma capture_loop_safe:
  "loop_ok a \<Longrightarrow> \<exists>c. capture_loop running a q new ts = Some c \<and>
     (\<forall>running' a' q' new'. c = Captured running' a' q' new' \<longrightarrow>
        loop_ok a' \<and> (running' \<longrightarrow> length new' = n_samples_step))"
proof (induction running a q new ts rule: capture_loop.induct)
  case (2 running a q new t ts)
  obtain polled q' where p: "sdl_poll_events (q @ t_events t) = (polled, q')" by fastforce
  show ?case
  proof (cases polled)
    case True
    obtain a1 where a1: "push_all audio_callback a (t_chunks t) = Some a1" "loop_ok a1"
      using push_all_safe 2(3) by blast
    obtain new1 where n1: "audio_get a1 step_ms new = Some new1" "length new1 \<le> n_samples_step"
      using get_step [OF a1(2)] by blast
    have "loop_ok (snd (audio_clear a1))" using audio_clear_ok a1(2) by blast
    then show ?thesis
      using 2(2) [OF refl p [symmetric] refl refl] p True a1 n1
      by (auto simp: n_samples_step_def)
  qed (use p 2(3) in simp)
qed simp

lemma make_window_eq: "make_window old new = lastn (samples_take old new) old @ new"
proof -
  have "samples_take old new \<le> length old" by (simp add: samples_take_def)
  then have "map (\<lambda>i. old ! (length old - samples_take old new + i)) [0 ..< samples_take old new] =
      lastn (samples_take old new) old"
    by (intro nth_equalityI) (simp_all add: lastn_def)
  then show ?thesis by (simp add: make_window_def Let_def)
qed

lemma samples_take_keep:
  "length old = n_samples_keep \<Longrightarrow> length new \<le> n_samples_step \<Longrightarrow> samples_take old new = n_samples_keep"
  by (simp add: samples_take_def loop_consts)

text \<open>The buffer is empty when a step was captured.\<close>

lemma audio_clear_len: "audio_ready a \<Longrightarrow> m_audio_len (snd (audio_clear a)) = 0"
  by (simp add: audio_clear_def)

lemma capture_loop_cleared:
  "loop_ok a \<Longrightarrow> capture_loop running a q new ts = Some (Captured True a' q' new') \<Longrightarrow> m_audio_len a' = 0"
proof (induction running a q new ts rule: capture_loop.induct)
  case (2 running a q new t ts)
  obtain polled q1 where p: "sdl_poll_events (q @ t_events t) = (polled, q1)" by fastforce
  show ?case
  proof (cases polled)
    case True
    obtain a1 where a1: "push_all audio_callback a (t_chunks t) = Some a1" "loop_ok a1"
      using push_all_safe 2(3) by blast
    obtain new1 where n1: "audio_get a1 step_ms new = Some new1" "length new1 \<le> n_samples_step"
      using get_step [OF a1(2)] by blast
    show ?thesis
    proof (cases "length new1 \<ge> n_samples_step")
      case True
      then show ?thesis using 2(4) p \<open>polled\<close> a1 n1 audio_clear_len by (auto simp: n_samples_step_def)
    next
      case False
      then have "capture_loop True a1 q1 new1 ts = Some (Captured True a' q' new')"
        using 2(4) p \<open>polled\<close> a1 n1 by (simp add: n_samples_step_def)
      then show ?thesis
        using 2(2) [OF refl p [symmetric] refl] True a1 n1 False by (auto simp: n_samples_step_def)
    qed
  qed (use p 2(4) in simp)
qed simp

text \<open>The new samples never exceed what the vector had before the loop, or one step.\<close>

lemma capture_new_length:
  "loop_ok a \<Longrightarrow> capture_loop running a q new ts = Some (Captured r a' q' new') \<Longrightarrow>
     new' = new \<or> length new' \<le> n_samples_step"
proof (induction running a q new ts rule: capture_loop.induct)
  case (2 running a q new t ts)
  obtain polled q1 where p: "sdl_poll_events (q @ t_events t) = (polled, q1)" by fastforce
  show ?case
  proof (cases polled)
    case True
    obtain a1 where a1: "push_all audio_callback a (t_chunks t) = Some a1" "loop_ok a1"
      using push_all_safe 2(3) by blast
    obtain new1 where n1: "audio_get a1 step_ms new = Some new1" "length new1 \<le> n_samples_step"
      using get_step [OF a1(2)] by blast
    show ?thesis
    proof (cases "length new1 \<ge> n_samples_step")
      case True
      then show ?thesis using 2(4) p \<open>polled\<close> a1 n1 by (simp add: n_samples_step_def)
    next
      case False
      then have "capture_loop True a1 q1 new1 ts = Some (Captured r a' q' new')"
        using 2(4) p \<open>polled\<close> a1 n1 by (simp add: n_samples_step_def)
      then have "new' = new1 \<or> length new' \<le> n_samples_step"
        using 2(2) [OF refl p [symmetric] refl] True a1 n1 False
        by (auto simp: n_samples_step_def)
      then show ?thesis using n1 by auto
    qed
  qed (use p 2(4) in simp)
qed simp

lemma window_long_enough:
  assumes "length old = n_samples_keep" and "length new = n_samples_30s \<or> length new \<le> n_samples_step"
  shows "n_samples_keep \<le> length (make_window old new)"
  using assms samples_take_keep [OF assms(1), of new]
  by (auto simp: make_window_eq lastn_def loop_consts)

definition ls_inv :: "loop_state \<Rightarrow> bool" where
  "ls_inv s \<longleftrightarrow> loop_ok (ls_audio s) \<and>
     (length (ls_new s) = n_samples_30s \<or> length (ls_new s) \<le> n_samples_step)"

lemma publish_frame [simp]:
  "ls_audio (publish s segs) = ls_audio s" "ls_new (publish s segs) = ls_new s"
  "ls_running (publish s segs) = ls_running s" "ls_events (publish s segs) = ls_events s"
  by (simp_all add: publish_def Let_def)

lemma iteration_safe:
  assumes inv: "ls_inv s" and old: "length (ls_old s) = n_samples_keep"
  shows "\<exists>out. iteration infer s r = Some out \<and>
    (\<forall>s'. out = Next_Round s' \<longrightarrow> ls_inv s' \<and> length (ls_old s') = n_samples_keep)"
proof -
  obtain polled q where p: "sdl_poll_events (ls_events s @ r_events r) = (polled, q)" by fastforce
  have a: "loop_ok (ls_audio s)" using inv by (simp add: ls_inv_def)
  show ?thesis
  proof (cases polled)
    case True
    obtain c where c: "capture_loop True (ls_audio s) q (ls_new s) (r_ticks r) = Some c"
      and cap: "\<And>running' a' q' new'. c = Captured running' a' q' new' \<Longrightarrow> loop_ok a'"
      using capture_loop_safe [OF a] by blast
    show ?thesis
    proof (cases c)
      case Listening
      then show ?thesis using p True c by (simp add: iteration_def)
    next
      case (Captured run a' q' new)
      have new: "length new = n_samples_30s \<or> length new \<le> n_samples_step"
        using capture_new_length [OF a c [unfolded Captured]] inv by (auto simp: ls_inv_def)
      let ?w = "make_window (ls_old s) new"
      have w: "n_samples_keep \<le> length ?w" using window_long_enough [OF old new] .
      then have ne: "?w \<noteq> []" by (auto simp: n_samples_keep_def)
      have "loop_ok a'" using cap Captured by blast
      then show ?thesis using p True c Captured w ne new
        by (auto simp: iteration_def Let_def keep_tail_def ls_inv_def split: option.splits)
    qed
  qed (use p in \<open>simp add: iteration_def\<close>)
qed

section \<open>Properties\<close>


text \<open>
  C21: in the first iteration, where nothing is kept yet, the \<open>assign\<close> reads before the beginning of the
  window exactly when the program is asked to quit after between 1 and 3199 samples arrived.
\<close>

theorem first_window_underrun:
  assumes "ls_inv s" and "ls_old s = []"
  shows "iteration infer s r = None \<longleftrightarrow>
    (\<exists>q a q' new. sdl_poll_events (ls_events s @ r_events r) = (True, q) \<and>
       capture_loop True (ls_audio s) q (ls_new s) (r_ticks r) = Some (Captured False a q' new) \<and>
       new \<noteq> [] \<and> length new < n_samples_keep \<and> infer new \<noteq> None)"
proof -
  obtain polled q where p: "sdl_poll_events (ls_events s @ r_events r) = (polled, q)" by fastforce
  have a: "loop_ok (ls_audio s)" using assms by (simp add: ls_inv_def)
  have w: "make_window [] new = new" for new by (simp add: make_window_eq lastn_def)
  obtain c where c: "capture_loop True (ls_audio s) q (ls_new s) (r_ticks r) = Some c"
    and cap: "\<And>a' q' new'. c = Captured True a' q' new' \<Longrightarrow> length new' = n_samples_step"
    using capture_loop_safe [OF a] by blast
  show ?thesis
  proof (cases polled)
    case False
    then show ?thesis using p by (simp add: iteration_def)
  next
    case True
    show ?thesis
    proof (cases c)
      case Listening
      then show ?thesis using p True c by (simp add: iteration_def)
    next
      case (Captured run a' q' new)
      have "run \<Longrightarrow> length new = n_samples_step" using cap Captured by blast
      then show ?thesis using p True c Captured assms(2)
        by (cases run) (auto simp: iteration_def Let_def keep_tail_def w loop_consts split: option.splits)
    qed
  qed
qed

text \<open>
  Whenever the inner loop is left to process audio it has captured exactly one step of it, 48000
  samples; so the check for more than two steps (audio dropped, with a warning) never fires.
\<close>

theorem capture_exactly_one_step:
  assumes "audio_inv a" and "m_running a" and "m_dev_id_in a \<noteq> 0"
    and "m_sample_rate a = WHISPER_SAMPLE_RATE"
    and "capture_loop running a q new ts = Some (Captured True a' q' new')"
  shows "length new' = n_samples_step \<and> m_audio_len a' = 0 \<and>
    (\<forall>b out. loop_ok b \<and> audio_get b step_ms new = Some out \<longrightarrow> \<not> length out > 2 * n_samples_step)"
proof -
  have "loop_ok a" using assms by blast
  then have n: "length new' = n_samples_step" and "loop_ok a'"
    using capture_loop_safe [of a running q new ts] assms(5) by auto
  have "\<not> length out > 2 * n_samples_step" if "loop_ok b" "audio_get b step_ms new = Some out" for b out
    using get_step [OF that(1), of new] that(2) by auto
  then show ?thesis using n capture_loop_cleared [OF \<open>loop_ok a\<close> assms(5)] by blast
qed

text \<open>
  C23: a \<open>false\<close> stored into \<open>is_running\<close> by another thread while the loop waits for audio has no
  effect: the next poll of the events overwrites it.
\<close>

theorem stored_flag_overwritten:
  "capture_loop running a q new (map (t_stored_update f) ts) = capture_loop True a q new ts"
proof (induction ts arbitrary: running a q new)
  case (Cons t ts)
  show ?case
    by (auto simp: Let_def Cons.IH Cons.IH [of _ _ _ _, symmetric] split: prod.splits option.splits)
qed simp


section \<open>Witnesses\<close>

text \<open>A capture buffer of four samples at the loop's rate, and a state whose kept tail is complete.\<close>

definition demo_audio :: audio_async where
  "demo_audio = \<lparr>m_dev_id_in = 2, m_len_ms = 10000, m_sample_rate = 16000, m_running = True,
     m_audio = [0, 0, 0, 0], m_audio_pos = 0, m_audio_len = 0\<rparr>"

definition demo_loop :: "sample list \<Rightarrow> loop_state" where
  "demo_loop old = \<lparr>ls_running = True, ls_audio = demo_audio, ls_events = [],
     ls_new = [], ls_old = old, ls_logger = logger_new (\<lambda>_. None) (\<lambda>_. True) (\<lambda>_. True) 10,
     ls_queue = tq_empty\<rparr>"

definition quit_early :: round where
  "quit_early = \<lparr>r_events = [], r_ticks =
     [\<lparr>t_stored = False, t_events = [SDL_OTHER], t_chunks = [[1, 0, 0, 0]]\<rparr>,
      \<lparr>t_stored = False, t_events = [SDL_QUIT], t_chunks = []\<rparr>], r_stored = False\<rparr>"

lemma demo_loop_inv: "ls_inv (demo_loop old)"
  by (simp add: ls_inv_def demo_loop_def demo_audio_def audio_inv_def WHISPER_SAMPLE_RATE_def)


lemma quit_early_capture:
  "capture_loop True demo_audio [] [] (r_ticks quit_early) =
     Some (Captured False (demo_audio\<lparr>m_audio := [1, 0, 0, 0], m_audio_pos := 1, m_audio_len := 1\<rparr>) [] [1])"
proof -
  let ?a = "demo_audio\<lparr>m_audio := [1, 0, 0, 0], m_audio_pos := 1, m_audio_len := 1\<rparr>"
  have c: "audio_callback demo_audio [1, 0, 0, 0] = Some ?a"
    by (simp add: audio_callback_def demo_audio_def load_floats_def mem_write_def word_rcat_def
        horner_sum_simps)
  have g: "audio_get ?a step_ms [] = Some [1]"
    by (simp add: audio_get_def demo_audio_def step_ms_def int32_ok_def to_size_t_def tdiv_def
        to_int32_def mem_read_def)
  show ?thesis using g by (simp add: quit_early_def c n_samples_step_def)
qed

theorem first_window_underrun_witness:
  "iteration (\<lambda>_. Some [Some ''hello'']) (demo_loop []) quit_early = None"
proof -
  have o: "ls_old (demo_loop []) = []" by (simp add: demo_loop_def)
  show ?thesis
    using first_window_underrun [OF demo_loop_inv o, of "\<lambda>_. Some [Some ''hello'']" quit_early]
      quit_early_capture
    by (simp add: demo_loop_def quit_early_def n_samples_keep_def)
qed

text \<open>A buffer that already holds a whole step.\<close>

definition full_audio :: audio_async where
  "full_audio = demo_audio\<lparr>m_audio := replicate 48000 7, m_audio_len := 48000\<rparr>"

theorem capture_exactly_one_step_witness:
  "\<exists>a' q' new'. capture_loop False full_audio [] [] [\<lparr>t_stored = True, t_events = [], t_chunks = []\<rparr>] =
      Some (Captured True a' q' new') \<and> length new' = 48000 \<and> m_audio_len a' = 0"
proof -
  have inv: "audio_inv full_audio" "m_running full_audio" "m_dev_id_in full_audio \<noteq> 0"
      "m_sample_rate full_audio = WHISPER_SAMPLE_RATE"
    by (simp_all add: audio_inv_def full_audio_def demo_audio_def WHISPER_SAMPLE_RATE_def)
  have r: "requested_samples full_audio step_ms = 48000"
    using requested_step [OF inv(4)] by (simp add: n_samples_step_def)
  have "audio_get full_audio step_ms [] = Some (lastn 48000 (audio_hist full_audio))"
    using audio_get_hist [OF inv(1-3), of step_ms "[]"] inv(4) r
    by (simp add: loop_consts int32_ok_def)
  moreover have "length (lastn 48000 (audio_hist full_audio)) = 48000"
    by (simp add: audio_hist_def full_audio_def demo_audio_def)
  ultimately have c: "capture_loop False full_audio [] [] [\<lparr>t_stored = True, t_events = [], t_chunks = []\<rparr>] =
      Some (Captured True (snd (audio_clear full_audio)) [] (lastn 48000 (audio_hist full_audio)))"
    by (simp add: n_samples_step_def)
  show ?thesis using capture_exactly_one_step [OF inv c] c by (auto simp: n_samples_step_def)
qed

end
