(* ===== verification/Grammar_Types.thy ===== *)
theory Grammar_Types
  imports Strings
begin

text \<open>
  Grammars as \<open>src/include/whisper.h\<close> defines them: a rule is a flat array of elements, its alternates
  separated by \<open>ALT\<close> and closed by \<open>END\<close>.  A code point or rule number is an \<open>uint32_t\<close> in the code;
  nothing here can reach \<open>2 ^ 32\<close> (see \<open>parse_char_bound\<close>), so it is a natural number.  A pointer into a
  rule is the list of the elements from there to the end of the array.
\<close>

datatype gretype =
    GRETYPE_END
  | GRETYPE_ALT
  | GRETYPE_RULE_REF
  | GRETYPE_CHAR
  | GRETYPE_CHAR_NOT
  | GRETYPE_CHAR_RNG_UPPER
  | GRETYPE_CHAR_ALT

datatype element = Elem (gtype: gretype) (gvalue: nat)

text \<open>The end of one of the definitions of a rule.\<close>

fun is_end_type :: "gretype \<Rightarrow> bool" where
  "is_end_type GRETYPE_END = True"
| "is_end_type GRETYPE_ALT = True"
| "is_end_type _ = False"

text \<open>The elements that take part in a character class.\<close>

fun is_char_element :: "element \<Rightarrow> bool" where
  "is_char_element (Elem GRETYPE_CHAR _) = True"
| "is_char_element (Elem GRETYPE_CHAR_NOT _) = True"
| "is_char_element (Elem GRETYPE_CHAR_ALT _) = True"
| "is_char_element (Elem GRETYPE_CHAR_RNG_UPPER _) = True"
| "is_char_element _ = False"

text \<open>The position after the given type of the previous element may hold this element.\<close>

fun follows :: "gretype option \<Rightarrow> gretype \<Rightarrow> bool" where
  "follows p GRETYPE_CHAR_RNG_UPPER =
     (p \<in> {Some GRETYPE_CHAR, Some GRETYPE_CHAR_NOT, Some GRETYPE_CHAR_ALT})"
| "follows p GRETYPE_CHAR_ALT =
     (p \<in> {Some GRETYPE_CHAR, Some GRETYPE_CHAR_NOT, Some GRETYPE_CHAR_ALT, Some GRETYPE_CHAR_RNG_UPPER})"
| "follows p GRETYPE_END = False"
| "follows p _ = True"

text \<open>
  The body of a rule, without its \<open>END\<close>: every modifier follows what it modifies, and every
  referenced rule is below \<open>n\<close>.
\<close>

fun body_ok :: "nat \<Rightarrow> gretype option \<Rightarrow> element list \<Rightarrow> bool" where
  "body_ok n p [] = True"
| "body_ok n p (e # es) =
     (follows p (gtype e) \<and> (gtype e = GRETYPE_RULE_REF \<longrightarrow> gvalue e < n) \<and> body_ok n (Some (gtype e)) es)"

definition rule_ok :: "nat \<Rightarrow> element list \<Rightarrow> bool" where
  "rule_ok n r \<longleftrightarrow> (\<exists>body. r = body @ [Elem GRETYPE_END 0] \<and> body_ok n None body)"

lemma follows_mono: "follows None t \<Longrightarrow> follows p t"
  by (cases t) auto

lemma body_ok_mono: "body_ok m p es \<Longrightarrow> m \<le> n \<Longrightarrow> body_ok n p es"
  by (induction es arbitrary: p) auto

lemma body_ok_weaken: "body_ok n None es \<Longrightarrow> body_ok n p es"
  by (cases es) (auto intro: follows_mono)

lemma body_ok_append:
  "body_ok n p (xs @ ys) \<longleftrightarrow>
     body_ok n p xs \<and> body_ok n (if xs = [] then p else Some (gtype (last xs))) ys"
  by (induction xs arbitrary: p) auto

lemma body_ok_take: "body_ok n p xs \<Longrightarrow> body_ok n p (take k xs)"
  using body_ok_append [of n p "take k xs" "drop k xs"] by simp

lemma rule_ok_mono: "rule_ok m r \<Longrightarrow> m \<le> n \<Longrightarrow> rule_ok n r"
  by (auto simp: rule_ok_def intro: body_ok_mono)

end
