(* ===== verification/Grammar_Parser.thy ===== *)
theory Grammar_Parser
  imports Grammar_Types "HOL-Library.AList"
begin

text \<open>
  The grammar parser of \<open>src/common/grammar-parser.cpp\<close>.  A \<open>const char *\<close> into the source is the
  string of the characters that remain before its terminating zero; an exception is a value of
  \<open>parse_error\<close>.  The three functions that call each other take a bound on the depth of their calls;
  \<open>parse\<close> gives one that is always enough (\<open>parse_never_out_of_fuel\<close>).
\<close>

section \<open>State and characters\<close>

record parse_state =
  symbol_ids :: "(string \<times> nat) list"
  rules :: "element list list"

definition empty_state :: parse_state where
  "empty_state = \<lparr>symbol_ids = [], rules = []\<rparr>"

datatype parse_error =
    Expecting_Hex nat string
  | Expecting_Name string
  | Unknown_Escape string
  | Unexpected_End
  | Expecting_Paren string
  | Expecting_Item string
  | Expecting_Define string
  | Expecting_Newline string
  | Out_Of_Fuel

definition peek :: "string \<Rightarrow> char" where
  "peek s = (case s of [] \<Rightarrow> NUL | c # _ \<Rightarrow> c)"

definition byte_val :: "char \<Rightarrow> nat" where
  "byte_val c = of_char c"

text \<open>\<open>decode_utf8\<close>: the table of lengths, the continuation bytes, the first byte.\<close>

definition utf8_len :: "nat \<Rightarrow> nat" where
  "utf8_len highbits = [1, 1, 1, 1, 1, 1, 1, 1, 1, 1, 1, 1, 2, 2, 3, 4] ! highbits"

fun cont_bytes :: "nat \<Rightarrow> nat \<Rightarrow> string \<Rightarrow> nat \<times> string" where
  "cont_bytes value (Suc n) (c # pos) = cont_bytes (value * 64 + byte_val c mod 64) n pos"
| "cont_bytes value n pos = (value, pos)"

definition decode_utf8 :: "string \<Rightarrow> nat \<times> string" where
  "decode_utf8 src =
     (let first_byte = byte_val (peek src); len = utf8_len (first_byte div 16)
      in cont_bytes (first_byte mod 2 ^ (8 - len)) (len - 1) (tl src))"

definition get_symbol_id :: "parse_state \<Rightarrow> string \<Rightarrow> nat \<times> parse_state" where
  "get_symbol_id st name = (case map_of (symbol_ids st) name of
       Some i \<Rightarrow> (i, st)
     | None \<Rightarrow> let next_id = length (symbol_ids st)
               in (next_id, st\<lparr>symbol_ids := symbol_ids st @ [(name, next_id)]\<rparr>))"

definition generate_symbol_id :: "parse_state \<Rightarrow> string \<Rightarrow> nat \<times> parse_state" where
  "generate_symbol_id st base_name =
     (let next_id = length (symbol_ids st)
      in (next_id, st\<lparr>symbol_ids :=
            AList.update (base_name @ ''_'' @ nat_str next_id) next_id (symbol_ids st)\<rparr>))"

definition add_rule :: "parse_state \<Rightarrow> nat \<Rightarrow> element list \<Rightarrow> parse_state" where
  "add_rule st rule_id rule =
     (let rs = (if length (rules st) \<le> rule_id
                then rules st @ replicate (rule_id + 1 - length (rules st)) [] else rules st)
      in st\<lparr>rules := rs[rule_id := rule]\<rparr>)"

definition is_word_char :: "char \<Rightarrow> bool" where
  "is_word_char c \<longleftrightarrow> isalpha c \<or> c = CHR ''-'' \<or> isdigit c"

definition hex_val :: "char \<Rightarrow> nat option" where
  "hex_val c = (let n = of_char c :: nat in
     if 97 \<le> n \<and> n \<le> 102 then Some (n - 97 + 10)
     else if 65 \<le> n \<and> n \<le> 70 then Some (n - 65 + 10)
     else if 48 \<le> n \<and> n \<le> 57 then Some (n - 48) else None)"

text \<open>The loop of \<open>parse_hex\<close>, with the digits that are still to come.\<close>

fun hex_loop :: "nat \<Rightarrow> nat \<Rightarrow> string \<Rightarrow> (nat \<times> string) option" where
  "hex_loop value 0 pos = Some (value, pos)"
| "hex_loop value (Suc n) [] = None"
| "hex_loop value (Suc n) (c # pos) = (case hex_val c of
       None \<Rightarrow> None | Some d \<Rightarrow> hex_loop (value * 16 + d) n pos)"

definition parse_hex :: "string \<Rightarrow> nat \<Rightarrow> parse_error + nat \<times> string" where
  "parse_hex src ndigits = (case hex_loop 0 ndigits src of
       None \<Rightarrow> Inl (Expecting_Hex ndigits src) | Some r \<Rightarrow> Inr r)"

definition is_eol :: "char \<Rightarrow> bool" where
  "is_eol c \<longleftrightarrow> c = CHR 0x0D \<or> c = CHR 0x0A"

function parse_space :: "string \<Rightarrow> bool \<Rightarrow> string" where
  "parse_space [] newline_ok = []"
| "parse_space (c # pos) newline_ok =
     (if c = CHR '' '' \<or> c = CHR 0x09 \<or> (newline_ok \<and> is_eol c) then parse_space pos newline_ok
      else if c = CHR ''#'' then parse_space (dropWhile (\<lambda>c. \<not> is_eol c) pos) newline_ok
      else c # pos)"
  by pat_completeness auto
termination
  by (relation "measure (length \<circ> fst)") (auto simp: less_Suc_eq_le length_dropWhile_le)

text \<open>The name that starts the source, and what follows it.\<close>

definition parse_name :: "string \<Rightarrow> parse_error + string \<times> string" where
  "parse_name src =
     (let name = takeWhile is_word_char src
      in if name = [] then Inl (Expecting_Name src) else Inr (name, dropWhile is_word_char src))"

definition parse_char :: "string \<Rightarrow> parse_error + nat \<times> string" where
  "parse_char src =
     (if peek src = CHR 0x5C then
        (let c = peek (tl src); rest = tl (tl src) in
         if c = CHR ''x'' then parse_hex rest 2
         else if c = CHR ''u'' then parse_hex rest 4
         else if c = CHR ''U'' then parse_hex rest 8
         else if c = CHR ''t'' then Inr (9, rest)
         else if c = CHR ''r'' then Inr (13, rest)
         else if c = CHR ''n'' then Inr (10, rest)
         else if c \<in> {CHR 0x5C, CHR 0x22, CHR ''['', CHR '']''} then Inr (byte_val c, rest)
         else Inl (Unknown_Escape src))
      else if src \<noteq> [] then Inr (decode_utf8 src)
      else Inl Unexpected_End)"

subsection \<open>They consume their input\<close>

lemma length_parse_space: "length (parse_space s b) \<le> length s"
proof (induction s b rule: parse_space.induct)
  case (2 c pos b)
  have "length (dropWhile (\<lambda>c. \<not> is_eol c) pos) \<le> length pos" by (rule length_dropWhile_le)
  then show ?case using 2 by auto
qed simp

lemma length_cont_bytes: "length (snd (cont_bytes v n s)) \<le> length s"
  by (induction v n s rule: cont_bytes.induct) auto

lemma length_hex_loop: "hex_loop v n s = Some (v', s') \<Longrightarrow> length s' \<le> length s"
  by (induction v n s rule: hex_loop.induct) (auto split: option.splits)

lemma length_decode_utf8: "s \<noteq> [] \<Longrightarrow> length (snd (decode_utf8 s)) < length s"
  using length_cont_bytes [of _ _ "tl s"]
  by (cases s) (auto simp: decode_utf8_def Let_def less_Suc_eq_le)

lemma peek_Cons [simp]: "peek (c # s) = c"
  by (simp add: peek_def)

lemma peek_Nil [simp]: "peek [] = NUL"
  by (simp add: peek_def)

lemma length_parse_char: "parse_char s = Inr (v, s') \<Longrightarrow> length s' < length s"
proof (cases s)
  case (Cons c t)
  assume r: "parse_char s = Inr (v, s')"
  show ?thesis
  proof (cases "c = CHR 0x5C")
    case True
    have "length s' \<le> length (tl t)"
      using r Cons True length_hex_loop [of 0 _ "tl t"]
      by (auto simp: parse_char_def Let_def parse_hex_def split: if_splits option.splits)
    then show ?thesis using Cons by (simp add: less_Suc_eq_le)
  next
    case False
    then have "decode_utf8 s = (v, s')" using r Cons by (simp add: parse_char_def)
    then show ?thesis using length_decode_utf8 [of s] Cons by simp
  qed
qed (simp add: parse_char_def NUL_def)

lemma length_dropWhile_less: "takeWhile P s \<noteq> [] \<Longrightarrow> length (dropWhile P s) < length s"
  by (cases s) (auto simp: less_Suc_eq_le length_dropWhile_le split: if_splits)

lemma parse_name_word: "parse_name s = Inr (name, r) \<Longrightarrow> list_all is_word_char name \<and> name \<noteq> []"
  by (auto simp: parse_name_def Let_def list_all_iff dest: set_takeWhileD split: if_splits)

lemma length_parse_name: "parse_name s = Inr (name, r) \<Longrightarrow> length r < length s"
  by (auto simp: parse_name_def Let_def length_dropWhile_less split: if_splits)

section \<open>The loops over a literal and over character ranges\<close>

function parse_literal :: "string \<Rightarrow> element list \<Rightarrow> parse_error + element list \<times> string" where
  "parse_literal pos out =
     (if peek pos = CHR 0x22 then Inr (out, pos)
      else case parse_char pos of
        Inl e \<Rightarrow> Inl e
      | Inr (v, pos') \<Rightarrow> parse_literal pos' (out @ [Elem GRETYPE_CHAR v]))"
  by pat_completeness auto
termination
  by (relation "measure (length \<circ> fst)") (auto dest: length_parse_char)

text \<open>One turn of the loop over a class: a character, and the upper end of a range if one follows.\<close>

definition parse_range :: "gretype \<Rightarrow> nat \<Rightarrow> string \<Rightarrow> element list
    \<Rightarrow> parse_error + element list \<times> string" where
  "parse_range start_type last_sym_start pos out = (case parse_char pos of
       Inl e \<Rightarrow> Inl e
     | Inr (v, pos) \<Rightarrow>
        let out = out @ [Elem (if last_sym_start < length out then GRETYPE_CHAR_ALT else start_type) v]
        in if peek pos = CHR ''-'' \<and> peek (tl pos) \<noteq> CHR '']'' then
             (case parse_char (tl pos) of
                Inl e \<Rightarrow> Inl e
              | Inr (w, pos) \<Rightarrow> Inr (out @ [Elem GRETYPE_CHAR_RNG_UPPER w], pos))
           else Inr (out, pos))"

lemma length_parse_range: "parse_range st l pos out = Inr (out', pos') \<Longrightarrow> length pos' < length pos"
proof -
  assume r: "parse_range st l pos out = Inr (out', pos')"
  obtain v p where p: "parse_char pos = Inr (v, p)"
    using r by (auto simp: parse_range_def split: sum.splits)
  have less: "length p < length pos" using length_parse_char [OF p] .
  have "parse_char (tl p) = Inr (w, q) \<Longrightarrow> length q < length p" for w q
    using length_parse_char [of "tl p" w q] by (cases p) auto
  then show ?thesis using r p less
    by (auto simp: parse_range_def Let_def split: if_splits sum.splits dest: less_trans)
qed

function parse_ranges :: "gretype \<Rightarrow> nat \<Rightarrow> string \<Rightarrow> element list
    \<Rightarrow> parse_error + element list \<times> string" where
  "parse_ranges start_type last_sym_start pos out =
     (if peek pos = CHR '']'' then Inr (out, pos)
      else case parse_range start_type last_sym_start pos out of
        Inl e \<Rightarrow> Inl e
      | Inr (out', pos') \<Rightarrow> parse_ranges start_type last_sym_start pos' out')"
  by pat_completeness auto
termination
  by (relation "measure (\<lambda>(_, _, pos, _). length pos)") (auto dest: length_parse_range)

declare parse_literal.simps [simp del] parse_ranges.simps [simp del]

lemma length_parse_literal: "parse_literal pos out = Inr (out', pos') \<Longrightarrow> length pos' \<le> length pos"
proof (induction pos out rule: parse_literal.induct)
  case (1 pos out)
  show ?case
  proof (cases "peek pos = CHR 0x22")
    case False
    then obtain v p where p: "parse_char pos = Inr (v, p)"
        "parse_literal p (out @ [Elem GRETYPE_CHAR v]) = Inr (out', pos')"
      using 1(2) by (subst (asm) parse_literal.simps) (auto split: sum.splits)
    then show ?thesis using 1(1) [OF False p(1) refl] length_parse_char [OF p(1)] by simp
  qed (use 1(2) in \<open>subst (asm) parse_literal.simps; simp\<close>)
qed

lemma length_parse_ranges: "parse_ranges t l pos out = Inr (out', pos') \<Longrightarrow> length pos' \<le> length pos"
proof (induction t l pos out rule: parse_ranges.induct)
  case (1 t l pos out)
  show ?case
  proof (cases "peek pos = CHR '']''")
    case False
    then obtain o1 p where p: "parse_range t l pos out = Inr (o1, p)"
        "parse_ranges t l p o1 = Inr (out', pos')"
      using 1(2) by (subst (asm) parse_ranges.simps) (auto split: sum.splits)
    then show ?thesis using 1(1) [OF False p(1) refl] length_parse_range [OF p(1)] by simp
  qed (use 1(2) in \<open>subst (asm) parse_ranges.simps; simp\<close>)
qed

section \<open>Repetition\<close>

text \<open>
  The rule that \<open>*\<close>, \<open>+\<close> and \<open>?\<close> synthesise for the last symbol, which the element that refers to
  it replaces.
\<close>

definition repeat_rule :: "char \<Rightarrow> nat \<Rightarrow> element list \<Rightarrow> element list" where
  "repeat_rule c sub_rule_id symb =
     symb @ (if c = CHR ''*'' \<or> c = CHR ''+'' then [Elem GRETYPE_RULE_REF sub_rule_id] else []) @
     [Elem GRETYPE_ALT 0] @ (if c = CHR ''+'' then symb else []) @ [Elem GRETYPE_END 0]"

definition parse_repeat :: "parse_state \<Rightarrow> char \<Rightarrow> string \<Rightarrow> element list \<Rightarrow> nat
    \<Rightarrow> parse_state \<times> element list" where
  "parse_repeat st c rule_name out last_sym_start =
     (let (sub_rule_id, st) = generate_symbol_id st rule_name;
          sub_rule = repeat_rule c sub_rule_id (drop last_sym_start out)
      in (add_rule st sub_rule_id sub_rule,
          take last_sym_start out @ [Elem GRETYPE_RULE_REF sub_rule_id]))"

section \<open>Sequences, alternates, rules\<close>

text \<open>
  The body of the loop of \<open>parse_sequence\<close>, over what the loop and the nested alternates do with
  the rest: \<open>continue_at\<close> is the next turn, \<open>nested\<close> a call of \<open>parse_alternates\<close>.
\<close>

definition sequence_turn ::
  "(parse_state \<Rightarrow> string \<Rightarrow> element list \<Rightarrow> nat \<Rightarrow> parse_error + parse_state \<times> element list \<times> string)
    \<Rightarrow> (parse_state \<Rightarrow> string \<Rightarrow> nat \<Rightarrow> parse_error + parse_state \<times> string)
    \<Rightarrow> parse_state \<Rightarrow> string \<Rightarrow> string \<Rightarrow> element list \<Rightarrow> nat \<Rightarrow> bool
    \<Rightarrow> parse_error + parse_state \<times> element list \<times> string" where
  "sequence_turn continue_at nested st pos rule_name out last_sym_start is_nested =
     (let c = peek pos in
      if pos = [] then Inr (st, out, pos)
      else if c = CHR 0x22 then
        (case parse_literal (tl pos) out of Inl e \<Rightarrow> Inl e
         | Inr (out', pos') \<Rightarrow> continue_at st (parse_space (tl pos') is_nested) out' (length out))
      else if c = CHR ''['' then
        (let neg = (peek (tl pos) = CHR ''^'');
             start_type = (if neg then GRETYPE_CHAR_NOT else GRETYPE_CHAR);
             p1 = (if neg then tl (tl pos) else tl pos)
         in case parse_ranges start_type (length out) p1 out of Inl e \<Rightarrow> Inl e
         | Inr (out', pos') \<Rightarrow> continue_at st (parse_space (tl pos') is_nested) out' (length out))
      else if is_word_char c then
        (case parse_name pos of Inl e \<Rightarrow> Inl e
         | Inr (name, pos') \<Rightarrow>
             let (ref_rule_id, st) = get_symbol_id st name
             in continue_at st (parse_space pos' is_nested)
                  (out @ [Elem GRETYPE_RULE_REF ref_rule_id]) (length out))
      else if c = CHR ''('' then
        (let (sub_rule_id, st) = generate_symbol_id st rule_name
         in case nested st (parse_space (tl pos) True) sub_rule_id of Inl e \<Rightarrow> Inl e
            | Inr (st, pos') \<Rightarrow>
                if peek pos' \<noteq> CHR '')'' then Inl (Expecting_Paren pos')
                else continue_at st (parse_space (tl pos') is_nested)
                       (out @ [Elem GRETYPE_RULE_REF sub_rule_id]) (length out))
      else if c = CHR ''*'' \<or> c = CHR ''+'' \<or> c = CHR ''?'' then
        (if last_sym_start = length out then Inl (Expecting_Item pos)
         else let (st, out') = parse_repeat st c rule_name out last_sym_start
              in continue_at st (parse_space (tl pos) is_nested) out' last_sym_start)
      else Inr (st, out, pos))"

fun parse_sequence :: "nat \<Rightarrow> parse_state \<Rightarrow> string \<Rightarrow> string \<Rightarrow> element list \<Rightarrow> nat \<Rightarrow> bool
      \<Rightarrow> parse_error + parse_state \<times> element list \<times> string"
  and parse_alternates :: "nat \<Rightarrow> parse_state \<Rightarrow> string \<Rightarrow> string \<Rightarrow> nat \<Rightarrow> bool
      \<Rightarrow> parse_error + parse_state \<times> string"
  and alternates_loop :: "nat \<Rightarrow> parse_state \<Rightarrow> string \<Rightarrow> string \<Rightarrow> nat \<Rightarrow> bool \<Rightarrow> element list
      \<Rightarrow> parse_error + parse_state \<times> string"
where
  "parse_sequence 0 st pos rule_name out last_sym_start is_nested = Inl Out_Of_Fuel"
| "parse_sequence (Suc n) st pos rule_name out last_sym_start is_nested =
     sequence_turn
       (\<lambda>st pos out last_sym_start. parse_sequence n st pos rule_name out last_sym_start is_nested)
       (\<lambda>st pos sub_rule_id. parse_alternates n st pos rule_name sub_rule_id True)
       st pos rule_name out last_sym_start is_nested"
| "parse_alternates 0 st src rule_name rule_id is_nested = Inl Out_Of_Fuel"
| "parse_alternates (Suc n) st src rule_name rule_id is_nested =
     (case parse_sequence n st src rule_name [] 0 is_nested of Inl e \<Rightarrow> Inl e
      | Inr (st, rule, pos) \<Rightarrow> alternates_loop n st pos rule_name rule_id is_nested rule)"
| "alternates_loop 0 st pos rule_name rule_id is_nested rule = Inl Out_Of_Fuel"
| "alternates_loop (Suc n) st pos rule_name rule_id is_nested rule =
     (if peek pos = CHR ''|'' then
        (case parse_sequence n st (parse_space (tl pos) True) rule_name (rule @ [Elem GRETYPE_ALT 0])
                (length rule + 1) is_nested of Inl e \<Rightarrow> Inl e
         | Inr (st, rule, pos) \<Rightarrow> alternates_loop n st pos rule_name rule_id is_nested rule)
      else Inr (add_rule st rule_id (rule @ [Elem GRETYPE_END 0]), pos))"

definition parse_fuel :: "string \<Rightarrow> nat" where
  "parse_fuel src = 2 * length src + 2"

definition parse_rule :: "parse_state \<Rightarrow> string \<Rightarrow> parse_error + parse_state \<times> string" where
  "parse_rule st src = (case parse_name src of Inl e \<Rightarrow> Inl e
     | Inr (name, name_end) \<Rightarrow>
       let pos = parse_space name_end False;
           (rule_id, st) = get_symbol_id st name
       in if take 3 pos \<noteq> ''::='' then Inl (Expecting_Define pos)
          else let pos = parse_space (drop 3 pos) True
           in case parse_alternates (parse_fuel pos) st pos name rule_id False of Inl e \<Rightarrow> Inl e
            | Inr (st, pos) \<Rightarrow>
                if peek pos = CHR 0x0D
                then Inr (st, parse_space (if peek (tl pos) = CHR 0x0A then tl (tl pos) else tl pos) True)
                else if peek pos = CHR 0x0A then Inr (st, parse_space (tl pos) True)
                else if pos \<noteq> [] then Inl (Expecting_Newline pos)
                else Inr (st, parse_space pos True))"

fun parse_rules :: "nat \<Rightarrow> parse_state \<Rightarrow> string \<Rightarrow> parse_error + parse_state" where
  "parse_rules 0 st pos = (if pos = [] then Inr st else Inl Out_Of_Fuel)"
| "parse_rules (Suc n) st pos =
     (if pos = [] then Inr st
      else case parse_rule st pos of Inl e \<Rightarrow> Inl e
        | Inr (st', pos') \<Rightarrow> parse_rules n st' pos')"

definition parse_result :: "string \<Rightarrow> parse_error + parse_state" where
  "parse_result src = (let pos = parse_space src True in parse_rules (length pos) empty_state pos)"

text \<open>\<open>parse\<close>: an error leaves the empty state.\<close>

definition parse_grammar :: "string \<Rightarrow> parse_state" where
  "parse_grammar src = (case parse_result src of Inl _ \<Rightarrow> empty_state | Inr st \<Rightarrow> st)"

section \<open>What one turn does\<close>

text \<open>
  A turn appends characters or a reference, or replaces the last symbol by a reference to a rule
  that repeats it.
\<close>

inductive turn :: "parse_state \<Rightarrow> element list \<Rightarrow> nat \<Rightarrow> parse_state \<Rightarrow> element list \<Rightarrow> nat \<Rightarrow> bool" where
  chars: "(\<forall>n. body_ok n None new) \<Longrightarrow> turn st out l st (out @ new) (length out)"
| ref: "list_all is_word_char name \<Longrightarrow> get_symbol_id st name = (i, st') \<Longrightarrow>
    turn st out l st' (out @ [Elem GRETYPE_RULE_REF i]) (length out)"
| repeat: "l \<noteq> length out \<Longrightarrow> parse_repeat st c rule_name out l = (st', out') \<Longrightarrow>
    list_all is_word_char rule_name \<Longrightarrow> turn st out l st' out' l"

definition modifier_ok :: "gretype option \<Rightarrow> element list \<Rightarrow> bool" where
  "modifier_ok p es \<longleftrightarrow> (\<forall>n. body_ok n p es)"

lemma parse_literal_chars:
  "parse_literal pos out = Inr (out', pos') \<Longrightarrow> \<exists>new. out' = out @ new \<and> modifier_ok p new"
proof (induction pos out arbitrary: p rule: parse_literal.induct)
  case (1 pos out)
  show ?case
  proof (cases "peek pos = CHR 0x22")
    case False
    then obtain v q where q: "parse_char pos = Inr (v, q)"
        "parse_literal q (out @ [Elem GRETYPE_CHAR v]) = Inr (out', pos')"
      using 1(2) by (subst (asm) parse_literal.simps) (auto split: sum.splits)
    then obtain new where new: "out' = (out @ [Elem GRETYPE_CHAR v]) @ new"
        "modifier_ok (Some GRETYPE_CHAR) new"
      using 1(1) [OF False q(1) refl q(2)] by blast
    then have "modifier_ok p (Elem GRETYPE_CHAR v # new)" by (simp add: modifier_ok_def)
    then show ?thesis using new(1) by auto
  qed (use 1(2) in \<open>subst (asm) parse_literal.simps; simp add: modifier_ok_def\<close>)
qed

lemma parse_range_chars:
  assumes "parse_range t l pos out = Inr (out', pos')" and "t = GRETYPE_CHAR \<or> t = GRETYPE_CHAR_NOT"
  shows "\<exists>e new. out' = out @ e # new \<and>
    gtype e = (if l < length out then GRETYPE_CHAR_ALT else t) \<and>
    (new = [] \<or> (\<exists>w. new = [Elem GRETYPE_CHAR_RNG_UPPER w]))"
  using assms by (auto simp: parse_range_def Let_def split: sum.splits if_splits)

lemma parse_ranges_tail:
  assumes "parse_ranges t l pos out = Inr (out', pos')" and "t = GRETYPE_CHAR \<or> t = GRETYPE_CHAR_NOT"
    and "l < length out"
    and "p \<in> {GRETYPE_CHAR, GRETYPE_CHAR_NOT, GRETYPE_CHAR_ALT, GRETYPE_CHAR_RNG_UPPER}"
  shows "\<exists>new. out' = out @ new \<and> modifier_ok (Some p) new"
  using assms
proof (induction t l pos out arbitrary: p rule: parse_ranges.induct)
  case (1 t l pos out)
  show ?case
  proof (cases "peek pos = CHR '']''")
    case False
    then obtain o1 q where q: "parse_range t l pos out = Inr (o1, q)"
        "parse_ranges t l q o1 = Inr (out', pos')"
      using 1(2) by (subst (asm) parse_ranges.simps) (auto split: sum.splits)
    obtain e new1 where o1: "o1 = out @ e # new1" "gtype e = GRETYPE_CHAR_ALT"
        "new1 = [] \<or> (\<exists>w. new1 = [Elem GRETYPE_CHAR_RNG_UPPER w])"
      using parse_range_chars [OF q(1) 1(3)] 1(4) by auto
    define p1 where "p1 = gtype (last (e # new1))"
    have p1: "p1 \<in> {GRETYPE_CHAR, GRETYPE_CHAR_NOT, GRETYPE_CHAR_ALT, GRETYPE_CHAR_RNG_UPPER}"
      using o1 by (auto simp: p1_def)
    obtain new where new: "out' = o1 @ new" "modifier_ok (Some p1) new"
      using 1(1) [OF False q(1) refl q(2) 1(3) _ p1] 1(4) o1(1) by auto
    have "modifier_ok (Some p) ((e # new1) @ new)"
      using o1 new(2) 1(5) by (auto simp: modifier_ok_def body_ok_append p1_def)
    then show ?thesis using new(1) o1(1) by auto
  qed (use 1(2) in \<open>subst (asm) parse_ranges.simps; simp add: modifier_ok_def\<close>)
qed

lemma parse_ranges_chars:
  assumes "parse_ranges t (length out) pos out = Inr (out', pos')"
    and t: "t = GRETYPE_CHAR \<or> t = GRETYPE_CHAR_NOT"
  shows "\<exists>new. out' = out @ new \<and> modifier_ok None new"
proof (cases "peek pos = CHR '']''")
  case False
  then obtain o1 q where q: "parse_range t (length out) pos out = Inr (o1, q)"
      "parse_ranges t (length out) q o1 = Inr (out', pos')"
    using assms(1) by (subst (asm) parse_ranges.simps) (auto split: sum.splits)
  obtain e new1 where o1: "o1 = out @ e # new1" "gtype e = t"
      "new1 = [] \<or> (\<exists>w. new1 = [Elem GRETYPE_CHAR_RNG_UPPER w])"
    using parse_range_chars [OF q(1) t] by auto
  define p1 where "p1 = gtype (last (e # new1))"
  have p1: "p1 \<in> {GRETYPE_CHAR, GRETYPE_CHAR_NOT, GRETYPE_CHAR_ALT, GRETYPE_CHAR_RNG_UPPER}"
    using o1 t by (auto simp: p1_def)
  obtain new where new: "out' = o1 @ new" "modifier_ok (Some p1) new"
    using parse_ranges_tail [OF q(2) t _ p1] o1(1) by auto
  have "modifier_ok None ((e # new1) @ new)"
    using o1 new(2) t by (auto simp: modifier_ok_def body_ok_append p1_def)
  then show ?thesis using new(1) o1(1) by auto
qed (use assms(1) in \<open>subst (asm) parse_ranges.simps; simp add: modifier_ok_def\<close>)

lemma if_neq: "x \<noteq> z \<Longrightarrow> y \<noteq> z \<Longrightarrow> (if b then x else y) \<noteq> z"
  by simp

lemma parse_hex_fuel: "parse_hex s n \<noteq> Inl Out_Of_Fuel"
  by (simp add: parse_hex_def split: option.split)

lemma parse_char_fuel: "parse_char s \<noteq> Inl Out_Of_Fuel"
  unfolding parse_char_def Let_def by (intro if_neq parse_hex_fuel) simp_all

lemma parse_literal_fuel: "parse_literal pos out \<noteq> Inl Out_Of_Fuel"
proof (induction pos out rule: parse_literal.induct)
  case (1 pos out)
  then show ?case using parse_char_fuel [of pos]
    by (subst parse_literal.simps) (auto split: sum.splits)
qed

lemma parse_ranges_fuel: "parse_ranges t l pos out \<noteq> Inl Out_Of_Fuel"
proof (induction t l pos out rule: parse_ranges.induct)
  case (1 t l pos out)
  have "parse_range t l pos out \<noteq> Inl Out_Of_Fuel"
    using parse_char_fuel by (auto simp: parse_range_def Let_def split: sum.splits)
  then show ?case using 1 by (subst parse_ranges.simps) (auto split: sum.splits)
qed

lemma parse_name_fuel: "parse_name s \<noteq> Inl Out_Of_Fuel"
  by (simp add: parse_name_def Let_def)

lemma length_tl_less: "s \<noteq> [] \<Longrightarrow> length t \<le> length (tl s) \<Longrightarrow> length t < length s"
  by (cases s) auto

lemma space_tl_less: "s \<noteq> [] \<Longrightarrow> length t \<le> length (tl s) \<Longrightarrow> length (parse_space (tl t) b) < length s"
  using length_parse_space [of "tl t" b] by (cases s) auto

lemma sequence_turn_cases:
  assumes rn: "list_all is_word_char rule_name"
  obtains (stop) "sequence_turn K N st pos rule_name out l nest = Inr (st, out, pos)"
  | (error) e where "sequence_turn K N st pos rule_name out l nest = Inl e" "e \<noteq> Out_Of_Fuel"
  | (cont) st' pos' out' l' where "turn st out l st' out' l'" "length pos' < length pos"
      "sequence_turn K N st pos rule_name out l nest = K st' pos' out' l'"
  | (fail) i st1 p1 e where "generate_symbol_id st rule_name = (i, st1)" "length p1 < length pos"
      "N st1 p1 i = Inl e" "sequence_turn K N st pos rule_name out l nest = Inl e"
  | (unclosed) i st1 p1 st2 p2 e where "generate_symbol_id st rule_name = (i, st1)" "length p1 < length pos"
      "N st1 p1 i = Inr (st2, p2)" "sequence_turn K N st pos rule_name out l nest = Inl e" "e \<noteq> Out_Of_Fuel"
  | (group) i st1 p1 st2 p2 pos' where "generate_symbol_id st rule_name = (i, st1)" "length p1 < length pos"
      "N st1 p1 i = Inr (st2, p2)" "length pos' \<le> length p2"
      "sequence_turn K N st pos rule_name out l nest =
         K st2 pos' (out @ [Elem GRETYPE_RULE_REF i]) (length out)"
proof -
  let ?r = "sequence_turn K N st pos rule_name out l nest"
  let ?c = "peek pos"
  consider "pos = []" | "pos \<noteq> []" "?c = CHR 0x22" | "pos \<noteq> []" "?c = CHR ''[''"
    | "pos \<noteq> []" "?c \<noteq> CHR 0x22" "?c \<noteq> CHR ''[''" "is_word_char ?c"
    | "pos \<noteq> []" "\<not> is_word_char ?c" "?c = CHR ''(''"
    | "pos \<noteq> []" "\<not> is_word_char ?c" "?c = CHR ''*'' \<or> ?c = CHR ''+'' \<or> ?c = CHR ''?''"
    | "pos \<noteq> []" "?c \<notin> {CHR 0x22, CHR ''['', CHR ''('', CHR ''*'', CHR ''+'', CHR ''?''}" "\<not> is_word_char ?c"
    by blast
  then show thesis
  proof cases
    case 1
    then show thesis by (intro stop) (simp add: sequence_turn_def)
  next
    case 2
    show thesis
    proof (cases "parse_literal (tl pos) out")
      case (Inl e)
      then show thesis using 2 parse_literal_fuel [of "tl pos" out]
        by (intro error [of e]) (auto simp: sequence_turn_def)
    next
      case (Inr r)
      obtain out' p where r: "r = (out', p)" by fastforce
      then obtain new where new: "out' = out @ new" "modifier_ok None new"
        using parse_literal_chars Inr by blast
      have "turn st out l st out' (length out)"
        using new turn.chars by (auto simp: modifier_ok_def)
      moreover have "length (parse_space (tl p) nest) < length pos"
        using space_tl_less [OF 2(1), of p] length_parse_literal [of "tl pos" out out' p] Inr r by simp
      ultimately show thesis using 2 Inr r
        by (intro cont [of st out' "length out" "parse_space (tl p) nest"]) (auto simp: sequence_turn_def)
    qed
  next
    case 3
    define t where "t = (if peek (tl pos) = CHR ''^'' then GRETYPE_CHAR_NOT else GRETYPE_CHAR)"
    define p1 where "p1 = (if peek (tl pos) = CHR ''^'' then tl (tl pos) else tl pos)"
    have e: "?r = (case parse_ranges t (length out) p1 out of Inl e \<Rightarrow> Inl e
         | Inr (out', pos') \<Rightarrow> K st (parse_space (tl pos') nest) out' (length out))"
      using 3 by (simp add: sequence_turn_def t_def p1_def Let_def)
    have p1: "length p1 \<le> length (tl pos)" by (cases pos) (auto simp: p1_def)
    have t: "t = GRETYPE_CHAR \<or> t = GRETYPE_CHAR_NOT" by (simp add: t_def)
    show thesis
    proof (cases "parse_ranges t (length out) p1 out")
      case (Inl er)
      then show thesis using e parse_ranges_fuel [of t "length out" p1 out]
        by (intro error [of er]) auto
    next
      case (Inr r)
      obtain out' p where r: "r = (out', p)" by fastforce
      then obtain new where new: "out' = out @ new" "modifier_ok None new"
        using parse_ranges_chars [OF _ t] Inr by blast
      have "turn st out l st out' (length out)"
        using new turn.chars by (auto simp: modifier_ok_def)
      moreover have "length p \<le> length (tl pos)"
        using length_parse_ranges [of t "length out" p1 out out' p] Inr r p1 by simp
      then have "length (parse_space (tl p) nest) < length pos" by (rule space_tl_less [OF 3(1)])
      ultimately show thesis using e Inr r
        by (intro cont [of st out' "length out" "parse_space (tl p) nest"]) auto
    qed
  next
    case 4
    show thesis
    proof (cases "parse_name pos")
      case (Inl e)
      then show thesis using 4 parse_name_fuel [of pos]
        by (intro error [of e]) (auto simp: sequence_turn_def)
    next
      case (Inr r)
      obtain name p where r: "r = (name, p)" by fastforce
      obtain i st' where g: "get_symbol_id st name = (i, st')" by fastforce
      have "turn st out l st' (out @ [Elem GRETYPE_RULE_REF i]) (length out)"
        using parse_name_word Inr r g by (auto intro: turn.ref)
      moreover have "length (parse_space p nest) < length pos"
        using length_parse_name [of pos name p] length_parse_space [of p nest] Inr r by simp
      ultimately show thesis using 4 Inr r g by (intro cont) (auto simp: sequence_turn_def)
    qed
  next
    case 5
    obtain i st1 where g: "generate_symbol_id st rule_name = (i, st1)" by fastforce
    define p1 where "p1 = parse_space (tl pos) True"
    have len: "length p1 < length pos"
      using 5(1) length_parse_space [of "tl pos" True] by (simp add: p1_def length_tl_less)
    have e: "?r = (case N st1 p1 i of Inl e \<Rightarrow> Inl e
            | Inr (st, pos') \<Rightarrow>
                if peek pos' \<noteq> CHR '')'' then Inl (Expecting_Paren pos')
                else K st (parse_space (tl pos') nest)
                       (out @ [Elem GRETYPE_RULE_REF i]) (length out))"
      using 5 g by (simp add: sequence_turn_def p1_def)
    show thesis
    proof (cases "N st1 p1 i")
      case (Inl er)
      then show thesis using e g len by (intro fail) auto
    next
      case (Inr r)
      obtain st2 p2 where r: "r = (st2, p2)" by fastforce
      have "length (parse_space (tl p2) nest) \<le> length p2"
        using length_parse_space [of "tl p2" nest] by simp
      then show thesis using e g len Inr r
        by (cases "peek p2 = CHR '')''") (auto intro: group unclosed)
    qed
  next
    case 6
    obtain st' out' where g: "parse_repeat st ?c rule_name out l = (st', out')" by fastforce
    have "length (parse_space (tl pos) nest) < length pos"
      using 6(1) length_parse_space [of "tl pos" nest] by (simp add: length_tl_less)
    then show thesis using 6 g rn turn.repeat [of l out st ?c rule_name st' out']
      by (cases "l = length out") (auto simp: sequence_turn_def intro: error cont)
  next
    case 7
    then show thesis by (intro stop) (auto simp: sequence_turn_def Let_def)
  qed
qed

end
