(* ===== verification/Grammar_Invariant.thy ===== *)
theory Grammar_Invariant
  imports Grammar_Parser
begin

text \<open>
  What the grammar parser guarantees: it consumes its input, its bound on the depth of calls is
  never reached, every symbol has its own number, and every rule it defines is well-formed.
\<close>

section \<open>Consumption and fuel\<close>

lemma parser_lengths:
  assumes rn: "list_all is_word_char rn"
  shows "(\<forall>st pos out l b st' out' pos'. parse_sequence n st pos rn out l b = Inr (st', out', pos') \<longrightarrow>
            length pos' \<le> length pos) \<and>
         (\<forall>st pos i b st' pos'. parse_alternates n st pos rn i b = Inr (st', pos') \<longrightarrow>
            length pos' \<le> length pos) \<and>
         (\<forall>st pos i b rule st' pos'. alternates_loop n st pos rn i b rule = Inr (st', pos') \<longrightarrow>
            length pos' \<le> length pos)"
proof (induction n)
  case 0
  then show ?case by simp
next
  case (Suc n)
  note IHs = Suc [THEN conjunct1, rule_format]
  note IHa = Suc [THEN conjunct2, THEN conjunct1, rule_format]
  note IHl = Suc [THEN conjunct2, THEN conjunct2, rule_format]
  have seq: "length pos' \<le> length pos"
    if r: "parse_sequence (Suc n) st pos rn out l b = Inr (st', out', pos')" for st pos out l b st' out' pos'
  proof -
    let ?K = "\<lambda>st pos out l. parse_sequence n st pos rn out l b"
    let ?N = "\<lambda>st pos i. parse_alternates n st pos rn i True"
    have r: "sequence_turn ?K ?N st pos rn out l b = Inr (st', out', pos')" using r by simp
    from rn show ?thesis
    proof (cases rule: sequence_turn_cases [where K = ?K and N = ?N and st = st and pos = pos and
          out = out and l = l and nest = b])
      case (cont st1 p1 out1 l1)
      then have "parse_sequence n st1 p1 rn out1 l1 b = Inr (st', out', pos')" using r by simp
      then have "length pos' \<le> length p1" by (rule IHs)
      then show ?thesis using cont by simp
    next
      case (group i st1 p1 st2 p2 q)
      then have "parse_sequence n st2 q rn (out @ [Elem GRETYPE_RULE_REF i]) (length out) b =
          Inr (st', out', pos')" using r by simp
      then have "length pos' \<le> length q" by (rule IHs)
      moreover have "length p2 \<le> length p1" using group(3) by (rule IHa)
      ultimately show ?thesis using group by simp
    qed (use r in simp_all)
  qed
  have alt: "length pos' \<le> length pos"
    if r: "parse_alternates (Suc n) st pos rn i b = Inr (st', pos')" for st pos i b st' pos'
  proof -
    obtain st1 rule p where "parse_sequence n st pos rn [] 0 b = Inr (st1, rule, p)"
        "alternates_loop n st1 p rn i b rule = Inr (st', pos')"
      using r by (auto split: sum.splits)
    then have "length p \<le> length pos" "length pos' \<le> length p" using IHs IHl by metis+
    then show ?thesis by simp
  qed
  have loop: "length pos' \<le> length pos"
    if r: "alternates_loop (Suc n) st pos rn i b rule = Inr (st', pos')" for st pos i b rule st' pos'
  proof (cases "peek pos = CHR ''|''")
    case True
    obtain st1 rule1 p where "parse_sequence n st (parse_space (tl pos) True) rn
          (rule @ [Elem GRETYPE_ALT 0]) (length rule + 1) b = Inr (st1, rule1, p)"
        "alternates_loop n st1 p rn i b rule1 = Inr (st', pos')"
      using r True by (auto split: sum.splits)
    then have "length p \<le> length (parse_space (tl pos) True)" "length pos' \<le> length p" using IHs IHl by metis+
    then show ?thesis using length_parse_space [of "tl pos" True] by simp
  qed (use r in simp)
  show ?case using seq alt loop by (intro conjI allI impI) metis+
qed

lemma parser_fuel:
  assumes rn: "list_all is_word_char rn"
  shows "(\<forall>st pos out l b. 2 * length pos < n \<longrightarrow> parse_sequence n st pos rn out l b \<noteq> Inl Out_Of_Fuel) \<and>
         (\<forall>st pos i b. 2 * length pos + 1 < n \<longrightarrow> parse_alternates n st pos rn i b \<noteq> Inl Out_Of_Fuel) \<and>
         (\<forall>st pos i b rule. 2 * length pos < n \<longrightarrow> alternates_loop n st pos rn i b rule \<noteq> Inl Out_Of_Fuel)"
proof (induction n)
  case 0
  then show ?case by simp
next
  case (Suc n)
  note IHs = Suc [THEN conjunct1, rule_format]
  note IHa = Suc [THEN conjunct2, THEN conjunct1, rule_format]
  note IHl = Suc [THEN conjunct2, THEN conjunct2, rule_format]
  have seq: "parse_sequence (Suc n) st pos rn out l b \<noteq> Inl Out_Of_Fuel"
    if n: "2 * length pos < Suc n" for st pos out l b
  proof -
    let ?K = "\<lambda>st pos out l. parse_sequence n st pos rn out l b"
    let ?N = "\<lambda>st pos i. parse_alternates n st pos rn i True"
    from rn have "sequence_turn ?K ?N st pos rn out l b \<noteq> Inl Out_Of_Fuel"
    proof (cases rule: sequence_turn_cases [where K = ?K and N = ?N and st = st and pos = pos and
          out = out and l = l and nest = b])
      case (cont st1 p1 out1 l1)
      then show ?thesis using Suc n by simp
    next
      case (fail i st1 p1 e)
      have "2 * length p1 + 1 < n" using fail(2) n by linarith
      then have "parse_alternates n st1 p1 rn i True \<noteq> Inl Out_Of_Fuel" by (rule IHa)
      then show ?thesis using fail by auto
    next
      case (group i st1 p1 st2 p2 q)
      then have "length p2 \<le> length p1" using parser_lengths [OF rn, of n] by simp
      then show ?thesis using group Suc n by simp
    qed simp_all
    then show ?thesis by simp
  qed
  have alt: "parse_alternates (Suc n) st pos rn i b \<noteq> Inl Out_Of_Fuel"
    if n: "2 * length pos + 1 < Suc n" for st pos i b
  proof (cases "parse_sequence n st pos rn [] 0 b")
    case (Inl e)
    then show ?thesis using Suc n by auto
  next
    case (Inr r)
    obtain st1 rule p where r: "r = (st1, rule, p)" by (cases r)
    have "length p \<le> length pos" using parser_lengths [OF rn, of n, THEN conjunct1, rule_format] Inr r by metis
    then show ?thesis using Suc n Inr r by simp
  qed
  have loop: "alternates_loop (Suc n) st pos rn i b rule \<noteq> Inl Out_Of_Fuel"
    if n: "2 * length pos < Suc n" for st pos i b rule
  proof (cases "peek pos = CHR ''|''")
    case True
    then have ne: "pos \<noteq> []" by (auto simp: NUL_def)
    define p0 where "p0 = parse_space (tl pos) True"
    have p0: "2 * length p0 < n"
      using ne n length_parse_space [of "tl pos" True] by (cases pos) (auto simp: p0_def)
    show ?thesis
    proof (cases "parse_sequence n st p0 rn (rule @ [Elem GRETYPE_ALT 0]) (length rule + 1) b")
      case (Inl e)
      then have "e \<noteq> Out_Of_Fuel" using IHs [OF p0] by metis
      then show ?thesis using True Inl by (simp add: p0_def)
    next
      case (Inr r)
      obtain st1 rule1 p where r: "r = (st1, rule1, p)" by (cases r)
      have "length p \<le> length p0" using parser_lengths [OF rn, of n, THEN conjunct1, rule_format] Inr r by metis
      then have "alternates_loop n st1 p rn i b rule1 \<noteq> Inl Out_Of_Fuel" using Suc p0 by simp
      then show ?thesis using True Inr r by (simp add: p0_def)
    qed
  qed simp
  show ?case using seq alt loop by (intro conjI allI impI) metis+
qed

lemma parse_rule_progress:
  "parse_rule st src = Inr (st', pos') \<Longrightarrow> length pos' < length src"
proof -
  assume r: "parse_rule st src = Inr (st', pos')"
  obtain name p where n: "parse_name src = Inr (name, p)"
    using r by (auto simp: parse_rule_def split: sum.splits)
  define q where "q = parse_space (drop 3 (parse_space p False)) True"
  obtain i st1 where g: "get_symbol_id st name = (i, st1)" by fastforce
  obtain st2 q2 where a: "parse_alternates (parse_fuel q) st1 q name i False = Inr (st2, q2)"
    using r n g by (auto simp: parse_rule_def Let_def q_def split: sum.splits if_splits)
  have word: "list_all is_word_char name" using parse_name_word [OF n] by blast
  have "length q2 \<le> length q" using parser_lengths [OF word, THEN conjunct2, THEN conjunct1, rule_format, OF a] .
  moreover have "length q \<le> length p"
    using length_parse_space [of p False] length_parse_space [of "drop 3 (parse_space p False)" True]
    by (simp add: q_def)
  moreover have "length p < length src" using length_parse_name [OF n] .
  moreover have "length pos' \<le> length q2"
    using r n g a length_parse_space [of "tl (tl q2)" True] length_parse_space [of "tl q2" True]
      length_parse_space [of q2 True]
    by (auto simp: parse_rule_def Let_def q_def [symmetric] split: if_splits)
  ultimately show ?thesis by simp
qed

lemma parse_rule_fuel: "parse_rule st src \<noteq> Inl Out_Of_Fuel"
proof (cases "parse_name src")
  case (Inl e)
  then show ?thesis using parse_name_fuel [of src] by (auto simp: parse_rule_def)
next
  case (Inr r)
  obtain name p where r: "r = (name, p)" by fastforce
  have word: "list_all is_word_char name" using parse_name_word Inr r by blast
  have "parse_alternates (parse_fuel q) st1 q name i False \<noteq> Inl Out_Of_Fuel" for st1 q i
    using parser_fuel [OF word, of "parse_fuel q"] by (simp add: parse_fuel_def)
  then show ?thesis using Inr r
    by (auto simp: parse_rule_def Let_def split: sum.splits prod.splits if_splits)
qed

lemma parse_rules_fuel: "length pos \<le> n \<Longrightarrow> parse_rules n st pos \<noteq> Inl Out_Of_Fuel"
proof (induction n arbitrary: st pos)
  case (Suc n)
  show ?case
  proof (cases "parse_rule st pos")
    case (Inl e)
    then show ?thesis using parse_rule_fuel [of st pos] by auto
  next
    case (Inr r)
    obtain st1 p where r: "r = (st1, p)" by fastforce
    have "length p < length pos" using parse_rule_progress Inr r by blast
    then show ?thesis using Suc Inr r by simp
  qed
qed simp

section \<open>The invariant of the state\<close>

text \<open>A name is a word of the source, or a word, an underscore and the symbol's own number.\<close>

definition name_ok :: "string \<Rightarrow> nat \<Rightarrow> bool" where
  "name_ok name i \<longleftrightarrow> list_all is_word_char name \<or>
     (\<exists>base. list_all is_word_char base \<and> name = base @ ''_'' @ nat_str i)"

definition ids_ok :: "(string \<times> nat) list \<Rightarrow> bool" where
  "ids_ok ids \<longleftrightarrow> map snd ids = [0 ..< length ids] \<and> distinct (map fst ids) \<and>
     (\<forall>(name, i) \<in> set ids. name_ok name i)"

definition rules_ok :: "nat \<Rightarrow> element list list \<Rightarrow> bool" where
  "rules_ok n rs \<longleftrightarrow> length rs \<le> n \<and> (\<forall>r \<in> set rs. r = [] \<or> rule_ok n r)"

definition gp_inv :: "parse_state \<Rightarrow> bool" where
  "gp_inv st \<longleftrightarrow> ids_ok (symbol_ids st) \<and> rules_ok (length (symbol_ids st)) (rules st)"

abbreviation n_symbols :: "parse_state \<Rightarrow> nat" where
  "n_symbols st \<equiv> length (symbol_ids st)"

text \<open>What the loop of a sequence maintains of the rule it builds and of the last symbol in it.\<close>

definition seq_ok :: "nat \<Rightarrow> element list \<Rightarrow> nat \<Rightarrow> bool" where
  "seq_ok n out l \<longleftrightarrow> body_ok n None out \<and> body_ok n None (drop l out) \<and> l \<le> length out"

lemma underscore_no_word: "\<not> is_word_char (CHR ''_'')"
  by (simp add: is_word_char_def isalpha_def isdigit_def)

lemma word_prefix_unique:
  "list_all is_word_char a \<Longrightarrow> list_all is_word_char b \<Longrightarrow>
     a @ CHR ''_'' # x = b @ CHR ''_'' # y \<Longrightarrow> a = b \<and> x = y"
proof (induction a arbitrary: b)
  case Nil
  then show ?case using underscore_no_word by (cases b) auto
next
  case (Cons c a)
  then show ?case using underscore_no_word by (cases b) auto
qed

lemma ids_ok_bound:
  assumes "ids_ok ids" and "(name, i) \<in> set ids"
  shows "i < length ids"
proof -
  have "i \<in> set (map snd ids)" using assms(2) by force
  also have "set (map snd ids) = {0 ..< length ids}" using assms(1) by (simp only: ids_ok_def set_upt)
  finally show ?thesis by simp
qed

lemma update_nonempty_fresh: "k \<notin> fst ` set al \<Longrightarrow> AList.update k v al = al @ [(k, v)]"
  by (induction al) auto

lemma generated_name_fresh:
  assumes ok: "ids_ok ids" and base: "list_all is_word_char base"
  shows "base @ ''_'' @ nat_str (length ids) \<notin> fst ` set ids"
proof
  assume "base @ ''_'' @ nat_str (length ids) \<in> fst ` set ids"
  then obtain i where i: "(base @ ''_'' @ nat_str (length ids), i) \<in> set ids" by auto
  then have lt: "i < length ids" using ids_ok_bound [OF ok] by blast
  have "name_ok (base @ ''_'' @ nat_str (length ids)) i" using ok i by (auto simp: ids_ok_def)
  then obtain b where "list_all is_word_char b" "base @ ''_'' @ nat_str (length ids) = b @ ''_'' @ nat_str i"
    using underscore_no_word by (auto simp: name_ok_def)
  then have "nat_str (length ids) = nat_str i"
    using word_prefix_unique [OF base, of b "nat_str (length ids)" "nat_str i"] by simp
  then show False using nat_str_inj lt by blast
qed

lemma ids_ok_snoc:
  "ids_ok ids \<Longrightarrow> name \<notin> fst ` set ids \<Longrightarrow> name_ok name (length ids) \<Longrightarrow> ids_ok (ids @ [(name, length ids)])"
  by (auto simp: ids_ok_def)

lemma rules_ok_mono: "rules_ok m rs \<Longrightarrow> m \<le> n \<Longrightarrow> rules_ok n rs"
  unfolding rules_ok_def by (meson le_trans rule_ok_mono)

lemma ids_ok_lookup: "ids_ok ids \<Longrightarrow> map_of ids name = Some i \<Longrightarrow> i < length ids"
  using ids_ok_bound map_of_SomeD by metis

lemma get_symbol_id_inv:
  assumes "gp_inv st" and "list_all is_word_char name" and "get_symbol_id st name = (i, st')"
  shows "gp_inv st' \<and> n_symbols st \<le> n_symbols st' \<and> i < n_symbols st' \<and> rules st' = rules st \<and>
    map_of (symbol_ids st') name = Some i"
proof (cases "map_of (symbol_ids st) name")
  case None
  then have "name \<notin> fst ` set (symbol_ids st)" by (simp add: map_of_eq_None_iff)
  then have "ids_ok (symbol_ids st @ [(name, n_symbols st)])"
    using assms ids_ok_snoc [of "symbol_ids st" name] by (simp add: gp_inv_def name_ok_def)
  then show ?thesis using assms None rules_ok_mono [of "n_symbols st" "rules st" "Suc (n_symbols st)"]
    by (auto simp: get_symbol_id_def gp_inv_def map_add_def Let_def)
qed (use assms ids_ok_lookup in \<open>auto simp: get_symbol_id_def gp_inv_def\<close>)

lemma generate_symbol_id_inv:
  assumes "gp_inv st" and "list_all is_word_char base" and "generate_symbol_id st base = (i, st')"
  shows "gp_inv st' \<and> n_symbols st < n_symbols st' \<and> i < n_symbols st' \<and> rules st' = rules st"
proof -
  let ?n = "base @ ''_'' @ nat_str (n_symbols st)"
  have f: "?n \<notin> fst ` set (symbol_ids st)"
    using generated_name_fresh assms by (auto simp: gp_inv_def)
  then have u: "AList.update ?n (n_symbols st) (symbol_ids st) = symbol_ids st @ [(?n, n_symbols st)]"
    by (rule update_nonempty_fresh)
  have "ids_ok (symbol_ids st @ [(?n, n_symbols st)])"
    using assms f by (intro ids_ok_snoc) (auto simp: gp_inv_def name_ok_def)
  then show ?thesis using assms u rules_ok_mono [of "n_symbols st" "rules st" "Suc (n_symbols st)"]
    by (auto simp: generate_symbol_id_def gp_inv_def Let_def)
qed

lemma add_rule_inv:
  assumes "gp_inv st" and "i < n_symbols st" and "rule_ok (n_symbols st) r"
  shows "gp_inv (add_rule st i r) \<and> symbol_ids (add_rule st i r) = symbol_ids st \<and>
    i < length (rules (add_rule st i r)) \<and> rules (add_rule st i r) ! i = r"
proof -
  define rs where "rs = (if length (rules st) \<le> i
      then rules st @ replicate (i + 1 - length (rules st)) [] else rules st)"
  have rs: "rules (add_rule st i r) = rs[i := r]" "symbol_ids (add_rule st i r) = symbol_ids st"
    by (simp_all add: add_rule_def rs_def Let_def)
  have "i < length rs" "length rs \<le> n_symbols st"
    using assms by (auto simp: rs_def gp_inv_def rules_ok_def)
  moreover have "\<forall>q \<in> set rs. q = [] \<or> rule_ok (n_symbols st) q"
    using assms by (auto simp: rs_def gp_inv_def rules_ok_def split: if_splits)
  ultimately show ?thesis
    using assms rs set_update_subset_insert [of rs i r] by (auto simp: gp_inv_def rules_ok_def)
qed

lemma seq_ok_mono: "seq_ok m out l \<Longrightarrow> m \<le> n \<Longrightarrow> seq_ok n out l"
  by (auto simp: seq_ok_def intro: body_ok_mono)

lemma seq_ok_snoc:
  "seq_ok n out l \<Longrightarrow> body_ok n None new \<Longrightarrow> seq_ok n (out @ new) (length out)"
  by (auto simp: seq_ok_def body_ok_append intro: body_ok_weaken)

lemma repeat_rule_ok:
  assumes "body_ok n None symb" and "i < n"
  shows "rule_ok n (repeat_rule c i symb)"
proof -
  have alt: "body_ok n p (Elem GRETYPE_ALT 0 # (if c = CHR ''+'' then symb else []))" for p
    using assms body_ok_weaken [of n symb] by auto
  have "body_ok n None (symb @ (if c = CHR ''*'' \<or> c = CHR ''+'' then [Elem GRETYPE_RULE_REF i] else []) @
      Elem GRETYPE_ALT 0 # (if c = CHR ''+'' then symb else []))"
    using assms alt body_ok_weaken [of n symb] by (auto simp: body_ok_append)
  then show ?thesis by (auto simp: rule_ok_def repeat_rule_def)
qed

lemma parse_repeat_inv:
  assumes inv: "gp_inv st" and seq: "seq_ok (n_symbols st) out l" and ne: "l \<noteq> length out"
    and word: "list_all is_word_char rn" and r: "parse_repeat st c rn out l = (st', out')"
  shows "gp_inv st' \<and> n_symbols st \<le> n_symbols st' \<and> seq_ok (n_symbols st') out' l"
proof -
  obtain i st1 where g: "generate_symbol_id st rn = (i, st1)" by fastforce
  have st1: "gp_inv st1" "n_symbols st < n_symbols st1" "i < n_symbols st1"
    using generate_symbol_id_inv [OF inv word g] by auto
  have seq1: "seq_ok (n_symbols st1) out l" using seq_ok_mono [OF seq] st1(2) by simp
  have rule: "rule_ok (n_symbols st1) (repeat_rule c i (drop l out))"
    using seq1 st1(3) by (intro repeat_rule_ok) (auto simp: seq_ok_def)
  have st': "st' = add_rule st1 i (repeat_rule c i (drop l out))"
      "out' = take l out @ [Elem GRETYPE_RULE_REF i]"
    using r g by (simp_all add: parse_repeat_def)
  have inv': "gp_inv st'" "n_symbols st' = n_symbols st1"
    using add_rule_inv [OF st1(1) st1(3) rule] st' by simp_all
  have "body_ok (n_symbols st1) None (take l out)" using seq1 by (auto simp: seq_ok_def intro: body_ok_take)
  then have "seq_ok (n_symbols st1) out' l"
    using st'(2) st1(3) seq1 by (auto simp: seq_ok_def body_ok_append min_def)
  then show ?thesis using inv' st1 by simp
qed

lemma turn_inv:
  assumes "turn st out l st' out' l'" and "gp_inv st" and "seq_ok (n_symbols st) out l"
  shows "gp_inv st' \<and> n_symbols st \<le> n_symbols st' \<and> seq_ok (n_symbols st') out' l'"
  using assms
proof (cases rule: turn.cases)
  case (chars new)
  then show ?thesis using assms(2,3) seq_ok_snoc [of "n_symbols st" out l new] by simp
next
  case (ref name i)
  then show ?thesis
    using assms(2,3) get_symbol_id_inv [OF assms(2), of name i st']
      seq_ok_snoc [of "n_symbols st'" out l "[Elem GRETYPE_RULE_REF i]"] seq_ok_mono [OF assms(3)]
    by simp
next
  case (repeat c rn)
  then show ?thesis using parse_repeat_inv [OF assms(2,3)] by blast
qed

section \<open>The parser keeps the invariant\<close>

definition grows :: "parse_state \<Rightarrow> parse_state \<Rightarrow> bool" where
  "grows st st' \<longleftrightarrow> gp_inv st' \<and> n_symbols st \<le> n_symbols st'"

definition defined_at :: "parse_state \<Rightarrow> nat \<Rightarrow> bool" where
  "defined_at st i \<longleftrightarrow> i < length (rules st) \<and> rules st ! i \<noteq> []"

lemma grows_trans: "grows a b \<Longrightarrow> grows b c \<Longrightarrow> grows a c"
  by (simp add: grows_def)

lemma parser_inv:
  assumes rn: "list_all is_word_char rn"
  shows "(\<forall>st pos out l b st' out' pos'. gp_inv st \<longrightarrow> seq_ok (n_symbols st) out l \<longrightarrow>
            parse_sequence n st pos rn out l b = Inr (st', out', pos') \<longrightarrow>
            grows st st' \<and> body_ok (n_symbols st') None out') \<and>
         (\<forall>st pos i b st' pos'. gp_inv st \<longrightarrow> i < n_symbols st \<longrightarrow>
            parse_alternates n st pos rn i b = Inr (st', pos') \<longrightarrow> grows st st' \<and> defined_at st' i) \<and>
         (\<forall>st pos i b rule st' pos'. gp_inv st \<longrightarrow> i < n_symbols st \<longrightarrow> body_ok (n_symbols st) None rule \<longrightarrow>
            alternates_loop n st pos rn i b rule = Inr (st', pos') \<longrightarrow> grows st st' \<and> defined_at st' i)"
proof (induction n)
  case 0
  then show ?case by simp
next
  case (Suc n)
  note IHs = Suc [THEN conjunct1, rule_format]
  note IHa = Suc [THEN conjunct2, THEN conjunct1, rule_format]
  note IHl = Suc [THEN conjunct2, THEN conjunct2, rule_format]
  have seq: "grows st st' \<and> body_ok (n_symbols st') None out'"
    if inv: "gp_inv st" and ok: "seq_ok (n_symbols st) out l"
      and r: "parse_sequence (Suc n) st pos rn out l b = Inr (st', out', pos')"
    for st pos out l b st' out' pos'
  proof -
    let ?K = "\<lambda>st pos out l. parse_sequence n st pos rn out l b"
    let ?N = "\<lambda>st pos i. parse_alternates n st pos rn i True"
    have r: "sequence_turn ?K ?N st pos rn out l b = Inr (st', out', pos')" using r by simp
    from rn show ?thesis
    proof (cases rule: sequence_turn_cases [where K = ?K and N = ?N and st = st and pos = pos and
          out = out and l = l and nest = b])
      case stop
      then show ?thesis using r inv ok by (simp add: grows_def seq_ok_def)
    next
      case (cont st1 p1 out1 l1)
      have t: "gp_inv st1" "n_symbols st \<le> n_symbols st1" "seq_ok (n_symbols st1) out1 l1"
        using turn_inv [OF cont(1) inv ok] by auto
      have "parse_sequence n st1 p1 rn out1 l1 b = Inr (st', out', pos')" using cont r by simp
      then show ?thesis using IHs [OF t(1,3)] t(2) by (metis grows_def le_trans)
    next
      case (group i st1 p1 st2 p2 q)
      have g: "gp_inv st1" "n_symbols st < n_symbols st1" "i < n_symbols st1"
        using generate_symbol_id_inv [OF inv rn group(1)] by auto
      have s2: "grows st1 st2" using IHa [OF g(1,3) group(3)] by blast
      then have s: "gp_inv st2" "n_symbols st \<le> n_symbols st2" "i < n_symbols st2"
        using g by (auto simp: grows_def)
      have "seq_ok (n_symbols st2) (out @ [Elem GRETYPE_RULE_REF i]) (length out)"
        using seq_ok_snoc [OF seq_ok_mono [OF ok s(2)], of "[Elem GRETYPE_RULE_REF i]"] s(3) by simp
      moreover have "parse_sequence n st2 q rn (out @ [Elem GRETYPE_RULE_REF i]) (length out) b =
          Inr (st', out', pos')" using group r by simp
      ultimately show ?thesis using IHs [OF s(1)] s(2) by (metis grows_def le_trans)
    qed (use r in simp_all)
  qed
  have alt: "grows st st' \<and> defined_at st' i"
    if inv: "gp_inv st" and i: "i < n_symbols st"
      and r: "parse_alternates (Suc n) st pos rn i b = Inr (st', pos')" for st pos i b st' pos'
  proof -
    obtain st1 rule p where p: "parse_sequence n st pos rn [] 0 b = Inr (st1, rule, p)"
        "alternates_loop n st1 p rn i b rule = Inr (st', pos')"
      using r by (auto split: sum.splits)
    have s: "grows st st1" "body_ok (n_symbols st1) None rule"
      using IHs [OF inv _ p(1)] by (simp_all add: seq_ok_def)
    then have "gp_inv st1" "i < n_symbols st1" using i by (auto simp: grows_def)
    then show ?thesis using IHl [OF _ _ s(2) p(2)] grows_trans [OF s(1)] by blast
  qed
  have loop: "grows st st' \<and> defined_at st' i"
    if inv: "gp_inv st" and i: "i < n_symbols st" and ok: "body_ok (n_symbols st) None rule"
      and r: "alternates_loop (Suc n) st pos rn i b rule = Inr (st', pos')"
    for st pos i b rule st' pos'
  proof (cases "peek pos = CHR ''|''")
    case True
    obtain st1 rule1 p where p: "parse_sequence n st (parse_space (tl pos) True) rn
          (rule @ [Elem GRETYPE_ALT 0]) (length rule + 1) b = Inr (st1, rule1, p)"
        "alternates_loop n st1 p rn i b rule1 = Inr (st', pos')"
      using r True by (auto split: sum.splits)
    have "seq_ok (n_symbols st) (rule @ [Elem GRETYPE_ALT 0]) (length rule + 1)"
      using ok by (auto simp: seq_ok_def body_ok_append)
    from IHs [OF inv this p(1)] have s: "grows st st1" "body_ok (n_symbols st1) None rule1" by auto
    then have "gp_inv st1" "i < n_symbols st1" using i by (auto simp: grows_def)
    then show ?thesis using IHl [OF _ _ s(2) p(2)] grows_trans [OF s(1)] by blast
  next
    case False
    have "rule_ok (n_symbols st) (rule @ [Elem GRETYPE_END 0])" using ok by (auto simp: rule_ok_def)
    moreover have "st' = add_rule st i (rule @ [Elem GRETYPE_END 0])" using r False by simp
    ultimately show ?thesis
      using add_rule_inv [OF inv i] by (auto simp: grows_def defined_at_def)
  qed
  show ?case using seq alt loop by (intro conjI allI impI) metis+
qed

lemma gp_inv_empty: "gp_inv empty_state"
  by (simp add: gp_inv_def empty_state_def ids_ok_def rules_ok_def)

lemma parse_rule_inv:
  assumes inv: "gp_inv st" and r: "parse_rule st src = Inr (st', pos')"
  shows "gp_inv st'"
proof -
  obtain name p where n: "parse_name src = Inr (name, p)"
    using r by (auto simp: parse_rule_def split: sum.splits)
  define q where "q = parse_space (drop 3 (parse_space p False)) True"
  obtain i st1 where g: "get_symbol_id st name = (i, st1)" by fastforce
  obtain st2 q2 where a: "parse_alternates (parse_fuel q) st1 q name i False = Inr (st2, q2)"
    using r n g by (auto simp: parse_rule_def Let_def q_def split: sum.splits if_splits)
  have word: "list_all is_word_char name" using parse_name_word [OF n] by blast
  have "gp_inv st1" "i < n_symbols st1" using get_symbol_id_inv [OF inv word g] by auto
  from parser_inv [OF word, THEN conjunct2, THEN conjunct1, rule_format, OF this a]
  have "gp_inv st2" by (simp add: grows_def)
  moreover have "st' = st2"
    using r n g a by (auto simp: parse_rule_def Let_def q_def [symmetric] split: if_splits)
  ultimately show ?thesis by simp
qed

lemma parse_rules_inv: "gp_inv st \<Longrightarrow> parse_rules n st pos = Inr st' \<Longrightarrow> gp_inv st'"
proof (induction n arbitrary: st pos)
  case (Suc n)
  then show ?case
    by (auto split: if_splits sum.splits dest: parse_rule_inv)
qed (auto split: if_splits)

lemma gp_inv_parse: "gp_inv (parse_grammar src)"
  using gp_inv_empty parse_rules_inv
  by (auto simp: parse_grammar_def parse_result_def Let_def split: sum.splits)

section \<open>Properties\<close>

text \<open>
  The parser returns on every source: the bound on the depth of its calls is never reached, so
  a grammar is refused only for one of the errors that the code throws.
\<close>

theorem parse_never_out_of_fuel:
  "parse_result src \<noteq> Inl Out_Of_Fuel"
  by (simp add: parse_result_def Let_def parse_rules_fuel)

text \<open>
  C31: whatever the source, the parsed grammar is well-formed: names and numbers of the symbols are one
  to one, every rule is empty (not defined) or ends with its only \<open>END\<close>, refers only to numbered
  symbols, and has its range and class modifiers after a character; a source with an error gives
  the empty grammar.
\<close>

theorem parse_grammar_wellformed:
  "map snd (symbol_ids (parse_grammar src)) = [0 ..< length (symbol_ids (parse_grammar src))] \<and>
   distinct (map fst (symbol_ids (parse_grammar src))) \<and>
   length (rules (parse_grammar src)) \<le> length (symbol_ids (parse_grammar src)) \<and>
   (\<forall>r \<in> set (rules (parse_grammar src)).
      r = [] \<or> rule_ok (length (symbol_ids (parse_grammar src))) r)"
proof -
  have "gp_inv (parse_grammar src)" by (rule gp_inv_parse)
  then show ?thesis by (auto simp: gp_inv_def ids_ok_def rules_ok_def)
qed

lemma demo_parse:
  "parse_grammar ''a ::= b*'' = \<lparr>symbol_ids = [(''a'', 0), (''b'', 1), (''a_2'', 2)],
     rules = [[Elem GRETYPE_RULE_REF 2, Elem GRETYPE_END 0], [],
              [Elem GRETYPE_RULE_REF 1, Elem GRETYPE_RULE_REF 2, Elem GRETYPE_ALT 0, Elem GRETYPE_END 0]]\<rparr>"
  by code_simp

theorem parse_grammar_wellformed_witness:
  "length (rules (parse_grammar ''a ::= b*'')) = 3 \<and> rules (parse_grammar ''a ::= b*'') ! 1 = [] \<and>
   map snd (symbol_ids (parse_grammar ''a ::= b*'')) = [0, 1, 2]"
  using parse_grammar_wellformed [of "''a ::= b*''"] by (simp add: demo_parse upt_rec)

lemma hex_val_less: "hex_val c = Some d \<Longrightarrow> d < 16"
  by (auto simp: hex_val_def Let_def split: if_splits)

lemma hex_loop_bound: "hex_loop v n s = Some (v', s') \<Longrightarrow> v' < (v + 1) * 16 ^ n"
proof (induction v n s rule: hex_loop.induct)
  case (3 v n c pos)
  then obtain d where d: "hex_val c = Some d" "hex_loop (v * 16 + d) n pos = Some (v', s')"
    by (auto split: option.splits)
  have "v' < (v * 16 + d + 1) * 16 ^ n" using 3(1) [OF d(1)] d(2) by simp
  also have "\<dots> \<le> (v + 1) * 16 * 16 ^ n" using hex_val_less [OF d(1)] by (intro mult_right_mono) auto
  finally show ?case by (simp add: algebra_simps)
qed auto

lemma less_mult_pow: "(v::nat) < 64 ^ n + v * 64 ^ n"
  by (induction n) auto

lemma cont_bytes_bound: "fst (cont_bytes v n s) < (v + 1) * 64 ^ n"
proof (induction v n s rule: cont_bytes.induct)
  case (1 v n c pos)
  have "fst (cont_bytes v (Suc n) (c # pos)) < (v * 64 + byte_val c mod 64 + 1) * 64 ^ n"
    using 1 by simp
  also have "\<dots> \<le> (v + 1) * 64 * 64 ^ n"
    using mod_less_divisor [of 64 "byte_val c"] by (intro mult_right_mono) auto
  finally show ?case by (simp add: algebra_simps)
qed (auto simp: less_mult_pow)

lemma decode_utf8_bound: "fst (decode_utf8 s) < 2 ^ 32"
proof -
  let ?b = "byte_val (peek s)"
  have "?b < 256" using nat_of_char_less_256 [of "peek s"] by (simp add: byte_val_def)
  then have "?b div 16 < 16" by (simp add: less_mult_imp_div_less)
  then have "utf8_len (?b div 16) \<in> set [1, 1, 1, 1, 1, 1, 1, 1, 1, 1, 1, 1, 2, 2, 3, 4]"
    unfolding utf8_len_def by (intro nth_mem) simp
  then have len: "utf8_len (?b div 16) \<in> {1, 2, 3, 4}" by simp
  define l where "l = utf8_len (?b div 16)"
  have "fst (decode_utf8 s) < (?b mod 2 ^ (8 - l) + 1) * 64 ^ (l - 1)"
    using cont_bytes_bound by (simp add: decode_utf8_def l_def Let_def)
  also have "\<dots> \<le> 2 ^ (8 - l) * 64 ^ (l - 1)"
    by (intro mult_right_mono) (simp_all add: Suc_leI)
  also have "\<dots> < 2 ^ 32" using len by (auto simp: l_def [symmetric])
  finally show ?thesis .
qed

text \<open>
  A code point that the parser stores fits the 32 bits of an element's value: neither the hex
  escapes nor the UTF-8 decoder can overflow.
\<close>

theorem parse_char_bound:
  assumes "parse_char s = Inr (v, s')"
  shows "v < 2 ^ 32"
proof -
  have hex: "parse_hex t k = Inr (v, s') \<Longrightarrow> k \<le> 8 \<Longrightarrow> v < 2 ^ 32" for t k
  proof -
    assume h: "parse_hex t k = Inr (v, s')" "k \<le> 8"
    then have "v < 16 ^ k" using hex_loop_bound [of 0 k t v s'] by (auto simp: parse_hex_def split: option.splits)
    also have "(16::nat) ^ k \<le> 16 ^ 8" using h(2) by (intro power_increasing) auto
    finally show ?thesis by simp
  qed
  have byte: "byte_val c < 2 ^ 32" for c
    unfolding byte_val_def by (rule less_trans [OF nat_of_char_less_256]) simp
  show ?thesis
  proof (cases "peek s = CHR 0x5C")
    case True
    define c where "c = peek (tl s)"
    define t where "t = tl (tl s)"
    have e: "parse_char s = (if c = CHR ''x'' then parse_hex t 2
         else if c = CHR ''u'' then parse_hex t 4
         else if c = CHR ''U'' then parse_hex t 8
         else if c = CHR ''t'' then Inr (9, t)
         else if c = CHR ''r'' then Inr (13, t)
         else if c = CHR ''n'' then Inr (10, t)
         else if c \<in> {CHR 0x5C, CHR 0x22, CHR ''['', CHR '']''} then Inr (byte_val c, t)
         else Inl (Unknown_Escape s))"
      using True by (simp only: parse_char_def c_def t_def Let_def simp_thms if_True)
    consider "parse_hex t 2 = Inr (v, s')" | "parse_hex t 4 = Inr (v, s')" | "parse_hex t 8 = Inr (v, s')"
      | "v = 9" | "v = 13" | "v = 10" | "v = byte_val c"
      using assms unfolding e by (metis Inl_Inr_False old.sum.inject(2) prod.inject)
    then show ?thesis by cases (use hex byte in \<open>simp_all\<close>)
  next
    case False
    then have "decode_utf8 s = (v, s')" using assms by (auto simp: parse_char_def split: if_splits)
    then show ?thesis using decode_utf8_bound [of s] by simp
  qed
qed

theorem parse_char_bound_witness:
  "parse_char (CHR 0x5C # ''x4F]'') = Inr (79, '']'') \<and> (79 :: nat) < 2 ^ 32"
proof -
  have "parse_char (CHR 0x5C # ''x4F]'') = Inr (79, '']'')" by code_simp
  then show ?thesis using parse_char_bound by blast
qed

end
