(* ===== verification/Grammar_Print.thy ===== *)
theory Grammar_Print
  imports Grammar_Invariant
begin

text \<open>
  Printing a parsed grammar, \<open>print_grammar\<close> of \<open>src/common/grammar-parser.cpp\<close>.  A function that writes to
  a file and may throw returns what it wrote and the exception, if any.
\<close>

section \<open>Definitions\<close>

definition hex_digit :: "nat \<Rightarrow> char" where
  "hex_digit d = (if d < 10 then char_of (48 + d) else char_of (55 + d))"

fun hex_str_rev :: "nat \<Rightarrow> string" where
  "hex_str_rev n = (if n < 16 then [hex_digit n] else hex_digit (n mod 16) # hex_str_rev (n div 16))"

declare hex_str_rev.simps [simp del]

text \<open>\<open>%04X\<close>\<close>

definition hex4 :: "nat \<Rightarrow> string" where
  "hex4 n = (let s = rev (hex_str_rev n) in replicate (4 - length s) (CHR ''0'') @ s)"

definition print_grammar_char :: "nat \<Rightarrow> string" where
  "print_grammar_char c =
     (if 0x20 \<le> c \<and> c \<le> 0x7f then [char_of c] else ''<U+'' @ hex4 c @ ''>'')"

fun type_name :: "gretype \<Rightarrow> string" where
  "type_name GRETYPE_END = ''END''"
| "type_name GRETYPE_ALT = ''ALT''"
| "type_name GRETYPE_RULE_REF = ''RULE_REF''"
| "type_name GRETYPE_CHAR = ''CHAR''"
| "type_name GRETYPE_CHAR_NOT = ''CHAR_NOT''"
| "type_name GRETYPE_CHAR_RNG_UPPER = ''CHAR_RNG_UPPER''"
| "type_name GRETYPE_CHAR_ALT = ''CHAR_ALT''"

definition print_rule_binary :: "element list \<Rightarrow> string" where
  "print_rule_binary rule =
     concat (map (\<lambda>e. type_name (gtype e) @
        (if is_char_element e
         then ''('' @ [CHR 0x22] @ print_grammar_char (gvalue e) @ [CHR 0x22] @ '') ''
         else ''('' @ nat_str (gvalue e) @ '') '')) rule) @ [CHR 0x0A]"

datatype print_error =
    Malformed_Rule nat
  | Unexpected_End_Of_Rule nat nat
  | Range_Without_Char nat nat
  | Alternate_Without_Char nat nat
  | No_Such_Name nat

text \<open>\<open>symbol_id_names.at(id)\<close>\<close>

definition name_at :: "(nat \<times> string) list \<Rightarrow> nat \<Rightarrow> print_error + string" where
  "name_at names i = (case map_of names i of None \<Rightarrow> Inl (No_Such_Name i) | Some n \<Rightarrow> Inr n)"

text \<open>The first switch of the loop, and the bracket that closes a class.\<close>

definition print_element :: "(nat \<times> string) list \<Rightarrow> nat \<Rightarrow> element list \<Rightarrow> nat \<Rightarrow> print_error + string" where
  "print_element names rule_id rule i =
     (let elem = rule ! i; after_char = (i \<noteq> 0 \<and> is_char_element (rule ! (i - 1))) in
      case gtype elem of
        GRETYPE_END \<Rightarrow> Inl (Unexpected_End_Of_Rule rule_id i)
      | GRETYPE_ALT \<Rightarrow> Inr ''| ''
      | GRETYPE_RULE_REF \<Rightarrow> (case name_at names (gvalue elem) of
            Inl e \<Rightarrow> Inl e | Inr n \<Rightarrow> Inr (n @ '' ''))
      | GRETYPE_CHAR \<Rightarrow> Inr (''['' @ print_grammar_char (gvalue elem))
      | GRETYPE_CHAR_NOT \<Rightarrow> Inr (''[^'' @ print_grammar_char (gvalue elem))
      | GRETYPE_CHAR_RNG_UPPER \<Rightarrow>
          if after_char then Inr (''-'' @ print_grammar_char (gvalue elem))
          else Inl (Range_Without_Char rule_id i)
      | GRETYPE_CHAR_ALT \<Rightarrow>
          if after_char then Inr (print_grammar_char (gvalue elem))
          else Inl (Alternate_Without_Char rule_id i))"

definition close_class :: "element list \<Rightarrow> nat \<Rightarrow> string" where
  "close_class rule i =
     (if is_char_element (rule ! i) \<and>
         gtype (rule ! (i + 1)) \<notin> {GRETYPE_CHAR_ALT, GRETYPE_CHAR_RNG_UPPER} then ''] '' else [])"

fun print_elements :: "(nat \<times> string) list \<Rightarrow> nat \<Rightarrow> element list \<Rightarrow> nat list \<Rightarrow> string
    \<Rightarrow> string \<times> print_error option" where
  "print_elements names rule_id rule [] out = (out, None)"
| "print_elements names rule_id rule (i # ks) out = (case print_element names rule_id rule i of
       Inl e \<Rightarrow> (out, Some e)
     | Inr s \<Rightarrow> print_elements names rule_id rule ks (out @ s @ close_class rule i))"

definition print_rule :: "(nat \<times> string) list \<Rightarrow> nat \<Rightarrow> element list \<Rightarrow> string
    \<Rightarrow> string \<times> print_error option" where
  "print_rule names rule_id rule out =
     (if rule = [] \<or> gtype (last rule) \<noteq> GRETYPE_END then (out, Some (Malformed_Rule rule_id))
      else case name_at names rule_id of Inl e \<Rightarrow> (out, Some e)
        | Inr name \<Rightarrow>
           (case print_elements names rule_id rule [0 ..< length rule - 1] (out @ name @ '' ::= '') of
              (out, Some e) \<Rightarrow> (out, Some e)
            | (out, None) \<Rightarrow> (out @ [CHR 0x0A], None)))"

fun print_rule_list :: "(nat \<times> string) list \<Rightarrow> nat \<Rightarrow> element list list \<Rightarrow> string
    \<Rightarrow> string \<times> print_error option" where
  "print_rule_list names i [] out = (out, None)"
| "print_rule_list names i (r # rs) out = (case print_rule names i r out of
       (out, Some e) \<Rightarrow> (out, Some e)
     | (out, None) \<Rightarrow> print_rule_list names (i + 1) rs out)"

definition print_grammar :: "string \<Rightarrow> parse_state \<Rightarrow> string \<times> print_error option" where
  "print_grammar out st =
     print_rule_list (map (\<lambda>(name, i). (i, name)) (symbol_ids st)) 0 (rules st) out"

section \<open>Lemmas\<close>

lemma body_ok_nth:
  "body_ok n p es \<Longrightarrow> i < length es \<Longrightarrow>
     follows (if i = 0 then p else Some (gtype (es ! (i - 1)))) (gtype (es ! i)) \<and>
     (gtype (es ! i) = GRETYPE_RULE_REF \<longrightarrow> gvalue (es ! i) < n)"
proof (induction es arbitrary: p i)
  case (Cons e es)
  show ?case
  proof (cases i)
    case (Suc j)
    have "body_ok n (Some (gtype e)) es" "j < length es" using Cons.prems Suc by auto
    from Cons.IH [OF this] show ?thesis using Suc by (cases j) auto
  qed (use Cons.prems in simp)
qed simp

lemma is_char_element_iff: "is_char_element e \<longleftrightarrow>
  gtype e \<in> {GRETYPE_CHAR, GRETYPE_CHAR_NOT, GRETYPE_CHAR_ALT, GRETYPE_CHAR_RNG_UPPER}"
  by (cases e; cases "gtype e") auto

lemma print_element_ok:
  assumes "rule = body @ [Elem GRETYPE_END 0]" and "body_ok n None body"
    and "i < length body" and "\<forall>j < n. map_of names j \<noteq> None"
  shows "\<exists>s. print_element names k rule i = Inr s"
proof -
  have e: "rule ! i = body ! i" "i \<noteq> 0 \<Longrightarrow> rule ! (i - 1) = body ! (i - 1)"
    using assms by (auto simp: nth_append)
  have b: "follows (if i = 0 then None else Some (gtype (body ! (i - 1)))) (gtype (body ! i))"
      "gtype (body ! i) = GRETYPE_RULE_REF \<Longrightarrow> gvalue (body ! i) < n"
    using body_ok_nth [OF assms(2,3)] by auto
  show ?thesis
  proof (cases "gtype (body ! i)")
    case GRETYPE_RULE_REF
    then show ?thesis using b(2) assms(4) e by (auto simp: print_element_def name_at_def)
  qed (use b(1) e in \<open>auto simp: print_element_def Let_def is_char_element_iff split: if_splits\<close>)
qed

lemma print_elements_ok:
  "\<forall>i \<in> set ks. \<exists>s. print_element names k rule i = Inr s \<Longrightarrow>
     \<exists>out. print_elements names k rule ks out0 = (out0 @ out, None)"
proof (induction ks arbitrary: out0)
  case (Cons i ks)
  then obtain s where s: "print_element names k rule i = Inr s" by auto
  then obtain out where
    "print_elements names k rule ks (out0 @ s @ close_class rule i) =
       ((out0 @ s @ close_class rule i) @ out, None)"
    using Cons by (metis list.set_intros(2))
  then show ?case using s by auto
qed simp

lemma print_rule_ok:
  assumes "rule_ok n rule" and "k < n" and "\<forall>j < n. map_of names j \<noteq> None"
  shows "\<exists>out. print_rule names k rule out0 = (out0 @ out, None)"
proof -
  obtain body where b: "rule = body @ [Elem GRETYPE_END 0]" "body_ok n None body"
    using assms(1) by (auto simp: rule_ok_def)
  have "\<forall>i \<in> set [0 ..< length rule - 1]. \<exists>s. print_element names k rule i = Inr s"
    using print_element_ok [OF b _ assms(3)] b(1) by simp
  then obtain name out where "map_of names k = Some name"
      "print_elements names k rule [0 ..< length rule - 1] (out0 @ name @ '' ::= '') =
         ((out0 @ name @ '' ::= '') @ out, None)"
    using assms(2,3) print_elements_ok by (metis option.exhaust)
  then show ?thesis using b(1) by (simp add: print_rule_def name_at_def)
qed

lemma print_rule_list_ok:
  assumes "\<forall>r \<in> set rs. rule_ok n r" and "k + length rs \<le> n" and "\<forall>j < n. map_of names j \<noteq> None"
  shows "\<exists>out. print_rule_list names k rs out0 = (out0 @ out, None)"
  using assms(1,2)
proof (induction rs arbitrary: k out0)
  case (Cons r rs)
  obtain out where o1: "print_rule names k r out0 = (out0 @ out, None)"
    using print_rule_ok [OF _ _ assms(3)] Cons.prems by fastforce
  obtain out2 where "print_rule_list names (k + 1) rs (out0 @ out) = ((out0 @ out) @ out2, None)"
    using Cons.IH [of "k + 1" "out0 @ out"] Cons.prems by auto
  then show ?case using o1 by auto
qed simp

section \<open>Property\<close>

text \<open>
  A grammar that was parsed prints completely, without an exception, when every one of its rules is
  defined; so the checks of the printer can only fire for a rule that is referenced but missing.
\<close>

theorem print_parsed_grammar:
  assumes "[] \<notin> set (rules (parse_grammar src))"
  shows "\<exists>out. print_grammar out0 (parse_grammar src) = (out0 @ out, None)"
proof -
  let ?st = "parse_grammar src"
  let ?n = "length (symbol_ids ?st)"
  define names where "names = map (\<lambda>(name, i). (i, name)) (symbol_ids ?st)"
  have inv: "map snd (symbol_ids ?st) = [0 ..< ?n]" "length (rules ?st) \<le> ?n"
      "\<forall>r \<in> set (rules ?st). rule_ok ?n r"
    using gp_inv_parse [of src] assms by (auto simp: gp_inv_def ids_ok_def rules_ok_def)
  have "map fst names = map snd (symbol_ids ?st)" by (auto simp: names_def)
  then have "fst ` set names = {0 ..< ?n}" using inv(1) by (metis set_map set_upt)
  then have "\<forall>j < ?n. map_of names j \<noteq> None" by (auto simp: map_of_eq_None_iff)
  then show ?thesis
    using print_rule_list_ok [of "rules ?st" ?n 0 names out0] inv by (simp add: print_grammar_def names_def)
qed

lemma demo_parse_closed:
  "rules (parse_grammar ''a ::= a?'') = [[Elem GRETYPE_RULE_REF 1, Elem GRETYPE_END 0],
     [Elem GRETYPE_RULE_REF 0, Elem GRETYPE_ALT 0, Elem GRETYPE_END 0]]"
  by code_simp

theorem print_parsed_grammar_witness:
  "\<exists>out. print_grammar ''> '' (parse_grammar ''a ::= a?'') = (''> '' @ out, None)"
  by (rule print_parsed_grammar) (simp add: demo_parse_closed)

end
