(* ===== verification/Grammar_Engine.thy ===== *)
theory Grammar_Engine
  imports Grammar_Types "HOL-Library.Sublist"
begin

text \<open>
  The grammar engine of \<open>src/src/whisper.cpp\<close> (ported from llama.cpp): the incremental UTF-8 decoder,
  the matching of a character class, the pushdown stacks and the rejection of candidate tokens.  A
  stack is a list of positions with the top first (\<open>back()\<close> of the vector is the head), a position
  the rest of its rule.  The recursion of \<open>advance_stack\<close> need not end (a left-recursive grammar), so
  it takes a bound on its depth; reading outside a rule or a failed \<open>WHISPER_ASSERT\<close> is \<^term>\<open>Undef\<close>.
\<close>

section \<open>Results\<close>

datatype 'a run = Ret 'a | Undef | No_Fuel

fun run_bind :: "'a run \<Rightarrow> ('a \<Rightarrow> 'b run) \<Rightarrow> 'b run" where
  "run_bind (Ret x) f = f x"
| "run_bind Undef f = Undef"
| "run_bind No_Fuel f = No_Fuel"

text \<open>The results of a loop that appends to one vector.\<close>

fun run_concat :: "'a list run list \<Rightarrow> 'a list run" where
  "run_concat [] = Ret []"
| "run_concat (r # rs) = run_bind r (\<lambda>xs. run_bind (run_concat rs) (\<lambda>ys. Ret (xs @ ys)))"

section \<open>Decoding\<close>

record partial_utf8 =
  p_value :: nat
  n_remain :: int

definition byte_of :: "char \<Rightarrow> nat" where
  "byte_of c = of_char c"

definition utf8_lookup :: "nat \<Rightarrow> int" where
  "utf8_lookup highbits = [1, 1, 1, 1, 1, 1, 1, 1, 0, 0, 0, 0, 2, 2, 3, 4] ! highbits"

text \<open>The first loop, which continues a sequence; \<^term>\<open>None\<close> is its abort on an invalid byte.\<close>

fun utf8_continue :: "nat \<Rightarrow> nat \<Rightarrow> string \<Rightarrow> (nat \<times> nat \<times> string) option" where
  "utf8_continue value (Suc n) (c # pos) =
     (if byte_of c div 64 \<noteq> 2 then None else utf8_continue (value * 64 + byte_of c mod 64) n pos)"
| "utf8_continue value n pos = Some (value, n, pos)"

text \<open>The inner loop over the continuation bytes of one sequence.\<close>

fun utf8_tail :: "nat \<Rightarrow> nat \<Rightarrow> string \<Rightarrow> nat \<times> nat \<times> string" where
  "utf8_tail value (Suc n) (c # pos) = utf8_tail (value * 64 + byte_of c mod 64) n pos"
| "utf8_tail value n pos = (value, n, pos)"

lemma length_utf8_tail: "utf8_tail v n s = (v', n', s') \<Longrightarrow> length s' \<le> length s"
  by (induction v n s rule: utf8_tail.induct) auto

function utf8_rest :: "nat list \<Rightarrow> nat \<Rightarrow> int \<Rightarrow> string \<Rightarrow> nat list \<times> partial_utf8" where
  "utf8_rest code_points value remain [] = (code_points @ [0], \<lparr>p_value = value, n_remain = remain\<rparr>)"
| "utf8_rest code_points value remain (c # pos) =
     (let first_byte = byte_of c; remain = utf8_lookup (first_byte div 16) - 1
      in if remain < 0 then ([0], \<lparr>p_value = 0, n_remain = remain\<rparr>)
         else case utf8_tail (first_byte mod 2 ^ nat (7 - remain)) (nat remain) pos of
           (value, left, pos') \<Rightarrow>
             utf8_rest (if left = 0 then code_points @ [value] else code_points) value (int left) pos')"
  by pat_completeness auto
termination
  by (relation "measure (\<lambda>(_, _, _, pos). length pos)")
    (auto dest!: sym [of "(_, _, _)"] length_utf8_tail simp: less_Suc_eq_le)

definition decode_partial :: "string \<Rightarrow> partial_utf8 \<Rightarrow> nat list \<times> partial_utf8" where
  "decode_partial src partial_start =
     (case utf8_continue (p_value partial_start) (nat (n_remain partial_start)) src of
        None \<Rightarrow> ([0], \<lparr>p_value = 0, n_remain = -1\<rparr>)
      | Some (value, left, pos) \<Rightarrow>
          utf8_rest (if n_remain partial_start > 0 \<and> left = 0 then [value] else [])
            value (if n_remain partial_start > 0 then int left else n_remain partial_start) pos)"

section \<open>Matching\<close>

definition at_end :: "element list \<Rightarrow> bool" where
  "at_end pos \<longleftrightarrow> (case pos of [] \<Rightarrow> False | e # _ \<Rightarrow> is_end_type (gtype e))"

text \<open>
  The loop over a class: \<open>test lo hi\<close> decides one item, a range or a single character twice.  It
  returns whether an item passed and the position after the class.
\<close>

fun class_loop :: "(nat \<Rightarrow> nat \<Rightarrow> bool) \<Rightarrow> bool \<Rightarrow> element list \<Rightarrow> (bool \<times> element list) option" where
  "class_loop test found (e # e1 # es) =
     (if gtype e1 = GRETYPE_CHAR_RNG_UPPER then
        (let found = (found \<or> test (gvalue e) (gvalue e1))
         in case es of [] \<Rightarrow> None
            | e2 # _ \<Rightarrow> if gtype e2 = GRETYPE_CHAR_ALT then class_loop test found es else Some (found, es))
      else
        (let found = (found \<or> test (gvalue e) (gvalue e))
         in if gtype e1 = GRETYPE_CHAR_ALT then class_loop test found (e1 # es)
            else Some (found, e1 # es)))"
| "class_loop test found es = None"

definition match_char :: "element list \<Rightarrow> nat \<Rightarrow> (bool \<times> element list) option" where
  "match_char pos chr = (case pos of [] \<Rightarrow> None
     | e # _ \<Rightarrow>
        let is_positive_char = (gtype e = GRETYPE_CHAR)
        in if is_positive_char \<or> gtype e = GRETYPE_CHAR_NOT then
             (case class_loop (\<lambda>lo hi. lo \<le> chr \<and> chr \<le> hi) False pos of None \<Rightarrow> None
              | Some (found, pos) \<Rightarrow> Some (found = is_positive_char, pos))
           else None)"

definition match_partial_char :: "element list \<Rightarrow> partial_utf8 \<Rightarrow> bool option" where
  "match_partial_char pos partial = (case pos of [] \<Rightarrow> None
     | e # _ \<Rightarrow>
        let is_positive_char = (gtype e = GRETYPE_CHAR); r = n_remain partial; v = p_value partial
        in if is_positive_char \<or> gtype e = GRETYPE_CHAR_NOT then
             if r < 0 \<or> (r = 1 \<and> v < 2) then Some False
             else
               let low = v * 64 ^ nat r; high = low + 64 ^ nat r - 1;
                   low = (if low = 0 then if r = 2 then 2048 else if r = 3 then 65536 else low else low)
               in (case class_loop (\<lambda>lo hi. lo \<le> high \<and> low \<le> hi) False pos of None \<Rightarrow> None
                   | Some (found, _) \<Rightarrow> Some (found = is_positive_char))
           else None)"

section \<open>Stacks\<close>

type_synonym stack = "element list list"

definition push :: "element list \<Rightarrow> stack \<Rightarrow> stack" where
  "push pos below = (if at_end pos then below else pos # below)"

text \<open>The starts of the alternates of a rule from \<open>subpos\<close> on; \<^term>\<open>None\<close> when it runs off the array.\<close>

function alternates :: "element list \<Rightarrow> element list list option" where
  "alternates subpos =
     (case dropWhile (\<lambda>e. \<not> is_end_type (gtype e)) subpos of
        [] \<Rightarrow> None
      | e # rest \<Rightarrow>
         if gtype e = GRETYPE_ALT then map_option ((#) subpos) (alternates rest) else Some [subpos])"
  by pat_completeness auto
termination
proof (relation "measure length", goal_cases)
  case (2 subpos e rest)
  have "length (dropWhile (\<lambda>e. \<not> is_end_type (gtype e)) subpos) \<le> length subpos"
    by (rule length_dropWhile_le)
  then show ?case using 2 by simp
qed simp

declare alternates.simps [simp del]

fun advance_stack :: "nat \<Rightarrow> element list list \<Rightarrow> stack \<Rightarrow> stack list run" where
  "advance_stack n rules [] = Ret [[]]"
| "advance_stack n rules ([] # below) = Undef"
| "advance_stack n rules ((e # after) # below) =
     (case gtype e of
        GRETYPE_RULE_REF \<Rightarrow>
          (case n of 0 \<Rightarrow> No_Fuel
           | Suc m \<Rightarrow>
              if gvalue e < length rules \<and> after \<noteq> [] then
                (case alternates (rules ! gvalue e) of None \<Rightarrow> Undef
                 | Some alts \<Rightarrow>
                     run_concat (map (\<lambda>sub. advance_stack m rules (push sub (push after below))) alts))
              else Undef)
      | GRETYPE_CHAR \<Rightarrow> Ret [(e # after) # below]
      | GRETYPE_CHAR_NOT \<Rightarrow> Ret [(e # after) # below]
      | _ \<Rightarrow> Undef)"

definition accept_stack :: "nat \<Rightarrow> element list list \<Rightarrow> nat \<Rightarrow> stack \<Rightarrow> stack list run" where
  "accept_stack n rules chr st = (case st of [] \<Rightarrow> Ret []
     | pos # below \<Rightarrow> (case match_char pos chr of
          None \<Rightarrow> Undef
        | Some (False, _) \<Rightarrow> Ret []
        | Some (True, pos) \<Rightarrow> advance_stack n rules (push pos below)))"

definition grammar_accept :: "nat \<Rightarrow> element list list \<Rightarrow> stack list \<Rightarrow> nat \<Rightarrow> stack list run" where
  "grammar_accept n rules stacks chr = run_concat (map (accept_stack n rules chr) stacks)"

text \<open>The loop of \<open>whisper_grammar_accept_token\<close> over the code points.\<close>

fun accept_all :: "nat \<Rightarrow> element list list \<Rightarrow> stack list \<Rightarrow> nat list \<Rightarrow> stack list run" where
  "accept_all n rules stacks [] = Ret stacks"
| "accept_all n rules stacks (c # cs) =
     run_bind (grammar_accept n rules stacks c) (\<lambda>stacks. accept_all n rules stacks cs)"

record grammar =
  g_rules :: "element list list"
  g_stacks :: "stack list"
  g_partial :: partial_utf8

definition copy_rule :: "element list \<Rightarrow> element list" where
  "copy_rule r = takeWhile (\<lambda>e. gtype e \<noteq> GRETYPE_END) r @ [Elem GRETYPE_END 0]"

definition grammar_init :: "nat \<Rightarrow> element list list \<Rightarrow> nat \<Rightarrow> grammar run" where
  "grammar_init n rules i_start_rule =
     (if \<not> i_start_rule < length rules \<or> (\<exists>r \<in> set rules. GRETYPE_END \<notin> gtype ` set r) then Undef
      else let vec_rules = map copy_rule rules in
        case alternates (rules ! i_start_rule) of None \<Rightarrow> Undef
        | Some alts \<Rightarrow>
           run_bind (run_concat (map (\<lambda>pos. advance_stack n vec_rules (push pos [])) alts))
             (\<lambda>stacks. Ret \<lparr>g_rules = vec_rules, g_stacks = stacks,
                          g_partial = \<lparr>p_value = 0, n_remain = 0\<rparr>\<rparr>))"

section \<open>Candidates\<close>

text \<open>A candidate token points into its zero-terminated code points.\<close>

record candidate =
  c_id :: nat
  c_code_points :: "nat list"
  c_at :: nat
  c_partial :: partial_utf8

definition c_here :: "candidate \<Rightarrow> nat" where
  "c_here tok = c_code_points tok ! c_at tok"

text \<open>The classification of the candidates at the position on top of the stack: rejected, or to go on.\<close>

fun split_candidates :: "element list \<Rightarrow> candidate list \<Rightarrow> (candidate list \<times> candidate list) option" where
  "split_candidates pos [] = Some ([], [])"
| "split_candidates pos (tok # toks) =
     (case split_candidates pos toks of None \<Rightarrow> None
      | Some (rejects, nexts) \<Rightarrow>
          if c_here tok = 0 then
            (if n_remain (c_partial tok) \<noteq> 0 then
               (case match_partial_char pos (c_partial tok) of None \<Rightarrow> None
                | Some ok \<Rightarrow> Some (if ok then rejects else tok # rejects, nexts))
             else Some (rejects, nexts))
          else (case match_char pos (c_here tok) of None \<Rightarrow> None
                | Some (True, _) \<Rightarrow> Some (rejects, tok\<lparr>c_at := c_at tok + 1\<rparr> # nexts)
                | Some (False, _) \<Rightarrow> Some (tok # rejects, nexts)))"

fun reject_for_stack :: "nat \<Rightarrow> nat \<Rightarrow> element list list \<Rightarrow> stack \<Rightarrow> candidate list \<Rightarrow> candidate list run" where
  "reject_for_stack k n rules [] candidates =
     Ret (filter (\<lambda>tok. c_here tok \<noteq> 0 \<or> n_remain (c_partial tok) \<noteq> 0) candidates)"
| "reject_for_stack k 0 rules (pos # below) candidates = No_Fuel"
| "reject_for_stack k (Suc n) rules (pos # below) candidates =
     (case split_candidates pos candidates of None \<Rightarrow> Undef
      | Some (rejects, next_candidates) \<Rightarrow>
         (case match_char pos 0 of None \<Rightarrow> Undef
          | Some (_, stack_pos_after) \<Rightarrow>
             run_bind (advance_stack k rules (push stack_pos_after below)) (\<lambda>next_stacks.
               run_bind
                 (if next_candidates = [] \<or> next_stacks = [] then Ret []
                  else foldl (\<lambda>r st. run_bind r (\<lambda>cs. reject_for_stack k n rules st cs))
                         (Ret next_candidates) next_stacks)
                 (\<lambda>next_rejects.
                    Ret (rejects @ map (\<lambda>tok. tok\<lparr>c_at := c_at tok - 1\<rparr>) next_rejects)))))"

definition reject_candidates :: "nat \<Rightarrow> nat \<Rightarrow> element list list \<Rightarrow> stack list \<Rightarrow> candidate list
    \<Rightarrow> candidate list run" where
  "reject_candidates k n rules stacks candidates =
     (if candidates = [] \<or> stacks = [] then Ret []
      else foldl (\<lambda>r st. run_bind r (\<lambda>cs. reject_for_stack k n rules st cs)) (Ret candidates) stacks)"

text \<open>
  \<open>whisper_suppress_invalid_grammar\<close>: \<open>vocab\<close> holds the texts of the tokens below the end-of-text
  token, and the logit of each rejected one is lowered, \<open>penalize\<close> being that subtraction of floats.
\<close>

definition vocab_candidates :: "string list \<Rightarrow> partial_utf8 \<Rightarrow> candidate list" where
  "vocab_candidates vocab partial =
     concat (map (\<lambda>id. let t = takeWhile (\<lambda>c. c \<noteq> NUL) (vocab ! id) in
         if vocab ! id = [] then []
         else case decode_partial t partial of (cps, p) \<Rightarrow>
           [\<lparr>c_id = id, c_code_points = cps, c_at = 0, c_partial = p\<rparr>]) [0 ..< length vocab])"

definition suppress_invalid_grammar :: "nat \<Rightarrow> nat \<Rightarrow> ('f \<Rightarrow> 'f) \<Rightarrow> string list \<Rightarrow> 'f list \<Rightarrow> grammar
    \<Rightarrow> 'f list run" where
  "suppress_invalid_grammar k n penalize vocab logits g =
     (if g_rules g = [] \<or> g_stacks g = [] then Ret logits
      else run_bind (reject_candidates k n (g_rules g) (g_stacks g)
               (vocab_candidates vocab (g_partial g)))
        (\<lambda>rejects. Ret (foldl (\<lambda>ls tok. ls[c_id tok := penalize (ls ! c_id tok)]) logits rejects)))"

definition accept_token :: "nat \<Rightarrow> string \<Rightarrow> grammar \<Rightarrow> grammar run" where
  "accept_token n t g =
     (if g_rules g = [] \<or> g_stacks g = [] then Ret g
      else if take 2 t = ''[_'' then Ret g
      else case decode_partial (takeWhile (\<lambda>c. c \<noteq> NUL) t) (g_partial g) of (code_points, partial) \<Rightarrow>
        run_bind (accept_all n (g_rules g) (g_stacks g) (butlast code_points))
          (\<lambda>stacks. Ret (g\<lparr>g_stacks := stacks, g_partial := partial\<rparr>)))"

section \<open>The language of a grammar\<close>

text \<open>
  The specification: which sequences of code points the rest of an alternate derives, and which a
  stack of such positions does.
\<close>

inductive derives :: "element list list \<Rightarrow> element list \<Rightarrow> nat list \<Rightarrow> bool" for rules where
  d_end: "at_end pos \<Longrightarrow> derives rules pos []"
| d_ref: "gtype e = GRETYPE_RULE_REF \<Longrightarrow> gvalue e < length rules \<Longrightarrow>
    alternates (rules ! gvalue e) = Some alts \<Longrightarrow> alt \<in> set alts \<Longrightarrow>
    derives rules alt u \<Longrightarrow> derives rules after v \<Longrightarrow> derives rules (e # after) (u @ v)"
| d_chr: "match_char pos c = Some (True, after) \<Longrightarrow> derives rules after w \<Longrightarrow> derives rules pos (c # w)"

fun stack_derives :: "element list list \<Rightarrow> stack \<Rightarrow> nat list \<Rightarrow> bool" where
  "stack_derives rules [] w = (w = [])"
| "stack_derives rules (pos # below) w =
     (\<exists>u v. w = u @ v \<and> derives rules pos u \<and> stack_derives rules below v)"

definition some_derives :: "element list list \<Rightarrow> stack list \<Rightarrow> nat list \<Rightarrow> bool" where
  "some_derives rules stacks w \<longleftrightarrow> (\<exists>st \<in> set stacks. stack_derives rules st w)"

text \<open>The form of a stack between two characters.\<close>

definition positioned :: "stack \<Rightarrow> bool" where
  "positioned st \<longleftrightarrow> (case st of [] \<Rightarrow> True
     | pos # _ \<Rightarrow> pos \<noteq> [] \<and> gtype (hd pos) \<in> {GRETYPE_CHAR, GRETYPE_CHAR_NOT})"

lemma match_char_type: "match_char pos c = Some r \<Longrightarrow>
  \<exists>e es. pos = e # es \<and> gtype e \<in> {GRETYPE_CHAR, GRETYPE_CHAR_NOT}"
  by (auto simp: match_char_def Let_def split: list.splits if_splits)

lemma match_char_not_end: "match_char pos c = Some r \<Longrightarrow> \<not> at_end pos"
  using match_char_type [of pos c r] by (auto simp: at_end_def)

lemma derives_end: "at_end pos \<Longrightarrow> derives rules pos w \<longleftrightarrow> w = []"
proof
  assume e: "at_end pos" and "derives rules pos w"
  from this(2) show "w = []"
  proof cases
    case (d_ref e alts alt u after v)
    then show ?thesis using e by (simp add: at_end_def)
  next
    case (d_chr c after w)
    then show ?thesis using e match_char_not_end by blast
  qed simp
qed (simp add: d_end)

lemma derives_ref:
  assumes "gtype e = GRETYPE_RULE_REF" "gvalue e < length rules" "alternates (rules ! gvalue e) = Some alts"
  shows "derives rules (e # after) w \<longleftrightarrow>
    (\<exists>alt \<in> set alts. \<exists>u v. w = u @ v \<and> derives rules alt u \<and> derives rules after v)"
proof
  assume "derives rules (e # after) w"
  then show "\<exists>alt \<in> set alts. \<exists>u v. w = u @ v \<and> derives rules alt u \<and> derives rules after v"
  proof cases
    case d_end
    then show ?thesis using assms(1) by (simp add: at_end_def)
  next
    case (d_ref alts' alt u v)
    then show ?thesis using assms(3) by auto
  next
    case (d_chr c after' w')
    then show ?thesis using assms(1) match_char_type by fastforce
  qed
next
  assume "\<exists>alt \<in> set alts. \<exists>u v. w = u @ v \<and> derives rules alt u \<and> derives rules after v"
  then show "derives rules (e # after) w" using assms by (auto intro: d_ref)
qed

lemma derives_chr:
  assumes "pos \<noteq> []" "gtype (hd pos) \<in> {GRETYPE_CHAR, GRETYPE_CHAR_NOT}"
  shows "derives rules pos w \<longleftrightarrow>
    (\<exists>c after w'. w = c # w' \<and> match_char pos c = Some (True, after) \<and> derives rules after w')"
proof
  assume "derives rules pos w"
  then show "\<exists>c after w'. w = c # w' \<and> match_char pos c = Some (True, after) \<and> derives rules after w'"
    by cases (use assms in \<open>auto simp: at_end_def split: list.splits\<close>)
qed (auto intro: d_chr)

lemma stack_derives_push:
  "stack_derives rules (push pos below) w \<longleftrightarrow>
     (\<exists>u v. w = u @ v \<and> derives rules pos u \<and> stack_derives rules below v)"
  by (auto simp: push_def derives_end)

section \<open>Soundness and completeness of the stacks\<close>

lemma run_concat_Ret:
  "run_concat rs = Ret xs \<longleftrightarrow> (\<exists>yss. rs = map Ret yss \<and> xs = concat yss)"
proof (induction rs arbitrary: xs)
  case (Cons r rs)
  show ?case
  proof
    assume "run_concat (r # rs) = Ret xs"
    then obtain x y where "r = Ret x" "run_concat rs = Ret y" "xs = x @ y"
      by (cases r; cases "run_concat rs") auto
    moreover from this(2) obtain yss where "rs = map Ret yss" "y = concat yss" using Cons by blast
    ultimately have "r # rs = map Ret (x # yss) \<and> xs = concat (x # yss)" by simp
    then show "\<exists>yss. r # rs = map Ret yss \<and> xs = concat yss" by (rule exI [of _ "x # yss"])
  next
    assume "\<exists>yss. r # rs = map Ret yss \<and> xs = concat yss"
    then obtain ys yss where "r = Ret ys" "rs = map Ret yss" "xs = ys @ concat yss" by (auto simp: Cons_eq_map_conv)
    moreover from this(2) have "run_concat rs = Ret (concat yss)" using Cons by blast
    ultimately show "run_concat (r # rs) = Ret xs" by simp
  qed
qed auto

lemma run_concat_map_Ret:
  assumes "run_concat (map f xs) = Ret zs"
  shows "\<exists>g. (\<forall>x \<in> set xs. f x = Ret (g x)) \<and> zs = concat (map g xs)"
proof -
  define g where "g x = (case f x of Ret y \<Rightarrow> y | _ \<Rightarrow> [])" for x
  obtain yss where y: "map f xs = map Ret yss" "zs = concat yss"
    using assms by (auto simp: run_concat_Ret)
  then have len: "length yss = length xs" by (metis length_map)
  have e: "f (xs ! i) = Ret (yss ! i)" if "i < length xs" for i
    using y(1) that len by (metis nth_map)
  then have "map g xs = yss" using len by (intro nth_equalityI) (auto simp: g_def)
  moreover have "f x = Ret (g x)" if "x \<in> set xs" for x
    using e that by (auto simp: in_set_conv_nth g_def)
  ultimately show ?thesis using y(2) by blast
qed

lemma split_in_three:
  "(\<exists>u v. w = u @ v \<and> (\<exists>a \<in> A. \<exists>x y. u = x @ y \<and> P a x \<and> Q y) \<and> R v) \<longleftrightarrow>
   (\<exists>a \<in> A. \<exists>u v. w = u @ v \<and> P a u \<and> (\<exists>x y. v = x @ y \<and> Q x \<and> R y))" (is "?l \<longleftrightarrow> ?r")
proof
  assume ?l
  then obtain a x y v where "a \<in> A" "w = x @ (y @ v)" "P a x" "Q y" "R v" by auto
  then show ?r by blast
next
  assume ?r
  then obtain a u x y where "a \<in> A" "w = (u @ x) @ y" "P a u" "Q x" "R y" by auto
  then show ?l by blast
qed

lemma advance_stack_sound:
  "advance_stack n rules st = Ret ss \<Longrightarrow>
     (\<forall>w. stack_derives rules st w \<longleftrightarrow> some_derives rules ss w) \<and> (\<forall>s \<in> set ss. positioned s)"
proof (induction n rules st arbitrary: ss rule: advance_stack.induct)
  case (3 n rules e after below)
  show ?case
  proof (cases "gtype e = GRETYPE_RULE_REF")
    case ref: True
    obtain m where m: "n = Suc m" using "3.prems" ref by (cases n) auto
    obtain alts where a: "gvalue e < length rules" "after \<noteq> []" "alternates (rules ! gvalue e) = Some alts"
        "run_concat (map (\<lambda>sub. advance_stack m rules (push sub (push after below))) alts) = Ret ss"
      using "3.prems" ref m by (auto split: if_splits option.splits)
    obtain g where g: "\<And>sub. sub \<in> set alts \<Longrightarrow>
          advance_stack m rules (push sub (push after below)) = Ret (g sub)"
        "ss = concat (map g alts)"
      using run_concat_map_Ret [OF a(4)] by blast
    have IH: "(\<forall>w. stack_derives rules (push sub (push after below)) w \<longleftrightarrow> some_derives rules (g sub) w) \<and>
        (\<forall>s \<in> set (g sub). positioned s)" if "sub \<in> set alts" for sub
      using "3.IH" [OF ref m _ a(3) that g(1) [OF that]] a by blast
    have "stack_derives rules ((e # after) # below) w \<longleftrightarrow> some_derives rules ss w" for w
    proof -
      have "stack_derives rules ((e # after) # below) w \<longleftrightarrow>
          (\<exists>sub \<in> set alts. stack_derives rules (push sub (push after below)) w)"
        by (simp only: stack_derives.simps derives_ref [OF ref a(1,3)] stack_derives_push
            split_in_three)
      also have "\<dots> \<longleftrightarrow> (\<exists>sub \<in> set alts. some_derives rules (g sub) w)" using IH by blast
      also have "\<dots> \<longleftrightarrow> some_derives rules ss w" by (auto simp: some_derives_def g(2))
      finally show ?thesis .
    qed
    then show ?thesis using IH g(2) by auto
  next
    case False
    then have "ss = [(e # after) # below]" "gtype e \<in> {GRETYPE_CHAR, GRETYPE_CHAR_NOT}"
      using "3.prems" by (auto split: gretype.splits)
    then show ?thesis by (simp add: some_derives_def positioned_def)
  qed
qed (auto simp: some_derives_def positioned_def)

lemma accept_stack_sound:
  assumes "accept_stack n rules c st = Ret ss" and "positioned st"
  shows "(\<forall>w. stack_derives rules st (c # w) \<longleftrightarrow> some_derives rules ss w) \<and> (\<forall>s \<in> set ss. positioned s)"
proof (cases st)
  case Nil
  then show ?thesis using assms(1) by (simp add: accept_stack_def some_derives_def)
next
  case (Cons pos below)
  have pos: "pos \<noteq> []" "gtype (hd pos) \<in> {GRETYPE_CHAR, GRETYPE_CHAR_NOT}"
    using assms(2) Cons by (auto simp: positioned_def)
  have d: "stack_derives rules st (c # w) \<longleftrightarrow>
      (\<exists>after. match_char pos c = Some (True, after) \<and> stack_derives rules (push after below) w)"
    (is "?l w \<longleftrightarrow> ?r w") for w
  proof
    assume "?l w"
    then obtain after u v where "match_char pos c = Some (True, after)" "w = u @ v"
        "derives rules after u" "stack_derives rules below v"
      by (auto simp: Cons derives_chr [OF pos])
    then show "?r w" unfolding stack_derives_push by blast
  next
    assume "?r w"
    then obtain after u v where "match_char pos c = Some (True, after)" "c # w = (c # u) @ v"
        "derives rules after u" "stack_derives rules below v"
      by (auto simp: stack_derives_push)
    then show "?l w" unfolding Cons stack_derives.simps by (blast intro: d_chr)
  qed
  show ?thesis
  proof (cases "match_char pos c")
    case None
    then show ?thesis using assms(1) Cons by (simp add: accept_stack_def)
  next
    case (Some r)
    obtain ok after where r: "r = (ok, after)" by fastforce
    show ?thesis
    proof (cases ok)
      case True
      then have "advance_stack n rules (push after below) = Ret ss"
        using assms(1) Cons Some r by (simp add: accept_stack_def)
      then show ?thesis using advance_stack_sound d Some r True by simp
    next
      case False
      then show ?thesis using assms(1) Cons Some r d by (simp add: accept_stack_def some_derives_def)
    qed
  qed
qed

lemma grammar_accept_sound:
  assumes "grammar_accept n rules stacks c = Ret ss" and "\<forall>s \<in> set stacks. positioned s"
  shows "(\<forall>w. some_derives rules stacks (c # w) \<longleftrightarrow> some_derives rules ss w) \<and> (\<forall>s \<in> set ss. positioned s)"
proof -
  obtain g where g: "\<forall>st \<in> set stacks. accept_stack n rules c st = Ret (g st)"
      "ss = concat (map g stacks)"
    using run_concat_map_Ret [OF assms(1) [unfolded grammar_accept_def]] by blast
  have "(\<forall>w. stack_derives rules st (c # w) \<longleftrightarrow> some_derives rules (g st) w) \<and> (\<forall>s \<in> set (g st). positioned s)"
    if "st \<in> set stacks" for st
    using accept_stack_sound g(1) assms(2) that by blast
  then show ?thesis unfolding some_derives_def g(2) by auto
qed

lemma run_bind_Ret: "run_bind r f = Ret y \<longleftrightarrow> (\<exists>x. r = Ret x \<and> f x = Ret y)"
  by (cases r) auto

lemma accept_all_sound:
  "accept_all n rules stacks cs = Ret ss \<Longrightarrow> \<forall>s \<in> set stacks. positioned s \<Longrightarrow>
     (\<forall>w. some_derives rules stacks (cs @ w) \<longleftrightarrow> some_derives rules ss w) \<and> (\<forall>s \<in> set ss. positioned s)"
proof (induction cs arbitrary: stacks)
  case (Cons c cs)
  obtain ss1 where s1: "grammar_accept n rules stacks c = Ret ss1" "accept_all n rules ss1 cs = Ret ss"
    using Cons.prems(1) by (auto simp: run_bind_Ret)
  then show ?case using grammar_accept_sound [OF s1(1) Cons.prems(2)] Cons.IH [OF s1(2)] by simp
qed simp

lemma positioned_derives_empty: "positioned st \<Longrightarrow> stack_derives rules st [] \<longleftrightarrow> st = []"
proof (cases st)
  case (Cons pos below)
  assume "positioned st"
  then have "pos \<noteq> []" "gtype (hd pos) \<in> {GRETYPE_CHAR, GRETYPE_CHAR_NOT}"
    using Cons by (auto simp: positioned_def)
  then show ?thesis using Cons derives_chr [of pos rules "[]"] by simp
qed simp

lemma grammar_init_sound:
  assumes "grammar_init n rules i = Ret g"
  shows "\<exists>alts. alternates (rules ! i) = Some alts \<and> i < length rules \<and> g_rules g = map copy_rule rules \<and>
    (\<forall>w. some_derives (g_rules g) (g_stacks g) w \<longleftrightarrow> (\<exists>alt \<in> set alts. derives (g_rules g) alt w)) \<and>
    (\<forall>s \<in> set (g_stacks g). positioned s)"
proof -
  let ?vec = "map copy_rule rules"
  obtain alts where a: "i < length rules" "alternates (rules ! i) = Some alts"
    using assms by (auto simp: grammar_init_def Let_def split: if_splits option.splits)
  obtain ss where s: "run_concat (map (\<lambda>pos. advance_stack n ?vec (push pos [])) alts) = Ret ss"
      "g = \<lparr>g_rules = ?vec, g_stacks = ss, g_partial = \<lparr>p_value = 0, n_remain = 0\<rparr>\<rparr>"
    using assms a by (auto simp: grammar_init_def Let_def run_bind_Ret split: if_splits)
  obtain f where f: "\<forall>pos \<in> set alts. advance_stack n ?vec (push pos []) = Ret (f pos)"
      "ss = concat (map f alts)"
    using run_concat_map_Ret [OF s(1)] by blast
  have adv: "(\<forall>w. derives ?vec pos w \<longleftrightarrow> some_derives ?vec (f pos) w) \<and> (\<forall>s \<in> set (f pos). positioned s)"
    if "pos \<in> set alts" for pos
    using advance_stack_sound [of n ?vec "push pos []" "f pos"] f(1) that by (simp add: stack_derives_push)
  have "some_derives ?vec ss w \<longleftrightarrow> (\<exists>alt \<in> set alts. derives ?vec alt w)" for w
    using adv by (auto simp: some_derives_def f(2))
  then show ?thesis using a s adv f(2) by auto
qed

section \<open>Properties of recognition\<close>

text \<open>
  C11: the engine decides the language of the grammar.  After the start stacks have accepted a sequence
  of code points, the empty stack is among the stacks exactly if the start rule derives the
  sequence, and the remaining stacks derive exactly the continuations that the start rule allows.
\<close>

theorem engine_recognises:
  assumes "grammar_init n rules i = Ret g"
    and "accept_all m (g_rules g) (g_stacks g) cs = Ret stacks"
    and "alternates (rules ! i) = Some alts"
  shows "([] \<in> set stacks \<longleftrightarrow> (\<exists>alt \<in> set alts. derives (g_rules g) alt cs)) \<and>
    (\<forall>w. some_derives (g_rules g) stacks w \<longleftrightarrow> (\<exists>alt \<in> set alts. derives (g_rules g) alt (cs @ w)))"
proof -
  have init: "\<forall>w. some_derives (g_rules g) (g_stacks g) w \<longleftrightarrow> (\<exists>alt \<in> set alts. derives (g_rules g) alt w)"
      "\<forall>s \<in> set (g_stacks g). positioned s"
    using grammar_init_sound [OF assms(1)] assms(3) by auto
  have acc: "\<forall>w. some_derives (g_rules g) (g_stacks g) (cs @ w) \<longleftrightarrow> some_derives (g_rules g) stacks w"
      "\<forall>s \<in> set stacks. positioned s"
    using accept_all_sound [OF assms(2) init(2)] by auto
  have "some_derives (g_rules g) stacks [] \<longleftrightarrow> [] \<in> set stacks"
    using acc(2) positioned_derives_empty by (auto simp: some_derives_def)
  then show ?thesis using init(1) acc(1) by (metis append_Nil2)
qed

text \<open>\<open>root ::= "a" root | "b"\<close>\<close>

definition ab_rules :: "element list list" where
  "ab_rules = [[Elem GRETYPE_CHAR 97, Elem GRETYPE_RULE_REF 0, Elem GRETYPE_ALT 0,
     Elem GRETYPE_CHAR 98, Elem GRETYPE_END 0]]"

lemmas engine_eval = ab_rules_def alternates.simps copy_rule_def push_def at_end_def accept_stack_def
  grammar_accept_def match_char_def grammar_init_def

lemma ab_init:
  "grammar_init 5 ab_rules 0 = Ret \<lparr>g_rules = ab_rules, g_stacks = [[ab_rules ! 0], [drop 3 (ab_rules ! 0)]],
     g_partial = \<lparr>p_value = 0, n_remain = 0\<rparr>\<rparr>"
  by (simp add: engine_eval)

lemma ab_accept:
  "accept_all 5 ab_rules [[ab_rules ! 0], [drop 3 (ab_rules ! 0)]] [97, 97, 98] = Ret [[]]"
  by (simp add: engine_eval eval_nat_numeral)

theorem engine_recognises_witness:
  "\<exists>alts. alternates (ab_rules ! 0) = Some alts \<and> (\<exists>alt. alt \<in> set alts \<and> derives ab_rules alt [97, 97, 98])"
proof -
  obtain alts where a: "alternates (ab_rules ! 0) = Some alts" by (simp add: engine_eval)
  show ?thesis
    using engine_recognises [OF ab_init _ a, of 5 "[97, 97, 98]" "[[]]"] ab_accept a by auto
qed

end
