(* ===== verification/Grammar_Total.thy ===== *)
theory Grammar_Total
  imports Grammar_Engine
begin

text \<open>
  When the grammar engine is safe and returns: for a grammar in which every referenced rule is
  defined and no rule can reach itself before it reads a character, no operation reads outside a
  rule, no assertion fails and the recursion over the stacks ends.
\<close>

section \<open>Closed and ranked grammars\<close>

definition closed_rules :: "element list list \<Rightarrow> bool" where
  "closed_rules rules \<longleftrightarrow> (\<forall>r \<in> set rules. rule_ok (length rules) r)"

text \<open>The weight of the rule references that a position starts with.\<close>

fun lead :: "(nat \<Rightarrow> nat) \<Rightarrow> element list \<Rightarrow> nat" where
  "lead w [] = 0"
| "lead w (e # es) = (if gtype e = GRETYPE_RULE_REF then 1 + w (gvalue e) + lead w es else 0)"

text \<open>A weight of the rules that excludes left recursion.\<close>

definition ranked :: "(nat \<Rightarrow> nat) \<Rightarrow> element list list \<Rightarrow> bool" where
  "ranked w rules \<longleftrightarrow> (\<forall>i < length rules. case alternates (rules ! i) of None \<Rightarrow> True
     | Some alts \<Rightarrow> (\<forall>a \<in> set alts. lead w a \<le> w i))"

definition stack_ok :: "nat \<Rightarrow> stack \<Rightarrow> bool" where
  "stack_ok n st \<longleftrightarrow> (\<forall>p \<in> set st. rule_ok n p \<and> \<not> at_end p)"

definition stack_weight :: "(nat \<Rightarrow> nat) \<Rightarrow> stack \<Rightarrow> nat" where
  "stack_weight w st = sum_list (map (lead w) st)"

lemma rule_ok_Cons:
  assumes "rule_ok n (e # after)" and "\<not> at_end (e # after)"
  shows "gtype e \<in> {GRETYPE_CHAR, GRETYPE_CHAR_NOT, GRETYPE_RULE_REF} \<and>
    (gtype e = GRETYPE_RULE_REF \<longrightarrow> gvalue e < n) \<and>
    (\<exists>body. after = body @ [Elem GRETYPE_END 0] \<and> body_ok n (Some (gtype e)) body)"
proof -
  obtain body where b: "e # after = body @ [Elem GRETYPE_END 0]" "body_ok n None body"
    using assms(1) by (auto simp: rule_ok_def)
  show ?thesis
  proof (cases body)
    case Nil
    then show ?thesis using b assms(2) by (simp add: at_end_def)
  next
    case (Cons e' body')
    then have "follows None (gtype e)" "\<not> is_end_type (gtype e)" using b assms(2) by (auto simp: at_end_def)
    then show ?thesis using b Cons by (cases "gtype e") auto
  qed
qed

lemma body_ok_after:
  "body_ok n (Some t) body \<Longrightarrow> t = GRETYPE_ALT \<or> t = GRETYPE_RULE_REF \<Longrightarrow> body_ok n None body"
proof (cases body)
  case (Cons e es)
  assume a: "body_ok n (Some t) body" "t = GRETYPE_ALT \<or> t = GRETYPE_RULE_REF"
  then have "follows None (gtype e)" using Cons by (cases "gtype e") auto
  then show ?thesis using a Cons by simp
qed simp

lemma alternates_ok:
  "rule_ok n r \<Longrightarrow> \<exists>alts. alternates r = Some alts \<and> alts \<noteq> [] \<and> (\<forall>a \<in> set alts. rule_ok n a)"
proof (induction r rule: alternates.induct)
  case (1 r)
  obtain body where b: "r = body @ [Elem GRETYPE_END 0]" "body_ok n None body"
    using 1(2) by (auto simp: rule_ok_def)
  define P where "P = (\<lambda>e. \<not> is_end_type (gtype e))"
  have "dropWhile P (es @ [Elem GRETYPE_END 0]) = dropWhile P es @ [Elem GRETYPE_END 0]" for es
    by (induction es) (auto simp: P_def)
  then have drop: "dropWhile P r = dropWhile P body @ [Elem GRETYPE_END 0]" using b(1) by simp
  show ?case
  proof (cases "dropWhile P body")
    case Nil
    then have "dropWhile P r = [Elem GRETYPE_END 0]" by (simp only: drop append_Nil)
    then have "alternates r = Some [r]" by (subst alternates.simps) (simp add: P_def)
    then show ?thesis using 1(2) by simp
  next
    case (Cons e rest)
    have body: "body = takeWhile P body @ e # rest" using Cons by (metis takeWhile_dropWhile_id)
    have "\<not> P e" using Cons by (metis hd_dropWhile list.distinct(1) list.sel(1))
    have ok: "body_ok n (if takeWhile P body = [] then None else Some (gtype (last (takeWhile P body)))) (e # rest)"
      using b(2) body body_ok_append by metis
    then have "gtype e \<noteq> GRETYPE_END" by auto
    then have e: "gtype e = GRETYPE_ALT" using \<open>\<not> P e\<close> by (cases "gtype e") (auto simp: P_def)
    have "body_ok n None rest" using ok e body_ok_after [of n GRETYPE_ALT rest] by simp
    then have rest: "rule_ok n (rest @ [Elem GRETYPE_END 0])" by (auto simp: rule_ok_def)
    have d: "dropWhile (\<lambda>e. \<not> is_end_type (gtype e)) r = e # (rest @ [Elem GRETYPE_END 0])"
      using drop Cons by (simp add: P_def)
    obtain alts where "alternates (rest @ [Elem GRETYPE_END 0]) = Some alts" "\<forall>a \<in> set alts. rule_ok n a"
      using 1(1) [OF d e rest] by blast
    then have "alternates r = Some (r # alts)" "\<forall>a \<in> set (r # alts). rule_ok n a"
      using d e 1(2) by (simp_all add: alternates.simps [of r])
    then show ?thesis by blast
  qed
qed

lemma rule_ok_push: "stack_ok n below \<Longrightarrow> rule_ok n p \<Longrightarrow> stack_ok n (push p below)"
  by (simp add: push_def stack_ok_def)

lemma lead_at_end: "at_end p \<Longrightarrow> lead w p = 0"
  by (cases p) (auto simp: at_end_def)

lemma stack_weight_push: "stack_weight w (push p below) = lead w p + stack_weight w below"
  by (simp add: push_def stack_weight_def lead_at_end)

section \<open>Advancing returns\<close>

lemma run_concat_map_total:
  assumes "\<And>x. x \<in> set xs \<Longrightarrow> \<exists>y. f x = Ret y \<and> y \<noteq> [] \<and> (\<forall>s \<in> set y. P s)" and "xs \<noteq> []"
  shows "\<exists>ss. run_concat (map f xs) = Ret ss \<and> ss \<noteq> [] \<and> (\<forall>s \<in> set ss. P s)"
  using assms
proof (induction xs)
  case (Cons x xs)
  obtain y where y: "f x = Ret y" "y \<noteq> []" "\<forall>s \<in> set y. P s" using Cons.prems(1) by auto
  show ?case
  proof (cases "xs = []")
    case False
    then obtain ss where "run_concat (map f xs) = Ret ss" "\<forall>s \<in> set ss. P s" using Cons by auto
    then show ?thesis using y by auto
  qed (use y in simp)
qed simp

lemma advance_stack_total:
  "closed_rules rules \<Longrightarrow> ranked w rules \<Longrightarrow> stack_ok (length rules) st \<Longrightarrow> stack_weight w st \<le> n \<Longrightarrow>
    \<exists>ss. advance_stack n rules st = Ret ss \<and> ss \<noteq> [] \<and> (\<forall>s \<in> set ss. stack_ok (length rules) s)"
proof (induction n rules st rule: advance_stack.induct)
  case (2 n rules below)
  then show ?case by (simp add: stack_ok_def rule_ok_def)
next
  case (3 n rules e after below)
  have e: "rule_ok (length rules) (e # after)" "\<not> at_end (e # after)" "stack_ok (length rules) below"
    using "3.prems"(3) by (simp_all add: stack_ok_def)
  show ?case
  proof (cases "gtype e = GRETYPE_RULE_REF")
    case ref: True
    obtain m where m: "n = Suc m" using "3.prems"(4) ref by (cases n) (auto simp: stack_weight_def)
    obtain body where b: "gvalue e < length rules" "after = body @ [Elem GRETYPE_END 0]"
        "body_ok (length rules) (Some GRETYPE_RULE_REF) body"
      using rule_ok_Cons [OF e(1,2)] ref by auto
    then have after: "rule_ok (length rules) after" "after \<noteq> []"
      using body_ok_after [of "length rules" GRETYPE_RULE_REF body] by (auto simp: rule_ok_def)
    have "rule_ok (length rules) (rules ! gvalue e)" using nth_mem [OF b(1)] "3.prems"(1) unfolding closed_rules_def by blast
    then obtain alts where a: "alternates (rules ! gvalue e) = Some alts" "alts \<noteq> []"
        "\<forall>a \<in> set alts. rule_ok (length rules) a"
      using alternates_ok by blast
    have w: "lead w sub \<le> w (gvalue e)" if "sub \<in> set alts" for sub
      using "3.prems"(2) b(1) a(1) that by (auto simp: ranked_def split: option.splits)
    have adv: "\<exists>y. advance_stack m rules (push sub (push after below)) = Ret y \<and> y \<noteq> [] \<and>
        (\<forall>s \<in> set y. stack_ok (length rules) s)" if sub: "sub \<in> set alts" for sub
    proof -
      have "stack_ok (length rules) (push sub (push after below))"
        using a(3) sub after e(3) by (simp add: rule_ok_push)
      moreover have "stack_weight w (push sub (push after below)) \<le> m"
        using w [OF sub] "3.prems"(4) m ref by (simp add: stack_weight_push) (simp add: stack_weight_def)
      ultimately show ?thesis using "3.IH" [OF ref m _ a(1) sub "3.prems"(1,2)] b(1) after(2) by blast
    qed
    from run_concat_map_total [of alts "\<lambda>sub. advance_stack m rules (push sub (push after below))"
        "stack_ok (length rules)", OF adv a(2)]
    show ?thesis using ref m b(1) after(2) a(1) by simp
  next
    case False
    then show ?thesis using rule_ok_Cons [OF e(1,2)] "3.prems" by auto
  qed
qed (simp add: stack_ok_def)

section \<open>Matching returns\<close>

lemma class_loop_ok:
  assumes "gtype e \<notin> {GRETYPE_CHAR_RNG_UPPER, GRETYPE_RULE_REF, GRETYPE_ALT, GRETYPE_END}"
    and "body_ok n (Some (gtype e)) body"
  shows "\<exists>found p. class_loop test f (e # body @ [Elem GRETYPE_END 0]) = Some (found, p) \<and> rule_ok n p"
  using assms
proof (induction "length body" arbitrary: e body f rule: less_induct)
  case less
  let ?stop = "Elem GRETYPE_END 0"
  show ?case
  proof (cases body)
    case Nil
    have "rule_ok n [?stop]" by (simp add: rule_ok_def)
    then show ?thesis using Nil by simp
  next
    case (Cons e1 es)
    have b1: "follows (Some (gtype e)) (gtype e1)" "body_ok n (Some (gtype e1)) es"
        "gtype e1 = GRETYPE_RULE_REF \<longrightarrow> gvalue e1 < n"
      using less.prems(2) Cons by auto
    show ?thesis
    proof (cases "gtype e1 = GRETYPE_CHAR_RNG_UPPER")
      case rng: True
      show ?thesis
      proof (cases es)
        case Nil
        have "rule_ok n [?stop]" by (simp add: rule_ok_def)
        then show ?thesis using Cons Nil rng by simp
      next
        case es: (Cons e2 es2)
        have b2: "follows (Some GRETYPE_CHAR_RNG_UPPER) (gtype e2)" "body_ok n (Some (gtype e2)) es2"
            "gtype e2 = GRETYPE_RULE_REF \<longrightarrow> gvalue e2 < n"
          using b1(2) es rng by auto
        show ?thesis
        proof (cases "gtype e2 = GRETYPE_CHAR_ALT")
          case True
          have "\<exists>found p. class_loop test g (e2 # es2 @ [?stop]) = Some (found, p) \<and> rule_ok n p" for g
            using less.hyps [of es2 e2 g] Cons es True b2(2) by simp
          then show ?thesis using Cons es rng True by simp
        next
          case False
          have "follows None (gtype e2)" using b2(1) False by (cases "gtype e2") auto
          then have "rule_ok n (es @ [?stop])" using b2 es by (auto simp: rule_ok_def)
          then show ?thesis using Cons es rng False by simp
        qed
      qed
    next
      case not_rng: False
      show ?thesis
      proof (cases "gtype e1 = GRETYPE_CHAR_ALT")
        case True
        have "\<exists>found p. class_loop test g (e1 # es @ [?stop]) = Some (found, p) \<and> rule_ok n p" for g
          using less.hyps [of es e1 g] Cons True b1(2) by simp
        then show ?thesis using Cons not_rng True by simp
      next
        case False
        have "follows None (gtype e1)" using b1(1) False not_rng by (cases "gtype e1") auto
        then have "rule_ok n (body @ [?stop])" using b1 Cons by (auto simp: rule_ok_def)
        then show ?thesis using Cons not_rng False by simp
      qed
    qed
  qed
qed

lemma match_char_ok:
  assumes "rule_ok n pos" and "\<not> at_end pos" and "gtype (hd pos) \<in> {GRETYPE_CHAR, GRETYPE_CHAR_NOT}"
  shows "\<exists>ok p. match_char pos c = Some (ok, p) \<and> rule_ok n p"
proof -
  obtain e after where pos: "pos = e # after" using assms(1) by (cases pos) (auto simp: rule_ok_def)
  obtain body where b: "after = body @ [Elem GRETYPE_END 0]" "body_ok n (Some (gtype e)) body"
    using rule_ok_Cons assms(1,2) pos by blast
  have t: "gtype e \<in> {GRETYPE_CHAR, GRETYPE_CHAR_NOT}" using assms(3) pos by simp
  then have "gtype e \<notin> {GRETYPE_CHAR_RNG_UPPER, GRETYPE_RULE_REF, GRETYPE_ALT, GRETYPE_END}" by auto
  from class_loop_ok [OF this b(2), of "\<lambda>lo hi. lo \<le> c \<and> c \<le> hi" False]
  show ?thesis using t b(1) pos by (auto simp: match_char_def Let_def)
qed

section \<open>Accepting returns\<close>

lemma advance_stack_mono:
  "advance_stack n rules st = Ret ss \<Longrightarrow> n \<le> m \<Longrightarrow> advance_stack m rules st = Ret ss"
proof (induction n rules st arbitrary: ss m rule: advance_stack.induct)
  case (3 n rules e after below)
  show ?case
  proof (cases "gtype e = GRETYPE_RULE_REF")
    case ref: True
    obtain k where k: "n = Suc k" using "3.prems" ref by (cases n) auto
    obtain l where l: "m = Suc l" "k \<le> l" using "3.prems"(2) k by (cases m) auto
    obtain alts where a: "gvalue e < length rules" "after \<noteq> []" "alternates (rules ! gvalue e) = Some alts"
        "run_concat (map (\<lambda>sub. advance_stack k rules (push sub (push after below))) alts) = Ret ss"
      using "3.prems"(1) ref k by (auto split: if_splits option.splits)
    obtain g where g: "\<And>sub. sub \<in> set alts \<Longrightarrow>
          advance_stack k rules (push sub (push after below)) = Ret (g sub)"
        "ss = concat (map g alts)"
      using run_concat_map_Ret [OF a(4)] by blast
    have "advance_stack l rules (push sub (push after below)) = Ret (g sub)" if "sub \<in> set alts" for sub
      using "3.IH" [OF ref k _ a(3) that g(1) [OF that] l(2)] a by blast
    then have eq: "map (\<lambda>sub. advance_stack l rules (push sub (push after below))) alts =
        map (\<lambda>sub. advance_stack k rules (push sub (push after below))) alts"
      using g(1) by simp
    then have "run_concat (map (\<lambda>sub. advance_stack l rules (push sub (push after below))) alts) = Ret ss"
      by (simp only: eq a(4))
    then show ?thesis using ref l(1) a(1-3) by simp
  next
    case False
    then show ?thesis using "3.prems"(1) by (auto split: gretype.splits)
  qed
qed auto

lemma accept_stack_mono:
  "accept_stack n rules c st = Ret ss \<Longrightarrow> n \<le> m \<Longrightarrow> accept_stack m rules c st = Ret ss"
  by (auto simp: accept_stack_def intro: advance_stack_mono split: list.splits option.splits bool.splits)

lemma grammar_accept_mono:
  assumes "grammar_accept n rules stacks c = Ret ss" and "n \<le> m"
  shows "grammar_accept m rules stacks c = Ret ss"
proof -
  obtain g where g: "\<forall>st \<in> set stacks. accept_stack n rules c st = Ret (g st)"
    using run_concat_map_Ret assms(1) unfolding grammar_accept_def by blast
  then have eq: "map (accept_stack m rules c) stacks = map (accept_stack n rules c) stacks"
    using accept_stack_mono assms(2) by (intro map_cong refl) metis
  show ?thesis using assms(1) by (simp only: grammar_accept_def eq)
qed

lemma accept_all_mono:
  "accept_all n rules stacks cs = Ret ss \<Longrightarrow> n \<le> m \<Longrightarrow> accept_all m rules stacks cs = Ret ss"
proof (induction cs arbitrary: stacks)
  case (Cons c cs)
  obtain ss1 where s1: "grammar_accept n rules stacks c = Ret ss1" "accept_all n rules ss1 cs = Ret ss"
    using Cons.prems(1) by (auto simp: run_bind_Ret)
  show ?case
    using grammar_accept_mono [OF s1(1) Cons.prems(2)] Cons.IH [OF s1(2) Cons.prems(2)] by simp
qed simp

definition engine_ok :: "element list list \<Rightarrow> stack list \<Rightarrow> bool" where
  "engine_ok rules stacks \<longleftrightarrow> (\<forall>st \<in> set stacks. stack_ok (length rules) st \<and> positioned st)"

lemma accept_stack_total:
  assumes "closed_rules rules" and "ranked w rules" and "stack_ok (length rules) st" and "positioned st"
  shows "\<exists>n ss. accept_stack n rules c st = Ret ss \<and> engine_ok rules ss"
proof (cases st)
  case Nil
  then show ?thesis by (simp add: accept_stack_def engine_ok_def)
next
  case (Cons pos below)
  have pos: "rule_ok (length rules) pos" "\<not> at_end pos" "gtype (hd pos) \<in> {GRETYPE_CHAR, GRETYPE_CHAR_NOT}"
      "stack_ok (length rules) below"
    using assms(3,4) Cons by (auto simp: stack_ok_def positioned_def)
  obtain ok p where m: "match_char pos c = Some (ok, p)" "rule_ok (length rules) p"
    using match_char_ok [OF pos(1-3)] by blast
  show ?thesis
  proof (cases ok)
    case True
    have "stack_ok (length rules) (push p below)" using pos(4) m(2) by (rule rule_ok_push)
    then obtain ss where ss: "advance_stack (stack_weight w (push p below)) rules (push p below) = Ret ss"
        "\<forall>s \<in> set ss. stack_ok (length rules) s"
      using advance_stack_total [OF assms(1,2)] by blast
    then have "engine_ok rules ss" using advance_stack_sound by (auto simp: engine_ok_def)
    then show ?thesis using ss(1) Cons m(1) True by (auto simp: accept_stack_def)
  next
    case False
    then show ?thesis using Cons m(1) by (auto simp: accept_stack_def engine_ok_def)
  qed
qed

lemma grammar_accept_total:
  assumes "closed_rules rules" and "ranked w rules" and "engine_ok rules stacks"
  shows "\<exists>n ss. grammar_accept n rules stacks c = Ret ss \<and> engine_ok rules ss"
  using assms(3)
proof (induction stacks)
  case Nil
  then show ?case by (simp add: grammar_accept_def engine_ok_def)
next
  case (Cons st stacks)
  obtain n1 s1 where n1: "accept_stack n1 rules c st = Ret s1" "engine_ok rules s1"
    using accept_stack_total [OF assms(1,2), of st c] Cons.prems by (auto simp: engine_ok_def)
  obtain n2 s2 where n2: "grammar_accept n2 rules stacks c = Ret s2" "engine_ok rules s2"
    using Cons by (auto simp: engine_ok_def)
  let ?n = "max n1 n2"
  have "accept_stack ?n rules c st = Ret s1" "grammar_accept ?n rules stacks c = Ret s2"
    using accept_stack_mono [OF n1(1)] grammar_accept_mono [OF n2(1)] by simp_all
  then have "grammar_accept ?n rules (st # stacks) c = Ret (s1 @ s2)"
    by (simp add: grammar_accept_def)
  moreover have "engine_ok rules (s1 @ s2)" using n1(2) n2(2) by (auto simp: engine_ok_def)
  ultimately show ?case by blast
qed

section \<open>Properties\<close>

text \<open>
  C13: on a grammar whose references are all defined and that has no left recursion, accepting any
  sequence of code points returns: enough depth gives the same stacks for ever, no element outside
  a rule is read and no assertion fails.
\<close>

theorem engine_total:
  assumes "closed_rules rules" and "ranked w rules" and "engine_ok rules stacks"
  shows "\<exists>n ss. engine_ok rules ss \<and> (\<forall>m \<ge> n. accept_all m rules stacks cs = Ret ss)"
proof -
  have "\<exists>n ss. accept_all n rules stacks cs = Ret ss \<and> engine_ok rules ss"
    using assms(3)
  proof (induction cs arbitrary: stacks)
    case (Cons c cs)
    obtain n1 s1 where n1: "grammar_accept n1 rules stacks c = Ret s1" "engine_ok rules s1"
      using grammar_accept_total [OF assms(1,2) Cons.prems] by blast
    obtain n2 s2 where n2: "accept_all n2 rules s1 cs = Ret s2" "engine_ok rules s2"
      using Cons.IH [OF n1(2)] by blast
    let ?n = "max n1 n2"
    have "grammar_accept ?n rules stacks c = Ret s1" "accept_all ?n rules s1 cs = Ret s2"
      using grammar_accept_mono [OF n1(1)] accept_all_mono [OF n2(1)] by simp_all
    then have "accept_all ?n rules stacks (c # cs) = Ret s2" by simp
    then show ?case using n2(2) by blast
  qed auto
  then show ?thesis using accept_all_mono by blast
qed

theorem engine_total_witness:
  "\<exists>n ss. accept_all n ab_rules [[ab_rules ! 0]] [97, 98, 99] = Ret ss"
proof -
  have c: "closed_rules ab_rules"
    unfolding closed_rules_def rule_ok_def ab_rules_def
    by (simp add: exI [of _ "[Elem GRETYPE_CHAR 97, Elem GRETYPE_RULE_REF 0, Elem GRETYPE_ALT 0, Elem GRETYPE_CHAR 98]"])
  have r: "ranked (\<lambda>_. 0) ab_rules" by (simp add: ranked_def engine_eval)
  have e: "engine_ok ab_rules [[ab_rules ! 0]]"
    using c by (simp add: engine_ok_def stack_ok_def positioned_def closed_rules_def ab_rules_def at_end_def)
  show ?thesis using engine_total [OF c r e] by blast
qed

text \<open>
  C42: on a left-recursive grammar no depth is enough: \<open>root ::= root "a"\<close>, whose recursion has no end.
\<close>

definition left_rules :: "element list list" where
  "left_rules = [[Elem GRETYPE_RULE_REF 0, Elem GRETYPE_CHAR 97, Elem GRETYPE_END 0]]"

theorem left_recursion_diverges:
  "grammar_init n left_rules 0 = No_Fuel"
proof -
  have alts: "alternates (left_rules ! 0) = Some [left_rules ! 0]"
    by (simp add: left_rules_def alternates.simps)
  have "advance_stack n left_rules (left_rules ! 0 # below) = No_Fuel" for below
  proof (induction n arbitrary: below)
    case 0
    then show ?case by (simp add: left_rules_def)
  next
    case (Suc n)
    have "push (left_rules ! 0) st = left_rules ! 0 # st" for st
      by (simp add: push_def at_end_def left_rules_def)
    then have "advance_stack (Suc n) left_rules (left_rules ! 0 # below) =
        run_concat [advance_stack n left_rules (left_rules ! 0 # push (tl (left_rules ! 0)) below)]"
      using alts by (simp add: left_rules_def)
    then show ?case using Suc by simp
  qed
  moreover have "map copy_rule left_rules = left_rules" by (simp add: left_rules_def copy_rule_def)
  moreover have "push (left_rules ! 0) [] = [left_rules ! 0]"
    by (simp add: push_def at_end_def left_rules_def)
  ultimately show ?thesis
    using alts by (simp add: grammar_init_def) (simp add: left_rules_def)
qed

end
