(* ===== verification/Grammar_Reject.thy ===== *)
theory Grammar_Reject
  imports Grammar_Total
begin

text \<open>
  The rejection of candidate tokens in \<open>src/src/whisper.cpp\<close>, which walks all candidates through the
  stacks at once, against its specification for one candidate; and the incremental decoder against
  decoding in one piece.
\<close>

section \<open>One candidate\<close>

text \<open>Whether one stack allows the code points and then the bytes of an incomplete character.\<close>

fun viable :: "nat \<Rightarrow> element list list \<Rightarrow> partial_utf8 \<Rightarrow> nat list \<Rightarrow> stack \<Rightarrow> bool" where
  "viable k rules p [] st = (case st of [] \<Rightarrow> n_remain p = 0
     | pos # below \<Rightarrow> n_remain p = 0 \<or> match_partial_char pos p = Some True)"
| "viable k rules p (c # cs) st = (case st of [] \<Rightarrow> False
     | pos # below \<Rightarrow> (\<exists>after ss. match_char pos c = Some (True, after) \<and>
          advance_stack k rules (push after below) = Ret ss \<and> (\<exists>s \<in> set ss. viable k rules p cs s)))"

text \<open>The code points that a candidate has still to match, and that they are zero-terminated.\<close>

definition c_rest :: "candidate \<Rightarrow> nat list" where
  "c_rest tok = takeWhile (\<lambda>c. c \<noteq> 0) (drop (c_at tok) (c_code_points tok))"

definition c_ok :: "candidate \<Rightarrow> bool" where
  "c_ok tok \<longleftrightarrow> 0 \<in> set (drop (c_at tok) (c_code_points tok))"

abbreviation c_viable :: "nat \<Rightarrow> element list list \<Rightarrow> stack \<Rightarrow> candidate \<Rightarrow> bool" where
  "c_viable k rules st tok \<equiv> viable k rules (c_partial tok) (c_rest tok) st"

definition c_next :: "candidate \<Rightarrow> candidate" where
  "c_next tok = tok\<lparr>c_at := c_at tok + 1\<rparr>"

lemma c_drop: "c_ok tok \<Longrightarrow> drop (c_at tok) (c_code_points tok) = c_here tok # drop (Suc (c_at tok)) (c_code_points tok)"
proof -
  assume "c_ok tok"
  then have "c_at tok < length (c_code_points tok)"
    by (metis c_ok_def drop_all leI list.set(1) empty_iff)
  then show ?thesis by (simp add: c_here_def Cons_nth_drop_Suc)
qed

lemma c_rest_0: "c_ok tok \<Longrightarrow> c_here tok = 0 \<Longrightarrow> c_rest tok = []"
  by (simp add: c_rest_def c_drop)

lemma c_rest_Cons: "c_ok tok \<Longrightarrow> c_here tok \<noteq> 0 \<Longrightarrow> c_rest tok = c_here tok # c_rest (c_next tok)"
  by (simp add: c_rest_def c_drop c_next_def)

lemma c_ok_next: "c_ok tok \<Longrightarrow> c_here tok \<noteq> 0 \<Longrightarrow> c_ok (c_next tok)"
  using c_drop [of tok] by (auto simp: c_ok_def c_next_def)

lemma c_next_back: "(c_next tok)\<lparr>c_at := c_at (c_next tok) - 1\<rparr> = tok"
  by (simp add: c_next_def)

section \<open>The position after a class does not depend on the character\<close>

lemma class_loop_pos:
  "class_loop t f pos = Some (b, p) \<Longrightarrow> class_loop t' f' pos = Some (b', p') \<Longrightarrow> p = p'"
proof (induction t f pos arbitrary: f' rule: class_loop.induct)
  case (1 t f e e1 es)
  then show ?case by (auto simp: Let_def split: if_splits list.splits)
qed auto

lemma match_char_pos: "match_char pos c = Some (b, p) \<Longrightarrow> match_char pos c' = Some (b', p') \<Longrightarrow> p = p'"
  by (auto simp: match_char_def Let_def split: list.splits if_splits option.splits dest: class_loop_pos)

lemma alternates_nonempty: "alternates r = Some alts \<Longrightarrow> alts \<noteq> []"
  by (subst (asm) alternates.simps) (auto split: list.splits if_splits)

lemma advance_nonempty: "advance_stack n rules st = Ret ss \<Longrightarrow> ss \<noteq> []"
proof (induction n rules st arbitrary: ss rule: advance_stack.induct)
  case (3 n rules e after below)
  show ?case
  proof (cases "gtype e = GRETYPE_RULE_REF")
    case ref: True
    obtain m where m: "n = Suc m" using "3.prems" ref by (cases n) auto
    obtain alts where a: "gvalue e < length rules" "after \<noteq> []" "alternates (rules ! gvalue e) = Some alts"
        "run_concat (map (\<lambda>sub. advance_stack m rules (push sub (push after below))) alts) = Ret ss"
      using "3.prems" ref m by (auto split: if_splits option.splits)
    obtain g where g: "\<And>sub. sub \<in> set alts \<Longrightarrow>
          advance_stack m rules (push sub (push after below)) = Ret (g sub)"
        "ss = concat (map g alts)"
      using run_concat_map_Ret [OF a(4)] by blast
    have hd: "hd alts \<in> set alts" using alternates_nonempty [OF a(3)] by simp
    have "g (hd alts) \<noteq> []" using "3.IH" [OF ref m _ a(3) hd g(1) [OF hd]] a by blast
    then show ?thesis using g(2) hd by auto
  qed (use "3.prems" in \<open>auto split: gretype.splits\<close>)
qed auto

section \<open>All candidates at once\<close>

lemma split_candidates_sets:
  "split_candidates pos toks = Some (rejects, nexts) \<Longrightarrow>
     set rejects = {t \<in> set toks. if c_here t = 0 then
         n_remain (c_partial t) \<noteq> 0 \<and> match_partial_char pos (c_partial t) \<noteq> Some True
       else fst (the (match_char pos (c_here t))) = False} \<and>
     set nexts = c_next ` {t \<in> set toks. c_here t \<noteq> 0 \<and> fst (the (match_char pos (c_here t)))} \<and>
     (\<forall>t \<in> set toks. c_here t \<noteq> 0 \<longrightarrow> match_char pos (c_here t) \<noteq> None)"
proof (induction toks arbitrary: rejects nexts)
  case (Cons tok toks)
  obtain rs ns where s: "split_candidates pos toks = Some (rs, ns)"
    using Cons.prems by (auto split: option.splits)
  note IH = Cons.IH [OF s]
  show ?case
  proof (cases "c_here tok = 0")
    case True
    then show ?thesis using Cons.prems s IH by (auto split: option.splits if_splits)
  next
    case False
    obtain b p where m: "match_char pos (c_here tok) = Some (b, p)"
      using Cons.prems s False by (auto split: option.splits)
    have e: "tok\<lparr>c_at := Suc (c_at tok)\<rparr> = c_next tok" by (simp add: c_next_def)
    show ?thesis
    proof (cases b)
      case True
      then have "rejects = rs" "nexts = c_next tok # ns" using Cons.prems s m False e by auto
      moreover have "{t \<in> set (tok # toks). c_here t \<noteq> 0 \<and> fst (the (match_char pos (c_here t)))} =
          insert tok {t \<in> set toks. c_here t \<noteq> 0 \<and> fst (the (match_char pos (c_here t)))}"
        using m False True by auto
      ultimately show ?thesis using IH m False True by auto
    next
      case b: False
      then have "rejects = tok # rs" "nexts = ns" using Cons.prems s m False by auto
      then show ?thesis using IH m False b by auto
    qed
  qed
qed simp

text \<open>What a loop over stacks does, when each turn filters the candidates.\<close>

lemma foldl_filters:
  assumes "foldl (\<lambda>r st. run_bind r (f st)) (Ret cs) sts = Ret rs"
    and "\<And>st cs rs. st \<in> set sts \<Longrightarrow> \<forall>t \<in> set cs. c_ok t \<Longrightarrow> f st cs = Ret rs \<Longrightarrow>
           set rs = {t \<in> set cs. \<not> P st t}"
    and "\<forall>t \<in> set cs. c_ok t"
  shows "set rs = {t \<in> set cs. \<forall>st \<in> set sts. \<not> P st t}"
  using assms
proof (induction sts arbitrary: cs)
  case (Cons st sts)
  have stuck: "foldl (\<lambda>r st. run_bind r (f st)) Undef sts = Undef"
      "foldl (\<lambda>r st. run_bind r (f st)) No_Fuel sts = No_Fuel" for sts
    by (induction sts) auto
  obtain cs1 where c: "f st cs = Ret cs1" "foldl (\<lambda>r st. run_bind r (f st)) (Ret cs1) sts = Ret rs"
    using Cons.prems(1) stuck by (cases "f st cs") auto
  have s: "set cs1 = {t \<in> set cs. \<not> P st t}" using Cons.prems(2) [OF _ Cons.prems(3) c(1)] by simp
  have "set rs = {t \<in> set cs1. \<forall>st \<in> set sts. \<not> P st t}"
  proof (rule Cons.IH [OF c(2)])
    show "\<forall>t \<in> set cs1. c_ok t" using s Cons.prems(3) by auto
  qed (use Cons.prems(2) in auto)
  then show ?case using s by auto
qed simp

lemma reject_for_stack_sound:
  "reject_for_stack k n rules st cs = Ret rs \<Longrightarrow> \<forall>t \<in> set cs. c_ok t \<Longrightarrow>
     set rs = {t \<in> set cs. \<not> c_viable k rules st t}"
proof (induction n arbitrary: st cs rs)
  case 0
  show ?case
  proof (cases st)
    case Nil
    have "c_viable k rules [] t \<longleftrightarrow> c_here t = 0 \<and> n_remain (c_partial t) = 0" if "t \<in> set cs" for t
      using 0(2) that by (cases "c_here t = 0") (auto simp: c_rest_0 c_rest_Cons)
    then show ?thesis using 0(1) Nil by auto
  qed (use 0 in simp)
next
  case (Suc n)
  show ?case
  proof (cases st)
    case Nil
    have "c_viable k rules [] t \<longleftrightarrow> c_here t = 0 \<and> n_remain (c_partial t) = 0" if "t \<in> set cs" for t
      using Suc.prems(2) that by (cases "c_here t = 0") (auto simp: c_rest_0 c_rest_Cons)
    then show ?thesis using Suc.prems(1) Nil by auto
  next
    case (Cons pos below)
    let ?loop = "\<lambda>cs sts. foldl (\<lambda>r st. run_bind r (\<lambda>cs. reject_for_stack k n rules st cs)) (Ret cs) sts"
    obtain rej nexts where s: "split_candidates pos cs = Some (rej, nexts)"
      using Suc.prems(1) Cons by (auto split: option.splits)
    obtain b after where m0: "match_char pos 0 = Some (b, after)"
      using Suc.prems(1) Cons s by (auto split: option.splits)
    obtain ss where a: "advance_stack k rules (push after below) = Ret ss"
      using Suc.prems(1) Cons s m0 by (auto simp: run_bind_Ret)
    obtain nrs where n: "(if nexts = [] \<or> ss = [] then Ret [] else ?loop nexts ss) = Ret nrs"
        "rs = rej @ map (\<lambda>tok. tok\<lparr>c_at := c_at tok - 1\<rparr>) nrs"
      using Suc.prems(1) Cons s m0 a by (auto simp: run_bind_Ret)
    note sets = split_candidates_sets [OF s]
    have nexts_ok: "\<forall>t \<in> set nexts. c_ok t" using sets Suc.prems(2) c_ok_next by auto
    have nrs: "set nrs = {t \<in> set nexts. \<forall>s \<in> set ss. \<not> c_viable k rules s t}"
    proof (cases "nexts = []")
      case False
      then have "?loop nexts ss = Ret nrs" using n(1) advance_nonempty [OF a] by simp
      then show ?thesis by (rule foldl_filters) (use Suc.IH nexts_ok in auto)
    qed (use n(1) in simp)
    have viable: "c_viable k rules st t \<longleftrightarrow>
        (if c_here t = 0 then n_remain (c_partial t) = 0 \<or> match_partial_char pos (c_partial t) = Some True
         else fst (the (match_char pos (c_here t))) \<and> (\<exists>s \<in> set ss. c_viable k rules s (c_next t)))"
      if t: "t \<in> set cs" for t
    proof (cases "c_here t = 0")
      case True
      then show ?thesis using Suc.prems(2) t Cons by (simp add: c_rest_0)
    next
      case False
      obtain b' p' where m: "match_char pos (c_here t) = Some (b', p')" using sets t False by fastforce
      then have "p' = after" using match_char_pos m0 by blast
      then show ?thesis using False Suc.prems(2) t Cons m a
        by (simp add: c_rest_Cons) (auto simp: c_next_def)
    qed
    define A where "A = {t \<in> set cs. c_here t \<noteq> 0 \<and> fst (the (match_char pos (c_here t))) \<and>
           (\<forall>s \<in> set ss. \<not> c_viable k rules s (c_next t))}"
    have "set nrs = c_next ` A" unfolding nrs A_def using sets by auto
    then have "set (map (\<lambda>tok. tok\<lparr>c_at := c_at tok - 1\<rparr>) nrs) = A"
      by (simp only: set_map image_image c_next_back image_ident)
    then have "set rs = set rej \<union> A" using n(2) by simp
    then have mem: "t \<in> set rs \<longleftrightarrow> t \<in> set rej \<or> t \<in> A" for t by simp
    have "t \<in> set rs \<longleftrightarrow> t \<in> set cs \<and> \<not> c_viable k rules st t" for t
    proof (cases "t \<in> set cs")
      case True
      then show ?thesis using mem [of t] viable [OF True] sets
        by (cases "c_here t = 0") (simp_all add: A_def)
    next
      case False
      then show ?thesis using mem [of t] sets by (simp add: A_def)
    qed
    then show ?thesis by auto
  qed
qed

section \<open>Rejection against acceptance\<close>

lemma viable_accept:
  "accept_all k rules stacks cs = Ret ss \<Longrightarrow> n_remain p = 0 \<Longrightarrow>
     (\<exists>st \<in> set stacks. viable k rules p cs st) \<longleftrightarrow> ss \<noteq> []"
proof (induction cs arbitrary: stacks)
  case Nil
  then show ?case by (cases stacks) (auto split: list.splits)
next
  case (Cons c cs)
  obtain ss1 where s1: "grammar_accept k rules stacks c = Ret ss1" "accept_all k rules ss1 cs = Ret ss"
    using Cons.prems(1) by (auto simp: run_bind_Ret)
  obtain g where g: "\<forall>st \<in> set stacks. accept_stack k rules c st = Ret (g st)" "ss1 = concat (map g stacks)"
    using run_concat_map_Ret [OF s1(1) [unfolded grammar_accept_def]] by blast
  have "viable k rules p (c # cs) st \<longleftrightarrow> (\<exists>s \<in> set (g st). viable k rules p cs s)"
    if "st \<in> set stacks" for st
  proof (cases st)
    case Nil
    then have "g st = []" using g(1) that by (auto simp: accept_stack_def)
    then show ?thesis using Nil by simp
  next
    case (Cons pos below)
    have a: "accept_stack k rules c st = Ret (g st)" using g(1) that by blast
    then obtain ok after where m: "match_char pos c = Some (ok, after)"
      using Cons by (auto simp: accept_stack_def split: option.splits)
    show ?thesis using a Cons m by (cases ok) (auto simp: accept_stack_def)
  qed
  then have "(\<exists>st \<in> set stacks. viable k rules p (c # cs) st) \<longleftrightarrow> (\<exists>s \<in> set ss1. viable k rules p cs s)"
    using g(2) by auto
  then show ?case using Cons.IH [OF s1(2) Cons.prems(2)] by simp
qed

section \<open>Properties\<close>

text \<open>
  C12: walking all candidates through the stacks together rejects exactly the candidates that no stack
  allows on its own, whatever other candidates there are; a candidate that ends with a whole
  character is rejected exactly if accepting its code points would leave no stack.
\<close>

theorem reject_candidates_exact:
  assumes "reject_candidates k n rules stacks cands = Ret rejects" and "stacks \<noteq> []"
    and "\<forall>t \<in> set cands. 0 \<in> set (drop (c_at t) (c_code_points t))"
  shows "set rejects = {t \<in> set cands. \<forall>st \<in> set stacks. \<not> viable k rules (c_partial t) (c_rest t) st} \<and>
    (\<forall>t ss. t \<in> set cands \<and> n_remain (c_partial t) = 0 \<and> accept_all k rules stacks (c_rest t) = Ret ss \<longrightarrow>
       (t \<in> set rejects \<longleftrightarrow> ss = []))"
proof -
  have ok: "\<forall>t \<in> set cands. c_ok t" using assms(3) by (simp add: c_ok_def)
  have r: "set rejects = {t \<in> set cands. \<forall>st \<in> set stacks. \<not> c_viable k rules st t}"
  proof (cases "cands = []")
    case False
    then have "foldl (\<lambda>r st. run_bind r (\<lambda>cs. reject_for_stack k n rules st cs)) (Ret cands) stacks = Ret rejects"
      using assms(1,2) by (simp add: reject_candidates_def)
    then show ?thesis by (rule foldl_filters) (use reject_for_stack_sound ok in auto)
  qed (use assms(1) in \<open>simp add: reject_candidates_def\<close>)
  moreover have "t \<in> set rejects \<longleftrightarrow> ss = []"
    if "t \<in> set cands" "n_remain (c_partial t) = 0" "accept_all k rules stacks (c_rest t) = Ret ss" for t ss
    using r viable_accept [OF that(3,2)] that(1) by auto
  ultimately show ?thesis by blast
qed

definition ab_candidate :: "nat list \<Rightarrow> candidate" where
  "ab_candidate cps = \<lparr>c_id = 0, c_code_points = cps @ [0], c_at = 0,
     c_partial = \<lparr>p_value = 0, n_remain = 0\<rparr>\<rparr>"

theorem reject_candidates_exact_witness:
  "\<exists>rejects. reject_candidates 5 5 ab_rules [[ab_rules ! 0], [drop 3 (ab_rules ! 0)]]
      [ab_candidate [97, 97], ab_candidate [98, 97], ab_candidate [99]] = Ret rejects \<and>
    ab_candidate [98, 97] \<in> set rejects \<and> ab_candidate [97, 97] \<notin> set rejects"
proof -
  let ?stacks = "[[ab_rules ! 0], [drop 3 (ab_rules ! 0)]]"
  let ?cands = "[ab_candidate [97, 97], ab_candidate [98, 97], ab_candidate [99]]"
  have r: "reject_candidates 5 5 ab_rules ?stacks ?cands = Ret [ab_candidate [99], ab_candidate [98, 97]]"
    by (simp add: reject_candidates_def ab_candidate_def engine_eval c_here_def eval_nat_numeral)
  have ok: "\<forall>t \<in> set ?cands. 0 \<in> set (drop (c_at t) (c_code_points t))" by (simp add: ab_candidate_def)
  have acc: "accept_all 5 ab_rules ?stacks (c_rest (ab_candidate [98, 97])) = Ret []"
    by (simp add: c_rest_def ab_candidate_def engine_eval eval_nat_numeral)
  define rs where "rs = [ab_candidate [99], ab_candidate [98, 97]]"
  have "\<forall>t ss. t \<in> set ?cands \<and> n_remain (c_partial t) = 0 \<and>
      accept_all 5 ab_rules ?stacks (c_rest t) = Ret ss \<longrightarrow> (t \<in> set rs \<longleftrightarrow> ss = [])"
    using reject_candidates_exact [OF r _ ok] unfolding rs_def by blast
  then have "ab_candidate [98, 97] \<in> set rs" using acc by (simp add: ab_candidate_def)
  moreover have "ab_candidate [97, 97] \<notin> set rs" by (simp add: rs_def ab_candidate_def)
  moreover have "reject_candidates 5 5 ab_rules ?stacks ?cands = Ret rs" using r by (simp add: rs_def)
  ultimately show ?thesis using r by blast
qed

end
