(* ===== verification/Grammar_Decode.thy ===== *)
theory Grammar_Decode
  imports Grammar_Engine
begin

text \<open>
  The incremental UTF-8 decoder of \<open>src/src/whisper.cpp\<close>: tokens may be cut in the middle of a character,
  and decoding them one after the other is decoding their concatenation.
\<close>

lemma utf8_tail_append:
  "utf8_tail v n s = (v', n', s') \<Longrightarrow>
     utf8_tail v n (s @ t) = (if n' = 0 then (v', 0, s' @ t) else utf8_tail v' n' t) \<and> (n' \<noteq> 0 \<longrightarrow> s' = [])"
proof (induction v n s rule: utf8_tail.induct)
  case (1 v n c pos)
  then show ?case by simp
qed auto

lemma utf8_tail_0: "utf8_tail v 0 s = (v, 0, s)"
  by (cases s) auto

lemma utf8_continue_valid:
  "utf8_continue v n s = Some (v', n', s') \<Longrightarrow> utf8_tail v n s = (v', n', s')"
  by (induction v n s rule: utf8_continue.induct) (auto split: if_splits)

lemma utf8_continue_0: "utf8_continue v 0 s = Some (v, 0, s)"
  by (cases s) auto

lemma utf8_continue_append:
  "utf8_continue v n s = Some (v', n', s') \<Longrightarrow>
     utf8_continue v n (s @ t) = (if n' = 0 then Some (v', 0, s' @ t) else utf8_continue v' n' t) \<and>
     (n' \<noteq> 0 \<longrightarrow> s' = [])"
  by (induction v n s rule: utf8_continue.induct) (auto simp: utf8_continue_0 split: if_splits)

text \<open>What is decoded when more bytes arrive behind the state \<open>p\<close>.\<close>

definition resume :: "nat list \<Rightarrow> partial_utf8 \<Rightarrow> string \<Rightarrow> nat list \<times> partial_utf8" where
  "resume cps p t =
     (if n_remain p = 0 then utf8_rest cps (p_value p) 0 t
      else case utf8_tail (p_value p) (nat (n_remain p)) t of
        (v, left, t') \<Rightarrow> utf8_rest (if left = 0 then cps @ [v] else cps) v (int left) t')"

lemma utf8_rest_append:
  "utf8_rest acc v r s = (cps @ [0], p) \<Longrightarrow> n_remain p \<ge> 0 \<Longrightarrow> s \<noteq> [] \<or> r = 0 \<Longrightarrow>
     utf8_rest acc v r (s @ t) = resume cps p t"
proof (induction acc v r s arbitrary: cps rule: utf8_rest.induct)
  case (1 acc v r)
  then show ?case by (auto simp: resume_def)
next
  case (2 acc v r c pos)
  define k where "k = utf8_lookup (byte_of c div 16) - 1"
  have k: "\<not> k < 0" using "2.prems" by (auto simp: k_def Let_def)
  have step: "utf8_rest acc' v r (c # pos') =
      (case utf8_tail (byte_of c mod 2 ^ nat (7 - k)) (nat k) pos' of (value, left, pos') \<Rightarrow>
         utf8_rest (if left = 0 then acc' @ [value] else acc') value (int left) pos')" for acc' pos'
    using k unfolding k_def by (simp add: Let_def)
  obtain v1 l1 s1 where tail: "utf8_tail (byte_of c mod 2 ^ nat (7 - k)) (nat k) pos = (v1, l1, s1)"
    by (metis prod_cases3)
  define acc1 where "acc1 = (if l1 = 0 then acc @ [v1] else acc)"
  have r1: "utf8_rest acc1 v1 (int l1) s1 = (cps @ [0], p)"
    using "2.prems"(1) tail by (simp add: step acc1_def del: utf8_rest.simps)
  note app = utf8_tail_append [OF tail, of t]
  show ?case
  proof (cases "l1 = 0")
    case True
    have "utf8_rest acc1 v1 (int l1) (s1 @ t) = resume cps p t"
      using "2.IH" [OF refl k_def k tail [symmetric] refl] k r1 "2.prems"(2) True
      by (simp add: acc1_def k_def)
    then show ?thesis using app True by (simp add: step acc1_def del: utf8_rest.simps)
  next
    case False
    then have s1: "s1 = []" "cps = acc" "p = \<lparr>p_value = v1, n_remain = int l1\<rparr>"
      using app r1 by (auto simp: acc1_def)
    then show ?thesis using app False
      by (simp add: step resume_def del: utf8_rest.simps)
  qed
qed

lemma decode_partial_resume:
  assumes "n_remain p \<ge> 0" and "utf8_continue (p_value p) (nat (n_remain p)) t \<noteq> None"
    and "decode_partial t p = (cps2, q)"
  shows "resume [] p t = (cps2, q)"
proof -
  obtain v l t' where c: "utf8_continue (p_value p) (nat (n_remain p)) t = Some (v, l, t')"
    using assms(2) by auto
  have "utf8_tail (p_value p) (nat (n_remain p)) t = (v, l, t')" using utf8_continue_valid [OF c] .
  then show ?thesis using assms(1,3) c
    by (auto simp: decode_partial_def resume_def utf8_tail_0 split: if_splits)
qed

lemma utf8_rest_acc:
  "utf8_rest acc v r s = (cps, q) \<Longrightarrow> n_remain q \<ge> 0 \<Longrightarrow> utf8_rest (pre @ acc) v r s = (pre @ cps, q)"
proof (induction acc v r s rule: utf8_rest.induct)
  case (2 acc v r c pos)
  define k where "k = utf8_lookup (byte_of c div 16) - 1"
  have k: "\<not> k < 0" using "2.prems" by (auto simp: k_def Let_def)
  have step: "utf8_rest acc' v r (c # pos') =
      (case utf8_tail (byte_of c mod 2 ^ nat (7 - k)) (nat k) pos' of (value, left, pos') \<Rightarrow>
         utf8_rest (if left = 0 then acc' @ [value] else acc') value (int left) pos')" for acc' pos'
    using k unfolding k_def by (simp add: Let_def)
  obtain v1 l1 s1 where tail: "utf8_tail (byte_of c mod 2 ^ nat (7 - k)) (nat k) pos = (v1, l1, s1)"
    by (metis prod_cases3)
  show ?case
    using "2.prems" k tail "2.IH" [OF refl k_def k tail [symmetric] refl]
    by (auto simp: step split: if_splits simp del: utf8_rest.simps)
qed simp

lemma resume_acc:
  "resume [] p t = (cps, q) \<Longrightarrow> n_remain q \<ge> 0 \<Longrightarrow> resume pre p t = (pre @ cps, q)"
  using utf8_rest_acc [of "[]" _ _ _ cps q pre] utf8_rest_acc [of "[x]" _ _ _ cps q pre for x]
  by (auto simp: resume_def split: prod.splits if_splits)

section \<open>Property\<close>

text \<open>
  Decoding a text in two pieces, the second from the state that the first left, yields the code
  points and the final state of decoding it whole, wherever it is cut; provided that the pieces
  are valid (the decoder did not abort).
\<close>

theorem decode_in_pieces:
  assumes "decode_partial s p0 = (cps1 @ [0], p1)" and "n_remain p1 \<ge> 0"
    and "decode_partial t p1 = (cps2 @ [0], p2)" and "n_remain p2 \<ge> 0"
    and "n_remain p0 \<ge> 0"
  shows "decode_partial (s @ t) p0 = (cps1 @ cps2 @ [0], p2)"
proof -
  obtain v l s' where c: "utf8_continue (p_value p0) (nat (n_remain p0)) s = Some (v, l, s')"
    using assms(1,2) by (cases "utf8_continue (p_value p0) (nat (n_remain p0)) s")
      (auto simp: decode_partial_def)
  define acc where "acc = (if n_remain p0 > 0 \<and> l = 0 then [v] else [])"
  have rest: "utf8_rest acc v (if n_remain p0 > 0 then int l else n_remain p0) s' = (cps1 @ [0], p1)"
    using assms(1) c by (simp add: decode_partial_def acc_def)
  have t_ok: "utf8_continue (p_value p1) (nat (n_remain p1)) t \<noteq> None"
    using assms(3,4) by (auto simp: decode_partial_def split: option.splits)
  have res: "resume cps1 p1 t = (cps1 @ cps2 @ [0], p2)"
    using resume_acc [OF decode_partial_resume [OF assms(2) t_ok assms(3)] assms(4), of cps1] by simp
  show ?thesis
  proof (cases "l = 0")
    case True
    have z: "(if n_remain p0 > 0 then int l else n_remain p0) = 0" using True assms(5) by simp
    have "utf8_continue (p_value p0) (nat (n_remain p0)) (s @ t) = Some (v, 0, s' @ t)"
      using utf8_continue_append [OF c, of t] True by simp
    moreover have "utf8_rest acc v 0 (s' @ t) = resume cps1 p1 t"
      using utf8_rest_append [OF rest [unfolded z] assms(2)] by simp
    ultimately show ?thesis using res True assms(5)
      by (cases "n_remain p0 = 0") (simp_all add: decode_partial_def acc_def)
  next
    case False
    then have "s' = []" "n_remain p0 > 0" using utf8_continue_append [OF c, of t] assms(5)
      utf8_continue_0 c by (cases "n_remain p0 = 0"; auto)+
    then have p1: "cps1 = []" "p1 = \<lparr>p_value = v, n_remain = int l\<rparr>"
      using rest False by (auto simp: acc_def)
    have "decode_partial (s @ t) p0 = decode_partial t p1"
      using utf8_continue_append [OF c, of t] False \<open>n_remain p0 > 0\<close> p1
      by (simp add: decode_partial_def split: option.split)
    then show ?thesis using assms(3) p1(1) by simp
  qed
qed

text \<open>An e-acute in front of an x, cut between its two bytes.\<close>

theorem decode_in_pieces_witness:
  "decode_partial [CHR 0xC3, CHR 0xA9, CHR ''x''] \<lparr>p_value = 0, n_remain = 0\<rparr> =
     ([233, 120, 0], \<lparr>p_value = 120, n_remain = 0\<rparr>)"
proof -
  have a: "decode_partial [CHR 0xC3] \<lparr>p_value = 0, n_remain = 0\<rparr> = ([] @ [0], \<lparr>p_value = 3, n_remain = 1\<rparr>)"
    by (simp add: decode_partial_def utf8_lookup_def byte_of_def)
  have b: "decode_partial [CHR 0xA9, CHR ''x''] \<lparr>p_value = 3, n_remain = 1\<rparr> =
      ([233, 120] @ [0], \<lparr>p_value = 120, n_remain = 0\<rparr>)"
    by (simp add: decode_partial_def utf8_lookup_def byte_of_def)
  show ?thesis using decode_in_pieces [OF a _ b] by simp
qed

end

