(* ===== verification/Grammar_System.thy ===== *)
theory Grammar_System
  imports Grammar_Print Grammar_Reject Grammar_Decode
begin

text \<open>
  The grammar parser and the grammar engine together: which parsed grammars the engine runs safely,
  what happens when a rule is referenced but never defined, and what the rules that the parser
  synthesises for a repetition derive.
\<close>

section \<open>Parsed grammars in the engine\<close>

lemma parsed_closed:
  assumes "[] \<notin> set (rules (parse_grammar src))"
    and "length (rules (parse_grammar src)) = length (symbol_ids (parse_grammar src))"
  shows "closed_rules (rules (parse_grammar src))"
  using gp_inv_parse [of src] assms by (auto simp: gp_inv_def rules_ok_def closed_rules_def)

section \<open>Concatenation of bodies\<close>

abbreviation the_end :: element where
  "the_end \<equiv> Elem GRETYPE_END 0"

definition no_modifier :: "element list \<Rightarrow> bool" where
  "no_modifier ys \<longleftrightarrow> (\<exists>y ys'. ys = y # ys' \<and> gtype y \<notin> {GRETYPE_CHAR_ALT, GRETYPE_CHAR_RNG_UPPER})"

lemma class_loop_append:
  "class_loop t f (xs @ [the_end]) = Some (b, p) \<Longrightarrow> xs \<noteq> [] \<Longrightarrow> no_modifier ys \<Longrightarrow>
     \<exists>xs'. p = xs' @ [the_end] \<and> length xs' < length xs \<and> (\<exists>pre. xs = pre @ xs') \<and>
       class_loop t f (xs @ ys) = Some (b, xs' @ ys)"
proof (induction "length xs" arbitrary: xs f rule: less_induct)
  case less
  obtain e zs where xs: "xs = e # zs" using less.prems(2) by (cases xs) auto
  obtain y ys' where ys: "ys = y # ys'" "gtype y \<notin> {GRETYPE_CHAR_ALT, GRETYPE_CHAR_RNG_UPPER}"
    using less.prems(3) by (auto simp: no_modifier_def)
  show ?case
  proof (cases zs)
    case Nil
    then show ?thesis using less.prems(1) xs ys by auto
  next
    case (Cons e1 es)
    show ?thesis
    proof (cases "gtype e1 = GRETYPE_CHAR_RNG_UPPER")
      case rng: True
      show ?thesis
      proof (cases es)
        case Nil
        then show ?thesis using less.prems(1) xs ys Cons rng by auto
      next
        case es: (Cons e2 es2)
        let ?f = "f \<or> t (gvalue e) (gvalue e1)"
        show ?thesis
        proof (cases "gtype e2 = GRETYPE_CHAR_ALT")
          case True
          have "class_loop t ?f (es @ [the_end]) = Some (b, p)"
            using less.prems(1) xs Cons rng es True by simp
          moreover have "length es < length xs" "es \<noteq> []" using xs Cons es by auto
          ultimately obtain xs' pre where
            "p = xs' @ [the_end]" "length xs' < length es" "es = pre @ xs'"
            "class_loop t ?f (es @ ys) = Some (b, xs' @ ys)"
            using less.hyps [of es ?f] less.prems(3) by blast
          moreover from this(3) have "xs = (e # e1 # pre) @ xs'" using xs Cons by simp
          moreover have "class_loop t f (xs @ ys) = class_loop t ?f (es @ ys)"
            using xs Cons rng es True by simp
          moreover have "length es < length xs" using xs Cons by simp
          ultimately show ?thesis by (metis less_trans)
        next
          case False
          then show ?thesis using less.prems(1) xs Cons rng es by auto
        qed
      qed
    next
      case not_rng: False
      let ?f = "f \<or> t (gvalue e) (gvalue e)"
      show ?thesis
      proof (cases "gtype e1 = GRETYPE_CHAR_ALT")
        case True
        have "class_loop t ?f (zs @ [the_end]) = Some (b, p)"
          using less.prems(1) xs Cons not_rng True by simp
        moreover have "length zs < length xs" "zs \<noteq> []" using xs Cons by auto
        ultimately obtain xs' pre where
          "p = xs' @ [the_end]" "length xs' < length zs" "zs = pre @ xs'"
          "class_loop t ?f (zs @ ys) = Some (b, xs' @ ys)"
          using less.hyps [of zs ?f] less.prems(3) by blast
        moreover from this(3) have "xs = (e # pre) @ xs'" using xs by simp
        moreover have "class_loop t f (xs @ ys) = class_loop t ?f (zs @ ys)"
          using xs Cons not_rng True by simp
        moreover have "length zs < length xs" using xs by simp
        ultimately show ?thesis by (metis less_trans)
      next
        case False
        then show ?thesis using less.prems(1) xs Cons not_rng by auto
      qed
    qed
  qed
qed

lemma match_char_append:
  assumes "match_char (xs @ [the_end]) c = Some (b, p)" and "xs \<noteq> []" and "no_modifier ys"
  shows "\<exists>xs'. p = xs' @ [the_end] \<and> length xs' < length xs \<and> (\<exists>pre. xs = pre @ xs') \<and>
       match_char (xs @ ys) c = Some (b, xs' @ ys)"
proof -
  obtain e es where xs: "xs = e # es" using assms(2) by (cases xs) auto
  obtain f where f: "class_loop (\<lambda>lo hi. lo \<le> c \<and> c \<le> hi) False (xs @ [the_end]) = Some (f, p)"
      "b = (f = (gtype e = GRETYPE_CHAR))" "gtype e = GRETYPE_CHAR \<or> gtype e = GRETYPE_CHAR_NOT"
    using assms(1) xs by (auto simp: match_char_def Let_def split: if_splits option.splits)
  from class_loop_append [OF f(1) assms(2,3)] show ?thesis
    using f(2,3) xs by (auto simp: match_char_def Let_def)
qed

text \<open>A body without alternates, all of whose positions the engine can stand on.\<close>

definition plain_body :: "nat \<Rightarrow> element list \<Rightarrow> bool" where
  "plain_body n xs \<longleftrightarrow> body_ok n None xs \<and> GRETYPE_ALT \<notin> gtype ` set xs"

lemma rule_ok_snoc: "rule_ok n (xs @ [the_end]) \<longleftrightarrow> body_ok n None xs"
  by (auto simp: rule_ok_def)

lemma derives_append:
  assumes "closed_rules rs" and "plain_body (length rs) xs" and "no_modifier ys"
  shows "derives rs (xs @ ys) w \<longleftrightarrow>
    (\<exists>u v. w = u @ v \<and> derives rs (xs @ [the_end]) u \<and> derives rs ys v)"
  using assms(2)
proof (induction "length xs" arbitrary: xs w rule: less_induct)
  case less
  let ?n = "length rs"
  show ?case
  proof (cases xs)
    case Nil
    then show ?thesis by (simp add: derives_end at_end_def)
  next
    case (Cons e es)
    have ok: "rule_ok ?n (xs @ [the_end])" using less.prems by (simp add: rule_ok_snoc plain_body_def)
    have "\<not> at_end (xs @ [the_end])" using less.prems Cons
      by (cases "gtype e") (auto simp: plain_body_def at_end_def)
    then have e: "gtype e \<in> {GRETYPE_CHAR, GRETYPE_CHAR_NOT, GRETYPE_RULE_REF}"
        "gtype e = GRETYPE_RULE_REF \<Longrightarrow> gvalue e < ?n" "body_ok ?n (Some (gtype e)) es"
      using rule_ok_Cons [of ?n e "es @ [the_end]"] ok Cons by auto
    show ?thesis
    proof (cases "gtype e = GRETYPE_RULE_REF")
      case ref: True
      have "rule_ok ?n (rs ! gvalue e)"
        using assms(1) nth_mem [OF e(2) [OF ref]] unfolding closed_rules_def by blast
      then obtain alts where a: "alternates (rs ! gvalue e) = Some alts" using alternates_ok by blast
      have "plain_body ?n es"
        using less.prems Cons e(3) ref body_ok_after [of ?n GRETYPE_RULE_REF es] by (auto simp: plain_body_def)
      then have IH: "derives rs (es @ ys) w \<longleftrightarrow>
          (\<exists>u v. w = u @ v \<and> derives rs (es @ [the_end]) u \<and> derives rs ys v)" for w
        using less.hyps Cons by simp
      show ?thesis
        unfolding Cons append_Cons derives_ref [OF ref e(2) [OF ref] a] IH
        using split_in_three [of w "set alts" "derives rs" "derives rs (es @ [the_end])" "derives rs ys"]
        by simp
    next
      case False
      then have t: "xs @ zs \<noteq> []" "gtype (hd (xs @ zs)) \<in> {GRETYPE_CHAR, GRETYPE_CHAR_NOT}" for zs
        using e(1) Cons by auto
      have ne: "xs \<noteq> []" using Cons by simp
      have m: "\<exists>b xs'. match_char (xs @ [the_end]) c = Some (b, xs' @ [the_end]) \<and>
          match_char (xs @ ys) c = Some (b, xs' @ ys) \<and> length xs' < length xs \<and> plain_body ?n xs'" for c
      proof -
        obtain b p where mc: "match_char (xs @ [the_end]) c = Some (b, p)" "rule_ok ?n p"
          using match_char_ok [OF ok \<open>\<not> at_end (xs @ [the_end])\<close> t(2)] by blast
        obtain xs' pre where x: "p = xs' @ [the_end]" "length xs' < length xs" "xs = pre @ xs'"
            "match_char (xs @ ys) c = Some (b, xs' @ ys)"
          using match_char_append [OF mc(1) ne assms(3)] by blast
        have "plain_body ?n xs'" using mc(2) x(1,3) less.prems by (auto simp: plain_body_def rule_ok_snoc)
        then show ?thesis using mc(1) x by blast
      qed
      show ?thesis
      proof
        assume "derives rs (xs @ ys) w"
        then obtain c after w' where d: "w = c # w'" "match_char (xs @ ys) c = Some (True, after)"
            "derives rs after w'"
          using derives_chr [OF t] by blast
        obtain xs' where x: "match_char (xs @ [the_end]) c = Some (True, xs' @ [the_end])"
            "after = xs' @ ys" "length xs' < length xs" "plain_body ?n xs'"
          using m [of c] d(2) by auto
        obtain u v where "w' = u @ v" "derives rs (xs' @ [the_end]) u" "derives rs ys v"
          using less.hyps [OF x(3,4), of w'] d(3) x(2) by auto
        then show "\<exists>u v. w = u @ v \<and> derives rs (xs @ [the_end]) u \<and> derives rs ys v"
          using d(1) x(1) d_chr by (metis append_Cons)
      next
        assume "\<exists>u v. w = u @ v \<and> derives rs (xs @ [the_end]) u \<and> derives rs ys v"
        then obtain u v where uv: "w = u @ v" "derives rs (xs @ [the_end]) u" "derives rs ys v" by blast
        then obtain c after w' where d: "u = c # w'" "match_char (xs @ [the_end]) c = Some (True, after)"
            "derives rs after w'"
          using derives_chr [OF t] by blast
        obtain xs' where x: "match_char (xs @ ys) c = Some (True, xs' @ ys)"
            "after = xs' @ [the_end]" "length xs' < length xs" "plain_body ?n xs'"
          using m [of c] d(2) by auto
        have "derives rs (xs' @ ys) (w' @ v)" using less.hyps [OF x(3,4)] d(3) x(2) uv(3) by blast
        then show "derives rs (xs @ ys) w" using d_chr [OF x(1)] uv(1) d(1) by simp
      qed
    qed
  qed
qed

section \<open>What a repetition derives\<close>

definition rule_derives :: "element list list \<Rightarrow> nat \<Rightarrow> nat list \<Rightarrow> bool" where
  "rule_derives rs i w \<longleftrightarrow> (\<exists>alts. alternates (rs ! i) = Some alts \<and> (\<exists>alt \<in> set alts. derives rs alt w))"

abbreviation body_derives :: "element list list \<Rightarrow> element list \<Rightarrow> nat list \<Rightarrow> bool" where
  "body_derives rs symb w \<equiv> derives rs (symb @ [the_end]) w"

lemma dropWhile_plain:
  "plain_body n xs \<Longrightarrow> is_end_type (gtype y) \<Longrightarrow>
     dropWhile (\<lambda>e. \<not> is_end_type (gtype e)) (xs @ y # ys) = y # ys"
proof -
  assume p: "plain_body n xs" and y: "is_end_type (gtype y)"
  have "\<not> is_end_type (gtype e)" if "e \<in> set xs" for e
  proof -
    have "body_ok n q zs \<Longrightarrow> e \<in> set zs \<Longrightarrow> gtype e \<noteq> GRETYPE_END" for q zs
      by (induction zs arbitrary: q) auto
    then have "gtype e \<noteq> GRETYPE_END" using p that by (auto simp: plain_body_def)
    moreover have "gtype e \<noteq> GRETYPE_ALT" using p that unfolding plain_body_def by (metis imageI)
    ultimately show ?thesis by (cases "gtype e") auto
  qed
  then show ?thesis using y by (simp add: dropWhile_append2)
qed

lemma alternates_two:
  assumes "plain_body n xs" and "plain_body n ys"
  shows "alternates (xs @ Elem GRETYPE_ALT 0 # ys @ [the_end]) =
    Some [xs @ Elem GRETYPE_ALT 0 # ys @ [the_end], ys @ [the_end]]"
proof -
  have "alternates (ys @ [the_end]) = Some [ys @ [the_end]]"
    using dropWhile_plain [OF assms(2), of the_end "[]"] by (subst alternates.simps) simp
  then show ?thesis
    using dropWhile_plain [OF assms(1), of "Elem GRETYPE_ALT 0" "ys @ [the_end]"]
    by (subst alternates.simps) simp
qed

lemma derives_upto_alt:
  assumes "closed_rules rs" and "plain_body (length rs) xs"
  shows "derives rs (xs @ Elem GRETYPE_ALT 0 # ys) w \<longleftrightarrow> body_derives rs xs w"
  using derives_append [OF assms, of "Elem GRETYPE_ALT 0 # ys" w]
  by (simp add: no_modifier_def derives_end at_end_def)

lemma derives_ref_end:
  assumes "i < length rs" and "alternates (rs ! i) = Some alts"
  shows "body_derives rs [Elem GRETYPE_RULE_REF i] w \<longleftrightarrow> rule_derives rs i w"
  using derives_ref [of "Elem GRETYPE_RULE_REF i" rs alts "[the_end]" w] assms
  by (simp add: rule_derives_def derives_end at_end_def)

lemma repeat_unfold:
  assumes rs: "closed_rules rs" and sym: "plain_body (length rs) symb" and i: "i < length rs"
    and rule: "rs ! i = repeat_rule c i symb"
  shows "rule_derives rs i w \<longleftrightarrow>
    (if c = CHR ''*'' \<or> c = CHR ''+''
     then (\<exists>u v. w = u @ v \<and> body_derives rs symb u \<and> rule_derives rs i v)
     else body_derives rs symb w) \<or>
    (if c = CHR ''+'' then body_derives rs symb w else w = [])"
proof -
  define rec where "rec = (if c = CHR ''*'' \<or> c = CHR ''+'' then [Elem GRETYPE_RULE_REF i] else [])"
  define once where "once = (if c = CHR ''+'' then symb else [])"
  have plain: "plain_body (length rs) (symb @ rec)" "plain_body (length rs) once"
    using sym i by (auto simp: plain_body_def rec_def once_def body_ok_append)
  have rule': "rs ! i = (symb @ rec) @ Elem GRETYPE_ALT 0 # once @ [the_end]"
    using rule by (simp add: repeat_rule_def rec_def once_def)
  have alts: "alternates (rs ! i) = Some [(symb @ rec) @ Elem GRETYPE_ALT 0 # once @ [the_end], once @ [the_end]]"
    unfolding rule' by (rule alternates_two [OF plain])
  have "rule_derives rs i w \<longleftrightarrow> body_derives rs (symb @ rec) w \<or> body_derives rs once w"
    using alts derives_upto_alt [OF rs plain(1)] by (simp add: rule_derives_def)
  moreover have "body_derives rs (symb @ rec) w \<longleftrightarrow>
      (if c = CHR ''*'' \<or> c = CHR ''+''
       then (\<exists>u v. w = u @ v \<and> body_derives rs symb u \<and> rule_derives rs i v) else body_derives rs symb w)"
    using derives_append [OF rs sym, of "[Elem GRETYPE_RULE_REF i, the_end]" w] derives_ref_end [OF i alts]
    by (simp add: rec_def no_modifier_def)
  moreover have "body_derives rs once w \<longleftrightarrow> (if c = CHR ''+'' then body_derives rs symb w else w = [])"
    by (simp add: once_def derives_end at_end_def)
  ultimately show ?thesis by simp
qed

section \<open>Properties\<close>

text \<open>
  The rule that the parser synthesises for a star derives exactly the concatenations of any number
  of words of the repeated symbol (one that does not derive the empty word).
\<close>

theorem star_rule_language:
  assumes "closed_rules rs" and "plain_body (length rs) symb" and "i < length rs"
    and "rs ! i = repeat_rule (CHR ''*'') i symb" and "\<not> body_derives rs symb []"
  shows "rule_derives rs i w \<longleftrightarrow> (\<exists>ws. w = concat ws \<and> (\<forall>u \<in> set ws. body_derives rs symb u))"
proof -
  have unfold: "rule_derives rs i w \<longleftrightarrow>
      (\<exists>u v. w = u @ v \<and> body_derives rs symb u \<and> rule_derives rs i v) \<or> w = []" for w
    using repeat_unfold [OF assms(1-4), of w] by simp
  show ?thesis
  proof (induction "length w" arbitrary: w rule: less_induct)
    case less
    show ?case
    proof
      assume "rule_derives rs i w"
      then consider u v where "w = u @ v" "body_derives rs symb u" "rule_derives rs i v" | "w = []"
        using unfold by blast
      then show "\<exists>ws. w = concat ws \<and> (\<forall>u \<in> set ws. body_derives rs symb u)"
      proof cases
        case 1
        then have "u \<noteq> []" using assms(5) by auto
        then have "length v < length w" using 1(1) by simp
        from less [OF this] obtain ws where "v = concat ws" "\<forall>u \<in> set ws. body_derives rs symb u"
          using 1(3) by blast
        then have "w = concat (u # ws) \<and> (\<forall>x \<in> set (u # ws). body_derives rs symb x)" using 1 by simp
        then show ?thesis by blast
      qed (auto intro: exI [of _ "[]"])
    next
      assume "\<exists>ws. w = concat ws \<and> (\<forall>u \<in> set ws. body_derives rs symb u)"
      then obtain ws where ws: "w = concat ws" "\<forall>u \<in> set ws. body_derives rs symb u" by blast
      show "rule_derives rs i w"
      proof (cases ws)
        case Nil
        then have "w = []" using ws(1) by simp
        then show ?thesis using unfold by blast
      next
        case (Cons u us)
        then have u: "u \<noteq> []" "w = u @ concat us" "body_derives rs symb u" using ws assms(5) by auto
        then have "length (concat us) < length w" by simp
        moreover have "\<forall>x \<in> set us. body_derives rs symb x" using ws(2) Cons by simp
        ultimately have "rule_derives rs i (concat us)" using less by blast
        then show ?thesis using unfold u(2,3) by blast
      qed
    qed
  qed
qed

text \<open>The rule of \<open>"a"*\<close>.\<close>

definition a_star :: "element list list" where
  "a_star = [repeat_rule (CHR ''*'') 0 [Elem GRETYPE_CHAR 97]]"

theorem star_rule_language_witness: "rule_derives a_star 0 [97, 97, 97]"
proof -
  have c: "closed_rules a_star"
    using repeat_rule_ok [of 1 "[Elem GRETYPE_CHAR 97]" 0] by (simp add: closed_rules_def a_star_def)
  have p: "plain_body (length a_star) [Elem GRETYPE_CHAR 97]" by (simp add: plain_body_def)
  have n: "\<not> body_derives a_star [Elem GRETYPE_CHAR 97] []"
    by (subst derives_chr) auto
  have i: "0 < length a_star" and r: "a_star ! 0 = repeat_rule (CHR ''*'') 0 [Elem GRETYPE_CHAR 97]"
    by (simp_all add: a_star_def)
  have m: "match_char [Elem GRETYPE_CHAR 97, the_end] 97 = Some (True, [the_end])"
    by (simp add: match_char_def)
  have "body_derives a_star [Elem GRETYPE_CHAR 97] [97]"
    using d_chr [OF m d_end] by (simp add: at_end_def)
  then have "[97, 97, 97] = concat [[97], [97], [97]] \<and>
      (\<forall>u \<in> set [[97], [97], [97]]. body_derives a_star [Elem GRETYPE_CHAR 97] u)" by simp
  then show ?thesis using star_rule_language [OF c p i r n, of "[97, 97, 97]"] by blast
qed

text \<open>
  The parser accepts a reference to a rule that is never defined, and the engine then reads outside
  the array of rules, whatever depth of recursion it has.
\<close>

theorem undefined_rule_accepted:
  "rules (parse_grammar ''a ::= b'') = [[Elem GRETYPE_RULE_REF 1, the_end]] \<and>
   grammar_init (Suc n) (rules (parse_grammar ''a ::= b'')) 0 = Undef"
proof -
  have r: "rules (parse_grammar ''a ::= b'') = [[Elem GRETYPE_RULE_REF 1, the_end]]"
    by code_simp
  show ?thesis unfolding r
    by (simp add: grammar_init_def alternates.simps push_def at_end_def copy_rule_def)
qed

end
