(* ===== verification/Kv_Cache.thy ===== *)
theory Kv_Cache
  imports Prelude
begin

text \<open>
  The bookkeeping of the decoder's key-value cache in \<open>src/src/whisper.cpp\<close>: which cells are in use, by
  which positions and sequences, the search for a run of free cells, and the operations on whole
  sequences.  The tensors themselves are not modelled.
\<close>

unbundle bit_operations_syntax

section \<open>State\<close>

record kv_cell =
  kc_pos :: int
  kc_seq :: "int set"

record kv_cache =
  kv_head :: nat
  kv_size :: nat
  kv_cells :: "kv_cell list"

definition empty_cell :: kv_cell where
  "empty_cell = \<lparr>kc_pos = -1, kc_seq = {}\<rparr>"

definition has_seq_id :: "kv_cell \<Rightarrow> int \<Rightarrow> bool" where
  "has_seq_id c g \<longleftrightarrow> g \<in> kc_seq c"

definition kv_cache_init :: "nat \<Rightarrow> kv_cache" where
  "kv_cache_init n_ctx = \<lparr>kv_head = 0, kv_size = n_ctx, kv_cells = replicate n_ctx empty_cell\<rparr>"

text \<open>One entry of a batch: its token, position, sequences and whether its logits are wanted.\<close>

record batch_entry =
  b_token :: int
  b_pos :: int
  b_seq_id :: "int list"
  b_logits :: bool

text \<open>
  \<open>whisper_batch_prep_legacy\<close> fills the first entries of an allocated batch.  With no token it would
  write \<open>logits[-1]\<close>.
\<close>

definition batch_prep_legacy :: "batch_entry list \<Rightarrow> int list option \<Rightarrow> nat \<Rightarrow> int \<Rightarrow> int
    \<Rightarrow> batch_entry list option" where
  "batch_prep_legacy alloc tokens n_tokens n_past seq_id =
     (if n_tokens = 0 \<or> n_tokens > length alloc \<or>
         (case tokens of None \<Rightarrow> False | Some ts \<Rightarrow> length ts < n_tokens) then None
      else Some (map (\<lambda>i. \<lparr>b_token = (case tokens of None \<Rightarrow> b_token (alloc ! i) | Some ts \<Rightarrow> ts ! i),
             b_pos = n_past + int i, b_seq_id = [seq_id], b_logits = (i = n_tokens - 1)\<rparr>)
           [0 ..< n_tokens]))"

section \<open>Finding a slot\<close>

definition cell_free :: "kv_cell \<Rightarrow> bool" where
  "cell_free c \<longleftrightarrow> kc_pos c < 0"

text \<open>The inner loop: the offset of the first cell in use in the window.\<close>

definition first_used :: "kv_cell list \<Rightarrow> nat \<Rightarrow> nat \<Rightarrow> nat option" where
  "first_used cells head n_tokens = List.find (\<lambda>i. \<not> cell_free (cells ! (head + i))) [0 ..< n_tokens]"

text \<open>The search: the head at which it succeeds or gives up, and whether it succeeds.\<close>

function slot_loop :: "kv_cell list \<Rightarrow> nat \<Rightarrow> nat \<Rightarrow> nat \<Rightarrow> nat \<Rightarrow> bool \<times> nat" where
  "slot_loop cells n_ctx n_tokens head n_tested =
     (if n_tokens > n_ctx then (False, head)
      else if head + n_tokens > n_ctx then slot_loop cells n_ctx n_tokens 0 (n_tested + (n_ctx - head))
      else case first_used cells head n_tokens of
        None \<Rightarrow> (True, head)
      | Some i \<Rightarrow>
          if n_tested + (i + 1) \<ge> n_ctx then (False, head + (i + 1))
          else slot_loop cells n_ctx n_tokens (head + (i + 1)) (n_tested + (i + 1)))"
  by pat_completeness auto
termination
  by (relation "measure (\<lambda>(cells, n_ctx, n_tokens, head, n_tested).
        2 * (n_ctx - n_tested) + (if head + n_tokens > n_ctx then 1 else 0))") auto

declare slot_loop.simps [simp del]

definition occupy :: "kv_cell \<Rightarrow> batch_entry \<Rightarrow> kv_cell" where
  "occupy c b = c\<lparr>kc_pos := b_pos b, kc_seq := kc_seq c \<union> set (b_seq_id b)\<rparr>"

fun occupy_from :: "kv_cell list \<Rightarrow> nat \<Rightarrow> batch_entry list \<Rightarrow> kv_cell list" where
  "occupy_from cells i [] = cells"
| "occupy_from cells i (b # bs) = occupy_from (cells[i := occupy (cells ! i) b]) (i + 1) bs"

definition kv_cache_find_slot :: "kv_cache \<Rightarrow> batch_entry list \<Rightarrow> bool \<times> kv_cache" where
  "kv_cache_find_slot cache batch =
     (if length batch > kv_size cache then (False, cache)
      else case slot_loop (kv_cells cache) (kv_size cache) (length batch) (kv_head cache) 0 of
        (False, head) \<Rightarrow> (False, cache\<lparr>kv_head := head\<rparr>)
      | (True, head) \<Rightarrow>
          (True, cache\<lparr>kv_head := head, kv_cells := occupy_from (kv_cells cache) head batch\<rparr>))"

section \<open>The other operations\<close>

text \<open>The loop from the last cell down to the second.\<close>

fun cell_max_loop :: "kv_cell list \<Rightarrow> nat \<Rightarrow> nat" where
  "cell_max_loop cells 0 = 1"
| "cell_max_loop cells (Suc i) =
     (if kc_pos (cells ! Suc i) \<ge> 0 \<and> kc_seq (cells ! Suc i) \<noteq> {} then Suc i + 1
      else cell_max_loop cells i)"

text \<open>In an empty cache the loop would start at the unsigned \<open>size - 1\<close>, outside of the cells.\<close>

definition kv_cache_cell_max :: "kv_cache \<Rightarrow> nat option" where
  "kv_cache_cell_max cache =
     (if kv_size cache = 0 then None else Some (cell_max_loop (kv_cells cache) (kv_size cache - 1)))"

definition kv_cache_clear :: "kv_cache \<Rightarrow> kv_cache" where
  "kv_cache_clear cache =
     cache\<lparr>kv_head := 0, kv_cells := map (\<lambda>c. c\<lparr>kc_pos := -1, kc_seq := {}\<rparr>) (kv_cells cache)\<rparr>"

definition int_max :: int where
  "int_max = 2 ^ 31 - 1"

definition pos_from :: "int \<Rightarrow> int" where
  "pos_from p0 = (if p0 < 0 then 0 else p0)"

definition pos_to :: "int \<Rightarrow> int" where
  "pos_to p1 = (if p1 < 0 then int_max else p1)"

definition in_range :: "int \<Rightarrow> int \<Rightarrow> kv_cell \<Rightarrow> bool" where
  "in_range p0 p1 c \<longleftrightarrow> kc_pos c \<ge> pos_from p0 \<and> kc_pos c < pos_to p1"

text \<open>What \<open>seq_rm\<close> does to one cell; \<^term>\<open>None\<close> when the loop body leaves it alone.\<close>

definition rm_cell :: "int \<Rightarrow> int \<Rightarrow> int \<Rightarrow> kv_cell \<Rightarrow> kv_cell option" where
  "rm_cell seq_id p0 p1 c =
     (if in_range p0 p1 c \<and> (seq_id < 0 \<or> has_seq_id c seq_id) then
        (let s = (if seq_id < 0 then {} else kc_seq c - {seq_id})
         in Some (c\<lparr>kc_seq := s, kc_pos := (if s = {} then -1 else kc_pos c)\<rparr>))
      else None)"

definition rm_or_keep :: "int \<Rightarrow> int \<Rightarrow> int \<Rightarrow> kv_cell \<Rightarrow> kv_cell" where
  "rm_or_keep seq_id p0 p1 c = (case rm_cell seq_id p0 p1 c of None \<Rightarrow> c | Some c' \<Rightarrow> c')"

definition rm_frees :: "int \<Rightarrow> int \<Rightarrow> int \<Rightarrow> kv_cell \<Rightarrow> bool" where
  "rm_frees seq_id p0 p1 c = (case rm_cell seq_id p0 p1 c of None \<Rightarrow> False | Some c' \<Rightarrow> kc_seq c' = {})"

definition kv_cache_seq_rm :: "kv_cache \<Rightarrow> int \<Rightarrow> int \<Rightarrow> int \<Rightarrow> kv_cache" where
  "kv_cache_seq_rm cache seq_id p0 p1 =
     cache\<lparr>kv_cells := map (rm_or_keep seq_id p0 p1) (kv_cells cache),
           kv_head := (case List.find (\<lambda>i. rm_frees seq_id p0 p1 (kv_cells cache ! i)) [0 ..< kv_size cache] of
                         None \<Rightarrow> kv_head cache | Some i \<Rightarrow> i)\<rparr>"

definition kv_cache_seq_cp :: "kv_cache \<Rightarrow> int \<Rightarrow> int \<Rightarrow> int \<Rightarrow> int \<Rightarrow> kv_cache" where
  "kv_cache_seq_cp cache src dst p0 p1 =
     cache\<lparr>kv_head := 0, kv_cells := map (\<lambda>c. if has_seq_id c src \<and> in_range p0 p1 c
              then c\<lparr>kc_seq := insert dst (kc_seq c)\<rparr> else c) (kv_cells cache)\<rparr>"

section \<open>The part of the cache a graph reads, and its mask\<close>

text \<open>The back end the library is built for; it fixes the granularity of the cache.\<close>

datatype kv_backend = Use_Metal | Use_Cuda | No_Accelerator

definition kv_cache_get_padding :: "bool \<Rightarrow> bool \<Rightarrow> kv_backend \<Rightarrow> nat" where
  "kv_cache_get_padding flash_attn use_gpu be =
     (if \<not> flash_attn \<or> \<not> use_gpu then 1
      else (case be of Use_Metal \<Rightarrow> 32 | Use_Cuda \<Rightarrow> 256 | No_Accelerator \<Rightarrow> 1))"

text \<open>\<open>GGML_PAD\<close>: the next multiple of a power of two.\<close>

definition ggml_pad :: "nat \<Rightarrow> nat \<Rightarrow> nat" where
  "ggml_pad x n = nat ((int x + int n - 1) AND NOT (int n - 1))"

definition kv_used :: "kv_cache \<Rightarrow> nat \<Rightarrow> nat option" where
  "kv_used cache pad =
     map_option (\<lambda>m. min (kv_size cache) (max pad (ggml_pad m pad))) (kv_cache_cell_max cache)"

definition kq_mask_pad :: nat where
  "kq_mask_pad = 64"

text \<open>One row per batch entry, then the padding rows; \<^const>\<open>True\<close> is minus infinity.\<close>

definition kq_masked :: "kv_cell list \<Rightarrow> batch_entry \<Rightarrow> nat \<Rightarrow> bool" where
  "kq_masked cells b i \<longleftrightarrow> \<not> has_seq_id (cells ! i) (b_seq_id b ! 0) \<or> kc_pos (cells ! i) > b_pos b"

definition kq_mask :: "kv_cell list \<Rightarrow> batch_entry list \<Rightarrow> nat \<Rightarrow> bool list" where
  "kq_mask cells batch n_kv =
     concat (map (\<lambda>b. map (kq_masked cells b) [0 ..< n_kv]) batch) @
     replicate ((ggml_pad (length batch) kq_mask_pad - length batch) * n_kv) True"

text \<open>The set-up of \<open>whisper_decode_internal\<close>: the slot, the part of the cache used, the mask.\<close>

definition decode_setup :: "kv_cache \<Rightarrow> batch_entry list \<Rightarrow> nat \<Rightarrow> (kv_cache \<times> nat \<times> bool list) option" where
  "decode_setup cache batch pad =
     (case kv_cache_find_slot cache batch of
        (False, _) \<Rightarrow> None
      | (True, cache') \<Rightarrow>
          (case kv_used cache' pad of None \<Rightarrow> None
           | Some n \<Rightarrow> Some (cache', n, kq_mask (kv_cells cache') batch n)))"

section \<open>The invariant\<close>

text \<open>The head is in the cache, and a cell is in use exactly if some sequence uses it.\<close>

definition cell_ok :: "kv_cell \<Rightarrow> bool" where
  "cell_ok c \<longleftrightarrow> kc_pos c \<ge> -1 \<and> kc_pos c < int_max \<and> (kc_pos c = -1 \<longleftrightarrow> kc_seq c = {})"

definition kv_inv :: "kv_cache \<Rightarrow> bool" where
  "kv_inv cache \<longleftrightarrow> length (kv_cells cache) = kv_size cache \<and> kv_head cache \<le> kv_size cache \<and>
     (\<forall>c \<in> set (kv_cells cache). cell_ok c)"

text \<open>A run of free cells.\<close>

definition free_run :: "kv_cell list \<Rightarrow> nat \<Rightarrow> nat \<Rightarrow> bool" where
  "free_run cells n s \<longleftrightarrow> s + n \<le> length cells \<and> (\<forall>i < n. cell_free (cells ! (s + i)))"

lemma first_used_None: "first_used cells head n = None \<longleftrightarrow> (\<forall>i < n. cell_free (cells ! (head + i)))"
  by (auto simp: first_used_def find_None_iff)

lemma first_used_Some:
  "first_used cells head n = Some i \<Longrightarrow>
     i < n \<and> \<not> cell_free (cells ! (head + i)) \<and> (\<forall>j < i. cell_free (cells ! (head + j)))"
  by (auto simp: first_used_def find_Some_iff)

lemma slot_loop_sound:
  "slot_loop cells n_ctx n head tested = (True, h) \<Longrightarrow> n_ctx = length cells \<Longrightarrow> free_run cells n h"
proof (induction cells n_ctx n head tested rule: slot_loop.induct)
  case (1 cells n_ctx n head tested)
  show ?case
  proof (cases "head + n > n_ctx")
    case True
    then show ?thesis using 1 by (subst (asm) slot_loop.simps) (auto split: if_splits)
  next
    case False
    show ?thesis
    proof (cases "first_used cells head n")
      case None
      then have "h = head" using "1.prems" False by (subst (asm) slot_loop.simps) (auto split: if_splits)
      then show ?thesis using None False "1.prems"(2) by (simp add: free_run_def first_used_None)
    next
      case (Some i)
      then show ?thesis using 1 False by (subst (asm) slot_loop.simps) (auto split: if_splits)
    qed
  qed
qed

lemma slot_loop_head: 
  "slot_loop cells n_ctx n head tested = (b, h) \<Longrightarrow> head \<le> n_ctx \<Longrightarrow> h \<le> n_ctx"
proof (induction cells n_ctx n head tested rule: slot_loop.induct)
  case (1 cells n_ctx n head tested)
  show ?case
  proof (cases "head + n > n_ctx")
    case True
    then show ?thesis using 1 by (subst (asm) slot_loop.simps) (auto split: if_splits)
  next
    case False
    show ?thesis
    proof (cases "first_used cells head n")
      case None
      then show ?thesis using "1.prems" False by (subst (asm) slot_loop.simps) (auto split: if_splits)
    next
      case (Some i)
      have "i < n" using first_used_Some [OF Some] by blast
      then show ?thesis using 1 False Some by (subst (asm) slot_loop.simps) (auto split: if_splits)
    qed
  qed
qed

text \<open>
  Completeness: \<open>first\<close> is the head at which the search started; in its first pass (\<open>head \<ge> first\<close>) it has
  tested the cells from \<open>first\<close> on, in its second those of the first pass and the cells before the head.
\<close>

definition slot_progress :: "nat \<Rightarrow> nat \<Rightarrow> nat \<Rightarrow> nat \<Rightarrow> nat \<Rightarrow> bool" where
  "slot_progress n_ctx first s head tested \<longleftrightarrow>
     (first \<le> head \<and> tested = head - first \<and> (s < first \<or> head \<le> s)) \<or>
     (tested = n_ctx - first + head \<and> s < first \<and> head \<le> s)"

lemma slot_loop_complete:
  "slot_progress n_ctx first s head tested \<Longrightarrow> free_run cells n s \<Longrightarrow> n_ctx = length cells \<Longrightarrow>
     head \<le> n_ctx \<Longrightarrow> first \<le> n_ctx \<Longrightarrow> fst (slot_loop cells n_ctx n head tested)"
proof (induction cells n_ctx n head tested rule: slot_loop.induct)
  case (1 cells n_ctx n head tested)
  have s: "s + n \<le> n_ctx" using "1.prems"(2,3) by (simp add: free_run_def)
  show ?case
  proof (cases "head + n > n_ctx")
    case True
    then have "first \<le> head" "tested = head - first" "s < first"
      using "1.prems"(1) s by (auto simp: slot_progress_def)
    then have "slot_progress n_ctx first s 0 (tested + (n_ctx - head))"
      using "1.prems"(4) by (auto simp: slot_progress_def)
    then show ?thesis using "1.IH"(1) True s "1.prems" by (subst slot_loop.simps) simp
  next
    case False
    show ?thesis
    proof (cases "first_used cells head n")
      case None
      then show ?thesis using False s by (subst slot_loop.simps) simp
    next
      case (Some i)
      have i: "i < n" "\<not> cell_free (cells ! (head + i))" using first_used_Some [OF Some] by auto
      have skip: "head \<le> s \<Longrightarrow> head + i < s"
      proof (rule ccontr)
        assume "head \<le> s" "\<not> head + i < s"
        then have j: "head + i - s < n" "s + (head + i - s) = head + i" using i(1) by auto
        have "\<forall>j < n. cell_free (cells ! (s + j))" using "1.prems"(2) by (simp add: free_run_def)
        then have "cell_free (cells ! (s + (head + i - s)))" using j(1) by blast
        then show False using i(2) j(2) by simp
      qed
      have p: "slot_progress n_ctx first s (head + (i + 1)) (tested + (i + 1))"
        using "1.prems"(1) skip by (auto simp: slot_progress_def)
      have "\<not> tested + (i + 1) \<ge> n_ctx"
        using p s i(1) False "1.prems"(5) skip by (auto simp: slot_progress_def)
      then show ?thesis using "1.IH"(2) [OF _ False Some] p s False Some "1.prems" i(1)
        by (subst slot_loop.simps) simp
    qed
  qed
qed


section \<open>What finding a slot does\<close>

lemma length_occupy_from: "length (occupy_from cells i bs) = length cells"
  by (induction bs arbitrary: cells i) auto

lemma occupy_from_outside: "k < i \<or> i + length bs \<le> k \<Longrightarrow> occupy_from cells i bs ! k = cells ! k"
  by (induction bs arbitrary: cells i) auto

lemma occupy_from_nth:
  "j < length bs \<Longrightarrow> i + length bs \<le> length cells \<Longrightarrow>
     occupy_from cells i bs ! (i + j) = occupy (cells ! (i + j)) (bs ! j)"
proof (induction bs arbitrary: cells i j)
  case (Cons b bs)
  show ?case
  proof (cases j)
    case 0
    then show ?thesis using Cons.prems by (simp add: occupy_from_outside)
  next
    case (Suc j')
    then show ?thesis using Cons.IH [of j' "i + 1" "cells[i := occupy (cells ! i) b]"] Cons.prems by simp
  qed
qed simp

definition batch_ok :: "batch_entry list \<Rightarrow> bool" where
  "batch_ok batch \<longleftrightarrow> (\<forall>b \<in> set batch. b_pos b \<ge> 0 \<and> b_pos b < int_max \<and> b_seq_id b \<noteq> [])"

lemma kv_inv_nth: "kv_inv cache \<Longrightarrow> i < kv_size cache \<Longrightarrow> cell_ok (kv_cells cache ! i)"
  by (simp add: kv_inv_def)

lemma cell_free_iff: "kv_inv cache \<Longrightarrow> i < kv_size cache \<Longrightarrow>
    cell_free (kv_cells cache ! i) \<longleftrightarrow> kv_cells cache ! i = empty_cell"
  using kv_inv_nth [of cache i] by (auto simp: cell_free_def empty_cell_def cell_ok_def)

lemma kv_invI:
  assumes "length (kv_cells cache) = kv_size cache" "kv_head cache \<le> kv_size cache"
    and "\<And>i. i < kv_size cache \<Longrightarrow> cell_ok (kv_cells cache ! i)"
  shows "kv_inv cache"
  using assms by (auto simp: kv_inv_def in_set_conv_nth)

lemma find_slot_True:
  assumes inv: "kv_inv cache" and run: "kv_cache_find_slot cache batch = (True, cache')"
  obtains h where "free_run (kv_cells cache) (length batch) h" "h \<le> kv_size cache"
    "cache' = cache\<lparr>kv_head := h, kv_cells := occupy_from (kv_cells cache) h batch\<rparr>"
proof -
  obtain h where h: "slot_loop (kv_cells cache) (kv_size cache) (length batch) (kv_head cache) 0 = (True, h)"
      "cache' = cache\<lparr>kv_head := h, kv_cells := occupy_from (kv_cells cache) h batch\<rparr>"
    using run by (auto simp: kv_cache_find_slot_def split: if_splits prod.splits bool.splits)
  have "free_run (kv_cells cache) (length batch) h"
    by (rule slot_loop_sound [OF h(1)]) (use inv in \<open>simp add: kv_inv_def\<close>)
  moreover have "h \<le> kv_size cache"
    by (rule slot_loop_head [OF h(1)]) (use inv in \<open>simp add: kv_inv_def\<close>)
  ultimately show ?thesis using h(2) that by blast
qed

lemma find_slot_False:
  assumes "kv_inv cache" "kv_cache_find_slot cache batch = (False, cache')"
  shows "kv_cells cache' = kv_cells cache \<and> kv_size cache' = kv_size cache \<and> kv_head cache' \<le> kv_size cache \<and>
    \<not> free_run (kv_cells cache) (length batch) s"
proof (cases "length batch > kv_size cache")
  case True
  then show ?thesis using assms by (auto simp: kv_cache_find_slot_def free_run_def kv_inv_def)
next
  case False
  obtain h where h: "slot_loop (kv_cells cache) (kv_size cache) (length batch) (kv_head cache) 0 = (False, h)"
      "cache' = cache\<lparr>kv_head := h\<rparr>"
    using assms(2) False by (auto simp: kv_cache_find_slot_def split: if_splits prod.splits bool.splits)
  have p: "slot_progress (kv_size cache) (kv_head cache) s (kv_head cache) 0"
    by (auto simp: slot_progress_def)
  have "\<not> free_run (kv_cells cache) (length batch) s"
    using slot_loop_complete [OF p, of "kv_cells cache" "length batch"] h(1) assms(1)
    by (auto simp: kv_inv_def)
  moreover have "h \<le> kv_size cache"
    using slot_loop_head [OF h(1)] assms(1) by (simp add: kv_inv_def)
  ultimately show ?thesis using h(2) by simp
qed

lemma find_slot_cells:
  assumes inv: "kv_inv cache" and run: "kv_cache_find_slot cache batch = (True, cache')"
  obtains h where "free_run (kv_cells cache) (length batch) h" "h + length batch \<le> kv_size cache"
    "kv_head cache' = h" "kv_size cache' = kv_size cache" "length (kv_cells cache') = kv_size cache"
    "\<And>j. j < length batch \<Longrightarrow> kv_cells cache ! (h + j) = empty_cell"
    "\<And>j. j < length batch \<Longrightarrow>
       kv_cells cache' ! (h + j) = \<lparr>kc_pos = b_pos (batch ! j), kc_seq = set (b_seq_id (batch ! j))\<rparr>"
    "\<And>i. i < h \<or> h + length batch \<le> i \<Longrightarrow> kv_cells cache' ! i = kv_cells cache ! i"
proof -
  obtain h where run: "free_run (kv_cells cache) (length batch) h" and
      c: "cache' = cache\<lparr>kv_head := h, kv_cells := occupy_from (kv_cells cache) h batch\<rparr>"
    using find_slot_True [OF inv run] by blast
  have le: "h + length batch \<le> kv_size cache" "length (kv_cells cache) = kv_size cache"
    using run inv by (auto simp: free_run_def kv_inv_def)
  have empty: "kv_cells cache ! (h + j) = empty_cell" if "j < length batch" for j
    using that run le cell_free_iff [OF inv, of "h + j"] by (simp add: free_run_def)
  have filled: "kv_cells cache' ! (h + j) = \<lparr>kc_pos = b_pos (batch ! j), kc_seq = set (b_seq_id (batch ! j))\<rparr>"
    if "j < length batch" for j
    using that le empty [OF that] by (simp add: c occupy_from_nth occupy_def empty_cell_def)
  show ?thesis
    by (rule that [OF run le(1) _ _ _ empty filled])
      (use le in \<open>auto simp: c occupy_from_outside length_occupy_from\<close>)
qed

text \<open>
  The slot search is exact.  It succeeds just when some run of free cells is as long as the batch;
  then the batch's positions and sequences are in the cells from the head on, those cells were all
  empty and no other cell changes.  When it fails no cell changes.
\<close>

theorem find_slot_exact:
  assumes "kv_inv cache" and "kv_cache_find_slot cache batch = (ok, cache')"
  shows "ok = (\<exists>s. free_run (kv_cells cache) (length batch) s) \<and>
    (if ok then
       kv_head cache' + length batch \<le> kv_size cache \<and>
       (\<forall>j < length batch. kv_cells cache ! (kv_head cache' + j) = empty_cell \<and>
          kv_cells cache' ! (kv_head cache' + j) =
            \<lparr>kc_pos = b_pos (batch ! j), kc_seq = set (b_seq_id (batch ! j))\<rparr>) \<and>
       (\<forall>i. i < kv_head cache' \<or> kv_head cache' + length batch \<le> i \<longrightarrow>
          kv_cells cache' ! i = kv_cells cache ! i)
     else kv_cells cache' = kv_cells cache)"
proof (cases ok)
  case True
  then have "kv_cache_find_slot cache batch = (True, cache')" using assms(2) by simp
  then show ?thesis using True by (elim find_slot_cells [OF assms(1)]) auto
next
  case False
  then show ?thesis using find_slot_False [OF assms(1)] assms(2) by auto
qed

lemma kv_inv_init: "kv_inv (kv_cache_init n)"
  by (rule kv_invI) (auto simp: kv_cache_init_def empty_cell_def cell_ok_def int_max_def)

lemma kv_inv_clear: "kv_inv cache \<Longrightarrow> kv_inv (kv_cache_clear cache)"
  by (rule kv_invI) (auto simp: kv_cache_clear_def kv_inv_def cell_ok_def int_max_def)

lemma filled_ok: "batch_ok batch \<Longrightarrow> j < length batch \<Longrightarrow>
    cell_ok \<lparr>kc_pos = b_pos (batch ! j), kc_seq = set (b_seq_id (batch ! j))\<rparr>"
  by (drule nth_mem) (auto simp: batch_ok_def cell_ok_def)

lemma kv_inv_find_slot:
  assumes inv: "kv_inv cache" and ok: "batch_ok batch"
  shows "kv_inv (snd (kv_cache_find_slot cache batch))"
proof (cases "kv_cache_find_slot cache batch")
  case (Pair b cache')
  show ?thesis
  proof (cases b)
    case True
    then have run: "kv_cache_find_slot cache batch = (True, cache')" using Pair by simp
    have "kv_inv cache'"
    proof (rule find_slot_cells [OF inv run], rule kv_invI)
      fix h i assume h: "h + length batch \<le> kv_size cache" "kv_size cache' = kv_size cache" "i < kv_size cache'"
        and filled: "\<And>j. j < length batch \<Longrightarrow>
          kv_cells cache' ! (h + j) = \<lparr>kc_pos = b_pos (batch ! j), kc_seq = set (b_seq_id (batch ! j))\<rparr>"
        and other: "\<And>i. i < h \<or> h + length batch \<le> i \<Longrightarrow> kv_cells cache' ! i = kv_cells cache ! i"
      show "cell_ok (kv_cells cache' ! i)"
      proof (cases "i < h \<or> h + length batch \<le> i")
        case True
        then show ?thesis using other [OF True] kv_inv_nth [OF inv, of i] h by simp
      next
        case False
        then have "i - h < length batch" "h + (i - h) = i" by auto
        then show ?thesis using filled [of "i - h"] filled_ok [OF ok, of "i - h"] by simp
      qed
    qed simp_all
    then show ?thesis using Pair by simp
  next
    case False
    then show ?thesis using find_slot_False [OF inv] Pair inv by (auto simp: kv_inv_def)
  qed
qed

section \<open>Sequences\<close>

lemma rm_or_keep_ok: "cell_ok c \<Longrightarrow> cell_ok (rm_or_keep g p0 p1 c)"
  by (auto simp: rm_or_keep_def rm_cell_def cell_ok_def Let_def int_max_def)

lemma kv_inv_seq_rm: "kv_inv cache \<Longrightarrow> kv_inv (kv_cache_seq_rm cache g p0 p1)"
proof (rule kv_invI)
  assume inv: "kv_inv cache"
  show "kv_head (kv_cache_seq_rm cache g p0 p1) \<le> kv_size (kv_cache_seq_rm cache g p0 p1)"
    using inv by (auto simp: kv_cache_seq_rm_def kv_inv_def find_Some_iff split: option.splits)
qed (auto simp: kv_cache_seq_rm_def kv_inv_def rm_or_keep_ok)

lemma kv_inv_seq_cp: "kv_inv cache \<Longrightarrow> kv_inv (kv_cache_seq_cp cache src dst p0 p1)"
  by (rule kv_invI) (auto simp: kv_cache_seq_cp_def kv_inv_def cell_ok_def has_seq_id_def in_range_def
      pos_from_def split: if_splits)

text \<open>What the cache knows of a sequence: the cells that hold one of its tokens.\<close>

definition seq_cells :: "kv_cache \<Rightarrow> int \<Rightarrow> nat set" where
  "seq_cells cache g = {i. i < kv_size cache \<and> has_seq_id (kv_cells cache ! i) g}"


lemma seq_cells_rm:
  assumes inv: "kv_inv cache" and "0 \<le> r"
  shows "seq_cells (kv_cache_seq_rm cache r (-1) (-1)) g = (if g = r then {} else seq_cells cache g)"
proof -
  have "has_seq_id (rm_or_keep r (-1) (-1) (kv_cells cache ! i)) g \<longleftrightarrow> g \<noteq> r \<and> has_seq_id (kv_cells cache ! i) g"
    if "i < kv_size cache" for i
    using kv_inv_nth [OF inv that] \<open>0 \<le> r\<close>
    by (auto simp: rm_or_keep_def rm_cell_def Let_def has_seq_id_def in_range_def pos_from_def pos_to_def cell_ok_def)
  then show ?thesis using inv by (auto simp: seq_cells_def kv_cache_seq_rm_def kv_inv_def)
qed

lemma seq_cells_cp:
  assumes inv: "kv_inv cache"
  shows "seq_cells (kv_cache_seq_cp cache src dst (-1) (-1)) g =
    (if g = dst then seq_cells cache dst \<union> seq_cells cache src else seq_cells cache g)"
proof -
  have "in_range (-1) (-1) (kv_cells cache ! i)" if "i < kv_size cache" "has_seq_id (kv_cells cache ! i) src" for i
    using kv_inv_nth [OF inv that(1)] that(2)
    by (auto simp: has_seq_id_def in_range_def pos_from_def pos_to_def cell_ok_def)
  then show ?thesis using inv
    by (auto simp: seq_cells_def kv_cache_seq_cp_def kv_inv_def has_seq_id_def split: if_splits)
qed

text \<open>
  C33: \<open>seq_rm\<close> removes a sequence from just the cells of the given range of positions, leaves every
  other sequence where it was, frees just the cells no sequence holds any more, and keeps the invariant.
\<close>

theorem seq_rm_exact:
  assumes "kv_inv cache" "0 \<le> r"
  shows "kv_inv (kv_cache_seq_rm cache r p0 p1) \<and>
    seq_cells (kv_cache_seq_rm cache r p0 p1) g =
      seq_cells cache g - (if g = r then {i. in_range p0 p1 (kv_cells cache ! i)} else {}) \<and>
    (i < kv_size cache \<longrightarrow> kc_pos (kv_cells (kv_cache_seq_rm cache r p0 p1) ! i) =
       (if \<exists>g. i \<in> seq_cells (kv_cache_seq_rm cache r p0 p1) g then kc_pos (kv_cells cache ! i) else -1))"
proof -
  have len: "length (kv_cells cache) = kv_size cache" using assms(1) by (simp add: kv_inv_def)
  have cell: "has_seq_id (rm_or_keep r p0 p1 c) g \<longleftrightarrow> has_seq_id c g \<and> \<not> (g = r \<and> in_range p0 p1 c)" for c g
    using assms(2) by (auto simp: rm_or_keep_def rm_cell_def Let_def has_seq_id_def)
  have pos: "kc_pos (rm_or_keep r p0 p1 c) = (if \<exists>g. has_seq_id (rm_or_keep r p0 p1 c) g then kc_pos c else -1)"
    if "cell_ok c" for c
    using assms(2) that by (auto simp: rm_or_keep_def rm_cell_def Let_def has_seq_id_def cell_ok_def)
  show ?thesis using kv_inv_seq_rm [OF assms(1)] kv_inv_nth [OF assms(1), of i] cell
    by (auto simp: seq_cells_def kv_cache_seq_rm_def len pos)
qed

section \<open>The swap of a beam-search step\<close>

definition whisper_max_decoders :: int where
  "whisper_max_decoders = 8"

text \<open>
  \<open>picks\<close> pairs each decoder that is still running with the decoder whose candidate it takes over.  The
  first loop saves the chosen sequences under spare ids, the second moves them to the decoders.
\<close>

definition beam_save :: "kv_cache \<Rightarrow> int \<times> int \<Rightarrow> kv_cache" where
  "beam_save cache p = kv_cache_seq_cp cache (snd p) (whisper_max_decoders + fst p) (-1) (-1)"

definition beam_move :: "kv_cache \<Rightarrow> int \<times> int \<Rightarrow> kv_cache" where
  "beam_move cache p =
     (let c1 = kv_cache_seq_rm cache (fst p) (-1) (-1);
          c2 = kv_cache_seq_cp c1 (whisper_max_decoders + fst p) (fst p) (-1) (-1)
      in kv_cache_seq_rm c2 (whisper_max_decoders + fst p) (-1) (-1))"

definition beam_kv_update :: "kv_cache \<Rightarrow> (int \<times> int) list \<Rightarrow> kv_cache" where
  "beam_kv_update cache picks = foldl beam_move (foldl beam_save cache picks) picks"

lemma beam_save_all:
  "kv_inv cache \<Longrightarrow> distinct (map fst picks) \<Longrightarrow>
     (\<forall>p \<in> set picks. 0 \<le> fst p \<and> fst p < 8 \<and> 0 \<le> snd p \<and> snd p < 8) \<Longrightarrow>
     kv_inv (foldl beam_save cache picks) \<and>
     seq_cells (foldl beam_save cache picks) g =
       (case map_of picks (g - 8) of None \<Rightarrow> seq_cells cache g
        | Some i \<Rightarrow> seq_cells cache g \<union> seq_cells cache i)"
proof (induction picks arbitrary: cache)
  case (Cons p picks)
  have p: "0 \<le> fst p" "fst p < 8" "snd p < 8" and fresh: "map_of picks (fst p) = None"
    using Cons.prems by (auto simp: map_of_eq_None_iff)
  have bound: "map_of picks k = Some i \<Longrightarrow> i < 8" for k i
    using Cons.prems(3) map_of_SomeD by fastforce
  have one: "kv_inv (beam_save cache p)" "\<And>g. seq_cells (beam_save cache p) g =
      (if g = 8 + fst p then seq_cells cache g \<union> seq_cells cache (snd p) else seq_cells cache g)"
    using Cons.prems(1) by (simp_all add: beam_save_def kv_inv_seq_cp seq_cells_cp whisper_max_decoders_def)
  note IH = Cons.IH [of "beam_save cache p"]
  show ?case using IH one Cons.prems p fresh bound
    by (cases p) (auto simp: split: option.splits)
qed simp

lemma beam_move_all:
  "kv_inv cache \<Longrightarrow> distinct (map fst picks) \<Longrightarrow> (\<forall>p \<in> set picks. 0 \<le> fst p \<and> fst p < 8) \<Longrightarrow>
     kv_inv (foldl beam_move cache picks) \<and>
     seq_cells (foldl beam_move cache picks) g =
       (if g \<in> fst ` set picks then seq_cells cache (8 + g)
        else if g - 8 \<in> fst ` set picks then {} else seq_cells cache g)"
proof (induction picks arbitrary: cache)
  case (Cons p picks)
  define K where "K = fst ` set picks"
  have p: "0 \<le> fst p" "fst p < 8" and fresh: "fst p \<notin> K"
    using Cons.prems by (auto simp: K_def)
  have bound: "0 \<le> k \<and> k < 8" if "k \<in> K" for k using Cons.prems(3) that by (auto simp: K_def)
  have far: "fst p - 8 \<notin> K" "8 + g = fst p \<Longrightarrow> g \<notin> K" using bound [of "fst p - 8"] bound [of g] p by auto
  have one: "kv_inv (beam_move cache p)" "\<And>g. seq_cells (beam_move cache p) g =
      (if g = fst p then seq_cells cache (8 + g) else if g = 8 + fst p then {} else seq_cells cache g)"
    using Cons.prems(1) p
    by (simp_all add: beam_move_def Let_def kv_inv_seq_rm kv_inv_seq_cp seq_cells_rm seq_cells_cp whisper_max_decoders_def)
  have IH: "kv_inv (foldl beam_move (beam_move cache p) picks)"
    "seq_cells (foldl beam_move (beam_move cache p) picks) g =
       (if g \<in> fst ` set picks then seq_cells (beam_move cache p) (8 + g)
        else if g - 8 \<in> fst ` set picks then {} else seq_cells (beam_move cache p) g)"
    using Cons.IH [OF one(1)] Cons.prems by auto
  show ?case unfolding foldl_Cons using IH(1)
  proof (rule conjI)
    show "seq_cells (foldl beam_move (beam_move cache p) picks) g =
      (if g \<in> fst ` set (p # picks) then seq_cells cache (8 + g)
        else if g - 8 \<in> fst ` set (p # picks) then {} else seq_cells cache g)"
      unfolding IH(2) one(2) list.set image_insert K_def [symmetric] using fresh p bound far by auto
  qed
qed simp

text \<open>
  C16: after the swap of a beam-search step every running decoder has just the cells of the decoder whose
  candidate it took over, as they were before the step, and the other decoders keep theirs.
\<close>

theorem beam_kv_swap:
  assumes "kv_inv cache" "distinct (map fst picks)"
    and "\<forall>p \<in> set picks. 0 \<le> fst p \<and> fst p < 8 \<and> 0 \<le> snd p \<and> snd p < 8"
    and "\<forall>g \<ge> 8. seq_cells cache g = {}"
  shows "kv_inv (beam_kv_update cache picks) \<and>
    seq_cells (beam_kv_update cache picks) g =
      (case map_of picks g of Some i \<Rightarrow> seq_cells cache i | None \<Rightarrow> seq_cells cache g)"
proof -
  have saved: "kv_inv (foldl beam_save cache picks)"
    "\<And>g. seq_cells (foldl beam_save cache picks) g =
       (case map_of picks (g - 8) of None \<Rightarrow> seq_cells cache g
        | Some i \<Rightarrow> seq_cells cache g \<union> seq_cells cache i)"
    using beam_save_all [OF assms(1-3)] by auto
  have moved: "kv_inv (beam_kv_update cache picks) \<and>
    seq_cells (beam_kv_update cache picks) g =
       (if g \<in> fst ` set picks then seq_cells (foldl beam_save cache picks) (8 + g)
        else if g - 8 \<in> fst ` set picks then {} else seq_cells (foldl beam_save cache picks) g)"
    unfolding beam_kv_update_def by (rule beam_move_all [OF saved(1) assms(2)]) (use assms(3) in auto)
  have dom: "fst ` set picks = dom (map_of picks)" by (simp add: dom_map_of_conv_image_fst)
  have key: "0 \<le> k \<and> k < 8" if "map_of picks k = Some i" for k i
    using map_of_SomeD [OF that] assms(3) by auto
  show ?thesis
  proof (cases "map_of picks g")
    case None
    then show ?thesis using moved saved(2) [of g] assms(4) key [of "g - 8"]
      by (auto simp: dom domIff split: option.splits)
  next
    case (Some i)
    then have "g \<in> fst ` set picks" by (auto simp: dom)
    then show ?thesis using moved saved(2) [of "8 + g"] Some assms(4) key [OF Some] by simp
  qed
qed


section \<open>The mask\<close>

lemma and_not_mask_le: "(x :: int) - (2 ^ k - 1) \<le> x AND NOT (mask k)"
proof -
  have "x = (x AND NOT (mask k)) + (x AND mask k)"
    by (subst disjunctive_add) (auto simp: bit_simps intro: bit_eqI)
  moreover have "x AND mask k \<le> 2 ^ k - 1"
    by (simp add: take_bit_eq_mask [symmetric] take_bit_int_less_exp zle_diff1_eq)
  ultimately show ?thesis by linarith
qed

lemma ggml_pad_ge: "x \<le> ggml_pad x (2 ^ k)"
proof -
  have "int x \<le> (int x + 2 ^ k - 1) AND NOT (mask k)"
    using and_not_mask_le [of "int x + 2 ^ k - 1" k] by simp
  then show ?thesis by (simp add: ggml_pad_def mask_eq_exp_minus_1 nat_le_iff le_nat_iff)
qed

lemma padding_power: "\<exists>k. kv_cache_get_padding fa gpu be = 2 ^ k"
proof -
  have "\<exists>k. (32::nat) = 2 ^ k" "\<exists>k. (256::nat) = 2 ^ k" "\<exists>k. (1::nat) = 2 ^ k"
    by (rule exI [of _ 5], simp, rule exI [of _ 8], simp, rule exI [of _ 0], simp)
  then show ?thesis by (simp add: kv_cache_get_padding_def split: kv_backend.splits)
qed

lemma cell_max_loop_bounds:
  "cell_max_loop cells k \<le> k + 1 \<and>
   (\<forall>i. cell_max_loop cells k \<le> i \<and> i \<le> k \<longrightarrow> \<not> (kc_pos (cells ! i) \<ge> 0 \<and> kc_seq (cells ! i) \<noteq> {}))"
proof (induction k)
  case (Suc k)
  show ?case
  proof (intro conjI allI impI)
    fix i assume i: "cell_max_loop cells (Suc k) \<le> i \<and> i \<le> Suc k"
    then have "\<not> (kc_pos (cells ! Suc k) \<ge> 0 \<and> kc_seq (cells ! Suc k) \<noteq> {})"
      by (auto split: if_splits)
    then show "\<not> (kc_pos (cells ! i) \<ge> 0 \<and> kc_seq (cells ! i) \<noteq> {})"
      using Suc.IH i by (cases "i = Suc k") (auto split: if_splits)
  qed (use Suc.IH in auto)
qed simp

lemma kv_used_covers:
  assumes inv: "kv_inv cache" and "kv_used cache (2 ^ k) = Some n" "i < kv_size cache" "has_seq_id (kv_cells cache ! i) g"
  shows "i < n"
proof -
  define m where "m = cell_max_loop (kv_cells cache) (kv_size cache - 1)"
  have n: "n = min (kv_size cache) (max (2 ^ k) (ggml_pad m (2 ^ k)))"
    using assms(2,3) by (auto simp: kv_used_def kv_cache_cell_max_def m_def split: if_splits)
  have "i < m"
  proof (rule ccontr)
    assume "\<not> i < m"
    then have "\<not> (kc_pos (kv_cells cache ! i) \<ge> 0 \<and> kc_seq (kv_cells cache ! i) \<noteq> {})"
      using cell_max_loop_bounds [of "kv_cells cache" "kv_size cache - 1"] assms(3) by (auto simp: m_def)
    then show False using kv_inv_nth [OF inv assms(3)] assms(4) by (auto simp: cell_ok_def has_seq_id_def)
  qed
  then show ?thesis using n assms(3) ggml_pad_ge [of m k] by simp
qed

lemma concat_rows_nth:
  "\<forall>r \<in> set rows. length r = n \<Longrightarrow> j < length rows \<Longrightarrow> i < n \<Longrightarrow>
     concat rows ! (j * n + i) = rows ! j ! i \<and> j * n + i < length (concat rows)"
proof (induction rows arbitrary: j)
  case (Cons r rows)
  show ?case
  proof (cases j)
    case (Suc j')
    then show ?thesis using Cons.IH [of j'] Cons.prems by (simp add: nth_append add.assoc)
  qed (use Cons.prems in \<open>auto simp: nth_append\<close>)
qed simp

lemma kq_mask_nth:
  "j < length batch \<Longrightarrow> i < n \<Longrightarrow> kq_mask cells batch n ! (j * n + i) = kq_masked cells (batch ! j) i"
  using concat_rows_nth [of "map (\<lambda>b. map (kq_masked cells b) [0 ..< n]) batch" n j i]
  by (simp add: kq_mask_def nth_append)

text \<open>
  C35: what the decoder may attend to.  After the set-up of a batch, the cells of the graph that are not
  masked for the batch's \<open>j\<close>th token are just the cells of the whole cache that hold a token of its
  sequence at no later position, and its own cell is one of them.  Nothing is lost by reading only the
  first \<open>n\<close> cells, whatever the padding.
\<close>

theorem decode_mask_exact:
  assumes "kv_inv cache" "batch_ok batch" "j < length batch" "i < kv_size cache"
    and "decode_setup cache batch (kv_cache_get_padding fa gpu be) = Some (cache', n, msk)"
  shows "kv_inv cache' \<and> kv_head cache' + j < n \<and> \<not> msk ! (j * n + (kv_head cache' + j)) \<and>
    (i < n \<and> \<not> msk ! (j * n + i) \<longleftrightarrow>
       i \<in> seq_cells cache' (b_seq_id (batch ! j) ! 0) \<and> kc_pos (kv_cells cache' ! i) \<le> b_pos (batch ! j))"
proof -
  obtain k where k: "kv_cache_get_padding fa gpu be = 2 ^ k" using padding_power by blast
  have run: "kv_cache_find_slot cache batch = (True, cache')" and used: "kv_used cache' (2 ^ k) = Some n"
    and msk: "msk = kq_mask (kv_cells cache') batch n"
    using assms(5) by (auto simp: decode_setup_def k split: prod.splits bool.splits option.splits)
  have inv: "kv_inv cache'" using kv_inv_find_slot [OF assms(1,2)] run by simp
  let ?g = "b_seq_id (batch ! j) ! 0" and ?h = "kv_head cache'"
  have own: "kv_size cache' = kv_size cache" "?h + j < kv_size cache"
      "kv_cells cache' ! (?h + j) = \<lparr>kc_pos = b_pos (batch ! j), kc_seq = set (b_seq_id (batch ! j))\<rparr>"
    using assms(3) by (auto intro: find_slot_cells [OF assms(1) run])
  have "b_seq_id (batch ! j) \<noteq> []" using assms(2,3) nth_mem by (fastforce simp: batch_ok_def)
  then have holds: "has_seq_id (kv_cells cache' ! (?h + j)) ?g" by (simp add: own has_seq_id_def)
  have covers: "i < kv_size cache \<Longrightarrow> has_seq_id (kv_cells cache' ! i) ?g \<Longrightarrow> i < n" for i
    using kv_used_covers [OF inv used] own(1) by simp
  have row: "i < n \<Longrightarrow> msk ! (j * n + i) = kq_masked (kv_cells cache') (batch ! j) i" for i
    using kq_mask_nth [OF assms(3)] by (simp add: msk)
  show ?thesis using inv covers [OF own(2) holds] row [of "?h + j"] row [of i] covers [OF assms(4)] holds own assms(4)
    by (auto simp: kq_masked_def seq_cells_def)
qed

text \<open>Every history of cache operations.\<close>

datatype kv_op = Find_Slot "batch_entry list" | Seq_Rm int int int | Seq_Cp int int int int | Clear

fun kv_op_step :: "kv_cache \<Rightarrow> kv_op \<Rightarrow> kv_cache" where
  "kv_op_step c (Find_Slot b) = snd (kv_cache_find_slot c b)"
| "kv_op_step c (Seq_Rm g p0 p1) = kv_cache_seq_rm c g p0 p1"
| "kv_op_step c (Seq_Cp s d p0 p1) = kv_cache_seq_cp c s d p0 p1"
| "kv_op_step c Clear = kv_cache_clear c"

fun kv_op_ok :: "kv_op \<Rightarrow> bool" where
  "kv_op_ok (Find_Slot b) = batch_ok b"
| "kv_op_ok _ = True"

lemma kv_op_step_inv: "kv_inv c \<Longrightarrow> kv_op_ok q \<Longrightarrow> kv_inv (kv_op_step c q)"
  by (cases q) (simp_all add: kv_inv_find_slot kv_inv_seq_rm kv_inv_seq_cp kv_inv_clear)

lemma kv_ops_inv: "kv_inv c \<Longrightarrow> list_all kv_op_ok ops \<Longrightarrow> kv_inv (foldl kv_op_step c ops)"
  by (induction ops arbitrary: c) (simp_all add: kv_op_step_inv)

section \<open>Witnesses\<close>

definition demo_batch :: "batch_entry list" where
  "demo_batch = [\<lparr>b_token = 7, b_pos = 0, b_seq_id = [0], b_logits = False\<rparr>,
                 \<lparr>b_token = 8, b_pos = 1, b_seq_id = [0], b_logits = True\<rparr>]"

definition demo_cache :: kv_cache where
  "demo_cache = snd (kv_cache_find_slot (kv_cache_init 4) demo_batch)"

lemma demo_batch_ok: "batch_ok demo_batch"
  by (simp add: batch_ok_def demo_batch_def int_max_def)

lemma demo_inv: "kv_inv demo_cache"
  by (simp add: demo_cache_def kv_inv_find_slot kv_inv_init demo_batch_ok)

lemma demo_slot: "kv_cache_find_slot (kv_cache_init 4) demo_batch = (True,
   \<lparr>kv_head = 0, kv_size = 4, kv_cells = [\<lparr>kc_pos = 0, kc_seq = {0}\<rparr>, \<lparr>kc_pos = 1, kc_seq = {0}\<rparr>,
      empty_cell, empty_cell]\<rparr>)"
  by (simp add: kv_cache_find_slot_def kv_cache_init_def demo_batch_def slot_loop.simps first_used_def
      upt_rec occupy_def empty_cell_def cell_free_def numeral_eq_Suc)

lemma demo_cache_eq: "demo_cache = 
   \<lparr>kv_head = 0, kv_size = 4, kv_cells = [\<lparr>kc_pos = 0, kc_seq = {0}\<rparr>, \<lparr>kc_pos = 1, kc_seq = {0}\<rparr>,
      empty_cell, empty_cell]\<rparr>"
  by (simp add: demo_cache_def demo_slot)

lemma demo_seqs: "seq_cells demo_cache g = (if g = 0 then {0, 1} else {})"
proof -
  have "has_seq_id (kv_cells demo_cache ! 0) g = (g = 0)" "has_seq_id (kv_cells demo_cache ! 1) g = (g = 0)"
      "\<not> has_seq_id (kv_cells demo_cache ! 2) g" "\<not> has_seq_id (kv_cells demo_cache ! 3) g"
    by (simp_all add: demo_cache_eq has_seq_id_def empty_cell_def)
  moreover have "seq_cells demo_cache g = set (filter (\<lambda>i. has_seq_id (kv_cells demo_cache ! i) g) [0 ..< 4])"
    by (auto simp: seq_cells_def demo_cache_eq)
  moreover have "[0 ..< 4] = [0, 1, 2, 3 :: nat]" by (simp add: upt_rec)
  ultimately show ?thesis by (simp only: filter.simps) simp
qed

theorem find_slot_exact_witness:
  "\<exists>s. free_run (kv_cells (kv_cache_init 4)) (length demo_batch) s"
  using find_slot_exact [OF kv_inv_init demo_slot] by simp

theorem seq_rm_exact_witness:
  "kv_inv (kv_cache_seq_rm demo_cache 0 1 (-1)) \<and> seq_cells (kv_cache_seq_rm demo_cache 0 1 (-1)) 0 = {0}"
proof -
  have "{0, 1} - {i. in_range 1 (-1) (kv_cells demo_cache ! i)} = {0 :: nat}"
    by (auto simp: demo_cache_eq in_range_def pos_from_def pos_to_def int_max_def)
  then show ?thesis using seq_rm_exact [OF demo_inv, of 0 1 "-1" 0 0] by (simp add: demo_seqs)
qed

theorem beam_kv_swap_witness:
  "kv_inv (beam_kv_update demo_cache [(0, 0), (1, 0)]) \<and>
   seq_cells (beam_kv_update demo_cache [(0, 0), (1, 0)]) 1 = {0, 1}"
  using beam_kv_swap [OF demo_inv, of "[(0, 0), (1, 0)]" 1] by (simp add: demo_seqs)

theorem decode_mask_exact_witness:
  "\<exists>n msk. kv_head demo_cache + 1 < n \<and> \<not> msk ! (1 * n + (kv_head demo_cache + 1)) \<and>
     decode_setup (kv_cache_init 4) demo_batch (kv_cache_get_padding False False No_Accelerator) =
       Some (demo_cache, n, msk)"
proof -
  have len: "1 < length demo_batch" "1 < kv_size (kv_cache_init 4)"
    by (simp_all add: demo_batch_def kv_cache_init_def)
  have "kv_used demo_cache 1 = Some 2"
    by (simp add: kv_used_def kv_cache_cell_max_def demo_cache_eq numeral_eq_Suc empty_cell_def ggml_pad_def)
  then have "decode_setup (kv_cache_init 4) demo_batch (kv_cache_get_padding False False No_Accelerator) =
      Some (demo_cache, 2, kq_mask (kv_cells demo_cache) demo_batch 2)"
    by (simp add: decode_setup_def demo_slot demo_cache_def kv_cache_get_padding_def)
  moreover from decode_mask_exact [OF kv_inv_init demo_batch_ok _ _ this, of 1 1]
  have "kv_head demo_cache + 1 < 2 \<and>
      \<not> kq_mask (kv_cells demo_cache) demo_batch 2 ! (1 * 2 + (kv_head demo_cache + 1))"
    using len by blast
  ultimately show ?thesis by blast
qed

end
