(* ===== verification/Vocab.thy ===== *)
theory Vocab
  imports Strings
begin

text \<open>
  The vocabulary of \<open>src/src/whisper.cpp\<close>: the table of languages, the special tokens and the words made up for
  them while a model is loaded, and the tokenizer.  The words of the model file are parameters.
\<close>

section \<open>Languages\<close>

text \<open>Code, id and name; the code looks a language up by any of the three.\<close>

definition g_lang :: "(string \<times> int \<times> string) list" where
  "g_lang = [
    (''en'', 0, ''english''), (''zh'', 1, ''chinese''), (''de'', 2, ''german''), (''es'', 3, ''spanish''),
    (''ru'', 4, ''russian''), (''ko'', 5, ''korean''), (''fr'', 6, ''french''), (''ja'', 7, ''japanese''),
    (''pt'', 8, ''portuguese''), (''tr'', 9, ''turkish''), (''pl'', 10, ''polish''),
    (''ca'', 11, ''catalan''), (''nl'', 12, ''dutch''), (''ar'', 13, ''arabic''),
    (''sv'', 14, ''swedish''), (''it'', 15, ''italian''), (''id'', 16, ''indonesian''),
    (''hi'', 17, ''hindi''), (''fi'', 18, ''finnish''), (''vi'', 19, ''vietnamese''),
    (''he'', 20, ''hebrew''), (''uk'', 21, ''ukrainian''), (''el'', 22, ''greek''),
    (''ms'', 23, ''malay''), (''cs'', 24, ''czech''), (''ro'', 25, ''romanian''),
    (''da'', 26, ''danish''), (''hu'', 27, ''hungarian''), (''ta'', 28, ''tamil''),
    (''no'', 29, ''norwegian''), (''th'', 30, ''thai''), (''ur'', 31, ''urdu''),
    (''hr'', 32, ''croatian''), (''bg'', 33, ''bulgarian''), (''lt'', 34, ''lithuanian''),
    (''la'', 35, ''latin''), (''mi'', 36, ''maori''), (''ml'', 37, ''malayalam''),
    (''cy'', 38, ''welsh''), (''sk'', 39, ''slovak''), (''te'', 40, ''telugu''),
    (''fa'', 41, ''persian''), (''lv'', 42, ''latvian''), (''bn'', 43, ''bengali''),
    (''sr'', 44, ''serbian''), (''az'', 45, ''azerbaijani''), (''sl'', 46, ''slovenian''),
    (''kn'', 47, ''kannada''), (''et'', 48, ''estonian''), (''mk'', 49, ''macedonian''),
    (''br'', 50, ''breton''), (''eu'', 51, ''basque''), (''is'', 52, ''icelandic''),
    (''hy'', 53, ''armenian''), (''ne'', 54, ''nepali''), (''mn'', 55, ''mongolian''),
    (''bs'', 56, ''bosnian''), (''kk'', 57, ''kazakh''), (''sq'', 58, ''albanian''),
    (''sw'', 59, ''swahili''), (''gl'', 60, ''galician''), (''mr'', 61, ''marathi''),
    (''pa'', 62, ''punjabi''), (''si'', 63, ''sinhala''), (''km'', 64, ''khmer''),
    (''sn'', 65, ''shona''), (''yo'', 66, ''yoruba''), (''so'', 67, ''somali''),
    (''af'', 68, ''afrikaans''), (''oc'', 69, ''occitan''), (''ka'', 70, ''georgian''),
    (''be'', 71, ''belarusian''), (''tg'', 72, ''tajik''), (''sd'', 73, ''sindhi''),
    (''gu'', 74, ''gujarati''), (''am'', 75, ''amharic''), (''yi'', 76, ''yiddish''),
    (''lo'', 77, ''lao''), (''uz'', 78, ''uzbek''), (''fo'', 79, ''faroese''),
    (''ht'', 80, ''haitian creole''), (''ps'', 81, ''pashto''), (''tk'', 82, ''turkmen''),
    (''nn'', 83, ''nynorsk''), (''mt'', 84, ''maltese''), (''sa'', 85, ''sanskrit''),
    (''lb'', 86, ''luxembourgish''), (''my'', 87, ''myanmar''), (''bo'', 88, ''tibetan''),
    (''tl'', 89, ''tagalog''), (''mg'', 90, ''malagasy''), (''as'', 91, ''assamese''),
    (''tt'', 92, ''tatar''), (''haw'', 93, ''hawaiian''), (''ln'', 94, ''lingala''),
    (''ha'', 95, ''hausa''), (''ba'', 96, ''bashkir''), (''jw'', 97, ''javanese''),
    (''su'', 98, ''sundanese''), (''yue'', 99, ''cantonese'')]"

definition whisper_lang_max_id :: int where
  "whisper_lang_max_id = foldl max 0 (map (\<lambda>e. fst (snd e)) g_lang)"

text \<open>\<open>g_lang\<close> is searched by its key first, then by the name of each language.\<close>

definition whisper_lang_id :: "string \<Rightarrow> int" where
  "whisper_lang_id lang =
     (case map_of g_lang lang of
        Some e \<Rightarrow> fst e
      | None \<Rightarrow> (case List.find (\<lambda>e. snd (snd e) = lang) g_lang of None \<Rightarrow> -1 | Some e \<Rightarrow> fst (snd e)))"

definition whisper_lang_str :: "int \<Rightarrow> string option" where
  "whisper_lang_str i = map_option fst (List.find (\<lambda>e. fst (snd e) = i) g_lang)"

definition whisper_lang_str_full :: "int \<Rightarrow> string option" where
  "whisper_lang_str_full i = map_option (\<lambda>e. snd (snd e)) (List.find (\<lambda>e. fst (snd e) = i) g_lang)"

lemma lang_ids: "map (\<lambda>e. fst (snd e)) g_lang = [0 .. 99]"
  by code_simp

lemma lang_codes_distinct: "distinct (map fst g_lang)"
  by (simp add: g_lang_def)

lemma lang_names_distinct: "distinct (map (\<lambda>e. snd (snd e)) g_lang)"
  by (simp add: g_lang_def)

lemma lang_codes_short: "list_all (\<lambda>e. length (fst e) \<le> 3 \<and> fst e \<noteq> ''lao'') g_lang"
  by (simp add: g_lang_def)

lemma lang_names_long: "list_all (\<lambda>e. 3 < length (snd (snd e)) \<or> snd (snd e) = ''lao'') g_lang"
  by (simp add: g_lang_def)

lemma lang_names_no_codes: "e \<in> set g_lang \<Longrightarrow> map_of g_lang (snd (snd e)) = None"
  using lang_codes_short lang_names_long unfolding list_all_iff map_of_eq_None_iff by fastforce

lemma lang_max: "whisper_lang_max_id = 99"
  by code_simp

lemma find_distinct: "distinct (map f xs) \<Longrightarrow> e \<in> set xs \<Longrightarrow> List.find (\<lambda>x. f x = f e) xs = Some e"
  by (induction xs) (auto simp: image_iff)

lemma lang_entry:
  assumes "e \<in> set g_lang"
  shows "whisper_lang_str (fst (snd e)) = Some (fst e)" "whisper_lang_str_full (fst (snd e)) = Some (snd (snd e))"
    "whisper_lang_id (fst e) = fst (snd e)" "whisper_lang_id (snd (snd e)) = fst (snd e)"
proof -
  have "List.find (\<lambda>x. fst (snd x) = fst (snd e)) g_lang = Some e"
    using find_distinct [OF _ assms, of "\<lambda>x. fst (snd x)"] by (simp add: lang_ids)
  then show "whisper_lang_str (fst (snd e)) = Some (fst e)" "whisper_lang_str_full (fst (snd e)) = Some (snd (snd e))"
    by (simp_all add: whisper_lang_str_def whisper_lang_str_full_def)
  have "map_of g_lang (fst e) = Some (snd e)" using assms lang_codes_distinct by simp
  then show "whisper_lang_id (fst e) = fst (snd e)" by (simp add: whisper_lang_id_def)
  have "map_of g_lang (snd (snd e)) = None" by (rule lang_names_no_codes [OF assms])
  moreover have "List.find (\<lambda>x. snd (snd x) = snd (snd e)) g_lang = Some e"
    by (rule find_distinct [OF lang_names_distinct assms])
  ultimately show "whisper_lang_id (snd (snd e)) = fst (snd e)" by (simp add: whisper_lang_id_def)
qed

text \<open>
  Looking a language up by its code or by its name gives the id it was found with, for just the ids
  from 0 to the greatest.
\<close>

theorem lang_round_trip:
  "(\<exists>s f. whisper_lang_str i = Some s \<and> whisper_lang_str_full i = Some f \<and>
      whisper_lang_id s = i \<and> whisper_lang_id f = i) = (0 \<le> i \<and> i \<le> whisper_lang_max_id)"
proof -
  have ids: "0 \<le> i \<and> i \<le> 99 \<longleftrightarrow> i \<in> (\<lambda>e. fst (snd e)) ` set g_lang"
    using arg_cong [OF lang_ids, of set] by auto
  show ?thesis unfolding lang_max ids
  proof
    assume "i \<in> (\<lambda>e. fst (snd e)) ` set g_lang"
    then show "\<exists>s f. whisper_lang_str i = Some s \<and> whisper_lang_str_full i = Some f \<and>
        whisper_lang_id s = i \<and> whisper_lang_id f = i"
      using lang_entry by blast
  next
    assume "\<exists>s f. whisper_lang_str i = Some s \<and> whisper_lang_str_full i = Some f \<and>
        whisper_lang_id s = i \<and> whisper_lang_id f = i"
    then have "List.find (\<lambda>e. fst (snd e) = i) g_lang \<noteq> None" by (auto simp: whisper_lang_str_def)
    then show "i \<in> (\<lambda>e. fst (snd e)) ` set g_lang" unfolding find_None_iff by blast
  qed
qed

section \<open>Special tokens\<close>

record vocab =
  v_n_vocab :: int
  v_token_to_id :: "string \<rightharpoonup> int"
  v_id_to_token :: "int \<rightharpoonup> string"
  v_eot :: int
  v_sot :: int
  v_translate :: int
  v_transcribe :: int
  v_solm :: int
  v_prev :: int
  v_nosp :: int
  v_not :: int
  v_beg :: int

definition vocab_default :: vocab where
  "vocab_default = \<lparr>v_n_vocab = 51864, v_token_to_id = Map.empty, v_id_to_token = Map.empty,
     v_eot = 50256, v_sot = 50257, v_translate = 50357, v_transcribe = 50358, v_solm = 50359,
     v_prev = 50360, v_nosp = 50361, v_not = 50362, v_beg = 50363\<rparr>"

definition is_multilingual :: "vocab \<Rightarrow> bool" where
  "is_multilingual v \<longleftrightarrow> v_n_vocab v \<ge> 51865"

definition num_languages :: "vocab \<Rightarrow> int" where
  "num_languages v = v_n_vocab v - 51765 - (if is_multilingual v then 1 else 0)"

definition whisper_token_lang :: "vocab \<Rightarrow> int \<Rightarrow> int" where
  "whisper_token_lang v lang_id = v_sot v + 1 + lang_id"

text \<open>The entry of one word: \<open>token_to_id[word] = i; id_to_token[i] = word\<close>.\<close>

definition add_word :: "vocab \<Rightarrow> int \<times> string \<Rightarrow> vocab" where
  "add_word v e = v\<lparr>v_token_to_id := (v_token_to_id v)(snd e \<mapsto> fst e),
     v_id_to_token := (v_id_to_token v)(fst e \<mapsto> snd e)\<rparr>"

definition place_special :: "vocab \<Rightarrow> int \<Rightarrow> vocab" where
  "place_special v n_vocab =
     (let v1 = v\<lparr>v_n_vocab := n_vocab\<rparr>
      in if is_multilingual v1
         then (let dt = num_languages v1 - 98
               in v1\<lparr>v_eot := v_eot v1 + 1, v_sot := v_sot v1 + 1, v_translate := v_translate v1 + dt,
                     v_transcribe := v_transcribe v1 + dt, v_solm := v_solm v1 + dt, v_prev := v_prev v1 + dt,
                     v_nosp := v_nosp v1 + dt, v_not := v_not v1 + dt, v_beg := v_beg v1 + dt\<rparr>)
         else v1)"

text \<open>\<^term>\<open>None\<close> where \<open>std::string\<close> would be made of the null pointer of an unknown language.\<close>

definition extra_word :: "vocab \<Rightarrow> int \<Rightarrow> string option" where
  "extra_word v i =
     (if i > v_beg v then Some (''[_TT_'' @ int_str (i - v_beg v) @ '']'')
      else if i = v_eot v then Some ''[_EOT_]''
      else if i = v_sot v then Some ''[_SOT_]''
      else if i = v_translate v then Some ''[_TRANSLATE_]''
      else if i = v_transcribe v then Some ''[_TRANSCRIBE_]''
      else if i = v_solm v then Some ''[_SOLM_]''
      else if i = v_prev v then Some ''[_PREV_]''
      else if i = v_nosp v then Some ''[_NOSP_]''
      else if i = v_not v then Some ''[_NOT_]''
      else if i = v_beg v then Some ''[_BEG_]''
      else if i > v_sot v \<and> i \<le> v_sot v + num_languages v
      then map_option (\<lambda>s. ''[_LANG_'' @ s @ '']'') (whisper_lang_str (i - v_sot v - 1))
      else Some (''[_extra_token_'' @ int_str i @ '']''))"

fun add_extra :: "vocab \<Rightarrow> int list \<Rightarrow> vocab option" where
  "add_extra v [] = Some v"
| "add_extra v (i # is) = (case extra_word v i of None \<Rightarrow> None | Some w \<Rightarrow> add_extra (add_word v (i, w)) is)"

definition load_vocab :: "string list \<Rightarrow> int \<Rightarrow> vocab option" where
  "load_vocab words n_vocab =
     (let v = foldl add_word vocab_default (zip [0 .. int (length words) - 1] words)
      in add_extra (place_special v n_vocab) [int (length words) .. n_vocab - 1])"

section \<open>The tokenizer\<close>

text \<open>
  The words of a text.  The regular expression
  \<open>'s|'t|'re|'ve|'m|'ll|'d| ?[[:alpha:]]+| ?[[:digit:]]+| ?[^\s[:alpha:][:digit:]]+|\s+(?!\S)|\s+\<close>
  matches at the start of every text that is not empty; this is how much of it.
\<close>

definition contractions :: "string list" where
  "contractions = map ((#) (CHR 0x27)) [''s'', ''t'', ''re'', ''ve'', ''m'', ''ll'', ''d'']"


definition lead_run :: "(char \<Rightarrow> bool) \<Rightarrow> string \<Rightarrow> nat" where
  "lead_run P s = length (takeWhile P s)"

text \<open>\<open> ?P+\<close>: one blank may come before the run.\<close>

definition spaced_run :: "(char \<Rightarrow> bool) \<Rightarrow> string \<Rightarrow> nat" where
  "spaced_run P s =
     (case s of [] \<Rightarrow> 0
      | c # r \<Rightarrow> if c = CHR '' '' \<and> lead_run P r > 0 then Suc (lead_run P r) else lead_run P s)"

definition isother :: "char \<Rightarrow> bool" where
  "isother c \<longleftrightarrow> \<not> isspace c \<and> \<not> isalpha c \<and> \<not> isdigit c"

text \<open>\<open>\s+(?!\S)|\s+\<close>: a run of blanks gives its last one back to the word after it, if it has more.\<close>

definition blank_run :: "string \<Rightarrow> nat" where
  "blank_run s = (let n = lead_run isspace s in if n = length s \<or> n \<le> 1 then n else n - 1)"

definition word_match :: "string \<Rightarrow> nat" where
  "word_match s =
     (case List.find (\<lambda>p. take (length p) s = p) contractions of
        Some p \<Rightarrow> length p
      | None \<Rightarrow>
          (if spaced_run isalpha s > 0 then spaced_run isalpha s
           else if spaced_run isdigit s > 0 then spaced_run isdigit s
           else if spaced_run isother s > 0 then spaced_run isother s
           else blank_run s))"

text \<open>The search would skip what does not match; \<open>word_match_pos\<close> below shows that there is nothing to skip.\<close>

function split_words :: "string \<Rightarrow> string list" where
  "split_words s =
     (if s = [] \<or> word_match s = 0 then []
      else take (word_match s) s # split_words (drop (word_match s) s))"
  by pat_completeness auto
termination
  by (relation "measure length") auto

declare split_words.simps [simp del]

text \<open>The longest prefix that is a token, from the whole word downwards.\<close>

definition longest_token :: "vocab \<Rightarrow> string \<Rightarrow> nat option" where
  "longest_token v w = List.find (\<lambda>j. v_token_to_id v (take j w) \<noteq> None) (rev [1 ..< Suc (length w)])"

function tokenize_word :: "vocab \<Rightarrow> string \<Rightarrow> int list" where
  "tokenize_word v w =
     (if w = [] then []
      else case longest_token v w of
        Some j \<Rightarrow> (if j = 0 then [] else the (v_token_to_id v (take j w)) # tokenize_word v (drop j w))
      | None \<Rightarrow> tokenize_word v (tl w))"
  by pat_completeness auto
termination
  by (relation "measure (length \<circ> snd)") auto

declare tokenize_word.simps [simp del]

definition tokenize :: "vocab \<Rightarrow> string \<Rightarrow> int list" where
  "tokenize v text = concat (map (tokenize_word v) (filter (\<lambda>w. w \<noteq> []) (split_words text)))"

text \<open>The number of tokens and, if there is room for them, the tokens written.\<close>

definition whisper_tokenize :: "vocab \<Rightarrow> string \<Rightarrow> int \<Rightarrow> int \<times> int list" where
  "whisper_tokenize v text n_max_tokens =
     (let res = tokenize v text
      in if n_max_tokens < int (length res) then (- int (length res), []) else (int (length res), res))"

definition whisper_token_count :: "vocab \<Rightarrow> string \<Rightarrow> int" where
  "whisper_token_count v text = - fst (whisper_tokenize v text 0)"

text \<open>The same loop in \<open>src/common/common.cpp\<close>, over the last position of the candidate.\<close>

fun gpt_scan :: "vocab \<Rightarrow> string \<Rightarrow> nat \<Rightarrow> int option \<times> nat" where
  "gpt_scan v w 0 = (v_token_to_id v (take 1 w), 1)"
| "gpt_scan v w (Suc j) =
     (case v_token_to_id v (take (Suc (Suc j)) w) of
        Some t \<Rightarrow> (Some t, Suc (Suc j))
      | None \<Rightarrow> gpt_scan v w j)"

lemma gpt_scan_pos [simp]: "0 < snd (gpt_scan v w j)"
  by (induction j) (auto split: option.splits)

function gpt_tokenize_word :: "vocab \<Rightarrow> string \<Rightarrow> int list" where
  "gpt_tokenize_word v w =
     (if w = [] then []
      else (case fst (gpt_scan v w (length w - 1)) of Some i \<Rightarrow> [i] | None \<Rightarrow> []) @
        gpt_tokenize_word v (drop (snd (gpt_scan v w (length w - 1))) w))"
  by pat_completeness auto
termination
  by (relation "measure (length \<circ> snd)") auto

declare gpt_tokenize_word.simps [simp del]

lemma isspace_cases: "isspace c \<or> isalpha c \<or> isdigit c \<or> isother c"
  by (auto simp: isother_def)

lemma word_match_pos:
  assumes "s \<noteq> []"
  shows "0 < word_match s"
proof -
  obtain c r where s: "s = c # r" using assms by (cases s) auto
  have run: "P c \<Longrightarrow> 0 < spaced_run P s" for P by (simp add: spaced_run_def lead_run_def s)
  have "isspace c \<Longrightarrow> 0 < blank_run s" by (auto simp: blank_run_def lead_run_def Let_def s)
  moreover have "0 < length p" if "List.find (\<lambda>p. take (length p) s = p) contractions = Some p" for p
    using that by (auto simp: contractions_def split: if_splits)
  ultimately show ?thesis using isspace_cases [of c] run [of isalpha] run [of isdigit] run [of isother]
    by (auto simp: word_match_def split: option.splits)
qed

lemma concat_split_words: "concat (split_words s) = s"
proof (induction s rule: split_words.induct)
  case (1 s)
  show ?case
  proof (cases "s = []")
    case False
    then show ?thesis using 1 word_match_pos [OF False] by (subst split_words.simps) simp
  qed (simp add: split_words.simps)
qed

lemma longest_token_None: "longest_token v w = None \<longleftrightarrow> (\<forall>j. 1 \<le> j \<and> j \<le> length w \<longrightarrow> v_token_to_id v (take j w) = None)"
  by (auto simp: longest_token_def find_None_iff)

lemma longest_token_Some: "longest_token v w = Some j \<Longrightarrow> 1 \<le> j \<and> j \<le> length w \<and> v_token_to_id v (take j w) \<noteq> None"
  unfolding longest_token_def find_Some_iff
  by (metis (no_types, lifting) atLeastLessThan_iff le_SucE less_Suc_eq_le nth_mem set_rev set_upt)

definition inverse_on :: "vocab \<Rightarrow> bool" where
  "inverse_on v \<longleftrightarrow> (\<forall>w i. v_token_to_id v w = Some i \<longrightarrow> v_id_to_token v i = Some w)"

definition tokens_text :: "vocab \<Rightarrow> int list \<Rightarrow> string" where
  "tokens_text v ids = concat (map (\<lambda>i. the (v_id_to_token v i)) ids)"

lemma tokens_text_append: "tokens_text v (xs @ ys) = tokens_text v xs @ tokens_text v ys"
  by (simp add: tokens_text_def)

text \<open>
  The contract of a tokenizer of words: the longest token that begins the word, then the rest of it, and a
  character that begins no token is skipped.  Both tokenizers keep it; it determines the tokens.
\<close>

locale longest_match =
  fixes tok :: "vocab \<Rightarrow> string \<Rightarrow> int list"
  assumes tok_empty: "tok v [] = []"
    and tok_match: "longest_token v w = Some j \<Longrightarrow> tok v w = the (v_token_to_id v (take j w)) # tok v (drop j w)"
    and tok_skip: "w \<noteq> [] \<Longrightarrow> longest_token v w = None \<Longrightarrow> tok v w = tok v (tl w)"
begin

lemma spells:
  "inverse_on v \<Longrightarrow> \<forall>c \<in> set w. v_token_to_id v [c] \<noteq> None \<Longrightarrow> tokens_text v (tok v w) = w"
proof (induction "length w" arbitrary: w rule: less_induct)
  case less
  show ?case
  proof (cases "w = []")
    case False
    obtain j where j: "longest_token v w = Some j"
    proof (cases "longest_token v w")
      case None
      then have "v_token_to_id v (take 1 w) = None" using False longest_token_None [of v w] by (cases w) auto
      moreover have "take 1 w = [hd w]" using False by (cases w) auto
      ultimately show ?thesis using less.prems(2) False by (metis list.set_sel(1))
    qed auto
    obtain i where i: "1 \<le> j" "v_token_to_id v (take j w) = Some i" using longest_token_Some [OF j] by auto
    have "tokens_text v (tok v (drop j w)) = drop j w"
      using less.hyps [of "drop j w"] i(1) less.prems False by (auto dest: in_set_dropD)
    moreover have "v_id_to_token v i = Some (take j w)" using less.prems(1) i(2) by (auto simp: inverse_on_def)
    ultimately show ?thesis using i tok_match [OF j] by (simp add: tokens_text_def)
  qed (simp add: tok_empty tokens_text_def)
qed

lemma determined:
  assumes "\<And>v. tok' v [] = []"
    and "\<And>v w j. longest_token v w = Some j \<Longrightarrow> tok' v w = the (v_token_to_id v (take j w)) # tok' v (drop j w)"
    and "\<And>v w. w \<noteq> [] \<Longrightarrow> longest_token v w = None \<Longrightarrow> tok' v w = tok' v (tl w)"
  shows "tok v w = tok' v w"
proof (induction "length w" arbitrary: w rule: less_induct)
  case less
  show ?case
  proof (cases "longest_token v w")
    case None
    then show ?thesis using less.hyps [of "tl w"] assms(1,3) tok_empty tok_skip by (cases "w = []") auto
  next
    case (Some j)
    then have "length (drop j w) < length w" using longest_token_Some [OF Some] by auto
    then show ?thesis using less.hyps assms(2) [OF Some] tok_match [OF Some] by simp
  qed
qed

end

interpretation whisper_words: longest_match tokenize_word
proof
  fix v w j assume "longest_token v w = Some j"
  then show "tokenize_word v w = the (v_token_to_id v (take j w)) # tokenize_word v (drop j w)"
    using longest_token_Some [of v w j] by (subst tokenize_word.simps) auto
qed (subst tokenize_word.simps, simp)+

lemma concat_filter_empty: "concat (filter (\<lambda>w. w \<noteq> []) ws) = concat ws"
  by (induction ws) auto

text \<open>
  C41: tokens spell the text they were made of.  If every byte of the text is a token and
  \<open>id_to_token\<close> inverts \<open>token_to_id\<close>, the words of the tokens put together are the text again; and
  \<open>whisper_token_count\<close> is the number of tokens whatever the room.
\<close>

theorem tokenize_round_trip:
  assumes "inverse_on v" "\<forall>c \<in> set s. v_token_to_id v [c] \<noteq> None"
  shows "tokens_text v (tokenize v s) = s \<and>
    whisper_token_count v s = int (length (tokenize v s))"
proof -
  have words: "\<forall>w \<in> set (split_words s). set w \<subseteq> set s"
    using concat_split_words [of s] by (metis UN_upper set_concat)
  have "tokens_text v (concat (map (tokenize_word v) ws)) = concat ws"
    if "\<forall>w \<in> set ws. set w \<subseteq> set s" for ws
    using that
  proof (induction ws)
    case (Cons w ws)
    have "tokens_text v (tokenize_word v w) = w"
      using Cons.prems assms(2) by (intro whisper_words.spells [OF assms(1)]) auto
    then show ?case using Cons by (simp add: tokens_text_append)
  qed (simp add: tokens_text_def)
  moreover have "concat (filter (\<lambda>w. w \<noteq> []) (split_words s)) = s"
    using concat_split_words [of s] by (simp add: concat_filter_empty)
  moreover have "\<forall>w \<in> set (filter (\<lambda>w. w \<noteq> []) (split_words s)). set w \<subseteq> set s" using words by simp
  ultimately have "tokens_text v (tokenize v s) = s" unfolding tokenize_def by metis
  then show ?thesis by (simp add: whisper_token_count_def whisper_tokenize_def Let_def)
qed

lemma gpt_scan_longest:
  "gpt_scan v w j = (case List.find (\<lambda>j. v_token_to_id v (take j w) \<noteq> None) (rev [1 ..< Suc (Suc j)]) of
     Some k \<Rightarrow> (v_token_to_id v (take k w), k) | None \<Rightarrow> (None, 1))"
  by (induction j) (auto split: option.splits)

interpretation gpt_words: longest_match gpt_tokenize_word
proof
  fix v w
  have scan: "gpt_scan v w (length w - 1) = (case longest_token v w of
      Some k \<Rightarrow> (v_token_to_id v (take k w), k) | None \<Rightarrow> (None, 1))" if "w \<noteq> []"
    using that by (simp add: gpt_scan_longest longest_token_def)
  show "gpt_tokenize_word v [] = []" by (simp add: gpt_tokenize_word.simps)
  show "gpt_tokenize_word v w = gpt_tokenize_word v (tl w)" if "w \<noteq> []" "longest_token v w = None"
    using that scan by (subst gpt_tokenize_word.simps) (simp add: drop_Suc)
  show "gpt_tokenize_word v w = the (v_token_to_id v (take j w)) # gpt_tokenize_word v (drop j w)"
    if "longest_token v w = Some j" for j
    using longest_token_Some [OF that] that scan by (subst gpt_tokenize_word.simps) auto
qed

text \<open>
  C42: the tokenizer of \<open>common.cpp\<close> and the one of \<open>whisper.cpp\<close> split a word into the same tokens.
\<close>

theorem tokenizers_agree: "gpt_tokenize_word v w = tokenize_word v w"
  by (rule gpt_words.determined [OF whisper_words.tok_empty whisper_words.tok_match whisper_words.tok_skip])

section \<open>The special tokens in order\<close>

text \<open>
  For every vocabulary of at least 51864 entries the special tokens lie in one gapless order: the end
  and the start of a transcript, one token per language, the task and control tokens, and then 1501
  timestamps, from 0 to 30 seconds in steps of 20 milliseconds.
\<close>

theorem special_tokens_layout:
  assumes "51864 \<le> n" and "v = place_special vocab_default n"
  shows "v_eot v < v_sot v \<and> v_translate v = whisper_token_lang v (num_languages v) \<and>
    v_transcribe v = v_translate v + 1 \<and> v_solm v = v_translate v + 2 \<and> v_prev v = v_translate v + 3 \<and>
    v_nosp v = v_translate v + 4 \<and> v_not v = v_translate v + 5 \<and> v_beg v = v_translate v + 6 \<and>
    v_n_vocab v - v_beg v = 1501 \<and> 99 \<le> num_languages v"
  using assms by (simp add: place_special_def vocab_default_def is_multilingual_def num_languages_def Let_def
      whisper_token_lang_def)

lemma special_tokens_layout_witness:
  "v_beg (place_special vocab_default 51865) = 50364 \<and>
   v_n_vocab (place_special vocab_default 51865) - v_beg (place_special vocab_default 51865) = 1501"
proof -
  have "v_n_vocab (place_special vocab_default 51865) - v_beg (place_special vocab_default 51865) = 1501"
    using special_tokens_layout [of 51865, OF _ refl] by simp
  then show ?thesis
    by (simp add: place_special_def vocab_default_def is_multilingual_def num_languages_def Let_def)
qed

definition demo_vocab :: vocab where
  "demo_vocab = foldl add_word vocab_default [(0, ''a''), (1, ''b''), (2, ''ab''), (3, '' '')]"

lemma demo_vocab_eq: "v_token_to_id demo_vocab = [''a'' \<mapsto> 0, ''b'' \<mapsto> 1, ''ab'' \<mapsto> 2, '' '' \<mapsto> 3]"
  "v_id_to_token demo_vocab = [0 \<mapsto> ''a'', 1 \<mapsto> ''b'', 2 \<mapsto> ''ab'', 3 \<mapsto> '' '']"
  by (simp_all add: demo_vocab_def add_word_def vocab_default_def)

lemma demo_inverse: "inverse_on demo_vocab"
  by (simp add: inverse_on_def demo_vocab_eq)

theorem tokenize_round_trip_witness:
  "tokens_text demo_vocab (tokenize demo_vocab ''ab a'') = ''ab a''"
  using tokenize_round_trip [OF demo_inverse, of "''ab a''"] by (simp add: demo_vocab_eq)

end
