(* ===== verification/Floats.thy ===== *)
theory Floats
  imports Prelude Complex_Main
begin

text \<open>
  Floating-point numbers.  The code computes with \<open>float\<close> and \<open>double\<close>; what it does with them is kept
  operation by operation, over a record of the operations themselves, so that no rounding is idealised
  away.  Of the operations only the laws of \<open>float_laws\<close> are used: the order of IEEE numbers without
  NaN, and that nothing lies below minus infinity.
\<close>

record 'f float_ops =
  fl_lt :: "'f \<Rightarrow> 'f \<Rightarrow> bool"
  fl_le :: "'f \<Rightarrow> 'f \<Rightarrow> bool"
  fl_add :: "'f \<Rightarrow> 'f \<Rightarrow> 'f"
  fl_sub :: "'f \<Rightarrow> 'f \<Rightarrow> 'f"
  fl_mul :: "'f \<Rightarrow> 'f \<Rightarrow> 'f"
  fl_div :: "'f \<Rightarrow> 'f \<Rightarrow> 'f"
  fl_exp :: "'f \<Rightarrow> 'f"
  fl_log :: "'f \<Rightarrow> 'f"
  fl_pow :: "'f \<Rightarrow> 'f \<Rightarrow> 'f"
  fl_lit :: "rat \<Rightarrow> 'f"
  fl_trunc :: "'f \<Rightarrow> int"
  fl_round :: "'f \<Rightarrow> int"
  fl_ninf :: 'f

abbreviation fl_zero :: "'f float_ops \<Rightarrow> 'f" where
  "fl_zero F \<equiv> fl_lit F 0"

text \<open>The order is total and strict below \<open>\<le>\<close>, and minus infinity is its least element.\<close>

definition float_laws :: "'f float_ops \<Rightarrow> bool" where
  "float_laws F \<longleftrightarrow>
     (\<forall>x. \<not> fl_lt F x x) \<and> (\<forall>x y z. fl_lt F x y \<longrightarrow> fl_lt F y z \<longrightarrow> fl_lt F x z) \<and>
     (\<forall>x y. fl_le F x y \<longleftrightarrow> \<not> fl_lt F y x) \<and> (\<forall>x y. fl_lt F x y \<or> fl_lt F y x \<or> x = y) \<and>
     (\<forall>x. \<not> fl_lt F x (fl_ninf F))"

lemma float_irrefl: "float_laws F \<Longrightarrow> \<not> fl_lt F x x"
  by (simp add: float_laws_def)

lemma float_trans: "float_laws F \<Longrightarrow> fl_lt F x y \<Longrightarrow> fl_lt F y z \<Longrightarrow> fl_lt F x z"
  unfolding float_laws_def by blast

lemma float_total: "float_laws F \<Longrightarrow> fl_lt F x y \<or> fl_lt F y x \<or> x = y"
  unfolding float_laws_def by blast

lemma float_ninf: "float_laws F \<Longrightarrow> \<not> fl_lt F x (fl_ninf F)"
  by (simp add: float_laws_def)

lemma float_le: "float_laws F \<Longrightarrow> fl_le F x y \<longleftrightarrow> \<not> fl_lt F y x"
  by (simp add: float_laws_def)

lemma float_above_ninf: "float_laws F \<Longrightarrow> fl_lt F (fl_ninf F) x \<longleftrightarrow> x \<noteq> fl_ninf F"
  using float_total float_ninf float_irrefl by metis

lemma float_not_lt_trans: "float_laws F \<Longrightarrow> \<not> fl_lt F y x \<Longrightarrow> \<not> fl_lt F z y \<Longrightarrow> \<not> fl_lt F z x"
  using float_total float_trans by metis

section \<open>The greatest element\<close>

text \<open>\<open>std::max_element\<close> and the loops that keep the first greatest value they meet.\<close>

fun max_from :: "'f float_ops \<Rightarrow> 'f \<Rightarrow> 'f list \<Rightarrow> 'f" where
  "max_from F m [] = m"
| "max_from F m (x # xs) = max_from F (if fl_lt F m x then x else m) xs"

text \<open>Dereferencing the result for an empty range would read past its end.\<close>

definition max_element :: "'f float_ops \<Rightarrow> 'f list \<Rightarrow> 'f option" where
  "max_element F xs = (case xs of [] \<Rightarrow> None | x # r \<Rightarrow> Some (max_from F x r))"

lemma max_from_in: "max_from F m xs = m \<or> max_from F m xs \<in> set xs"
proof (induction xs arbitrary: m)
  case (Cons y ys)
  then show ?case using Cons [of "if fl_lt F m y then y else m"] by auto
qed simp

lemma max_from_ge: "float_laws F \<Longrightarrow> x = m \<or> x \<in> set xs \<Longrightarrow> \<not> fl_lt F (max_from F m xs) x"
proof (induction xs arbitrary: m x)
  case Nil
  then show ?case by (simp add: float_irrefl)
next
  case (Cons y ys)
  define n where "n = (if fl_lt F m y then y else m)"
  have step: "\<not> fl_lt F n m" "\<not> fl_lt F n y"
    using float_irrefl [OF Cons.prems(1)] float_trans [OF Cons.prems(1)] by (auto simp: n_def)
  have eq: "max_from F m (y # ys) = max_from F n ys" by (simp add: n_def)
  have top: "\<not> fl_lt F (max_from F n ys) n" using Cons.IH [of n n] Cons.prems(1) by simp
  from Cons.prems(2) consider "x = m" | "x = y" | "x \<in> set ys" by auto
  then show ?case
  proof cases
    case 1
    then show ?thesis unfolding eq using float_not_lt_trans [OF Cons.prems(1) step(1) top] by simp
  next
    case 2
    then show ?thesis unfolding eq using float_not_lt_trans [OF Cons.prems(1) step(2) top] by simp
  next
    case 3
    then show ?thesis unfolding eq using Cons.IH [of x n] Cons.prems(1) by simp
  qed
qed

section \<open>An instance\<close>

text \<open>
  Rationals with a minus infinity, used where a theorem is applied to concrete numbers.  The exponential
  is replaced by a rational increasing function and the logarithm by its inverse.
\<close>

definition lift2 :: "(rat \<Rightarrow> rat \<Rightarrow> rat) \<Rightarrow> rat option \<Rightarrow> rat option \<Rightarrow> rat option" where
  "lift2 f x y = (case (x, y) of (Some a, Some b) \<Rightarrow> Some (f a b) | _ \<Rightarrow> None)"

definition rat_lt :: "rat option \<Rightarrow> rat option \<Rightarrow> bool" where
  "rat_lt x y \<longleftrightarrow> (case (x, y) of (None, None) \<Rightarrow> False | (None, Some _) \<Rightarrow> True
     | (Some _, None) \<Rightarrow> False | (Some a, Some b) \<Rightarrow> a < b)"

definition rat_exp :: "rat option \<Rightarrow> rat option" where
  "rat_exp x = Some (case x of None \<Rightarrow> 0 | Some a \<Rightarrow> if a \<le> 0 then 1 / (1 - a) else 1 + a)"

definition rat_log :: "rat option \<Rightarrow> rat option" where
  "rat_log x = (case x of None \<Rightarrow> None
     | Some a \<Rightarrow> if a \<le> 0 then None else if a \<le> 1 then Some (1 - 1 / a) else Some (a - 1))"

definition rat_ops :: "rat option float_ops" where
  "rat_ops = \<lparr>fl_lt = rat_lt, fl_le = (\<lambda>x y. \<not> rat_lt y x), fl_add = lift2 (+), fl_sub = lift2 (-),
     fl_mul = lift2 (*), fl_div = lift2 (/), fl_exp = rat_exp, fl_log = rat_log, fl_pow = lift2 (\<lambda>x y. x),
     fl_lit = Some, fl_trunc = (\<lambda>x. case x of None \<Rightarrow> 0 | Some a \<Rightarrow> if a < 0 then \<lceil>a\<rceil> else \<lfloor>a\<rfloor>),
     fl_round = (\<lambda>x. case x of None \<Rightarrow> 0 | Some a \<Rightarrow> round a), fl_ninf = None\<rparr>"

lemma rat_ops_laws: "float_laws rat_ops"
  unfolding float_laws_def rat_ops_def float_ops.simps rat_lt_def
  by (auto split: option.splits)

end
