(* ===== verification/Logits.thy ===== *)
theory Logits
  imports Vocab Floats
begin

text \<open>
  What \<open>src/src/whisper.cpp\<close> does with the logits of a decoding step: the filters of
  \<open>whisper_process_logits\<close>, the sampling of tokens and the score of a sequence.  The arithmetic of
  \<open>float\<close> and \<open>double\<close> and the draws of the random generator are parameters; a read or write out of
  range, and an exception of \<open>at\<close>, is \<^term>\<open>None\<close>.
\<close>

section \<open>Data\<close>

record ('f, 'd) arith =
  a_flt :: "'f float_ops"
  a_dbl :: "'d float_ops"
  a_widen :: "'f \<Rightarrow> 'd"
  a_narrow :: "'d \<Rightarrow> 'f"

record 'f token_data =
  td_id :: int
  td_tid :: int
  td_p :: 'f
  td_plog :: 'f
  td_pt :: 'f
  td_ptsum :: 'f
  td_t0 :: int
  td_t1 :: int
  td_t_dtw :: int
  td_vlen :: 'f

record 'f logit_params =
  lp_suppress_blank :: bool
  lp_no_timestamps :: bool
  lp_tdrz_enable :: bool
  lp_callback :: "'f list \<Rightarrow> 'f list"
  lp_suppress_regex :: "(string \<Rightarrow> bool) option"
  lp_suppress_nst :: bool
  lp_max_initial_ts :: 'f
  lp_n_grammar_rules :: nat

definition non_speech_tokens :: "string list" where
  "non_speech_tokens = [
    [CHR 0x22], ''#'', ''('', '')'', ''*'', ''+'', ''/'', '':'', '';'', ''<'', ''='', ''>'', ''@'',
    ''['', [CHR 0x5C], '']'', ''^'', ''_'', [CHR 0x60], ''{'', ''|'', ''}'', ''~'',
    [CHR 0xE3, CHR 0x80, CHR 0x8C], [CHR 0xE3, CHR 0x80, CHR 0x8D], [CHR 0xE3, CHR 0x80, CHR 0x8E],
    [CHR 0xE3, CHR 0x80, CHR 0x8F], ''<<'', ''>>'', ''<<<'', ''>>>'', ''--'', ''---'', ''-('',
    ''-['', [CHR 0x28, CHR 0x27], [CHR 0x28, CHR 0x22], ''(('', ''))'', ''((('', '')))'', ''[['',
    '']]'', ''{{'', ''}}'', [CHR 0xE2, CHR 0x99, CHR 0xAA, CHR 0xE2, CHR 0x99, CHR 0xAA],
    [CHR 0xE2, CHR 0x99, CHR 0xAA, CHR 0xE2, CHR 0x99, CHR 0xAA, CHR 0xE2, CHR 0x99, CHR 0xAA],
    [CHR 0xE2, CHR 0x99, CHR 0xA9], [CHR 0xE2, CHR 0x99, CHR 0xAA], [CHR 0xE2, CHR 0x99, CHR 0xAB],
    [CHR 0xE2, CHR 0x99, CHR 0xAC], [CHR 0xE2, CHR 0x99, CHR 0xAD], [CHR 0xE2, CHR 0x99, CHR 0xAE],
    [CHR 0xE2, CHR 0x99, CHR 0xAF]]"

section \<open>Probabilities\<close>

definition sum_exp :: "'f float_ops \<Rightarrow> 'f \<Rightarrow> 'f list \<Rightarrow> 'f" where
  "sum_exp F m xs = foldl (\<lambda>s x. if fl_lt F (fl_ninf F) x then fl_add F s (fl_exp F (fl_sub F x m)) else s)
     (fl_zero F) xs"

definition logprob :: "'f float_ops \<Rightarrow> 'f \<Rightarrow> 'f \<Rightarrow> 'f" where
  "logprob F lse x = (if fl_lt F (fl_ninf F) x then fl_sub F x lse else fl_ninf F)"

definition compute_logprobs :: "'f float_ops \<Rightarrow> 'f list \<Rightarrow> 'f list option" where
  "compute_logprobs F logits =
     (case max_element F logits of
        None \<Rightarrow> None
      | Some m \<Rightarrow> Some (map (logprob F (fl_add F (fl_log F (sum_exp F m logits)) m)) logits))"

definition compute_probs :: "'f float_ops \<Rightarrow> 'f list \<Rightarrow> 'f list \<Rightarrow> 'f list" where
  "compute_probs F logits logprobs =
     map2 (\<lambda>l lp. if l = fl_ninf F then fl_zero F else fl_exp F lp) logits logprobs"

section \<open>Filters\<close>

definition mask_id :: "'f float_ops \<Rightarrow> int \<Rightarrow> 'f list \<Rightarrow> 'f list option" where
  "mask_id F i ls = (if 0 \<le> i \<and> i < int (length ls) then Some (ls[nat i := fl_ninf F]) else None)"

fun mask_ids :: "'f float_ops \<Rightarrow> int list \<Rightarrow> 'f list \<Rightarrow> 'f list option" where
  "mask_ids F [] ls = Some ls"
| "mask_ids F (i # is) ls = (case mask_id F i ls of None \<Rightarrow> None | Some ls' \<Rightarrow> mask_ids F is ls')"

text \<open>The token ids each filter suppresses, in the order in which it writes them.\<close>

definition blank_ids :: "vocab \<Rightarrow> bool \<Rightarrow> bool \<Rightarrow> int list option" where
  "blank_ids v suppress_blank is_initial =
     (if suppress_blank \<and> is_initial
      then (case v_token_to_id v '' '' of None \<Rightarrow> None | Some i \<Rightarrow> Some [v_eot v, i])
      else Some [])"

definition control_ids :: "vocab \<Rightarrow> bool \<Rightarrow> bool \<Rightarrow> int \<Rightarrow> int list" where
  "control_ids v no_timestamps tdrz n_logits =
     [v_not v] @ (if no_timestamps then [v_beg v .. n_logits - 1] else []) @ [v_sot v, v_nosp v] @
     (if tdrz then [] else [v_solm v]) @ [v_translate v, v_transcribe v, v_prev v] @
     map (whisper_token_lang v) [0 .. int (length g_lang) - 1] @ [v_prev v]"

text \<open>
  The loop over \<open>token_to_id\<close> with the regular expression: the ids of the words that match.  Every entry
  of \<open>token_to_id\<close> is an entry of \<open>id_to_token\<close>, so the ids are enumerated.
\<close>

definition regex_ids :: "vocab \<Rightarrow> (string \<Rightarrow> bool) option \<Rightarrow> int \<Rightarrow> int list" where
  "regex_ids v re n_logits =
     (case re of
        None \<Rightarrow> []
      | Some matches \<Rightarrow> filter (\<lambda>i. case v_id_to_token v i of
          None \<Rightarrow> False | Some w \<Rightarrow> v_token_to_id v w = Some i \<and> matches w) [0 .. n_logits - 1])"

definition nst_ids :: "vocab \<Rightarrow> bool \<Rightarrow> int list" where
  "nst_ids v suppress_nst =
     (if suppress_nst
      then concat (map (\<lambda>w. case v_token_to_id v w of None \<Rightarrow> [] | Some i \<Rightarrow> [i])
             (concat (map (\<lambda>t. [t, CHR '' '' # t]) non_speech_tokens) @ ['' -'', [CHR '' '', CHR 0x27]]))
      else [])"

definition last_was_timestamp :: "vocab \<Rightarrow> int list \<Rightarrow> bool" where
  "last_was_timestamp v cur \<longleftrightarrow> cur \<noteq> [] \<and> last cur \<ge> v_beg v"

definition penultimate_was_timestamp :: "vocab \<Rightarrow> int list \<Rightarrow> bool" where
  "penultimate_was_timestamp v cur \<longleftrightarrow> length cur < 2 \<or> cur ! (length cur - 2) \<ge> v_beg v"

definition pair_ids :: "vocab \<Rightarrow> int list \<Rightarrow> int \<Rightarrow> int list" where
  "pair_ids v cur n_logits =
     (if last_was_timestamp v cur
      then (if penultimate_was_timestamp v cur then [v_beg v .. n_logits - 1] else [0 .. v_eot v - 1])
      else [])"

definition initial_ids :: "'f float_ops \<Rightarrow> vocab \<Rightarrow> bool \<Rightarrow> 'f \<Rightarrow> int \<Rightarrow> int \<Rightarrow> int list" where
  "initial_ids F v is_initial max_initial_ts n_audio_ctx n_logits =
     (if is_initial \<and> fl_lt F (fl_zero F) max_initial_ts
      then (let precision = fl_div F (fl_lit F 30) (fl_lit F (of_int n_audio_ctx));
                tid0 = fl_round F (fl_div F max_initial_ts precision)
            in [v_beg v + tid0 + 1 .. n_logits - 1])
      else [])"

definition increasing_ids :: "vocab \<Rightarrow> bool \<Rightarrow> int \<Rightarrow> int list" where
  "increasing_ids v has_ts seek_delta =
     (if has_ts then [v_beg v .. v_beg v + tdiv seek_delta 2 - 1] else [])"

text \<open>The filters before and after the user's callback.\<close>

definition early_ids :: "'f logit_params \<Rightarrow> vocab \<Rightarrow> int list \<Rightarrow> int \<Rightarrow> int list option" where
  "early_ids P v cur n_logits =
     (case blank_ids v (lp_suppress_blank P) (cur = []) of
        None \<Rightarrow> None
      | Some b \<Rightarrow> Some (b @ control_ids v (lp_no_timestamps P) (lp_tdrz_enable P) n_logits))"

definition late_ids :: "'f float_ops \<Rightarrow> 'f logit_params \<Rightarrow> vocab \<Rightarrow> int \<Rightarrow> int list \<Rightarrow> bool \<Rightarrow> int \<Rightarrow> int
    \<Rightarrow> int list" where
  "late_ids F P v n_audio_ctx cur has_ts seek_delta n_logits =
     regex_ids v (lp_suppress_regex P) n_logits @ nst_ids v (lp_suppress_nst P) @ pair_ids v cur n_logits @
     initial_ids F v (cur = []) (lp_max_initial_ts P) n_audio_ctx n_logits @ increasing_ids v has_ts seek_delta"

definition scale_logits :: "'f float_ops \<Rightarrow> 'f \<Rightarrow> 'f list \<Rightarrow> 'f list" where
  "scale_logits F temperature ls =
     (if fl_lt F (fl_zero F) temperature then map (\<lambda>x. fl_div F x temperature) ls else ls)"

definition filter_logits :: "'f float_ops \<Rightarrow> 'f logit_params \<Rightarrow> vocab \<Rightarrow> int \<Rightarrow> int list \<Rightarrow> bool \<Rightarrow> int \<Rightarrow> 'f
    \<Rightarrow> 'f list \<Rightarrow> 'f list option" where
  "filter_logits F P v n_audio_ctx cur has_ts seek_delta temperature raw =
     (let n = int (length raw)
      in case early_ids P v cur n of
           None \<Rightarrow> None
         | Some e \<Rightarrow>
             (case mask_ids F e (scale_logits F temperature raw) of
                None \<Rightarrow> None
              | Some ls \<Rightarrow> mask_ids F (late_ids F P v n_audio_ctx cur has_ts seek_delta n) (lp_callback P ls)))"

text \<open>The weight of the timestamps against that of the text.\<close>

definition timestamp_logprob :: "'f float_ops \<Rightarrow> 'f list \<Rightarrow> 'f option" where
  "timestamp_logprob F ts =
     (case max_element F ts of
        None \<Rightarrow> None
      | Some m \<Rightarrow> (let s = sum_exp F m ts
                   in Some (if fl_lt F (fl_zero F) s then fl_add F (fl_log F s) m else fl_ninf F)))"

definition prefer_timestamps :: "'f float_ops \<Rightarrow> 'f logit_params \<Rightarrow> nat \<Rightarrow> ('f list \<Rightarrow> 'f list option)
    \<Rightarrow> 'f list \<Rightarrow> 'f list \<Rightarrow> ('f list \<times> 'f list) option" where
  "prefer_timestamps F P beg suppress logits logprobs =
     (case (timestamp_logprob F (drop beg logprobs), max_element F (take beg logprobs)) of
        (Some ts, Some txt) \<Rightarrow>
          (if fl_lt F txt ts
           then Some (replicate beg (fl_ninf F) @ drop beg logits, replicate beg (fl_ninf F) @ drop beg logprobs)
           else if lp_n_grammar_rules P > 0
           then (case suppress logits of
                   None \<Rightarrow> None
                 | Some ls \<Rightarrow> (case compute_logprobs F ls of None \<Rightarrow> None | Some lp \<Rightarrow> Some (ls, lp)))
           else Some (logits, logprobs))
      | _ \<Rightarrow> None)"

record 'f probs =
  pr_logits :: "'f list"
  pr_logprobs :: "'f list"
  pr_probs :: "'f list"

text \<open>
  The whole function; \<open>raw\<close> is the part of \<open>state.logits\<close> that belongs to the decoder, \<open>suppress\<close> is
  \<open>whisper_suppress_invalid_grammar\<close> for its grammar.  The assertion on the size of the vocabulary aborts.
\<close>

definition process_logits :: "'f float_ops \<Rightarrow> 'f logit_params \<Rightarrow> vocab \<Rightarrow> int \<Rightarrow> ('f list \<Rightarrow> 'f list option)
    \<Rightarrow> int list \<Rightarrow> bool \<Rightarrow> int \<Rightarrow> 'f \<Rightarrow> 'f list \<Rightarrow> 'f probs option" where
  "process_logits F P v n_audio_ctx suppress cur has_ts seek_delta temperature raw =
     (if int (length raw) \<noteq> v_n_vocab v then None
      else case filter_logits F P v n_audio_ctx cur has_ts seek_delta temperature raw of
        None \<Rightarrow> None
      | Some logits \<Rightarrow>
          (case compute_logprobs F logits of
             None \<Rightarrow> None
           | Some logprobs \<Rightarrow>
               (case prefer_timestamps F P (nat (v_beg v)) suppress logits logprobs of
                  None \<Rightarrow> None
                | Some (ls, lp) \<Rightarrow> Some \<lparr>pr_logits = ls, pr_logprobs = lp, pr_probs = compute_probs F ls lp\<rparr>)))"

section \<open>Sampling\<close>

definition ts_turn :: "('f, 'd) arith \<Rightarrow> 'f list \<Rightarrow> 'd \<times> 'd \<times> int \<Rightarrow> nat \<Rightarrow> 'd \<times> 'd \<times> int" where
  "ts_turn A probs s i =
     (let p = probs ! i; (sum_ts, max_ts, tid) = s
      in if p = fl_ninf (a_flt A) then s
         else (let w = a_widen A p; sum' = fl_add (a_dbl A) sum_ts w
               in if fl_lt (a_dbl A) max_ts w then (sum', w, int i) else (sum', max_ts, tid)))"

definition ts_stats :: "('f, 'd) arith \<Rightarrow> 'f list \<Rightarrow> nat \<Rightarrow> int \<Rightarrow> 'd \<times> 'd \<times> int" where
  "ts_stats A probs beg tid0 =
     foldl (ts_turn A probs) (fl_zero (a_dbl A), fl_zero (a_dbl A), tid0) [beg ..< length probs]"

definition ts_pt :: "('f, 'd) arith \<Rightarrow> 'd \<Rightarrow> 'd \<Rightarrow> 'f" where
  "ts_pt A sum_ts max_ts =
     a_narrow A (fl_div (a_dbl A) max_ts (fl_add (a_dbl A) sum_ts (fl_lit (a_dbl A) (1 / 10 ^ 10))))"

text \<open>The greatest probability and the first id that has it, from id 0 and probability 0.\<close>

fun best_from :: "'f float_ops \<Rightarrow> 'f list \<Rightarrow> nat \<Rightarrow> nat \<times> 'f \<Rightarrow> nat \<times> 'f" where
  "best_from F [] i b = b"
| "best_from F (p # ps) i b = best_from F ps (Suc i) (if fl_lt F (snd b) p then (i, p) else b)"

definition take_timestamp :: "int \<Rightarrow> 'f token_data \<Rightarrow> 'f token_data" where
  "take_timestamp beg r = (if td_id r \<ge> beg then r\<lparr>td_tid := td_id r, td_pt := td_p r\<rparr> else r)"

definition sample_token :: "('f, 'd) arith \<Rightarrow> vocab \<Rightarrow> ('f list \<Rightarrow> 'r \<Rightarrow> nat \<times> 'r) \<Rightarrow> bool \<Rightarrow> 'f probs \<Rightarrow> 'r
    \<Rightarrow> 'f token_data \<times> 'r" where
  "sample_token A v draw best pr rng =
     (let F = a_flt A; probs = pr_probs pr; (sum_ts, max_ts, tid) = ts_stats A probs (nat (v_beg v)) 0;
          zero = fl_zero F;
          r0 = \<lparr>td_id = 0, td_tid = tid, td_p = zero, td_plog = zero, td_pt = ts_pt A sum_ts max_ts,
                td_ptsum = a_narrow A sum_ts, td_t0 = -1, td_t1 = -1, td_t_dtw = -1, td_vlen = zero\<rparr>
      in if best
         then (let (i, p) = best_from F probs 0 (0, zero)
               in (take_timestamp (v_beg v) (r0\<lparr>td_id := int i, td_p := p,
                     td_plog := (if fl_lt F zero p then pr_logprobs pr ! i else zero)\<rparr>), rng))
         else (let (i, rng') = draw probs rng
               in (take_timestamp (v_beg v) (r0\<lparr>td_id := int i, td_p := probs ! i, td_plog := pr_logprobs pr ! i\<rparr>), rng')))"

fun draw_tokens :: "('f, 'd) arith \<Rightarrow> vocab \<Rightarrow> ('f list \<Rightarrow> 'r \<Rightarrow> nat \<times> 'r) \<Rightarrow> 'f probs \<Rightarrow> int \<Rightarrow> 'f \<Rightarrow> 'f \<Rightarrow> nat \<Rightarrow> 'r
    \<Rightarrow> 'f token_data list \<times> 'r" where
  "draw_tokens A v draw pr tid pt ptsum 0 rng = ([], rng)"
| "draw_tokens A v draw pr tid pt ptsum (Suc k) rng =
     (let (i, rng1) = draw (pr_probs pr) rng;
          r = \<lparr>td_id = int i, td_tid = tid, td_p = pr_probs pr ! i, td_plog = pr_logprobs pr ! i, td_pt = pt,
               td_ptsum = ptsum, td_t0 = -1, td_t1 = -1, td_t_dtw = -1, td_vlen = fl_zero (a_flt A)\<rparr>;
          (rest, rng2) = draw_tokens A v draw pr tid pt ptsum k rng1
      in (take_timestamp (v_beg v) r # rest, rng2))"

text \<open>\<open>logits_id\<close> is sorted and not read again; sorting more elements than there are is undefined.\<close>

definition sample_token_topk :: "('f, 'd) arith \<Rightarrow> vocab \<Rightarrow> ('f list \<Rightarrow> 'r \<Rightarrow> nat \<times> 'r) \<Rightarrow> 'f probs \<Rightarrow> nat \<Rightarrow> 'r
    \<Rightarrow> ('f token_data list \<times> 'r) option" where
  "sample_token_topk A v draw pr k rng =
     (if k > length (pr_probs pr) then None
      else (let (sum_ts, max_ts, tid) = ts_stats A (pr_probs pr) (nat (v_beg v)) (v_beg v)
            in Some (draw_tokens A v draw pr tid (ts_pt A sum_ts max_ts) (a_narrow A sum_ts) k rng)))"

section \<open>Sequences\<close>

record ('f, 'd) sequence =
  sq_tokens :: "'f token_data list"
  sq_result_len :: nat
  sq_sum_logprobs_all :: 'd
  sq_sum_logprobs :: 'd
  sq_avg_logprobs :: 'd
  sq_entropy :: 'd
  sq_score :: 'd

text \<open>From the last token to the first.\<close>

fun ids_equal_from :: "int list \<Rightarrow> int list \<Rightarrow> nat \<Rightarrow> bool" where
  "ids_equal_from a b 0 = True"
| "ids_equal_from a b (Suc i) = (if a ! i \<noteq> b ! i then False else ids_equal_from a b i)"

definition sequence_tokens_equal :: "('f, 'd) sequence \<Rightarrow> ('f, 'd) sequence \<Rightarrow> bool" where
  "sequence_tokens_equal a b =
     (if length (sq_tokens a) \<noteq> length (sq_tokens b) then False
      else ids_equal_from (map td_id (sq_tokens a)) (map td_id (sq_tokens b)) (length (sq_tokens a)))"

definition token_entropy :: "'d float_ops \<Rightarrow> int list \<Rightarrow> 'd" where
  "token_entropy D ids =
     foldl (\<lambda>e k. let p = fl_div D (fl_lit D (of_nat (count_list ids k))) (fl_lit D (of_nat (length ids)))
                 in fl_sub D e (fl_mul D p (fl_log D p)))
       (fl_zero D) (sort (remdups ids))"

text \<open>A result longer than the sequence would be read past its end.\<close>

definition sequence_score :: "('f, 'd) arith \<Rightarrow> 'f \<Rightarrow> ('f, 'd) sequence \<Rightarrow> ('f, 'd) sequence option" where
  "sequence_score A length_penalty s =
     (let D = a_dbl A; n = sq_result_len s; toks = take n (sq_tokens s)
      in if n = 0 then Some s
         else if n > length (sq_tokens s) then None
         else (let result = foldl (\<lambda>r t. fl_add D r (a_widen A (td_plog t))) (fl_zero D) toks;
                   len = fl_lit D (of_nat n);
                   penalty = (if fl_lt (a_flt A) (fl_zero (a_flt A)) length_penalty
                     then fl_pow D (fl_div D (fl_add D (fl_lit D 5) len) (fl_lit D 6)) (a_widen A length_penalty)
                     else len)
               in Some (s\<lparr>sq_sum_logprobs := result, sq_avg_logprobs := fl_div D result len,
                    sq_score := fl_div D result penalty,
                    sq_entropy := token_entropy D (map td_id (drop (n - 32) toks))\<rparr>)))"


section \<open>What the filters do\<close>

lemma mask_id_Some: "mask_id F i ls = Some ls' \<longleftrightarrow> 0 \<le> i \<and> i < int (length ls) \<and> ls' = ls[nat i := fl_ninf F]"
  by (auto simp: mask_id_def)

lemma mask_ids_spec:
  "mask_ids F is ls = Some ls' \<Longrightarrow> length ls' = length ls \<and>
     (\<forall>j < length ls. ls ! j = fl_ninf F \<longrightarrow> ls' ! j = fl_ninf F) \<and>
     (\<forall>i \<in> set is. 0 \<le> i \<and> i < int (length ls) \<and> ls' ! nat i = fl_ninf F)"
proof (induction F "is" ls rule: mask_ids.induct)
  case (2 F i "is" ls)
  obtain l1 where run: "mask_id F i ls = Some l1" "mask_ids F is l1 = Some ls'"
    using "2.prems" by (cases "mask_id F i ls") simp_all
  have l1: "0 \<le> i" "i < int (length ls)" "l1 = ls[nat i := fl_ninf F]" using run(1) unfolding mask_id_Some by auto
  then have len: "length l1 = length ls" by simp
  have IH: "length ls' = length ls" "\<And>j. j < length ls \<Longrightarrow> l1 ! j = fl_ninf F \<Longrightarrow> ls' ! j = fl_ninf F"
      "\<forall>i \<in> set is. 0 \<le> i \<and> i < int (length ls) \<and> ls' ! nat i = fl_ninf F"
    using "2.IH" [OF run] unfolding len by blast+
  have "ls' ! nat i = fl_ninf F" using IH(2) [of "nat i"] l1 by simp
  moreover have "ls' ! j = fl_ninf F" if "j < length ls" "ls ! j = fl_ninf F" for j
    using IH(2) [OF that(1)] that l1 by (cases "j = nat i") auto
  ultimately show ?case using IH l1 by auto
qed simp

lemma mask_ids_total:
  "\<forall>i \<in> set is. 0 \<le> i \<and> i < int (length ls) \<Longrightarrow> \<exists>ls'. mask_ids F is ls = Some ls' \<and> length ls' = length ls"
  by (induction F "is" ls rule: mask_ids.induct) (auto simp: mask_id_def)

text \<open>A function on logits that leaves the suppressed ones suppressed, as a callback should.\<close>

definition keeps_suppressed :: "'f float_ops \<Rightarrow> ('f list \<Rightarrow> 'f list) \<Rightarrow> bool" where
  "keeps_suppressed F f \<longleftrightarrow>
     (\<forall>ls. length (f ls) = length ls \<and> (\<forall>i < length ls. ls ! i = fl_ninf F \<longrightarrow> f ls ! i = fl_ninf F))"

definition keeps_suppressed_opt :: "'f float_ops \<Rightarrow> ('f list \<Rightarrow> 'f list option) \<Rightarrow> bool" where
  "keeps_suppressed_opt F f \<longleftrightarrow> (\<forall>ls ls'. f ls = Some ls' \<longrightarrow> length ls' = length ls \<and>
     (\<forall>i < length ls. ls ! i = fl_ninf F \<longrightarrow> ls' ! i = fl_ninf F))"

definition suppressed :: "'f float_ops \<Rightarrow> 'f logit_params \<Rightarrow> vocab \<Rightarrow> int \<Rightarrow> int list \<Rightarrow> bool \<Rightarrow> int \<Rightarrow> int \<Rightarrow> int set" where
  "suppressed F P v n_audio_ctx cur has_ts seek_delta n_logits =
     (case early_ids P v cur n_logits of None \<Rightarrow> {} | Some e \<Rightarrow> set e) \<union>
     set (late_ids F P v n_audio_ctx cur has_ts seek_delta n_logits)"

lemma length_scale [simp]: "length (scale_logits F t ls) = length ls"
  by (simp add: scale_logits_def)

lemma filter_logits_suppresses:
  assumes "filter_logits F P v n_audio_ctx cur has_ts seek_delta temperature raw = Some ls"
    and "keeps_suppressed F (lp_callback P)"
  shows "length ls = length raw \<and>
    (\<forall>i \<in> suppressed F P v n_audio_ctx cur has_ts seek_delta (int (length raw)).
       0 \<le> i \<and> i < int (length raw) \<and> ls ! nat i = fl_ninf F)"
proof -
  obtain e l1 where e: "early_ids P v cur (int (length raw)) = Some e"
      and l1: "mask_ids F e (scale_logits F temperature raw) = Some l1"
      and l2: "mask_ids F (late_ids F P v n_audio_ctx cur has_ts seek_delta (int (length raw))) (lp_callback P l1) = Some ls"
    using assms(1) by (auto simp: filter_logits_def Let_def split: option.splits)
  note m1 = mask_ids_spec [OF l1] and m2 = mask_ids_spec [OF l2]
  have cb: "length (lp_callback P l1) = length l1"
      "\<forall>i < length l1. l1 ! i = fl_ninf F \<longrightarrow> lp_callback P l1 ! i = fl_ninf F"
    using assms(2) by (auto simp: keeps_suppressed_def)
  have "0 \<le> i \<and> i < int (length raw) \<and> ls ! nat i = fl_ninf F" if "i \<in> set e" for i
    using m1 m2 cb that by (auto simp: nat_less_iff)
  then show ?thesis using m1 m2 cb by (auto simp: suppressed_def e)
qed

lemma compute_logprobs_spec:
  "compute_logprobs F ls = Some lp \<Longrightarrow> float_laws F \<Longrightarrow> length lp = length ls \<and>
     (\<forall>i < length ls. ls ! i = fl_ninf F \<longrightarrow> lp ! i = fl_ninf F)"
  by (auto simp: compute_logprobs_def logprob_def float_irrefl split: option.splits)

lemma prefer_timestamps_spec:
  assumes "prefer_timestamps F P beg suppress ls lp = Some (ls', lp')" "float_laws F" "keeps_suppressed_opt F suppress"
    and "length lp = length ls" "\<forall>i < length ls. ls ! i = fl_ninf F \<longrightarrow> lp ! i = fl_ninf F" "beg \<le> length ls"
  shows "length ls' = length ls \<and> length lp' = length ls \<and>
    (\<forall>i < length ls. ls ! i = fl_ninf F \<longrightarrow> ls' ! i = fl_ninf F \<and> lp' ! i = fl_ninf F)"
proof -
  from assms(1) consider
      "ls' = replicate beg (fl_ninf F) @ drop beg ls" "lp' = replicate beg (fl_ninf F) @ drop beg lp"
    | "suppress ls = Some ls'" "compute_logprobs F ls' = Some lp'" | "ls' = ls" "lp' = lp"
    by (auto simp: prefer_timestamps_def split: option.splits if_splits)
  then show ?thesis
  proof cases
    case 1
    then show ?thesis using assms(4-6) by (auto simp: nth_append)
  next
    case 2
    then show ?thesis using assms(3) compute_logprobs_spec [OF 2(2) assms(2)] by (auto simp: keeps_suppressed_opt_def)
  qed (use assms in auto)
qed

lemma process_logits_suppresses:
  assumes run: "process_logits F P v n_audio_ctx suppress cur has_ts seek_delta temperature raw = Some pr"
    and laws: "float_laws F" "keeps_suppressed F (lp_callback P)" "keeps_suppressed_opt F suppress"
    and beg: "v_beg v \<le> v_n_vocab v"
  shows "length (pr_logits pr) = length raw \<and> length (pr_logprobs pr) = length raw \<and> length (pr_probs pr) = length raw \<and>
    (\<forall>i \<in> suppressed F P v n_audio_ctx cur has_ts seek_delta (v_n_vocab v). 0 \<le> i \<and> i < v_n_vocab v \<and>
       pr_logits pr ! nat i = fl_ninf F \<and> pr_logprobs pr ! nat i = fl_ninf F \<and> pr_probs pr ! nat i = fl_zero F)"
proof -
  obtain ls lp ls' lp' where n: "int (length raw) = v_n_vocab v"
      and ls: "filter_logits F P v n_audio_ctx cur has_ts seek_delta temperature raw = Some ls"
      and lp: "compute_logprobs F ls = Some lp"
      and pt: "prefer_timestamps F P (nat (v_beg v)) suppress ls lp = Some (ls', lp')"
      and pr: "pr = \<lparr>pr_logits = ls', pr_logprobs = lp', pr_probs = compute_probs F ls' lp'\<rparr>"
    using run by (auto simp: process_logits_def split: if_splits option.splits prod.splits)
  note f = filter_logits_suppresses [OF ls laws(2)]
  note c = compute_logprobs_spec [OF lp laws(1)]
  have "nat (v_beg v) \<le> length ls" using beg n f by linarith
  note p = prefer_timestamps_spec [OF pt laws(1,3) conjunct1 [OF c] conjunct2 [OF c] this]
  show ?thesis using f p unfolding n by (auto simp: pr compute_probs_def nat_less_iff simp flip: n)
qed

lemma best_from_spec:
  assumes "float_laws F"
  shows "(i, p) = best_from F ps k (j, m) \<Longrightarrow>
     (i = j \<and> p = m \<or> k \<le> i \<and> i < k + length ps \<and> p = ps ! (i - k) \<and> fl_lt F m p) \<and>
     \<not> fl_lt F p m \<and> (\<forall>q \<in> set ps. \<not> fl_lt F p q)"
proof (induction ps arbitrary: k j m)
  case Nil
  then show ?case using float_irrefl [OF assms] by simp
next
  case (Cons q ps)
  show ?case
  proof (cases "fl_lt F m q")
    case True
    then have IH: "(i = k \<and> p = q \<or> Suc k \<le> i \<and> i < Suc k + length ps \<and> p = ps ! (i - Suc k) \<and> fl_lt F q p) \<and>
        \<not> fl_lt F p q \<and> (\<forall>q \<in> set ps. \<not> fl_lt F p q)"
      using Cons.IH [of "Suc k" k q] Cons.prems by simp
    have "\<not> fl_lt F q m" using True float_irrefl [OF assms] float_trans [OF assms] by blast
    then have "\<not> fl_lt F p m" using IH float_not_lt_trans [OF assms, of q m p] by blast
    moreover have "fl_lt F m p" using IH True float_trans [OF assms] by blast
    ultimately show ?thesis using IH by (auto simp: nth_Cons')
  next
    case False
    then have IH: "(i = j \<and> p = m \<or> Suc k \<le> i \<and> i < Suc k + length ps \<and> p = ps ! (i - Suc k) \<and> fl_lt F m p) \<and>
        \<not> fl_lt F p m \<and> (\<forall>q \<in> set ps. \<not> fl_lt F p q)"
      using Cons.IH [of "Suc k" j m] Cons.prems by simp
    then have "\<not> fl_lt F p q" using False float_not_lt_trans [OF assms, of m q p] by blast
    then show ?thesis using IH by (auto simp: nth_Cons')
  qed
qed

lemma take_timestamp_simps [simp]:
  "td_id (take_timestamp b r) = td_id r" "td_p (take_timestamp b r) = td_p r" "td_plog (take_timestamp b r) = td_plog r"
  by (simp_all add: take_timestamp_def)

lemma sample_best_spec:
  assumes "float_laws (a_flt A)" "sample_token A v draw True pr rng = (r, rng')" "pr_probs pr \<noteq> []"
  shows "0 \<le> td_id r \<and> td_id r < int (length (pr_probs pr)) \<and> (\<forall>q \<in> set (pr_probs pr). \<not> fl_lt (a_flt A) (td_p r) q) \<and>
    (td_p r = fl_zero (a_flt A) \<or> td_p r = pr_probs pr ! nat (td_id r) \<and> fl_lt (a_flt A) (fl_zero (a_flt A)) (td_p r))"
proof -
  obtain i p where b: "(i, p) = best_from (a_flt A) (pr_probs pr) 0 (0, fl_zero (a_flt A))"
    by (metis surj_pair)
  have r: "td_id r = int i" "td_p r = p"
    using assms(2) unfolding sample_token_def by (auto simp: Let_def simp flip: b split: prod.splits)
  show ?thesis using best_from_spec [OF assms(1) b] assms(3) by (auto simp: r)
qed



section \<open>No read or write out of range\<close>

definition vocab_ok :: "vocab \<Rightarrow> bool" where
  "vocab_ok v \<longleftrightarrow> 0 < v_beg v \<and> v_beg v < v_n_vocab v \<and>
     (\<forall>i \<in> {v_eot v, v_sot v, v_translate v, v_transcribe v, v_solm v, v_prev v, v_nosp v, v_not v}.
        0 \<le> i \<and> i < v_n_vocab v) \<and> v_sot v + 100 < v_n_vocab v \<and>
     (\<forall>w i. v_token_to_id v w = Some i \<longrightarrow> 0 \<le> i \<and> i < v_n_vocab v) \<and> v_token_to_id v '' '' \<noteq> None"

text \<open>The vocabulary of a model is of this kind if the words of its file have ids below its size.\<close>

lemma vocab_ok_model:
  assumes "51864 \<le> n" "v = (place_special vocab_default n)\<lparr>v_token_to_id := m\<rparr>"
    and "\<forall>w i. m w = Some i \<longrightarrow> 0 \<le> i \<and> i < n" "m '' '' \<noteq> None"
  shows "vocab_ok v"
  using assms by (auto simp: vocab_ok_def place_special_def vocab_default_def is_multilingual_def num_languages_def Let_def)

lemma length_g_lang: "length g_lang = 100"
  using arg_cong [OF lang_ids, of length] by simp

lemma early_ids_range:
  assumes "vocab_ok v"
  obtains e where "early_ids P v cur (v_n_vocab v) = Some e" "\<forall>i \<in> set e. 0 \<le> i \<and> i < v_n_vocab v"
proof -
  obtain b where b: "blank_ids v (lp_suppress_blank P) (cur = []) = Some b" "\<forall>i \<in> set b. 0 \<le> i \<and> i < v_n_vocab v"
  proof (cases "lp_suppress_blank P \<and> cur = []")
    case True
    obtain i where "v_token_to_id v '' '' = Some i" "0 \<le> i \<and> i < v_n_vocab v" using assms by (auto simp: vocab_ok_def)
    then show ?thesis using that [of "[v_eot v, i]"] True assms by (simp add: blank_ids_def vocab_ok_def)
  qed (use that [of "[]"] in \<open>auto simp: blank_ids_def\<close>)
  have "\<forall>i \<in> set (control_ids v x y (v_n_vocab v)). 0 \<le> i \<and> i < v_n_vocab v" for x y
    using assms by (auto simp: control_ids_def vocab_ok_def whisper_token_lang_def length_g_lang)
  then show ?thesis using that b by (auto simp: early_ids_def)
qed

lemma late_ids_range:
  assumes "vocab_ok v" "0 \<le> seek_delta" "v_beg v + seek_delta div 2 \<le> v_n_vocab v"
    and "cur = [] \<Longrightarrow> 0 \<le> v_beg v + fl_round F (fl_div F (lp_max_initial_ts P)
      (fl_div F (fl_lit F 30) (fl_lit F (of_int n_audio_ctx)))) + 1"
  shows "\<forall>i \<in> set (late_ids F P v n_audio_ctx cur has_ts seek_delta (v_n_vocab v)). 0 \<le> i \<and> i < v_n_vocab v"
proof -
  have "\<forall>i \<in> set (nst_ids v b). 0 \<le> i \<and> i < v_n_vocab v" for b
    using assms(1) by (auto simp: nst_ids_def vocab_ok_def split: option.splits)
  moreover have "\<forall>i \<in> set (regex_ids v r (v_n_vocab v)). 0 \<le> i \<and> i < v_n_vocab v" for r
    by (auto simp: regex_ids_def split: option.splits)
  moreover have "\<forall>i \<in> set (pair_ids v cur (v_n_vocab v)). 0 \<le> i \<and> i < v_n_vocab v"
    using assms(1) by (auto simp: pair_ids_def vocab_ok_def)
  moreover have "\<forall>i \<in> set (initial_ids F v (cur = []) (lp_max_initial_ts P) n_audio_ctx (v_n_vocab v)).
      0 \<le> i \<and> i < v_n_vocab v"
    using assms(4) by (auto simp: initial_ids_def Let_def)
  moreover have "\<forall>i \<in> set (increasing_ids v has_ts seek_delta). 0 \<le> i \<and> i < v_n_vocab v"
    using assms(1-3) by (auto simp: increasing_ids_def vocab_ok_def tdiv_nonneg)
  ultimately show ?thesis unfolding late_ids_def set_append by blast
qed

text \<open>
  For the vocabulary of a model the filters write, and the searches for a maximum read, only inside the
  vectors, whatever the sequence so far, as long as the window shift is a timestamp of the vocabulary.
\<close>

theorem process_logits_total:
  assumes "vocab_ok v" "int (length raw) = v_n_vocab v"
    and "0 \<le> seek_delta" "v_beg v + seek_delta div 2 \<le> v_n_vocab v"
    and "cur = [] \<Longrightarrow> 0 \<le> v_beg v + fl_round F (fl_div F (lp_max_initial_ts P)
      (fl_div F (fl_lit F 30) (fl_lit F (of_int n_audio_ctx)))) + 1"
    and "\<forall>ls. length (lp_callback P ls) = length ls"
    and "\<forall>ls. ls \<noteq> [] \<longrightarrow> (\<exists>ls'. suppress ls = Some ls' \<and> length ls' = length ls)"
  shows "\<exists>pr. process_logits F P v n_audio_ctx suppress cur has_ts seek_delta temperature raw = Some pr"
proof -
  obtain e where e: "early_ids P v cur (v_n_vocab v) = Some e" "\<forall>i \<in> set e. 0 \<le> i \<and> i < v_n_vocab v"
    using early_ids_range [OF assms(1)] .
  obtain l1 where l1: "mask_ids F e (scale_logits F temperature raw) = Some l1" "length l1 = length raw"
    using mask_ids_total [of e "scale_logits F temperature raw" F] e(2) assms(2) by auto
  obtain ls where ls: "mask_ids F (late_ids F P v n_audio_ctx cur has_ts seek_delta (v_n_vocab v)) (lp_callback P l1) = Some ls"
      "length ls = length raw"
    using mask_ids_total [of "late_ids F P v n_audio_ctx cur has_ts seek_delta (v_n_vocab v)" "lp_callback P l1" F]
      late_ids_range [OF assms(1,3-5), where has_ts = has_ts] assms(2,6) l1(2) by auto
  have max: "\<exists>m. max_element F xs = Some m" if "xs \<noteq> []" for xs :: "'a list"
    using that by (cases xs) (auto simp: max_element_def)
  have beg: "0 < nat (v_beg v)" "nat (v_beg v) < length raw" using assms(1,2) by (auto simp: vocab_ok_def)
  then have ne: "ls \<noteq> []" using ls(2) by auto
  obtain lp where lp: "compute_logprobs F ls = Some lp" "length lp = length raw"
    using max [OF ne] ls(2) by (auto simp: compute_logprobs_def)
  obtain ls2 where ls2: "suppress ls = Some ls2" "length ls2 = length ls" using assms(7) ne by blast
  have "ls2 \<noteq> []" using ls2(2) ne by auto
  then obtain m2 where "max_element F ls2 = Some m2" using max by blast
  then obtain lp2 where lp2: "compute_logprobs F ls2 = Some lp2" by (simp add: compute_logprobs_def)
  have "drop (nat (v_beg v)) lp \<noteq> []" "take (nat (v_beg v)) lp \<noteq> []" using beg lp(2) by auto
  then obtain m1 m2 where m: "max_element F (drop (nat (v_beg v)) lp) = Some m1"
      "max_element F (take (nat (v_beg v)) lp) = Some m2"
    using max by blast
  have "\<exists>r. prefer_timestamps F P (nat (v_beg v)) suppress ls lp = Some r"
    using m ls2(1) lp2 by (simp add: prefer_timestamps_def timestamp_logprob_def Let_def del: ex_simps split_paired_Ex)
  then obtain ls' lp' where "prefer_timestamps F P (nat (v_beg v)) suppress ls lp = Some (ls', lp')" by auto
  then show ?thesis unfolding process_logits_def filter_logits_def Let_def assms(2) e(1) l1(1) ls(1) lp(1)
    by (simp add: e(1) l1(1) ls(1) lp(1))
qed

lemma ids_equal_from_iff: "ids_equal_from a b n \<longleftrightarrow> (\<forall>i < n. a ! i = b ! i)"
  by (induction n) (auto simp: less_Suc_eq)

lemma sequence_tokens_equal_iff:
  "sequence_tokens_equal a b \<longleftrightarrow> map td_id (sq_tokens a) = map td_id (sq_tokens b)"
  by (auto simp: sequence_tokens_equal_def ids_equal_from_iff list_eq_iff_nth_eq)

section \<open>Witnesses\<close>

definition demo_small :: vocab where
  "demo_small = vocab_default\<lparr>v_n_vocab := 115, v_token_to_id := [''a'' \<mapsto> 0, '' '' \<mapsto> 1], v_id_to_token := [0 \<mapsto> ''a'', 1 \<mapsto> '' ''],
     v_eot := 4, v_sot := 5, v_translate := 106, v_transcribe := 107, v_solm := 108, v_prev := 109, v_nosp := 110,
     v_not := 111, v_beg := 112\<rparr>"

definition demo_lparams :: "rat option logit_params" where
  "demo_lparams = \<lparr>lp_suppress_blank = True, lp_no_timestamps = False, lp_tdrz_enable = False, lp_callback = (\<lambda>ls. ls),
     lp_suppress_regex = None, lp_suppress_nst = False, lp_max_initial_ts = Some 1, lp_n_grammar_rules = 0\<rparr>"

definition demo_arith :: "(rat option, rat option) arith" where
  "demo_arith = \<lparr>a_flt = rat_ops, a_dbl = rat_ops, a_widen = (\<lambda>x. x), a_narrow = (\<lambda>x. x)\<rparr>"

definition demo_raw :: "rat option list" where
  "demo_raw = [Some 0, Some 0] @ replicate 113 None"

lemma demo_process: "case process_logits rat_ops demo_lparams demo_small 1500 Some [0] True 2 (Some 0) demo_raw of
    None \<Rightarrow> False | Some pr \<Rightarrow> list_ex (fl_lt rat_ops (Some 0)) (pr_probs pr)"
  by code_simp


lemma demo_keeps: "keeps_suppressed rat_ops (lp_callback demo_lparams)" "keeps_suppressed_opt rat_ops Some"
  by (auto simp: keeps_suppressed_def keeps_suppressed_opt_def demo_lparams_def)


lemma demo_small_ok: "vocab_ok demo_small"
  by (auto simp: vocab_ok_def demo_small_def vocab_default_def)

theorem process_logits_total_witness:
  "\<exists>pr. process_logits rat_ops demo_lparams demo_small 1500 Some [0] True 4 (Some 0) demo_raw = Some pr"
  by (rule process_logits_total [OF demo_small_ok])
    (auto simp: demo_small_def demo_raw_def demo_lparams_def)

end
