(* ===== verification/Vad_Detect.thy ===== *)
theory Vad_Detect
  imports Floats
begin

text \<open>
  Voice activity detection in \<open>src/src/whisper.cpp\<close>, from the probabilities of the frames to segments of
  speech (\<open>whisper_vad_segments_from_probs\<close>).  The network that computes the probabilities is a
  parameter, and so is the direction in which double arithmetic rounds the ties of a conversion.
  Positions are \<open>int\<close>, within the 32 bits of the code for up to 37 hours of audio.
\<close>

section \<open>Parameters\<close>

record 'f vad_params =
  v_threshold :: 'f
  v_min_speech_ms :: int
  v_min_silence_ms :: int
  v_max_speech_s :: 'f
  v_speech_pad_ms :: int
  v_samples_overlap :: 'f

definition vad_default_params :: "'f float_ops \<Rightarrow> 'f \<Rightarrow> 'f vad_params" where
  "vad_default_params F flt_max = \<lparr>v_threshold = fl_lit F (1 / 2), v_min_speech_ms = 250,
     v_min_silence_ms = 100, v_max_speech_s = flt_max, v_speech_pad_ms = 30, v_samples_overlap = fl_lit F (1 / 10)\<rparr>"

definition whisper_sample_rate :: int where
  "whisper_sample_rate = 16000"

definition vad_int_max :: int where
  "vad_int_max = 2 ^ 31 - 1"

text \<open>
  \<open>(int) ((cs / 100.0) * 16000 + 0.5)\<close>: 160 samples per centisecond, the half rounded towards zero.
\<close>

definition cs_to_samples :: "int \<Rightarrow> int" where
  "cs_to_samples cs = tdiv (320 * cs + 1) 2"

text \<open>
  \<open>(int64_t) ((samples / 16000.0) * 100.0 + 0.5)\<close>.  Halfway between two centiseconds the products of doubles
  may come out just below the exact value; \<open>down\<close> tells for which samples they do.
\<close>

definition samples_to_cs :: "(int \<Rightarrow> bool) \<Rightarrow> int \<Rightarrow> int" where
  "samples_to_cs down samples = tdiv (samples + (if down samples then 79 else 80)) 160"

record vad_limits =
  l_window :: int
  l_length :: int
  l_min_silence :: int
  l_min_speech :: int
  l_pad :: int
  l_max_speech :: int
  l_silence_at_max :: int

definition max_speech_samples :: "'f float_ops \<Rightarrow> 'f \<Rightarrow> int \<Rightarrow> int \<Rightarrow> int" where
  "max_speech_samples F max_s n_window pad =
     (if fl_lt F (fl_lit F 100000) max_s then vad_int_max div 2
      else (let temp = whisper_sample_rate * fl_trunc F max_s - n_window - 2 * pad;
                m = (if temp > vad_int_max then vad_int_max div 2 else to_int32 temp)
            in if m < 0 then vad_int_max div 2 else m))"

definition vad_limits_of :: "'f float_ops \<Rightarrow> 'f vad_params \<Rightarrow> int \<Rightarrow> int \<Rightarrow> vad_limits" where
  "vad_limits_of F params n_window n_probs =
     (let pad = tdiv (whisper_sample_rate * v_speech_pad_ms params) 1000
      in \<lparr>l_window = n_window, l_length = n_probs * n_window,
          l_min_silence = tdiv (whisper_sample_rate * v_min_silence_ms params) 1000,
          l_min_speech = tdiv (whisper_sample_rate * v_min_speech_ms params) 1000,
          l_pad = pad,
          l_max_speech = max_speech_samples F (v_max_speech_s params) n_window pad,
          l_silence_at_max = tdiv (whisper_sample_rate * 98) 1000\<rparr>)"

definition neg_threshold :: "'f float_ops \<Rightarrow> 'f \<Rightarrow> 'f" where
  "neg_threshold F threshold =
     (let t = fl_sub F threshold (fl_lit F (15 / 100))
      in if fl_lt F t (fl_lit F (1 / 100)) then fl_lit F (1 / 100) else t)"

section \<open>The scan over the frames\<close>

type_synonym seg = "int \<times> int"

record scan =
  sc_speeches :: "seg list"
  sc_in :: bool
  sc_temp_end :: int
  sc_prev_end :: int
  sc_next_start :: int
  sc_start :: int
  sc_has :: bool

definition scan_init :: scan where
  "scan_init = \<lparr>sc_speeches = [], sc_in = False, sc_temp_end = 0, sc_prev_end = 0, sc_next_start = 0,
     sc_start = 0, sc_has = False\<rparr>"

definition clear_ends :: "scan \<Rightarrow> scan" where
  "clear_ends s = s\<lparr>sc_prev_end := 0, sc_next_start := 0, sc_temp_end := 0\<rparr>"

definition leave_speech :: "scan \<Rightarrow> scan" where
  "leave_speech s = (clear_ends s)\<lparr>sc_in := False, sc_has := False\<rparr>"

text \<open>The statements of one turn, in their order; \<^const>\<open>True\<close> beside the state is \<open>continue\<close>.\<close>

definition back_to_speech :: "bool \<Rightarrow> int \<Rightarrow> scan \<Rightarrow> scan" where
  "back_to_speech speech cur s =
     (if speech \<and> sc_temp_end s \<noteq> 0
      then s\<lparr>sc_temp_end := 0,
             sc_next_start := (if sc_next_start s < sc_prev_end s then cur else sc_next_start s)\<rparr>
      else s)"

definition start_speech :: "bool \<Rightarrow> int \<Rightarrow> scan \<Rightarrow> bool \<times> scan" where
  "start_speech speech cur s =
     (if speech \<and> \<not> sc_in s then (True, s\<lparr>sc_in := True, sc_start := cur, sc_has := True\<rparr>) else (False, s))"

definition limit_speech :: "vad_limits \<Rightarrow> int \<Rightarrow> scan \<Rightarrow> bool \<times> scan" where
  "limit_speech L cur s =
     (if sc_in s \<and> cur - sc_start s > l_max_speech L then
        (if sc_prev_end s \<noteq> 0 then
           (let s1 = s\<lparr>sc_speeches := sc_speeches s @ [(sc_start s, sc_prev_end s)], sc_has := True\<rparr>;
                s2 = (if sc_next_start s < sc_prev_end s then s1\<lparr>sc_in := False, sc_has := False\<rparr>
                      else s1\<lparr>sc_start := sc_next_start s\<rparr>)
            in (False, clear_ends s2))
         else (True, leave_speech (s\<lparr>sc_speeches := sc_speeches s @ [(sc_start s, cur)]\<rparr>)))
      else (False, s))"

definition end_speech :: "vad_limits \<Rightarrow> bool \<Rightarrow> int \<Rightarrow> scan \<Rightarrow> scan" where
  "end_speech L silence cur s =
     (if silence \<and> sc_in s then
        (let te = (if sc_temp_end s = 0 then cur else sc_temp_end s);
             s1 = s\<lparr>sc_temp_end := te,
                    sc_prev_end := (if cur - te > l_silence_at_max L then te else sc_prev_end s)\<rparr>
         in if cur - te < l_min_silence L then s1
            else leave_speech (if te - sc_start s > l_min_speech L
                   then s1\<lparr>sc_speeches := sc_speeches s @ [(sc_start s, te)]\<rparr> else s1))
      else s)"

definition scan_step :: "vad_limits \<Rightarrow> bool \<Rightarrow> bool \<Rightarrow> int \<Rightarrow> scan \<Rightarrow> scan" where
  "scan_step L speech silence cur s =
     (case start_speech speech cur (back_to_speech speech cur s) of
        (True, s1) \<Rightarrow> s1
      | (False, s1) \<Rightarrow>
          (case limit_speech L cur s1 of
             (True, s2) \<Rightarrow> s2
           | (False, s2) \<Rightarrow> end_speech L silence cur s2))"

fun scan_frames :: "'f float_ops \<Rightarrow> 'f \<Rightarrow> vad_limits \<Rightarrow> int \<Rightarrow> 'f list \<Rightarrow> scan \<Rightarrow> scan" where
  "scan_frames F threshold L i [] s = s"
| "scan_frames F threshold L i (p # ps) s =
     scan_frames F threshold L (i + 1) ps
       (scan_step L (fl_le F threshold p) (fl_lt F p (neg_threshold F threshold)) (l_window L * i) s)"

definition close_scan :: "vad_limits \<Rightarrow> scan \<Rightarrow> seg list" where
  "close_scan L s =
     (if sc_has s \<and> l_length L - sc_start s > l_min_speech L
      then sc_speeches s @ [(sc_start s, l_length L)] else sc_speeches s)"

section \<open>Merging, dropping and padding\<close>

definition max_merge_gap :: int where
  "max_merge_gap = tdiv (whisper_sample_rate * 200) 1000"

fun merge_close :: "seg list \<Rightarrow> seg list" where
  "merge_close ((a, b) # (c, d) # r) =
     (if c - b < max_merge_gap then merge_close ((a, d) # r) else (a, b) # merge_close ((c, d) # r))"
| "merge_close r = r"

definition drop_short :: "vad_limits \<Rightarrow> seg list \<Rightarrow> seg list" where
  "drop_short L = filter (\<lambda>(a, b). \<not> b - a < l_min_speech L)"

definition pad_start :: "int \<Rightarrow> int \<Rightarrow> int" where
  "pad_start n start = (if start > n then start - n else 0)"

definition pad_end :: "vad_limits \<Rightarrow> int \<Rightarrow> int" where
  "pad_end L e = (if e + l_pad L < l_length L then e + l_pad L else l_length L)"

fun pad_segments :: "vad_limits \<Rightarrow> seg list \<Rightarrow> seg list" where
  "pad_segments L [] = []"
| "pad_segments L [(a, b)] = [(a, pad_end L b)]"
| "pad_segments L ((a, b) # (c, d) # r) =
     (let silence = c - b
      in if silence < 2 * l_pad L
         then (a, b + tdiv silence 2) # pad_segments L ((pad_start (tdiv silence 2) c, d) # r)
         else (a, pad_end L b) # pad_segments L ((pad_start (l_pad L) c, d) # r))"

definition pad_first :: "vad_limits \<Rightarrow> seg list \<Rightarrow> seg list" where
  "pad_first L segs = (case segs of [] \<Rightarrow> [] | (a, b) # r \<Rightarrow> (pad_start (l_pad L) a, b) # r)"

definition vad_sample_segments :: "'f float_ops \<Rightarrow> 'f vad_params \<Rightarrow> int \<Rightarrow> 'f list \<Rightarrow> seg list" where
  "vad_sample_segments F params n_window probs =
     (let L = vad_limits_of F params n_window (int (length probs));
          speeches = close_scan L (scan_frames F (v_threshold params) L 0 probs scan_init)
      in pad_segments L (pad_first L (drop_short L (merge_close speeches))))"

definition vad_segments_from_probs ::
    "'f float_ops \<Rightarrow> (int \<Rightarrow> bool) \<Rightarrow> 'f vad_params \<Rightarrow> int \<Rightarrow> 'f list \<Rightarrow> seg list" where
  "vad_segments_from_probs F down params n_window probs =
     map (\<lambda>(a, b). (samples_to_cs down a, samples_to_cs down b)) (vad_sample_segments F params n_window probs)"

section \<open>Ordered segments\<close>

text \<open>Segments in order, none before \<open>lo\<close>, none after \<open>hi\<close>, no two overlapping.\<close>

fun chain :: "int \<Rightarrow> seg list \<Rightarrow> int \<Rightarrow> bool" where
  "chain lo [] hi \<longleftrightarrow> lo \<le> hi"
| "chain lo (x # xs) hi \<longleftrightarrow> lo \<le> fst x \<and> fst x \<le> snd x \<and> chain (snd x) xs hi"

lemma chain_le: "chain lo xs hi \<Longrightarrow> lo \<le> hi"
  by (induction xs arbitrary: lo) force+

lemma chain_mono: "chain lo xs hi \<Longrightarrow> lo' \<le> lo \<Longrightarrow> hi \<le> hi' \<Longrightarrow> chain lo' xs hi'"
  by (induction xs arbitrary: lo lo') auto

lemma chain_snoc [simp]: "chain lo (xs @ [(a, b)]) hi \<longleftrightarrow> chain lo xs a \<and> a \<le> b \<and> b \<le> hi"
  by (induction xs arbitrary: lo) auto

lemma chain_merge: "chain lo xs hi \<Longrightarrow> chain lo (merge_close xs) hi"
  by (induction xs arbitrary: lo rule: merge_close.induct) (auto simp: Let_def)

lemma chain_filter: "chain lo xs hi \<Longrightarrow> chain lo (filter P xs) hi"
  by (induction xs arbitrary: lo) (auto intro: chain_mono)

lemma chain_within: "chain lo xs hi \<Longrightarrow> x \<in> set xs \<Longrightarrow> lo \<le> fst x \<and> fst x \<le> snd x \<and> snd x \<le> hi"
  by (induction xs arbitrary: lo) (auto dest: chain_le, fastforce+)

definition scan_inv :: "int \<Rightarrow> scan \<Rightarrow> bool" where
  "scan_inv cur s \<longleftrightarrow> sc_has s = sc_in s \<and>
     (if sc_in s then
        chain 0 (sc_speeches s) (sc_start s) \<and> sc_start s \<le> cur \<and>
        (sc_temp_end s = 0 \<or> sc_start s \<le> sc_temp_end s \<and> sc_temp_end s \<le> cur) \<and>
        (sc_prev_end s = 0 \<or> sc_start s \<le> sc_prev_end s \<and> sc_prev_end s \<le> cur) \<and> sc_next_start s \<le> cur
      else chain 0 (sc_speeches s) cur \<and> sc_temp_end s = 0 \<and> sc_prev_end s = 0 \<and> sc_next_start s = 0)"

lemma scan_inv_mono: "scan_inv cur s \<Longrightarrow> cur \<le> cur' \<Longrightarrow> scan_inv cur' s"
  by (auto simp: scan_inv_def intro: chain_mono split: if_splits)

lemma back_to_speech_inv: "scan_inv cur s \<Longrightarrow> scan_inv cur (back_to_speech speech cur s)"
  by (auto simp: scan_inv_def back_to_speech_def)

lemma start_speech_inv: "0 \<le> cur \<Longrightarrow> scan_inv cur s \<Longrightarrow> scan_inv cur (snd (start_speech speech cur s))"
  by (auto simp: scan_inv_def start_speech_def)

lemma limit_speech_inv: "0 \<le> cur \<Longrightarrow> scan_inv cur s \<Longrightarrow> scan_inv cur (snd (limit_speech L cur s))"
  by (auto simp: scan_inv_def limit_speech_def clear_ends_def leave_speech_def Let_def dest: chain_mono)

lemma end_speech_inv: "0 \<le> cur \<Longrightarrow> scan_inv cur s \<Longrightarrow> scan_inv cur (end_speech L silence cur s)"
  by (auto simp: scan_inv_def end_speech_def clear_ends_def leave_speech_def Let_def intro: chain_mono)

lemma scan_step_inv: "0 \<le> cur \<Longrightarrow> scan_inv cur s \<Longrightarrow> scan_inv cur (scan_step L speech silence cur s)"
  using back_to_speech_inv start_speech_inv limit_speech_inv end_speech_inv
  by (simp add: scan_step_def split: prod.splits bool.splits) (metis snd_conv)

lemma scan_frames_inv:
  "0 \<le> l_window L \<Longrightarrow> 0 \<le> i \<Longrightarrow> scan_inv (l_window L * i) s \<Longrightarrow>
     scan_inv (l_window L * (i + int (length ps))) (scan_frames F threshold L i ps s)"
proof (induction ps arbitrary: i s)
  case (Cons p ps)
  let ?s = "scan_step L (fl_le F threshold p) (fl_lt F p (neg_threshold F threshold)) (l_window L * i) s"
  have "l_window L * i \<le> l_window L * (i + 1)" using Cons.prems by (intro mult_left_mono) auto
  moreover have "scan_inv (l_window L * i) ?s"
    using Cons.prems by (intro scan_step_inv) auto
  ultimately have "scan_inv (l_window L * (i + 1)) ?s" by (rule scan_inv_mono [rotated])
  then have "scan_inv (l_window L * (i + 1 + int (length ps))) (scan_frames F threshold L (i + 1) ps ?s)"
    using Cons.prems by (intro Cons.IH) auto
  moreover have "i + 1 + int (length ps) = i + int (length (p # ps))" by simp
  ultimately show ?case by (simp only: scan_frames.simps)
qed simp

lemma chain_close:
  "scan_inv cur s \<Longrightarrow> cur \<le> l_length L \<Longrightarrow> 0 \<le> l_min_speech L \<Longrightarrow> chain 0 (close_scan L s) (l_length L)"
  by (auto simp: scan_inv_def close_scan_def intro: chain_mono split: if_splits)

lemma pad_start_bounds: "0 \<le> n \<Longrightarrow> 0 \<le> x \<Longrightarrow> 0 \<le> pad_start n x \<and> pad_start n x \<le> x"
  by (simp add: pad_start_def)

lemma pad_end_bounds: "0 \<le> l_pad L \<Longrightarrow> x \<le> l_length L \<Longrightarrow> x \<le> pad_end L x \<and> pad_end L x \<le> l_length L"
  by (simp add: pad_end_def)

text \<open>The two ends of a gap move towards each other without crossing.\<close>

lemma pad_gap:
  assumes "0 \<le> b" "b \<le> c" "0 \<le> l_pad L" "c \<le> l_length L"
  shows "c - b < 2 * l_pad L \<Longrightarrow> b + tdiv (c - b) 2 \<le> pad_start (tdiv (c - b) 2) c \<and>
      b \<le> b + tdiv (c - b) 2 \<and> 0 \<le> tdiv (c - b) 2"
    and "\<not> c - b < 2 * l_pad L \<Longrightarrow> pad_end L b \<le> pad_start (l_pad L) c"
proof -
  have "tdiv (c - b) 2 = (c - b) div 2" using assms by (simp add: tdiv_nonneg)
  then show "c - b < 2 * l_pad L \<Longrightarrow> b + tdiv (c - b) 2 \<le> pad_start (tdiv (c - b) 2) c \<and>
      b \<le> b + tdiv (c - b) 2 \<and> 0 \<le> tdiv (c - b) 2"
    using assms by (auto simp: pad_start_def)
  show "\<not> c - b < 2 * l_pad L \<Longrightarrow> pad_end L b \<le> pad_start (l_pad L) c"
    using assms by (auto simp: pad_end_def pad_start_def)
qed

lemma chain_pad:
  "chain lo segs (l_length L) \<Longrightarrow> 0 \<le> lo \<Longrightarrow> 0 \<le> l_pad L \<Longrightarrow> chain lo (pad_segments L segs) (l_length L)"
proof (induction L segs arbitrary: lo rule: pad_segments.induct)
  case (2 L a b)
  then show ?case using pad_end_bounds [of L b] by simp
next
  case (3 L a b c d r)
  have le: "lo \<le> a" "a \<le> b" "b \<le> c" "c \<le> d" "chain d r (l_length L)" using "3.prems" by auto
  have len: "c \<le> l_length L" using le chain_le by fastforce
  show ?case
  proof (cases "c - b < 2 * l_pad L")
    case True
    have gap: "b + tdiv (c - b) 2 \<le> pad_start (tdiv (c - b) 2) c" "b \<le> b + tdiv (c - b) 2"
        "pad_start (tdiv (c - b) 2) c \<le> c"
      using pad_gap(1) [of b c L] True le len "3.prems" pad_start_bounds [of "tdiv (c - b) 2" c] by auto
    then show ?thesis using "3.IH"(1) [OF refl True, of "b + tdiv (c - b) 2"] True le "3.prems" by (simp add: Let_def)
  next
    case False
    have gap: "pad_end L b \<le> pad_start (l_pad L) c" "b \<le> pad_end L b" "pad_start (l_pad L) c \<le> c"
      using pad_gap(2) [of b c L] False le len "3.prems" pad_end_bounds [of L b] pad_start_bounds [of "l_pad L" c]
      by auto
    then show ?thesis using "3.IH"(2) [OF refl False, of "pad_end L b"] False le "3.prems" by (simp add: Let_def)
  qed
qed simp

lemma pad_keeps_length:
  "chain lo segs (l_length L) \<Longrightarrow> 0 \<le> lo \<Longrightarrow> 0 \<le> l_pad L \<Longrightarrow> \<forall>x \<in> set segs. m \<le> snd x - fst x \<Longrightarrow>
     \<forall>x \<in> set (pad_segments L segs). m \<le> snd x - fst x"
proof (induction L segs arbitrary: lo rule: pad_segments.induct)
  case (2 L a b)
  then show ?case using pad_end_bounds [of L b] by simp
next
  case (3 L a b c d r)
  have le: "lo \<le> a" "a \<le> b" "b \<le> c" "c \<le> d" "chain d r (l_length L)" using "3.prems" by auto
  have len: "c \<le> l_length L" using le chain_le by fastforce
  show ?case
  proof (cases "c - b < 2 * l_pad L")
    case True
    have gap: "b + tdiv (c - b) 2 \<le> pad_start (tdiv (c - b) 2) c" "b \<le> b + tdiv (c - b) 2"
        "pad_start (tdiv (c - b) 2) c \<le> c"
      using pad_gap(1) [of b c L] True le len "3.prems" pad_start_bounds [of "tdiv (c - b) 2" c] by auto
    then show ?thesis using "3.IH"(1) [OF refl True, of "b + tdiv (c - b) 2"] True le "3.prems" by (simp add: Let_def)
  next
    case False
    have gap: "pad_end L b \<le> pad_start (l_pad L) c" "b \<le> pad_end L b" "pad_start (l_pad L) c \<le> c"
      using pad_gap(2) [of b c L] False le len "3.prems" pad_end_bounds [of L b] pad_start_bounds [of "l_pad L" c]
      by auto
    then show ?thesis using "3.IH"(2) [OF refl False, of "pad_end L b"] False le "3.prems" by (simp add: Let_def)
  qed
qed simp

definition vad_params_ok :: "'f vad_params \<Rightarrow> int \<Rightarrow> bool" where
  "vad_params_ok params n_window \<longleftrightarrow>
     0 \<le> v_min_speech_ms params \<and> 0 \<le> v_speech_pad_ms params \<and> 0 < n_window"

lemma limits_ok:
  assumes "vad_params_ok params n_window" and "L = vad_limits_of F params n_window (int n)"
  shows "0 \<le> l_pad L" "l_min_speech L = 16 * v_min_speech_ms params" "l_length L = int n * n_window"
    "l_window L = n_window"
  using assms by (auto simp: vad_params_ok_def vad_limits_of_def Let_def tdiv_nonneg whisper_sample_rate_def)

lemma sample_segments_ok:
  assumes ok: "vad_params_ok params n_window"
  shows "chain 0 (vad_sample_segments F params n_window probs) (int (length probs) * n_window) \<and>
    (\<forall>x \<in> set (vad_sample_segments F params n_window probs). 16 * v_min_speech_ms params \<le> snd x - fst x)"
proof -
  define L where "L = vad_limits_of F params n_window (int (length probs))"
  note lim = limits_ok [OF ok L_def]
  define s where "s = scan_frames F (v_threshold params) L 0 probs scan_init"
  define kept where "kept = drop_short L (merge_close (close_scan L s))"
  have w: "0 \<le> l_window L" "0 \<le> l_min_speech L" using ok lim by (auto simp: vad_params_ok_def)
  have "scan_inv (l_window L * int (length probs)) s"
    using scan_frames_inv [of L 0 scan_init probs F "v_threshold params"] w
    by (simp add: s_def scan_inv_def scan_init_def)
  then have "chain 0 (close_scan L s) (l_length L)" using w lim by (intro chain_close) (auto simp: mult.commute)
  then have kept: "chain 0 kept (l_length L)"
    by (simp add: kept_def drop_short_def chain_filter chain_merge)
  have long: "\<forall>x \<in> set kept. l_min_speech L \<le> snd x - fst x" by (auto simp: kept_def drop_short_def)
  have first: "chain 0 (pad_first L kept) (l_length L) \<and> (\<forall>x \<in> set (pad_first L kept). l_min_speech L \<le> snd x - fst x)"
    using kept long lim(1) pad_start_bounds [of "l_pad L"] by (cases kept) (force simp: pad_first_def)+
  have eq: "vad_sample_segments F params n_window probs = pad_segments L (pad_first L kept)"
    by (simp add: vad_sample_segments_def Let_def L_def s_def kept_def)
  show ?thesis
    using chain_pad [of 0 "pad_first L kept" L] pad_keeps_length [of 0 "pad_first L kept" L "l_min_speech L"]
      first lim(1) unfolding eq lim by simp
qed

text \<open>A conversion keeps the order, whichever way the ties round.\<close>

lemma samples_to_cs_eq: "0 \<le> x \<Longrightarrow> samples_to_cs down x = (x + (if down x then 79 else 80)) div 160"
  by (simp add: samples_to_cs_def tdiv_nonneg)

lemma samples_to_cs_mono: "0 \<le> x \<Longrightarrow> x \<le> y \<Longrightarrow> samples_to_cs down x \<le> samples_to_cs down y"
proof (cases "x = y")
  case False
  assume "0 \<le> x" "x \<le> y"
  then show ?thesis using False by (simp add: samples_to_cs_eq) (intro conjI impI zdiv_mono1; simp)
qed simp

lemma samples_to_cs_near: "0 \<le> x \<Longrightarrow> x - 80 \<le> 160 * samples_to_cs down x \<and> 160 * samples_to_cs down x \<le> x + 80"
  by (auto simp: samples_to_cs_eq)

lemma cs_to_samples_eq: "0 \<le> cs \<Longrightarrow> cs_to_samples cs = 160 * cs"
  by (simp add: cs_to_samples_def tdiv_nonneg)

lemma chain_cs:
  "chain lo segs hi \<Longrightarrow> 0 \<le> lo \<Longrightarrow>
     chain (samples_to_cs down lo) (map (\<lambda>(a, b). (samples_to_cs down a, samples_to_cs down b)) segs) (samples_to_cs down hi)"
  by (induction segs arbitrary: lo) (auto simp: samples_to_cs_mono)

lemma samples_to_cs_0: "samples_to_cs down 0 = 0"
  by (simp add: samples_to_cs_eq)


definition demo_vad_params :: "rat option vad_params" where
  "demo_vad_params = (vad_default_params rat_ops (Some 1000000))\<lparr>v_min_speech_ms := 40\<rparr>"

lemma demo_vad_ok: "vad_params_ok demo_vad_params 512"
  by (simp add: demo_vad_params_def vad_default_params_def vad_params_ok_def)


end
