(* ===== verification/Segments.thy ===== *)
theory Segments
  imports Logits Vad_Detect "HOL-Library.Sublist"
begin

text \<open>
  From the tokens of the best decoder to the segments of the result, in \<open>src/src/whisper.cpp\<close>: the cut at
  timestamps in \<open>whisper_full_with_state\<close>, and \<open>whisper_wrap_segment\<close>.  The pass that gives each token its
  own times is a field of the parameters, which it reaches with its clock (it is \<open>compute_token_times\<close> of
  \<open>Token_Times\<close>); the laws that the cut needs of it are those of the locale \<open>token_stamp\<close>.
  \<^term>\<open>None\<close> is the exception of \<open>id_to_token.at\<close>.
\<close>

section \<open>Segments\<close>

record 'f segment =
  sg_t0 :: int
  sg_t1 :: int
  sg_text :: string
  sg_no_speech :: 'f
  sg_tokens :: "'f token_data list"
  sg_turn :: bool

text \<open>\<open>whisper_token_to_str\<close>, as the \<open>const char *\<close> it returns.\<close>

definition token_to_str :: "vocab \<Rightarrow> int \<Rightarrow> string option" where
  "token_to_str v i = map_option (takeWhile (\<lambda>c. c \<noteq> NUL)) (v_id_to_token v i)"

section \<open>Wrapping the last segment\<close>

text \<open>Reading the first character of an empty token gives its terminating zero.\<close>

definition should_split_on_word :: "string \<Rightarrow> bool \<Rightarrow> bool" where
  "should_split_on_word s split_on_word = (if \<not> split_on_word then True else s \<noteq> [] \<and> hd s = CHR '' '')"

text \<open>
  \<open>seg\<close> is the copy of the segment being cut, \<open>bk\<close> the same segment at the back of the results, \<open>i\<close> the
  token, \<open>acc\<close> and \<open>s\<close> the text so far.  The result lists the segments that take the place of \<open>bk\<close>.
\<close>

function wrap_loop :: "vocab \<Rightarrow> 'f \<Rightarrow> int \<Rightarrow> bool \<Rightarrow> 'f segment \<Rightarrow> 'f segment \<Rightarrow> nat \<Rightarrow> int \<Rightarrow> string
    \<Rightarrow> 'f segment list option" where
  "wrap_loop v zero max_len split_on_word seg bk i acc s =
     (if i < length (sg_tokens seg) then
        (let token = sg_tokens seg ! i
         in if td_id token \<ge> v_eot v then wrap_loop v zero max_len split_on_word seg bk (i + 1) acc s
            else case token_to_str v (td_id token) of
                None \<Rightarrow> None
              | Some w \<Rightarrow>
                  (if acc + int (length w) > max_len \<and> i > 0 \<and> should_split_on_word w split_on_word then
                     (let done = bk\<lparr>sg_text := s, sg_t1 := td_t0 token, sg_tokens := take i (sg_tokens bk),
                                      sg_turn := False\<rparr>;
                          fresh = \<lparr>sg_t0 = td_t0 token, sg_t1 = sg_t1 seg, sg_text = [], sg_no_speech = zero,
                                   sg_tokens = drop i (sg_tokens seg), sg_turn = sg_turn seg\<rparr>
                      in map_option ((#) done) (wrap_loop v zero max_len split_on_word fresh fresh 0 0 []))
                   else wrap_loop v zero max_len split_on_word seg bk (i + 1) (acc + int (length w)) (s @ w)))
      else Some [bk\<lparr>sg_text := s\<rparr>])"
  by pat_completeness auto
termination
  by (relation "measure (\<lambda>(v, zero, max_len, sw, seg, bk, i, acc, s). 2 * length (sg_tokens seg) - i)") auto

declare wrap_loop.simps [simp del]

text \<open>The new segments, whose number is what the code returns.\<close>

definition wrap_segment :: "vocab \<Rightarrow> 'f \<Rightarrow> int \<Rightarrow> bool \<Rightarrow> 'f segment list \<Rightarrow> ('f segment list \<times> nat) option" where
  "wrap_segment v zero max_len split_on_word result =
     (case wrap_loop v zero max_len split_on_word (last result) (last result) 0 0 [] of
        None \<Rightarrow> None
      | Some segs \<Rightarrow> Some (butlast result @ segs, length segs))"

section \<open>Cutting at timestamps\<close>

record ('f, 's) seg_params =
  sp_print_special :: bool
  sp_tdrz_enable :: bool
  sp_single_segment :: bool
  sp_token_timestamps :: bool
  sp_max_len :: int
  sp_split_on_word :: bool
  sp_stamp :: "'s \<Rightarrow> 'f segment \<Rightarrow> ('f segment \<times> 's) option"
  sp_dtw :: bool
  sp_zero :: 'f

text \<open>
  A finished segment is appended, its tokens get their times, and it is wrapped; the callback is told how
  many segments are new.
\<close>

definition emit_segment :: "vocab \<Rightarrow> ('f, 's) seg_params \<Rightarrow> 'f segment \<Rightarrow> 'f segment list \<times> nat list \<times> 's
    \<Rightarrow> ('f segment list \<times> nat list \<times> 's) option" where
  "emit_segment v P seg out =
     (let (segs, calls, ck) = out; log = (\<lambda>n. if sp_dtw P then calls else calls @ [n])
      in if sp_token_timestamps P
         then (case sp_stamp P ck seg of
                 None \<Rightarrow> None
               | Some (seg1, ck1) \<Rightarrow>
                   (if sp_max_len P > 0
                    then (case wrap_segment v (sp_zero P) (sp_max_len P) (sp_split_on_word P) (segs @ [seg1]) of
                            None \<Rightarrow> None
                          | Some (all, n_new) \<Rightarrow> Some (all, log n_new, ck1))
                    else Some (segs @ [seg1], log 1, ck1)))
         else Some (segs @ [seg], log 1, ck))"

text \<open>\<open>pend\<close> holds the tokens from \<open>i0\<close> on.\<close>

function cut_loop :: "vocab \<Rightarrow> ('f, 's) seg_params \<Rightarrow> 'f \<Rightarrow> int \<Rightarrow> int \<Rightarrow> 'f token_data list \<Rightarrow> int \<Rightarrow> string \<Rightarrow> bool
    \<Rightarrow> 'f token_data list \<Rightarrow> 'f segment list \<times> nat list \<times> 's \<Rightarrow> ('f segment list \<times> nat list \<times> 's) option" where
  "cut_loop v P no_speech seek seek_delta pend t0 s turn [] out =
     (if s = [] then Some out
      else emit_segment v P \<lparr>sg_t0 = t0, sg_t1 = seek + seek_delta, sg_text = s, sg_no_speech = no_speech,
             sg_tokens = pend, sg_turn = turn\<rparr> out)"
| "cut_loop v P no_speech seek seek_delta pend t0 s turn (tok # rest) out =
     (case (if sp_print_special P \<or> td_id tok < v_eot v then token_to_str v (td_id tok) else Some []) of
        None \<Rightarrow> None
      | Some w \<Rightarrow>
          (let s1 = s @ w; turn1 = (turn \<or> sp_tdrz_enable P \<and> td_id tok = v_solm v)
           in if td_id tok > v_beg v \<and> \<not> sp_single_segment P
              then (let t1 = seek + 2 * (td_tid tok - v_beg v)
                    in case (if s1 = [] then Some out
                             else emit_segment v P \<lparr>sg_t0 = t0, sg_t1 = t1, sg_text = s1, sg_no_speech = no_speech,
                                    sg_tokens = pend @ [tok], sg_turn = turn1\<rparr> out) of
                         None \<Rightarrow> None
                       | Some out1 \<Rightarrow>
                           cut_loop v P no_speech seek seek_delta [] t1 [] False
                             (dropWhile (\<lambda>t. td_id t > v_beg v) rest) out1)
              else cut_loop v P no_speech seek seek_delta (pend @ [tok]) t0 s1 turn1 rest out))"
  by pat_completeness auto
termination
  by (relation "measure (\<lambda>(v, P, ns, seek, sd, pend, t0, s, turn, rest, out). length rest)")
    (auto simp: le_imp_less_Suc length_dropWhile_le)

declare cut_loop.simps [simp del]

definition cut_segments :: "vocab \<Rightarrow> ('f, 's) seg_params \<Rightarrow> 'f \<Rightarrow> int \<Rightarrow> int \<Rightarrow> 'f token_data list
    \<Rightarrow> 'f segment list \<Rightarrow> 's \<Rightarrow> ('f segment list \<times> nat list \<times> 's) option" where
  "cut_segments v P no_speech seek seek_delta tokens result ck =
     (case tokens of
        [] \<Rightarrow> Some (result, [], ck)
      | t # _ \<Rightarrow>
          cut_loop v P no_speech seek seek_delta [] (seek + 2 * (td_tid t - v_beg v)) [] False tokens (result, [], ck))"

section \<open>Wrapping keeps everything\<close>

text \<open>The text of tokens, without the special ones.\<close>

definition plain_text :: "vocab \<Rightarrow> 'f token_data list \<Rightarrow> string" where
  "plain_text v toks = concat (map (\<lambda>t. the (token_to_str v (td_id t))) (filter (\<lambda>t. td_id t < v_eot v) toks))"

text \<open>Segments that follow each other without a gap, from one time to another.\<close>

fun linked :: "int \<Rightarrow> 'f segment list \<Rightarrow> int \<Rightarrow> bool" where
  "linked a [] b \<longleftrightarrow> a = b"
| "linked a (s # ss) b \<longleftrightarrow> sg_t0 s = a \<and> linked (sg_t1 s) ss b"

definition known_tokens :: "vocab \<Rightarrow> 'f token_data list \<Rightarrow> bool" where
  "known_tokens v toks \<longleftrightarrow> (\<forall>t \<in> set toks. td_id t < v_eot v \<longrightarrow> token_to_str v (td_id t) \<noteq> None)"

lemma plain_text_append: "plain_text v (xs @ ys) = plain_text v xs @ plain_text v ys"
  by (simp add: plain_text_def)

lemma plain_text_take_Suc:
  "i < length xs \<Longrightarrow> plain_text v (take (Suc i) xs) = plain_text v (take i xs) @ plain_text v [xs ! i]"
  by (simp add: take_Suc_conv_app_nth plain_text_append)

definition pieces_ok :: "vocab \<Rightarrow> 'f segment \<Rightarrow> 'f segment list \<Rightarrow> bool" where
  "pieces_ok v seg segs \<longleftrightarrow> segs \<noteq> [] \<and> concat (map sg_tokens segs) = sg_tokens seg \<and>
     (\<forall>x \<in> set segs. sg_text x = plain_text v (sg_tokens x)) \<and> linked (sg_t0 seg) segs (sg_t1 seg) \<and>
     sg_turn (last segs) = sg_turn seg \<and> (\<forall>x \<in> set (butlast segs). \<not> sg_turn x)"

lemma wrap_loop_ok:
  "known_tokens v (sg_tokens seg) \<Longrightarrow> bk = seg \<Longrightarrow> i \<le> length (sg_tokens seg) \<Longrightarrow>
     s = plain_text v (take i (sg_tokens seg)) \<Longrightarrow>
     \<exists>segs. wrap_loop v zero max_len sw seg bk i acc s = Some segs \<and> pieces_ok v seg segs"
proof (induction v zero max_len sw seg bk i acc s rule: wrap_loop.induct)
  case (1 v zero max_len sw seg bk i acc s)
  note simps = wrap_loop.simps [of v zero max_len sw seg bk i acc s]
  show ?case
  proof (cases "i < length (sg_tokens seg)")
    case False
    then have i: "i = length (sg_tokens seg)" using "1.prems"(3) by simp
    have "wrap_loop v zero max_len sw seg bk i acc s = Some [bk\<lparr>sg_text := s\<rparr>]" using False by (simp add: simps)
    moreover have "pieces_ok v seg [bk\<lparr>sg_text := s\<rparr>]" using "1.prems" i by (simp add: pieces_ok_def)
    ultimately show ?thesis by blast
  next
    case True
    define token where "token = sg_tokens seg ! i"
    have text1: "plain_text v (take (i + 1) (sg_tokens seg)) = s @ plain_text v [token]"
      using plain_text_take_Suc [OF True, of v] "1.prems"(4) by (simp add: token_def)
    show ?thesis
    proof (cases "td_id token \<ge> v_eot v")
      case special: True
      then have "plain_text v [token] = []" by (simp add: plain_text_def)
      then have "\<exists>segs. wrap_loop v zero max_len sw seg bk (i + 1) acc s = Some segs \<and> pieces_ok v seg segs"
        using "1.IH"(1) [OF True token_def special] "1.prems" text1 True by simp
      then show ?thesis using True special by (simp add: simps Let_def flip: token_def)
    next
      case word: False
      have "token \<in> set (sg_tokens seg)" using True by (simp add: token_def)
      then obtain w where w: "token_to_str v (td_id token) = Some w"
        using "1.prems"(1) word by (auto simp: known_tokens_def)
      then have "plain_text v [token] = w" using word by (simp add: plain_text_def)
      note text2 = text1 [unfolded this]
      show ?thesis
      proof (cases "acc + int (length w) > max_len \<and> i > 0 \<and> should_split_on_word w sw")
        case False
        then have "\<exists>segs. wrap_loop v zero max_len sw seg bk (i + 1) (acc + int (length w)) (s @ w) = Some segs \<and>
            pieces_ok v seg segs"
          using "1.IH"(3) [OF True token_def word w] "1.prems" text2 True by simp
        moreover have "wrap_loop v zero max_len sw seg bk i acc s =
            wrap_loop v zero max_len sw seg bk (i + 1) (acc + int (length w)) (s @ w)"
          unfolding simps Let_def if_P [OF True] token_def [symmetric] if_not_P [OF word] w option.case if_not_P [OF False]
          by (rule refl)
        ultimately show ?thesis by simp
      next
        case split: True
        define d where "d = bk\<lparr>sg_text := s, sg_t1 := td_t0 token, sg_tokens := take i (sg_tokens bk), sg_turn := False\<rparr>"
        define fresh where "fresh = \<lparr>sg_t0 = td_t0 token, sg_t1 = sg_t1 seg, sg_text = [], sg_no_speech = zero,
            sg_tokens = drop i (sg_tokens seg), sg_turn = sg_turn seg\<rparr>"
        have "known_tokens v (sg_tokens fresh)" using "1.prems"(1) by (auto simp: known_tokens_def fresh_def dest: in_set_dropD)
        then obtain segs where segs: "wrap_loop v zero max_len sw fresh fresh 0 0 [] = Some segs" "pieces_ok v fresh segs"
          using "1.IH"(2) [OF True token_def word w split d_def fresh_def] by (auto simp: plain_text_def)
        have "pieces_ok v seg (d # segs)"
          using segs(2) "1.prems" by (auto simp: pieces_ok_def d_def fresh_def)
        moreover have "wrap_loop v zero max_len sw seg bk i acc s = Some (d # segs)"
          using True word w split segs(1) by (simp add: simps Let_def d_def fresh_def flip: token_def)
        ultimately show ?thesis by blast
      qed
    qed
  qed
qed


text \<open>
  Wrapping loses nothing.  The pieces that replace the last segment hold its tokens in order, each
  piece has the text of its own tokens, their times follow each other from the start of the segment to its
  end, and only the last piece keeps the mark of a speaker turn.
\<close>

theorem wrap_segment_pieces:
  assumes "result \<noteq> []" "known_tokens v (sg_tokens (last result))"
  shows "\<exists>segs. wrap_segment v zero max_len sw result = Some (butlast result @ segs, length segs) \<and>
    segs \<noteq> [] \<and> concat (map sg_tokens segs) = sg_tokens (last result) \<and>
    (\<forall>x \<in> set segs. sg_text x = plain_text v (sg_tokens x)) \<and>
    linked (sg_t0 (last result)) segs (sg_t1 (last result)) \<and>
    sg_turn (last segs) = sg_turn (last result) \<and> (\<forall>x \<in> set (butlast segs). \<not> sg_turn x)"
  using wrap_loop_ok [OF assms(2) refl, of 0 "[]" zero max_len sw 0]
  by (auto simp: wrap_segment_def pieces_ok_def plain_text_def)

section \<open>Cutting keeps everything\<close>

text \<open>Timestamps that do not decrease, from \<open>lo\<close> to the end of the window.\<close>

fun times_ok :: "vocab \<Rightarrow> int \<Rightarrow> int \<Rightarrow> int \<Rightarrow> 'f token_data list \<Rightarrow> bool" where
  "times_ok v seek hi lo [] \<longleftrightarrow> lo \<le> hi"
| "times_ok v seek hi lo (t # ts) \<longleftrightarrow>
     (if td_id t > v_beg v
      then lo \<le> seek + 2 * (td_tid t - v_beg v) \<and> times_ok v seek hi (seek + 2 * (td_tid t - v_beg v)) ts
      else times_ok v seek hi lo ts)"

lemma times_ok_mono: "times_ok v seek hi lo ts \<Longrightarrow> lo' \<le> lo \<Longrightarrow> times_ok v seek hi lo' ts"
  by (induction ts arbitrary: lo lo') auto

lemma times_ok_skip: "times_ok v seek hi lo ts \<Longrightarrow> times_ok v seek hi lo (dropWhile (\<lambda>t. td_id t > v_beg v) ts)"
proof (induction ts arbitrary: lo)
  case (Cons t ts)
  then show ?case
    by (auto intro: times_ok_mono [where lo = "seek + 2 * (td_tid t - v_beg v)"])
qed simp

lemma plain_text_skip:
  "v_eot v \<le> v_beg v \<Longrightarrow> plain_text v (dropWhile (\<lambda>t. td_id t > v_beg v) ts) = plain_text v ts"
  by (induction ts) (auto simp: plain_text_def)

lemma subseq_skip: "subseq xs (dropWhile P ts) \<Longrightarrow> subseq xs ts"
  by (induction ts) (auto split: if_splits)

definition seg_times :: "'f segment \<Rightarrow> int \<times> int" where
  "seg_times s = (sg_t0 s, sg_t1 s)"

definition wraps :: "('f, 's) seg_params \<Rightarrow> bool" where
  "wraps P \<longleftrightarrow> sp_token_timestamps P \<and> sp_max_len P > 0"

text \<open>
  The segments \<open>new\<close> made from tokens with the given text and ids, and the numbers told to the callback; their
  times follow each other if they are not wrapped.
\<close>

definition segs_ok :: "vocab \<Rightarrow> ('f, 's) seg_params \<Rightarrow> string \<Rightarrow> int list \<Rightarrow> int \<Rightarrow> int \<Rightarrow> 'f segment list \<Rightarrow> nat list \<Rightarrow> bool" where
  "segs_ok v P s ids lo hi new calls \<longleftrightarrow>
     concat (map sg_text new) = s \<and> subseq (map td_id (concat (map sg_tokens new))) ids \<and>
     (\<forall>x \<in> set new. sg_text x = plain_text v (sg_tokens x)) \<and>
     (if sp_dtw P then calls = [] else sum_list calls = length new) \<and>
     (\<not> wraps P \<longrightarrow> chain lo (map seg_times new) hi \<and> (\<forall>x \<in> set new. sg_text x \<noteq> []))"

lemma segs_ok_ids: "segs_ok v P s ids lo hi new calls \<Longrightarrow> subseq ids ids' \<Longrightarrow> segs_ok v P s ids' lo hi new calls"
  unfolding segs_ok_def using subseq_order.trans by blast

lemma plain_text_ids:
  fixes xs ys :: "'a token_data list"
  assumes "map td_id xs = map td_id ys"
  shows "plain_text v xs = plain_text v ys"
proof -
  have eq: "plain_text v ts = concat (map (\<lambda>i. the (token_to_str v i)) (filter (\<lambda>i. i < v_eot v) (map td_id ts)))"
    for ts :: "'a token_data list"
    by (simp add: plain_text_def filter_map o_def)
  show ?thesis unfolding eq assms by (rule refl)
qed

lemma chain_append: "chain lo xs mid \<Longrightarrow> chain mid ys hi \<Longrightarrow> chain lo (xs @ ys) hi"
  by (induction xs arbitrary: lo) (auto intro: chain_mono)

lemma segs_ok_append:
  "segs_ok v P s ids lo mid new calls \<Longrightarrow> segs_ok v P s' ids' mid hi new' calls' \<Longrightarrow> lo \<le> mid \<Longrightarrow>
     segs_ok v P (s @ s') (ids @ ids') lo hi (new @ new') (calls @ calls')"
  by (auto simp: segs_ok_def intro: list_emb_append_mono chain_append split: if_splits)

lemma concat_texts:
  "(\<forall>x \<in> set segs. sg_text x = plain_text v (sg_tokens x)) \<Longrightarrow>
     concat (map sg_text segs) = plain_text v (concat (map sg_tokens segs))"
  by (induction segs) (simp_all add: plain_text_append, simp add: plain_text_def)

definition all_known :: "vocab \<Rightarrow> 'f token_data list \<Rightarrow> bool" where
  "all_known v toks \<longleftrightarrow> (\<forall>t \<in> set toks. token_to_str v (td_id t) \<noteq> None)"

lemma all_known_tokens: "all_known v toks \<Longrightarrow> known_tokens v toks"
  by (simp add: all_known_def known_tokens_def)

lemma all_known_ids:
  fixes xs ys :: "'a token_data list"
  assumes "map td_id xs = map td_id ys"
  shows "all_known v xs = all_known v ys"
proof -
  have eq: "all_known v ts \<longleftrightarrow> (\<forall>i \<in> set (map td_id ts). token_to_str v i \<noteq> None)" for ts :: "'a token_data list"
    by (simp add: all_known_def)
  show ?thesis unfolding eq assms by (rule refl)
qed

text \<open>What the cut relies on: the pass for token times works on known tokens and changes neither their ids nor their segment.\<close>

locale token_stamp =
  fixes v :: vocab and stamp :: "'s \<Rightarrow> 'f segment \<Rightarrow> ('f segment \<times> 's) option"
  assumes stamp_known: "all_known v (sg_tokens seg) \<Longrightarrow>
    \<exists>toks ck'. stamp ck seg = Some (seg\<lparr>sg_tokens := toks\<rparr>, ck') \<and> map td_id toks = map td_id (sg_tokens seg)"
begin

lemma emit_segment_ok:
  assumes "sp_stamp P = stamp" "all_known v (sg_tokens seg)"
  shows "\<exists>new calls ck'. emit_segment v P seg out = Some (fst out @ new, fst (snd out) @ calls, ck') \<and>
    (sg_text seg = plain_text v (sg_tokens seg) \<and> sg_text seg \<noteq> [] \<and> sg_t0 seg \<le> sg_t1 seg \<longrightarrow>
      segs_ok v P (sg_text seg) (map td_id (sg_tokens seg)) (sg_t0 seg) (sg_t1 seg) new calls)"
proof -
  obtain segs cs ck where out: "out = (segs, cs, ck)" by (cases out) auto
  define log where "log n = (if sp_dtw P then [] else [n])" for n :: nat
  have one: "\<exists>new calls ck'. Some (segs @ [seg\<lparr>sg_tokens := toks\<rparr>], cs @ log 1, ck1) = Some (segs @ new, cs @ calls, ck') \<and>
      (sg_text seg = plain_text v (sg_tokens seg) \<and> sg_text seg \<noteq> [] \<and> sg_t0 seg \<le> sg_t1 seg \<longrightarrow>
      segs_ok v P (sg_text seg) (map td_id (sg_tokens seg)) (sg_t0 seg) (sg_t1 seg) new calls)"
    if "map td_id toks = map td_id (sg_tokens seg)" for toks ck1
    using plain_text_ids [OF that, of v] that
    by (intro exI [of _ "[seg\<lparr>sg_tokens := toks\<rparr>]"] exI [of _ "log 1"] exI [of _ ck1])
      (auto simp: segs_ok_def seg_times_def log_def)
  show ?thesis
  proof (cases "sp_token_timestamps P")
    case False
    then have "emit_segment v P seg out = Some (segs @ [seg\<lparr>sg_tokens := sg_tokens seg\<rparr>], cs @ log 1, ck)"
      by (simp add: emit_segment_def out log_def)
    then show ?thesis using one [OF refl, of ck] by (simp only: out fst_conv snd_conv)
  next
    case True
    obtain toks ck1 where st: "stamp ck seg = Some (seg\<lparr>sg_tokens := toks\<rparr>, ck1)" "map td_id toks = map td_id (sg_tokens seg)"
      using stamp_known [OF assms(2)] by blast
    show ?thesis
    proof (cases "sp_max_len P > 0")
      case False
      then have "emit_segment v P seg out = Some (segs @ [seg\<lparr>sg_tokens := toks\<rparr>], cs @ log 1, ck1)"
        using True by (simp add: emit_segment_def out assms(1) st(1) log_def)
      then show ?thesis using one [OF st(2), of ck1] by (simp only: out fst_conv snd_conv)
    next
      case wrap: True
      have "known_tokens v toks" using assms(2) all_known_ids [OF st(2), of v] all_known_tokens by blast
      then obtain new where new: "wrap_loop v (sp_zero P) (sp_max_len P) (sp_split_on_word P) (seg\<lparr>sg_tokens := toks\<rparr>)
          (seg\<lparr>sg_tokens := toks\<rparr>) 0 0 [] = Some new" "pieces_ok v (seg\<lparr>sg_tokens := toks\<rparr>) new"
        using wrap_loop_ok [of v "seg\<lparr>sg_tokens := toks\<rparr>" "seg\<lparr>sg_tokens := toks\<rparr>" 0 "[]" "sp_zero P" "sp_max_len P" "sp_split_on_word P" 0]
        by (auto simp: plain_text_def)
      have "emit_segment v P seg out = Some (segs @ new, cs @ log (length new), ck1)"
        using True wrap new(1) by (simp add: emit_segment_def out assms(1) st(1) wrap_segment_def log_def)
      moreover have "segs_ok v P (plain_text v (sg_tokens seg)) (map td_id (sg_tokens seg)) (sg_t0 seg) (sg_t1 seg) new (log (length new))"
        using new(2) concat_texts [of new v] st(2) plain_text_ids [OF st(2), of v] True wrap
        by (auto simp: segs_ok_def pieces_ok_def wraps_def log_def)
      ultimately show ?thesis by (auto simp: out)
    qed
  qed
qed

lemma cut_loop_ok:
  "sp_stamp P = stamp \<Longrightarrow> all_known v (pend @ toks) \<Longrightarrow>
   \<exists>new calls ck'. cut_loop v P no_speech seek seek_delta pend t0 s turn toks out =
       Some (fst out @ new, fst (snd out) @ calls, ck') \<and>
     (\<not> sp_print_special P \<and> v_eot v \<le> v_beg v \<and> s = plain_text v pend \<and> times_ok v seek (seek + seek_delta) t0 toks \<longrightarrow>
      segs_ok v P (plain_text v (pend @ toks)) (map td_id (pend @ toks)) t0 (seek + seek_delta) new calls)"
proof (induction "length toks" arbitrary: pend t0 s turn toks out rule: less_induct)
  case less
  show ?case
  proof (cases toks)
    case Nil
    show ?thesis
    proof (cases "s = []")
      case True
      then show ?thesis using Nil
        by (intro exI [of _ "[]"] exI [of _ "snd (snd out)"]) (auto simp: cut_loop.simps segs_ok_def prod_eq_iff)
    next
      case False
      let ?seg = "\<lparr>sg_t0 = t0, sg_t1 = seek + seek_delta, sg_text = s, sg_no_speech = no_speech,
          sg_tokens = pend, sg_turn = turn\<rparr>"
      show ?thesis using emit_segment_ok [OF less.prems(1), of ?seg out] less.prems(2) Nil False
        by (auto simp: cut_loop.simps)
    qed
  next
    case (Cons tok rest)
    obtain w where w: "(if sp_print_special P \<or> td_id tok < v_eot v then token_to_str v (td_id tok) else Some []) = Some w"
      using less.prems(2) Cons by (cases "sp_print_special P \<or> td_id tok < v_eot v") (auto simp: all_known_def)
    define s1 where "s1 = s @ w"
    define turn1 where "turn1 = (turn \<or> sp_tdrz_enable P \<and> td_id tok = v_solm v)"
    define t1 where "t1 = seek + 2 * (td_tid tok - v_beg v)"
    have known: "all_known v (pend @ [tok])" "all_known v rest" "all_known v ((pend @ [tok]) @ rest)"
      using less.prems(2) Cons by (auto simp: all_known_def)
    have words: "s1 = plain_text v (pend @ [tok])" if "s = plain_text v pend" "\<not> sp_print_special P"
      using that w by (auto simp: s1_def plain_text_append) (auto simp: plain_text_def)
    note simps = cut_loop.simps(2) [of v P no_speech seek seek_delta pend t0 s turn tok rest out]
    show ?thesis
    proof (cases "td_id tok > v_beg v \<and> \<not> sp_single_segment P")
      case True
      let ?rest = "dropWhile (\<lambda>t. td_id t > v_beg v) rest"
      let ?seg = "\<lparr>sg_t0 = t0, sg_t1 = t1, sg_text = s1, sg_no_speech = no_speech, sg_tokens = pend @ [tok], sg_turn = turn1\<rparr>"
      obtain new1 calls1 ck1 where out1: "(if s1 = [] then Some out else emit_segment v P ?seg out) =
          Some (fst out @ new1, fst (snd out) @ calls1, ck1)"
        "s1 = plain_text v (pend @ [tok]) \<and> t0 \<le> t1 \<longrightarrow> segs_ok v P s1 (map td_id (pend @ [tok])) t0 t1 new1 calls1"
      proof (cases "s1 = []")
        case True
        then show ?thesis using that [of "[]" "[]" "snd (snd out)"] by (simp add: segs_ok_def)
      next
        case False
        then show ?thesis using that emit_segment_ok [OF less.prems(1), of ?seg out] known(1) by auto
      qed
      have shorter: "length ?rest < length toks" using Cons length_dropWhile_le [of "\<lambda>t. td_id t > v_beg v" rest] by simp
      have "all_known v ([] @ ?rest)" using known(2) by (auto simp: all_known_def dest: set_dropWhileD)
      then obtain new calls ck' where new: "cut_loop v P no_speech seek seek_delta [] t1 [] False ?rest
            (fst out @ new1, fst (snd out) @ calls1, ck1) = Some ((fst out @ new1) @ new, (fst (snd out) @ calls1) @ calls, ck')"
          "\<not> sp_print_special P \<and> v_eot v \<le> v_beg v \<and> times_ok v seek (seek + seek_delta) t1 ?rest \<longrightarrow>
           segs_ok v P (plain_text v ?rest) (map td_id ?rest) t1 (seek + seek_delta) new calls"
        using less.hyps [OF shorter less.prems(1), of "[]" t1 "[]" False "(fst out @ new1, fst (snd out) @ calls1, ck1)"]
        by (auto simp: plain_text_def)
      have "cut_loop v P no_speech seek seek_delta pend t0 s turn toks out = Some (fst out @ new1 @ new, fst (snd out) @ calls1 @ calls, ck')"
        unfolding Cons simps w option.case Let_def s1_def [symmetric] turn1_def [symmetric] t1_def [symmetric]
          if_P [OF True] out1(1) new(1) by simp
      moreover have "segs_ok v P (plain_text v (pend @ toks)) (map td_id (pend @ toks)) t0 (seek + seek_delta) (new1 @ new) (calls1 @ calls)"
        if a: "\<not> sp_print_special P" "v_eot v \<le> v_beg v" "s = plain_text v pend" "times_ok v seek (seek + seek_delta) t0 toks"
      proof -
        have le: "t0 \<le> t1" "times_ok v seek (seek + seek_delta) t1 ?rest"
          using a(4) True times_ok_skip Cons by (auto simp: t1_def)
        have first: "segs_ok v P s1 (map td_id (pend @ [tok])) t0 t1 new1 calls1" using out1(2) words [OF a(3,1)] le(1) by blast
        have second: "segs_ok v P (plain_text v ?rest) (map td_id ?rest) t1 (seek + seek_delta) new calls" using new(2) a le(2) by blast
        have whole: "s1 @ plain_text v ?rest = plain_text v (pend @ toks)"
          unfolding plain_text_skip [OF a(2)] words [OF a(3,1)] Cons plain_text_append by (simp add: plain_text_def)
        have "subseq (map td_id ?rest) (map td_id rest)"
          by (rule subseq_map [OF subseq_skip [OF subseq_order.order_refl]])
        then have "subseq (map td_id (pend @ [tok]) @ map td_id ?rest) (map td_id (pend @ [tok]) @ map td_id rest)"
          by (simp only: subseq_append')
        then show ?thesis using segs_ok_ids [OF segs_ok_append [OF first second le(1)]] whole Cons by simp
      qed
      ultimately show ?thesis by blast
    next
      case False
      have "cut_loop v P no_speech seek seek_delta pend t0 s turn toks out =
          cut_loop v P no_speech seek seek_delta (pend @ [tok]) t0 s1 turn1 rest out"
        unfolding Cons simps w option.case Let_def s1_def [symmetric] turn1_def [symmetric] if_not_P [OF False] by (rule refl)
      moreover have "\<exists>new calls ck'. cut_loop v P no_speech seek seek_delta (pend @ [tok]) t0 s1 turn1 rest out =
          Some (fst out @ new, fst (snd out) @ calls, ck') \<and>
        (\<not> sp_print_special P \<and> v_eot v \<le> v_beg v \<and> s1 = plain_text v (pend @ [tok]) \<and> times_ok v seek (seek + seek_delta) t0 rest \<longrightarrow>
         segs_ok v P (plain_text v ((pend @ [tok]) @ rest)) (map td_id ((pend @ [tok]) @ rest)) t0 (seek + seek_delta) new calls)"
        by (rule less.hyps [OF _ less.prems(1) known(3)]) (simp add: Cons)
      moreover have "times_ok v seek (seek + seek_delta) t0 rest" if "times_ok v seek (seek + seek_delta) t0 toks"
        using that Cons by (auto split: if_splits intro: times_ok_mono)
      ultimately show ?thesis using words Cons by auto
    qed
  qed
qed

lemma cut_segments_ok:
  assumes "sp_stamp P = stamp" "all_known v toks" "toks \<noteq> []"
  shows "\<exists>new calls ck'. cut_segments v P no_speech seek seek_delta toks result ck = Some (result @ new, calls, ck') \<and>
    (\<not> sp_print_special P \<and> v_eot v \<le> v_beg v \<and>
       times_ok v seek (seek + seek_delta) (seek + 2 * (td_tid (hd toks) - v_beg v)) toks \<longrightarrow>
     segs_ok v P (plain_text v toks) (map td_id toks) (seek + 2 * (td_tid (hd toks) - v_beg v)) (seek + seek_delta) new calls)"
  using cut_loop_ok [OF assms(1), of "[]" toks no_speech seek seek_delta "seek + 2 * (td_tid (hd toks) - v_beg v)" "[]" False "(result, [], ck)"]
    assms(2,3)
  by (cases toks) (auto simp: cut_segments_def plain_text_def)

end

section \<open>Witnesses\<close>

definition demo_token :: "int \<Rightarrow> int \<Rightarrow> rat option token_data" where
  "demo_token i t = \<lparr>td_id = i, td_tid = i, td_p = Some 0, td_plog = Some 0, td_pt = Some 0, td_ptsum = Some 0,
     td_t0 = t, td_t1 = t, td_t_dtw = -1, td_vlen = Some 0\<rparr>"

definition demo_toks :: "rat option token_data list" where
  "demo_toks = [demo_token 112 0, demo_token 0 1, demo_token 1 2, demo_token 113 3, demo_token 113 3, demo_token 0 4, demo_token 114 5]"

lemma demo_known: "known_tokens demo_small demo_toks"
  by (simp add: known_tokens_def demo_toks_def demo_token_def demo_small_def token_to_str_def)

end
