(* ===== verification/Decoder.thy ===== *)
theory Decoder
  imports Segments Kv_Cache Grammar_Engine
begin

text \<open>
  One decoder of \<open>whisper_full_with_state\<close> in \<open>src/src/whisper.cpp\<close>: its state, the sampling of its next
  token or of its candidates, the choice of candidates by the beam search, the update after a token, the
  next batch and the ranking of the finished decoders.  The grammar engine, the filters and the sampling
  are those of the theories imported; an undefined step of any of them is \<^term>\<open>None\<close>.
\<close>

section \<open>State\<close>

record ('f, 'd, 'r) decoder =
  d_sequence :: "('f, 'd) sequence"
  d_grammar :: grammar
  d_i_batch :: nat
  d_seek_delta :: int
  d_failed :: bool
  d_completed :: bool
  d_has_ts :: bool
  d_probs :: "'f probs"
  d_rng :: 'r

record ('f, 'd) beam_candidate =
  bc_decoder_idx :: nat
  bc_seek_delta :: int
  bc_has_ts :: bool
  bc_sequence :: "('f, 'd) sequence"
  bc_grammar :: grammar

text \<open>The parameters of the call that the decoders read.\<close>

record 'f dec_params =
  dp_logit :: "'f logit_params"
  dp_beam_search :: bool
  dp_best_of :: int
  dp_beam_size :: int
  dp_single_segment :: bool
  dp_max_tokens :: int
  dp_length_penalty :: 'f
  dp_entropy_thold :: 'f
  dp_logprob_thold :: 'f
  dp_no_speech_thold :: 'f
  dp_grammar_rules :: "element list list option"
  dp_i_start_rule :: nat

text \<open>
  The model and its surroundings: arithmetic, vocabulary, random generator, \<open>std::sort\<close>, sizes, number of
  tensors loaded, the depths allowed to the grammar engine, the grammar penalty.
\<close>

record ('f, 'd, 'r) dec_model =
  dm_arith :: "('f, 'd) arith"
  dm_vocab :: vocab
  dm_draw :: "'f list \<Rightarrow> 'r \<Rightarrow> nat \<times> 'r"
  dm_sort :: "('f, 'd) beam_candidate list \<Rightarrow> ('f, 'd) beam_candidate list"
  dm_n_audio_ctx :: int
  dm_n_text_ctx :: int
  dm_n_loaded :: int
  dm_depth :: "nat \<times> nat"
  dm_penalize :: "'f \<Rightarrow> 'f"

abbreviation flt :: "('f, 'd, 'r) dec_model \<Rightarrow> 'f float_ops" where
  "flt M \<equiv> a_flt (dm_arith M)"

abbreviation dbl :: "('f, 'd, 'r) dec_model \<Rightarrow> 'd float_ops" where
  "dbl M \<equiv> a_dbl (dm_arith M)"

abbreviation d_tokens :: "('f, 'd, 'r) decoder \<Rightarrow> 'f token_data list" where
  "d_tokens d \<equiv> sq_tokens (d_sequence d)"

abbreviation d_result_len :: "('f, 'd, 'r) decoder \<Rightarrow> nat" where
  "d_result_len d \<equiv> sq_result_len (d_sequence d)"

definition finished :: "('f, 'd, 'r) decoder \<Rightarrow> bool" where
  "finished d \<longleftrightarrow> d_completed d \<or> d_failed d"

definition chunk_frames :: int where
  "chunk_frames = 100 * 30"

definition delta_min :: int where
  "delta_min = 10"

definition run_opt :: "'a run \<Rightarrow> 'a option" where
  "run_opt r = (case r of Ret x \<Rightarrow> Some x | _ \<Rightarrow> None)"

section \<open>Initialisation\<close>

definition no_grammar :: grammar where
  "no_grammar = \<lparr>g_rules = [], g_stacks = [], g_partial = \<lparr>p_value = 0, n_remain = 0\<rparr>\<rparr>"

definition decoder_grammar :: "('f, 'd, 'r) dec_model \<Rightarrow> 'f dec_params \<Rightarrow> grammar option" where
  "decoder_grammar M P =
     (case dp_grammar_rules P of
        None \<Rightarrow> Some no_grammar
      | Some rules \<Rightarrow> run_opt (grammar_init (fst (dm_depth M)) rules (dp_i_start_rule P)))"

definition decoder_init :: "('f, 'd, 'r) dec_model \<Rightarrow> 'f dec_params \<Rightarrow> ('f, 'd, 'r) decoder
    \<Rightarrow> ('f, 'd, 'r) decoder option" where
  "decoder_init M P d =
     map_option (\<lambda>g. d\<lparr>
         d_sequence := \<lparr>sq_tokens = [], sq_result_len = 0, sq_sum_logprobs_all = fl_zero (dbl M),
           sq_sum_logprobs = fl_ninf (dbl M), sq_avg_logprobs = fl_ninf (dbl M), sq_entropy = fl_zero (dbl M),
           sq_score = fl_ninf (dbl M)\<rparr>,
         d_seek_delta := chunk_frames, d_failed := False, d_completed := False, d_has_ts := False,
         d_grammar := g\<rparr>)
       (decoder_grammar M P)"

section \<open>Sampling\<close>

definition push_token :: "('f, 'd) arith \<Rightarrow> 'f token_data \<Rightarrow> ('f, 'd) sequence \<Rightarrow> ('f, 'd) sequence" where
  "push_token A tok s = s\<lparr>sq_tokens := sq_tokens s @ [tok],
     sq_sum_logprobs_all := fl_add (a_dbl A) (sq_sum_logprobs_all s) (a_widen A (td_plog tok))\<rparr>"

definition greedy_sample :: "('f, 'd, 'r) dec_model \<Rightarrow> 'f \<Rightarrow> ('f, 'd, 'r) decoder \<Rightarrow> ('f, 'd, 'r) decoder" where
  "greedy_sample M t_cur d =
     (if finished d then d
      else let (tok, rng) = sample_token (dm_arith M) (dm_vocab M) (dm_draw M)
                 (fl_lt (flt M) t_cur (fl_lit (flt M) (1 / 10 ^ 6))) (d_probs d) (d_rng d)
           in d\<lparr>d_sequence := push_token (dm_arith M) tok (d_sequence d), d_rng := rng\<rparr>)"

text \<open>The candidates of decoder \<open>j\<close>; reserving room for a negative number of them throws.\<close>

definition beam_sample :: "('f, 'd, 'r) dec_model \<Rightarrow> 'f dec_params \<Rightarrow> nat \<Rightarrow> ('f, 'd, 'r) decoder
    \<Rightarrow> (('f, 'd, 'r) decoder \<times> ('f, 'd) beam_candidate list) option" where
  "beam_sample M P j d =
     (if finished d then Some (d, [])
      else if dp_beam_size P < 0 then None
      else map_option (\<lambda>(toks, rng).
          (d\<lparr>d_rng := rng\<rparr>,
           map (\<lambda>tok. \<lparr>bc_decoder_idx = j, bc_seek_delta = d_seek_delta d, bc_has_ts = d_has_ts d,
             bc_sequence = push_token (dm_arith M) tok (d_sequence d), bc_grammar = d_grammar d\<rparr>) toks))
        (sample_token_topk (dm_arith M) (dm_vocab M) (dm_draw M) (d_probs d) (nat (dp_beam_size P)) (d_rng d)))"

section \<open>Beam search\<close>

text \<open>The order \<open>std::sort\<close> is called with.\<close>

definition bc_less :: "'d float_ops \<Rightarrow> ('f, 'd) beam_candidate \<Rightarrow> ('f, 'd) beam_candidate \<Rightarrow> bool" where
  "bc_less D a b =
     (let x = sq_sum_logprobs_all (bc_sequence a); y = sq_sum_logprobs_all (bc_sequence b)
      in if x \<noteq> y then fl_lt D y x else bc_decoder_idx a < bc_decoder_idx b)"

text \<open>Past the candidates with the same tokens, except in the first step.\<close>

definition skip_equal :: "nat \<Rightarrow> ('f, 'd) beam_candidate list \<Rightarrow> ('f, 'd) beam_candidate \<Rightarrow> nat \<Rightarrow> nat" where
  "skip_equal i cands cur c =
     (if i > 0 then c + length (takeWhile (\<lambda>b. sequence_tokens_equal (bc_sequence b) (bc_sequence cur)) (drop c cands))
      else c)"

definition take_candidate :: "('f, 'd) beam_candidate \<Rightarrow> ('f, 'd, 'r) decoder \<Rightarrow> ('f, 'd, 'r) decoder" where
  "take_candidate cur d = d\<lparr>d_seek_delta := bc_seek_delta cur, d_has_ts := bc_has_ts cur,
     d_sequence := bc_sequence cur, d_grammar := bc_grammar cur\<rparr>"

text \<open>
  Each running decoder takes the next candidate, from the first again after the last; the pairs (decoder,
  decoder of its candidate) are what the KV cache is updated with.
\<close>

fun beam_pick :: "nat \<Rightarrow> ('f, 'd) beam_candidate list \<Rightarrow> nat \<Rightarrow> nat \<Rightarrow> ('f, 'd, 'r) decoder list
    \<Rightarrow> (('f, 'd, 'r) decoder list \<times> (int \<times> int) list) option" where
  "beam_pick i cands cur_c j [] = Some ([], [])"
| "beam_pick i cands cur_c j (d # ds) =
     (if finished d then map_option (\<lambda>(ds', picks). (d # ds', picks)) (beam_pick i cands cur_c (Suc j) ds)
      else if cands = [] then None
      else let c = (if cur_c \<ge> length cands then 0 else cur_c); cur = cands ! c
           in map_option (\<lambda>(ds', picks). (take_candidate cur d # ds', (int j, int (bc_decoder_idx cur)) # picks))
                (beam_pick i cands (skip_equal i cands cur (Suc c)) (Suc j) ds))"

definition beam_step :: "('f, 'd, 'r) dec_model \<Rightarrow> 'f dec_params \<Rightarrow> nat \<Rightarrow> ('f, 'd, 'r) decoder list
    \<Rightarrow> (('f, 'd, 'r) decoder list \<times> (int \<times> int) list) option" where
  "beam_step M P i ds =
     (case those (map2 (beam_sample M P) [0 ..< length ds] ds) of
        None \<Rightarrow> None
      | Some rs \<Rightarrow> beam_pick i (dm_sort M (concat (map snd rs))) 0 0 (map fst rs))"

section \<open>After the token\<close>

text \<open>
  The loop body that checks the last token.  \<open>i\<close> is the number of tokens before it, \<open>n_max\<close> the greatest
  number of tokens, \<open>seek\<close> the start of the window and \<open>seek_end\<close> the end of the audio, in frames.
\<close>

definition set_result_len :: "nat \<Rightarrow> ('f, 'd, 'r) decoder \<Rightarrow> ('f, 'd, 'r) decoder" where
  "set_result_len n d = d\<lparr>d_sequence := (d_sequence d)\<lparr>sq_result_len := n\<rparr>\<rparr>"

definition stamp_decoder :: "vocab \<Rightarrow> nat \<Rightarrow> int \<Rightarrow> ('f, 'd, 'r) decoder \<Rightarrow> ('f, 'd, 'r) decoder" where
  "stamp_decoder v i tk d =
     (if tk > v_beg v
      then (set_result_len (i + 1) d)\<lparr>d_seek_delta := 2 * (tk - v_beg v), d_has_ts := True\<rparr> else d)"

definition segment_over :: "vocab \<Rightarrow> 'f dec_params \<Rightarrow> int \<Rightarrow> int \<Rightarrow> nat \<Rightarrow> int \<Rightarrow> ('f, 'd, 'r) decoder \<Rightarrow> bool" where
  "segment_over v P seek seek_end i tk d \<longleftrightarrow>
     tk = v_eot v \<or> (dp_max_tokens P > 0 \<and> int i \<ge> dp_max_tokens P) \<or>
     (d_has_ts d \<and> seek + d_seek_delta d + delta_min \<ge> seek_end)"

definition close_segment :: "'f dec_params \<Rightarrow> int \<Rightarrow> int \<Rightarrow> nat \<Rightarrow> ('f, 'd, 'r) decoder \<Rightarrow> ('f, 'd, 'r) decoder" where
  "close_segment P seek seek_end i d =
     (if d_result_len d = 0 \<and> \<not> lp_no_timestamps (dp_logit P) \<and> \<not> seek + d_seek_delta d + delta_min \<ge> seek_end
      then d\<lparr>d_failed := True\<rparr>
      else let d1 = (if d_result_len d = 0 \<and> \<not> lp_no_timestamps (dp_logit P) then set_result_len (i + 1) d else d);
               d2 = (if dp_single_segment P \<or> lp_no_timestamps (dp_logit P)
                     then (set_result_len (i + 1) d1)\<lparr>d_seek_delta := chunk_frames\<rparr> else d1)
           in d2\<lparr>d_completed := True\<rparr>)"

definition update_decoder :: "('f, 'd, 'r) dec_model \<Rightarrow> 'f dec_params \<Rightarrow> int \<Rightarrow> int \<Rightarrow> nat \<Rightarrow> int
    \<Rightarrow> ('f, 'd, 'r) decoder \<Rightarrow> ('f, 'd, 'r) decoder option" where
  "update_decoder M P seek seek_end i n_max d =
     (let v = dm_vocab M; tk = td_id (last (d_tokens d))
      in if finished d then Some d
         else if d_tokens d = [] then None
         else if tk > v_beg v \<and> d_has_ts d \<and> d_seek_delta d > 2 * (tk - v_beg v) \<and> d_result_len d < i
         then Some (d\<lparr>d_failed := True\<rparr>)
         else let d1 = stamp_decoder v i tk d
              in case run_opt (accept_token (fst (dm_depth M)) (case v_id_to_token v tk of None \<Rightarrow> [] | Some t \<Rightarrow> t)
                        (d_grammar d1)) of
                   None \<Rightarrow> None
                 | Some g \<Rightarrow>
                     (let d2 = d1\<lparr>d_grammar := g\<rparr>
                      in if segment_over v P seek seek_end i tk d2 then Some (close_segment P seek seek_end i d2)
                         else if dm_n_loaded M = 0 then Some (d2\<lparr>d_seek_delta := chunk_frames, d_completed := True\<rparr>)
                         else if int i = n_max - 1 \<and> (d_result_len d2 = 0 \<or> d_seek_delta d2 < chunk_frames div 2)
                         then Some (d2\<lparr>d_failed := True\<rparr>)
                         else Some d2))"

section \<open>The next batch\<close>

fun next_batch :: "int \<Rightarrow> nat \<Rightarrow> nat \<Rightarrow> ('f, 'd, 'r) decoder list \<Rightarrow> ('f, 'd, 'r) decoder list \<times> batch_entry list" where
  "next_batch n_past j b [] = ([], [])"
| "next_batch n_past j b (d # ds) =
     (if finished d then (let (ds', es) = next_batch n_past (Suc j) b ds in (d # ds', es))
      else let (ds', es) = next_batch n_past (Suc j) (Suc b) ds
           in (d\<lparr>d_i_batch := b\<rparr> # ds',
               \<lparr>b_token = td_id (last (d_tokens d)), b_pos = n_past, b_seq_id = [int j], b_logits = True\<rparr> # es))"

text \<open>
  \<open>whisper_process_logits\<close> for one decoder: \<open>logits\<close> is \<open>state->logits\<close>, whose rows have the size of the
  vocabulary; reading a row that is not there is undefined.
\<close>

definition vocab_texts :: "vocab \<Rightarrow> string list" where
  "vocab_texts v = map (\<lambda>i. case v_id_to_token v i of None \<Rightarrow> [] | Some t \<Rightarrow> t) [0 .. v_eot v - 1]"

definition grammar_suppress :: "('f, 'd, 'r) dec_model \<Rightarrow> grammar \<Rightarrow> 'f list \<Rightarrow> 'f list option" where
  "grammar_suppress M g ls =
     run_opt (suppress_invalid_grammar (fst (dm_depth M)) (snd (dm_depth M)) (dm_penalize M) (vocab_texts (dm_vocab M)) ls g)"

definition logits_row :: "vocab \<Rightarrow> 'f list \<Rightarrow> nat \<Rightarrow> 'f list" where
  "logits_row v logits b = take (nat (v_n_vocab v)) (drop (b * nat (v_n_vocab v)) logits)"

definition decoder_logits :: "('f, 'd, 'r) dec_model \<Rightarrow> 'f dec_params \<Rightarrow> 'f \<Rightarrow> 'f list \<Rightarrow> ('f, 'd, 'r) decoder
    \<Rightarrow> 'f probs option" where
  "decoder_logits M P t_cur logits d =
     process_logits (flt M) (dp_logit P) (dm_vocab M) (dm_n_audio_ctx M) (grammar_suppress M (d_grammar d))
       (map td_id (d_tokens d)) (d_has_ts d) (d_seek_delta d) t_cur (logits_row (dm_vocab M) logits (d_i_batch d))"

definition process_decoder :: "('f, 'd, 'r) dec_model \<Rightarrow> 'f dec_params \<Rightarrow> 'f \<Rightarrow> 'f list \<Rightarrow> ('f, 'd, 'r) decoder
    \<Rightarrow> ('f, 'd, 'r) decoder option" where
  "process_decoder M P t_cur logits d =
     (if finished d then Some d else map_option (\<lambda>p. d\<lparr>d_probs := p\<rparr>) (decoder_logits M P t_cur logits d))"

section \<open>Ranking\<close>

text \<open>The state of the loop is the best score, the best decoder and the number of failures by entropy.\<close>

definition zero_token :: "'f float_ops \<Rightarrow> 'f token_data" where
  "zero_token F = \<lparr>td_id = 0, td_tid = 0, td_p = fl_zero F, td_plog = fl_zero F, td_pt = fl_zero F,
     td_ptsum = fl_zero F, td_t0 = 0, td_t1 = 0, td_t_dtw = 0, td_vlen = fl_zero F\<rparr>"

definition resize_tokens :: "'f float_ops \<Rightarrow> nat \<Rightarrow> 'f token_data list \<Rightarrow> 'f token_data list" where
  "resize_tokens F n ts = take n ts @ replicate (n - length ts) (zero_token F)"

definition rank_decoder :: "('f, 'd, 'r) dec_model \<Rightarrow> 'f dec_params \<Rightarrow> ('f, 'd, 'r) decoder
    \<Rightarrow> (('f, 'd, 'r) decoder \<times> bool) option" where
  "rank_decoder M P d =
     (if d_failed d then Some (d, False)
      else let s0 = d_sequence d
           in map_option (\<lambda>s. if sq_result_len s > 32 \<and>
                       fl_lt (dbl M) (sq_entropy s) (a_widen (dm_arith M) (dp_entropy_thold P))
                     then (d\<lparr>d_sequence := s, d_failed := True\<rparr>, True) else (d\<lparr>d_sequence := s\<rparr>, False))
                (sequence_score (dm_arith M) (dp_length_penalty P) 
                   (s0\<lparr>sq_tokens := resize_tokens (flt M) (sq_result_len s0) (sq_tokens s0)\<rparr>)))"

fun best_decoder :: "'d float_ops \<Rightarrow> ('f, 'd, 'r) decoder list \<Rightarrow> nat \<Rightarrow> nat \<times> 'd \<Rightarrow> nat \<times> 'd" where
  "best_decoder D [] j b = b"
| "best_decoder D (d # ds) j b =
     best_decoder D ds (Suc j)
       (if \<not> d_failed d \<and> fl_lt D (snd b) (sq_score (d_sequence d)) then (j, sq_score (d_sequence d)) else b)"

definition rank_decoders :: "('f, 'd, 'r) dec_model \<Rightarrow> 'f dec_params \<Rightarrow> nat \<Rightarrow> ('f, 'd, 'r) decoder list
    \<Rightarrow> (('f, 'd, 'r) decoder list \<times> nat \<times> nat) option" where
  "rank_decoders M P best ds =
     map_option (\<lambda>rs. (map fst rs, fst (best_decoder (dbl M) (map fst rs) 0 (best, fl_ninf (dbl M))),
          length (filter snd rs)))
       (those (map (rank_decoder M P) ds))"

section \<open>What the steps keep\<close>

text \<open>
  The assumptions on the model and the parameters: a complete vocabulary with its 1501 timestamps, a
  generator that draws an index of the list, a sort that keeps the candidates, and, where there is a grammar,
  nothing (it has theories of its own).
\<close>

definition model_ok :: "('f, 'd, 'r) dec_model \<Rightarrow> 'f dec_params \<Rightarrow> bool" where
  "model_ok M P \<longleftrightarrow>
     (let v = dm_vocab M; F = flt M
      in vocab_ok v \<and> v_n_vocab v = v_beg v + 1501 \<and>
         (\<forall>i. 0 \<le> i \<and> i < v_n_vocab v \<longrightarrow> v_id_to_token v i \<noteq> None) \<and>
         (\<forall>ps rng. ps \<noteq> [] \<longrightarrow> fst (dm_draw M ps rng) < length ps) \<and>
         (\<forall>cs. set (dm_sort M cs) = set cs) \<and>
         (\<forall>ls. length (lp_callback (dp_logit P) ls) = length ls) \<and>
         0 \<le> v_beg v + fl_round F (fl_div F (lp_max_initial_ts (dp_logit P))
           (fl_div F (fl_lit F 30) (fl_lit F (of_int (dm_n_audio_ctx M))))) + 1 \<and>
         (dp_beam_search P \<longrightarrow> 1 \<le> dp_beam_size P \<and> dp_beam_size P \<le> v_n_vocab v) \<and>
         dp_grammar_rules P = None)"

definition tok_ok :: "vocab \<Rightarrow> 'f token_data \<Rightarrow> bool" where
  "tok_ok v t \<longleftrightarrow> 0 \<le> td_id t \<and> td_id t < v_n_vocab v"

definition decoder_ok :: "vocab \<Rightarrow> ('f, 'd, 'r) decoder \<Rightarrow> bool" where
  "decoder_ok v d \<longleftrightarrow> d_result_len d \<le> length (d_tokens d) \<and> (\<forall>t \<in> set (d_tokens d). tok_ok v t) \<and>
     2 \<le> d_seek_delta d \<and> d_seek_delta d \<le> chunk_frames \<and> d_grammar d = no_grammar"

text \<open>A decoder before turn \<open>i\<close>: still running, it has \<open>i\<close> tokens, and \<open>probs\<close> tells that it has the next.\<close>

definition turn_ok :: "vocab \<Rightarrow> bool \<Rightarrow> nat \<Rightarrow> ('f, 'd, 'r) decoder \<Rightarrow> bool" where
  "turn_ok v probs i d \<longleftrightarrow> decoder_ok v d \<and>
     (\<not> finished d \<longrightarrow> length (d_tokens d) = i \<and> (probs \<longrightarrow> length (pr_probs (d_probs d)) = nat (v_n_vocab v)))"

text \<open>Between the token and the update the result is still that of the turns before.\<close>

definition sampled_ok :: "vocab \<Rightarrow> nat \<Rightarrow> ('f, 'd, 'r) decoder \<Rightarrow> bool" where
  "sampled_ok v i d \<longleftrightarrow> decoder_ok v d \<and>
     (\<not> finished d \<longrightarrow> length (d_tokens d) = Suc i)"

lemma model_vocab: "model_ok M P \<Longrightarrow> vocab_ok (dm_vocab M)"
  by (simp add: model_ok_def Let_def)

lemma model_n_vocab: "model_ok M P \<Longrightarrow> 0 < v_n_vocab (dm_vocab M)"
  by (auto simp: model_ok_def vocab_ok_def Let_def)

lemma best_from_range: "fst (best_from F ps i b) = fst b \<or> (i \<le> fst (best_from F ps i b) \<and> fst (best_from F ps i b) < i + length ps)"
proof (induction ps arbitrary: i b)
  case (Cons p ps)
  then show ?case using Cons [of "Suc i" "if fl_lt F (snd b) p then (i, p) else b"] by auto
qed simp

lemma sample_token_ok:
  assumes "model_ok M P" "length (pr_probs pr) = nat (v_n_vocab (dm_vocab M))"
    and "sample_token (dm_arith M) (dm_vocab M) (dm_draw M) best pr rng = (tok, rng')"
  shows "tok_ok (dm_vocab M) tok"
proof -
  have pos: "0 < v_n_vocab (dm_vocab M)" using model_n_vocab [OF assms(1)] .
  then have ne: "pr_probs pr \<noteq> []" using assms(2) by auto
  have drawn: "fst (dm_draw M (pr_probs pr) rng) < length (pr_probs pr)"
    using assms(1) ne by (simp add: model_ok_def Let_def)
  show ?thesis
  proof (cases best)
    case True
    then have "td_id tok = int (fst (best_from (flt M) (pr_probs pr) 0 (0, fl_zero (flt M))))"
      using assms(3) by (auto simp: sample_token_def Let_def split: prod.splits)
    then show ?thesis using best_from_range [of "flt M" "pr_probs pr" 0 "(0, fl_zero (flt M))"] pos assms(2)
      by (auto simp: tok_ok_def)
  next
    case False
    then have "td_id tok = int (fst (dm_draw M (pr_probs pr) rng))"
      using assms(3) by (auto simp: sample_token_def Let_def split: prod.splits)
    then show ?thesis using drawn pos assms(2) by (simp add: tok_ok_def)
  qed
qed

lemma draw_tokens_ok:
  assumes "model_ok M P" "length (pr_probs pr) = nat (v_n_vocab (dm_vocab M))"
  shows "draw_tokens (dm_arith M) (dm_vocab M) (dm_draw M) pr tid pt ptsum k rng = (toks, rng') \<Longrightarrow>
    length toks = k \<and> (\<forall>t \<in> set toks. tok_ok (dm_vocab M) t)"
proof (induction k arbitrary: rng toks rng')
  case (Suc k)
  have ne: "pr_probs pr \<noteq> []" using model_n_vocab [OF assms(1)] assms(2) by auto
  obtain j rng1 where d: "dm_draw M (pr_probs pr) rng = (j, rng1)" by force
  then have j: "j < length (pr_probs pr)" using assms(1) ne by (simp add: model_ok_def Let_def) (metis fst_conv)
  obtain r2 s2 where rec: "draw_tokens (dm_arith M) (dm_vocab M) (dm_draw M) pr tid pt ptsum k rng1 = (r2, s2)" by force
  then show ?case using Suc.IH [OF rec] Suc.prems d j assms(2) by (auto simp: Let_def tok_ok_def)
qed simp

lemma push_token_simps [simp]: "sq_tokens (push_token A tok s) = sq_tokens s @ [tok]"
  "sq_result_len (push_token A tok s) = sq_result_len s"
  by (simp_all add: push_token_def)

lemma finished_simps [simp]: "finished (d\<lparr>d_sequence := s\<rparr>) = finished d" "finished (d\<lparr>d_rng := r\<rparr>) = finished d"
  "finished (d\<lparr>d_probs := p\<rparr>) = finished d" "finished (d\<lparr>d_i_batch := b\<rparr>) = finished d"
  by (simp_all add: finished_def)

lemma greedy_sample_ok:
  assumes "model_ok M P" "turn_ok (dm_vocab M) True i d"
  shows "sampled_ok (dm_vocab M) i (greedy_sample M t_cur d)"
proof (cases "finished d")
  case True
  then show ?thesis using assms(2) by (simp add: greedy_sample_def sampled_ok_def turn_ok_def)
next
  case False
  obtain tok rng where s: "sample_token (dm_arith M) (dm_vocab M) (dm_draw M)
       (fl_lt (flt M) t_cur (fl_lit (flt M) (1 / 10 ^ 6))) (d_probs d) (d_rng d) = (tok, rng)" by force
  then have "tok_ok (dm_vocab M) tok"
    using sample_token_ok [OF assms(1) _ s] assms(2) False by (simp add: turn_ok_def)
  then show ?thesis using assms(2) False s
    by (auto simp: greedy_sample_def sampled_ok_def turn_ok_def decoder_ok_def)
qed

text \<open>A candidate is a decoder with one more token.\<close>

definition candidate_ok :: "vocab \<Rightarrow> nat \<Rightarrow> ('f, 'd) beam_candidate \<Rightarrow> bool" where
  "candidate_ok v i c \<longleftrightarrow> length (sq_tokens (bc_sequence c)) = Suc i \<and> sq_result_len (bc_sequence c) \<le> i \<and>
     (\<forall>t \<in> set (sq_tokens (bc_sequence c)). tok_ok v t) \<and> 2 \<le> bc_seek_delta c \<and> bc_seek_delta c \<le> chunk_frames \<and>
     bc_grammar c = no_grammar"

lemma beam_sample_ok:
  assumes "model_ok M P" "dp_beam_search P" "turn_ok (dm_vocab M) True i d"
  shows "\<exists>d' cs. beam_sample M P j d = Some (d', cs) \<and> turn_ok (dm_vocab M) True i d' \<and>
    finished d' = finished d \<and> (\<forall>c \<in> set cs. candidate_ok (dm_vocab M) i c) \<and> (\<not> finished d \<longrightarrow> cs \<noteq> [])"
proof (cases "finished d")
  case True
  then show ?thesis using assms(3) by (simp add: beam_sample_def)
next
  case False
  have size: "1 \<le> dp_beam_size P" "dp_beam_size P \<le> v_n_vocab (dm_vocab M)"
    using assms(1,2) by (simp_all add: model_ok_def Let_def)
  have len: "length (pr_probs (d_probs d)) = nat (v_n_vocab (dm_vocab M))" "length (d_tokens d) = i"
    using assms(3) False by (simp_all add: turn_ok_def)
  define k where "k = nat (dp_beam_size P)"
  obtain sum_ts max_ts tid where ts: "ts_stats (dm_arith M) (pr_probs (d_probs d)) (nat (v_beg (dm_vocab M)))
      (v_beg (dm_vocab M)) = (sum_ts, max_ts, tid)" by (cases "ts_stats (dm_arith M) (pr_probs (d_probs d)) (nat (v_beg (dm_vocab M)))
      (v_beg (dm_vocab M))") auto
  obtain toks rng where dt: "draw_tokens (dm_arith M) (dm_vocab M) (dm_draw M) (d_probs d) tid
      (ts_pt (dm_arith M) sum_ts max_ts) (a_narrow (dm_arith M) sum_ts) k (d_rng d) = (toks, rng)" by force
  have toks: "\<forall>t \<in> set toks. tok_ok (dm_vocab M) t" "length toks = k"
    using draw_tokens_ok [OF assms(1) len(1) dt] by auto
  have topk: "sample_token_topk (dm_arith M) (dm_vocab M) (dm_draw M) (d_probs d) k (d_rng d) = Some (toks, rng)"
    using size len(1) dt by (simp add: sample_token_topk_def ts k_def)
  have "toks \<noteq> []" using toks(2) size(1) by (auto simp: k_def)
  then show ?thesis using False size topk toks(1) assms(3) len(2)
    by (auto simp: beam_sample_def k_def turn_ok_def candidate_ok_def decoder_ok_def)
qed

lemma take_candidate_simps [simp]: "finished (take_candidate c d) = finished d"
  "d_sequence (take_candidate c d) = bc_sequence c" "d_seek_delta (take_candidate c d) = bc_seek_delta c"
  "d_grammar (take_candidate c d) = bc_grammar c" "d_has_ts (take_candidate c d) = bc_has_ts c"
  by (simp_all add: take_candidate_def finished_def)

lemma beam_pick_ok:
  assumes "\<forall>c \<in> set cands. candidate_ok v i c"
  shows "list_all (turn_ok v True i) ds \<Longrightarrow> list_ex (\<lambda>d. \<not> finished d) ds \<longrightarrow> cands \<noteq> [] \<Longrightarrow>
    \<exists>ds' picks. beam_pick i cands c j ds = Some (ds', picks) \<and> list_all (sampled_ok v i) ds' \<and> length ds' = length ds"
proof (induction ds arbitrary: c j)
  case (Cons d ds)
  show ?case
  proof (cases "finished d")
    case True
    then show ?thesis using Cons.IH [of c "Suc j"] Cons.prems
      by (auto simp: turn_ok_def sampled_ok_def)
  next
    case False
    then have ne: "cands \<noteq> []" using Cons.prems by simp
    define k where "k = (if c \<ge> length cands then 0 else c)"
    have "cands ! k \<in> set cands" using ne by (auto simp: k_def)
    then have "sampled_ok v i (take_candidate (cands ! k) d)"
      using assms by (auto simp: candidate_ok_def sampled_ok_def decoder_ok_def)
    moreover obtain ds' picks where "beam_pick i cands (skip_equal i cands (cands ! k) (Suc k)) (Suc j) ds = Some (ds', picks)"
      "list_all (sampled_ok v i) ds'" "length ds' = length ds"
      using Cons.IH [of "skip_equal i cands (cands ! k) (Suc k)" "Suc j"] Cons.prems ne by auto
    ultimately show ?thesis using False ne by (simp add: k_def [symmetric] Let_def)
  qed
qed simp


lemma accept_no_grammar [simp]: "accept_token n t no_grammar = Ret no_grammar"
  by (simp add: accept_token_def no_grammar_def)

lemma set_result_len_simps [simp]: "d_tokens (set_result_len n d) = d_tokens d" "d_result_len (set_result_len n d) = n"
  "d_seek_delta (set_result_len n d) = d_seek_delta d" "d_grammar (set_result_len n d) = d_grammar d"
  "finished (set_result_len n d) = finished d" "d_has_ts (set_result_len n d) = d_has_ts d"
  by (simp_all add: set_result_len_def finished_def)

lemma stamp_decoder_ok:
  assumes "decoder_ok v d" "length (d_tokens d) = Suc i" "tk < v_n_vocab v" "v_n_vocab v = v_beg v + 1501"
  shows "decoder_ok v (stamp_decoder v i tk d)" "d_tokens (stamp_decoder v i tk d) = d_tokens d"
    "d_grammar (stamp_decoder v i tk d) = d_grammar d" "finished (stamp_decoder v i tk d) = finished d"
  using assms by (auto simp: stamp_decoder_def decoder_ok_def chunk_frames_def finished_def set_result_len_def)

lemma close_segment_ok:
  assumes "decoder_ok v d" "length (d_tokens d) = Suc i"
  shows "decoder_ok v (close_segment P seek seek_end i d)" "finished (close_segment P seek seek_end i d)"
  using assms by (auto simp: close_segment_def decoder_ok_def chunk_frames_def finished_def set_result_len_def Let_def)

text \<open>What a decoder fails for, without the reasons of the filters: always a state the window can end with.\<close>

lemma update_decoder_ok:
  assumes "model_ok M P" "sampled_ok (dm_vocab M) i d"
  shows "\<exists>d'. update_decoder M P seek seek_end i n_max d = Some d' \<and> turn_ok (dm_vocab M) False (Suc i) d'"
proof (cases "finished d")
  case True
  then show ?thesis using assms(2) by (simp add: update_decoder_def sampled_ok_def turn_ok_def)
next
  case False
  define v where "v = dm_vocab M"
  define tk where "tk = td_id (last (d_tokens d))"
  have d: "decoder_ok v d" "length (d_tokens d) = Suc i" using assms(2) False by (simp_all add: sampled_ok_def v_def)
  then have ne: "d_tokens d \<noteq> []" by auto
  then have "tk < v_n_vocab v" using d(1) by (auto simp: decoder_ok_def tok_ok_def tk_def)
  moreover have size: "v_n_vocab v = v_beg v + 1501" using assms(1) by (simp add: model_ok_def v_def Let_def)
  ultimately have s: "decoder_ok v (stamp_decoder v i tk d)" "d_tokens (stamp_decoder v i tk d) = d_tokens d"
    "d_grammar (stamp_decoder v i tk d) = no_grammar" "finished (stamp_decoder v i tk d) = finished d"
    using stamp_decoder_ok [OF d] d(1) by (auto simp: decoder_ok_def)
  define d2 where "d2 = (stamp_decoder v i tk d)\<lparr>d_grammar := no_grammar\<rparr>"
  have d2: "decoder_ok v d2" "length (d_tokens d2) = Suc i" using s d(2) by (simp_all add: d2_def decoder_ok_def)
  have fail: "decoder_ok v (x\<lparr>d_failed := True\<rparr>)" "finished (x\<lparr>d_failed := True\<rparr>)" if "decoder_ok v x" for x
    using that by (simp_all add: decoder_ok_def finished_def)
  have stop: "decoder_ok v (d2\<lparr>d_seek_delta := chunk_frames, d_completed := True\<rparr>)"
    "finished (d2\<lparr>d_seek_delta := chunk_frames, d_completed := True\<rparr>)"
    using d2(1) by (simp_all add: decoder_ok_def finished_def chunk_frames_def)
  have upd: "update_decoder M P seek seek_end i n_max d =
    Some (if tk > v_beg v \<and> d_has_ts d \<and> d_seek_delta d > 2 * (tk - v_beg v) \<and> d_result_len d < i then d\<lparr>d_failed := True\<rparr>
      else if segment_over v P seek seek_end i tk d2 then close_segment P seek seek_end i d2
      else if dm_n_loaded M = 0 then d2\<lparr>d_seek_delta := chunk_frames, d_completed := True\<rparr>
      else if int i = n_max - 1 \<and> (d_result_len d2 = 0 \<or> d_seek_delta d2 < chunk_frames div 2) then d2\<lparr>d_failed := True\<rparr>
      else d2)"
    using False ne s(3) by (auto simp: update_decoder_def Let_def v_def [symmetric] tk_def [symmetric] d2_def run_opt_def)
  show ?thesis unfolding upd v_def [symmetric] turn_ok_def
    using fail [OF d(1)] fail [OF d2(1)] stop close_segment_ok [OF d2, of P seek seek_end] d2 by simp
qed

lemma grammar_suppress_none: "grammar_suppress M no_grammar ls = Some ls"
  by (simp add: grammar_suppress_def run_opt_def suppress_invalid_grammar_def no_grammar_def)

lemma length_logits_row: "(b + 1) * nat (v_n_vocab v) \<le> length ls \<Longrightarrow> length (logits_row v ls b) = nat (v_n_vocab v)"
  by (simp add: logits_row_def)

lemma compute_lengths: "compute_logprobs F ls = Some lp \<Longrightarrow> length lp = length ls"
  by (auto simp: compute_logprobs_def split: option.splits)

lemma filter_logits_length: "filter_logits F P v n cur ts sd t raw = Some ls \<Longrightarrow>
    \<forall>ls. length (lp_callback P ls) = length ls \<Longrightarrow> length ls = length raw"
  by (auto simp: filter_logits_def Let_def split: option.splits dest!: mask_ids_spec)

lemma process_logits_length:
  assumes "process_logits F P v n suppress cur ts sd t raw = Some pr" "v_beg v \<le> v_n_vocab v" "0 \<le> v_beg v"
    and "\<forall>ls. length (lp_callback P ls) = length ls" "\<And>ls ls'. suppress ls = Some ls' \<Longrightarrow> length ls' = length ls"
  shows "length (pr_probs pr) = nat (v_n_vocab v)"
proof -
  obtain logits lp ls2 lp2 where a: "int (length raw) = v_n_vocab v" "filter_logits F P v n cur ts sd t raw = Some logits"
    "compute_logprobs F logits = Some lp" "prefer_timestamps F P (nat (v_beg v)) suppress logits lp = Some (ls2, lp2)"
    "pr = \<lparr>pr_logits = ls2, pr_logprobs = lp2, pr_probs = compute_probs F ls2 lp2\<rparr>"
    using assms(1) by (auto simp: process_logits_def split: if_splits option.splits)
  have len: "length logits = length raw" "length lp = length raw"
    using filter_logits_length [OF a(2) assms(4)] compute_lengths [OF a(3)] by simp_all
  have "length ls2 = length raw \<and> length lp2 = length raw"
    using a(1,4) len assms(2,3)
    by (auto simp: prefer_timestamps_def dest!: compute_lengths assms(5) split: option.splits if_splits)
  then show ?thesis using a(1,5) by (auto simp: compute_probs_def)
qed

lemma process_decoder_ok:
  assumes "model_ok M P" "turn_ok (dm_vocab M) False i d" "(d_i_batch d + 1) * nat (v_n_vocab (dm_vocab M)) \<le> length logits"
  shows "\<exists>d'. process_decoder M P t_cur logits d = Some d' \<and> turn_ok (dm_vocab M) True i d' \<and>
    d_sequence d' = d_sequence d \<and> finished d' = finished d"
proof (cases "finished d")
  case True
  then show ?thesis using assms(2) by (simp add: process_decoder_def turn_ok_def)
next
  case False
  define v where "v = dm_vocab M"
  have m: "vocab_ok v" "v_n_vocab v = v_beg v + 1501" "\<forall>ls. length (lp_callback (dp_logit P) ls) = length ls"
    "0 \<le> v_beg v + fl_round (flt M) (fl_div (flt M) (lp_max_initial_ts (dp_logit P))
           (fl_div (flt M) (fl_lit (flt M) 30) (fl_lit (flt M) (of_int (dm_n_audio_ctx M))))) + 1"
    using assms(1) by (simp_all add: model_ok_def Let_def v_def)
  have d: "decoder_ok v d" "d_grammar d = no_grammar" using assms(2) by (simp_all add: turn_ok_def v_def decoder_ok_def)
  have len: "int (length (logits_row v logits (d_i_batch d))) = v_n_vocab v"
    using length_logits_row [OF assms(3)] m(1) by (simp add: v_def [symmetric] vocab_ok_def)
  have sup: "grammar_suppress M (d_grammar d) ls = Some ls" for ls using d(2) grammar_suppress_none by simp
  have sd: "0 \<le> d_seek_delta d" "v_beg v + d_seek_delta d div 2 \<le> v_n_vocab v"
    using d(1) m(2) by (auto simp: decoder_ok_def chunk_frames_def)
  have "\<exists>pr. decoder_logits M P t_cur logits d = Some pr"
    unfolding decoder_logits_def v_def [symmetric]
    by (rule process_logits_total [OF m(1) len sd m(4,3)]) (use sup in simp)
  then obtain pr where pr: "decoder_logits M P t_cur logits d = Some pr" ..
  have "length (pr_probs pr) = nat (v_n_vocab v)"
    by (rule process_logits_length [OF pr [unfolded decoder_logits_def v_def [symmetric]] _ _ m(3)])
      (use m(1,2) sup in \<open>auto simp: vocab_ok_def\<close>)
  then show ?thesis using False pr assms(2)
    by (auto simp: process_decoder_def turn_ok_def decoder_ok_def v_def)
qed


lemma those_map_ok:
  "(\<And>x. x \<in> set xs \<Longrightarrow> \<exists>y. f x = Some y \<and> Q x y) \<Longrightarrow> \<exists>ys. those (map f xs) = Some ys \<and> list_all2 Q xs ys"
proof (induction xs)
  case (Cons x xs)
  then obtain y ys where "f x = Some y" "Q x y" "those (map f xs) = Some ys" "list_all2 Q xs ys" by fastforce
  then show ?case by simp
qed simp

lemma those_map2_ok:
  "(\<And>x j. x \<in> set xs \<Longrightarrow> \<exists>y. f j x = Some y \<and> Q x y) \<Longrightarrow>
     \<exists>ys. those (map2 f [k ..< k + length xs] xs) = Some ys \<and> list_all2 Q xs ys"
proof (induction xs arbitrary: k)
  case (Cons x xs)
  obtain y where y: "f k x = Some y" "Q x y" using Cons.prems [of x k] by auto
  obtain ys where ys: "those (map2 f [Suc k ..< Suc k + length xs] xs) = Some ys" "list_all2 Q xs ys"
    using Cons.IH [of "Suc k"] Cons.prems by auto
  have "[k ..< k + length (x # xs)] = k # [Suc k ..< Suc k + length xs]" by (simp add: upt_rec)
  then show ?case using y ys by simp
qed simp

lemma beam_step_ok:
  fixes ds :: "('f, 'd, 'r) decoder list"
  assumes "model_ok M P" "dp_beam_search P" "list_all (turn_ok (dm_vocab M) True i) ds"
  shows "\<exists>ds' picks. beam_step M P i ds = Some (ds', picks) \<and> list_all (sampled_ok (dm_vocab M) i) ds' \<and>
    length ds' = length ds"
proof -
  define Q :: "('f, 'd, 'r) decoder \<Rightarrow> ('f, 'd, 'r) decoder \<times> ('f, 'd) beam_candidate list \<Rightarrow> bool"
    where "Q = (\<lambda>d r. turn_ok (dm_vocab M) True i (fst r) \<and> finished (fst r) = finished d \<and>
      (\<forall>c \<in> set (snd r). candidate_ok (dm_vocab M) i c) \<and> (\<not> finished d \<longrightarrow> snd r \<noteq> []))"
  obtain rs where rs: "those (map2 (beam_sample M P) [0 ..< 0 + length ds] ds) = Some rs" "list_all2 Q ds rs"
  proof -
    have "\<exists>y. beam_sample M P j d = Some y \<and> Q d y" if "d \<in> set ds" for d j
      using beam_sample_ok [OF assms(1,2), of i d j] assms(3) that by (auto simp: Q_def list_all_iff)
    then show ?thesis using those_map2_ok [of ds "beam_sample M P" Q 0] that by auto
  qed
  have len: "length rs = length ds" using list_all2_lengthD [OF rs(2)] by simp
  have nth: "Q (ds ! k) (rs ! k)" if "k < length ds" for k using rs(2) that by (simp add: list_all2_conv_all_nth)
  have all: "list_all (turn_ok (dm_vocab M) True i) (map fst rs)"
    using nth len by (auto simp: list_all_length Q_def)
  have cands: "\<forall>c \<in> set (dm_sort M (concat (map snd rs))). candidate_ok (dm_vocab M) i c"
  proof -
    have "\<forall>r \<in> set rs. \<forall>c \<in> set (snd r). candidate_ok (dm_vocab M) i c"
      using nth len unfolding Q_def by (metis in_set_conv_nth)
    then show ?thesis using assms(1) by (auto simp: model_ok_def Let_def)
  qed
  have ne: "list_ex (\<lambda>d. \<not> finished d) (map fst rs) \<longrightarrow> dm_sort M (concat (map snd rs)) \<noteq> []"
  proof
    assume "list_ex (\<lambda>d. \<not> finished d) (map fst rs)"
    then obtain k where k: "k < length rs" "\<not> finished (fst (rs ! k))" by (auto simp: list_ex_length)
    then have "snd (rs ! k) \<noteq> []" using nth [of k] len by (simp add: Q_def)
    then have "set (concat (map snd rs)) \<noteq> {}" using k(1) nth_mem [OF k(1)] by fastforce
    moreover have "set (dm_sort M cs) = set cs" for cs using assms(1) by (simp add: model_ok_def Let_def)
    ultimately show "dm_sort M (concat (map snd rs)) \<noteq> []" by (metis set_empty)
  qed
  show ?thesis using beam_pick_ok [OF cands all ne, of 0 0] rs(1) len by (auto simp: beam_step_def)
qed

lemma next_batch_ok:
  "next_batch n_past j b ds = (ds', es) \<Longrightarrow> list_all (turn_ok v pr i) ds \<Longrightarrow>
     length ds' = length ds \<and> list_all (turn_ok v pr i) ds' \<and> list_all (\<lambda>e. b_logits e \<and> b_pos e = n_past) es \<and>
     list_all (\<lambda>d. finished d \<or> (b \<le> d_i_batch d \<and> d_i_batch d < b + length es)) ds' \<and>
     (list_ex (\<lambda>d. \<not> finished d) ds \<longrightarrow> es \<noteq> []) \<and> length es \<le> length ds"
proof (induction ds arbitrary: j b ds' es)
  case (Cons d ds)
  show ?case
  proof (cases "finished d")
    case True
    obtain ds2 es2 where rec: "next_batch n_past (Suc j) b ds = (ds2, es2)" by force
    then show ?thesis using Cons.IH [OF rec] Cons.prems True by auto
  next
    case False
    obtain ds2 es2 where rec: "next_batch n_past (Suc j) (Suc b) ds = (ds2, es2)" by force
    have "list_all (\<lambda>d. finished d \<or> (b \<le> d_i_batch d \<and> d_i_batch d < b + Suc (length es2))) ds2"
      using Cons.IH [OF rec] Cons.prems(2) by (auto simp: list_all_iff)
    then show ?thesis using Cons.IH [OF rec] Cons.prems rec False
      by (auto simp: turn_ok_def decoder_ok_def)
  qed
qed simp

lemma sequence_score_keeps:
  "sequence_score A lp s = Some s' \<Longrightarrow> sq_tokens s' = sq_tokens s \<and> sq_result_len s' = sq_result_len s"
  by (auto simp: sequence_score_def Let_def split: if_splits)

lemma sequence_score_total: "sq_result_len s \<le> length (sq_tokens s) \<Longrightarrow> \<exists>s'. sequence_score A lp s = Some s'"
  by (simp add: sequence_score_def Let_def)

lemma rank_decoder_ok:
  assumes "decoder_ok v d"
  shows "\<exists>d' b. rank_decoder M P d = Some (d', b) \<and> decoder_ok v d' \<and>
    (d_failed d' \<or> length (d_tokens d') = d_result_len d')"
proof (cases "d_failed d")
  case True
  then have "rank_decoder M P d = Some (d, False)" by (simp add: rank_decoder_def)
  then show ?thesis using assms True by blast
next
  case False
  define s where "s = (d_sequence d)\<lparr>sq_tokens := take (d_result_len d) (d_tokens d)\<rparr>"
  have eq: "resize_tokens (flt M) (d_result_len d) (d_tokens d) = take (d_result_len d) (d_tokens d)"
    using assms by (simp add: resize_tokens_def decoder_ok_def)
  have "sq_result_len s \<le> length (sq_tokens s)" using assms by (simp add: s_def decoder_ok_def)
  then obtain s' where s': "sequence_score (dm_arith M) (dp_length_penalty P) s = Some s'"
    using sequence_score_total [of s "dm_arith M" "dp_length_penalty P"] by auto
  have "sq_tokens s' = take (d_result_len d) (d_tokens d)" "sq_result_len s' = d_result_len d"
    using sequence_score_keeps [OF s'] by (simp_all add: s_def)
  then show ?thesis using False s' assms
    by (auto simp: rank_decoder_def Let_def eq s_def [symmetric] decoder_ok_def dest: in_set_takeD)
qed

lemma best_decoder_range:
  "fst (best_decoder D ds j b) = fst b \<or> (j \<le> fst (best_decoder D ds j b) \<and> fst (best_decoder D ds j b) < j + length ds)"
proof (induction ds arbitrary: j b)
  case (Cons d ds)
  then show ?case
    using Cons [of "Suc j" "if \<not> d_failed d \<and> fl_lt D (snd b) (sq_score (d_sequence d)) then (j, sq_score (d_sequence d)) else b"]
    by auto
qed simp

lemma rank_decoders_ok:
  fixes ds :: "('f, 'd, 'r) decoder list"
  assumes "list_all (decoder_ok v) ds"
  shows "\<exists>ds' best' n. rank_decoders M P best ds = Some (ds', best', n) \<and> list_all (decoder_ok v) ds' \<and>
    length ds' = length ds \<and> (best' = best \<or> best' < length ds)"
proof -
  define Q :: "('f, 'd, 'r) decoder \<Rightarrow> ('f, 'd, 'r) decoder \<times> bool \<Rightarrow> bool" where "Q = (\<lambda>d r. decoder_ok v (fst r))"
  obtain rs where rs: "those (map (rank_decoder M P) ds) = Some rs" "list_all2 Q ds rs"
  proof -
    have "\<exists>y. rank_decoder M P d = Some y \<and> Q d y" if "d \<in> set ds" for d
      using rank_decoder_ok [of v d M P] assms that by (auto simp: Q_def list_all_iff)
    then show ?thesis using those_map_ok [of ds "rank_decoder M P" Q] that by auto
  qed
  have "length rs = length ds" "list_all (decoder_ok v) (map fst rs)"
    using rs(2) by (auto simp: list_all2_conv_all_nth list_all_length Q_def)
  then show ?thesis using rs(1) best_decoder_range [of "dbl M" "map fst rs" 0 "(best, fl_ninf (dbl M))"]
    by (auto simp: rank_decoders_def)
qed

end
