(* ===== verification/Arrays.thy ===== *)
theory Arrays
  imports Main
begin

text \<open>
  Arrays read and written by index, and counted loops over a state, as the numeric code of the repository
  uses them.  An access out of bounds is \<^term>\<open>None\<close>; a loop stops at the first one.
\<close>

section \<open>Checked access\<close>

definition rd :: "'a list \<Rightarrow> nat \<Rightarrow> 'a option" where
  "rd xs i = (if i < length xs then Some (xs ! i) else None)"

definition wr :: "nat \<Rightarrow> 'a \<Rightarrow> 'a list \<Rightarrow> 'a list option" where
  "wr i x xs = (if i < length xs then Some (xs[i := x]) else None)"

lemma rd_Some [simp]: "i < length xs \<Longrightarrow> rd xs i = Some (xs ! i)"
  by (simp add: rd_def)

lemma wr_Some [simp]: "i < length xs \<Longrightarrow> wr i x xs = Some (xs[i := x])"
  by (simp add: wr_def)

lemma rd_eq_Some: "rd xs i = Some x \<longleftrightarrow> i < length xs \<and> xs ! i = x"
  by (auto simp: rd_def)

lemma wr_eq_Some: "wr i x xs = Some ys \<longleftrightarrow> i < length xs \<and> ys = xs[i := x]"
  by (auto simp: wr_def)

text \<open>Two arrays that agree outside a range of indices.\<close>

definition same_outside :: "nat \<Rightarrow> nat \<Rightarrow> 'a list \<Rightarrow> 'a list \<Rightarrow> bool" where
  "same_outside lo hi xs ys \<longleftrightarrow> length ys = length xs \<and> (\<forall>i. i < lo \<or> hi \<le> i \<longrightarrow> ys ! i = xs ! i)"

lemma same_outside_refl [simp]: "same_outside lo hi xs xs"
  by (auto simp: same_outside_def)

lemma same_outside_length: "same_outside lo hi xs ys \<Longrightarrow> length ys = length xs"
  by (auto simp: same_outside_def)

lemma same_outside_nth: "same_outside lo hi xs ys \<Longrightarrow> i < lo \<or> hi \<le> i \<Longrightarrow> ys ! i = xs ! i"
  by (auto simp: same_outside_def)

lemma same_outside_trans:
  "same_outside lo hi xs ys \<Longrightarrow> same_outside lo hi ys zs \<Longrightarrow> same_outside lo hi xs zs"
  by (auto simp: same_outside_def)

lemma same_outside_mono:
  "same_outside lo hi xs ys \<Longrightarrow> lo' \<le> lo \<Longrightarrow> hi \<le> hi' \<Longrightarrow> same_outside lo' hi' xs ys"
  by (auto simp: same_outside_def)

lemma same_outside_update: "lo \<le> i \<Longrightarrow> i < hi \<Longrightarrow> same_outside lo hi xs ys \<Longrightarrow> same_outside lo hi xs (ys[i := x])"
  by (auto simp: same_outside_def)

section \<open>Counted loops\<close>

text \<open>\<open>for (k = 0; k < n; k++) s = f(k, s)\<close>, with a body that can fail.\<close>

primrec for_loop :: "nat \<Rightarrow> (nat \<Rightarrow> 's \<Rightarrow> 's option) \<Rightarrow> 's \<Rightarrow> 's option" where
  "for_loop 0 f s = Some s"
| "for_loop (Suc n) f s = Option.bind (for_loop n f s) (f n)"

lemma for_loop_inv:
  assumes "I 0 s" and step: "\<And>k s. k < n \<Longrightarrow> I k s \<Longrightarrow> \<exists>s'. f k s = Some s' \<and> I (Suc k) s'"
  shows "\<exists>s'. for_loop n f s = Some s' \<and> I n s'"
  using step
proof (induction n)
  case 0
  then show ?case using assms(1) by simp
next
  case (Suc n)
  then have "\<exists>s'. for_loop n f s = Some s' \<and> I n s'" by (meson less_SucI)
  then show ?case using Suc.prems [of n] by auto
qed

text \<open>A loop whose body never fails is a fold.\<close>

lemma for_loop_fold:
  assumes "\<And>k s. k < n \<Longrightarrow> f k s = Some (g k s)"
  shows "for_loop n f s = Some (fold g [0 ..< n] s)"
  using assms by (induction n) simp_all

text \<open>A loop that writes one cell of each of its turns, from a value that does not depend on the cells written.\<close>

lemma for_loop_fill:
  assumes "p + n \<le> length xs"
    and "\<And>k ys. k < n \<Longrightarrow> same_outside p (p + k) xs ys \<Longrightarrow> f k ys = wr (p + k) (g k) ys"
  shows "\<exists>ys. for_loop n f xs = Some ys \<and> same_outside p (p + n) xs ys \<and> (\<forall>k < n. ys ! (p + k) = g k)"
proof -
  define I where "I k ys \<longleftrightarrow> same_outside p (p + k) xs ys \<and> (\<forall>j < k. ys ! (p + j) = g j)" for k ys
  have "\<exists>s'. for_loop n f xs = Some s' \<and> I n s'"
  proof (rule for_loop_inv)
    show "I 0 xs" by (simp add: I_def)
  next
    fix k ys
    assume k: "k < n" and I: "I k ys"
    then have "f k ys = Some (ys[p + k := g k])"
      using assms by (simp add: I_def same_outside_length)
    moreover have "I (Suc k) (ys[p + k := g k])"
      using I k assms(1) unfolding I_def
      by (auto simp: same_outside_length nth_list_update less_Suc_eq intro!: same_outside_update
          intro: same_outside_mono)
    ultimately show "\<exists>s'. f k ys = Some s' \<and> I (Suc k) s'" by blast
  qed
  then show ?thesis by (simp add: I_def)
qed


lemma for_loop_cong: "(\<And>k s. k < n \<Longrightarrow> f k s = g k s) \<Longrightarrow> for_loop n f s = for_loop n g s"
  by (induction n) (auto intro!: Option.bind_cong)

lemma for_loop_total:
  "(\<And>k s. k < n \<Longrightarrow> \<exists>s'. f k s = Some s') \<Longrightarrow> \<exists>s'. for_loop n f s = Some s'"
  using for_loop_inv [of "\<lambda>_ _. True" s n f] by blast

text \<open>
  \<open>for (; i < bound; i += step)\<close>, which leaves \<open>i\<close> for the code behind it; without a step it does not end.
\<close>

function stride_loop :: "(nat \<Rightarrow> 's \<Rightarrow> 's option) \<Rightarrow> nat \<Rightarrow> nat \<Rightarrow> nat \<Rightarrow> 's \<Rightarrow> (nat \<times> 's) option" where
  "stride_loop f bound step i s =
     (if i < bound then (if step = 0 then None else Option.bind (f i s) (stride_loop f bound step (i + step)))
      else Some (i, s))"
  by pat_completeness auto
termination
  by (relation "measure (\<lambda>(f, bound, step, i, s). bound - i)") auto

declare stride_loop.simps [simp del]

lemma stride_loop_inv:
  assumes step: "0 < step" "\<And>i s. i < bound \<Longrightarrow> I i s \<Longrightarrow> \<exists>s'. f i s = Some s' \<and> I (i + step) s'"
  shows "I i s \<Longrightarrow> \<exists>i' s'. stride_loop f bound step i s = Some (i', s') \<and> I i' s' \<and> bound \<le> i'"
proof (induction "bound - i" arbitrary: i s rule: less_induct)
  case less
  show ?case
  proof (cases "i < bound")
    case True
    then obtain s' where s': "f i s = Some s'" "I (i + step) s'" using step(2) less.prems by blast
    then have "\<exists>i' s''. stride_loop f bound step (i + step) s' = Some (i', s'') \<and> I i' s'' \<and> bound \<le> i'"
      using less.hyps [of "i + step" s'] True step(1) by simp
    then show ?thesis using True step(1) s'(1) by (subst stride_loop.simps) simp
  next
    case False
    then show ?thesis using less.prems by (subst stride_loop.simps) simp
  qed
qed

end
