(* ===== verification/Token_Times.thy ===== *)
theory Token_Times
  imports Segments Arrays
begin

text \<open>
  The times of single tokens, \<open>whisper_exp_compute_token_level_timestamps\<close> in \<open>src/src/whisper.cpp\<close>: anchors
  at the likely timestamps, the split of the time between anchors by how long the texts take to say, and
  the adjustment to the energy of the signal.
\<close>

section \<open>Voice length and energy\<close>

definition char_length :: "'f float_ops \<Rightarrow> char \<Rightarrow> 'f" where
  "char_length F c =
     (if c = CHR '' '' then fl_lit F (1 / 100)
      else if c = CHR '','' then fl_lit F 2
      else if c = CHR ''.'' then fl_lit F 3
      else if c = CHR ''!'' then fl_lit F 3
      else if c = CHR ''?'' then fl_lit F 3
      else if 48 \<le> (of_char c :: nat) \<and> (of_char c :: nat) \<le> 57 then fl_lit F 3
      else fl_lit F 1)"

definition voice_length :: "'f float_ops \<Rightarrow> string \<Rightarrow> 'f" where
  "voice_length F s = fold (\<lambda>c res. fl_add F res (char_length F c)) s (fl_zero F)"

text \<open>The mean of the absolute values around each sample; \<open>fabs\<close> is a parameter.\<close>

definition get_signal_energy :: "'f float_ops \<Rightarrow> ('f \<Rightarrow> 'f) \<Rightarrow> 'f list \<Rightarrow> nat \<Rightarrow> 'f list" where
  "get_signal_energy F fabs signal hw =
     map (\<lambda>i. fl_div F
         (fold (\<lambda>j sum. let q = int i + j in if 0 \<le> q \<and> q < int (length signal) then fl_add F sum (fabs (signal ! nat q)) else sum)
            [- int hw .. int hw] (fl_zero F))
         (fl_lit F (of_nat (2 * hw + 1))))
       [0 ..< length signal]"

section \<open>Anchors\<close>

text \<open>\<open>t_beg\<close>, \<open>t_last\<close> and \<open>tid_last\<close> of the state.\<close>

record token_clock =
  tc_beg :: int
  tc_last :: int
  tc_tid_last :: int

record 'f time_params =
  tp_thold_pt :: 'f
  tp_thold_ptsum :: 'f

definition anchor_first :: "vocab \<Rightarrow> int \<Rightarrow> 'f token_data list \<times> token_clock \<Rightarrow> 'f token_data list \<times> token_clock" where
  "anchor_first v t0 s =
     (let (toks, ck) = s
      in if td_id (toks ! 0) = v_beg v
         then (toks[0 := (toks ! 0)\<lparr>td_t0 := t0, td_t1 := t0\<rparr>, 1 := (toks ! 1)\<lparr>td_t0 := t0\<rparr>],
               \<lparr>tc_beg = t0, tc_last = t0, tc_tid_last = v_beg v\<rparr>)
         else (toks[0 := (toks ! 0)\<lparr>td_t0 := tc_last ck\<rparr>], ck))"

definition anchored :: "'f float_ops \<Rightarrow> 'f time_params \<Rightarrow> int \<Rightarrow> int \<Rightarrow> token_clock \<Rightarrow> 'f token_data \<Rightarrow> bool" where
  "anchored F P t1 tt ck tok \<longleftrightarrow>
     fl_lt F (tp_thold_pt P) (td_pt tok) \<and> fl_lt F (tp_thold_ptsum P) (td_ptsum tok) \<and> td_tid tok > tc_tid_last ck \<and> tt \<le> t1"

definition set_end :: "nat \<Rightarrow> int \<Rightarrow> 'f token_data list \<Rightarrow> 'f token_data list" where
  "set_end j t toks = toks[j := (toks ! j)\<lparr>td_t1 := t\<rparr>]"

definition set_begin :: "nat \<Rightarrow> int \<Rightarrow> 'f token_data list \<Rightarrow> 'f token_data list" where
  "set_begin j t toks = toks[j := (toks ! j)\<lparr>td_t0 := t\<rparr>]"

text \<open>\<^term>\<open>None\<close> is the exception of a token without a text.\<close>

definition anchor_turn :: "'f float_ops \<Rightarrow> vocab \<Rightarrow> 'f time_params \<Rightarrow> int \<Rightarrow> int \<Rightarrow> nat
    \<Rightarrow> 'f token_data list \<times> token_clock \<Rightarrow> ('f token_data list \<times> token_clock) option" where
  "anchor_turn F v P t0 t1 j s =
     (let (toks, ck) = (if j = 0 then anchor_first v t0 s else s);
          tt = tc_beg ck + 2 * (td_tid (toks ! j) - v_beg v)
      in map_option (\<lambda>text.
           let toks1 = toks[j := (toks ! j)\<lparr>td_vlen := voice_length F text\<rparr>]
           in if anchored F P t1 tt ck (toks ! j)
              then (set_begin j tt (if j > 0 then set_end (j - 1) tt toks1 else toks1), ck\<lparr>tc_tid_last := td_tid (toks ! j)\<rparr>)
              else (toks1, ck))
         (token_to_str v (td_id (toks ! j))))"

definition close_ends :: "int \<Rightarrow> 'f token_data list \<Rightarrow> 'f token_data list" where
  "close_ends t1 toks =
     (let n = length toks in set_end (n - 1) t1 (set_begin (n - 1) t1 (set_end (n - 2) t1 toks)))"

section \<open>Splitting the time between anchors\<close>

text \<open>One turn of the inner loop: token \<open>j - 1\<close> ends and token \<open>j\<close> begins at \<open>ct\<close>, cut to whole centiseconds.\<close>

definition split_turn :: "('f, 'd) arith \<Rightarrow> 'd \<Rightarrow> 'd \<Rightarrow> nat \<Rightarrow> 'f token_data list \<Rightarrow> 'f token_data list" where
  "split_turn A dt psum j toks =
     (let D = a_dbl A; prev = toks ! (j - 1);
          ct = fl_add D (fl_lit D (of_int (td_t0 prev))) (fl_div D (fl_mul D dt (a_widen A (td_vlen prev))) psum)
      in set_begin j (fl_trunc D ct) (set_end (j - 1) (fl_trunc D ct) toks))"

definition split_interval :: "('f, 'd) arith \<Rightarrow> nat \<Rightarrow> nat \<Rightarrow> 'f token_data list \<Rightarrow> 'f token_data list" where
  "split_interval A p0 p1 toks =
     (if p0 < p1
      then (let D = a_dbl A;
                psum = fold (\<lambda>j s. fl_add D s (a_widen A (td_vlen (toks ! j)))) [p0 ..< p1 + 1] (fl_zero D);
                dt = fl_lit D (of_int (td_t1 (toks ! p1) - td_t0 (toks ! p0)))
            in fold (split_turn A dt psum) [p0 + 1 ..< p1 + 1] toks)
      else toks)"

text \<open>The first token from \<open>p\<close> on whose end is known, or the last token.\<close>

definition interval_end :: "'f token_data list \<Rightarrow> nat \<Rightarrow> nat" where
  "interval_end toks p =
     (let p1 = p + length (takeWhile (\<lambda>t. td_t1 t < 0) (drop p toks)) in if p1 \<ge> length toks then p1 - 1 else p1)"

lemma interval_end_bounds: "p < length toks \<Longrightarrow> p \<le> interval_end toks p \<and> interval_end toks p < length toks"
  using length_takeWhile_le [of "\<lambda>t. td_t1 t < 0" "drop p toks"] by (auto simp: interval_end_def Let_def)

lemma length_set_end [simp]: "length (set_end j t toks) = length toks"
  by (simp add: set_end_def)

lemma length_set_begin [simp]: "length (set_begin j t toks) = length toks"
  by (simp add: set_begin_def)

lemma length_split_fold [simp]: "length (fold (split_turn A dt psum) js toks) = length toks"
  by (induction js arbitrary: toks) (simp_all add: split_turn_def Let_def)

lemma length_split_interval [simp]: "length (split_interval A p0 p1 toks) = length toks"
  by (simp add: split_interval_def Let_def del: upt_Suc)

function split_times :: "('f, 'd) arith \<Rightarrow> nat \<Rightarrow> 'f token_data list \<Rightarrow> 'f token_data list" where
  "split_times A p toks =
     (if p < length toks
      then (let p1 = interval_end toks p in split_times A (p1 + 1) (split_interval A p p1 toks)) else toks)"
  by pat_completeness auto
termination
proof (relation "measure (\<lambda>(A, p, toks). length toks - p)")
  fix A :: "('f, 'd) arith" and p p1 and toks :: "'f token_data list"
  assume "p < length toks" "p1 = interval_end toks p"
  then have "p \<le> p1" "p < length toks" using interval_end_bounds [of p toks] by auto
  then have "length toks - (p1 + 1) < length toks - p" by linarith
  then show "((A, p1 + 1, split_interval A p p1 toks), A, p, toks) \<in> measure (\<lambda>(A, p, toks). length toks - p)" by simp
qed simp

declare split_times.simps [simp del]

section \<open>The fix-up\<close>

definition fix_up_turn :: "nat \<Rightarrow> 'f token_data list \<Rightarrow> 'f token_data list" where
  "fix_up_turn j toks =
     (let toks1 = (if td_t1 (toks ! j) < 0 then set_begin (j + 1) (td_t1 (toks ! j)) toks else toks)
      in if j > 0 \<and> td_t1 (toks1 ! (j - 1)) > td_t0 (toks1 ! j)
         then (let toks2 = set_begin j (td_t1 (toks1 ! (j - 1))) toks1
               in set_end j (max (td_t0 (toks2 ! j)) (td_t1 (toks2 ! j))) toks2)
         else toks1)"

definition fix_up :: "'f token_data list \<Rightarrow> 'f token_data list" where
  "fix_up toks = fold fix_up_turn [0 ..< length toks - 1] toks"

section \<open>Adjusting to the energy\<close>

definition timestamp_to_sample :: "int \<Rightarrow> int \<Rightarrow> nat \<Rightarrow> nat" where
  "timestamp_to_sample t segment_t0 n_samples =
     nat (max 0 (min (int n_samples - 1) (to_int32 (tdiv ((t - segment_t0) * 16000) 100))))"

definition sample_to_timestamp :: "nat \<Rightarrow> int \<Rightarrow> int" where
  "sample_to_timestamp i segment_t0 = tdiv (100 * int i) 16000 + segment_t0"

text \<open>The four loops that look for the edge of the voice; all stay below the length of the energy.\<close>

fun walk_down :: "(nat \<Rightarrow> bool) \<Rightarrow> nat \<Rightarrow> nat \<Rightarrow> nat" where
  "walk_down loud lo 0 = 0"
| "walk_down loud lo (Suc k) = (if lo < Suc k \<and> loud (Suc k) then walk_down loud lo k else Suc k)"

function walk_up :: "(nat \<Rightarrow> bool) \<Rightarrow> nat \<Rightarrow> nat \<Rightarrow> nat" where
  "walk_up loud hi k = (if k < hi \<and> loud k then walk_up loud hi (Suc k) else k)"
  by pat_completeness auto
termination
  by (relation "measure (\<lambda>(loud, hi, k). hi - k)") auto

declare walk_up.simps [simp del]

lemma walk_down_le: "walk_down loud lo k \<le> k"
  by (induction k) auto

lemma walk_up_bounds: "k \<le> walk_up loud hi k" "walk_up loud hi k \<le> max k hi"
proof (induction loud hi k rule: walk_up.induct)
  case (1 loud hi k)
  { case 1 then show ?case using "1.IH" by (subst walk_up.simps) auto }
  { case 2 then show ?case using "1.IH" by (subst walk_up.simps) auto }
qed

text \<open>The threshold is half of the mean energy an eighth of a second around the token.\<close>

definition energy_thold :: "('f, 'd) arith \<Rightarrow> 'f list \<Rightarrow> nat \<Rightarrow> nat \<Rightarrow> 'f" where
  "energy_thold A energy s0 s1 =
     (let F = a_flt A; D = a_dbl A; hw = 16000 div 8; ss0 = s0 - hw; ss1 = min (s1 + hw) (length energy);
          sum = fold (\<lambda>k s. fl_add F s (energy ! k)) [ss0 ..< ss1] (fl_zero F)
      in a_narrow A (fl_div D (fl_mul D (fl_lit D (1 / 2)) (a_widen A sum)) (fl_lit D (of_int (int ss1 - int ss0)))))"

definition adjust_begin :: "'f float_ops \<Rightarrow> 'f list \<Rightarrow> 'f \<Rightarrow> int \<Rightarrow> nat \<Rightarrow> nat \<Rightarrow> nat \<Rightarrow> 'f token_data list
    \<Rightarrow> nat \<times> 'f token_data list" where
  "adjust_begin F energy thold seg_t0 j s0 s1 toks =
     (if fl_lt F thold (energy ! s0) \<and> j > 0
      then (let k = walk_down (\<lambda>k. fl_lt F thold (energy ! k)) 0 s0; t = sample_to_timestamp k seg_t0
            in if t < td_t1 (toks ! (j - 1)) then (s0, set_begin j (td_t1 (toks ! (j - 1))) toks)
               else (k, set_begin j t toks))
      else (let k = walk_up (\<lambda>k. fl_lt F (energy ! k) thold) s1 s0
            in (k, set_begin j (sample_to_timestamp k seg_t0) toks)))"

definition adjust_end :: "'f float_ops \<Rightarrow> 'f list \<Rightarrow> 'f \<Rightarrow> int \<Rightarrow> nat \<Rightarrow> nat \<Rightarrow> nat \<Rightarrow> 'f token_data list \<Rightarrow> 'f token_data list" where
  "adjust_end F energy thold seg_t0 j s0 s1 toks =
     (if fl_lt F thold (energy ! s1)
      then (let k = walk_up (\<lambda>k. fl_lt F thold (energy ! k)) (length energy - 1) s1; t = sample_to_timestamp k seg_t0
            in if j < length toks - 1 \<and> t > td_t0 (toks ! (j + 1)) then set_end j (td_t0 (toks ! (j + 1))) toks
               else set_end j t toks)
      else set_end j (sample_to_timestamp (walk_down (\<lambda>k. fl_lt F (energy ! k) thold) s0 s1) seg_t0) toks)"

definition adjust_turn :: "('f, 'd) arith \<Rightarrow> vocab \<Rightarrow> 'f list \<Rightarrow> int \<Rightarrow> nat \<Rightarrow> 'f token_data list \<Rightarrow> 'f token_data list" where
  "adjust_turn A v energy seg_t0 j toks =
     (if td_id (toks ! j) \<ge> v_eot v then toks
      else (let s0 = timestamp_to_sample (td_t0 (toks ! j)) seg_t0 (length energy);
                s1 = timestamp_to_sample (td_t1 (toks ! j)) seg_t0 (length energy);
                thold = energy_thold A energy s0 s1;
                (s0', toks1) = adjust_begin (a_flt A) energy thold seg_t0 j s0 s1 toks
            in adjust_end (a_flt A) energy thold seg_t0 j s0' s1 toks1))"

definition adjust_times :: "('f, 'd) arith \<Rightarrow> vocab \<Rightarrow> 'f list \<Rightarrow> int \<Rightarrow> 'f token_data list \<Rightarrow> 'f token_data list" where
  "adjust_times A v energy seg_t0 toks = fold (adjust_turn A v energy seg_t0) [0 ..< length toks] toks"

section \<open>The whole pass\<close>

definition compute_token_times :: "('f, 'd) arith \<Rightarrow> vocab \<Rightarrow> 'f time_params \<Rightarrow> 'f list \<Rightarrow> token_clock \<Rightarrow> 'f segment
    \<Rightarrow> ('f segment \<times> token_clock) option" where
  "compute_token_times A v P energy ck seg =
     (let toks = sg_tokens seg; n = length toks; t0 = sg_t0 seg; t1 = sg_t1 seg
      in if energy = [] \<or> n = 0 then Some (seg, ck)
         else if n = 1 then Some (seg\<lparr>sg_tokens := toks[0 := (toks ! 0)\<lparr>td_t0 := t0, td_t1 := t1\<rparr>]\<rparr>, ck)
         else map_option (\<lambda>(toks1, ck1).
             (seg\<lparr>sg_tokens := adjust_times A v energy t0 (fix_up (split_times A 0 (close_ends t1 toks1)))\<rparr>, ck1\<lparr>tc_last := t1\<rparr>))
           (for_loop n (anchor_turn (a_flt A) v P t0 t1) (toks, ck)))"


section \<open>Tokens that tile the segment\<close>

text \<open>Each token ends where the next one begins, or its end is not yet known and it is not before \<open>p\<close>.\<close>

definition tiled_from :: "nat \<Rightarrow> 'f token_data list \<Rightarrow> bool" where
  "tiled_from p toks \<longleftrightarrow> (\<forall>j. j + 1 < length toks \<longrightarrow>
     td_t1 (toks ! j) = td_t0 (toks ! (j + 1)) \<or> (p \<le> j \<and> td_t1 (toks ! j) < 0))"

definition tiled :: "'f token_data list \<Rightarrow> bool" where
  "tiled toks \<longleftrightarrow> (\<forall>j. j + 1 < length toks \<longrightarrow> td_t1 (toks ! j) = td_t0 (toks ! (j + 1)))"

lemma set_end_nth: "j < length toks \<Longrightarrow> set_end i t toks ! j = (if i = j then (toks ! j)\<lparr>td_t1 := t\<rparr> else toks ! j)"
  by (simp add: set_end_def nth_list_update)

lemma set_begin_nth: "j < length toks \<Longrightarrow> set_begin i t toks ! j = (if i = j then (toks ! j)\<lparr>td_t0 := t\<rparr> else toks ! j)"
  by (simp add: set_begin_def nth_list_update)

lemmas set_nth = set_end_nth set_begin_nth

lemma map_list_update_same: "f x = f (xs ! i) \<Longrightarrow> map f (xs[i := x]) = map f xs"
  by (metis list_update_id map_update)

lemma set_ids [simp]: "map td_id (set_end i t toks) = map td_id toks" "map td_id (set_begin i t toks) = map td_id toks"
  by (simp_all add: set_end_def set_begin_def map_list_update_same)

lemma anchor_first_facts:
  assumes "2 \<le> length toks" "anchor_first v t0 (toks, ck) = (toks1, ck1)"
  shows "map td_id toks1 = map td_id toks" "tiled_from 0 toks \<Longrightarrow> tiled_from 0 toks1"
proof -
  show "map td_id toks1 = map td_id toks"
    using assms by (auto simp: anchor_first_def map_list_update_same nth_list_update split: if_splits)
  assume t: "tiled_from 0 toks"
  show "tiled_from 0 toks1"
    unfolding tiled_from_def
  proof (intro allI impI)
    fix j
    assume "j + 1 < length toks1"
    moreover have "length toks1 = length toks" using assms(2) by (auto simp: anchor_first_def split: if_splits)
    moreover have "0 < length toks" "Suc 0 < length toks" using assms(1) by linarith+
    moreover have "j + 1 < length toks \<Longrightarrow> td_t1 (toks ! j) = td_t0 (toks ! (j + 1)) \<or> td_t1 (toks ! j) < 0"
      using t by (simp add: tiled_from_def)
    ultimately show "td_t1 (toks1 ! j) = td_t0 (toks1 ! (j + 1)) \<or> (0 \<le> j \<and> td_t1 (toks1 ! j) < 0)"
      using assms(2) by (cases j) (auto simp: anchor_first_def nth_list_update split: if_splits)
  qed
qed

lemma anchor_turn_facts:
  assumes "j < length toks" "2 \<le> length toks" "token_to_str v (td_id (toks ! j)) \<noteq> None"
  shows "\<exists>toks' ck'. anchor_turn F v P t0 t1 j (toks, ck) = Some (toks', ck') \<and> map td_id toks' = map td_id toks \<and>
    (tiled_from 0 toks \<longrightarrow> tiled_from 0 toks')"
proof -
  obtain toks1 ck1 where s: "(if j = 0 then anchor_first v t0 (toks, ck) else (toks, ck)) = (toks1, ck1)" by fastforce
  have 1: "map td_id toks1 = map td_id toks" "tiled_from 0 toks \<longrightarrow> tiled_from 0 toks1"
    using s anchor_first_facts [OF assms(2)] by (auto split: if_splits)
  have len: "length toks1 = length toks" using map_eq_imp_length_eq [OF 1(1)] .
  have id: "td_id (toks1 ! j) = td_id (toks ! j)" using 1(1) assms(1) len by (metis nth_map)
  then obtain w where w: "token_to_str v (td_id (toks1 ! j)) = Some w" using assms(3) by auto
  define toks2 where "toks2 = toks1[j := (toks1 ! j)\<lparr>td_vlen := voice_length F w\<rparr>]"
  have 2: "map td_id toks2 = map td_id toks" "tiled_from 0 toks \<longrightarrow> tiled_from 0 toks2" "length toks2 = length toks"
    using 1 len assms(1) by (auto simp: toks2_def map_list_update_same tiled_from_def nth_list_update)
  have 3: "tiled_from 0 toks \<longrightarrow> tiled_from 0 (set_begin j t (if j > 0 then set_end (j - 1) t toks2 else toks2))" for t
    using 2(2,3) assms(1) by (auto simp: tiled_from_def set_nth)
  have 4: "map td_id (set_begin j t (if j > 0 then set_end (j - 1) t toks2 else toks2)) = map td_id toks" for t
    using 2(1) by simp
  show ?thesis
    unfolding anchor_turn_def s prod.case Let_def w option.map toks2_def [symmetric] using 2 3 4 by auto
qed

lemma anchors_facts:
  assumes "2 \<le> length toks" "all_known v toks"
  shows "\<exists>toks' ck'. for_loop (length toks) (anchor_turn F v P t0 t1) (toks, ck) = Some (toks', ck') \<and>
    map td_id toks' = map td_id toks \<and> (tiled_from 0 toks \<longrightarrow> tiled_from 0 toks')"
proof -
  define I where "I k s \<longleftrightarrow> map td_id (fst s) = map td_id toks \<and> (tiled_from 0 toks \<longrightarrow> tiled_from 0 (fst s))" for k :: nat and s :: "'a token_data list \<times> token_clock"
  have "\<exists>s. for_loop (length toks) (anchor_turn F v P t0 t1) (toks, ck) = Some s \<and> I (length toks) s"
  proof (rule for_loop_inv)
    show "I 0 (toks, ck)" by (simp add: I_def)
  next
    fix k s
    assume k: "k < length toks" and I: "I k s"
    obtain ts c where s: "s = (ts, c)" by (cases s)
    have ids: "map td_id ts = map td_id toks" "tiled_from 0 toks \<longrightarrow> tiled_from 0 ts" using I by (simp_all add: I_def s)
    have len: "length ts = length toks" using map_eq_imp_length_eq [OF ids(1)] .
    have "td_id (ts ! k) = td_id (toks ! k)" using ids(1) k len by (metis nth_map)
    then show "\<exists>s'. anchor_turn F v P t0 t1 k s = Some s' \<and> I (Suc k) s'"
      using anchor_turn_facts [of k ts v F P t0 t1 c] assms k len ids by (force simp: s I_def all_known_def)
  qed
  then show ?thesis by (auto simp: I_def)
qed

lemma close_ends_facts:
  assumes "2 \<le> length toks" "tiled_from 0 toks"
  shows "map td_id (close_ends t1 toks) = map td_id toks" "tiled_from 0 (close_ends t1 toks)"
    "td_t1 (last (close_ends t1 toks)) = t1" "length (close_ends t1 toks) = length toks"
proof -
  show "map td_id (close_ends t1 toks) = map td_id toks" "length (close_ends t1 toks) = length toks"
    by (simp_all add: close_ends_def Let_def)
  have pair: "j + 1 < length toks \<Longrightarrow> j = length toks - 2 \<or> j < length toks - 2" for j by linarith
  show "tiled_from 0 (close_ends t1 toks)"
    using assms pair by (fastforce simp: tiled_from_def close_ends_def Let_def set_nth)
  have "length toks - 1 < length toks" using assms(1) by linarith
  then show "td_t1 (last (close_ends t1 toks)) = t1"
    using assms(1) by (simp add: close_ends_def Let_def set_nth last_conv_nth flip: length_0_conv)
qed

lemma split_fold_facts:
  "p + m < length toks \<Longrightarrow> fold (split_turn A dt psum) [p + 1 ..< p + 1 + m] toks = r \<Longrightarrow>
     map td_id r = map td_id toks \<and> (\<forall>j. p \<le> j \<and> j < p + m \<longrightarrow> td_t1 (r ! j) = td_t0 (r ! (j + 1))) \<and>
     (\<forall>j < length toks. j < p \<or> p + m \<le> j \<longrightarrow> td_t1 (r ! j) = td_t1 (toks ! j)) \<and>
     (\<forall>j < length toks. j \<le> p \<or> p + m < j \<longrightarrow> td_t0 (r ! j) = td_t0 (toks ! j))"
proof (induction m arbitrary: r)
  case 0
  then show ?case by simp
next
  case (Suc m)
  define r0 where "r0 = fold (split_turn A dt psum) [p + 1 ..< p + 1 + m] toks"
  have len: "length r0 = length toks" by (simp add: r0_def)
  have "r = split_turn A dt psum (p + m + 1) r0" using Suc.prems(2) by (simp add: r0_def)
  then obtain t where r: "r = set_begin (p + m + 1) t (set_end (p + m) t r0)"
    by (auto simp: split_turn_def Let_def)
  show ?case using Suc.IH [OF _ r0_def [symmetric]] Suc.prems(1) len
    by (auto simp: r set_nth less_Suc_eq)
qed

lemma split_interval_facts:
  assumes "p \<le> p1" "p1 < length toks"
  shows "map td_id (split_interval A p p1 toks) = map td_id toks"
    "\<And>j. p \<le> j \<Longrightarrow> j < p1 \<Longrightarrow> td_t1 (split_interval A p p1 toks ! j) = td_t0 (split_interval A p p1 toks ! (j + 1))"
    "\<And>j. j < length toks \<Longrightarrow> j < p \<or> p1 \<le> j \<Longrightarrow> td_t1 (split_interval A p p1 toks ! j) = td_t1 (toks ! j)"
    "\<And>j. j < length toks \<Longrightarrow> j \<le> p \<or> p1 < j \<Longrightarrow> td_t0 (split_interval A p p1 toks ! j) = td_t0 (toks ! j)"
proof -
  obtain m where m: "p1 = p + m" using assms(1) le_Suc_ex by blast
  obtain dt psum where eq: "p < p1 \<Longrightarrow> split_interval A p p1 toks = fold (split_turn A dt psum) [p + 1 ..< p + 1 + m] toks"
    by (auto simp: split_interval_def Let_def m simp del: upt_Suc)
  have long: "map td_id (split_interval A p p1 toks) = map td_id toks \<and>
      (\<forall>j. p \<le> j \<and> j < p1 \<longrightarrow> td_t1 (split_interval A p p1 toks ! j) = td_t0 (split_interval A p p1 toks ! (j + 1))) \<and>
      (\<forall>j < length toks. j < p \<or> p1 \<le> j \<longrightarrow> td_t1 (split_interval A p p1 toks ! j) = td_t1 (toks ! j)) \<and>
      (\<forall>j < length toks. j \<le> p \<or> p1 < j \<longrightarrow> td_t0 (split_interval A p p1 toks ! j) = td_t0 (toks ! j))" if lt: "p < p1"
    unfolding eq [OF lt] unfolding m by (rule split_fold_facts [OF assms(2) [unfolded m] refl])
  have short: "split_interval A p p1 toks = toks" "p1 = p" if "\<not> p < p1"
    using that assms(1) by (simp_all add: split_interval_def)
  show "map td_id (split_interval A p p1 toks) = map td_id toks"
    using long short by (cases "p < p1") auto
  show "td_t1 (split_interval A p p1 toks ! j) = td_t0 (split_interval A p p1 toks ! (j + 1))" if "p \<le> j" "j < p1" for j
    using long that by (meson le_less_trans)
  show "td_t1 (split_interval A p p1 toks ! j) = td_t1 (toks ! j)" if "j < length toks" "j < p \<or> p1 \<le> j" for j
  proof (cases "p < p1")
    case True
    then show ?thesis using long that by blast
  qed (simp add: short(1))
  show "td_t0 (split_interval A p p1 toks ! j) = td_t0 (toks ! j)" if "j < length toks" "j \<le> p \<or> p1 < j" for j
  proof (cases "p < p1")
    case True
    then show ?thesis using long that by blast
  qed (simp add: short(1))
qed

lemma interval_end_known: "p < length toks \<Longrightarrow> interval_end toks p < length toks - 1 \<Longrightarrow> \<not> td_t1 (toks ! interval_end toks p) < 0"
proof -
  let ?k = "length (takeWhile (\<lambda>t. td_t1 t < 0) (drop p toks))"
  assume p: "p < length toks" and e: "interval_end toks p < length toks - 1"
  then have k: "?k < length (drop p toks)" "interval_end toks p = p + ?k" by (auto simp: interval_end_def Let_def split: if_splits)
  have "\<not> td_t1 (drop p toks ! ?k) < 0" using nth_length_takeWhile [OF k(1)] by simp
  then show ?thesis using k p by simp
qed

lemma split_times_facts:
  "tiled_from p toks \<Longrightarrow> p \<le> length toks \<Longrightarrow>
     map td_id (split_times A p toks) = map td_id toks \<and> tiled (split_times A p toks) \<and>
     (toks \<noteq> [] \<longrightarrow> td_t1 (last (split_times A p toks)) = td_t1 (last toks))"
proof (induction A p toks rule: split_times.induct)
  case (1 A p toks)
  show ?case
  proof (cases "p < length toks")
    case False
    then have "split_times A p toks = toks" by (subst split_times.simps) simp
    moreover have "tiled toks" using "1.prems" False unfolding tiled_from_def tiled_def by fastforce
    ultimately show ?thesis by simp
  next
    case True
    define p1 where "p1 = interval_end toks p"
    define r where "r = split_interval A p p1 toks"
    have b: "p \<le> p1" "p1 < length toks" using interval_end_bounds [OF True] by (simp_all add: p1_def)
    note f = split_interval_facts [OF b, where A = A, folded r_def]
    have len: "length r = length toks" by (simp add: r_def)
    have "tiled_from (p1 + 1) r"
      unfolding tiled_from_def
    proof (intro allI impI)
      fix j
      assume j: "j + 1 < length r"
      have here: "td_t1 (toks ! j) = td_t0 (toks ! (j + 1)) \<or> (p \<le> j \<and> td_t1 (toks ! j) < 0)"
        using "1.prems"(1) j len by (simp add: tiled_from_def)
      consider "j < p" | "p \<le> j" "j < p1" | "j = p1" | "p1 < j" by linarith
      then show "td_t1 (r ! j) = td_t0 (r ! (j + 1)) \<or> (p1 + 1 \<le> j \<and> td_t1 (r ! j) < 0)"
      proof cases
        case 3
        then have "\<not> td_t1 (toks ! j) < 0" using interval_end_known [OF True] j len by (simp add: p1_def)
        then have "td_t1 (toks ! j) = td_t0 (toks ! (j + 1))" using here by simp
        then show ?thesis using f(3) [of j] f(4) [of "j + 1"] 3 j len by simp
      qed (use here f j len b in auto)
    qed
    then have "map td_id (split_times A (p1 + 1) r) = map td_id r \<and> tiled (split_times A (p1 + 1) r) \<and>
        (r \<noteq> [] \<longrightarrow> td_t1 (last (split_times A (p1 + 1) r)) = td_t1 (last r))"
      using "1.IH" [OF True p1_def] b len by (simp add: r_def)
    moreover have "td_t1 (last r) = td_t1 (last toks)"
    proof -
      have "p1 \<le> length toks - 1" "length toks - 1 < length toks" using b by linarith+
      moreover have "toks \<noteq> []" "r \<noteq> []" using b(2) len by auto
      ultimately show ?thesis using f(3) [of "length toks - 1"] len by (simp add: last_conv_nth)
    qed
    moreover have "split_times A p toks = split_times A (p1 + 1) r"
      using True by (subst split_times.simps) (simp add: p1_def r_def Let_def)
    ultimately show ?thesis using f(1) True len by auto
  qed
qed

lemma fix_up_tiled: "tiled toks \<Longrightarrow> fix_up toks = toks"
proof -
  assume t: "tiled toks"
  have same: "set_begin (j + 1) (td_t1 (toks ! j)) toks = toks" if "j + 1 < length toks" for j
    using t that by (simp add: set_begin_def tiled_def)
  have turn: "fix_up_turn j toks = toks" if "j + 1 < length toks" for j
  proof -
    have first: "(if td_t1 (toks ! j) < 0 then set_begin (j + 1) (td_t1 (toks ! j)) toks else toks) = toks" using same [OF that] by simp
    have second: "\<not> (j > 0 \<and> td_t1 (toks ! (j - 1)) > td_t0 (toks ! j))" using t that by (cases j) (auto simp: tiled_def)
    show ?thesis unfolding fix_up_turn_def Let_def first if_not_P [OF second] by (rule refl)
  qed
  have "fold fix_up_turn [0 ..< m] toks = toks" if "m \<le> length toks - 1" for m
    using that by (induction m) (simp_all add: turn)
  then show "fix_up toks = toks" by (simp add: fix_up_def)
qed



section \<open>The adjustment\<close>

lemma adjust_turn_shape:
  "\<exists>b e. adjust_turn A v energy seg_t0 j toks = toks \<or> adjust_turn A v energy seg_t0 j toks = set_end j e (set_begin j b toks)"
  by (auto simp: adjust_turn_def adjust_begin_def adjust_end_def Let_def split: prod.splits)

lemma adjust_times_ids [simp]: "map td_id (adjust_times A v energy seg_t0 toks) = map td_id toks"
proof -
  have turn: "map td_id (adjust_turn A v energy seg_t0 j ts) = map td_id ts" for j ts
    using adjust_turn_shape [of A v energy seg_t0 j ts] by auto
  have "map td_id (fold (adjust_turn A v energy seg_t0) js ts) = map td_id ts" for js ts
    by (induction js arbitrary: ts) (simp_all add: turn)
  then show ?thesis by (simp add: adjust_times_def)
qed

lemma split_times_ids [simp]: "map td_id (split_times A p toks) = map td_id toks"
proof (induction A p toks rule: split_times.induct)
  case (1 A p toks)
  have "map td_id (split_interval A p (interval_end toks p) toks) = map td_id toks" if "p < length toks"
    using split_interval_facts(1) interval_end_bounds [OF that] by blast
  then show ?case using 1 by (subst split_times.simps) (simp add: Let_def)
qed

lemma fix_up_ids [simp]: "map td_id (fix_up toks) = map td_id toks"
proof -
  have "map td_id (fold fix_up_turn js ts) = map td_id ts" for js and ts :: "'a token_data list"
    by (induction js arbitrary: ts) (simp_all add: fix_up_turn_def Let_def)
  then show ?thesis by (simp add: fix_up_def)
qed

text \<open>The pass keeps the laws that the cut at timestamps needs.\<close>

lemma compute_token_times_known:
  assumes "all_known v (sg_tokens seg)"
  shows "\<exists>toks ck'. compute_token_times A v P energy ck seg = Some (seg\<lparr>sg_tokens := toks\<rparr>, ck') \<and>
    map td_id toks = map td_id (sg_tokens seg)"
proof -
  let ?n = "length (sg_tokens seg)"
  consider "energy = [] \<or> ?n = 0" | "energy \<noteq> []" "?n = 1" | "energy \<noteq> []" "2 \<le> ?n" by linarith
  then show ?thesis
  proof cases
    case 1
    then show ?thesis by (intro exI [of _ "sg_tokens seg"]) (simp add: compute_token_times_def Let_def)
  next
    case 2
    then show ?thesis by (auto simp: compute_token_times_def Let_def map_list_update_same)
  next
    case 3
    then obtain toks1 ck1 where
      "for_loop ?n (anchor_turn (a_flt A) v P (sg_t0 seg) (sg_t1 seg)) (sg_tokens seg, ck) = Some (toks1, ck1)"
      "map td_id toks1 = map td_id (sg_tokens seg)"
      using anchors_facts [OF _ assms] by blast
    then show ?thesis using 3 by (auto simp: compute_token_times_def Let_def close_ends_def)
  qed
qed

interpretation times: token_stamp v "compute_token_times A v P energy"
  for A :: "('f, 'd) arith" and v P energy
  by unfold_locales (rule compute_token_times_known)


text \<open>Moving the segment and its tokens in time.\<close>

definition shift_token :: "int \<Rightarrow> 'f token_data \<Rightarrow> 'f token_data" where
  "shift_token d t = t\<lparr>td_t0 := td_t0 t + d, td_t1 := td_t1 t + d\<rparr>"

lemma shift_set [simp]:
  "j < length toks \<Longrightarrow> set_begin j (t + d) (map (shift_token d) toks) = map (shift_token d) (set_begin j t toks)"
  "j < length toks \<Longrightarrow> set_end j (t + d) (map (shift_token d) toks) = map (shift_token d) (set_end j t toks)"
  by (cases "toks ! j"; simp add: set_begin_def set_end_def map_update shift_token_def)+

lemma sample_to_timestamp_shift: "sample_to_timestamp k (t0 + d) = sample_to_timestamp k t0 + d"
  by (simp add: sample_to_timestamp_def)

lemma adjust_turn_shift:
  assumes "j < length toks"
  shows "adjust_turn A v energy (t0 + d) j (map (shift_token d) toks) = map (shift_token d) (adjust_turn A v energy t0 j toks)"
proof -
  have time: "timestamp_to_sample (t + d) (t0 + d) n = timestamp_to_sample t t0 n" for t n
    by (simp add: timestamp_to_sample_def)
  have sel: "td_id (shift_token d t) = td_id t" "td_t0 (shift_token d t) = td_t0 t + d" "td_t1 (shift_token d t) = td_t1 t + d" for t :: "'a token_data"
    by (simp_all add: shift_token_def)
  have pre: "j - 1 < length toks" using assms by simp
  have b: "adjust_begin (a_flt A) energy th (t0 + d) j s0 s1 (map (shift_token d) toks) =
      map_prod id (map (shift_token d)) (adjust_begin (a_flt A) energy th t0 j s0 s1 toks)" for th s0 s1
    using assms pre by (simp add: adjust_begin_def Let_def sample_to_timestamp_shift sel)
  have e: "adjust_end (a_flt A) energy th (t0 + d) j s0 s1 (map (shift_token d) ts) =
      map (shift_token d) (adjust_end (a_flt A) energy th t0 j s0 s1 ts)" if "length ts = length toks" for th s0 s1 ts
    using assms that by (auto simp: adjust_end_def Let_def sample_to_timestamp_shift sel)
  have l: "length (snd (adjust_begin (a_flt A) energy th t0 j s0 s1 toks)) = length toks" for th s0 s1
    by (simp add: adjust_begin_def Let_def)
  show ?thesis
    using assms e [OF l] by (simp add: adjust_turn_def Let_def sel time b case_prod_unfold)
qed

lemma length_adjust_turn [simp]: "length (adjust_turn A v energy t0 j toks) = length toks"
  using adjust_turn_shape [of A v energy t0 j toks] by auto

text \<open>
  The adjustment looks at the energy relative to the beginning of the segment: the same tokens at any
  other time of the recording are adjusted to the energy of the same first samples of the recording.
\<close>

theorem adjustment_ignores_segment_start:
  "adjust_times A v energy (t0 + d) (map (shift_token d) toks) = map (shift_token d) (adjust_times A v energy t0 toks)"
proof -
  have "fold (adjust_turn A v energy (t0 + d)) js (map (shift_token d) ts) = map (shift_token d) (fold (adjust_turn A v energy t0) js ts)"
    if "\<forall>j \<in> set js. j < length ts" for js ts
    using that by (induction js arbitrary: ts) (simp_all add: adjust_turn_shift)
  then show ?thesis by (simp add: adjust_times_def)
qed


section \<open>Witnesses\<close>

definition demo_spoken :: "rat option segment" where
  "demo_spoken = \<lparr>sg_t0 = 100, sg_t1 = 160, sg_text = ''a aa'', sg_no_speech = Some 0,
     sg_tokens = [demo_token 0 (- 1), demo_token 1 (- 1), demo_token 0 (- 1)], sg_turn = False\<rparr>"


definition demo_stamped :: vocab where
  "demo_stamped = demo_small\<lparr>v_id_to_token := [0 \<mapsto> ''a'', 1 \<mapsto> '' '', 112 \<mapsto> ''[BEG]'', 113 \<mapsto> ''[T1]'', 114 \<mapsto> ''[T2]'']\<rparr>"

definition demo_seg_params :: "(rat option, token_clock) seg_params" where
  "demo_seg_params = \<lparr>sp_print_special = False, sp_tdrz_enable = False, sp_single_segment = False,
     sp_token_timestamps = False, sp_max_len = 0, sp_split_on_word = False, sp_stamp = compute_token_times demo_arith demo_stamped \<lparr>tp_thold_pt = Some 0, tp_thold_ptsum = Some 0\<rparr> [Some 1], sp_dtw = False,
     sp_zero = Some 0\<rparr>"


end
