(* ===== verification/Dtw.thy ===== *)
theory Dtw
  imports Segments Arrays
begin

text \<open>
  The times of tokens by dynamic time warping in \<open>src/src/whisper.cpp\<close>: the alignment heads and their
  masks, the median filter, \<open>dtw_and_backtrace\<close> and the placing of the times on the tokens.  A two-dimensional
  tensor is its data, with the first index running fastest; \<^term>\<open>None\<close> is an access out of range or a failed
  assertion.
\<close>

section \<open>Alignment heads\<close>

datatype aheads_preset =
  Aheads_None | Aheads_N_Top_Most | Aheads_Custom
| Aheads_Tiny_En | Aheads_Tiny | Aheads_Base_En | Aheads_Base | Aheads_Small_En | Aheads_Small
| Aheads_Medium_En | Aheads_Medium | Aheads_Large_V1 | Aheads_Large_V2 | Aheads_Large_V3 | Aheads_Large_V3_Turbo

text \<open>A head is a layer and a head in it.  \<^term>\<open>None\<close> is the exception of \<open>g_aheads.at\<close>.\<close>

fun g_aheads :: "aheads_preset \<Rightarrow> (int \<times> int) list option" where
  "g_aheads Aheads_Tiny_En = Some [(1, 0), (2, 0), (2, 5), (3, 0), (3, 1), (3, 2), (3, 3), (3, 4)]"
| "g_aheads Aheads_Tiny = Some [(2, 2), (3, 0), (3, 2), (3, 3), (3, 4), (3, 5)]"
| "g_aheads Aheads_Base_En = Some [(3, 3), (4, 7), (5, 1), (5, 5), (5, 7)]"
| "g_aheads Aheads_Base = Some [(3, 1), (4, 2), (4, 3), (4, 7), (5, 1), (5, 2), (5, 4), (5, 6)]"
| "g_aheads Aheads_Small_En = Some [(6, 6), (7, 0), (7, 3), (7, 8), (8, 2), (8, 5), (8, 7), (9, 0), (9, 4), (9, 8),
     (9, 10), (10, 0), (10, 1), (10, 2), (10, 3), (10, 6), (10, 11), (11, 2), (11, 4)]"
| "g_aheads Aheads_Small = Some [(5, 3), (5, 9), (8, 0), (8, 4), (8, 7), (8, 8), (9, 0), (9, 7), (9, 9), (10, 5)]"
| "g_aheads Aheads_Medium_En = Some [(11, 4), (14, 1), (14, 12), (14, 14), (15, 4), (16, 0), (16, 4), (16, 9),
     (17, 12), (17, 14), (18, 7), (18, 10), (18, 15), (20, 0), (20, 3), (20, 9), (20, 14), (21, 12)]"
| "g_aheads Aheads_Medium = Some [(13, 15), (15, 4), (15, 15), (16, 1), (20, 0), (23, 4)]"
| "g_aheads Aheads_Large_V1 = Some [(9, 19), (11, 2), (11, 4), (11, 17), (22, 7), (22, 11), (22, 17), (23, 2), (23, 15)]"
| "g_aheads Aheads_Large_V2 = Some [(10, 12), (13, 17), (16, 11), (16, 12), (16, 13), (17, 15), (17, 16), (18, 4),
     (18, 11), (18, 19), (19, 11), (21, 2), (21, 3), (22, 3), (22, 9), (22, 12), (23, 5), (23, 7), (23, 13), (25, 5),
     (26, 1), (26, 12), (27, 15)]"
| "g_aheads Aheads_Large_V3 = Some [(7, 0), (10, 17), (12, 18), (13, 12), (16, 1), (17, 14), (19, 11), (21, 4), (24, 1), (25, 6)]"
| "g_aheads Aheads_Large_V3_Turbo = Some [(2, 4), (2, 11), (3, 3), (3, 6), (3, 11), (3, 14)]"
| "g_aheads _ = None"

text \<open>\<open>da_custom\<close> has the \<open>n_heads\<close> heads given by the caller.\<close>

record dtw_aheads =
  da_preset :: aheads_preset
  da_n_top :: int
  da_custom :: "(int \<times> int) list option"

definition aheads_of :: "dtw_aheads \<Rightarrow> (int \<times> int) list option" where
  "aheads_of D = (if da_preset D = Aheads_Custom then da_custom D else g_aheads (da_preset D))"

definition get_alignment_heads_by_layer :: "dtw_aheads \<Rightarrow> int \<Rightarrow> int \<Rightarrow> int \<Rightarrow> int list option" where
  "get_alignment_heads_by_layer D il n_text_layer n_head =
     (case da_preset D of
        Aheads_None \<Rightarrow> Some []
      | Aheads_N_Top_Most \<Rightarrow> Some (if il \<ge> n_text_layer - da_n_top D then [0 .. n_head - 1] else [])
      | _ \<Rightarrow> map_option (\<lambda>hs. map snd (filter (\<lambda>h. fst h = il) hs)) (aheads_of D))"

text \<open>The checks at the beginning of \<open>aheads_masks_init\<close>.\<close>

definition aheads_sane :: "dtw_aheads \<Rightarrow> int \<Rightarrow> int \<Rightarrow> bool" where
  "aheads_sane D n_text_layer n_head \<longleftrightarrow>
     (case da_preset D of
        Aheads_None \<Rightarrow> False
      | Aheads_N_Top_Most \<Rightarrow> \<not> (da_n_top D > n_text_layer \<or> da_n_top D \<le> 0)
      | p \<Rightarrow> (case aheads_of D of
                None \<Rightarrow> False
              | Some hs \<Rightarrow> \<not> (p = Aheads_Custom \<and> hs = []) \<and>
                  list_all (\<lambda>(l, h). l < n_text_layer \<and> 0 \<le> l \<and> h < n_head \<and> 0 \<le> h) hs))"

text \<open>The mask of a layer: a row of \<open>n_head\<close> values for each of its heads, which marks that head.\<close>

definition mask_of_heads :: "nat \<Rightarrow> int list \<Rightarrow> nat list option" where
  "mask_of_heads n_head heads =
     for_loop (length heads) (\<lambda>ih. wr (nat (heads ! ih) + ih * n_head) 1) (replicate (n_head * length heads) 0)"

definition layer_mask :: "dtw_aheads \<Rightarrow> int \<Rightarrow> int \<Rightarrow> int \<Rightarrow> nat list option option" where
  "layer_mask D n_text_layer n_head il =
     Option.bind (get_alignment_heads_by_layer D il n_text_layer n_head) (\<lambda>heads.
       if heads = [] then Some None else map_option Some (mask_of_heads (nat n_head) heads))"

text \<open>The masks, if \<open>alloc\<close> lets them be allocated; \<open>Some None\<close> is the return of \<open>false\<close>.\<close>

definition aheads_masks_init :: "dtw_aheads \<Rightarrow> int \<Rightarrow> int \<Rightarrow> bool \<Rightarrow> nat list option list option option" where
  "aheads_masks_init D n_text_layer n_head alloc =
     (if \<not> aheads_sane D n_text_layer n_head \<or> \<not> alloc then Some None
      else map_option (\<lambda>ms. if ms = [] then None else Some ms)
             (those (map (layer_mask D n_text_layer n_head) [0 .. n_text_layer - 1])))"

lemma those_all_Some: "(\<And>x. x \<in> set xs \<Longrightarrow> f x \<noteq> None) \<Longrightarrow> those (map f xs) = Some (map (\<lambda>x. the (f x)) xs)"
proof (induction xs)
  case (Cons a xs)
  from Cons.prems [of a] obtain y where "f a = Some y" by auto
  with Cons show ?case by simp
qed simp

lemma mask_of_heads_rows:
  assumes "list_all (\<lambda>h. 0 \<le> h \<and> h < int n_head) heads"
  shows "\<exists>m. mask_of_heads n_head heads = Some m \<and> length m = n_head * length heads \<and>
    (\<forall>ih < length heads. \<forall>c < n_head. m ! (c + ih * n_head) = (if int c = heads ! ih then 1 else 0))"
proof -
  have head: "nat (heads ! ih) < n_head \<and> 0 \<le> heads ! ih" if "ih < length heads" for ih
    using assms that by (auto simp: list_all_length)
  have pos: "c + ih * n_head < n_head * length heads" if "ih < length heads" "c < n_head" for c ih
  proof -
    have "c + ih * n_head < n_head + ih * n_head" using that(2) by simp
    also have "\<dots> \<le> n_head * length heads" using that(1) by (metis Suc_leI mult.commute mult_Suc mult_le_mono2)
    finally show ?thesis .
  qed
  have inj: "c + ih * n_head = c' + ih' * n_head \<longleftrightarrow> c = c' \<and> ih = ih'" if "c < n_head" "c' < n_head" for c c' ih ih'
    using that by (metis add.commute add_right_cancel div_mult_self3 div_less add.right_neutral not_less_zero)
  define I where "I k m \<longleftrightarrow> length m = n_head * length heads \<and> (\<forall>ih < length heads. \<forall>c < n_head.
      m ! (c + ih * n_head) = (if ih < k \<and> int c = heads ! ih then 1 else 0))" for k and m :: "nat list"
  have "\<exists>m. mask_of_heads n_head heads = Some m \<and> I (length heads) m"
    unfolding mask_of_heads_def
  proof (rule for_loop_inv)
    show "I 0 (replicate (n_head * length heads) 0)" by (simp add: I_def pos)
  next
    fix k m
    assume k: "k < length heads" and I: "I k m"
    have "I (Suc k) (m[nat (heads ! k) + k * n_head := 1])"
      using I k head [OF k] unfolding I_def
      by (auto simp: nth_list_update pos inj less_Suc_eq)
    then show "\<exists>s'. wr (nat (heads ! k) + k * n_head) 1 m = Some s' \<and> I (Suc k) s'"
      using I head [OF k] pos [OF k] by (simp add: I_def)
  qed
  then show ?thesis by (auto simp: I_def)
qed


text \<open>The heads of every layer are in range if the checks pass.\<close>

lemma layer_heads_ok:
  assumes "aheads_sane D n_text_layer n_head"
  shows "\<exists>heads. get_alignment_heads_by_layer D il n_text_layer n_head = Some heads \<and>
    list_all (\<lambda>h. 0 \<le> h \<and> h < n_head) heads"
  using assms
  by (cases "da_preset D")
    (auto simp: aheads_sane_def get_alignment_heads_by_layer_def list_all_iff split: option.splits)

text \<open>
  C27: if the checks pass and there is a layer, the masks are built without a write out of range, and the mask
  of a layer has one row for each of its alignment heads, with a single 1 in the column of that head.
\<close>

theorem aheads_masks_rows:
  assumes "aheads_sane D n_text_layer n_head" "0 < n_text_layer"
  shows "\<exists>ms. aheads_masks_init D n_text_layer n_head True = Some (Some ms) \<and> length ms = nat n_text_layer \<and>
    (\<forall>il < nat n_text_layer. \<exists>heads. get_alignment_heads_by_layer D (int il) n_text_layer n_head = Some heads \<and>
       (if heads = [] then ms ! il = None
        else \<exists>m. ms ! il = Some m \<and> length m = nat n_head * length heads \<and>
          (\<forall>ih < length heads. \<forall>c < nat n_head. m ! (c + ih * nat n_head) = (if int c = heads ! ih then 1 else 0))))"
proof -
  let ?n = "nat n_head"
  let ?row = "\<lambda>heads m. length m = ?n * length heads \<and>
      (\<forall>ih < length heads. \<forall>c < ?n. m ! (c + ih * ?n) = (if int c = heads ! ih then 1 else (0::nat)))"
  have layer: "\<exists>heads r. get_alignment_heads_by_layer D il n_text_layer n_head = Some heads \<and>
      layer_mask D n_text_layer n_head il = Some r \<and> (if heads = [] then r = None else \<exists>m. r = Some m \<and> ?row heads m)" for il
  proof -
    obtain heads where h: "get_alignment_heads_by_layer D il n_text_layer n_head = Some heads" "list_all (\<lambda>h. 0 \<le> h \<and> h < n_head) heads"
      using layer_heads_ok [OF assms(1)] by blast
    have "list_all (\<lambda>h. 0 \<le> h \<and> h < int ?n) heads" using h(2) by (auto simp: list_all_iff)
    then obtain m where "mask_of_heads ?n heads = Some m" "?row heads m" using mask_of_heads_rows by blast
    then show ?thesis using h(1) by (cases "heads = []") (auto simp: layer_mask_def)
  qed
  define f where "f il = the (layer_mask D n_text_layer n_head il)" for il
  have run: "those (map (layer_mask D n_text_layer n_head) [0 .. n_text_layer - 1]) = Some (map f [0 .. n_text_layer - 1])"
  proof -
    have "layer_mask D n_text_layer n_head il \<noteq> None" for il using layer [of il] by (elim exE conjE) simp
    then show ?thesis unfolding f_def [abs_def] by (rule those_all_Some)
  qed
  have nth: "map f [0 .. n_text_layer - 1] ! il = f (int il)" if "il < nat n_text_layer" for il using that by simp
  have each: "\<exists>heads. get_alignment_heads_by_layer D (int il) n_text_layer n_head = Some heads \<and>
       (if heads = [] then f (int il) = None else \<exists>m. f (int il) = Some m \<and> ?row heads m)" for il
    using layer [of "int il"] by (elim exE conjE) (simp add: f_def)
  have "map f [0 .. n_text_layer - 1] \<noteq> []" using assms(2) by simp
  then have "aheads_masks_init D n_text_layer n_head True = Some (Some (map f [0 .. n_text_layer - 1]))"
    unfolding aheads_masks_init_def run option.map using assms(1) by (simp only: if_False if_True simp_thms)
  moreover have "length (map f [0 .. n_text_layer - 1]) = nat n_text_layer" by simp
  moreover have "\<exists>heads. get_alignment_heads_by_layer D (int il) n_text_layer n_head = Some heads \<and>
       (if heads = [] then map f [0 .. n_text_layer - 1] ! il = None
        else \<exists>m. map f [0 .. n_text_layer - 1] ! il = Some m \<and> ?row heads m)" if "il < nat n_text_layer" for il
    unfolding nth [OF that] by (rule each)
  ultimately show ?thesis by blast
qed

theorem aheads_masks_rows_witness:
  "\<exists>ms. aheads_masks_init \<lparr>da_preset = Aheads_Base_En, da_n_top = 0, da_custom = None\<rparr> 6 8 True = Some (Some ms) \<and> length ms = 6"
  using aheads_masks_rows [of "\<lparr>da_preset = Aheads_Base_En, da_n_top = 0, da_custom = None\<rparr>" 6 8]
  by (auto simp: aheads_sane_def aheads_of_def)

section \<open>The median filter\<close>

text \<open>Reflection at the ends of a row of \<open>n\<close> values.\<close>

definition reflect_index :: "int \<Rightarrow> int \<Rightarrow> int" where
  "reflect_index n idx = (if idx < 0 then - idx else if idx \<ge> n then 2 * (n - 1) - idx else idx)"

text \<open>\<open>sorter\<close> is \<open>std::sort\<close>; \<open>row\<close> reads the values along the third index.\<close>

definition median_at :: "('f list \<Rightarrow> 'f list) \<Rightarrow> int \<Rightarrow> 'f list \<Rightarrow> nat \<Rightarrow> 'f option" where
  "median_at sorter width row k =
     map_option (\<lambda>window. let s = sorter window in s ! (length s div 2))
       (those (map (\<lambda>off. let idx = reflect_index (int (length row)) (int k + off) in if idx < 0 then None else rd row (nat idx))
          [tdiv (- width) 2 .. tdiv width 2]))"

text \<open>\<open>median_filter\<close>, for one pair of the first two indices.  It does not write to its input.\<close>

definition median_row :: "('f list \<Rightarrow> 'f list) \<Rightarrow> int \<Rightarrow> 'f list \<Rightarrow> 'f list option" where
  "median_row sorter width row =
     (if \<not> width < int (length row) \<or> tmod width 2 = 0 then None
      else those (map (median_at sorter width row) [0 ..< length row]))"

lemma reflect_index_ok:
  assumes "0 \<le> k" "k < n" "\<bar>off\<bar> < n"
  shows "0 \<le> reflect_index n (k + off) \<and> reflect_index n (k + off) < n"
  using assms by (auto simp: reflect_index_def)

text \<open>
  The median filter reads only inside the row, and every value it writes is one of the values of the row
  at most half the width away, up to reflection; it aborts exactly when the row is not longer than the filter
  or the filter has an even width.
\<close>

theorem median_row_values:
  assumes "0 < width" "\<And>xs. set (sorter xs) = set xs" "\<And>xs. length (sorter xs) = length (xs :: 'f list)"
  shows "(median_row sorter width row = None \<longleftrightarrow> int (length row) \<le> width \<or> even width) \<and>
    (\<forall>out. median_row sorter width row = Some out \<longrightarrow> length out = length row \<and> set out \<subseteq> set row)"
proof -
  have "tdiv (- width) 2 = - (width div 2)" "tdiv width 2 = width div 2" using assms(1) by (simp_all add: tdiv_def sgn_if)
  note d = this
  have m: "tmod width 2 = 0 \<longleftrightarrow> even width" using assms(1) d(2) by (simp add: tmod_def) presburger
  have at: "\<exists>v. median_at sorter width row k = Some v \<and> v \<in> set row" if "k < length row" "width < int (length row)" for k
  proof -
    let ?offs = "[tdiv (- width) 2 .. tdiv width 2]"
    define f where "f off = (let idx = reflect_index (int (length row)) (int k + off) in if idx < 0 then None else rd row (nat idx))" for off
    have f: "f off \<noteq> None \<and> the (f off) \<in> set row" if "off \<in> set ?offs" for off
    proof -
      have "\<bar>off\<bar> < int (length row)" using that d \<open>width < int (length row)\<close> assms(1) by auto
      then show ?thesis using reflect_index_ok [of "int k" "int (length row)" off] \<open>k < length row\<close>
        by (auto simp: f_def Let_def rd_def nat_less_iff)
    qed
    define window where "window = map (\<lambda>x. the (f x)) ?offs"
    have w: "those (map f ?offs) = Some window" unfolding window_def by (rule those_all_Some) (use f in blast)
    have "0 \<in> set ?offs" using d assms(1) by simp
    then have "window \<noteq> []" by (auto simp: window_def)
    then have "length (sorter window) div 2 < length (sorter window)" using assms(3) [of window] by simp
    then have "sorter window ! (length (sorter window) div 2) \<in> set (sorter window)" by (rule nth_mem)
    also have "set (sorter window) \<subseteq> set row" using assms(2) f by (auto simp: window_def)
    finally show ?thesis using w by (simp add: median_at_def f_def [abs_def] Let_def)
  qed
  have run: "median_row sorter width row = Some (map (\<lambda>k. the (median_at sorter width row k)) [0 ..< length row])"
    if "width < int (length row)" "odd width"
    unfolding median_row_def using that at m by (subst those_all_Some) force+
  have "length out = length row \<and> set out \<subseteq> set row" if "median_row sorter width row = Some out" for out
  proof -
    have "width < int (length row)" "odd width" using that m by (auto simp: median_row_def split: if_splits)
    then show ?thesis using run that at by fastforce
  qed
  moreover have "median_row sorter width row = None \<longleftrightarrow> int (length row) \<le> width \<or> even width"
    using run m by (auto simp: median_row_def)
  ultimately show ?thesis by blast
qed


theorem median_row_values_witness: "median_row sort 7 [5, 1, 4, 2, 3, 9, 0 :: int] = None"
proof -
  have "median_row sort 7 [5, 1, 4, 2, 3, 9, 0 :: int] = None \<longleftrightarrow> int (length [5, 1, 4, 2, 3, 9, 0 :: int]) \<le> 7 \<or> even (7::int)"
    by (rule median_row_values [THEN conjunct1]) simp_all
  then show ?thesis by simp
qed

section \<open>Warping\<close>

definition t2_get :: "nat \<Rightarrow> 'a list \<Rightarrow> nat \<Rightarrow> nat \<Rightarrow> 'a option" where
  "t2_get w a i j = rd a (i + j * w)"

definition t2_set :: "nat \<Rightarrow> nat \<Rightarrow> nat \<Rightarrow> 'a \<Rightarrow> 'a list \<Rightarrow> 'a list option" where
  "t2_set w i j v a = wr (i + j * w) v a"

text \<open>The choice among the three neighbours, and its mark in the trace.\<close>

definition dtw_pick :: "'f float_ops \<Rightarrow> 'f \<Rightarrow> 'f \<Rightarrow> 'f \<Rightarrow> 'f \<times> int" where
  "dtw_pick F c0 c1 c2 =
     (if fl_lt F c0 c1 \<and> fl_lt F c0 c2 then (c0, 0)
      else if fl_lt F c1 c0 \<and> fl_lt F c1 c2 then (c1, 1) else (c2, 2))"

text \<open>\<open>x\<close> reads the matrix of costs, which has \<open>N\<close> tokens and \<open>M\<close> pieces of audio.\<close>

definition dtw_cell :: "'f float_ops \<Rightarrow> (nat \<Rightarrow> nat \<Rightarrow> 'f option) \<Rightarrow> nat \<Rightarrow> nat \<Rightarrow> nat \<Rightarrow> 'f list \<times> int list
    \<Rightarrow> ('f list \<times> int list) option" where
  "dtw_cell F x N j i s =
     Option.bind (t2_get (N + 1) (fst s) (i - 1) (j - 1)) (\<lambda>c0.
     Option.bind (t2_get (N + 1) (fst s) (i - 1) j) (\<lambda>c1.
     Option.bind (t2_get (N + 1) (fst s) i (j - 1)) (\<lambda>c2.
     Option.bind (x (i - 1) (j - 1)) (\<lambda>v.
     Option.bind (t2_set (N + 1) i j (fl_add F v (fst (dtw_pick F c0 c1 c2))) (fst s)) (\<lambda>cost.
       map_option (Pair cost) (t2_set (N + 1) i j (snd (dtw_pick F c0 c1 c2)) (snd s)))))))"

definition dtw_tables :: "'f float_ops \<Rightarrow> 'f \<Rightarrow> nat \<Rightarrow> nat \<Rightarrow> (nat \<Rightarrow> nat \<Rightarrow> 'f option) \<Rightarrow> ('f list \<times> int list) option" where
  "dtw_tables F infy N M x =
     for_loop M (\<lambda>j. for_loop N (\<lambda>i. dtw_cell F x N (j + 1) (i + 1)))
       ((replicate ((N + 1) * (M + 1)) infy)[0 := fl_zero F], replicate ((N + 1) * (M + 1)) (- 1))"

text \<open>The borders of the trace: back along the audio on the left, along the tokens above.\<close>

definition trace_borders :: "nat \<Rightarrow> nat \<Rightarrow> int list \<Rightarrow> int list option" where
  "trace_borders N M trace =
     Option.bind (for_loop (M + 1) (\<lambda>i. t2_set (N + 1) 0 i 2) trace) (for_loop (N + 1) (\<lambda>i. t2_set (N + 1) i 0 1))"

text \<open>The rows of the path are filled from the last one backwards; row \<open>-1\<close> lies before the tensor.\<close>

definition bt_set :: "nat \<Rightarrow> int \<Rightarrow> nat \<Rightarrow> int \<Rightarrow> int list \<Rightarrow> int list option" where
  "bt_set rows row col v bt = (let p = row + int (col * rows) in if p < 0 then None else wr (nat p) v bt)"

function back_loop :: "nat \<Rightarrow> nat \<Rightarrow> int list \<Rightarrow> nat \<Rightarrow> nat \<Rightarrow> int \<Rightarrow> int list \<Rightarrow> (int \<times> int list) option" where
  "back_loop N rows trace i j row bt =
     (if i = 0 \<and> j = 0 then Some (row, bt)
      else Option.bind (bt_set rows row 0 (int i - 1) bt) (\<lambda>bt1.
           Option.bind (bt_set rows row 1 (int j - 1) bt1) (\<lambda>bt2.
             case t2_get (N + 1) trace i j of
               None \<Rightarrow> None
             | Some t \<Rightarrow>
                 (if t = 0 then (if i = 0 \<or> j = 0 then None else back_loop N rows trace (i - 1) (j - 1) (row - 1) bt2)
                  else if t = 1 then (if i = 0 then None else back_loop N rows trace (i - 1) j (row - 1) bt2)
                  else if t = 2 then (if j = 0 then None else back_loop N rows trace i (j - 1) (row - 1) bt2)
                  else None))))"
  by pat_completeness auto
termination
  by (relation "measure (\<lambda>(N, rows, trace, i, j, row, bt). i + j)") auto

declare back_loop.simps [simp del]

text \<open>The columns of the result: a token and a piece of audio each.\<close>

definition clip_path :: "nat \<Rightarrow> int \<Rightarrow> int list \<Rightarrow> (int \<times> int) list option" where
  "clip_path rows row bt =
     those (map (\<lambda>j. Option.bind (rd bt (nat (int j + row + 1))) (\<lambda>a.
         map_option (Pair a) (rd bt (nat (int j + row + 1) + rows)))) [0 ..< nat (int rows - row - 1)])"

definition dtw_and_backtrace :: "'f float_ops \<Rightarrow> 'f \<Rightarrow> nat \<Rightarrow> nat \<Rightarrow> (nat \<Rightarrow> nat \<Rightarrow> 'f option) \<Rightarrow> (int \<times> int) list option" where
  "dtw_and_backtrace F infy N M x =
     Option.bind (dtw_tables F infy N M x) (\<lambda>(cost, trace).
     Option.bind (trace_borders N M trace) (\<lambda>trace1.
       let rows = N + M - 1
       in Option.bind (back_loop N rows trace1 N M (int rows - 1) (replicate (2 * rows) 0)) (\<lambda>(row, bt). clip_path rows row bt)))"

section \<open>The tables\<close>

text \<open>The cost of a cell as a recursion.\<close>

fun dtw_cost :: "'f float_ops \<Rightarrow> 'f \<Rightarrow> (nat \<Rightarrow> nat \<Rightarrow> 'f) \<Rightarrow> nat \<Rightarrow> nat \<Rightarrow> 'f" where
  "dtw_cost F infy x 0 0 = fl_zero F"
| "dtw_cost F infy x 0 (Suc j) = infy"
| "dtw_cost F infy x (Suc i) 0 = infy"
| "dtw_cost F infy x (Suc i) (Suc j) =
     fl_add F (x i j) (fst (dtw_pick F (dtw_cost F infy x i j) (dtw_cost F infy x i (Suc j)) (dtw_cost F infy x (Suc i) j)))"

definition dtw_mark :: "'f float_ops \<Rightarrow> 'f \<Rightarrow> (nat \<Rightarrow> nat \<Rightarrow> 'f) \<Rightarrow> nat \<Rightarrow> nat \<Rightarrow> int" where
  "dtw_mark F infy x i j = snd (dtw_pick F (dtw_cost F infy x (i - 1) (j - 1)) (dtw_cost F infy x (i - 1) j) (dtw_cost F infy x i (j - 1)))"

lemma t2_inject: "i \<le> N \<Longrightarrow> i' \<le> N \<Longrightarrow> i + j * Suc N = i' + j' * Suc N \<longleftrightarrow> i = i' \<and> j = j'"
  by (metis add_diff_cancel_left' add.commute div_mult_self3 div_less add.right_neutral le_imp_less_Suc nat.distinct(1))

lemma t2_bound: "i \<le> N \<Longrightarrow> j \<le> M \<Longrightarrow> i + j * Suc N < Suc N * Suc M"
proof -
  assume "i \<le> N" "j \<le> M"
  then have "i + j * Suc N < Suc N + j * Suc N" by simp
  also have "\<dots> = Suc j * Suc N" by simp
  also have "\<dots> \<le> Suc M * Suc N" using \<open>j \<le> M\<close> by (intro mult_le_mono1) simp
  finally show ?thesis by (simp add: mult.commute)
qed

text \<open>The cells written so far: all rows before \<open>j\<close>, and row \<open>j\<close> up to \<open>i\<close>.\<close>

definition cells_done :: "nat \<Rightarrow> nat \<Rightarrow> nat \<Rightarrow> nat \<Rightarrow> bool" where
  "cells_done i j a b \<longleftrightarrow> 1 \<le> a \<and> 1 \<le> b \<and> (b < j \<or> b = j \<and> a \<le> i)"

definition tables_inv :: "'f float_ops \<Rightarrow> 'f \<Rightarrow> nat \<Rightarrow> nat \<Rightarrow> (nat \<Rightarrow> nat \<Rightarrow> 'f) \<Rightarrow> nat \<Rightarrow> nat \<Rightarrow> 'f list \<times> int list \<Rightarrow> bool" where
  "tables_inv F infy N M x i j s \<longleftrightarrow> length (fst s) = Suc N * Suc M \<and> length (snd s) = Suc N * Suc M \<and>
     (\<forall>a \<le> N. \<forall>b \<le> M. a = 0 \<or> b = 0 \<or> cells_done i j a b \<longrightarrow> fst s ! (a + b * Suc N) = dtw_cost F infy x a b) \<and>
     (\<forall>a \<le> N. \<forall>b \<le> M. cells_done i j a b \<longrightarrow> snd s ! (a + b * Suc N) = dtw_mark F infy x a b)"

lemma dtw_cell_inv:
  assumes "\<forall>i < N. \<forall>j < M. xs i j = Some (x i j)" "i < N" "j < M" "tables_inv F infy N M x i (Suc j) s"
  shows "\<exists>s'. dtw_cell F xs N (j + 1) (i + 1) s = Some s' \<and> tables_inv F infy N M x (Suc i) (Suc j) s'"
proof -
  obtain cost trace where s: "s = (cost, trace)" by (cases s)
  note inv = assms(4) [unfolded s tables_inv_def fst_conv snd_conv]
  have get: "t2_get (N + 1) cost a b = Some (dtw_cost F infy x a b)" if "a \<le> N" "b \<le> M" "a = 0 \<or> b = 0 \<or> cells_done i (Suc j) a b" for a b
  proof -
    have "cost ! (a + b * Suc N) = dtw_cost F infy x a b" using inv that by blast
    moreover have "a + b * Suc N < length cost" using inv t2_bound [OF that(1,2)] by simp
    ultimately show ?thesis by (simp add: t2_get_def)
  qed
  have c: "t2_get (N + 1) cost i j = Some (dtw_cost F infy x i j)" "t2_get (N + 1) cost i (Suc j) = Some (dtw_cost F infy x i (Suc j))"
      "t2_get (N + 1) cost (Suc i) j = Some (dtw_cost F infy x (Suc i) j)"
    by (rule get; use assms(2,3) in \<open>auto simp: cells_done_def\<close>)+
  have cell: "Suc i + Suc j * Suc N < Suc N * Suc M" using assms(2,3) by (intro t2_bound) auto
  define cost' where "cost' = cost[Suc i + Suc j * Suc N := dtw_cost F infy x (Suc i) (Suc j)]"
  define trace' where "trace' = trace[Suc i + Suc j * Suc N := dtw_mark F infy x (Suc i) (Suc j)]"
  have "dtw_cell F xs N (j + 1) (i + 1) s = Some (cost', trace')"
    using c cell inv assms(1) [rule_format, OF assms(2,3)] by (simp add: dtw_cell_def s t2_set_def cost'_def trace'_def dtw_mark_def)
  moreover have "tables_inv F infy N M x (Suc i) (Suc j) (cost', trace')"
  proof -
    have upd: "(ys[Suc i + Suc j * Suc N := y]) ! (a + b * Suc N) = (if a = Suc i \<and> b = Suc j then y else ys ! (a + b * Suc N))"
      if "length ys = Suc N * Suc M" "a \<le> N" for ys :: "'b list" and y a b
    proof -
      have "Suc i + Suc j * Suc N = a + b * Suc N \<longleftrightarrow> Suc i = a \<and> Suc j = b" using assms(2) that(2) by (intro t2_inject) auto
      then show ?thesis using cell that(1) by (simp only: nth_list_update) auto
    qed
    have more: "cells_done (Suc i) (Suc j) a b \<longleftrightarrow> cells_done i (Suc j) a b \<or> a = Suc i \<and> b = Suc j" for a b
      by (auto simp: cells_done_def)
    have l: "length cost = Suc N * Suc M" "length trace = Suc N * Suc M" using inv by auto
    have "cost' ! (a + b * Suc N) = dtw_cost F infy x a b"
      if ab: "a \<le> N" "b \<le> M" "a = 0 \<or> b = 0 \<or> cells_done (Suc i) (Suc j) a b" for a b
    proof (cases "a = Suc i \<and> b = Suc j")
      case True
      then show ?thesis unfolding cost'_def upd [OF l(1) ab(1)] by simp
    next
      case False
      then have "cost ! (a + b * Suc N) = dtw_cost F infy x a b" using inv ab more [of a b] by blast
      then show ?thesis unfolding cost'_def upd [OF l(1) ab(1)] using False by (simp only: if_False)
    qed
    moreover have "trace' ! (a + b * Suc N) = dtw_mark F infy x a b"
      if ab: "a \<le> N" "b \<le> M" "cells_done (Suc i) (Suc j) a b" for a b
    proof (cases "a = Suc i \<and> b = Suc j")
      case True
      then show ?thesis unfolding trace'_def upd [OF l(2) ab(1)] by simp
    next
      case False
      then have "trace ! (a + b * Suc N) = dtw_mark F infy x a b" using inv ab more [of a b] by blast
      then show ?thesis unfolding trace'_def upd [OF l(2) ab(1)] using False by (simp only: if_False)
    qed
    ultimately show ?thesis using l unfolding tables_inv_def fst_conv snd_conv cost'_def trace'_def length_list_update by blast
  qed
  ultimately show ?thesis by blast
qed


lemma dtw_tables_values:
  assumes "\<forall>i < N. \<forall>j < M. xs i j = Some (x i j)"
  shows "\<exists>s. dtw_tables F infy N M xs = Some s \<and> tables_inv F infy N M x 0 (Suc M) s"
proof -
  have eq: "tables_inv F infy N M x N (Suc j) s \<longleftrightarrow> tables_inv F infy N M x 0 (Suc (Suc j)) s" for j s
  proof -
    have "a \<le> N \<Longrightarrow> cells_done N (Suc j) a b \<longleftrightarrow> cells_done 0 (Suc (Suc j)) a b" for a b by (auto simp: cells_done_def)
    then show ?thesis unfolding tables_inv_def by blast
  qed
  define start where "start = ((replicate (Suc N * Suc M) infy)[0 := fl_zero F], replicate (Suc N * Suc M) (- 1 :: int))"
  have "dtw_cost F infy x a b = (if a = 0 \<and> b = 0 then fl_zero F else infy)" if "a = 0 \<or> b = 0" for a b
    using that by (cases a; cases b) auto
  moreover have "fst start ! (a + b * Suc N) = (if a = 0 \<and> b = 0 then fl_zero F else infy)" if "a \<le> N" "b \<le> M" for a b
    using t2_bound [OF that] by (auto simp: start_def nth_list_update)
  ultimately have "tables_inv F infy N M x 0 (Suc 0) start"
    unfolding tables_inv_def by (auto simp: start_def cells_done_def)
  then have "\<exists>s. for_loop M (\<lambda>j. for_loop N (\<lambda>i. dtw_cell F xs N (j + 1) (i + 1))) start = Some s \<and> tables_inv F infy N M x 0 (Suc M) s"
  proof (rule for_loop_inv [where I = "\<lambda>j. tables_inv F infy N M x 0 (Suc j)"])
    fix j s
    assume j: "j < M" and inv: "tables_inv F infy N M x 0 (Suc j) s"
    from inv have "\<exists>s'. for_loop N (\<lambda>i. dtw_cell F xs N (j + 1) (i + 1)) s = Some s' \<and> tables_inv F infy N M x N (Suc j) s'"
    proof (rule for_loop_inv [where I = "\<lambda>i. tables_inv F infy N M x i (Suc j)"])
      fix i s
      assume "i < N" "tables_inv F infy N M x i (Suc j) s"
      then show "\<exists>s'. dtw_cell F xs N (j + 1) (i + 1) s = Some s' \<and> tables_inv F infy N M x (Suc i) (Suc j) s'"
        using dtw_cell_inv [OF assms _ j] by blast
    qed
    then show "\<exists>s'. for_loop N (\<lambda>i. dtw_cell F xs N (j + 1) (i + 1)) s = Some s' \<and> tables_inv F infy N M x 0 (Suc (Suc j)) s'"
      by (simp add: eq)
  qed
  then show ?thesis by (simp add: dtw_tables_def start_def)
qed

text \<open>The trace with its borders.\<close>

definition full_mark :: "'f float_ops \<Rightarrow> 'f \<Rightarrow> (nat \<Rightarrow> nat \<Rightarrow> 'f) \<Rightarrow> nat \<Rightarrow> nat \<Rightarrow> int" where
  "full_mark F infy x i j = (if j = 0 then 1 else if i = 0 then 2 else dtw_mark F infy x i j)"

lemma trace_borders_values:
  assumes "length trace = Suc N * Suc M"
    and "\<And>a b. a \<le> N \<Longrightarrow> b \<le> M \<Longrightarrow> 1 \<le> a \<Longrightarrow> 1 \<le> b \<Longrightarrow> trace ! (a + b * Suc N) = dtw_mark F infy x a b"
  shows "\<exists>t. trace_borders N M trace = Some t \<and>
    (\<forall>a \<le> N. \<forall>b \<le> M. t2_get (N + 1) t a b = Some (full_mark F infy x a b))"
proof -
  have upd: "(ys[c + d * Suc N := y]) ! (a + b * Suc N) = (if a = c \<and> b = d then y else ys ! (a + b * Suc N))"
    if "length ys = Suc N * Suc M" "a \<le> N" "c \<le> N" "d \<le> M" for ys :: "int list" and y a b c d
    using t2_bound [OF that(3,4)] t2_inject [OF that(3,2), of d b] that(1) by (simp only: nth_list_update) auto
  define I where "I k t \<longleftrightarrow> length t = Suc N * Suc M \<and>
      (\<forall>a \<le> N. \<forall>b \<le> M. t ! (a + b * Suc N) = (if a = 0 \<and> b < k then 2 else trace ! (a + b * Suc N)))" for k t
  define J where "J k t \<longleftrightarrow> length t = Suc N * Suc M \<and>
      (\<forall>a \<le> N. \<forall>b \<le> M. t ! (a + b * Suc N) = (if b = 0 \<and> a < k then 1 else if a = 0 then 2 else trace ! (a + b * Suc N)))" for k t
  have "\<exists>t. for_loop (M + 1) (\<lambda>i. t2_set (N + 1) 0 i 2) trace = Some t \<and> I (M + 1) t"
  proof (rule for_loop_inv)
    show "I 0 trace" using assms(1) by (simp add: I_def)
  next
    fix k t
    assume k: "k < M + 1" and I: "I k t"
    then have "I (Suc k) (t[0 + k * Suc N := 2])" unfolding I_def by (auto simp only: upd length_list_update) auto
    then show "\<exists>s'. t2_set (N + 1) 0 k 2 t = Some s' \<and> I (Suc k) s'"
      using I t2_bound [of 0 N k M] k by (simp add: t2_set_def I_def)
  qed
  then obtain t1 where t1: "for_loop (M + 1) (\<lambda>i. t2_set (N + 1) 0 i 2) trace = Some t1" "I (M + 1) t1" by blast
  have "\<exists>t. for_loop (N + 1) (\<lambda>i. t2_set (N + 1) i 0 1) t1 = Some t \<and> J (N + 1) t"
  proof (rule for_loop_inv)
    show "J 0 t1" using t1(2) by (simp add: J_def I_def)
  next
    fix k t
    assume k: "k < N + 1" and J: "J k t"
    then have "J (Suc k) (t[k + 0 * Suc N := 1])" unfolding J_def by (auto simp only: upd length_list_update) auto
    then show "\<exists>s'. t2_set (N + 1) k 0 1 t = Some s' \<and> J (Suc k) s'"
      using J t2_bound [of k N 0 M] k by (simp add: t2_set_def J_def)
  qed
  then obtain t where t: "for_loop (N + 1) (\<lambda>i. t2_set (N + 1) i 0 1) t1 = Some t" "J (N + 1) t" by blast
  have "t2_get (N + 1) t a b = Some (full_mark F infy x a b)" if "a \<le> N" "b \<le> M" for a b
  proof -
    have "t ! (a + b * Suc N) = full_mark F infy x a b" using t(2) that assms(2) [OF that] by (auto simp: J_def full_mark_def)
    then show ?thesis using t(2) t2_bound [OF that] by (simp add: t2_get_def J_def)
  qed
  then show ?thesis using t1(1) t(1) by (auto simp: trace_borders_def)
qed


section \<open>The path\<close>

function warp :: "(nat \<Rightarrow> nat \<Rightarrow> int) \<Rightarrow> nat \<Rightarrow> nat \<Rightarrow> (nat \<times> nat) list" where
  "warp m i j =
     (if i = 0 \<or> j = 0 then []
      else (if m i j = 0 then warp m (i - 1) (j - 1) else if m i j = 1 then warp m (i - 1) j else warp m i (j - 1)) @ [(i - 1, j - 1)])"
  by pat_completeness auto
termination
  by (relation "measure (\<lambda>(m, i, j). i + j)") auto

declare warp.simps [simp del]

text \<open>Marks that lead to the first cell without leaving the inside of the table.\<close>

definition inner_marks :: "(nat \<Rightarrow> nat \<Rightarrow> int) \<Rightarrow> nat \<Rightarrow> nat \<Rightarrow> bool" where
  "inner_marks m N M \<longleftrightarrow> m 1 1 = 0 \<and> (\<forall>i \<le> N. 2 \<le> i \<longrightarrow> m i 1 = 1) \<and> (\<forall>j \<le> M. 2 \<le> j \<longrightarrow> m 1 j = 2) \<and>
     (\<forall>i j. m i j \<in> {0, 1, 2})"

definition finite_costs :: "'f float_ops \<Rightarrow> 'f \<Rightarrow> (nat \<Rightarrow> nat \<Rightarrow> 'f) \<Rightarrow> nat \<Rightarrow> nat \<Rightarrow> bool" where
  "finite_costs F infy x N M \<longleftrightarrow> fl_lt F (fl_zero F) infy \<and>
     (\<forall>i j. 1 \<le> i \<and> i \<le> N \<and> 1 \<le> j \<and> j \<le> M \<longrightarrow> fl_lt F (dtw_cost F infy x i j) infy)"

lemma finite_costs_marks:
  assumes "float_laws F" "finite_costs F infy x N M" "1 \<le> N" "1 \<le> M"
  shows "inner_marks (dtw_mark F infy x) N M"
proof -
  have cost: "dtw_cost F infy x 0 b = (if b = 0 then fl_zero F else infy)" "dtw_cost F infy x a 0 = (if a = 0 then fl_zero F else infy)" for a b
    by (cases b, simp, simp) (cases a, simp, simp)
  have less: "\<not> fl_lt F infy infy" using float_irrefl [OF assms(1)] .
  have asym: "\<not> fl_lt F infy y" if "fl_lt F y infy" for y using that float_trans [OF assms(1)] less by blast
  have "dtw_mark F infy x 1 1 = 0"
    using assms(2) by (simp add: dtw_mark_def dtw_pick_def cost finite_costs_def)
  moreover have "dtw_mark F infy x i 1 = 1" if "i \<le> N" "2 \<le> i" for i
  proof -
    have "fl_lt F (dtw_cost F infy x (i - 1) 1) infy"
    proof -
      have "1 \<le> i - 1" "i - 1 \<le> N" using that by linarith+
      then show ?thesis using assms(2,4) unfolding finite_costs_def by blast
    qed
    then show ?thesis using that less asym by (simp add: dtw_mark_def dtw_pick_def cost)
  qed
  moreover have "dtw_mark F infy x 1 j = 2" if "j \<le> M" "2 \<le> j" for j
    using that less by (simp add: dtw_mark_def dtw_pick_def cost)
  ultimately show ?thesis by (simp add: inner_marks_def dtw_mark_def dtw_pick_def)
qed

text \<open>One step back from a cell other than the first.\<close>

lemma inner_marks_step:
  assumes "inner_marks m N M" "1 \<le> i" "i \<le> N" "1 \<le> j" "j \<le> M" "\<not> (i = 1 \<and> j = 1)"
  obtains i' j' where "warp m i j = warp m i' j' @ [(i - 1, j - 1)]" "1 \<le> i'" "i' \<le> N" "1 \<le> j'" "j' \<le> M" "i' + j' < i + j"
    "(m i j = 0 \<and> i' = i - 1 \<and> j' = j - 1) \<or> (m i j = 1 \<and> i' = i - 1 \<and> j' = j) \<or> (m i j = 2 \<and> i' = i \<and> j' = j - 1)"
proof -
  have w: "warp m i j = (if m i j = 0 then warp m (i - 1) (j - 1) else if m i j = 1 then warp m (i - 1) j else warp m i (j - 1)) @ [(i - 1, j - 1)]"
    using assms(2,4) by (subst warp.simps) auto
  have edge: "i = 1 \<Longrightarrow> m i j = 2" "j = 1 \<Longrightarrow> m i j = 1" using assms by (auto simp: inner_marks_def)
  have "m i j \<in> {0, 1, 2}" using assms(1) by (simp add: inner_marks_def)
  then consider "m i j = 0" "i \<noteq> 1" "j \<noteq> 1" | "m i j = 1" "i \<noteq> 1" | "m i j = 2" "j \<noteq> 1" using edge by fastforce
  then show thesis
  proof cases
    case 1
    then show ?thesis using that [of "i - 1" "j - 1"] w assms by auto
  next
    case 2
    then show ?thesis using that [of "i - 1" j] w assms by auto
  next
    case 3
    then show ?thesis using that [of i "j - 1"] w assms by auto
  qed
qed

definition warp_step :: "nat \<times> nat \<Rightarrow> nat \<times> nat \<Rightarrow> bool" where
  "warp_step p q \<longleftrightarrow> q = (fst p + 1, snd p + 1) \<or> q = (fst p + 1, snd p) \<or> q = (fst p, snd p + 1)"

lemma warp_11: "inner_marks m N M \<Longrightarrow> warp m 1 1 = [(0, 0)]"
  by (subst warp.simps) (simp add: inner_marks_def warp.simps [of m 0 0])

lemma warp_path:
  "inner_marks m N M \<Longrightarrow> 1 \<le> i \<Longrightarrow> i \<le> N \<Longrightarrow> 1 \<le> j \<Longrightarrow> j \<le> M \<Longrightarrow>
     warp m i j \<noteq> [] \<and> hd (warp m i j) = (0, 0) \<and> last (warp m i j) = (i - 1, j - 1) \<and>
     successively warp_step (warp m i j) \<and> length (warp m i j) \<le> i + j - 1"
proof (induction "i + j" arbitrary: i j rule: less_induct)
  case less
  show ?case
  proof (cases "i = 1 \<and> j = 1")
    case True
    then show ?thesis using warp_11 [OF less.prems(1)] by simp
  next
    case False
    obtain i' j' where s: "warp m i j = warp m i' j' @ [(i - 1, j - 1)]" "1 \<le> i'" "i' \<le> N" "1 \<le> j'" "j' \<le> M" "i' + j' < i + j"
      "(m i j = 0 \<and> i' = i - 1 \<and> j' = j - 1) \<or> (m i j = 1 \<and> i' = i - 1 \<and> j' = j) \<or> (m i j = 2 \<and> i' = i \<and> j' = j - 1)"
      using inner_marks_step [OF less.prems False] .
    note IH = less.hyps [OF s(6) less.prems(1) s(2-5)]
    have "warp_step (i' - 1, j' - 1) (i - 1, j - 1)" using s(2,4,7) by (auto simp: warp_step_def)
    moreover have "length (warp m i' j') + 1 \<le> i + j - 1" using IH s(2,4,6) by linarith
    ultimately show ?thesis using IH by (simp add: s(1) successively_append_iff)
  qed
qed

text \<open>The rows that the loop has written, from \<open>row + 1\<close> on.\<close>

definition rows_hold :: "nat \<Rightarrow> int list \<Rightarrow> nat \<Rightarrow> (nat \<times> nat) list \<Rightarrow> bool" where
  "rows_hold rows bt start p \<longleftrightarrow>
     (\<forall>k < length p. bt ! (start + k) = int (fst (p ! k)) \<and> bt ! (start + k + rows) = int (snd (p ! k)))"

lemma rows_hold_snoc:
  "rows_hold rows bt start p \<Longrightarrow> bt ! (start + length p) = int (fst q) \<Longrightarrow> bt ! (start + length p + rows) = int (snd q) \<Longrightarrow>
     rows_hold rows bt start (p @ [q])"
  by (auto simp: rows_hold_def nth_append less_Suc_eq)

lemma back_loop_path:
  assumes "inner_marks m N M" "\<forall>a \<le> N. \<forall>b \<le> M. 1 \<le> a \<and> 1 \<le> b \<longrightarrow> t2_get (N + 1) trace a b = Some (m a b)"
  shows "1 \<le> i \<Longrightarrow> i \<le> N \<Longrightarrow> 1 \<le> j \<Longrightarrow> j \<le> M \<Longrightarrow> i + j \<le> r + 2 \<Longrightarrow> r < rows \<Longrightarrow> length bt = 2 * rows \<Longrightarrow>
     \<exists>bt'. back_loop N rows trace i j (int r) bt = Some (int r - int (length (warp m i j)), bt') \<and> length bt' = 2 * rows \<and>
       rows_hold rows bt' (r + 1 - length (warp m i j)) (warp m i j) \<and>
       (\<forall>q. r < q \<and> q < rows \<longrightarrow> bt' ! q = bt ! q \<and> bt' ! (q + rows) = bt ! (q + rows))"
proof (induction "i + j" arbitrary: i j r bt rule: less_induct)
  case less
  let ?bt = "bt[r := int (i - 1), r + rows := int (j - 1)]"
  have ij: "int i - 1 = int (i - 1)" "int j - 1 = int (j - 1)" using less.prems by simp_all
  have writes: "bt_set rows (int r) 0 (int i - 1) bt = Some (bt[r := int (i - 1)])"
      "bt_set rows (int r) 1 (int j - 1) (bt[r := int (i - 1)]) = Some ?bt"
    using less.prems unfolding ij by (simp_all add: bt_set_def Let_def nat_add_distrib)
  have get: "t2_get (N + 1) trace i j = Some (m i j)" using assms(2) less.prems by simp
  have new: "?bt ! r = int (i - 1)" "?bt ! (r + rows) = int (j - 1)" using less.prems by (simp_all add: nth_list_update)
  have old: "?bt ! q = bt ! q \<and> ?bt ! (q + rows) = bt ! (q + rows)" if "r < q" "q < rows" for q
    using that less.prems by simp
  show ?case
  proof (cases "i = 1 \<and> j = 1")
    case True
    have "m 1 1 = 0" using assms(1) by (simp add: inner_marks_def)
    then have "back_loop N rows trace i j (int r) bt = Some (int r - 1, ?bt)"
      using True writes get by (subst back_loop.simps) (simp add: back_loop.simps [of N rows trace 0 0])
    moreover have "rows_hold rows ?bt r [(0, 0)]" using new True by (simp add: rows_hold_def)
    moreover have "warp m i j = [(0, 0)]" using True warp_11 [OF assms(1)] by simp
    ultimately show ?thesis using old less.prems by auto
  next
    case False
    obtain i' j' where s: "warp m i j = warp m i' j' @ [(i - 1, j - 1)]" "1 \<le> i'" "i' \<le> N" "1 \<le> j'" "j' \<le> M" "i' + j' < i + j"
      "(m i j = 0 \<and> i' = i - 1 \<and> j' = j - 1) \<or> (m i j = 1 \<and> i' = i - 1 \<and> j' = j) \<or> (m i j = 2 \<and> i' = i \<and> j' = j - 1)"
      using inner_marks_step [OF assms(1) less.prems(1-4) False] .
    have r: "1 \<le> r" "int r - 1 = int (r - 1)" "i' + j' \<le> r - 1 + 2" "r - 1 < rows" using s less.prems by auto
    obtain bt' where bt': "back_loop N rows trace i' j' (int (r - 1)) ?bt = Some (int (r - 1) - int (length (warp m i' j')), bt')"
        "length bt' = 2 * rows" "rows_hold rows bt' (r - 1 + 1 - length (warp m i' j')) (warp m i' j')"
        "\<And>q. r - 1 < q \<Longrightarrow> q < rows \<Longrightarrow> bt' ! q = ?bt ! q \<and> bt' ! (q + rows) = ?bt ! (q + rows)"
      using less.hyps [OF s(6) s(2-5) r(3,4), of ?bt] less.prems(7) by auto
    have "back_loop N rows trace i j (int r) bt = back_loop N rows trace i' j' (int r - 1) ?bt"
      using s(7) s(2,4) writes get less.prems(1,3) by (subst back_loop.simps) auto
    then have run: "back_loop N rows trace i j (int r) bt = Some (int r - int (length (warp m i j)), bt')"
      unfolding r(2) bt'(1) using r(1) by (simp add: s(1) of_nat_diff)
    have len: "length (warp m i' j') \<le> r"
      using warp_path [OF assms(1) s(2-5)] s(6) less.prems(5) by linarith
    have "rows_hold rows bt' (r + 1 - length (warp m i j)) (warp m i j)"
      unfolding s(1) using rows_hold_snoc [OF bt'(3)] bt'(4) [of r] new len r(1) less.prems(6) by simp
    moreover have "bt' ! q = bt ! q \<and> bt' ! (q + rows) = bt ! (q + rows)" if "r < q" "q < rows" for q
      using bt'(4) [of q] old [OF that] that by simp
    ultimately show ?thesis using run bt'(2) by blast
  qed
qed


lemma clip_path_rows:
  assumes "rows_hold rows bt start p" "start + length p = rows" "length bt = 2 * rows"
  shows "clip_path rows (int start - 1) bt = Some (map (\<lambda>(a, b). (int a, int b)) p)"
proof -
  have n: "nat (int rows - (int start - 1) - 1) = length p" using assms(2) by simp
  have cell: "Option.bind (rd bt (nat (int j + (int start - 1) + 1))) (\<lambda>a. map_option (Pair a) (rd bt (nat (int j + (int start - 1) + 1) + rows))) =
      Some (int (fst (p ! j)), int (snd (p ! j)))" if "j < length p" for j
  proof -
    have "nat (int j + (int start - 1) + 1) = start + j" by simp
    then show ?thesis using assms that by (simp add: rows_hold_def)
  qed
  have "clip_path rows (int start - 1) bt = those (map (\<lambda>j. Some (int (fst (p ! j)), int (snd (p ! j)))) [0 ..< length p])"
    unfolding clip_path_def n by (intro arg_cong [where f = those] map_cong refl cell) simp
  also have "\<dots> = Some (map (\<lambda>j. (int (fst (p ! j)), int (snd (p ! j)))) [0 ..< length p])" by (subst those_all_Some) simp_all
  also have "map (\<lambda>j. (int (fst (p ! j)), int (snd (p ! j)))) [0 ..< length p] = map (\<lambda>(a, b). (int a, int b)) p"
    by (intro nth_equalityI) (auto split: prod.splits)
  finally show ?thesis .
qed


text \<open>Rational numbers with plus infinity, for concrete tables.\<close>

definition cost_ops :: "rat option float_ops" where
  "cost_ops = rat_ops\<lparr>fl_lt := (\<lambda>x y. case (x, y) of (None, _) \<Rightarrow> False | (Some _, None) \<Rightarrow> True | (Some a, Some b) \<Rightarrow> a < b),
     fl_le := (\<lambda>x y. case (x, y) of (_, None) \<Rightarrow> True | (None, Some _) \<Rightarrow> False | (Some a, Some b) \<Rightarrow> a \<le> b)\<rparr>"

text \<open>
  When the diagonal neighbour and the one above cost the same and the one to the left costs more, the
  choice falls on the dearer one: here the path found costs 5, though the diagonal costs nothing.
\<close>

theorem dtw_tie_not_minimal:
  "dtw_and_backtrace cost_ops None 2 2 (\<lambda>i j. Some (if i = 1 \<and> j = 0 then Some 5 else Some 0)) = Some [(0, 0), (1, 0), (1, 1)] \<and>
   dtw_cost cost_ops None (\<lambda>i j. if i = 1 \<and> j = 0 then Some 5 else Some 0) 2 2 = Some 5"
  by code_simp



section \<open>Placing the times\<close>

text \<open>
  The position of a token: its segment, and its number there.  After the last token of a segment the next
  segment is entered, which is undefined if there is none.
\<close>

type_synonym 'f token_lists = "'f token_data list list"

definition next_position :: "'f token_lists \<Rightarrow> nat \<times> nat \<Rightarrow> (nat \<times> nat) option" where
  "next_position segs pos =
     (let (s, t) = pos
      in if t + 1 = length (segs ! s) then (if s + 1 < length segs then Some (s + 1, 0) else None) else Some (s, t + 1))"


text \<open>The special tokens are skipped; reading a token that is not there is undefined.\<close>

definition token_at :: "'f token_lists \<Rightarrow> nat \<times> nat \<Rightarrow> 'f token_data option" where
  "token_at segs pos = Option.bind (rd segs (fst pos)) (\<lambda>ts. rd ts (snd pos))"

function skip_special :: "int \<Rightarrow> 'f token_lists \<Rightarrow> nat \<times> nat \<Rightarrow> (nat \<times> nat) option" where
  "skip_special eot segs pos =
     (case token_at segs pos of
        None \<Rightarrow> None
      | Some tok \<Rightarrow>
          (if td_id tok < eot then Some pos
           else case next_position segs pos of None \<Rightarrow> None | Some pos1 \<Rightarrow> skip_special eot segs pos1))"
  by pat_completeness auto
termination
proof (relation "measures [\<lambda>(eot, segs, pos). length segs - fst pos, \<lambda>(eot, segs, pos). length (segs ! fst pos) - snd pos]")
  fix eot and segs :: "'f token_lists" and pos tok pos1
  assume "token_at segs pos = Some tok" "next_position segs pos = Some pos1"
  then show "((eot, segs, pos1), (eot, segs, pos)) \<in> measures [\<lambda>(eot, segs, pos). length segs - fst pos, \<lambda>(eot, segs, pos). length (segs ! fst pos) - snd pos]"
    by (auto simp: token_at_def next_position_def rd_def Option.bind_eq_Some_conv split: if_splits prod.splits)
qed simp

declare skip_special.simps [simp del]

definition set_dtw :: "int \<Rightarrow> nat \<times> nat \<Rightarrow> 'f token_lists \<Rightarrow> 'f token_lists" where
  "set_dtw time pos segs =
     segs[fst pos := (segs ! fst pos)[snd pos := (segs ! fst pos ! snd pos)\<lparr>td_t_dtw := time\<rparr>]]"

text \<open>
  The alignment in order: the time of the first piece of audio of each token, in steps of 20 ms from \<open>seek\<close>.
\<close>

fun place_times :: "int \<Rightarrow> int \<Rightarrow> (int \<times> int) list \<Rightarrow> int \<Rightarrow> nat \<times> nat \<Rightarrow> 'f token_lists \<Rightarrow> 'f token_lists option" where
  "place_times eot seek [] last_v pos segs = Some segs"
| "place_times eot seek ((v, time_index) # rest) last_v pos segs =
     (if v \<noteq> last_v
      then (case skip_special eot segs pos of
              None \<Rightarrow> None
            | Some pos1 \<Rightarrow>
                (let segs1 = set_dtw (time_index * 2 + seek) pos1 segs
                 in case next_position segs1 pos1 of
                      None \<Rightarrow> None
                    | Some pos2 \<Rightarrow> place_times eot seek rest v pos2 segs1))
      else place_times eot seek rest last_v pos segs)"


section \<open>Placing on the tokens in sequence\<close>

text \<open>The pieces of audio at which the path reaches a new token.\<close>

fun first_times :: "int \<Rightarrow> (int \<times> int) list \<Rightarrow> int list" where
  "first_times last_v [] = []"
| "first_times last_v ((v, time_index) # rest) = (if v \<noteq> last_v then time_index # first_times v rest else first_times last_v rest)"

definition text_index :: "int \<Rightarrow> 'f token_data list \<Rightarrow> nat \<Rightarrow> nat" where
  "text_index eot toks i = i + length (takeWhile (\<lambda>t. \<not> td_id t < eot) (drop i toks))"

fun place_flat :: "int \<Rightarrow> int list \<Rightarrow> nat \<Rightarrow> 'f token_data list \<Rightarrow> 'f token_data list option" where
  "place_flat eot [] i toks = Some toks"
| "place_flat eot (t # ts) i toks =
     (let i1 = text_index eot toks i
      in if i1 + 1 < length toks then place_flat eot ts (i1 + 1) (toks[i1 := (toks ! i1)\<lparr>td_t_dtw := t\<rparr>]) else None)"

definition valid_pos :: "'f token_lists \<Rightarrow> nat \<times> nat \<Rightarrow> bool" where
  "valid_pos segs pos \<longleftrightarrow> fst pos < length segs \<and> snd pos < length (segs ! fst pos)"

definition flat_pos :: "'f token_lists \<Rightarrow> nat \<times> nat \<Rightarrow> nat" where
  "flat_pos segs pos = length (concat (take (fst pos) segs)) + snd pos"

lemma concat_split: "s < length segs \<Longrightarrow> concat segs = concat (take s segs) @ segs ! s @ concat (drop (Suc s) segs)"
  by (metis concat.simps(2) concat_append id_take_nth_drop)

lemma flat_pos_less: "valid_pos segs pos \<Longrightarrow> flat_pos segs pos < length (concat segs)"
  using concat_split [of "fst pos" segs] by (auto simp: valid_pos_def flat_pos_def)

lemma token_at_flat: "valid_pos segs pos \<Longrightarrow> token_at segs pos = Some (concat segs ! flat_pos segs pos)"
  using concat_split [of "fst pos" segs] by (auto simp: valid_pos_def flat_pos_def token_at_def nth_append)

lemma next_position_flat:
  assumes "valid_pos segs pos" "[] \<notin> set segs"
  shows "if flat_pos segs pos + 1 < length (concat segs)
    then \<exists>pos'. next_position segs pos = Some pos' \<and> valid_pos segs pos' \<and> flat_pos segs pos' = flat_pos segs pos + 1
    else next_position segs pos = None"
proof -
  obtain s t where pos: "pos = (s, t)" by (cases pos)
  have v: "s < length segs" "t < length (segs ! s)" using assms(1) by (simp_all add: valid_pos_def pos)
  have len: "length (concat segs) = length (concat (take s segs)) + length (segs ! s) + length (concat (drop (Suc s) segs))"
    by (subst concat_split [OF v(1)]) simp
  show ?thesis
  proof (cases "t + 1 = length (segs ! s)")
    case same: False
    then show ?thesis using v len by (auto simp: pos next_position_def valid_pos_def flat_pos_def)
  next
    case last: True
    show ?thesis
    proof (cases "s + 1 < length segs")
      case True
      then have "segs ! (s + 1) \<noteq> []" using assms(2) by (metis nth_mem)
      moreover have "concat (drop (Suc s) segs) = segs ! (s + 1) @ concat (drop (s + 2) segs)"
        using True by (metis Cons_nth_drop_Suc Suc_eq_plus1 add_2_eq_Suc' concat.simps(2))
      moreover have "concat (take (s + 1) segs) = concat (take s segs) @ segs ! s"
        using v(1) by (simp add: take_Suc_conv_app_nth)
      ultimately show ?thesis using last True len by (auto simp: pos next_position_def valid_pos_def flat_pos_def)
    next
      case False
      then show ?thesis using last len v by (simp add: pos next_position_def flat_pos_def)
    qed
  qed
qed

lemma set_dtw_flat:
  assumes "valid_pos segs pos"
  shows "concat (set_dtw time pos segs) =
    (concat segs)[flat_pos segs pos := (concat segs ! flat_pos segs pos)\<lparr>td_t_dtw := time\<rparr>]"
    "map length (set_dtw time pos segs) = map length segs"
proof -
  obtain s t where pos: "pos = (s, t)" by (cases pos)
  have v: "s < length segs" "t < length (segs ! s)" using assms by (simp_all add: valid_pos_def pos)
  have "concat (set_dtw time pos segs) = concat (take s segs) @ (segs ! s)[t := (segs ! s ! t)\<lparr>td_t_dtw := time\<rparr>] @ concat (drop (Suc s) segs)"
    using v(1) by (subst concat_split [of s]) (simp_all add: set_dtw_def pos)
  also have "\<dots> = (concat segs)[flat_pos segs pos := (concat segs ! flat_pos segs pos)\<lparr>td_t_dtw := time\<rparr>]"
    unfolding concat_split [OF v(1)] using v(2) by (simp add: flat_pos_def pos list_update_append nth_append)
  finally show "concat (set_dtw time pos segs) = (concat segs)[flat_pos segs pos := (concat segs ! flat_pos segs pos)\<lparr>td_t_dtw := time\<rparr>]" .
  show "map length (set_dtw time pos segs) = map length segs"
    by (simp add: set_dtw_def map_update) (metis list_update_id length_map nth_map list_update_beyond not_le)
qed

lemma same_shape:
  assumes "map length segs' = map length segs"
  shows "valid_pos segs' = valid_pos segs" "flat_pos segs' = flat_pos segs" "[] \<in> set segs' \<longleftrightarrow> [] \<in> set segs"
    "valid_pos segs pos \<Longrightarrow> next_position segs' pos = next_position segs pos"
proof -
  have len: "length segs' = length segs" using map_eq_imp_length_eq [OF assms] .
  have nth: "i < length segs \<Longrightarrow> length (segs' ! i) = length (segs ! i)" for i using assms len by (metis nth_map)
  show "valid_pos segs' = valid_pos segs" using len nth by (auto simp: valid_pos_def fun_eq_iff)
  show "flat_pos segs' = flat_pos segs" using assms by (simp add: flat_pos_def fun_eq_iff length_concat take_map [symmetric])
  show "[] \<in> set segs' \<longleftrightarrow> [] \<in> set segs"
    using arg_cong [OF assms, of set] by (auto simp: image_iff set_eq_iff) (metis length_0_conv)+
  show "valid_pos segs pos \<Longrightarrow> next_position segs' pos = next_position segs pos"
    using len nth by (auto simp: next_position_def valid_pos_def split: prod.splits)
qed


lemma text_index_step:
  assumes "i < length toks"
  shows "text_index eot toks i = (if td_id (toks ! i) < eot then i else text_index eot toks (i + 1))"
proof -
  have "drop i toks = toks ! i # drop (i + 1) toks" using assms by (simp add: Cons_nth_drop_Suc)
  then show ?thesis by (simp add: text_index_def)
qed

lemma text_index_le: "i \<le> length toks \<Longrightarrow> i \<le> text_index eot toks i \<and> text_index eot toks i \<le> length toks"
  using length_takeWhile_le [of "\<lambda>t. \<not> td_id t < eot" "drop i toks"] by (auto simp: text_index_def)

lemma skip_special_flat:
  "valid_pos segs pos \<Longrightarrow> [] \<notin> set segs \<Longrightarrow>
     (if text_index eot (concat segs) (flat_pos segs pos) < length (concat segs)
      then \<exists>pos'. skip_special eot segs pos = Some pos' \<and> valid_pos segs pos' \<and>
        flat_pos segs pos' = text_index eot (concat segs) (flat_pos segs pos)
      else skip_special eot segs pos = None)"
proof (induction eot segs pos rule: skip_special.induct)
  case (1 eot segs pos)
  note tok = token_at_flat [OF "1.prems"(1)] and less = flat_pos_less [OF "1.prems"(1)]
  note skip = skip_special.simps [of eot segs pos, unfolded tok option.case]
  note step = text_index_step [OF less, of eot] and adv = next_position_flat [OF "1.prems"]
  show ?case
  proof (cases "td_id (concat segs ! flat_pos segs pos) < eot")
    case True
    then show ?thesis using less "1.prems"(1) by (simp add: skip step)
  next
    case special: False
    show ?thesis
    proof (cases "flat_pos segs pos + 1 < length (concat segs)")
      case True
      then obtain pos' where pos': "next_position segs pos = Some pos'" "valid_pos segs pos'" "flat_pos segs pos' = flat_pos segs pos + 1"
        using adv by auto
      then show ?thesis using "1.IH" [OF tok special pos'(1,2) "1.prems"(2)] special
        by (simp add: skip step del: split_paired_Ex split: if_splits)
    next
      case False
      then have "next_position segs pos = None" using adv by simp
      moreover have "text_index eot (concat segs) (flat_pos segs pos + 1) = length (concat segs)"
        using False less by (simp add: text_index_def)
      ultimately show ?thesis using special by (simp add: skip step)
    qed
  qed
qed

lemma place_times_flat:
  "valid_pos segs pos \<Longrightarrow> [] \<notin> set segs \<Longrightarrow>
     map_option concat (place_times eot seek p last_v pos segs) =
       place_flat eot (map (\<lambda>t. t * 2 + seek) (first_times last_v p)) (flat_pos segs pos) (concat segs) \<and>
     (\<forall>segs'. place_times eot seek p last_v pos segs = Some segs' \<longrightarrow> map length segs' = map length segs)"
proof (induction p arbitrary: last_v pos segs)
  case Nil
  then show ?case by simp
next
  case (Cons a p)
  obtain v time where a: "a = (v, time)" by (cases a)
  show ?case
  proof (cases "v \<noteq> last_v")
    case False
    then show ?thesis using Cons by (simp add: a)
  next
    case True
    define i1 where "i1 = text_index eot (concat segs) (flat_pos segs pos)"
    note skip = skip_special_flat [OF Cons.prems, of eot, folded i1_def]
    show ?thesis
    proof (cases "i1 < length (concat segs)")
      case False
      then have "skip_special eot segs pos = None" using skip by simp
      then show ?thesis using True False by (simp add: a Let_def flip: i1_def)
    next
      case found: True
      then obtain pos1 where pos1: "skip_special eot segs pos = Some pos1" "valid_pos segs pos1" "flat_pos segs pos1 = i1"
        using skip by auto
      define segs1 where "segs1 = set_dtw (time * 2 + seek) pos1 segs"
      note flat = set_dtw_flat [OF pos1(2), of "time * 2 + seek", folded segs1_def]
      note shape = same_shape [OF flat(2)]
      have adv: "next_position segs1 pos1 = next_position segs pos1" using shape(4) pos1(2) .
      show ?thesis
      proof (cases "i1 + 1 < length (concat segs)")
        case False
        then have "next_position segs pos1 = None" using next_position_flat [OF pos1(2) Cons.prems(2)] pos1(3) by simp
        then show ?thesis using True False pos1(1) adv by (simp add: a Let_def flip: i1_def segs1_def)
      next
        case more: True
        then obtain pos2 where pos2: "next_position segs pos1 = Some pos2" "valid_pos segs pos2" "flat_pos segs pos2 = i1 + 1"
          using next_position_flat [OF pos1(2) Cons.prems(2)] pos1(3) by auto
        have "place_times eot seek (a # p) last_v pos segs = place_times eot seek p v pos2 segs1"
          using True pos1(1) adv pos2(1) by (simp add: a Let_def flip: segs1_def)
        moreover have "place_flat eot (map (\<lambda>t. t * 2 + seek) (first_times last_v (a # p))) (flat_pos segs pos) (concat segs) =
            place_flat eot (map (\<lambda>t. t * 2 + seek) (first_times v p)) (i1 + 1) (concat segs1)"
          using True more flat(1) pos1(3) by (simp add: a Let_def flip: i1_def)
        ultimately show ?thesis
          using Cons.IH [of segs1 pos2 v] pos2 shape Cons.prems(2) flat(2) by simp
      qed
    qed
  qed
qed


text \<open>What placing does to the tokens in sequence.\<close>

lemma text_index_split:
  assumes "i \<le> length toks" "\<exists>t \<in> set (drop i toks). td_id t < eot"
  shows "text_index eot toks i < length toks" "td_id (toks ! text_index eot toks i) < eot"
    "filter (\<lambda>t. td_id t < eot) (drop i toks) =
      toks ! text_index eot toks i # filter (\<lambda>t. td_id t < eot) (drop (text_index eot toks i + 1) toks)"
proof -
  let ?P = "\<lambda>t. \<not> td_id t < eot" and ?d = "drop i toks"
  let ?k = "length (takeWhile ?P ?d)"
  have k: "?k < length ?d"
    using assms(2) by (metis length_takeWhile_le le_neq_implies_less takeWhile_eq_take take_all order_refl set_takeWhileD)
  then show 1: "text_index eot toks i < length toks" by (simp add: text_index_def)
  have at: "?d ! ?k = toks ! text_index eot toks i" using assms(1) by (simp add: text_index_def)
  then show 2: "td_id (toks ! text_index eot toks i) < eot" using nth_length_takeWhile [OF k] by simp
  have "?d = take ?k ?d @ ?d ! ?k # drop (Suc ?k) ?d" using k by (rule id_take_nth_drop)
  also have "take ?k ?d = takeWhile ?P ?d" by (rule takeWhile_eq_take [symmetric])
  also have "drop (Suc ?k) ?d = drop (text_index eot toks i + 1) toks" by (simp add: text_index_def add.commute)
  finally have "filter (\<lambda>t. td_id t < eot) ?d = filter (\<lambda>t. td_id t < eot) (takeWhile ?P ?d) @
      filter (\<lambda>t. td_id t < eot) (toks ! text_index eot toks i # drop (text_index eot toks i + 1) toks)"
    unfolding at by (metis filter_append)
  moreover have "filter (\<lambda>t. td_id t < eot) (takeWhile ?P ?d) = []" by (auto simp: filter_empty_conv dest: set_takeWhileD)
  ultimately show "filter (\<lambda>t. td_id t < eot) ?d = toks ! text_index eot toks i # filter (\<lambda>t. td_id t < eot) (drop (text_index eot toks i + 1) toks)"
    using 2 by simp
qed

lemma text_index_ids:
  fixes toks toks' :: "'f token_data list"
  assumes "map td_id toks' = map td_id toks"
  shows "text_index eot toks' i = text_index eot toks i"
proof -
  have eq: "length (takeWhile (\<lambda>t. \<not> td_id t < eot) xs) = length (takeWhile (\<lambda>t. \<not> t < eot) (map td_id xs))" for xs :: "'f token_data list"
    by (simp add: takeWhile_map comp_def)
  have ids: "map td_id (drop i toks') = map td_id (drop i toks)" using assms by (metis drop_map)
  show ?thesis unfolding text_index_def eq ids by (rule refl)
qed

lemma place_flat_ok:
  "i \<le> length toks \<Longrightarrow> length ts = length (filter (\<lambda>t. td_id t < eot) (drop i toks)) \<Longrightarrow> toks \<noteq> [] \<Longrightarrow>
     \<not> td_id (last toks) < eot \<Longrightarrow>
     \<exists>toks'. place_flat eot ts i toks = Some toks' \<and> map td_id toks' = map td_id toks \<and> take i toks' = take i toks \<and>
       map td_t_dtw (filter (\<lambda>t. td_id t < eot) (drop i toks')) = ts"
proof (induction ts arbitrary: i toks)
  case Nil
  then show ?case by simp
next
  case (Cons t ts)
  define k where "k = text_index eot toks i"
  have "filter (\<lambda>t. td_id t < eot) (drop i toks) \<noteq> []" using Cons.prems(2) by auto
  then have ex: "\<exists>t \<in> set (drop i toks). td_id t < eot" by (auto simp: filter_empty_conv)
  note split = text_index_split [OF Cons.prems(1) ex, folded k_def]
  have le: "i \<le> k" using text_index_le [OF Cons.prems(1)] by (simp add: k_def)
  have more: "k + 1 < length toks"
    using split(1,2) Cons.prems(3,4) by (metis Suc_eq_plus1 Suc_lessI diff_Suc_1 last_conv_nth)
  define toks1 where "toks1 = toks[k := (toks ! k)\<lparr>td_t_dtw := t\<rparr>]"
  have same: "drop (k + 1) toks1 = drop (k + 1) toks" "take k toks1 = take k toks" "length toks1 = length toks"
    "map td_id toks1 = map td_id toks" "toks1 ! k = (toks ! k)\<lparr>td_t_dtw := t\<rparr>"
    using split(1) by (simp_all add: toks1_def map_update) (metis list_update_id nth_map length_map)
  have ne: "toks1 \<noteq> []" using same(3) Cons.prems(3) by auto
  have "k \<noteq> length toks - 1" using more by linarith
  then have "last toks1 = last toks" using ne Cons.prems(3) same(3) by (simp add: last_conv_nth toks1_def)
  moreover have "length ts = length (filter (\<lambda>t. td_id t < eot) (drop (k + 1) toks1))"
    using Cons.prems(2) split(3) same(1) by simp
  moreover have "k + 1 \<le> length toks1" using more same(3) by simp
  ultimately obtain toks' where toks': "place_flat eot ts (k + 1) toks1 = Some toks'" "map td_id toks' = map td_id toks1"
      "take (k + 1) toks' = take (k + 1) toks1" "map td_t_dtw (filter (\<lambda>t. td_id t < eot) (drop (k + 1) toks')) = ts"
    using Cons.IH [of "k + 1" toks1] ne Cons.prems(4) by auto
  have len: "length toks' = length toks" using map_eq_imp_length_eq [OF toks'(2)] same(3) by simp
  have front: "take k toks' = take k toks" using arg_cong [OF toks'(3), of "take k"] same(2) by simp
  have at: "toks' ! k = (toks ! k)\<lparr>td_t_dtw := t\<rparr>"
    using arg_cong [OF toks'(3), of "\<lambda>xs. xs ! k"] same(5) by simp
  have "take i toks' = take i toks" using arg_cong [OF front, of "take i"] le by (simp add: min_absorb1)
  moreover have "map td_id toks' = map td_id toks" using toks'(2) same(4) by simp
  moreover have "filter (\<lambda>t. td_id t < eot) (drop i toks') = toks' ! k # filter (\<lambda>t. td_id t < eot) (drop (k + 1) toks')"
  proof -
    have idx: "text_index eot toks' i = k"
      using text_index_ids [OF \<open>map td_id toks' = map td_id toks\<close>] by (simp add: k_def)
    have "k - i < length (drop i toks')" "drop i toks' ! (k - i) = toks' ! k" using le split(1) len by simp_all
    then have "toks' ! k \<in> set (drop i toks')" by (metis nth_mem)
    then have "\<exists>t \<in> set (drop i toks'). td_id t < eot" using at split(2) by (auto intro!: bexI [of _ "toks' ! k"])
    then show ?thesis using text_index_split(3) [of i toks' eot, unfolded idx] Cons.prems(1) len by simp
  qed
  moreover have "place_flat eot (t # ts) i toks = Some toks'" using more toks'(1) by (simp add: Let_def toks1_def flip: k_def)
  ultimately show ?case using toks'(4) at by simp
qed


lemma first_times_path:
  "successively warp_step ((a, b) # p) \<Longrightarrow> last ((a, b) # p) = (n, m) \<Longrightarrow>
     length (first_times (int a) (map (\<lambda>(a, b). (int a, int b)) p)) = n - a \<and> a \<le> n \<and>
     sorted (int b # first_times (int a) (map (\<lambda>(a, b). (int a, int b)) p)) \<and>
     (\<forall>t \<in> set (first_times (int a) (map (\<lambda>(a, b). (int a, int b)) p)). t \<le> int m) \<and> b \<le> m"
proof (induction p arbitrary: a b)
  case Nil
  then show ?case by simp
next
  case (Cons q p)
  obtain c d where q: "q = (c, d)" by (cases q)
  have step: "warp_step (a, b) (c, d)" and rest: "successively warp_step ((c, d) # p)" "last ((c, d) # p) = (n, m)"
    using Cons.prems by (simp_all add: q)
  note IH = Cons.IH [OF rest]
  from step consider "c = a + 1" "b \<le> d" | "c = a" "d = b + 1" by (auto simp: warp_step_def)
  then show ?case
  proof cases
    case 1
    then show ?thesis using IH by (auto simp: q)
  next
    case 2
    then show ?thesis using IH by (auto simp: q)
  qed
qed

lemma path_start:
  assumes "segs \<noteq> []" "[] \<notin> set segs"
  shows "valid_pos segs (0, 0)" "flat_pos segs (0, 0) = 0"
  using assms by (auto simp: valid_pos_def flat_pos_def) (metis hd_conv_nth hd_in_set length_greater_0_conv)

text \<open>
  Along the path found for one row more than there are text tokens, every text token of the segments gets
  a time, the times do not decrease, and they lie in the window; for this the last token must be special.
\<close>

theorem dtw_times_placed:
  assumes "segs \<noteq> []" "[] \<notin> set segs" "\<not> td_id (last (concat segs)) < eot"
    and "N = length (filter (\<lambda>t. td_id t < eot) (concat segs)) + 1"
    and "p \<noteq> []" "hd p = (0, 0)" "last p = (N - 1, M - 1)" "successively warp_step p"
  shows "\<exists>segs'. place_times eot seek (map (\<lambda>(a, b). (int a, int b)) p) 0 (0, 0) segs = Some segs' \<and>
    map length segs' = map length segs \<and> map td_id (concat segs') = map td_id (concat segs) \<and>
    sorted (map td_t_dtw (filter (\<lambda>t. td_id t < eot) (concat segs'))) \<and>
    (\<forall>t \<in> set (concat segs'). td_id t < eot \<longrightarrow> seek \<le> td_t_dtw t \<and> td_t_dtw t \<le> seek + 2 * int (M - 1))"
proof -
  let ?p = "map (\<lambda>(a, b). (int a, int b)) p"
  obtain p' where p: "p = (0, 0) # p'" using assms(5,6) by (cases p) auto
  define ts where "ts = first_times 0 ?p"
  have ts: "length ts = N - 1" "sorted (0 # ts)" "\<forall>t \<in> set ts. t \<le> int (M - 1)"
    using first_times_path [of 0 0 p' "N - 1" "M - 1"] assms(7,8) by (simp_all add: ts_def p)
  note valid = path_start [OF assms(1,2)]
  have ne: "concat segs \<noteq> []" using flat_pos_less [OF valid(1)] by (metis gr_implies_not0 list.size(3))
  obtain toks where toks: "place_flat eot (map (\<lambda>t. t * 2 + seek) ts) 0 (concat segs) = Some toks"
      "map td_id toks = map td_id (concat segs)" "map td_t_dtw (filter (\<lambda>t. td_id t < eot) toks) = map (\<lambda>t. t * 2 + seek) ts"
    using place_flat_ok [of 0 "concat segs" "map (\<lambda>t. t * 2 + seek) ts" eot] ts(1) assms(3,4) ne by auto
  obtain segs' where segs': "place_times eot seek ?p 0 (0, 0) segs = Some segs'" "concat segs' = toks" "map length segs' = map length segs"
    using place_times_flat [OF valid(1) assms(2), of eot seek ?p 0] toks(1) by (auto simp: ts_def valid(2))
  have sorted: "sorted (map td_t_dtw (filter (\<lambda>t. td_id t < eot) toks))"
    unfolding toks(3) using ts(2) by (simp add: sorted_map sorted_wrt_mono_rel [of ts "(\<le>)"])
  have range: "\<forall>t \<in> set toks. td_id t < eot \<longrightarrow> seek \<le> td_t_dtw t \<and> td_t_dtw t \<le> seek + 2 * int (M - 1)"
  proof (intro ballI impI)
    fix t
    assume "t \<in> set toks" "td_id t < eot"
    then have "td_t_dtw t \<in> set (map td_t_dtw (filter (\<lambda>t. td_id t < eot) toks))" by simp
    then obtain u where "u \<in> set ts" "td_t_dtw t = u * 2 + seek" unfolding toks(3) by auto
    then show "seek \<le> td_t_dtw t \<and> td_t_dtw t \<le> seek + 2 * int (M - 1)" using ts(2,3) by auto
  qed
  show ?thesis using sorted range segs'(1,3) toks(2) unfolding segs'(2) [symmetric] by blast
qed

lemma place_flat_overrun:
  "i < length toks \<Longrightarrow> length ts = length (filter (\<lambda>t. td_id t < eot) (drop i toks)) \<Longrightarrow> td_id (last toks) < eot \<Longrightarrow>
     place_flat eot ts i toks = None"
proof (induction ts arbitrary: i toks)
  case Nil
  then have "last toks \<in> set (drop i toks)" by (metis last_drop last_in_set drop_eq_Nil not_le)
  then show ?case using Nil by (auto simp: filter_empty_conv)
next
  case (Cons t ts)
  define k where "k = text_index eot toks i"
  have "filter (\<lambda>t. td_id t < eot) (drop i toks) \<noteq> []" using Cons.prems(2) by auto
  then have ex: "\<exists>t \<in> set (drop i toks). td_id t < eot" by (auto simp: filter_empty_conv)
  note split = text_index_split [OF less_imp_le [OF Cons.prems(1)] ex, folded k_def]
  define toks1 where "toks1 = toks[k := (toks ! k)\<lparr>td_t_dtw := t\<rparr>]"
  have "place_flat eot ts (k + 1) toks1 = None" if more: "k + 1 < length toks"
  proof (rule Cons.IH)
    show "k + 1 < length toks1" using more by (simp add: toks1_def)
    have "toks \<noteq> []" "k \<noteq> length toks - 1" using more by auto
    then show "td_id (last toks1) < eot" using Cons.prems(3) by (simp add: toks1_def last_conv_nth)
    show "length ts = length (filter (\<lambda>t. td_id t < eot) (drop (k + 1) toks1))"
      using Cons.prems(2) split(3) by (simp add: toks1_def)
  qed
  then show ?case by (simp add: Let_def toks1_def flip: k_def)
qed

text \<open>
  If the last token of the last segment is a text token, its time is the last one placed, and the code then
  takes the first token of a segment behind the last one.
\<close>

theorem dtw_times_overrun:
  assumes "segs \<noteq> []" "[] \<notin> set segs" "td_id (last (concat segs)) < eot"
    and "N = length (filter (\<lambda>t. td_id t < eot) (concat segs)) + 1"
    and "p \<noteq> []" "hd p = (0, 0)" "last p = (N - 1, M - 1)" "successively warp_step p"
  shows "place_times eot seek (map (\<lambda>(a, b). (int a, int b)) p) 0 (0, 0) segs = None"
proof -
  let ?p = "map (\<lambda>(a, b). (int a, int b)) p"
  obtain p' where p: "p = (0, 0) # p'" using assms(5,6) by (cases p) auto
  note valid = path_start [OF assms(1,2)]
  have "length (first_times 0 ?p) = N - 1"
    using first_times_path [of 0 0 p' "N - 1" "M - 1"] assms(7,8) by (simp add: p)
  then have "place_flat eot (map (\<lambda>t. t * 2 + seek) (first_times 0 ?p)) 0 (concat segs) = None"
    using place_flat_overrun [of 0 "concat segs"] flat_pos_less [OF valid(1)] assms(3,4) valid(2) by simp
  then show ?thesis using place_times_flat [OF valid(1) assms(2), of eot seek ?p 0] by (simp add: valid(2))
qed


theorem dtw_times_placed_witness:
  "\<exists>segs'. place_times 100 500 (map (\<lambda>(a, b). (int a, int b)) [(0, 0), (1, 0), (2, 1)]) 0 (0, 0)
      [[demo_token 0 0, demo_token 1 0, demo_token 112 0]] = Some segs' \<and> map td_id (concat segs') = [0, 1, 112]"
  using dtw_times_placed [of "[[demo_token 0 0, demo_token 1 0, demo_token 112 0]]" 100 3 "[(0, 0), (1, 0), (2, 1)]" 2 500]
  by (auto simp: demo_token_def warp_step_def)

theorem dtw_times_overrun_witness:
  "place_times 100 500 (map (\<lambda>(a, b). (int a, int b)) [(0, 0), (1, 1)]) 0 (0, 0) [[demo_token 0 0]] = None"
  by (rule dtw_times_overrun [where N = 2 and M = 2]) (simp_all add: demo_token_def warp_step_def)

section \<open>The matrix\<close>

text \<open>
  The attention of the alignment heads, as the decoder leaves it: tokens first, then audio, then heads.
  \<open>norm\<close> and \<open>mean\<close> are the kernels \<open>ggml_norm\<close> and \<open>ggml_mean\<close> of one row, whose order of summation depends on the machine.
\<close>

record 'f cross_qks =
  cq_n_tokens :: nat
  cq_n_ctx :: nat
  cq_n_heads :: nat
  cq_data :: "'f list"

record 'f align_ops =
  al_infinity :: 'f
  al_norm :: "'f list \<Rightarrow> 'f list"
  al_mean :: "'f list \<Rightarrow> 'f"
  al_sort :: "'f list \<Rightarrow> 'f list"

text \<open>The steps from the copy of the used audio to the view without the first \<open>sot\<close> tokens and the last one.\<close>

definition qk_row :: "'f align_ops \<Rightarrow> 'f cross_qks \<Rightarrow> nat \<Rightarrow> nat \<Rightarrow> nat \<Rightarrow> 'f list option" where
  "qk_row L Q n_audio_ctx k j =
     (let n = cq_n_tokens Q in map_option (al_norm L) (those (map (\<lambda>t. rd (cq_data Q) (t + j * n + k * n * n_audio_ctx)) [0 ..< n])))"

definition qk_filtered :: "'f align_ops \<Rightarrow> int \<Rightarrow> 'f cross_qks \<Rightarrow> nat \<Rightarrow> nat \<Rightarrow> nat \<Rightarrow> nat \<Rightarrow> 'f list option" where
  "qk_filtered L width Q n_audio_ctx n_audio_tokens k t =
     Option.bind (those (map (\<lambda>j. Option.bind (qk_row L Q n_audio_ctx k j) (\<lambda>r. rd r t)) [0 ..< n_audio_tokens])) (median_row (al_sort L) width)"

definition alignment_cost :: "'f float_ops \<Rightarrow> 'f align_ops \<Rightarrow> int \<Rightarrow> 'f cross_qks \<Rightarrow> nat \<Rightarrow> nat \<Rightarrow> nat \<Rightarrow> nat \<Rightarrow> nat \<Rightarrow> 'f option" where
  "alignment_cost F L width Q n_audio_ctx n_audio_tokens sot i j =
     map_option (\<lambda>vs. fl_mul F (al_mean L vs) (fl_lit F (- 1)))
       (those (map (\<lambda>k. Option.bind (qk_filtered L width Q n_audio_ctx n_audio_tokens k (i + sot)) (\<lambda>r. rd r j)) [0 ..< cq_n_heads Q]))"

text \<open>The filter runs over the whole tensor, whether or not its values are used.\<close>

definition alignment :: "'f float_ops \<Rightarrow> 'f align_ops \<Rightarrow> int \<Rightarrow> 'f cross_qks \<Rightarrow> nat \<Rightarrow> nat \<Rightarrow> nat \<Rightarrow> (int \<times> int) list option" where
  "alignment F L width Q n_audio_ctx n_audio_tokens sot =
     (if n_audio_tokens > cq_n_ctx Q \<or> \<not> width < int n_audio_tokens \<or> tmod width 2 = 0 then None
      else dtw_and_backtrace F (al_infinity L) (cq_n_tokens Q - sot - 1) n_audio_tokens
             (alignment_cost F L width Q n_audio_ctx n_audio_tokens sot))"

end
