(* ===== verification/Fourier.thy ===== *)
theory Fourier
  imports Arrays Floats
begin

text \<open>
  The Fourier transform of the spectrogram in \<open>src/src/whisper.cpp\<close>: the tables of \<open>whisper_global_cache\<close>,
  the naive \<open>dft\<close> and the recursive \<open>fft\<close>, which keeps its intermediate results behind its input and behind
  its output in the same two buffers.  The transform is shown to stay inside buffers of a known size, to
  compute a recursion on lists whatever the buffers held, and, on exact numbers, the discrete Fourier sum.
\<close>

section \<open>The tables\<close>

record 'f fourier =
  fo_flt :: "'f float_ops"
  fo_neg :: "'f \<Rightarrow> 'f"
  fo_cos :: "'f list"
  fo_sin :: "'f list"

text \<open>\<open>SIN_COS_N_COUNT\<close> and \<open>WHISPER_N_FFT\<close>.\<close>

definition sin_cos_n_count :: nat where
  "sin_cos_n_count = 400"

text \<open>
  \<open>fill_sin_cos_table\<close>: the angle is a \<open>double\<close>, rounded when it is given to \<open>sinf\<close> and \<open>cosf\<close>, which
  come here as functions of the \<open>double\<close>.
\<close>

definition table_angle :: "'d float_ops \<Rightarrow> 'd \<Rightarrow> nat \<Rightarrow> 'd" where
  "table_angle D pi_lit i =
     fl_div D (fl_mul D (fl_mul D (fl_lit D 2) pi_lit) (fl_lit D (of_nat i))) (fl_lit D (of_nat sin_cos_n_count))"

definition fill_sin_cos_table :: "'d float_ops \<Rightarrow> 'd \<Rightarrow> ('d \<Rightarrow> 'f) \<Rightarrow> 'f list" where
  "fill_sin_cos_table D pi_lit f = map (\<lambda>i. f (table_angle D pi_lit i)) [0 ..< sin_cos_n_count]"

section \<open>The naive transform\<close>

text \<open>One row: the sums of \<open>re\<close> and \<open>im\<close>; \<open>a\<close> is where the input begins.\<close>

definition dft_term :: "'f fourier \<Rightarrow> nat \<Rightarrow> nat \<Rightarrow> 'f list \<Rightarrow> nat \<Rightarrow> nat \<Rightarrow> 'f \<times> 'f \<Rightarrow> ('f \<times> 'f) option" where
  "dft_term T a N inb k n acc =
     (let idx = (k * n * (sin_cos_n_count div N)) mod sin_cos_n_count; F = fo_flt T
      in Option.bind (rd inb (a + n)) (\<lambda>x.
         Option.bind (rd (fo_cos T) idx) (\<lambda>c.
         Option.bind (rd (fo_sin T) idx) (\<lambda>s.
           Some (fl_add F (fst acc) (fl_mul F x c), fl_sub F (snd acc) (fl_mul F x s))))))"

definition dft_row :: "'f fourier \<Rightarrow> nat \<Rightarrow> nat \<Rightarrow> 'f list \<Rightarrow> nat \<Rightarrow> ('f \<times> 'f) option" where
  "dft_row T a N inb k = for_loop N (dft_term T a N inb k) (fl_zero (fo_flt T), fl_zero (fo_flt T))"

definition put_pair :: "nat \<Rightarrow> 'f \<times> 'f \<Rightarrow> 'f list \<Rightarrow> 'f list option" where
  "put_pair i z out = Option.bind (wr i (fst z) out) (wr (i + 1) (snd z))"

definition dft :: "'f fourier \<Rightarrow> nat \<Rightarrow> nat \<Rightarrow> nat \<Rightarrow> 'f list \<Rightarrow> 'f list \<Rightarrow> 'f list option" where
  "dft T a N b inb outb =
     for_loop N (\<lambda>k out. Option.bind (dft_row T a N inb k) (\<lambda>z. put_pair (b + 2 * k) z out)) outb"

section \<open>The recursive transform\<close>

text \<open>\<open>copy_stride\<close> copies every other value of the input behind it, from the first or from the second on.\<close>

definition copy_stride :: "nat \<Rightarrow> nat \<Rightarrow> nat \<Rightarrow> 'f list \<Rightarrow> 'f list option" where
  "copy_stride a N r inb =
     for_loop (N div 2) (\<lambda>i xs. Option.bind (rd xs (a + (2 * i + r))) (\<lambda>x. wr (a + N + i) x xs)) inb"

definition get_pair :: "'f list \<Rightarrow> nat \<Rightarrow> ('f \<times> 'f) option" where
  "get_pair out i = Option.bind (rd out i) (\<lambda>x. map_option (Pair x) (rd out (i + 1)))"

text \<open>The two values that one turn of the last loop combines.\<close>

definition combine :: "'f fourier \<Rightarrow> 'f \<Rightarrow> 'f \<Rightarrow> 'f \<times> 'f \<Rightarrow> 'f \<times> 'f \<Rightarrow> ('f \<times> 'f) \<times> ('f \<times> 'f)" where
  "combine T re im e d =
     (let F = fo_flt T; re_odd = fst d; im_odd = snd d
      in ((fl_sub F (fl_add F (fst e) (fl_mul F re re_odd)) (fl_mul F im im_odd),
           fl_add F (fl_add F (snd e) (fl_mul F re im_odd)) (fl_mul F im re_odd)),
          (fl_add F (fl_sub F (fst e) (fl_mul F re re_odd)) (fl_mul F im im_odd),
           fl_sub F (fl_sub F (snd e) (fl_mul F re im_odd)) (fl_mul F im re_odd))))"

definition combine_turn :: "'f fourier \<Rightarrow> nat \<Rightarrow> nat \<Rightarrow> nat \<Rightarrow> 'f list \<Rightarrow> 'f list option" where
  "combine_turn T N b k out =
     (let idx = k * (sin_cos_n_count div N)
      in Option.bind (rd (fo_cos T) idx) (\<lambda>re.
         Option.bind (map_option (fo_neg T) (rd (fo_sin T) idx)) (\<lambda>im.
         Option.bind (get_pair out (b + 3 * N + 2 * k)) (\<lambda>d.
         Option.bind (get_pair out (b + 2 * N + 2 * k)) (\<lambda>e.
         Option.bind (put_pair (b + 2 * k) (fst (combine T re im e d)) out) (\<lambda>out1.
           put_pair (b + 2 * (k + N div 2)) (snd (combine T re im e d)) out1))))))"

text \<open>
  \<open>a\<close> and \<open>b\<close> are where the input and the output begin.  For \<open>N = 0\<close> the code calls itself without end.
\<close>

function fft :: "'f fourier \<Rightarrow> nat \<Rightarrow> nat \<Rightarrow> nat \<Rightarrow> 'f list \<times> 'f list \<Rightarrow> ('f list \<times> 'f list) option" where
  "fft T a N b m =
     (if N = 0 then None
      else if N = 1 then
        Option.bind (rd (fst m) a) (\<lambda>x. map_option (Pair (fst m)) (put_pair b (x, fl_zero (fo_flt T)) (snd m)))
      else if odd N then map_option (Pair (fst m)) (dft T a N b (fst m) (snd m))
      else Option.bind (copy_stride a N 0 (fst m)) (\<lambda>in1.
           Option.bind (fft T (a + N) (N div 2) (b + 2 * N) (in1, snd m)) (\<lambda>m1.
           Option.bind (copy_stride a N 1 (fst m1)) (\<lambda>in2.
           Option.bind (fft T (a + N) (N div 2) (b + 3 * N) (in2, snd m1)) (\<lambda>m2.
             map_option (Pair (fst m2)) (for_loop (N div 2) (combine_turn T N b) (snd m2)))))))"
  by pat_completeness auto
termination
  by (relation "measure (\<lambda>(T, a, N, b, m). N)") auto

declare fft.simps [simp del]


section \<open>What the transform computes\<close>

text \<open>The same recursion on lists of values, without the buffers.\<close>

definition dft_value :: "'f fourier \<Rightarrow> 'f list \<Rightarrow> nat \<Rightarrow> 'f \<times> 'f" where
  "dft_value T xs k =
     (let F = fo_flt T; idx = (\<lambda>n. (k * n * (sin_cos_n_count div length xs)) mod sin_cos_n_count)
      in fold (\<lambda>n acc. (fl_add F (fst acc) (fl_mul F (xs ! n) (fo_cos T ! idx n)),
                        fl_sub F (snd acc) (fl_mul F (xs ! n) (fo_sin T ! idx n))))
           [0 ..< length xs] (fl_zero F, fl_zero F))"

definition every_other :: "nat \<Rightarrow> 'f list \<Rightarrow> 'f list" where
  "every_other r xs = map (\<lambda>i. xs ! (2 * i + r)) [0 ..< length xs div 2]"

lemma length_every_other [simp]: "length (every_other r xs) = length xs div 2"
  by (simp add: every_other_def)

definition combined :: "'f fourier \<Rightarrow> ('f \<times> 'f) list \<Rightarrow> ('f \<times> 'f) list \<Rightarrow> nat \<Rightarrow> ('f \<times> 'f) \<times> ('f \<times> 'f)" where
  "combined T es ds k =
     (let idx = k * (sin_cos_n_count div (2 * length es))
      in combine T (fo_cos T ! idx) (fo_neg T (fo_sin T ! idx)) (es ! k) (ds ! k))"

function fft_values :: "'f fourier \<Rightarrow> 'f list \<Rightarrow> ('f \<times> 'f) list" where
  "fft_values T xs =
     (if xs = [] then []
      else if length xs = 1 then [(hd xs, fl_zero (fo_flt T))]
      else if odd (length xs) then map (dft_value T xs) [0 ..< length xs]
      else (let es = fft_values T (every_other 0 xs); ds = fft_values T (every_other 1 xs);
                h = length xs div 2
            in map (\<lambda>k. fst (combined T es ds k)) [0 ..< h] @ map (\<lambda>k. snd (combined T es ds k)) [0 ..< h]))"
  by pat_completeness auto
termination
  by (relation "measure (\<lambda>(T, xs). length xs)") (auto simp: every_other_def)

declare fft_values.simps [simp del]

lemma length_fft_values [simp]: "length (fft_values T xs) = length xs"
proof (induction T xs rule: fft_values.induct)
  case (1 T xs)
  show ?case
    by (subst fft_values.simps) (auto simp: Let_def elim: evenE)
qed

section \<open>The buffers\<close>

definition tables_ok :: "'f fourier \<Rightarrow> bool" where
  "tables_ok T \<longleftrightarrow> length (fo_cos T) = sin_cos_n_count \<and> length (fo_sin T) = sin_cos_n_count"

text \<open>The pairs of values that begin at an index.\<close>

definition pairs_at :: "'f list \<Rightarrow> nat \<Rightarrow> ('f \<times> 'f) list \<Rightarrow> bool" where
  "pairs_at out b zs \<longleftrightarrow> (\<forall>k < length zs. out ! (b + 2 * k) = fst (zs ! k) \<and> out ! (b + 2 * k + 1) = snd (zs ! k))"

lemma pairs_at_same:
  "pairs_at out b zs \<Longrightarrow> same_outside lo hi out out' \<Longrightarrow> b + 2 * length zs \<le> lo \<or> hi \<le> b \<Longrightarrow> pairs_at out' b zs"
  unfolding pairs_at_def same_outside_def by auto

lemma pairs_at_append:
  assumes "pairs_at out b xs" "pairs_at out (b + 2 * length xs) ys"
  shows "pairs_at out b (xs @ ys)"
  unfolding pairs_at_def
proof (intro allI impI)
  fix k
  assume k: "k < length (xs @ ys)"
  show "out ! (b + 2 * k) = fst ((xs @ ys) ! k) \<and> out ! (b + 2 * k + 1) = snd ((xs @ ys) ! k)"
  proof (cases "k < length xs")
    case True
    then show ?thesis using assms(1) by (simp add: pairs_at_def nth_append)
  next
    case False
    then obtain j where j: "k = length xs + j" using le_Suc_ex not_less by blast
    then have "j < length ys" using k by simp
    then have "out ! (b + 2 * length xs + 2 * j) = fst (ys ! j) \<and> out ! (b + 2 * length xs + 2 * j + 1) = snd (ys ! j)"
      using assms(2) unfolding pairs_at_def by blast
    then show ?thesis by (simp add: j nth_append add.assoc add_mult_distrib2)
  qed
qed

lemma put_pair_Some [simp]:
  "i + 1 < length out \<Longrightarrow> put_pair i z out = Some (out[i := fst z, i + 1 := snd z])"
  by (simp add: put_pair_def)

lemma get_pair_Some [simp]: "i + 1 < length out \<Longrightarrow> get_pair out i = Some (out ! i, out ! (i + 1))"
  by (simp add: get_pair_def)

lemma dft_row_value:
  assumes "tables_ok T" "N \<le> sin_cos_n_count" "a + N \<le> length inb"
  shows "dft_row T a N inb k = Some (dft_value T (take N (drop a inb)) k)"
proof -
  let ?xs = "take N (drop a inb)"
  have len: "length ?xs = N" using assms(3) by simp
  have "dft_term T a N inb k n acc = Some ((\<lambda>n acc.
      (fl_add (fo_flt T) (fst acc) (fl_mul (fo_flt T) (?xs ! n) (fo_cos T ! ((k * n * (sin_cos_n_count div N)) mod sin_cos_n_count))),
       fl_sub (fo_flt T) (snd acc) (fl_mul (fo_flt T) (?xs ! n) (fo_sin T ! ((k * n * (sin_cos_n_count div N)) mod sin_cos_n_count))))) n acc)"
    if "n < N" for n acc
    using that assms by (simp add: dft_term_def tables_ok_def sin_cos_n_count_def Let_def)
  then show ?thesis
    unfolding dft_row_def dft_value_def Let_def len by (rule for_loop_fold)
qed

lemma dft_values:
  assumes "tables_ok T" "N \<le> sin_cos_n_count" "a + N \<le> length inb" "b + 2 * N \<le> length outb"
  shows "\<exists>out. dft T a N b inb outb = Some out \<and> same_outside b (b + 2 * N) outb out \<and>
    pairs_at out b (map (dft_value T (take N (drop a inb))) [0 ..< N])"
proof -
  define zs where "zs = dft_value T (take N (drop a inb))"
  define I where "I k out \<longleftrightarrow> same_outside b (b + 2 * N) outb out \<and> pairs_at out b (map zs [0 ..< k])" for k out
  have "\<exists>out. dft T a N b inb outb = Some out \<and> I N out"
    unfolding dft_def
  proof (rule for_loop_inv)
    show "I 0 outb" by (simp add: I_def pairs_at_def)
  next
    fix k out
    assume k: "k < N" and I: "I k out"
    have len: "length out = length outb" using I unfolding I_def by (auto dest: same_outside_length)
    have "I (Suc k) (out[b + 2 * k := fst (zs k), b + 2 * k + 1 := snd (zs k)])"
      using I k len assms(4) unfolding I_def pairs_at_def
      by (auto simp: nth_list_update nth_append less_Suc_eq intro!: same_outside_update)
    then show "\<exists>s'. Option.bind (dft_row T a N inb k) (\<lambda>z. put_pair (b + 2 * k) z out) = Some s' \<and> I (Suc k) s'"
      using k len assms(4) by (simp add: dft_row_value [OF assms(1-3)] zs_def)
  qed
  then show ?thesis by (simp add: I_def zs_def)
qed

lemma copy_stride_values:
  assumes "a + 2 * N \<le> length inb" "r < 2" "even N"
  shows "\<exists>xs. copy_stride a N r inb = Some xs \<and> same_outside (a + N) (a + 2 * N) inb xs \<and>
    take (N div 2) (drop (a + N) xs) = every_other r (take N (drop a inb))"
proof -
  define h where "h = N div 2"
  have N: "N = 2 * h" using assms(3) by (simp add: h_def)
  have idx: "2 * k + r < N" if "k < h" for k using that assms(2) N by linarith
  have "\<exists>xs. copy_stride a N r inb = Some xs \<and> same_outside (a + N) (a + N + h) inb xs \<and>
      (\<forall>k < h. xs ! (a + N + k) = inb ! (a + (2 * k + r)))"
    unfolding copy_stride_def h_def [symmetric]
  proof (rule for_loop_fill)
    show "a + N + h \<le> length inb" using assms(1) N by linarith
  next
    fix k ys
    assume k: "k < h" and same: "same_outside (a + N) (a + N + k) inb ys"
    then have "rd ys (a + (2 * k + r)) = Some (inb ! (a + (2 * k + r)))"
      using idx [OF k] assms(1) by (simp add: same_outside_length same_outside_nth)
    then show "Option.bind (rd ys (a + (2 * k + r))) (\<lambda>x. wr (a + N + k) x ys) = wr (a + N + k) (inb ! (a + (2 * k + r))) ys"
      by simp
  qed
  then obtain xs where xs: "copy_stride a N r inb = Some xs" "same_outside (a + N) (a + N + h) inb xs"
      "\<And>k. k < h \<Longrightarrow> xs ! (a + N + k) = inb ! (a + (2 * k + r))" by blast
  have len: "length xs = length inb" using xs(2) by (rule same_outside_length)
  have "take h (drop (a + N) xs) = every_other r (take N (drop a inb))"
  proof (rule nth_equalityI)
    show "length (take h (drop (a + N) xs)) = length (every_other r (take N (drop a inb)))"
      using assms(1) N len by simp
  next
    fix i
    assume "i < length (take h (drop (a + N) xs))"
    then have i: "i < h" by simp
    have "take h (drop (a + N) xs) ! i = xs ! (a + N + i)" using i len assms(1) N by simp
    also have "\<dots> = inb ! (a + (2 * i + r))" by (rule xs(3) [OF i])
    also have "\<dots> = take N (drop a inb) ! (2 * i + r)" using idx [OF i] assms(1) by simp
    also have "\<dots> = every_other r (take N (drop a inb)) ! i" using i assms(1) N by (simp add: every_other_def)
    finally show "take h (drop (a + N) xs) ! i = every_other r (take N (drop a inb)) ! i" .
  qed
  moreover have "same_outside (a + N) (a + 2 * N) inb xs" using xs(2) N by (auto intro: same_outside_mono)
  ultimately show ?thesis using xs(1) by (auto simp: h_def)
qed


lemma combine_loop_values:
  assumes "tables_ok T" "0 < h" "2 * h \<le> sin_cos_n_count" "b + 8 * h \<le> length out"
    and "length es = h" "length ds = h" "pairs_at out (b + 4 * h) es" "pairs_at out (b + 6 * h) ds"
  shows "\<exists>out'. for_loop h (combine_turn T (2 * h) b) out = Some out' \<and> same_outside b (b + 4 * h) out out' \<and>
    pairs_at out' b (map (\<lambda>k. fst (combined T es ds k)) [0 ..< h] @ map (\<lambda>k. snd (combined T es ds k)) [0 ..< h])"
proof -
  define C where "C = combined T es ds"
  define I where "I k out' \<longleftrightarrow> same_outside b (b + 4 * h) out out' \<and>
      pairs_at out' b (map (\<lambda>k. fst (C k)) [0 ..< k]) \<and> pairs_at out' (b + 2 * h) (map (\<lambda>k. snd (C k)) [0 ..< k])" for k out'
  have "\<exists>out'. for_loop h (combine_turn T (2 * h) b) out = Some out' \<and> I h out'"
  proof (rule for_loop_inv)
    show "I 0 out" by (simp add: I_def pairs_at_def)
  next
    fix k out'
    assume k: "k < h" and I: "I k out'"
    have len: "length out' = length out" using I unfolding I_def by (auto dest: same_outside_length)
    have e: "pairs_at out' (b + 4 * h) es" and d: "pairs_at out' (b + 6 * h) ds"
      using I assms(5-8) unfolding I_def by (auto elim!: pairs_at_same)
    have idx: "k * (sin_cos_n_count div (2 * h)) < sin_cos_n_count"
    proof -
      have "k * (sin_cos_n_count div (2 * h)) \<le> h * (sin_cos_n_count div (2 * h))" using k by (intro mult_right_mono) simp_all
      also have "2 * \<dots> \<le> sin_cos_n_count" by (simp add: mult.assoc [symmetric])
      finally show ?thesis by (simp add: sin_cos_n_count_def)
    qed
    define zs where "zs = out'[b + 2 * k := fst (fst (C k)), b + 2 * k + 1 := snd (fst (C k))]"
    define zs' where "zs' = zs[b + 2 * (k + h) := fst (snd (C k)), b + 2 * (k + h) + 1 := snd (snd (C k))]"
    have "combine_turn T (2 * h) b k out' = Some zs'"
      using idx k len assms(1-6) e d
      by (simp add: combine_turn_def tables_ok_def Let_def pairs_at_def zs_def zs'_def C_def combined_def)
    moreover have "I (Suc k) zs'"
      using I k len assms(4) unfolding I_def pairs_at_def zs_def zs'_def
      by (auto simp: nth_list_update nth_append less_Suc_eq intro!: same_outside_update)
    ultimately show "\<exists>s'. combine_turn T (2 * h) b k out' = Some s' \<and> I (Suc k) s'" by blast
  qed
  then obtain out' where out': "for_loop h (combine_turn T (2 * h) b) out = Some out'" "I h out'" by blast
  then have "pairs_at out' b (map (\<lambda>k. fst (C k)) [0 ..< h] @ map (\<lambda>k. snd (C k)) [0 ..< h])"
    by (simp add: I_def pairs_at_append)
  then show ?thesis using out' by (auto simp: I_def C_def)
qed

text \<open>
  The transform stays inside buffers that have room for twice its input and six times its output, and
  computes the recursion on lists whatever the rest of the buffers holds.
\<close>

lemma fft_buffers:
  assumes "tables_ok T"
  shows "0 < N \<Longrightarrow> N \<le> sin_cos_n_count \<Longrightarrow> a + 2 * N \<le> length inb \<Longrightarrow> b + 6 * N \<le> length outb \<Longrightarrow>
    \<exists>inb' outb'. fft T a N b (inb, outb) = Some (inb', outb') \<and> same_outside (a + N) (a + 2 * N) inb inb' \<and>
      same_outside b (b + 6 * N) outb outb' \<and> pairs_at outb' b (fft_values T (take N (drop a inb)))"
proof (induction N arbitrary: a b inb outb rule: less_induct)
  case (less N)
  let ?xs = "take N (drop a inb)"
  have xs: "length ?xs = N" using less.prems(3) by simp
  consider "N = 1" | "N \<noteq> 1" "odd N" | "even N" by blast
  then show ?case
  proof cases
    case 1
    have "?xs = [inb ! a]" using less.prems(3) 1 by (simp add: take_Suc hd_drop_conv_nth)
    then have "fft_values T ?xs = [(inb ! a, fl_zero (fo_flt T))]" by (simp add: fft_values.simps)
    moreover have "fft T a N b (inb, outb) = Some (inb, outb[b := inb ! a, b + 1 := fl_zero (fo_flt T)])"
      using 1 less.prems(3,4) by (subst fft.simps) simp
    ultimately show ?thesis using 1 less.prems(4) by (auto simp: pairs_at_def intro!: same_outside_update)
  next
    case 2
    have "fft_values T ?xs = map (dft_value T ?xs) [0 ..< N]"
      using 2 less.prems(1) xs by (subst fft_values.simps) auto
    moreover obtain out where "dft T a N b inb outb = Some out" "same_outside b (b + 2 * N) outb out"
        "pairs_at out b (map (dft_value T ?xs) [0 ..< N])"
      using dft_values [OF assms, of N a inb b outb] less.prems by auto
    ultimately show ?thesis using 2 less.prems(1)
      by (auto simp: fft.simps [of T a N b] intro: same_outside_mono)
  next
    case 3
    define h where "h = N div 2"
    have N: "N = 2 * h" "0 < h" "h < N" "h \<le> sin_cos_n_count" using 3 less.prems(1,2) by (auto simp: h_def)
    obtain in1 where in1: "copy_stride a N 0 inb = Some in1" "same_outside (a + N) (a + 2 * N) inb in1"
        "take h (drop (a + N) in1) = every_other 0 ?xs"
      using copy_stride_values [OF less.prems(3), of 0] 3 by (auto simp: h_def)
    have len1: "length in1 = length inb" using in1(2) by (rule same_outside_length)
    obtain in1' out1 where m1: "fft T (a + N) h (b + 2 * N) (in1, outb) = Some (in1', out1)"
        "same_outside (a + N + h) (a + N + 2 * h) in1 in1'" "same_outside (b + 2 * N) (b + 2 * N + 6 * h) outb out1"
        "pairs_at out1 (b + 2 * N) (fft_values T (every_other 0 ?xs))"
      using less.IH [OF N(3,2,4), of "a + N" in1 "b + 2 * N" outb] less.prems(3,4) N(1) len1 in1(3) by auto
    have len1': "length in1' = length inb" using m1(2) len1 by (simp add: same_outside_length)
    have xs1: "take N (drop a in1') = ?xs"
      using in1(2) m1(2) len1' less.prems(3) N(1)
      by (intro nth_equalityI) (auto simp: same_outside_def)
    obtain in2 where in2: "copy_stride a N 1 in1' = Some in2" "same_outside (a + N) (a + 2 * N) in1' in2"
        "take h (drop (a + N) in2) = every_other 1 ?xs"
      using copy_stride_values [of a N in1' 1] less.prems(3) 3 len1' xs1 by (auto simp: h_def)
    have len2: "length in2 = length inb" using in2(2) len1' by (simp add: same_outside_length)
    have lo1: "length out1 = length outb" using m1(3) by (rule same_outside_length)
    obtain in2' out2 where m2: "fft T (a + N) h (b + 3 * N) (in2, out1) = Some (in2', out2)"
        "same_outside (a + N + h) (a + N + 2 * h) in2 in2'" "same_outside (b + 3 * N) (b + 3 * N + 6 * h) out1 out2"
        "pairs_at out2 (b + 3 * N) (fft_values T (every_other 1 ?xs))"
      using less.IH [OF N(3,2,4), of "a + N" in2 "b + 3 * N" out1] less.prems(3,4) N(1) len2 lo1 in2(3) by auto
    have lo2: "length out2 = length outb" using m2(3) lo1 by (simp add: same_outside_length)
    let ?es = "fft_values T (every_other 0 ?xs)" and ?ds = "fft_values T (every_other 1 ?xs)"
    have es: "pairs_at out2 (b + 2 * N) ?es"
      using m1(4) m2(3) by (rule pairs_at_same) (use xs N in simp)
    obtain out3 where m3: "for_loop h (combine_turn T N b) out2 = Some out3" "same_outside b (b + 2 * N) out2 out3"
        "pairs_at out3 b (map (\<lambda>k. fst (combined T ?es ?ds k)) [0 ..< h] @ map (\<lambda>k. snd (combined T ?es ?ds k)) [0 ..< h])"
      using combine_loop_values [OF assms N(2), of b out2 ?es ?ds] es m2(4) less.prems(2,4) N(1) lo2 xs by auto
    have "fft_values T ?xs = map (\<lambda>k. fst (combined T ?es ?ds k)) [0 ..< h] @ map (\<lambda>k. snd (combined T ?es ?ds k)) [0 ..< h]"
      using xs 3 less.prems(1) by (subst fft_values.simps) (auto simp: Let_def h_def)
    moreover have "fft T a N b (inb, outb) = Some (in2', out3)"
      using 3 less.prems(1) in1(1) m1(1) in2(1) m2(1) m3(1)
      by (subst fft.simps) (auto simp: h_def [symmetric])
    moreover have "same_outside (a + N) (a + 2 * N) inb in2'"
    proof -
      have "same_outside (a + N) (a + 2 * N) in1 in1'" "same_outside (a + N) (a + 2 * N) in2 in2'"
        by (rule same_outside_mono [OF m1(2)], use N(1) in simp_all)
          (rule same_outside_mono [OF m2(2)], use N(1) in simp_all)
      with in1(2) in2(2) show ?thesis by (meson same_outside_trans)
    qed
    moreover have "same_outside b (b + 6 * N) outb out3"
    proof -
      have "same_outside b (b + 6 * N) outb out1" by (rule same_outside_mono [OF m1(3)]) (use N(1) in simp_all)
      moreover have "same_outside b (b + 6 * N) out1 out2" by (rule same_outside_mono [OF m2(3)]) (use N(1) in simp_all)
      moreover have "same_outside b (b + 6 * N) out2 out3" by (rule same_outside_mono [OF m3(2)]) simp_all
      ultimately show ?thesis by (meson same_outside_trans)
    qed
    ultimately show ?thesis using m3(3) by simp
  qed
qed


section \<open>Exact arithmetic\<close>

text \<open>
  What the transform needs of the arithmetic and of its tables: a commutative ring, and tables that obey
  the addition theorems around a circle of \<^const>\<open>sin_cos_n_count\<close> steps.
\<close>

locale exact_tables =
  fixes T :: "'a::comm_ring_1 fourier"
  assumes plus: "fl_add (fo_flt T) x y = x + y"
    and minus: "fl_sub (fo_flt T) x y = x - y"
    and times: "fl_mul (fo_flt T) x y = x * y"
    and neg: "fo_neg T x = - x"
    and zero: "fl_lit (fo_flt T) 0 = 0"
    and tables: "tables_ok T"
    and start: "fo_cos T ! 0 = 1" "fo_sin T ! 0 = 0"
    and half: "fo_cos T ! (sin_cos_n_count div 2) = - 1" "fo_sin T ! (sin_cos_n_count div 2) = 0"
    and cos_sum: "fo_cos T ! ((i + j) mod sin_cos_n_count) =
      fo_cos T ! (i mod sin_cos_n_count) * fo_cos T ! (j mod sin_cos_n_count) -
      fo_sin T ! (i mod sin_cos_n_count) * fo_sin T ! (j mod sin_cos_n_count)"
    and sin_sum: "fo_sin T ! ((i + j) mod sin_cos_n_count) =
      fo_sin T ! (i mod sin_cos_n_count) * fo_cos T ! (j mod sin_cos_n_count) +
      fo_cos T ! (i mod sin_cos_n_count) * fo_sin T ! (j mod sin_cos_n_count)"
begin

definition cosine :: "nat \<Rightarrow> 'a" where "cosine i = fo_cos T ! (i mod sin_cos_n_count)"
definition sine :: "nat \<Rightarrow> 'a" where "sine i = fo_sin T ! (i mod sin_cos_n_count)"

lemma cosine_add: "cosine (i + j) = cosine i * cosine j - sine i * sine j"
  unfolding cosine_def sine_def by (rule cos_sum)

lemma sine_add: "sine (i + j) = sine i * cosine j + cosine i * sine j"
  unfolding cosine_def sine_def by (rule sin_sum)

lemma turn: "cosine (sin_cos_n_count * i) = 1" "sine (sin_cos_n_count * i) = 0"
  by (simp_all add: cosine_def sine_def start)

lemma half_turn: "cosine (i + sin_cos_n_count div 2) = - cosine i" "sine (i + sin_cos_n_count div 2) = - sine i"
proof -
  have "cosine (sin_cos_n_count div 2) = - 1" "sine (sin_cos_n_count div 2) = 0"
    using half by (simp_all add: cosine_def sine_def sin_cos_n_count_def)
  then show "cosine (i + sin_cos_n_count div 2) = - cosine i" "sine (i + sin_cos_n_count div 2) = - sine i"
    by (simp_all add: cosine_add sine_add)
qed

definition fourier_sum :: "(nat \<Rightarrow> 'a) \<Rightarrow> nat \<Rightarrow> nat \<Rightarrow> nat \<Rightarrow> 'a \<times> 'a" where
  "fourier_sum x N s k = (\<Sum>n<N. x n * cosine (k * n * s), - (\<Sum>n<N. x n * sine (k * n * s)))"

lemma fold_sums:
  "fold (\<lambda>n acc. (fl_add (fo_flt T) (fst acc) (fl_mul (fo_flt T) (x n) (c n)),
      fl_sub (fo_flt T) (snd acc) (fl_mul (fo_flt T) (x n) (d n)))) [0 ..< N] (0, 0) =
   (\<Sum>n<N. x n * c n, - (\<Sum>n<N. x n * d n))"
  by (induction N) (simp_all add: plus minus times lessThan_Suc)

lemma dft_value_sum: "dft_value T xs k = fourier_sum ((!) xs) (length xs) (sin_cos_n_count div length xs) k"
  unfolding dft_value_def Let_def zero fold_sums by (simp add: fourier_sum_def cosine_def sine_def)

lemma sum_even_odd:
  fixes f :: "nat \<Rightarrow> 'a"
  shows "(\<Sum>n<2 * h. f n) = (\<Sum>i<h. f (2 * i)) + (\<Sum>i<h. f (2 * i + 1))"
  by (induction h) (simp_all add: lessThan_Suc algebra_simps)

text \<open>The step of Cooley and Tukey, for the first and for the second half.\<close>

lemma fourier_sum_halves:
  fixes x :: "nat \<Rightarrow> 'a"
  assumes e: "fourier_sum (\<lambda>i. x (2 * i)) h (2 * s) k = (e1, e2)"
    and d: "fourier_sum (\<lambda>i. x (2 * i + 1)) h (2 * s) k = (d1, d2)"
  shows "fourier_sum x (2 * h) s k =
    (e1 + cosine (k * s) * d1 + sine (k * s) * d2, e2 + cosine (k * s) * d2 - sine (k * s) * d1)"
proof -
  have odd: "k * (2 * i + 1) * s = k * i * (2 * s) + k * s" for i by (simp add: algebra_simps)
  have even: "k * (2 * i) * s = k * i * (2 * s)" for i by simp
  have c: "(\<Sum>i<h. x (2 * i + 1) * cosine (k * (2 * i + 1) * s)) = cosine (k * s) * d1 + sine (k * s) * d2"
    using d unfolding odd cosine_add by (auto simp: fourier_sum_def sum_distrib_left sum_subtractf algebra_simps)
  have d: "(\<Sum>i<h. x (2 * i + 1) * sine (k * (2 * i + 1) * s)) = sine (k * s) * d1 - cosine (k * s) * d2"
    using d unfolding odd sine_add by (auto simp: fourier_sum_def sum_distrib_left sum.distrib algebra_simps)
  have e: "(\<Sum>i<h. x (2 * i) * cosine (k * (2 * i) * s)) = e1" "(\<Sum>i<h. x (2 * i) * sine (k * (2 * i) * s)) = - e2"
    using e unfolding even by (auto simp: fourier_sum_def)
  show ?thesis unfolding fourier_sum_def sum_even_odd c d e by (simp add: algebra_simps)
qed

lemma fourier_sum_shift:
  assumes "2 * h * s = sin_cos_n_count"
  shows "fourier_sum x h (2 * s) (k + h) = fourier_sum x h (2 * s) k"
proof -
  have "(k + h) * i * (2 * s) = k * i * (2 * s) + sin_cos_n_count * i" for i
    unfolding assms [symmetric] by (simp add: algebra_simps)
  then show ?thesis by (simp only: fourier_sum_def cosine_add sine_add turn) simp
qed

lemma fourier_sum_every_other:
  assumes "length xs = 2 * h" "r < 2"
  shows "fourier_sum ((!) (every_other r xs)) h s k = fourier_sum (\<lambda>i. xs ! (2 * i + r)) h s k"
  using assms by (simp add: fourier_sum_def every_other_def)

lemma combined_sum:
  assumes "k < h" "length es = h" "2 * h * s = sin_cos_n_count" "es ! k = (e1, e2)" "ds ! k = (d1, d2)"
  shows "combined T es ds k =
    ((e1 + cosine (k * s) * d1 + sine (k * s) * d2, e2 + cosine (k * s) * d2 - sine (k * s) * d1),
     (e1 - cosine (k * s) * d1 - sine (k * s) * d2, e2 - cosine (k * s) * d2 + sine (k * s) * d1))"
proof -
  have s: "sin_cos_n_count div (2 * length es) = s" using assms(1-3) by (metis div_mult_self1_is_m less_nat_zero_code mult_eq_0_iff zero_less_numeral gr0I)
  have "k * s < sin_cos_n_count"
  proof -
    have "k * s \<le> h * s" using assms(1) by (intro mult_le_mono1) simp
    moreover have "h * s = 200" using assms(3) by (simp add: sin_cos_n_count_def)
    ultimately show ?thesis unfolding sin_cos_n_count_def by linarith
  qed
  then have "fo_cos T ! (k * s) = cosine (k * s)" "fo_sin T ! (k * s) = sine (k * s)" by (simp_all add: cosine_def sine_def)
  then show ?thesis using assms(4,5) unfolding combined_def s Let_def combine_def by (simp add: plus minus times neg)
qed

lemma fft_values_sum:
  "length xs dvd sin_cos_n_count \<Longrightarrow> k < length xs \<Longrightarrow>
     fft_values T xs ! k = fourier_sum ((!) xs) (length xs) (sin_cos_n_count div length xs) k"
proof (induction "length xs" arbitrary: xs k rule: less_induct)
  case less
  consider "length xs = 1" | "length xs \<noteq> 1" "odd (length xs)" | "even (length xs)" by blast
  then show ?case
  proof cases
    case 1
    then obtain x where "xs = [x]" by (cases xs) auto
    then show ?thesis using 1 less.prems(2)
      by (subst fft_values.simps) (simp add: fourier_sum_def cosine_def sine_def start zero)
  next
    case 2
    then show ?thesis using less.prems(2) by (subst fft_values.simps) (auto simp: dft_value_sum)
  next
    case 3
    define h where "h = length xs div 2"
    define s where "s = sin_cos_n_count div length xs"
    have len: "length xs = 2 * h" "0 < h" using 3 less.prems(2) by (auto simp: h_def)
    have s: "2 * h * s = sin_cos_n_count" using less.prems(1) unfolding s_def len(1) [symmetric] by simp
    have s2: "sin_cos_n_count div h = 2 * s" unfolding s [symmetric] using len(2) by simp
    have s1: "sin_cos_n_count div (2 * h) = s" by (simp add: s_def len(1))
    have dvd: "h dvd sin_cos_n_count" unfolding s [symmetric] by simp
    define es where "es = fft_values T (every_other 0 xs)"
    define ds where "ds = fft_values T (every_other 1 xs)"
    have half: "es ! j = fourier_sum (\<lambda>i. xs ! (2 * i)) h (2 * s) j"
        "ds ! j = fourier_sum (\<lambda>i. xs ! (2 * i + 1)) h (2 * s) j" if "j < h" for j
      using less.hyps [of "every_other 0 xs" j] less.hyps [of "every_other 1 xs" j] that len dvd s2
        fourier_sum_every_other [OF len(1), of 0] fourier_sum_every_other [OF len(1), of 1]
      by (simp_all add: es_def ds_def)
    have ls: "length es = h" by (simp add: es_def h_def)
    have eq: "fft_values T xs = map (\<lambda>k. fst (combined T es ds k)) [0 ..< h] @ map (\<lambda>k. snd (combined T es ds k)) [0 ..< h]"
      using len by (subst fft_values.simps) (auto simp: Let_def es_def ds_def)
    define j where "j = (if k < h then k else k - h)"
    have j: "j < h" using less.prems(2) len by (auto simp: j_def)
    obtain e1 e2 d1 d2 where p: "es ! j = (e1, e2)" "ds ! j = (d1, d2)" by (meson surj_pair)
    note comb = combined_sum [OF j ls s p]
    note first = fourier_sum_halves [of "(!) xs" h s j e1 e2 d1 d2]
    show ?thesis
    proof (cases "k < h")
      case True
      then show ?thesis using comb first half [OF j] p len by (simp add: eq nth_append j_def s1)
    next
      case False
      then have k: "k = j + h" by (simp add: j_def)
      have "(j + h) * s = j * s + sin_cos_n_count div 2" using s by (simp add: algebra_simps)
      then have "fourier_sum ((!) xs) (2 * h) s k =
          (e1 - cosine (j * s) * d1 - sine (j * s) * d2, e2 - cosine (j * s) * d2 + sine (j * s) * d1)"
        using fourier_sum_halves [of "(!) xs" h s k e1 e2 d1 d2] half [OF j] p
        by (simp add: k fourier_sum_shift [OF s] half_turn)
      moreover have "fft_values T xs ! k = snd (combined T es ds j)"
        using False less.prems(2) len by (simp add: eq nth_append j_def)
      ultimately show ?thesis using comb len by (simp add: s1)
    qed
  qed
qed

end


section \<open>Real numbers\<close>

text \<open>
  The tables of the code, filled with the sine and the cosine of real numbers.  The transform uses neither
  the order nor minus infinity, for which there is no real number.
\<close>

definition real_ops :: "real float_ops" where
  "real_ops = \<lparr>fl_lt = (<), fl_le = (\<le>), fl_add = (+), fl_sub = (-), fl_mul = (*), fl_div = (/), fl_exp = exp,
     fl_log = ln, fl_pow = (powr), fl_lit = of_rat, fl_trunc = (\<lambda>x. if x < 0 then \<lceil>x\<rceil> else \<lfloor>x\<rfloor>), fl_round = round,
     fl_ninf = 0\<rparr>"

definition real_fourier :: "real fourier" where
  "real_fourier = \<lparr>fo_flt = real_ops, fo_neg = uminus, fo_cos = fill_sin_cos_table real_ops pi cos,
     fo_sin = fill_sin_cos_table real_ops pi sin\<rparr>"

abbreviation step_angle :: "nat \<Rightarrow> real" where
  "step_angle i \<equiv> 2 * pi * real i / real sin_cos_n_count"

lemma table_angle_real: "table_angle real_ops pi i = step_angle i"
  by (simp add: table_angle_def real_ops_def)

lemma real_table:
  "fo_cos real_fourier ! (i mod sin_cos_n_count) = cos (step_angle i)"
  "fo_sin real_fourier ! (i mod sin_cos_n_count) = sin (step_angle i)"
proof -
  define q where "q = i div sin_cos_n_count"
  have "real i = real (i mod sin_cos_n_count) + real q * real sin_cos_n_count"
    unfolding q_def of_nat_mult [symmetric] of_nat_add [symmetric] by simp
  then have angle: "step_angle i = step_angle (i mod sin_cos_n_count) + 2 * real q * pi"
    by (simp add: sin_cos_n_count_def field_simps)
  have "cos (step_angle i) = cos (step_angle (i mod sin_cos_n_count))" "sin (step_angle i) = sin (step_angle (i mod sin_cos_n_count))"
    unfolding angle by (simp_all add: cos_add sin_add)
  moreover have "i mod sin_cos_n_count < sin_cos_n_count" by (simp add: sin_cos_n_count_def)
  ultimately show "fo_cos real_fourier ! (i mod sin_cos_n_count) = cos (step_angle i)"
    "fo_sin real_fourier ! (i mod sin_cos_n_count) = sin (step_angle i)"
    by (simp_all add: real_fourier_def fill_sin_cos_table_def table_angle_real)
qed

lemma step_angle_add: "step_angle (i + j) = step_angle i + step_angle j"
  by (simp add: add_divide_distrib distrib_left)

interpretation circle: exact_tables real_fourier
proof
  have zero: "fo_cos real_fourier ! 0 = cos (step_angle 0)" "fo_sin real_fourier ! 0 = sin (step_angle 0)"
    using real_table [of 0] by simp_all
  then show "fo_cos real_fourier ! 0 = 1" "fo_sin real_fourier ! 0 = 0" by simp_all
  have "fo_cos real_fourier ! (200 mod sin_cos_n_count) = cos pi" "fo_sin real_fourier ! (200 mod sin_cos_n_count) = sin pi"
    unfolding real_table by (simp_all add: sin_cos_n_count_def)
  then show "fo_cos real_fourier ! (sin_cos_n_count div 2) = - 1" "fo_sin real_fourier ! (sin_cos_n_count div 2) = 0"
    by (simp_all add: sin_cos_n_count_def)
  show "fo_cos real_fourier ! ((i + j) mod sin_cos_n_count) =
      fo_cos real_fourier ! (i mod sin_cos_n_count) * fo_cos real_fourier ! (j mod sin_cos_n_count) -
      fo_sin real_fourier ! (i mod sin_cos_n_count) * fo_sin real_fourier ! (j mod sin_cos_n_count)" for i j
    unfolding real_table step_angle_add by (rule cos_add)
  show "fo_sin real_fourier ! ((i + j) mod sin_cos_n_count) =
      fo_sin real_fourier ! (i mod sin_cos_n_count) * fo_cos real_fourier ! (j mod sin_cos_n_count) +
      fo_cos real_fourier ! (i mod sin_cos_n_count) * fo_sin real_fourier ! (j mod sin_cos_n_count)" for i j
    unfolding real_table step_angle_add by (rule sin_add)
qed (simp_all add: real_fourier_def real_ops_def tables_ok_def fill_sin_cos_table_def)

text \<open>
  C1: on exact numbers, \<open>fft\<close> computes the discrete Fourier transform of its input, for every length that
  divides 400, within its buffers and without changing the input.
\<close>

theorem fft_is_dft:
  assumes "N dvd sin_cos_n_count" "a + 2 * N \<le> length inb" "b + 6 * N \<le> length outb"
  shows "\<exists>inb' outb'. fft real_fourier a N b (inb, outb) = Some (inb', outb') \<and>
    take N (drop a inb') = take N (drop a inb) \<and> same_outside b (b + 6 * N) outb outb' \<and>
    (\<forall>k < N. outb' ! (b + 2 * k) = (\<Sum>n<N. inb ! (a + n) * cos (2 * pi * real (k * n) / real N)) \<and>
       outb' ! (b + 2 * k + 1) = - (\<Sum>n<N. inb ! (a + n) * sin (2 * pi * real (k * n) / real N)))"
proof -
  define xs where "xs = take N (drop a inb)"
  have N: "0 < N" "N \<le> sin_cos_n_count" using assms(1) by (auto simp: sin_cos_n_count_def dvd_imp_le intro: Nat.gr0I)
  have len: "length xs = N" using assms(2) by (simp add: xs_def)
  obtain inb' outb' where run: "fft real_fourier a N b (inb, outb) = Some (inb', outb')"
      "same_outside (a + N) (a + 2 * N) inb inb'" "same_outside b (b + 6 * N) outb outb'"
      "pairs_at outb' b (fft_values real_fourier xs)"
    using fft_buffers [OF circle.tables N assms(2,3)] by (auto simp: xs_def)
  have angle: "step_angle (k * n * (sin_cos_n_count div N)) = 2 * pi * real (k * n) / real N" for k n
    using N real_of_nat_div [OF assms(1)] by (simp add: sin_cos_n_count_def field_simps)
  have "fft_values real_fourier xs ! k = circle.fourier_sum ((!) xs) N (sin_cos_n_count div N) k" if "k < N" for k
    using circle.fft_values_sum [of xs k] that assms(1) len by simp
  then have "fft_values real_fourier xs ! k = (\<Sum>n<N. inb ! (a + n) * cos (2 * pi * real (k * n) / real N),
      - (\<Sum>n<N. inb ! (a + n) * sin (2 * pi * real (k * n) / real N)))" if "k < N" for k
    using that assms(2) unfolding circle.fourier_sum_def circle.cosine_def circle.sine_def real_table angle
    by (simp add: xs_def)
  moreover have "take N (drop a inb') = take N (drop a inb)"
    using run(2) assms(2) by (intro nth_equalityI) (auto simp: same_outside_def)
  ultimately show ?thesis using run len unfolding pairs_at_def by auto
qed

theorem fft_is_dft_witness:
  "\<exists>inb' outb'. fft real_fourier 0 400 0 (replicate 800 1, replicate 3200 0) = Some (inb', outb') \<and> outb' ! 0 = 400"
proof -
  obtain inb' outb' :: "real list" where run: "fft real_fourier 0 400 0 (replicate 800 1, replicate 3200 0) = Some (inb', outb')"
      "\<forall>k < 400. outb' ! (0 + 2 * k) = (\<Sum>n<400. replicate 800 1 ! (0 + n) * cos (2 * pi * real (k * n) / real 400))"
    using fft_is_dft [of 400 0 "replicate 800 1" 0 "replicate 3200 0"] by (auto simp: sin_cos_n_count_def)
  then have "outb' ! 0 = (\<Sum>n<400. replicate 800 1 ! n)" by (auto dest: spec [of _ "0::nat"])
  also have "\<dots> = (\<Sum>n<400::nat. 1)" by (rule sum.cong) simp_all
  finally show ?thesis using run(1) by simp
qed

end
