(* ===== verification/Spectrogram.thy ===== *)
theory Spectrogram
  imports Fourier Logits
begin

text \<open>
  \<open>log_mel_spectrogram\<close> of \<open>src/src/whisper.cpp\<close>: the padding of the audio, the workers that share the
  frames out among them, and the normalisation.  Whatever the number of threads, the result is the same,
  and every access stays inside its array if the audio has more than 200 samples.
\<close>

section \<open>Data\<close>

record 'f mel =
  ml_n_len :: nat
  ml_n_len_org :: int
  ml_n_mel :: nat
  ml_data :: "'f list"

record 'f mel_filters =
  mf_n_mel :: nat
  mf_n_fft :: nat
  mf_data :: "'f list"

text \<open>\<open>fill_hann_window\<close>; \<open>cosf\<close> takes the rounded angle.\<close>

definition fill_hann_window :: "('f, 'd) arith \<Rightarrow> 'd \<Rightarrow> ('f \<Rightarrow> 'f) \<Rightarrow> nat \<Rightarrow> bool \<Rightarrow> 'f list" where
  "fill_hann_window A pi_lit cosf n periodic =
     (let D = a_dbl A; offset = (if periodic then 0 else -1)
      in map (\<lambda>i. a_narrow A (fl_mul D (fl_lit D (1 / 2)) (fl_sub D (fl_lit D 1) (a_widen A (cosf (a_narrow A
             (fl_div D (fl_mul D (fl_mul D (fl_lit D 2) pi_lit) (fl_lit D (of_nat i)))
               (fl_lit D (of_int (int n + offset))))))))))
         [0 ..< n])"

section \<open>Padding\<close>

text \<open>
  The vector is zero, the audio is copied behind the first half frame, 30 seconds and a half frame behind it
  are cleared, and the samples 1 to \<open>frame_size / 2\<close> are reflected to the front.
\<close>

definition stage_1_pad :: nat where
  "stage_1_pad = 16000 * 30"

definition pad_samples :: "'f \<Rightarrow> nat \<Rightarrow> 'f list \<Rightarrow> 'f list option" where
  "pad_samples zero frame_size samples =
     (let n = length samples; pad2 = frame_size div 2
      in Option.bind (mem_write (replicate (n + stage_1_pad + pad2 * 2) zero) pad2 samples) (\<lambda>p1.
         Option.bind (mem_write p1 (n + pad2) (replicate (stage_1_pad + pad2) zero)) (\<lambda>p2.
         Option.bind (mem_read samples 1 pad2) (\<lambda>r. mem_write p2 0 (rev r)))))"

section \<open>One frame\<close>

text \<open>\<open>n\<close> is the length given to the worker; the scratch space behind the frame is cleared with it.\<close>

definition window_frame :: "'f float_ops \<Rightarrow> 'f list \<Rightarrow> 'f list \<Rightarrow> nat \<Rightarrow> nat \<Rightarrow> nat \<Rightarrow> 'f list \<Rightarrow> 'f list option" where
  "window_frame F hann samples n frame_size offset fft_in =
     map_option (\<lambda>xs. if n - offset < frame_size then take (n - offset) xs @ replicate (length xs - (n - offset)) (fl_zero F) else xs)
       (for_loop (min frame_size (n - offset))
          (\<lambda>j xs. Option.bind (rd hann j) (\<lambda>h. Option.bind (rd samples (offset + j)) (\<lambda>x. wr j (fl_mul F h x) xs))) fft_in)"

text \<open>The squared moduli overwrite the first half of the transform.\<close>

definition modulus :: "'f float_ops \<Rightarrow> nat \<Rightarrow> 'f list \<Rightarrow> 'f list option" where
  "modulus F n_fft out =
     for_loop n_fft (\<lambda>j xs. Option.bind (rd xs (2 * j)) (\<lambda>re. Option.bind (rd xs (2 * j + 1)) (\<lambda>im.
        wr j (fl_add F (fl_mul F re re) (fl_mul F im im)) xs))) out"

definition filter_product :: "'f float_ops \<Rightarrow> 'f list \<Rightarrow> 'f list \<Rightarrow> nat \<Rightarrow> nat \<Rightarrow> 'f option" where
  "filter_product F out data base k =
     Option.bind (rd out k) (\<lambda>x. map_option (fl_mul F x) (rd data (base + k)))"

definition four_products :: "('f, 'd) arith \<Rightarrow> 'f list \<Rightarrow> 'f list \<Rightarrow> nat \<Rightarrow> nat \<Rightarrow> 'd \<Rightarrow> 'd option" where
  "four_products A out data base k s =
     (let F = a_flt A; p = filter_product F out data base
      in Option.bind (p k) (\<lambda>p0. Option.bind (p (k + 1)) (\<lambda>p1. Option.bind (p (k + 2)) (\<lambda>p2. Option.bind (p (k + 3)) (\<lambda>p3.
           Some (fl_add (a_dbl A) s (a_widen A (fl_add F (fl_add F (fl_add F p0 p1) p2) p3))))))))"

text \<open>Four products at a time while \<open>k < n_fft - 3\<close>, the rest one by one.\<close>

definition mel_energy :: "('f, 'd) arith \<Rightarrow> ('d \<Rightarrow> 'd) \<Rightarrow> 'f mel_filters \<Rightarrow> 'f list \<Rightarrow> nat \<Rightarrow> 'f option" where
  "mel_energy A log10 flt out j =
     (let D = a_dbl A; n_fft = mf_n_fft flt; base = j * n_fft; n4 = (n_fft - 3 + 3) div 4
      in Option.bind (for_loop n4 (\<lambda>q. four_products A out (mf_data flt) base (4 * q)) (fl_zero D)) (\<lambda>s4.
         Option.bind (for_loop (n_fft - 4 * n4) (\<lambda>r s. map_option (\<lambda>p. fl_add D s (a_widen A p))
                        (filter_product (a_flt A) out (mf_data flt) base (4 * n4 + r))) s4) (\<lambda>s.
           Some (a_narrow A (log10 (if fl_lt D s (fl_lit D (1 / 10 ^ 10)) then fl_lit D (1 / 10 ^ 10) else s))))))"

section \<open>A worker\<close>

type_synonym 'f worker_state = "'f list \<times> 'f list \<times> 'f list"

definition frame_turn :: "('f, 'd) arith \<Rightarrow> 'f fourier \<Rightarrow> ('d \<Rightarrow> 'd) \<Rightarrow> 'f list \<Rightarrow> 'f list \<Rightarrow> nat \<Rightarrow> nat \<Rightarrow> nat
    \<Rightarrow> 'f mel_filters \<Rightarrow> nat \<Rightarrow> nat \<Rightarrow> nat \<Rightarrow> 'f worker_state \<Rightarrow> 'f worker_state option" where
  "frame_turn A T log10 hann samples n frame_size frame_step flt n_mel n_len i =
     (\<lambda>(fft_in, fft_out, data).
        Option.bind (window_frame (a_flt A) hann samples n frame_size (i * frame_step) fft_in) (\<lambda>in1.
        Option.bind (fft T 0 frame_size 0 (in1, fft_out)) (\<lambda>(in2, out2).
        Option.bind (modulus (a_flt A) (mf_n_fft flt) out2) (\<lambda>out3.
        map_option (\<lambda>data1. (in2, out3, data1))
          (for_loop n_mel (\<lambda>j d. Option.bind (mel_energy A log10 flt out3 j) (\<lambda>v. wr (j * n_len + i) v d)) data)))))"

text \<open>The frames behind the audio get the logarithm of the least energy.\<close>

definition silent_turn :: "('f, 'd) arith \<Rightarrow> ('d \<Rightarrow> 'd) \<Rightarrow> nat \<Rightarrow> nat \<Rightarrow> nat \<Rightarrow> 'f list \<Rightarrow> 'f list option" where
  "silent_turn A log10 n_mel n_len i data =
     for_loop n_mel (\<lambda>j. wr (j * n_len + i) (a_narrow A (log10 (fl_lit (a_dbl A) (1 / 10 ^ 10))))) data"

definition mel_worker :: "('f, 'd) arith \<Rightarrow> 'f fourier \<Rightarrow> ('d \<Rightarrow> 'd) \<Rightarrow> 'f list \<Rightarrow> 'f list \<Rightarrow> nat \<Rightarrow> nat \<Rightarrow> nat \<Rightarrow> nat
    \<Rightarrow> 'f mel_filters \<Rightarrow> nat \<Rightarrow> nat \<Rightarrow> nat \<Rightarrow> 'f list \<Rightarrow> 'f list option" where
  "mel_worker A T log10 hann samples n frame_size frame_step n_threads flt n_mel n_len ith data =
     (let z = fl_zero (a_flt A)
      in Option.bind (stride_loop (frame_turn A T log10 hann samples n frame_size frame_step flt n_mel n_len)
             (min (n div frame_step + 1) n_len) n_threads ith
             (replicate (frame_size * 2) z, replicate (frame_size * 2 * 2 * 2) z, data)) (\<lambda>(i, s).
           map_option snd (stride_loop (silent_turn A log10 n_mel n_len) n_len n_threads i (snd (snd s)))))"

section \<open>The spectrogram\<close>

definition mel_max :: "('f, 'd) arith \<Rightarrow> 'f list \<Rightarrow> 'd" where
  "mel_max A data = fold (\<lambda>x m. if fl_lt (a_dbl A) m (a_widen A x) then a_widen A x else m) data
     (fl_lit (a_dbl A) (- (10 ^ 20)))"

definition mel_normalise :: "('f, 'd) arith \<Rightarrow> 'f list \<Rightarrow> 'f list" where
  "mel_normalise A data =
     (let D = a_dbl A; m = fl_sub D (mel_max A data) (fl_lit D 8)
      in map (\<lambda>x. let y = (if fl_lt D (a_widen A x) m then a_narrow A m else x)
           in a_narrow A (fl_div D (fl_add D (a_widen A y) (fl_lit D 4)) (fl_lit D 4))) data)"

text \<open>
  The workers run at the same time; they write different columns of the spectrogram and read none, so they
  are run here one after another.  The frame size is asserted; without a thread the vector of workers
  cannot be made.  \<open>old\<close> is what the spectrogram held before.
\<close>

definition log_mel_spectrogram :: "('f, 'd) arith \<Rightarrow> 'f fourier \<Rightarrow> ('d \<Rightarrow> 'd) \<Rightarrow> 'f list \<Rightarrow> nat \<Rightarrow> nat \<Rightarrow> nat \<Rightarrow> nat
    \<Rightarrow> 'f mel_filters \<Rightarrow> 'f list \<Rightarrow> 'f list \<Rightarrow> 'f mel option" where
  "log_mel_spectrogram A T log10 hann frame_size frame_step n_mel n_threads flt old samples =
     (if frame_size \<noteq> sin_cos_n_count \<or> n_threads = 0 then None
      else Option.bind (pad_samples (fl_zero (a_flt A)) frame_size samples) (\<lambda>padded.
        let n = length samples; pad2 = frame_size div 2; n_len = (length padded - frame_size) div frame_step
        in map_option (\<lambda>data. \<lparr>ml_n_len = n_len,
               ml_n_len_org = 1 + tdiv (int n + int pad2 - int frame_size) (int frame_step),
               ml_n_mel = n_mel, ml_data = mel_normalise A data\<rparr>)
             (for_loop n_threads (mel_worker A T log10 hann padded (n + pad2) frame_size frame_step n_threads flt n_mel n_len)
                (take (n_mel * n_len) old @ replicate (n_mel * n_len - length old) (fl_zero (a_flt A))))))"

text \<open>\<open>whisper_pcm_to_mel_with_state\<close>, with \<open>WHISPER_N_FFT\<close> and \<open>WHISPER_HOP_LENGTH\<close>.\<close>

definition pcm_to_mel :: "('f, 'd) arith \<Rightarrow> 'f fourier \<Rightarrow> ('d \<Rightarrow> 'd) \<Rightarrow> 'f list \<Rightarrow> nat \<Rightarrow> 'f mel_filters \<Rightarrow> 'f list
    \<Rightarrow> 'f list \<Rightarrow> 'f mel option" where
  "pcm_to_mel A T log10 hann n_threads flt old samples =
     log_mel_spectrogram A T log10 hann 400 160 (mf_n_mel flt) n_threads flt old samples"


section \<open>What a frame computes\<close>

definition frame_values :: "'f float_ops \<Rightarrow> 'f list \<Rightarrow> 'f list \<Rightarrow> nat \<Rightarrow> nat \<Rightarrow> nat \<Rightarrow> 'f list" where
  "frame_values F hann samples n frame_size offset =
     map (\<lambda>j. if offset + j < n then fl_mul F (hann ! j) (samples ! (offset + j)) else fl_zero F) [0 ..< frame_size]"

definition power_values :: "'f float_ops \<Rightarrow> ('f \<times> 'f) list \<Rightarrow> nat \<Rightarrow> 'f list" where
  "power_values F zs n_fft =
     map (\<lambda>k. fl_add F (fl_mul F (fst (zs ! k)) (fst (zs ! k))) (fl_mul F (snd (zs ! k)) (snd (zs ! k)))) [0 ..< n_fft]"

lemma window_frame_values:
  assumes "frame_size \<le> length hann" "n \<le> length samples" "frame_size \<le> length fft_in" "offset \<le> n"
  shows "\<exists>xs. window_frame F hann samples n frame_size offset fft_in = Some xs \<and> length xs = length fft_in \<and>
    take frame_size xs = frame_values F hann samples n frame_size offset"
proof -
  let ?m = "min frame_size (n - offset)"
  have "\<exists>xs. for_loop ?m (\<lambda>j xs. Option.bind (rd hann j) (\<lambda>h. Option.bind (rd samples (offset + j)) (\<lambda>x. wr j (fl_mul F h x) xs))) fft_in
        = Some xs \<and> same_outside 0 (0 + ?m) fft_in xs \<and> (\<forall>k < ?m. xs ! (0 + k) = fl_mul F (hann ! k) (samples ! (offset + k)))"
    by (rule for_loop_fill) (use assms in auto)
  then obtain xs where xs: "for_loop ?m (\<lambda>j xs. Option.bind (rd hann j) (\<lambda>h. Option.bind (rd samples (offset + j)) (\<lambda>x. wr j (fl_mul F h x) xs))) fft_in
        = Some xs" "length xs = length fft_in" "\<And>k. k < ?m \<Longrightarrow> xs ! k = fl_mul F (hann ! k) (samples ! (offset + k))"
    by (auto dest: same_outside_length)
  let ?ys = "if n - offset < frame_size then take (n - offset) xs @ replicate (length xs - (n - offset)) (fl_zero F) else xs"
  have "take frame_size ?ys = frame_values F hann samples n frame_size offset"
    using xs(2,3) assms by (intro nth_equalityI) (auto simp: frame_values_def nth_append)
  then show ?thesis using xs assms(3) by (auto simp: window_frame_def)
qed

lemma modulus_values:
  assumes "pairs_at out 0 zs" "n_fft \<le> length zs" "2 * n_fft \<le> length out"
  shows "\<exists>out'. modulus F n_fft out = Some out' \<and> length out' = length out \<and> take n_fft out' = power_values F zs n_fft"
proof -
  have "\<exists>ys. modulus F n_fft out = Some ys \<and> same_outside 0 (0 + n_fft) out ys \<and>
      (\<forall>k < n_fft. ys ! (0 + k) = power_values F zs n_fft ! k)"
    unfolding modulus_def
  proof (rule for_loop_fill)
    show "0 + n_fft \<le> length out" using assms(3) by simp
  next
    fix k ys
    assume k: "k < n_fft" and same: "same_outside 0 (0 + k) out ys"
    then have "rd ys (2 * k) = Some (fst (zs ! k))" "rd ys (2 * k + 1) = Some (snd (zs ! k))"
      using assms by (auto simp: rd_def same_outside_length same_outside_nth pairs_at_def)
    then show "Option.bind (rd ys (2 * k)) (\<lambda>re. Option.bind (rd ys (2 * k + 1)) (\<lambda>im.
        wr k (fl_add F (fl_mul F re re) (fl_mul F im im)) ys)) = wr (0 + k) (power_values F zs n_fft ! k) ys"
      using k by (simp add: power_values_def)
  qed
  then obtain ys where ys: "modulus F n_fft out = Some ys" "length ys = length out"
      "\<And>k. k < n_fft \<Longrightarrow> ys ! k = power_values F zs n_fft ! k" by (auto dest: same_outside_length)
  moreover have "take n_fft ys = power_values F zs n_fft"
    using ys(2,3) assms(3) by (intro nth_equalityI) (auto simp: power_values_def)
  ultimately show ?thesis by blast
qed

lemma filter_product_take: "k < m \<Longrightarrow> filter_product F (take m out) data base k = filter_product F out data base k"
  by (simp add: filter_product_def rd_def)

lemma filter_product_total:
  "k < length out \<Longrightarrow> base + k < length data \<Longrightarrow> \<exists>p. filter_product F out data base k = Some p"
  by (simp add: filter_product_def)

lemma four_bound: "q < (n - 3 + 3) div 4 \<Longrightarrow> 4 * q + 3 < (n::nat)"
  by (cases "n < 3") auto

lemma rest_bound: "r < n - 4 * ((n - 3 + 3) div 4) \<Longrightarrow> 4 * ((n - 3 + 3) div 4) + r < (n::nat)"
  by simp

lemma mel_energy_take: "mel_energy A log10 flt (take (mf_n_fft flt) out) j = mel_energy A log10 flt out j"
proof -
  let ?n = "mf_n_fft flt" and ?b = "j * mf_n_fft flt"
  have four: "four_products A (take ?n out) (mf_data flt) ?b (4 * q) s = four_products A out (mf_data flt) ?b (4 * q) s"
    if "q < (?n - 3 + 3) div 4" for q s
    using four_bound [OF that] by (simp add: four_products_def filter_product_take Let_def)
  have rest: "filter_product (a_flt A) (take ?n out) (mf_data flt) ?b (4 * ((?n - 3 + 3) div 4) + r) =
      filter_product (a_flt A) out (mf_data flt) ?b (4 * ((?n - 3 + 3) div 4) + r)"
    if "r < ?n - 4 * ((?n - 3 + 3) div 4)" for r
    using rest_bound [OF that] by (rule filter_product_take)
  show ?thesis unfolding mel_energy_def Let_def
    by (intro Option.bind_cong refl for_loop_cong) (simp_all only: four rest)
qed

lemma mel_energy_total:
  assumes "mf_n_fft flt \<le> length out" "(j + 1) * mf_n_fft flt \<le> length (mf_data flt)"
  shows "\<exists>v. mel_energy A log10 flt out j = Some v"
proof -
  let ?n = "mf_n_fft flt" and ?b = "j * mf_n_fft flt"
  have p: "\<exists>p. filter_product (a_flt A) out (mf_data flt) ?b k = Some p" if "k < ?n" for k
    using filter_product_total that assms by (metis add.commute add_mult_distrib mult_1 less_le_trans add_less_cancel_left)
  have four: "\<exists>s'. four_products A out (mf_data flt) ?b (4 * q) s = Some s'" if "q < (?n - 3 + 3) div 4" for q s
  proof -
    have "4 * q + 3 < ?n" by (rule four_bound [OF that])
    then obtain p0 p1 p2 p3 where "filter_product (a_flt A) out (mf_data flt) ?b (4 * q) = Some p0"
        "filter_product (a_flt A) out (mf_data flt) ?b (4 * q + 1) = Some p1"
        "filter_product (a_flt A) out (mf_data flt) ?b (4 * q + 2) = Some p2"
        "filter_product (a_flt A) out (mf_data flt) ?b (4 * q + 3) = Some p3"
      using p [of "4 * q"] p [of "4 * q + 1"] p [of "4 * q + 2"] p [of "4 * q + 3"] by auto
    then show ?thesis by (simp add: four_products_def Let_def)
  qed
  have "\<exists>s4. for_loop ((?n - 3 + 3) div 4) (\<lambda>q. four_products A out (mf_data flt) ?b (4 * q)) (fl_zero (a_dbl A)) = Some s4"
    by (rule for_loop_total) (rule four)
  then obtain s4 where s4: "for_loop ((?n - 3 + 3) div 4) (\<lambda>q. four_products A out (mf_data flt) ?b (4 * q)) (fl_zero (a_dbl A)) = Some s4" ..
  have rest: "\<exists>s'. map_option (\<lambda>p. fl_add (a_dbl A) s (a_widen A p)) (filter_product (a_flt A) out (mf_data flt) ?b (4 * ((?n - 3 + 3) div 4) + r)) = Some s'"
    if "r < ?n - 4 * ((?n - 3 + 3) div 4)" for r s
    using p [OF rest_bound [OF that]] by auto
  have "\<exists>s. for_loop (?n - 4 * ((?n - 3 + 3) div 4)) (\<lambda>r s. map_option (\<lambda>p. fl_add (a_dbl A) s (a_widen A p))
      (filter_product (a_flt A) out (mf_data flt) ?b (4 * ((?n - 3 + 3) div 4) + r))) s4 = Some s"
    by (rule for_loop_total) (rule rest)
  then show ?thesis using s4 by (auto simp: mel_energy_def Let_def)
qed


section \<open>Columns\<close>

text \<open>The value of a cell of the spectrogram, as a function of the padded audio alone.\<close>

definition mel_cell :: "('f, 'd) arith \<Rightarrow> 'f fourier \<Rightarrow> ('d \<Rightarrow> 'd) \<Rightarrow> 'f list \<Rightarrow> 'f list \<Rightarrow> nat \<Rightarrow> nat \<Rightarrow> nat
    \<Rightarrow> 'f mel_filters \<Rightarrow> nat \<Rightarrow> nat \<Rightarrow> nat \<Rightarrow> 'f" where
  "mel_cell A T log10 hann samples n frame_size frame_step flt bound i j =
     (if i < bound
      then the (mel_energy A log10 flt (power_values (a_flt A)
             (fft_values T (frame_values (a_flt A) hann samples n frame_size (i * frame_step))) (mf_n_fft flt)) j)
      else a_narrow A (log10 (fl_lit (a_dbl A) (1 / 10 ^ 10))))"

text \<open>\<open>column_done C n_mel n_len i d d'\<close>: column \<open>i\<close> has been written and nothing else has changed.\<close>

definition column_done :: "(nat \<Rightarrow> nat \<Rightarrow> 'f) \<Rightarrow> nat \<Rightarrow> nat \<Rightarrow> nat \<Rightarrow> 'f list \<Rightarrow> 'f list \<Rightarrow> bool" where
  "column_done C n_mel n_len i d d' \<longleftrightarrow> length d' = length d \<and>
     (\<forall>j < n_mel. \<forall>c < n_len. d' ! (j * n_len + c) = (if c = i then C i j else d ! (j * n_len + c)))"

lemma cell_bound: "j < n_mel \<Longrightarrow> i < n_len \<Longrightarrow> j * n_len + i < n_mel * (n_len::nat)"
  by (metis add.commute add_less_cancel_left le_trans less_le_trans mult_Suc mult_le_mono1 Suc_leI not_less)

lemma cell_inject: "i < n \<Longrightarrow> i' < n \<Longrightarrow> j * n + i = j' * n + i' \<longleftrightarrow> j = j' \<and> i = (i'::nat)"
  by (metis add_diff_cancel_left' div_mult_self3 div_less add.right_neutral not_less_zero)

lemma column_written:
  assumes "length d = n_mel * n_len" "i < n_len" "\<And>j d. j < n_mel \<Longrightarrow> f j d = wr (j * n_len + i) (C i j) d"
  shows "\<exists>d'. for_loop n_mel f d = Some d' \<and> column_done C n_mel n_len i d d'"
proof -
  define I where "I k d' \<longleftrightarrow> length d' = length d \<and>
      (\<forall>j < n_mel. \<forall>c < n_len. d' ! (j * n_len + c) = (if c = i \<and> j < k then C i j else d ! (j * n_len + c)))" for k d'
  have "\<exists>d'. for_loop n_mel f d = Some d' \<and> I n_mel d'"
  proof (rule for_loop_inv)
    show "I 0 d" by (simp add: I_def)
  next
    fix k d'
    assume k: "k < n_mel" and I: "I k d'"
    have "f k d' = Some (d'[k * n_len + i := C i k])"
      using assms(1,2) assms(3) [OF k] I cell_bound [OF k assms(2)] by (simp add: I_def)
    moreover have "I (Suc k) (d'[k * n_len + i := C i k])"
      using I k assms(1,2) unfolding I_def
      by (auto simp: nth_list_update cell_inject cell_bound less_Suc_eq)
    ultimately show "\<exists>s'. f k d' = Some s' \<and> I (Suc k) s'" by blast
  qed
  then show ?thesis by (auto simp: I_def column_done_def)
qed

text \<open>What the caller of the workers provides.\<close>

definition mel_setup :: "'f fourier \<Rightarrow> 'f list \<Rightarrow> 'f list \<Rightarrow> nat \<Rightarrow> 'f mel_filters \<Rightarrow> nat \<Rightarrow> bool" where
  "mel_setup T hann samples n flt n_mel \<longleftrightarrow>
     tables_ok T \<and> length hann = sin_cos_n_count \<and> n \<le> length samples \<and> mf_n_fft flt = 1 + sin_cos_n_count div 2 \<and>
     n_mel * mf_n_fft flt \<le> length (mf_data flt)"

lemma frame_turn_column:
  assumes "mel_setup T hann samples n flt n_mel" "i * frame_step \<le> n" "i < n_len" "i < bound"
    and "length d = n_mel * n_len" "length fft_in = sin_cos_n_count * 2" "length fft_out = sin_cos_n_count * 2 * 2 * 2"
  shows "\<exists>in1 out1 d'. frame_turn A T log10 hann samples n sin_cos_n_count frame_step flt n_mel n_len i (fft_in, fft_out, d) =
      Some (in1, out1, d') \<and> length in1 = length fft_in \<and> length out1 = length fft_out \<and>
    column_done (mel_cell A T log10 hann samples n sin_cos_n_count frame_step flt bound) n_mel n_len i d d'"
proof -
  note s = assms(1) [unfolded mel_setup_def]
  let ?xs = "frame_values (a_flt A) hann samples n sin_cos_n_count (i * frame_step)"
  have len: "length ?xs = sin_cos_n_count" by (simp add: frame_values_def)
  obtain in1 where in1: "window_frame (a_flt A) hann samples n sin_cos_n_count (i * frame_step) fft_in = Some in1"
      "length in1 = length fft_in" "take sin_cos_n_count in1 = ?xs"
    using window_frame_values [of sin_cos_n_count hann n samples fft_in "i * frame_step" "a_flt A"] s assms(2,6) by auto
  obtain in2 out2 where m2: "fft T 0 sin_cos_n_count 0 (in1, fft_out) = Some (in2, out2)" "length in2 = length in1"
      "length out2 = length fft_out" "pairs_at out2 0 (fft_values T ?xs)"
    using fft_buffers [of T sin_cos_n_count 0 in1 0 fft_out] s in1 assms(6,7)
    by (auto simp: sin_cos_n_count_def dest!: same_outside_length)
  obtain out3 where out3: "modulus (a_flt A) (mf_n_fft flt) out2 = Some out3" "length out3 = length out2"
      "take (mf_n_fft flt) out3 = power_values (a_flt A) (fft_values T ?xs) (mf_n_fft flt)"
    using modulus_values [OF m2(4), of "mf_n_fft flt" "a_flt A"] s len m2(3) assms(7) by (auto simp: sin_cos_n_count_def)
  have energy: "mel_energy A log10 flt out3 j = Some (mel_cell A T log10 hann samples n sin_cos_n_count frame_step flt bound i j)"
    if j: "j < n_mel" for j
  proof -
    have "(j + 1) * mf_n_fft flt \<le> n_mel * mf_n_fft flt" using j by (intro mult_le_mono1) simp
    then obtain v where "mel_energy A log10 flt out3 j = Some v"
      using mel_energy_total [of flt out3 j A log10] s out3(2) m2(3) assms(7) by (auto simp: sin_cos_n_count_def)
    then show ?thesis using assms(4) mel_energy_take [of A log10 flt out3 j] out3(3) by (simp add: mel_cell_def)
  qed
  obtain d' where "for_loop n_mel (\<lambda>j d. Option.bind (mel_energy A log10 flt out3 j) (\<lambda>v. wr (j * n_len + i) v d)) d = Some d'"
      "column_done (mel_cell A T log10 hann samples n sin_cos_n_count frame_step flt bound) n_mel n_len i d d'"
    using column_written [OF assms(5,3), of "\<lambda>j d. Option.bind (mel_energy A log10 flt out3 j) (\<lambda>v. wr (j * n_len + i) v d)"]
      energy by auto
  then show ?thesis using in1 m2 out3 by (auto simp: frame_turn_def)
qed


text \<open>The columns whose number satisfies \<open>Q\<close> hold their values, the others what they held before.\<close>

definition columns_done :: "(nat \<Rightarrow> nat \<Rightarrow> 'f) \<Rightarrow> nat \<Rightarrow> nat \<Rightarrow> (nat \<Rightarrow> bool) \<Rightarrow> 'f list \<Rightarrow> 'f list \<Rightarrow> bool" where
  "columns_done C n_mel n_len Q d d' \<longleftrightarrow> length d' = length d \<and>
     (\<forall>j < n_mel. \<forall>c < n_len. d' ! (j * n_len + c) = (if Q c then C c j else d ! (j * n_len + c)))"

lemma columns_done_none: "(\<And>c. c < n_len \<Longrightarrow> \<not> Q c) \<Longrightarrow> columns_done C n_mel n_len Q d d"
  by (simp add: columns_done_def)

lemma columns_done_step:
  assumes "columns_done C n_mel n_len Q d d'" "column_done C n_mel n_len i d' d''"
    and "\<And>c. c < n_len \<Longrightarrow> Q' c \<longleftrightarrow> Q c \<or> c = i"
  shows "columns_done C n_mel n_len Q' d d''"
  using assms unfolding columns_done_def column_done_def by (simp add: all_conj_distrib)

lemma columns_done_trans:
  assumes "columns_done C n_mel n_len Q d d'" "columns_done C n_mel n_len R d' d''"
    and "\<And>c. c < n_len \<Longrightarrow> Q' c \<longleftrightarrow> Q c \<or> R c"
  shows "columns_done C n_mel n_len Q' d d''"
  using assms unfolding columns_done_def by simp

lemma columns_done_cong:
  "columns_done C n_mel n_len Q d d' \<Longrightarrow> (\<And>c. c < n_len \<Longrightarrow> Q' c \<longleftrightarrow> Q c) \<Longrightarrow> columns_done C n_mel n_len Q' d d'"
  by (simp add: columns_done_def)

lemma next_of_residue:
  assumes "i mod m = r" "0 < (m::nat)"
  shows "c mod m = r \<and> c < i + m \<longleftrightarrow> (c mod m = r \<and> c < i) \<or> c = i"
proof
  assume c: "c mod m = r \<and> c < i + m"
  show "(c mod m = r \<and> c < i) \<or> c = i"
  proof (cases "c < i")
    case False
    then obtain d where d: "c = i + d" "d < m" using c by (metis add_less_cancel_left le_Suc_ex not_less)
    then have "d mod m = 0" using c assms(1)
      by (metis add_diff_cancel_left' le_add1 mod_eq_dvd_iff_nat dvd_imp_mod_0)
    then show ?thesis using d by simp
  qed (use c in simp)
qed (use assms in auto)

lemma mel_worker_columns:
  assumes pre: "mel_setup T hann samples n flt n_mel" and "0 < frame_step" "ith < n_threads"
    and "length d = n_mel * n_len" "bound = min (n div frame_step + 1) n_len"
  shows "\<exists>d'. mel_worker A T log10 hann samples n sin_cos_n_count frame_step n_threads flt n_mel n_len ith d = Some d' \<and>
    columns_done (mel_cell A T log10 hann samples n sin_cos_n_count frame_step flt bound) n_mel n_len
      (\<lambda>c. c mod n_threads = ith) d d'"
proof -
  let ?C = "mel_cell A T log10 hann samples n sin_cos_n_count frame_step flt bound"
  define J where "J i d' \<longleftrightarrow> i mod n_threads = ith \<and>
      columns_done ?C n_mel n_len (\<lambda>c. c mod n_threads = ith \<and> c < i) d d'" for i d'
  have J_step: "J (i + n_threads) d''" if "J i d'" "column_done ?C n_mel n_len i d' d''" for i d' d''
  proof -
    have "columns_done ?C n_mel n_len (\<lambda>c. c mod n_threads = ith \<and> c < i + n_threads) d d''"
    proof (rule columns_done_step [OF _ that(2)])
      show "columns_done ?C n_mel n_len (\<lambda>c. c mod n_threads = ith \<and> c < i) d d'" using that(1) by (simp add: J_def)
      show "(c mod n_threads = ith \<and> c < i + n_threads) \<longleftrightarrow> (c mod n_threads = ith \<and> c < i) \<or> c = i" for c
        by (rule next_of_residue) (use that(1) assms(3) in \<open>auto simp: J_def\<close>)
    qed
    then show ?thesis using that by (simp add: J_def)
  qed
  define I where "I i s \<longleftrightarrow> length (fst s) = sin_cos_n_count * 2 \<and> length (fst (snd s)) = sin_cos_n_count * 2 * 2 * 2 \<and>
      J i (snd (snd s))" for i and s :: "'a worker_state"
  let ?z = "fl_zero (a_flt A)"
  have "\<exists>i s. stride_loop (frame_turn A T log10 hann samples n sin_cos_n_count frame_step flt n_mel n_len) bound n_threads ith
      (replicate (sin_cos_n_count * 2) ?z, replicate (sin_cos_n_count * 2 * 2 * 2) ?z, d) = Some (i, s) \<and> I i s \<and> bound \<le> i"
  proof (rule stride_loop_inv)
    show "0 < n_threads" using assms(3) by simp
    show "I ith (replicate (sin_cos_n_count * 2) ?z, replicate (sin_cos_n_count * 2 * 2 * 2) ?z, d)"
    proof -
      have "\<not> (c mod n_threads = ith \<and> c < ith)" for c using mod_less_eq_dividend [of c n_threads] by linarith
      then show ?thesis using assms(3) by (simp add: I_def J_def columns_done_none)
    qed
  next
    fix i and s :: "'a worker_state"
    assume i: "i < bound" and I: "I i s"
    obtain fi fo d' where s: "s = (fi, fo, d')" by (cases s) auto
    have "i \<le> n div frame_step" "i < n_len" using i assms(5) by auto
    then have le: "i * frame_step \<le> n" by (meson le_trans mult_le_mono1 div_times_less_eq_dividend)
    have l: "length fi = sin_cos_n_count * 2" "length fo = sin_cos_n_count * 2 * 2 * 2" "J i d'" using I by (simp_all add: I_def s)
    then have ld: "length d' = n_mel * n_len" using assms(4) by (simp add: J_def columns_done_def)
    obtain in1 out1 d'' where "frame_turn A T log10 hann samples n sin_cos_n_count frame_step flt n_mel n_len i s = Some (in1, out1, d'')"
        "length in1 = length fi" "length out1 = length fo" "column_done ?C n_mel n_len i d' d''"
      using frame_turn_column [OF pre le \<open>i < n_len\<close> i ld l(1,2), of A log10] by (auto simp: s)
    then show "\<exists>s'. frame_turn A T log10 hann samples n sin_cos_n_count frame_step flt n_mel n_len i s = Some s' \<and> I (i + n_threads) s'"
      using J_step [OF l(3)] l by (simp add: I_def)
  qed
  then obtain i1 s1 where first: "stride_loop (frame_turn A T log10 hann samples n sin_cos_n_count frame_step flt n_mel n_len) bound
      n_threads ith (replicate (sin_cos_n_count * 2) ?z, replicate (sin_cos_n_count * 2 * 2 * 2) ?z, d) = Some (i1, s1)"
      "J i1 (snd (snd s1))" "bound \<le> i1" by (auto simp: I_def)
  have "\<exists>i s. stride_loop (silent_turn A log10 n_mel n_len) n_len n_threads i1 (snd (snd s1)) = Some (i, s) \<and>
      (bound \<le> i \<and> J i s) \<and> n_len \<le> i"
  proof (rule stride_loop_inv)
    show "0 < n_threads" using assms(3) by simp
    show "bound \<le> i1 \<and> J i1 (snd (snd s1))" using first by simp
  next
    fix i d'
    assume i: "i < n_len" and J: "bound \<le> i \<and> J i d'"
    then have "length d' = n_mel * n_len" using assms(4) by (simp add: J_def columns_done_def)
    then obtain d'' where "silent_turn A log10 n_mel n_len i d' = Some d''" "column_done ?C n_mel n_len i d' d''"
      using column_written [of d' n_mel n_len i _ ?C] i J unfolding silent_turn_def by (force simp: mel_cell_def)
    then show "\<exists>s'. silent_turn A log10 n_mel n_len i d' = Some s' \<and> (bound \<le> i + n_threads \<and> J (i + n_threads) s')"
      using J_step J by auto
  qed
  then obtain i2 d2 where second: "stride_loop (silent_turn A log10 n_mel n_len) n_len n_threads i1 (snd (snd s1)) = Some (i2, d2)"
      "J i2 d2" "n_len \<le> i2" by auto
  have "columns_done ?C n_mel n_len (\<lambda>c. c mod n_threads = ith) d d2"
    using second(2,3) unfolding J_def by (auto elim!: columns_done_cong)
  then show ?thesis
    unfolding mel_worker_def Let_def assms(5) [symmetric] first(1) Option.bind.bind_lunit prod.case second(1) by simp
qed


lemma mel_workers_columns:
  assumes "mel_setup T hann samples n flt n_mel" "0 < frame_step" "0 < n_threads"
    and "length d = n_mel * n_len" "bound = min (n div frame_step + 1) n_len"
  shows "\<exists>d'. for_loop n_threads (mel_worker A T log10 hann samples n sin_cos_n_count frame_step n_threads flt n_mel n_len) d = Some d' \<and>
    columns_done (mel_cell A T log10 hann samples n sin_cos_n_count frame_step flt bound) n_mel n_len (\<lambda>c. True) d d'"
proof -
  let ?C = "mel_cell A T log10 hann samples n sin_cos_n_count frame_step flt bound"
  define I where "I k d' \<longleftrightarrow> columns_done ?C n_mel n_len (\<lambda>c. c mod n_threads < k) d d'" for k d'
  have "\<exists>d'. for_loop n_threads (mel_worker A T log10 hann samples n sin_cos_n_count frame_step n_threads flt n_mel n_len) d = Some d' \<and>
      I n_threads d'"
  proof (rule for_loop_inv)
    show "I 0 d" by (simp add: I_def columns_done_none)
  next
    fix k d'
    assume k: "k < n_threads" and I: "I k d'"
    then have "length d' = n_mel * n_len" using assms(4) by (simp add: I_def columns_done_def)
    then obtain d'' where d'': "mel_worker A T log10 hann samples n sin_cos_n_count frame_step n_threads flt n_mel n_len k d' = Some d''"
        "columns_done ?C n_mel n_len (\<lambda>c. c mod n_threads = k) d' d''"
      using mel_worker_columns [OF assms(1,2) k _ assms(5)] by blast
    have "I (Suc k) d''" unfolding I_def by (rule columns_done_trans [OF I [unfolded I_def] d''(2)]) auto
    then show "\<exists>s'. mel_worker A T log10 hann samples n sin_cos_n_count frame_step n_threads flt n_mel n_len k d' = Some s' \<and>
        I (Suc k) s'" using d''(1) by blast
  qed
  then show ?thesis using assms(3) by (simp add: I_def)
qed

lemma columns_done_all:
  assumes "columns_done C n_mel n_len (\<lambda>c. True) d d'" "length d = n_mel * n_len"
  shows "d' = map (\<lambda>q. C (q mod n_len) (q div n_len)) [0 ..< n_mel * n_len]"
proof (rule nth_equalityI)
  show "length d' = length (map (\<lambda>q. C (q mod n_len) (q div n_len)) [0 ..< n_mel * n_len])"
    using assms by (simp add: columns_done_def)
next
  fix q
  assume "q < length d'"
  then have q: "q < n_mel * n_len" using assms by (simp add: columns_done_def)
  then have "q div n_len < n_mel" "q mod n_len < n_len"
    by (simp_all add: less_mult_imp_div_less, cases n_len) auto
  then have "d' ! (q div n_len * n_len + q mod n_len) = C (q mod n_len) (q div n_len)"
    using assms(1) by (simp only: columns_done_def) simp
  then show "d' ! q = map (\<lambda>q. C (q mod n_len) (q div n_len)) [0 ..< n_mel * n_len] ! q" using q by simp
qed

section \<open>The whole spectrogram\<close>

lemma pad_samples_eq:
  assumes "n = length samples" "p = frame_size div 2"
  shows "pad_samples zero frame_size samples =
    (if p < n then Some (rev (take p (drop 1 samples)) @ samples @ replicate (stage_1_pad + p) zero) else None)"
  using assms
  by (auto simp: pad_samples_def Let_def mem_write_def mem_read_def stage_1_pad_def not_less)

definition mel_result :: "('f, 'd) arith \<Rightarrow> 'f fourier \<Rightarrow> ('d \<Rightarrow> 'd) \<Rightarrow> 'f list \<Rightarrow> 'f mel_filters \<Rightarrow> 'f list \<Rightarrow> 'f mel" where
  "mel_result A T log10 hann flt samples =
     (let padded = rev (take 200 (drop 1 samples)) @ samples @ replicate (stage_1_pad + 200) (fl_zero (a_flt A));
          n = length samples; n_len = (n + stage_1_pad) div 160; bound = min ((n + 200) div 160 + 1) n_len
      in \<lparr>ml_n_len = n_len, ml_n_len_org = 1 + tdiv (int n - 200) 160, ml_n_mel = mf_n_mel flt,
          ml_data = mel_normalise A (map (\<lambda>q. mel_cell A T log10 hann padded (n + 200) 400 160 flt bound (q mod n_len) (q div n_len))
            [0 ..< mf_n_mel flt * n_len])\<rparr>)"

definition filters_ok :: "'f mel_filters \<Rightarrow> bool" where
  "filters_ok flt \<longleftrightarrow> mf_n_fft flt = 201 \<and> length (mf_data flt) = mf_n_mel flt * mf_n_fft flt"

lemma pcm_to_mel_result:
  assumes "tables_ok T" "length hann = 400" "filters_ok flt" "0 < n_threads" "200 < length samples"
  shows "pcm_to_mel A T log10 hann n_threads flt old samples = Some (mel_result A T log10 hann flt samples)"
proof -
  let ?n = "length samples" and ?z = "fl_zero (a_flt A)"
  define padded where "padded = rev (take 200 (drop 1 samples)) @ samples @ replicate (stage_1_pad + 200) ?z"
  define n_len where "n_len = (?n + stage_1_pad) div 160"
  define d where "d = take (mf_n_mel flt * n_len) old @ replicate (mf_n_mel flt * n_len - length old) ?z"
  have pad: "pad_samples ?z 400 samples = Some padded"
    using pad_samples_eq [OF refl refl, of ?z 400 samples] assms(5) by (simp add: padded_def)
  have len: "length padded = ?n + stage_1_pad + 400" using assms(5) by (simp add: padded_def)
  have pre: "mel_setup T hann padded (?n + 200) flt (mf_n_mel flt)"
    using assms by (simp add: mel_setup_def filters_ok_def sin_cos_n_count_def len)
  have ld: "length d = mf_n_mel flt * n_len" by (simp add: d_def)
  obtain d' where d': "for_loop n_threads (mel_worker A T log10 hann padded (?n + 200) sin_cos_n_count 160 n_threads flt (mf_n_mel flt) n_len) d = Some d'"
      "columns_done (mel_cell A T log10 hann padded (?n + 200) sin_cos_n_count 160 flt (min ((?n + 200) div 160 + 1) n_len))
         (mf_n_mel flt) n_len (\<lambda>c. True) d d'"
    using mel_workers_columns [OF pre _ assms(4) ld refl, of 160 A log10] by auto
  show ?thesis
    unfolding pcm_to_mel_def log_mel_spectrogram_def mel_result_def Let_def padded_def [symmetric]
    using pad d'(1) assms(4) columns_done_all [OF d'(2) ld] len
    by (simp add: sin_cos_n_count_def d_def [symmetric] n_len_def [symmetric])
qed

text \<open>
  C25: with any number of threads, and whatever the spectrogram held before, every access stays inside its
  array and the result is the same function of the audio, if that has more than 200 samples.
\<close>

theorem spectrogram_any_threads:
  assumes "tables_ok T" "length hann = 400" "filters_ok flt" "0 < n_threads" "200 < length samples"
  shows "pcm_to_mel A T log10 hann n_threads flt old samples = Some (mel_result A T log10 hann flt samples)"
  using assms by (rule pcm_to_mel_result)

text \<open>
  Audio of at most 200 samples is read beyond its end by the reflection at the front.
\<close>

theorem short_audio_overread:
  assumes "length samples \<le> 200"
  shows "pcm_to_mel A T log10 hann n_threads flt old samples = None"
proof -
  have "pad_samples (fl_zero (a_flt A)) 400 samples = None"
    using pad_samples_eq [OF refl refl, of "fl_zero (a_flt A)" 400 samples] assms by simp
  then show ?thesis unfolding pcm_to_mel_def log_mel_spectrogram_def by (simp add: sin_cos_n_count_def)
qed


section \<open>Witnesses\<close>

definition demo_arith2 :: "(rat option, rat option) arith" where
  "demo_arith2 = \<lparr>a_flt = rat_ops, a_dbl = rat_ops, a_widen = id, a_narrow = id\<rparr>"

definition demo_fourier :: "rat option fourier" where
  "demo_fourier = \<lparr>fo_flt = rat_ops, fo_neg = map_option uminus, fo_cos = replicate 400 (Some 1), fo_sin = replicate 400 (Some 0)\<rparr>"

definition demo_filters :: "rat option mel_filters" where
  "demo_filters = \<lparr>mf_n_mel = 2, mf_n_fft = 201, mf_data = replicate 402 (Some 1)\<rparr>"

theorem spectrogram_any_threads_witness:
  "\<exists>m. pcm_to_mel demo_arith2 demo_fourier id (replicate 400 (Some 1)) 4 demo_filters [] (replicate 16000 (Some 1)) = Some m \<and>
     pcm_to_mel demo_arith2 demo_fourier id (replicate 400 (Some 1)) 1 demo_filters [Some 5] (replicate 16000 (Some 1)) = Some m \<and>
     ml_n_len m = 3100 \<and> ml_n_len_org m = 99"
proof -
  have "tables_ok demo_fourier" "filters_ok demo_filters"
    by (simp_all add: tables_ok_def demo_fourier_def sin_cos_n_count_def filters_ok_def demo_filters_def)
  then show ?thesis
    using spectrogram_any_threads [of demo_fourier "replicate 400 (Some 1)" demo_filters 4 "replicate 16000 (Some 1)" demo_arith2 id "[]"]
      spectrogram_any_threads [of demo_fourier "replicate 400 (Some 1)" demo_filters 1 "replicate 16000 (Some 1)" demo_arith2 id "[Some 5]"]
    by (simp add: mel_result_def stage_1_pad_def tdiv_def)
qed

theorem short_audio_overread_witness:
  "pcm_to_mel demo_arith2 demo_fourier id (replicate 400 (Some 1)) 1 demo_filters [] (replicate 200 (Some 1)) = None"
  by (rule short_audio_overread) simp

end
