(* ===== verification/Mel_Window.thy ===== *)
theory Mel_Window
  imports Spectrogram
begin

text \<open>
  The window of the spectrogram that the encoder reads in \<open>src/src/whisper.cpp\<close>: the copy at the beginning of
  \<open>whisper_encode_internal\<close>, and \<open>whisper_set_mel_with_state\<close>, by which a caller gives a spectrogram of his own.
\<close>

section \<open>Data\<close>

definition set_mel :: "'f mel_filters \<Rightarrow> 'f list \<Rightarrow> nat \<Rightarrow> nat \<Rightarrow> 'f mel \<Rightarrow> (int \<times> 'f mel) option" where
  "set_mel flt data n_len n_mel old =
     (if n_mel \<noteq> mf_n_mel flt then Some (-1, old)
      else map_option (\<lambda>d. (0, \<lparr>ml_n_len = n_len, ml_n_len_org = int n_len, ml_n_mel = n_mel, ml_data = d\<rparr>))
             (mem_read data 0 (n_len * n_mel)))"

text \<open>A row of the spectrogram, at an index that a negative offset makes negative.\<close>

definition rd_int :: "'a list \<Rightarrow> int \<Rightarrow> 'a option" where
  "rd_int xs i = (if i < 0 then None else rd xs (nat i))"

text \<open>\<open>n_ctx\<close> is the audio context, \<open>n_mels\<close> the number of bands of the model, which the copy does not look at.\<close>

definition copy_row :: "nat \<Rightarrow> int \<Rightarrow> int \<Rightarrow> 'f mel \<Rightarrow> nat \<Rightarrow> 'f list \<Rightarrow> 'f list option" where
  "copy_row n_ctx i0 i1 m j dst =
     for_loop (nat (i1 - i0)) (\<lambda>k d. Option.bind (rd_int (ml_data m) (int (j * ml_n_len m) + (i0 + int k))) (\<lambda>x.
        wr (j * 2 * n_ctx + k) x d)) dst"

definition encode_input :: "'f \<Rightarrow> nat \<Rightarrow> nat \<Rightarrow> int \<Rightarrow> 'f mel \<Rightarrow> 'f list option" where
  "encode_input zero n_ctx n_mels mel_offset m =
     (let i0 = min mel_offset (int (ml_n_len m)); i1 = min (mel_offset + 2 * int n_ctx) (int (ml_n_len m))
      in for_loop (ml_n_mel m) (copy_row n_ctx i0 i1 m) (replicate (2 * n_ctx * n_mels) zero))"

section \<open>What the encoder sees\<close>

definition mel_ok :: "nat \<Rightarrow> 'f mel \<Rightarrow> bool" where
  "mel_ok n_mels m \<longleftrightarrow> ml_n_mel m = n_mels \<and> length (ml_data m) = ml_n_mel m * ml_n_len m"

definition mel_value :: "'f \<Rightarrow> 'f mel \<Rightarrow> nat \<Rightarrow> nat \<Rightarrow> 'f" where
  "mel_value zero m j i = (if i < ml_n_len m then ml_data m ! (j * ml_n_len m + i) else zero)"

lemma copy_row_values:
  assumes "mel_ok n_mels m" "j < n_mels" "length d = n_mels * (2 * n_ctx)"
    and "i0 = min off (ml_n_len m)" "i1 = min (off + 2 * n_ctx) (ml_n_len m)"
  shows "\<exists>d'. copy_row n_ctx (int i0) (int i1) m j d = Some d' \<and>
    same_outside (j * (2 * n_ctx)) (j * (2 * n_ctx) + (i1 - i0)) d d' \<and>
    (\<forall>k < i1 - i0. d' ! (j * (2 * n_ctx) + k) = ml_data m ! (j * ml_n_len m + (off + k)))"
proof -
  have len: "length (ml_data m) = n_mels * ml_n_len m" using assms(1) by (simp add: mel_ok_def)
  have room: "j * (2 * n_ctx) + (i1 - i0) \<le> length d"
  proof -
    have "j * (2 * n_ctx) + 2 * n_ctx \<le> n_mels * (2 * n_ctx)" using mult_le_mono1 [of "Suc j" n_mels "2 * n_ctx"] assms(2) by simp
    moreover have "i1 - i0 \<le> 2 * n_ctx" using assms(4,5) by simp
    ultimately show ?thesis using assms(3) by linarith
  qed
  have read: "rd_int (ml_data m) (int (j * ml_n_len m) + (int i0 + int k)) = Some (ml_data m ! (j * ml_n_len m + (off + k)))"
    if "k < i1 - i0" for k
  proof -
    have off: "i0 = off" "off + k < ml_n_len m" using that assms(4,5) by (auto simp: min_def split: if_splits)
    have "j * ml_n_len m + (off + k) < length (ml_data m)" unfolding len by (rule cell_bound [OF assms(2) off(2)])
    moreover have "nat (int (j * ml_n_len m) + (int i0 + int k)) = j * ml_n_len m + (off + k)" unfolding off(1) by (simp only: of_nat_add [symmetric] nat_int)
    moreover have "\<not> int (j * ml_n_len m) + (int i0 + int k) < 0" by (simp only: of_nat_add [symmetric] of_nat_less_0_iff not_False_eq_True)
    ultimately show ?thesis by (simp only: rd_int_def if_False rd_Some)
  qed
  have n: "nat (int i1 - int i0) = i1 - i0" by simp
  have assoc: "j * 2 * n_ctx = j * (2 * n_ctx)" by simp
  show ?thesis unfolding copy_row_def n assoc
    by (rule for_loop_fill [OF room]) (simp only: read bind.bind_lunit)
qed

lemma encode_input_window:
  assumes "mel_ok n_mels m" "0 \<le> mel_offset"
  shows "\<exists>inp. encode_input zero n_ctx n_mels mel_offset m = Some inp \<and> length inp = n_mels * (2 * n_ctx) \<and>
    (\<forall>j < n_mels. \<forall>i < 2 * n_ctx. inp ! (j * (2 * n_ctx) + i) = mel_value zero m j (nat mel_offset + i))"
proof -
  define off where "off = nat mel_offset"
  define i0 where "i0 = min off (ml_n_len m)"
  define i1 where "i1 = min (off + 2 * n_ctx) (ml_n_len m)"
  let ?w = "2 * n_ctx"
  define I where "I k d \<longleftrightarrow> length d = n_mels * ?w \<and>
      (\<forall>j < n_mels. \<forall>i < ?w. d ! (j * ?w + i) = (if j < k then mel_value zero m j (off + i) else zero))" for k and d :: "'a list"
  have n_mel: "ml_n_mel m = n_mels" using assms(1) by (simp add: mel_ok_def)
  have "\<exists>d. for_loop n_mels (copy_row n_ctx (int i0) (int i1) m) (replicate (2 * n_ctx * n_mels) zero) = Some d \<and> I n_mels d"
  proof (rule for_loop_inv)
    have "j * ?w + i < 2 * n_ctx * n_mels" if "j < n_mels" "i < ?w" for j i using cell_bound [OF that] by (simp add: mult.commute)
    then show "I 0 (replicate (2 * n_ctx * n_mels) zero)" by (simp add: I_def)
  next
    fix k d
    assume k: "k < n_mels" and I: "I k d"
    have len: "length d = n_mels * ?w" using I by (simp add: I_def)
    obtain d' where d': "copy_row n_ctx (int i0) (int i1) m k d = Some d'" "same_outside (k * ?w) (k * ?w + (i1 - i0)) d d'"
        "\<forall>i < i1 - i0. d' ! (k * ?w + i) = ml_data m ! (k * ml_n_len m + (off + i))"
      using copy_row_values [OF assms(1) k len i0_def i1_def] by blast
    have "d' ! (j * ?w + i) = (if j < Suc k then mel_value zero m j (off + i) else zero)" if ji: "j < n_mels" "i < ?w" for j i
    proof (cases "j = k \<and> i < i1 - i0")
      case True
      then have "off + i < ml_n_len m" by (auto simp: i0_def i1_def)
      then show ?thesis using True d'(3) by (simp add: mel_value_def)
    next
      case False
      have "j * ?w + i < k * ?w \<or> k * ?w + (i1 - i0) \<le> j * ?w + i"
      proof (cases j k rule: linorder_cases)
        case less
        then have "Suc j * ?w \<le> k * ?w" by (intro mult_le_mono1) simp
        then show ?thesis using ji(2) by simp
      next
        case greater
        then have "Suc k * ?w \<le> j * ?w" by (intro mult_le_mono1) simp
        moreover have "i1 - i0 \<le> ?w" by (simp add: i0_def i1_def)
        ultimately show ?thesis by simp
      qed (use False in simp)
      then have "d' ! (j * ?w + i) = d ! (j * ?w + i)" by (rule same_outside_nth [OF d'(2)])
      moreover have "mel_value zero m j (off + i) = zero" if "j = k"
        using False that ji(2) by (auto simp: mel_value_def i0_def i1_def)
      ultimately show ?thesis using I ji by (auto simp: I_def less_Suc_eq)
    qed
    then show "\<exists>d'. copy_row n_ctx (int i0) (int i1) m k d = Some d' \<and> I (Suc k) d'"
      using d'(1) same_outside_length [OF d'(2)] I by (auto simp: I_def)
  qed
  moreover have "min mel_offset (int (ml_n_len m)) = int i0" "min (mel_offset + 2 * int n_ctx) (int (ml_n_len m)) = int i1"
    using assms(2) by (simp_all add: i0_def i1_def off_def)
  ultimately show ?thesis by (auto simp: encode_input_def Let_def n_mel I_def off_def)
qed

text \<open>
  The encoder reads the columns of the spectrogram from the offset of the window on, and zeros behind
  its end; no access is out of range.
\<close>

theorem encoder_window:
  assumes "mel_ok n_mels m" "0 \<le> mel_offset"
  shows "\<exists>inp. encode_input zero n_ctx n_mels mel_offset m = Some inp \<and> length inp = n_mels * (2 * n_ctx) \<and>
    (\<forall>j < n_mels. \<forall>i < 2 * n_ctx. inp ! (j * (2 * n_ctx) + i) = mel_value zero m j (nat mel_offset + i))"
  using assms by (rule encode_input_window)

theorem encoder_window_witness:
  "\<exists>inp. encode_input 0 2 1 3 \<lparr>ml_n_len = 5, ml_n_len_org = 5, ml_n_mel = 1, ml_data = [1, 2, 3, 4, 5 :: int]\<rparr> = Some inp \<and>
     inp ! 0 = 4 \<and> inp ! 1 = 5 \<and> inp ! 2 = 0"
proof -
  let ?m = "\<lparr>ml_n_len = 5, ml_n_len_org = 5, ml_n_mel = 1, ml_data = [1, 2, 3, 4, 5 :: int]\<rparr>"
  have "mel_ok 1 ?m" by (simp add: mel_ok_def)
  from encoder_window [OF this, of 3 0 2] obtain inp where inp: "encode_input 0 2 1 3 ?m = Some inp"
      "\<forall>j < 1. \<forall>i < 2 * 2. inp ! (j * (2 * 2) + i) = mel_value 0 ?m j (nat 3 + i)" by auto
  have "inp ! i = mel_value 0 ?m 0 (3 + i)" if "i < 4" for i using inp(2) that by simp
  from this [of 0] this [of 1] this [of 2] show ?thesis using inp(1) by (simp add: mel_value_def)
qed

text \<open>The spectrogram that is computed here fits.\<close>

lemma pcm_to_mel_ok:
  assumes "tables_ok T" "length hann = 400" "filters_ok flt" "0 < n_threads" "200 < length samples"
  shows "\<exists>m. pcm_to_mel A T log10 hann n_threads flt old samples = Some m \<and> mel_ok (mf_n_mel flt) m \<and>
    ml_n_len_org m = 1 + tdiv (int (length samples) - 200) 160"
  using pcm_to_mel_result [OF assms, of A log10 old]
  by (simp add: mel_result_def mel_ok_def mel_normalise_def Let_def)

end
