(* ===== verification/Transcribe_State.thy ===== *)
theory Transcribe_State
  imports Decoder Token_Times Dtw Mel_Window
begin

text \<open>
  The state that \<open>whisper_full_with_state\<close> in \<open>src/src/whisper.cpp\<close> works on, and the parts that run before its
  main loop: the spectrogram, one run of the encoder and of the decoder network with their bookkeeping,
  language detection, the choice of temperatures and of the number of decoders, the prompt.  The networks
  and the callbacks are functions on a world of type \<open>'t\<close>.
\<close>

section \<open>State and environment\<close>

record ('f, 'd, 'r, 't) wstate =
  ws_decoders :: "('f, 'd, 'r) decoder list"
  ws_kv :: kv_cache
  ws_kv_n_dec :: int
  ws_logits :: "'f list"
  ws_no_speech :: 'f
  ws_past0 :: "int list"
  ws_past1 :: "int list"
  ws_result :: "'f segment list"
  ws_calls :: "nat list"
  ws_progress :: "int list"
  ws_lang_id :: int
  ws_exp_audio_ctx :: int
  ws_mel :: "'f mel"
  ws_energy :: "'f list"
  ws_clock :: token_clock
  ws_n_decode :: nat
  ws_n_batchd :: nat
  ws_n_prompt :: nat
  ws_n_sample :: nat
  ws_n_fail_p :: nat
  ws_n_fail_h :: nat
  ws_world :: 't

text \<open>
  \<open>fe_encode\<close> runs the encoder on its input; \<open>fe_net\<close> computes one row of logits per entry of the batch, and
  with its flag the attention of the alignment heads, which \<open>fe_qks\<close> reads; \<open>fe_sort_langs\<close> sorts the languages by their
  logits; \<open>fe_alloc\<close> tells whether a cache of that size can be allocated.
\<close>

record ('f, 'd, 'r, 't) full_env =
  fe_model :: "('f, 'd, 'r) dec_model"
  fe_fourier :: "'f fourier"
  fe_hann :: "'f list"
  fe_log10 :: "'d \<Rightarrow> 'd"
  fe_fabs :: "'f \<Rightarrow> 'f"
  fe_filters :: "'f mel_filters"
  fe_n_mels :: nat
  fe_encode :: "'f list \<Rightarrow> 't \<Rightarrow> 't option"
  fe_net :: "bool \<Rightarrow> batch_entry list \<Rightarrow> nat \<times> bool list \<Rightarrow> 't \<Rightarrow> ('t \<times> 'f list list) option"
  fe_abort :: "'t \<Rightarrow> bool"
  fe_begin :: "'t \<Rightarrow> bool \<times> 't"
  fe_alloc :: "nat \<Rightarrow> bool"
  fe_sort_langs :: "('f \<times> int) list \<Rightarrow> ('f \<times> int) list"
  fe_pad :: nat
  fe_n_text_layer :: int
  fe_dtw :: bool
  fe_aheads :: dtw_aheads
  fe_qks :: "'t \<Rightarrow> 'f cross_qks option"
  fe_align :: "'f align_ops"

record 'f full_params =
  fp_dec :: "'f dec_params"
  fp_n_max_text_ctx :: int
  fp_offset_ms :: int
  fp_duration_ms :: int
  fp_translate :: bool
  fp_no_context :: bool
  fp_print_special :: bool
  fp_token_timestamps :: bool
  fp_time :: "'f time_params"
  fp_max_len :: int
  fp_split_on_word :: bool
  fp_audio_ctx :: int
  fp_n_threads :: nat
  fp_initial_prompt :: "string option"
  fp_carry_initial_prompt :: bool
  fp_prompt_tokens :: "int list option"
  fp_language :: "string option"
  fp_detect_language :: bool
  fp_temperature :: 'f
  fp_temperature_inc :: 'f

abbreviation vocab_of :: "('f, 'd, 'r, 't) full_env \<Rightarrow> vocab" where
  "vocab_of E \<equiv> dm_vocab (fe_model E)"

abbreviation n_text_ctx :: "('f, 'd, 'r, 't) full_env \<Rightarrow> int" where
  "n_text_ctx E \<equiv> dm_n_text_ctx (fe_model E)"

abbreviation flt_of :: "('f, 'd, 'r, 't) full_env \<Rightarrow> 'f float_ops" where
  "flt_of E \<equiv> flt (fe_model E)"

abbreviation no_timestamps :: "'f full_params \<Rightarrow> bool" where
  "no_timestamps P \<equiv> lp_no_timestamps (dp_logit (fp_dec P))"

text \<open>An operation ends well, returns an error code with the state it leaves, or does something undefined.\<close>

datatype ('a, 's) outcome = Done 'a | Fail int 's | Bad

fun out_bind :: "('a, 's) outcome \<Rightarrow> ('a \<Rightarrow> ('b, 's) outcome) \<Rightarrow> ('b, 's) outcome" where
  "out_bind (Done x) f = f x"
| "out_bind (Fail c s) f = Fail c s"
| "out_bind Bad f = Bad"

definition out_opt :: "'a option \<Rightarrow> ('a, 's) outcome" where
  "out_opt x = (case x of None \<Rightarrow> Bad | Some y \<Rightarrow> Done y)"

lemma out_bind_Done: "out_bind r f = Done y \<longleftrightarrow> (\<exists>x. r = Done x \<and> f x = Done y)"
  by (cases r) auto

lemma out_opt_Done [simp]: "out_opt x = Done y \<longleftrightarrow> x = Some y"
  by (simp add: out_opt_def split: option.splits)

lemma out_opt_not_Fail [simp]: "out_opt x \<noteq> Fail c s"
  by (simp add: out_opt_def split: option.splits)

section \<open>Running the decoder network\<close>

text \<open>\<open>state->logits\<close> is resized, and only the rows that were asked for are written.\<close>

definition resize_list :: "'a \<Rightarrow> nat \<Rightarrow> 'a list \<Rightarrow> 'a list" where
  "resize_list z n xs = take n xs @ replicate (n - length xs) z"

fun write_rows :: "nat \<Rightarrow> nat \<Rightarrow> (batch_entry \<times> 'f list) list \<Rightarrow> 'f list \<Rightarrow> 'f list" where
  "write_rows n_vocab i [] ls = ls"
| "write_rows n_vocab i ((b, row) # rest) ls =
     write_rows n_vocab (Suc i) rest
       (if b_logits b then take (i * n_vocab) ls @ row @ drop (i * n_vocab + n_vocab) ls else ls)"

definition count_decode :: "nat \<Rightarrow> ('f, 'd, 'r, 't) wstate \<Rightarrow> ('f, 'd, 'r, 't) wstate" where
  "count_decode n st =
     (if n = 1 then st\<lparr>ws_n_decode := ws_n_decode st + 1\<rparr>
      else if n < 16 then st\<lparr>ws_n_batchd := ws_n_batchd st + n\<rparr>
      else st\<lparr>ws_n_prompt := ws_n_prompt st + n\<rparr>)"

definition decode_internal :: "('f, 'd, 'r, 't) full_env \<Rightarrow> bool \<Rightarrow> bool \<Rightarrow> batch_entry list \<Rightarrow> ('f, 'd, 'r, 't) wstate
    \<Rightarrow> bool \<times> ('f, 'd, 'r, 't) wstate" where
  "decode_internal E save use_abort batch st =
     (case decode_setup (ws_kv st) batch (fe_pad E) of
        None \<Rightarrow> (False, st\<lparr>ws_kv := snd (kv_cache_find_slot (ws_kv st) batch)\<rparr>)
      | Some (kv, graph) \<Rightarrow>
          (let st1 = st\<lparr>ws_kv := kv\<rparr>
           in case fe_net E save batch graph (ws_world st1) of
                None \<Rightarrow> (False, st1)
              | Some (w, rows) \<Rightarrow>
                  (let nv = nat (v_n_vocab (vocab_of E));
                       ls = resize_list (fl_zero (flt_of E)) (length batch * nv) (ws_logits st1);
                       st2 = count_decode (length batch)
                         (st1\<lparr>ws_world := w, ws_logits := write_rows nv 0 (zip batch rows) ls\<rparr>)
                   in (\<not> (use_abort \<and> fe_abort E w), st2))))"

text \<open>\<open>exp_n_audio_ctx\<close>, where it is set, overrides the audio context of the model.\<close>

definition audio_ctx :: "('f, 'd, 'r, 't) full_env \<Rightarrow> ('f, 'd, 'r, 't) wstate \<Rightarrow> nat" where
  "audio_ctx E st = nat (if ws_exp_audio_ctx st > 0 then ws_exp_audio_ctx st else dm_n_audio_ctx (fe_model E))"

definition encode_internal :: "('f, 'd, 'r, 't) full_env \<Rightarrow> bool \<Rightarrow> int \<Rightarrow> ('f, 'd, 'r, 't) wstate
    \<Rightarrow> (bool \<times> ('f, 'd, 'r, 't) wstate) option" where
  "encode_internal E use_abort seek st =
     map_option (\<lambda>inp.
         case fe_encode E inp (ws_world st) of
           None \<Rightarrow> (False, st)
         | Some w \<Rightarrow> (\<not> (use_abort \<and> fe_abort E w), st\<lparr>ws_world := w\<rparr>))
       (encode_input (fl_zero (flt_of E)) (audio_ctx E st) (fe_n_mels E) seek (ws_mel st))"

text \<open>The entries allocated by \<open>whisper_batch_init\<close>.\<close>

definition batch_alloc :: "('f, 'd, 'r, 't) full_env \<Rightarrow> batch_entry list" where
  "batch_alloc E = replicate (nat (n_text_ctx E)) \<lparr>b_token = 0, b_pos = 0, b_seq_id = [0], b_logits = False\<rparr>"

definition decode_with_state :: "('f, 'd, 'r, 't) full_env \<Rightarrow> int list \<Rightarrow> int \<Rightarrow> ('f, 'd, 'r, 't) wstate
    \<Rightarrow> (int \<times> ('f, 'd, 'r, 't) wstate) option" where
  "decode_with_state E tokens n_past st =
     map_option (\<lambda>batch.
         (let (ok, st1) = decode_internal E False False batch (st\<lparr>ws_kv := kv_cache_seq_rm (ws_kv st) 0 n_past (-1)\<rparr>)
          in (if ok then 0 else 1, st1)))
       (batch_prep_legacy (batch_alloc E) (Some tokens) (length tokens) n_past 0)"

section \<open>Language detection\<close>

text \<open>The logits of the languages, in the order of \<open>g_lang\<close>; reading past the logits is undefined.\<close>

definition lang_logits :: "vocab \<Rightarrow> 'f list \<Rightarrow> ('f \<times> int) list option" where
  "lang_logits v logits =
     those (map (\<lambda>e. let i = whisper_token_lang v (fst (snd e))
        in if 0 \<le> i \<and> i < int (length logits) then Some (logits ! nat i, fst (snd e)) else None) g_lang)"

text \<open>Softmax; the sum is a \<open>double\<close>.\<close>

definition lang_softmax :: "('f, 'd) arith \<Rightarrow> ('f \<times> int) list \<Rightarrow> ('f \<times> int) list" where
  "lang_softmax A ls =
     (let m = fst (hd ls);
          es = map (\<lambda>(x, i). (fl_exp (a_flt A) (fl_sub (a_flt A) x m), i)) ls;
          total = foldl (\<lambda>s (x, i). fl_add (a_dbl A) s (a_widen A x)) (fl_zero (a_dbl A)) es
      in map (\<lambda>(x, i). (a_narrow A (fl_div (a_dbl A) (a_widen A x) total), i)) es)"

definition lang_auto_detect :: "('f, 'd, 'r, 't) full_env \<Rightarrow> int \<Rightarrow> ('f, 'd, 'r, 't) wstate
    \<Rightarrow> ((int \<times> ('f \<times> int) list) \<times> ('f, 'd, 'r, 't) wstate) option" where
  "lang_auto_detect E offset_ms st =
     (let seek = tdiv offset_ms 10
      in if seek < 0 then Some ((-1, []), st)
         else if seek \<ge> ml_n_len_org (ws_mel st) then Some ((-2, []), st)
         else case encode_internal E False seek st of
           None \<Rightarrow> None
         | Some (ok, st1) \<Rightarrow>
             (if \<not> ok then Some ((-6, []), st1)
              else case decode_with_state E [v_sot (vocab_of E)] 0 st1 of
                None \<Rightarrow> None
              | Some (rc, st2) \<Rightarrow>
                  (if rc \<noteq> 0 then Some ((-7, []), st2)
                   else case lang_logits (vocab_of E) (ws_logits st2) of
                     None \<Rightarrow> None
                   | Some ls \<Rightarrow>
                       (let sorted = fe_sort_langs E ls
                        in Some ((snd (hd sorted), lang_softmax (dm_arith (fe_model E)) sorted), st2)))))"

section \<open>Temperatures and decoders\<close>

text \<open>
  The loop adds the increment to a \<open>float\<close> until one is passed.  It need not end by itself (an increment
  can be lost in rounding), so it carries a bound on the number of turns; \<^term>\<open>None\<close> is running out of it.
\<close>

fun temperature_loop :: "'f float_ops \<Rightarrow> nat \<Rightarrow> 'f \<Rightarrow> 'f \<Rightarrow> 'f list option" where
  "temperature_loop F 0 t t_inc = None"
| "temperature_loop F (Suc n) t t_inc =
     (if fl_lt F t (fl_add F (fl_lit F 1) (fl_lit F (1 / 10 ^ 6)))
      then map_option ((#) t) (temperature_loop F n (fl_add F t t_inc) t_inc) else Some [])"

definition temperatures :: "'f float_ops \<Rightarrow> nat \<Rightarrow> 'f \<Rightarrow> 'f \<Rightarrow> 'f list option" where
  "temperatures F n t t_inc = (if fl_lt F (fl_zero F) t_inc then temperature_loop F n t t_inc else Some [t])"

definition decoders_wanted :: "'f dec_params \<Rightarrow> int" where
  "decoders_wanted P = max 1 (if dp_beam_search P then max (dp_best_of P) (dp_beam_size P) else dp_best_of P)"

definition decoders_at :: "'f float_ops \<Rightarrow> 'f dec_params \<Rightarrow> 'f \<Rightarrow> nat" where
  "decoders_at F P t_cur =
     nat (max 1 (if fl_lt F (fl_zero F) t_cur then dp_best_of P
                 else if dp_beam_search P then dp_beam_size P else 1))"

section \<open>The prompt\<close>

definition max_prompt_ctx :: "('f, 'd, 'r, 't) full_env \<Rightarrow> 'f full_params \<Rightarrow> int" where
  "max_prompt_ctx E P = min (fp_n_max_text_ctx P) (tdiv (n_text_ctx E) 2)"

text \<open>The tokens of the initial prompt, with room for 1024 of them at first.\<close>

definition prompt_from_text :: "vocab \<Rightarrow> string \<Rightarrow> int list" where
  "prompt_from_text v s =
     (let (n_needed, out) = whisper_tokenize v s 1024
      in if n_needed < 0
         then (let (n2, out2) = whisper_tokenize v s (- n_needed) in take (nat n2) out2)
         else take (nat n_needed) out)"

definition given_prompt :: "vocab \<Rightarrow> 'f full_params \<Rightarrow> int list" where
  "given_prompt v P =
     (case (fp_prompt_tokens P, fp_initial_prompt P) of
        (Some ts, _) \<Rightarrow> ts
      | (None, Some s) \<Rightarrow> prompt_from_text v s
      | (None, None) \<Rightarrow> [])"

definition store_prompt :: "('f, 'd, 'r, 't) full_env \<Rightarrow> 'f full_params \<Rightarrow> ('f, 'd, 'r, 't) wstate
    \<Rightarrow> ('f, 'd, 'r, 't) wstate" where
  "store_prompt E P st =
     (let toks = given_prompt (vocab_of E) P
      in if toks = [] then st
         else if fp_carry_initial_prompt P
         then (if ws_past0 st = []
               then (let max_tokens = max 1 (max_prompt_ctx E P - 1);
                         n_tokens = min (int (length toks)) max_tokens
                     in st\<lparr>ws_past0 := drop (length toks - nat n_tokens) toks\<rparr>)
               else st)
         else st\<lparr>ws_past1 := rotate (length (ws_past1 st)) (ws_past1 st @ toks)\<rparr>)"

definition clear_context :: "'f full_params \<Rightarrow> ('f, 'd, 'r, 't) wstate \<Rightarrow> ('f, 'd, 'r, 't) wstate" where
  "clear_context P st = (if fp_no_context P then st\<lparr>ws_past0 := [], ws_past1 := []\<rparr> else st)"

text \<open>Distilled models of the first release run without timestamps.\<close>

definition is_distil :: "('f, 'd, 'r, 't) full_env \<Rightarrow> bool" where
  "is_distil E \<longleftrightarrow> fe_n_text_layer E = 2 \<and> v_n_vocab (vocab_of E) \<noteq> 51866"

definition force_no_timestamps :: "('f, 'd, 'r, 't) full_env \<Rightarrow> 'f full_params \<Rightarrow> 'f full_params" where
  "force_no_timestamps E P =
     (if is_distil E \<and> \<not> no_timestamps P
      then P\<lparr>fp_dec := (fp_dec P)\<lparr>dp_logit := (dp_logit (fp_dec P))\<lparr>lp_no_timestamps := True\<rparr>\<rparr>\<rparr> else P)"

definition prompt_init :: "vocab \<Rightarrow> 'f full_params \<Rightarrow> string \<Rightarrow> int list" where
  "prompt_init v P language =
     [v_sot v] @
     (if is_multilingual v
      then [whisper_token_lang v (whisper_lang_id language),
            (if fp_translate P then v_translate v else v_transcribe v)] else []) @
     (if no_timestamps P then [v_not v] else [])"

text \<open>
  The prompt of one try.  \<^term>\<open>None\<close> is the insertion of a range that begins after its end, when the tokens of
  the initial prompt alone fill the room.
\<close>

definition history_cutoff :: "'f float_ops \<Rightarrow> 'f" where
  "history_cutoff F = fl_lit F (1 / 2)"

definition build_prompt :: "('f, 'd, 'r, 't) full_env \<Rightarrow> 'f full_params \<Rightarrow> 'f \<Rightarrow> int list \<Rightarrow> int list \<Rightarrow> int list
    \<Rightarrow> int list option" where
  "build_prompt E P t_cur past0 past1 init =
     (let can_take0 = (fp_carry_initial_prompt P \<and> past0 \<noteq> []); can_take1 = (past1 \<noteq> [])
      in if fp_n_max_text_ctx P > 0 \<and> fl_lt (flt_of E) t_cur (history_cutoff (flt_of E)) \<and>
            max_prompt_ctx E P > 0 \<and> (can_take0 \<or> can_take1)
         then (let n_take0 = (if can_take0 then length past0 else 0);
                   n_take1 = min (max_prompt_ctx E P - int n_take0 - 1) (int (length past1))
               in if n_take1 < 0 then None
                  else Some ([v_prev (vocab_of E)] @ (if can_take0 then past0 else []) @
                         drop (length past1 - nat n_take1) past1 @ init))
         else Some init)"

end
