(* ===== verification/Transcribe.thy ===== *)
theory Transcribe
  imports Transcribe_State
begin

text \<open>
  \<open>whisper_full_with_state\<close> of \<open>src/src/whisper.cpp\<close>: one window of audio is decoded with rising temperatures,
  each with one or several decoders token by token, and the segments of the best decoder are appended to the
  result; the main loop moves the window on until the end of the audio.
\<close>

section \<open>Starting a try\<close>

text \<open>The KV cache is made anew when more decoders are needed than it was made for.\<close>

definition kv_factor :: "nat \<Rightarrow> nat" where
  "kv_factor n_dec = (if n_dec > 1 then n_dec + 2 else 1)"

definition recreate_kv :: "('f, 'd, 'r, 't) full_env \<Rightarrow> nat \<Rightarrow> ('f, 'd, 'r, 't) wstate
    \<Rightarrow> (('f, 'd, 'r, 't) wstate, ('f, 'd, 'r, 't) wstate) outcome" where
  "recreate_kv E n_cur st =
     (if ws_kv_n_dec st < int n_cur
      then (let n = ggml_pad (nat (n_text_ctx E)) 256 * kv_factor n_cur
            in if fe_alloc E n then Done (st\<lparr>ws_kv := kv_cache_init n, ws_kv_n_dec := int n_cur\<rparr>) else Fail (-7) st)
      else Done st)"

definition init_decoders :: "('f, 'd, 'r) dec_model \<Rightarrow> 'f dec_params \<Rightarrow> nat \<Rightarrow> ('f, 'd, 'r) decoder list
    \<Rightarrow> ('f, 'd, 'r) decoder list option" where
  "init_decoders M P n_cur ds =
     map_option (\<lambda>ds'. ds' @ drop n_cur ds) (those (map (decoder_init M P) (take n_cur ds)))"

text \<open>
  The probability of no speech.  The greatest logit is taken over the whole of \<open>state->logits\<close>, the
  probabilities over its first row.
\<close>

definition no_speech_prob :: "'f float_ops \<Rightarrow> vocab \<Rightarrow> 'f list \<Rightarrow> 'f option" where
  "no_speech_prob F v logits =
     (case max_element F logits of
        None \<Rightarrow> None
      | Some m \<Rightarrow>
          (let row = take (nat (v_n_vocab v)) logits;
               logprobs = map (logprob F (fl_add F (fl_log F (sum_exp F m row)) m)) row
           in if 0 \<le> v_nosp v \<and> v_nosp v < int (length row)
              then Some (compute_probs F row logprobs ! nat (v_nosp v)) else None))"

text \<open>The other decoders start from what decoder 0 computed.\<close>

definition share_first :: "nat \<Rightarrow> ('f, 'd, 'r, 't) wstate \<Rightarrow> ('f, 'd, 'r, 't) wstate" where
  "share_first n_cur st =
     st\<lparr>ws_kv := foldl (\<lambda>c j. kv_cache_seq_cp c 0 (int j) (-1) (-1)) (ws_kv st) [1 ..< n_cur],
        ws_decoders := map (\<lambda>(j, d). if 1 \<le> j \<and> j < n_cur then d\<lparr>d_probs := d_probs (ws_decoders st ! 0)\<rparr> else d)
          (enumerate 0 (ws_decoders st))\<rparr>"

definition first_logits :: "('f, 'd, 'r, 't) full_env \<Rightarrow> 'f full_params \<Rightarrow> 'f \<Rightarrow> nat \<Rightarrow> ('f, 'd, 'r, 't) wstate
    \<Rightarrow> ('f, 'd, 'r, 't) wstate option" where
  "first_logits E P t_cur n_prompt st =
     (case ws_decoders st of
        [] \<Rightarrow> None
      | d # ds \<Rightarrow> map_option (\<lambda>d'. st\<lparr>ws_decoders := d' # ds\<rparr>)
                  (process_decoder (fe_model E) (fp_dec P) t_cur (ws_logits st) (d\<lparr>d_i_batch := n_prompt - 1\<rparr>)))"

definition start_try :: "('f, 'd, 'r, 't) full_env \<Rightarrow> 'f full_params \<Rightarrow> int list \<Rightarrow> 'f \<Rightarrow> nat \<Rightarrow> ('f, 'd, 'r, 't) wstate
    \<Rightarrow> (int list \<times> ('f, 'd, 'r, 't) wstate, ('f, 'd, 'r, 't) wstate) outcome" where
  "start_try E P init t_cur n_cur st =
     out_bind (out_opt (init_decoders (fe_model E) (fp_dec P) n_cur (ws_decoders st))) (\<lambda>ds.
     out_bind (out_opt (build_prompt E P t_cur (ws_past0 st) (ws_past1 st) init)) (\<lambda>prompt.
     out_bind (recreate_kv E n_cur (st\<lparr>ws_decoders := ds\<rparr>)) (\<lambda>st1.
     out_bind (out_opt (batch_prep_legacy (batch_alloc E) (Some prompt) (length prompt) 0 0)) (\<lambda>batch.
     (let (ok, st2) = decode_internal E False True batch (st1\<lparr>ws_kv := kv_cache_clear (ws_kv st1)\<rparr>)
      in if \<not> ok then Fail (-8) st2
         else out_bind (out_opt (no_speech_prob (flt_of E) (vocab_of E) (ws_logits st2))) (\<lambda>ns.
              out_bind (out_opt (first_logits E P t_cur (length prompt) (st2\<lparr>ws_no_speech := ns\<rparr>))) (\<lambda>st3.
              Done (prompt, share_first n_cur st3))))))))"

section \<open>The tokens of a try\<close>

text \<open>
  One turn of the loop: sampling, the choice of the candidates, the update of the decoders and, unless all
  have finished, the logits of the next token.  The threads that share the decoders out among them work on
  one decoder each, with its own random generator, so their order makes no difference.
\<close>

definition sample_all :: "('f, 'd, 'r, 't) full_env \<Rightarrow> 'f full_params \<Rightarrow> 'f \<Rightarrow> nat \<Rightarrow> nat \<Rightarrow> ('f, 'd, 'r, 't) wstate
    \<Rightarrow> ('f, 'd, 'r, 't) wstate option" where
  "sample_all E P t_cur n_cur i st =
     (let ds = take n_cur (ws_decoders st); rest = drop n_cur (ws_decoders st)
      in if dp_beam_search (fp_dec P)
         then map_option (\<lambda>(ds', picks). st\<lparr>ws_decoders := ds' @ rest, ws_kv := beam_kv_update (ws_kv st) picks,
                ws_n_sample := ws_n_sample st + (if dp_beam_size (fp_dec P) > 0 then length (filter (\<lambda>d. \<not> finished d) ds) else 0)\<rparr>)
             (beam_step (fe_model E) (fp_dec P) i ds)
         else Some (st\<lparr>ws_decoders := map (greedy_sample (fe_model E) t_cur) ds @ rest\<rparr>))"

definition update_all :: "('f, 'd, 'r, 't) full_env \<Rightarrow> 'f full_params \<Rightarrow> int \<Rightarrow> int \<Rightarrow> nat \<Rightarrow> int \<Rightarrow> nat
    \<Rightarrow> ('f, 'd, 'r, 't) wstate \<Rightarrow> ('f, 'd, 'r, 't) wstate option" where
  "update_all E P seek seek_end i n_max n_cur st =
     map_option (\<lambda>ds. st\<lparr>ws_decoders := ds @ drop n_cur (ws_decoders st)\<rparr>)
       (those (map (update_decoder (fe_model E) (fp_dec P) seek seek_end i n_max) (take n_cur (ws_decoders st))))"

definition process_all :: "('f, 'd, 'r, 't) full_env \<Rightarrow> 'f full_params \<Rightarrow> 'f \<Rightarrow> nat \<Rightarrow> ('f, 'd, 'r, 't) wstate
    \<Rightarrow> ('f, 'd, 'r, 't) wstate option" where
  "process_all E P t_cur n_cur st =
     map_option (\<lambda>ds. st\<lparr>ws_decoders := ds @ drop n_cur (ws_decoders st)\<rparr>)
       (those (map (process_decoder (fe_model E) (fp_dec P) t_cur (ws_logits st)) (take n_cur (ws_decoders st))))"

definition next_logits :: "('f, 'd, 'r, 't) full_env \<Rightarrow> 'f full_params \<Rightarrow> 'f \<Rightarrow> int \<Rightarrow> nat \<Rightarrow> ('f, 'd, 'r, 't) wstate
    \<Rightarrow> (('f, 'd, 'r, 't) wstate, ('f, 'd, 'r, 't) wstate) outcome" where
  "next_logits E P t_cur n_past n_cur st =
     (let (ds, batch) = next_batch n_past 0 0 (take n_cur (ws_decoders st));
          (ok, st1) = decode_internal E False True batch (st\<lparr>ws_decoders := ds @ drop n_cur (ws_decoders st)\<rparr>)
      in if \<not> ok then Fail (-9) st1 else out_opt (process_all E P t_cur n_cur st1))"

definition token_turn :: "('f, 'd, 'r, 't) full_env \<Rightarrow> 'f full_params \<Rightarrow> 'f \<Rightarrow> int \<Rightarrow> int \<Rightarrow> int \<Rightarrow> nat \<Rightarrow> nat \<Rightarrow> nat
    \<Rightarrow> ('f, 'd, 'r, 't) wstate \<Rightarrow> (bool \<times> ('f, 'd, 'r, 't) wstate, ('f, 'd, 'r, 't) wstate) outcome" where
  "token_turn E P t_cur seek seek_end n_max n_prompt n_cur i st =
     out_bind (out_opt (sample_all E P t_cur n_cur i st)) (\<lambda>st1.
     out_bind (out_opt (update_all E P seek seek_end i n_max n_cur st1)) (\<lambda>st2.
     if list_all finished (take n_cur (ws_decoders st2)) then Done (True, st2)
     else out_bind (next_logits E P t_cur (int (n_prompt + i)) n_cur st2) (\<lambda>st3. Done (False, st3))))"

text \<open>\<open>k\<close> is the number of turns left, \<open>n_max - i\<close>.\<close>

fun token_loop :: "('f, 'd, 'r, 't) full_env \<Rightarrow> 'f full_params \<Rightarrow> 'f \<Rightarrow> int \<Rightarrow> int \<Rightarrow> int \<Rightarrow> nat \<Rightarrow> nat \<Rightarrow> nat \<Rightarrow> nat
    \<Rightarrow> ('f, 'd, 'r, 't) wstate \<Rightarrow> (('f, 'd, 'r, 't) wstate, ('f, 'd, 'r, 't) wstate) outcome" where
  "token_loop E P t_cur seek seek_end n_max n_prompt n_cur 0 i st = Done st"
| "token_loop E P t_cur seek seek_end n_max n_prompt n_cur (Suc k) i st =
     out_bind (token_turn E P t_cur seek seek_end n_max n_prompt n_cur i st) (\<lambda>(all_done, st1).
       if all_done then Done st1
       else token_loop E P t_cur seek seek_end n_max n_prompt n_cur k (Suc i) st1)"

definition max_new_tokens :: "('f, 'd, 'r, 't) full_env \<Rightarrow> int" where
  "max_new_tokens E = tdiv (n_text_ctx E) 2 - 4"

section \<open>The tries of a window\<close>

definition rank_all :: "('f, 'd, 'r, 't) full_env \<Rightarrow> 'f full_params \<Rightarrow> nat \<Rightarrow> nat \<Rightarrow> ('f, 'd, 'r, 't) wstate
    \<Rightarrow> (nat \<times> ('f, 'd, 'r, 't) wstate) option" where
  "rank_all E P n_cur best st =
     map_option (\<lambda>(ds, best', n). (best', st\<lparr>ws_decoders := ds @ drop n_cur (ws_decoders st),
         ws_n_fail_h := ws_n_fail_h st + n\<rparr>))
       (rank_decoders (fe_model E) (fp_dec P) best (take n_cur (ws_decoders st)))"

definition one_try :: "('f, 'd, 'r, 't) full_env \<Rightarrow> 'f full_params \<Rightarrow> int list \<Rightarrow> int \<Rightarrow> int \<Rightarrow> 'f \<Rightarrow> nat
    \<Rightarrow> ('f, 'd, 'r, 't) wstate
    \<Rightarrow> (int list \<times> nat \<times> ('f, 'd, 'r, 't) wstate, ('f, 'd, 'r, 't) wstate) outcome" where
  "one_try E P init seek seek_end t_cur best st =
     (let n_cur = decoders_at (flt_of E) (fp_dec P) t_cur; n_max = max_new_tokens E
      in out_bind (start_try E P init t_cur n_cur st) (\<lambda>(prompt, st1).
         out_bind (token_loop E P t_cur seek seek_end n_max (length prompt) n_cur (nat n_max) 0 st1) (\<lambda>st2.
         out_bind (out_opt (rank_all E P n_cur best st2)) (\<lambda>(best', st3). Done (prompt, best', st3)))))"

definition try_failed :: "('f, 'd, 'r, 't) full_env \<Rightarrow> 'f full_params \<Rightarrow> ('f, 'd, 'r) decoder \<Rightarrow> 'f \<Rightarrow> bool" where
  "try_failed E P d ns \<longleftrightarrow> d_failed d \<or>
     (fl_lt (dbl (fe_model E)) (sq_avg_logprobs (d_sequence d))
        (a_widen (dm_arith (fe_model E)) (dp_logprob_thold (fp_dec P))) \<and>
      fl_lt (flt_of E) ns (dp_no_speech_thold (fp_dec P)))"

fun tries :: "('f, 'd, 'r, 't) full_env \<Rightarrow> 'f full_params \<Rightarrow> int list \<Rightarrow> int \<Rightarrow> int \<Rightarrow> 'f list \<Rightarrow> int list \<Rightarrow> nat
    \<Rightarrow> ('f, 'd, 'r, 't) wstate
    \<Rightarrow> (int list \<times> nat \<times> ('f, 'd, 'r, 't) wstate, ('f, 'd, 'r, 't) wstate) outcome" where
  "tries E P init seek seek_end [] prompt best st = Done (prompt, best, st)"
| "tries E P init seek seek_end (t_cur # rest) prompt best st =
     out_bind (one_try E P init seek seek_end t_cur best st) (\<lambda>(prompt1, best1, st1).
       if rest \<noteq> [] \<and> try_failed E P (ws_decoders st1 ! best1) (ws_no_speech st1)
       then tries E P init seek seek_end rest prompt1 best1 (st1\<lparr>ws_n_fail_p := ws_n_fail_p st1 + 1\<rparr>)
       else Done (prompt1, best1, st1))"

section \<open>The result of a window\<close>

definition seg_params_of :: "('f, 'd, 'r, 't) full_env \<Rightarrow> 'f full_params \<Rightarrow> 'f list \<Rightarrow> ('f, token_clock) seg_params" where
  "seg_params_of E P energy =
     \<lparr>sp_print_special = fp_print_special P, sp_tdrz_enable = lp_tdrz_enable (dp_logit (fp_dec P)),
      sp_single_segment = dp_single_segment (fp_dec P), sp_token_timestamps = fp_token_timestamps P,
      sp_max_len = fp_max_len P, sp_split_on_word = fp_split_on_word P,
      sp_stamp = compute_token_times (dm_arith (fe_model E)) (vocab_of E) (fp_time P) energy,
      sp_dtw = fe_dtw E, sp_zero = fl_zero (flt_of E)\<rparr>"

definition is_no_speech :: "('f, 'd, 'r, 't) full_env \<Rightarrow> 'f full_params \<Rightarrow> ('f, 'd, 'r) decoder \<Rightarrow> 'f \<Rightarrow> bool" where
  "is_no_speech E P d ns \<longleftrightarrow>
     fl_lt (flt_of E) (dp_no_speech_thold (fp_dec P)) ns \<and>
     fl_lt (dbl (fe_model E)) (sq_avg_logprobs (d_sequence d))
       (a_widen (dm_arith (fe_model E)) (dp_logprob_thold (fp_dec P)))"

text \<open>Taking the prompt apart again throws when it is shorter than its fixed part.\<close>

definition rolling_context :: "('f, 'd, 'r, 't) full_env \<Rightarrow> 'f full_params \<Rightarrow> int list \<Rightarrow> int list \<Rightarrow> int list option" where
  "rolling_context E P init prompt =
     (if \<not> fp_carry_initial_prompt P \<and> prompt \<noteq> [] \<and> hd prompt = v_prev (vocab_of E)
      then (if length prompt < 1 + length init then None
            else Some (take (length prompt - 1 - length init) (tl prompt)))
      else Some [])"

definition single_timestamp_ending :: "vocab \<Rightarrow> int list \<Rightarrow> bool" where
  "single_timestamp_ending v ids \<longleftrightarrow>
     length ids > 1 \<and> ids ! (length ids - 2) < v_beg v \<and> ids ! (length ids - 1) > v_beg v"

definition note_language :: "('f, 'd, 'r, 't) full_env \<Rightarrow> string \<Rightarrow> ('f, 'd, 'r, 't) wstate \<Rightarrow> ('f, 'd, 'r, 't) wstate" where
  "note_language E language st =
     (if is_multilingual (vocab_of E) then st\<lparr>ws_lang_id := whisper_lang_id language\<rparr> else st)"

text \<open>
  The times by dynamic time warping: the tokens of the new segments go through the decoder once more, and the
  attention of the alignment heads gives each text token its time.  A failed assertion ends the process.
\<close>

definition dtw_prompt :: "vocab \<Rightarrow> string \<Rightarrow> 'f segment list \<Rightarrow> int list" where
  "dtw_prompt v language segs =
     [v_sot v] @ (if is_multilingual v then [whisper_token_lang v (whisper_lang_id language)] else []) @ [v_not v] @
     filter (\<lambda>i. i < v_eot v) (map td_id (concat (map sg_tokens segs))) @ [v_eot v]"

definition dtw_decode :: "('f, 'd, 'r, 't) full_env \<Rightarrow> int list \<Rightarrow> ('f, 'd, 'r, 't) wstate
    \<Rightarrow> ('f cross_qks \<times> ('f, 'd, 'r, 't) wstate) option" where
  "dtw_decode E tokens st =
     Option.bind (batch_prep_legacy (batch_alloc E) (Some tokens) (length tokens) 0 0) (\<lambda>batch.
       let (ok, st1) = decode_internal E True False batch
             (st\<lparr>ws_kv := kv_cache_seq_rm (kv_cache_clear (ws_kv st)) 0 0 (-1)\<rparr>)
       in if ok then map_option (\<lambda>Q. (Q, st1)) (fe_qks E (ws_world st1)) else None)"

definition put_tokens :: "'f segment \<Rightarrow> 'f token_data list \<Rightarrow> 'f segment" where
  "put_tokens s toks = s\<lparr>sg_tokens := toks\<rparr>"

definition token_times_dtw :: "('f, 'd, 'r, 't) full_env \<Rightarrow> string \<Rightarrow> nat \<Rightarrow> int \<Rightarrow> int \<Rightarrow> ('f, 'd, 'r, 't) wstate
    \<Rightarrow> ('f, 'd, 'r, 't) wstate option" where
  "token_times_dtw E language n_segments seek n_frames st =
     (let v = vocab_of E; n_ctx = audio_ctx E st; i_segment = length (ws_result st) - n_segments;
          old = take i_segment (ws_result st); segs = drop i_segment (ws_result st)
      in if n_frames > 2 * int n_ctx \<or> da_preset (fe_aheads E) = Aheads_None then None
         else Option.bind (dtw_decode E (dtw_prompt v language segs) (note_language E language st)) (\<lambda>(Q, st1).
              Option.bind (alignment (flt_of E) (fe_align E) 7 Q n_ctx (nat (tdiv n_frames 2))
                  (if is_multilingual v then 2 else 1)) (\<lambda>path.
              map_option (\<lambda>toks. st1\<lparr>ws_result := old @ map2 put_tokens segs toks\<rparr>)
                (place_times (v_eot v) seek path 0 (0, 0) (map sg_tokens segs)))))"

text \<open>The callback loop behind it counts from the index of the first new segment up to the number of new segments.\<close>

definition align_window :: "('f, 'd, 'r, 't) full_env \<Rightarrow> string \<Rightarrow> nat \<Rightarrow> int \<Rightarrow> int \<Rightarrow> ('f, 'd, 'r, 't) wstate
    \<Rightarrow> ('f, 'd, 'r, 't) wstate option" where
  "align_window E language n_segments seek n_frames st =
     (if fe_dtw E \<and> n_segments > 0
      then map_option (\<lambda>st1. st1\<lparr>ws_calls := ws_calls st1 @ [length (ws_result st1) - n_segments ..< n_segments]\<rparr>)
             (token_times_dtw E language n_segments seek n_frames st)
      else Some st)"

definition finish_window :: "('f, 'd, 'r, 't) full_env \<Rightarrow> 'f full_params \<Rightarrow> string \<Rightarrow> int list \<Rightarrow> int \<Rightarrow> int \<Rightarrow> int list \<Rightarrow> nat
    \<Rightarrow> ('f, 'd, 'r, 't) wstate \<Rightarrow> (int \<times> ('f, 'd, 'r, 't) wstate) option" where
  "finish_window E P language init seek seek_end prompt best st =
     (let d = ws_decoders st ! best; seek_delta = d_seek_delta d; toks = d_tokens d;
          quiet = is_no_speech E P d (ws_no_speech st)
      in if best \<ge> length (ws_decoders st) \<or> (\<not> quiet \<and> length toks < d_result_len d) then None
         else case rolling_context E P init prompt of
             None \<Rightarrow> None
           | Some past \<Rightarrow>
               (let st1 = st\<lparr>ws_past1 := past @ (if quiet then [] else map td_id (take (d_result_len d) toks))\<rparr>
                in case (if toks \<noteq> [] \<and> dm_n_loaded (fe_model E) > 0 \<and> \<not> quiet
                         then cut_segments (vocab_of E) (seg_params_of E P (ws_energy st1)) (ws_no_speech st1) seek seek_delta
                                toks (ws_result st1) (ws_clock st1)
                         else Some (ws_result st1, [], ws_clock st1)) of
                     None \<Rightarrow> None
                   | Some (segs, calls, ck) \<Rightarrow>
                       (let st2 = st1\<lparr>ws_result := segs, ws_calls := ws_calls st1 @ calls, ws_clock := ck\<rparr>;
                            delta = (if single_timestamp_ending (vocab_of E) (map td_id toks)
                                     then min (seek_end - seek) chunk_frames else seek_delta)
                        in map_option (\<lambda>st3. (seek + delta, st3))
                             (align_window E language (length segs - length (ws_result st1)) seek
                                (min (min chunk_frames seek_delta) (seek_end - seek)) st2))))"

section \<open>The main loop\<close>

definition forget_context :: "int \<Rightarrow> int \<Rightarrow> int \<Rightarrow> ('f, 'd, 'r, 't) wstate \<Rightarrow> ('f, 'd, 'r, 't) wstate" where
  "forget_context seek seek_start seek_end st =
     (if seek > seek_start \<and> seek + 500 \<ge> seek_end then st\<lparr>ws_past0 := [], ws_past1 := []\<rparr> else st)"

text \<open>
  One turn of the main loop; the flag tells that it is the last.  What the progress callback is told is
  logged, whether or not there is one.
\<close>

definition window_turn :: "('f, 'd, 'r, 't) full_env \<Rightarrow> 'f full_params \<Rightarrow> string \<Rightarrow> int list \<Rightarrow> 'f list \<Rightarrow> int \<Rightarrow> int
    \<Rightarrow> int \<times> int list \<times> ('f, 'd, 'r, 't) wstate
    \<Rightarrow> (bool \<times> int \<times> int list \<times> ('f, 'd, 'r, 't) wstate, ('f, 'd, 'r, 't) wstate) outcome" where
  "window_turn E P language init temps seek_start seek_end cur =
     (let (seek, prompt, st0) = cur;
          st1 = st0\<lparr>ws_progress := ws_progress st0 @ [tdiv (100 * (seek - seek_start)) (seek_end - seek_start)]\<rparr>
      in if seek + delta_min \<ge> seek_end then Done (True, seek, prompt, st1)
         else let (go, w) = fe_begin E (ws_world st1); st2 = st1\<lparr>ws_world := w\<rparr>
         in if \<not> go then Done (True, seek, prompt, st2)
         else out_bind (out_opt (encode_internal E True seek st2)) (\<lambda>(ok, st3).
           if \<not> ok then Fail (-6) st3
           else out_bind (tries E P init seek seek_end temps prompt 0 (forget_context seek seek_start seek_end st3))
             (\<lambda>(prompt1, best, st4).
                out_bind (out_opt (finish_window E P language init seek seek_end prompt1 best st4))
                  (\<lambda>(seek1, st5). Done (False, seek1, prompt1, st5)))))"

text \<open>\<^term>\<open>None\<close> is not being done after \<open>fuel\<close> turns.\<close>

fun main_windows :: "('f, 'd, 'r, 't) full_env \<Rightarrow> 'f full_params \<Rightarrow> string \<Rightarrow> int list \<Rightarrow> 'f list \<Rightarrow> int \<Rightarrow> int
    \<Rightarrow> nat \<Rightarrow> int \<times> int list \<times> ('f, 'd, 'r, 't) wstate
    \<Rightarrow> (('f, 'd, 'r, 't) wstate, ('f, 'd, 'r, 't) wstate) outcome option" where
  "main_windows E P language init temps seek_start seek_end 0 cur = None"
| "main_windows E P language init temps seek_start seek_end (Suc fuel) cur =
     (case window_turn E P language init temps seek_start seek_end cur of
        Done (True, seek, prompt, st) \<Rightarrow> Some (Done st)
      | Done (False, cur1) \<Rightarrow> main_windows E P language init temps seek_start seek_end fuel cur1
      | Fail c st \<Rightarrow> Some (Fail c st)
      | Bad \<Rightarrow> Some Bad)"

section \<open>The whole call\<close>

definition language_unknown :: "'f full_params \<Rightarrow> bool" where
  "language_unknown P \<longleftrightarrow>
     (case fp_language P of None \<Rightarrow> True | Some l \<Rightarrow> l = [] \<or> l = ''auto'') \<or> fp_detect_language P"

text \<open>The language of the call; \<open>Inr\<close> is the early return of a call that only detects it.\<close>

definition choose_language :: "('f, 'd, 'r, 't) full_env \<Rightarrow> 'f full_params \<Rightarrow> ('f, 'd, 'r, 't) wstate
    \<Rightarrow> ((string \<times> ('f, 'd, 'r, 't) wstate) + ('f, 'd, 'r, 't) wstate, ('f, 'd, 'r, 't) wstate) outcome" where
  "choose_language E P st =
     (if language_unknown P
      then out_bind (out_opt (lang_auto_detect E 0 st)) (\<lambda>((lang_id, probs), st1).
             if lang_id < 0 then Fail (-3) st1
             else out_bind (out_opt (whisper_lang_str lang_id)) (\<lambda>language.
               (let st2 = st1\<lparr>ws_lang_id := lang_id\<rparr>
                in Done (if fp_detect_language P then Inr st2 else Inl (language, st2)))))
      else Done (Inl (the (fp_language P), st)))"

text \<open>The spectrogram always succeeds where it is defined, so that the error code \<open>-2\<close> is never returned.\<close>

definition compute_mel :: "('f, 'd, 'r, 't) full_env \<Rightarrow> 'f full_params \<Rightarrow> 'f list \<Rightarrow> ('f, 'd, 'r, 't) wstate
    \<Rightarrow> (('f, 'd, 'r, 't) wstate, ('f, 'd, 'r, 't) wstate) outcome" where
  "compute_mel E P samples st =
     (if samples \<noteq> []
      then out_bind (out_opt (pcm_to_mel (dm_arith (fe_model E)) (fe_fourier E) (fe_log10 E) (fe_hann E) (fp_n_threads P)
             (fe_filters E) (ml_data (ws_mel st)) samples)) (\<lambda>m. Done (st\<lparr>ws_mel := m\<rparr>))
      else Done st)"

definition start_clock :: "('f, 'd, 'r, 't) full_env \<Rightarrow> 'f full_params \<Rightarrow> 'f list \<Rightarrow> ('f, 'd, 'r, 't) wstate
    \<Rightarrow> ('f, 'd, 'r, 't) wstate" where
  "start_clock E P samples st =
     (if fp_token_timestamps P
      then st\<lparr>ws_clock := \<lparr>tc_beg = 0, tc_last = 0, tc_tid_last = 0\<rparr>,
              ws_energy := (if samples \<noteq> [] then get_signal_energy (flt_of E) (fe_fabs E) samples 32 else ws_energy st)\<rparr>
      else st)"

text \<open>\<open>seed\<close> is the generator seeded with a number.\<close>

definition seed_decoders :: "(nat \<Rightarrow> 'r) \<Rightarrow> int \<Rightarrow> ('f, 'd, 'r, 't) wstate \<Rightarrow> ('f, 'd, 'r, 't) wstate" where
  "seed_decoders seed n_decoders st =
     st\<lparr>ws_decoders := map (\<lambda>(j, d). if 1 \<le> j \<and> int j < n_decoders then d\<lparr>d_rng := seed j\<rparr> else d)
          (enumerate 0 (ws_decoders st))\<rparr>"

text \<open>
  From the choice of the temperatures on; the outer \<^term>\<open>None\<close> is a loop that has not ended within the
  \<open>bounds\<close> given for the temperatures and for the windows.
\<close>

definition full_decode :: "('f, 'd, 'r, 't) full_env \<Rightarrow> 'f full_params \<Rightarrow> (nat \<Rightarrow> 'r) \<Rightarrow> nat \<times> nat
    \<Rightarrow> string \<Rightarrow> int \<Rightarrow> int \<Rightarrow> ('f, 'd, 'r, 't) wstate
    \<Rightarrow> (('f, 'd, 'r, 't) wstate, ('f, 'd, 'r, 't) wstate) outcome option" where
  "full_decode E P seed bounds language seek_start seek_end st =
     (case temperatures (flt_of E) (fst bounds) (fp_temperature P) (fp_temperature_inc P) of
        None \<Rightarrow> None
      | Some temps \<Rightarrow>
          (let n_decoders = decoders_wanted (fp_dec P)
           in if n_decoders > whisper_max_decoders then Some (Fail (-4) st)
              else let st1 = store_prompt E P (clear_context P (seed_decoders seed n_decoders st))
              in if fp_audio_ctx P > dm_n_audio_ctx (fe_model E) then Some (Fail (-5) st1)
              else let st2 = note_language E language (st1\<lparr>ws_exp_audio_ctx := fp_audio_ctx P\<rparr>);
                       P1 = force_no_timestamps E P
              in main_windows E P1 language (prompt_init (vocab_of E) P1 language) temps seek_start seek_end
                   (snd bounds) (seek_start, [], st2)))"

definition full_with_state :: "('f, 'd, 'r, 't) full_env \<Rightarrow> 'f full_params \<Rightarrow> (nat \<Rightarrow> 'r) \<Rightarrow> nat \<times> nat
    \<Rightarrow> 'f list \<Rightarrow> ('f, 'd, 'r, 't) wstate \<Rightarrow> (('f, 'd, 'r, 't) wstate, ('f, 'd, 'r, 't) wstate) outcome option" where
  "full_with_state E P seed bounds samples st =
     (case out_bind (compute_mel E P samples (st\<lparr>ws_result := []\<rparr>)) (choose_language E P) of
        Fail c st1 \<Rightarrow> Some (Fail c st1)
      | Bad \<Rightarrow> Some Bad
      | Done (Inr st1) \<Rightarrow> Some (Done st1)
      | Done (Inl (language, st1)) \<Rightarrow>
          (let st2 = start_clock E P samples st1; seek_start = tdiv (fp_offset_ms P) 10;
               seek_end = (if fp_duration_ms P = 0 then ml_n_len_org (ws_mel st2)
                           else seek_start + tdiv (fp_duration_ms P) 10)
           in if seek_end < seek_start + delta_min then Some (Done st2)
              else full_decode E P seed bounds language seek_start seek_end st2))"

end
