(* ===== verification/Transcribe_Safe.thy ===== *)
theory Transcribe_Safe
  imports Transcribe
begin

text \<open>
  The call of \<open>whisper_full_with_state\<close> returns: on a complete vocabulary, without a grammar and without
  alignment times, every step is defined, and every window moves the main loop on by at least two frames.
\<close>

section \<open>Outcomes that are defined\<close>

definition safe :: "('a \<Rightarrow> bool) \<Rightarrow> ('a, 's) outcome \<Rightarrow> bool" where
  "safe I r = (case r of Done x \<Rightarrow> I x | Fail c s \<Rightarrow> True | Bad \<Rightarrow> False)"

lemma safe_simps [simp]: "safe I (Done x) = I x" "safe I (Fail c s)" "\<not> safe I Bad"
  by (simp_all add: safe_def)

lemma safe_bind: "safe I r \<Longrightarrow> (\<And>x. I x \<Longrightarrow> safe J (f x)) \<Longrightarrow> safe J (out_bind r f)"
  by (cases r) auto

lemma safe_opt: "\<exists>x. y = Some x \<and> I x \<Longrightarrow> safe I (out_opt y)"
  by (auto simp: out_opt_def)

lemma safe_mono: "safe I r \<Longrightarrow> (\<And>x. I x \<Longrightarrow> J x) \<Longrightarrow> safe J r"
  by (cases r) auto

section \<open>Assumptions\<close>

text \<open>The tables of the transform and the filters of the model fit the frame size.\<close>

definition front_ok :: "('f, 'd, 'r, 't) full_env \<Rightarrow> bool" where
  "front_ok E \<longleftrightarrow> tables_ok (fe_fourier E) \<and> length (fe_hann E) = 400 \<and> filters_ok (fe_filters E) \<and>
     mf_n_mel (fe_filters E) = fe_n_mels E"

definition env_ok :: "('f, 'd, 'r, 't) full_env \<Rightarrow> 'f full_params \<Rightarrow> bool" where
  "env_ok E P \<longleftrightarrow> front_ok E \<and> model_ok (fe_model E) (fp_dec P) \<and> 8 \<le> n_text_ctx E \<and>
     (\<forall>save batch g w w' rows. fe_net E save batch g w = Some (w', rows) \<longrightarrow>
        length rows = length batch \<and> (\<forall>r \<in> set rows. length r = nat (v_n_vocab (vocab_of E)))) \<and>
     (\<forall>ls. set (fe_sort_langs E ls) = set ls) \<and> v_sot (vocab_of E) \<noteq> v_prev (vocab_of E) \<and> \<not> fe_dtw E \<and>
     (fp_carry_initial_prompt P \<longrightarrow> max_prompt_ctx E P \<noteq> 1)"

text \<open>The prompt kept for all windows leaves room for the token before it.\<close>

definition past0_ok :: "('f, 'd, 'r, 't) full_env \<Rightarrow> 'f full_params \<Rightarrow> int list \<Rightarrow> bool" where
  "past0_ok E P past0 \<longleftrightarrow> (fp_carry_initial_prompt P \<and> max_prompt_ctx E P > 0 \<longrightarrow>
     int (length past0) \<le> max_prompt_ctx E P - 1)"

text \<open>The audio of the call, or the spectrogram that is already there, and the number of turns that it allows.\<close>

definition audio_ok :: "('f, 'd, 'r, 't) full_env \<Rightarrow> 'f full_params \<Rightarrow> 'f list \<Rightarrow> 'f mel \<Rightarrow> nat \<Rightarrow> bool" where
  "audio_ok E P samples m fuel \<longleftrightarrow>
     (if samples = [] then mel_ok (fe_n_mels E) m \<and> ml_n_len_org m < int fuel
      else 200 < length samples \<and> 0 < fp_n_threads P \<and> int (length samples) div 160 + 1 < int fuel)"

section \<open>The network\<close>

lemma length_write_rows:
  assumes "\<forall>p \<in> set rows. length (snd p) = nv"
  shows "(i + length rows) * nv \<le> length ls \<Longrightarrow> length (write_rows nv i rows ls) = length ls"
  using assms
proof (induction rows arbitrary: i ls)
  case (Cons p rows)
  obtain b row where p: "p = (b, row)" by force
  have "i * nv + nv \<le> length ls" using Cons.prems(1) by (simp add: algebra_simps)
  then have "length (take (i * nv) ls @ row @ drop (i * nv + nv) ls) = length ls" using Cons.prems(2) p by simp
  then show ?case using Cons.IH [of "Suc i"] Cons.prems p by simp
qed simp

lemma count_decode_simps [simp]: "ws_decoders (count_decode n st) = ws_decoders st" "ws_logits (count_decode n st) = ws_logits st"
  "ws_past0 (count_decode n st) = ws_past0 st" "ws_past1 (count_decode n st) = ws_past1 st"
  "ws_result (count_decode n st) = ws_result st" "ws_mel (count_decode n st) = ws_mel st"
  by (simp_all add: count_decode_def)

lemma decode_internal_keeps:
  assumes "decode_internal E save a batch st = (ok, st')"
  shows "ws_decoders st' = ws_decoders st \<and> ws_past0 st' = ws_past0 st \<and> ws_mel st' = ws_mel st \<and> ws_past1 st' = ws_past1 st \<and>
    ws_result st' = ws_result st"
  using assms by (auto simp: decode_internal_def Let_def split: option.splits prod.splits)

lemma decode_internal_logits:
  assumes "env_ok E P" "decode_internal E save a batch st = (True, st')"
  shows "length (ws_logits st') = length batch * nat (v_n_vocab (vocab_of E))"
proof -
  obtain kv g w rows where net: "fe_net E save batch g (ws_world (st\<lparr>ws_kv := kv\<rparr>)) = Some (w, rows)" and
    st': "ws_logits st' = write_rows (nat (v_n_vocab (vocab_of E))) 0 (zip batch rows)
        (resize_list (fl_zero (flt_of E)) (length batch * nat (v_n_vocab (vocab_of E))) (ws_logits (st\<lparr>ws_kv := kv\<rparr>)))"
    using assms(2) by (auto simp: decode_internal_def Let_def split: option.splits prod.splits)
  have rows: "length rows = length batch" "\<forall>r \<in> set rows. length r = nat (v_n_vocab (vocab_of E))"
    using assms(1) net unfolding env_ok_def by metis+
  then have "\<forall>p \<in> set (zip batch rows). length (snd p) = nat (v_n_vocab (vocab_of E))" by (auto dest: set_zip_rightD)
  then show ?thesis unfolding st'
    using length_write_rows [of "zip batch rows" "nat (v_n_vocab (vocab_of E))" 0] rows(1)
    by (simp add: resize_list_def)
qed

section \<open>The decoders in use\<close>

text \<open>\<open>m\<close> decoders have been set up in this window, and the first \<open>n_cur\<close> are in the state \<open>Q\<close>.\<close>

definition window_inv :: "('f, 'd, 'r, 't) full_env \<Rightarrow> 'f full_params \<Rightarrow> nat \<Rightarrow> ('f, 'd, 'r, 't) wstate \<Rightarrow> bool" where
  "window_inv E P m st \<longleftrightarrow> length (ws_decoders st) = 8 \<and> m \<le> 8 \<and>
     (\<forall>j < m. decoder_ok (vocab_of E) (ws_decoders st ! j)) \<and> past0_ok E P (ws_past0 st) \<and> mel_ok (fe_n_mels E) (ws_mel st)"

definition try_inv :: "('f, 'd, 'r, 't) full_env \<Rightarrow> 'f full_params \<Rightarrow> nat \<Rightarrow> nat \<Rightarrow> (('f, 'd, 'r) decoder \<Rightarrow> bool)
    \<Rightarrow> ('f, 'd, 'r, 't) wstate \<Rightarrow> bool" where
  "try_inv E P m n_cur Q st \<longleftrightarrow> window_inv E P m st \<and> n_cur \<le> m \<and> list_all Q (take n_cur (ws_decoders st))"

lemma nth_replaced: "length ds' = n \<Longrightarrow> n \<le> length ds \<Longrightarrow> j < length ds \<Longrightarrow>
    (ds' @ drop n ds) ! j = (if j < n then ds' ! j else ds ! j)"
  by (auto simp: nth_append)

lemma try_inv_replace:
  assumes "try_inv E P m n_cur Q st" "length ds' = n_cur" "list_all Q' ds'"
    and "\<forall>d. Q' d \<longrightarrow> decoder_ok (vocab_of E) d"
    and "ws_decoders st' = ds' @ drop n_cur (ws_decoders st)" "ws_past0 st' = ws_past0 st" "ws_mel st' = ws_mel st"
  shows "try_inv E P m n_cur Q' st'"
proof -
  have len: "length (ws_decoders st) = 8" "n_cur \<le> m" "m \<le> 8"
    using assms(1) by (simp_all add: try_inv_def window_inv_def)
  have "decoder_ok (vocab_of E) (ws_decoders st' ! j)" if "j < m" for j
    using that assms(1-4) len nth_replaced [of ds' n_cur "ws_decoders st" j]
    by (auto simp: assms(5) try_inv_def window_inv_def list_all_length)
  then show ?thesis using assms len by (simp add: try_inv_def window_inv_def)
qed

lemma try_inv_mono: "try_inv E P m n Q st \<Longrightarrow> (\<And>d. Q d \<Longrightarrow> Q' d) \<Longrightarrow> try_inv E P m n Q' st"
  by (auto simp: try_inv_def list_all_iff)

lemma try_inv_same: "try_inv E P m n Q st \<Longrightarrow> ws_decoders st' = ws_decoders st \<Longrightarrow> ws_past0 st' = ws_past0 st \<Longrightarrow>
    ws_mel st' = ws_mel st \<Longrightarrow> try_inv E P m n Q st'"
  by (simp add: try_inv_def window_inv_def)

lemma try_inv_len: "try_inv E P m n Q st \<Longrightarrow> length (take n (ws_decoders st)) = n"
  by (simp add: try_inv_def window_inv_def)

lemma turn_ok_decoder: "\<forall>d. turn_ok v p i d \<longrightarrow> decoder_ok v d"
  by (simp add: turn_ok_def)

lemma sampled_ok_decoder: "\<forall>d. sampled_ok v i d \<longrightarrow> decoder_ok v d"
  by (simp add: sampled_ok_def)

section \<open>One turn\<close>

lemma sample_all_ok:
  assumes "env_ok E P" "try_inv E P m n_cur (turn_ok (vocab_of E) True i) st"
  shows "\<exists>st'. sample_all E P t_cur n_cur i st = Some st' \<and> try_inv E P m n_cur (sampled_ok (vocab_of E) i) st' \<and>
    ws_past1 st' = ws_past1 st"
proof -
  have m: "model_ok (fe_model E) (fp_dec P)" using assms(1) by (simp add: env_ok_def)
  have Q: "list_all (turn_ok (vocab_of E) True i) (take n_cur (ws_decoders st))" using assms(2) by (simp add: try_inv_def)
  show ?thesis
  proof (cases "dp_beam_search (fp_dec P)")
    case True
    obtain ds' picks where ds': "beam_step (fe_model E) (fp_dec P) i (take n_cur (ws_decoders st)) = Some (ds', picks)"
      "list_all (sampled_ok (vocab_of E) i) ds'" "length ds' = n_cur"
      using beam_step_ok [OF m True Q] try_inv_len [OF assms(2)] by metis
    then have "\<exists>st'. sample_all E P t_cur n_cur i st = Some st' \<and> ws_decoders st' = ds' @ drop n_cur (ws_decoders st) \<and>
        ws_past0 st' = ws_past0 st \<and> ws_mel st' = ws_mel st \<and> ws_past1 st' = ws_past1 st"
      using True by (simp add: sample_all_def Let_def)
    then show ?thesis using try_inv_replace [OF assms(2) ds'(3,2) sampled_ok_decoder] by blast
  next
    case False
    define ds' where "ds' = map (greedy_sample (fe_model E) t_cur) (take n_cur (ws_decoders st))"
    have ds': "list_all (sampled_ok (vocab_of E) i) ds'" "length ds' = n_cur"
      using greedy_sample_ok [OF m] Q try_inv_len [OF assms(2)] by (auto simp: list_all_iff ds'_def)
    have "\<exists>st'. sample_all E P t_cur n_cur i st = Some st' \<and> ws_decoders st' = ds' @ drop n_cur (ws_decoders st) \<and>
        ws_past0 st' = ws_past0 st \<and> ws_mel st' = ws_mel st \<and> ws_past1 st' = ws_past1 st"
      using False by (simp add: sample_all_def Let_def ds'_def)
    then show ?thesis using try_inv_replace [OF assms(2) ds'(2,1) sampled_ok_decoder] by blast
  qed
qed

lemma map_prefix_ok:
  assumes "try_inv E P m n_cur Q st" "\<And>d. Q d \<Longrightarrow> \<exists>d'. f d = Some d' \<and> Q' d'" "\<forall>d. Q' d \<longrightarrow> decoder_ok (vocab_of E) d"
  shows "\<exists>ds'. those (map f (take n_cur (ws_decoders st))) = Some ds' \<and>
    try_inv E P m n_cur Q' (st\<lparr>ws_decoders := ds' @ drop n_cur (ws_decoders st)\<rparr>)"
proof -
  have "\<exists>ds'. those (map f (take n_cur (ws_decoders st))) = Some ds' \<and>
      list_all2 (\<lambda>d d'. Q' d') (take n_cur (ws_decoders st)) ds'"
    by (rule those_map_ok) (use assms(1,2) in \<open>auto simp: try_inv_def list_all_iff\<close>)
  then obtain ds' where ds': "those (map f (take n_cur (ws_decoders st))) = Some ds'"
    "list_all2 (\<lambda>d d'. Q' d') (take n_cur (ws_decoders st)) ds'" by blast
  then have "length ds' = n_cur" "list_all Q' ds'"
    using try_inv_len [OF assms(1)] by (auto simp: list_all2_conv_all_nth list_all_length)
  then show ?thesis using ds'(1) try_inv_replace [OF assms(1) _ _ assms(3)] by auto
qed

lemma update_all_ok:
  assumes "env_ok E P" "try_inv E P m n_cur (sampled_ok (vocab_of E) i) st"
  shows "\<exists>st'. update_all E P seek seek_end i n_max n_cur st = Some st' \<and>
    try_inv E P m n_cur (turn_ok (vocab_of E) False (Suc i)) st' \<and> ws_past1 st' = ws_past1 st"
proof -
  have m: "model_ok (fe_model E) (fp_dec P)" using assms(1) by (simp add: env_ok_def)
  have "\<exists>ds'. those (map (update_decoder (fe_model E) (fp_dec P) seek seek_end i n_max) (take n_cur (ws_decoders st))) = Some ds' \<and>
      try_inv E P m n_cur (turn_ok (vocab_of E) False (Suc i)) (st\<lparr>ws_decoders := ds' @ drop n_cur (ws_decoders st)\<rparr>)"
    by (rule map_prefix_ok [OF assms(2) update_decoder_ok [OF m] turn_ok_decoder])
  then show ?thesis by (auto simp: update_all_def)
qed

lemma next_logits_ok:
  assumes "env_ok E P" "try_inv E P m n_cur (turn_ok (vocab_of E) False i) st"
  shows "safe (\<lambda>st'. try_inv E P m n_cur (turn_ok (vocab_of E) True i) st') (next_logits E P t_cur n_past n_cur st)"
proof -
  define nv where "nv = nat (v_n_vocab (vocab_of E))"
  have mo: "model_ok (fe_model E) (fp_dec P)" using assms(1) by (simp add: env_ok_def)
  obtain ds batch where nb: "next_batch n_past 0 0 (take n_cur (ws_decoders st)) = (ds, batch)" by force
  have Q: "list_all (turn_ok (vocab_of E) False i) (take n_cur (ws_decoders st))" using assms(2) by (simp add: try_inv_def)
  have ds: "length ds = n_cur" "list_all (turn_ok (vocab_of E) False i) ds"
    "list_all (\<lambda>d. finished d \<or> d_i_batch d < length batch) ds"
    using next_batch_ok [OF nb Q] try_inv_len [OF assms(2)] by (auto simp: list_all_iff)
  define st1 where "st1 = st\<lparr>ws_decoders := ds @ drop n_cur (ws_decoders st)\<rparr>"
  have inv1: "try_inv E P m n_cur (\<lambda>d. turn_ok (vocab_of E) False i d \<and> (finished d \<or> d_i_batch d < length batch)) st1"
    by (rule try_inv_replace [OF assms(2) ds(1)])
      (use ds in \<open>auto simp: st1_def list_all_iff turn_ok_def\<close>)
  obtain ok st2 where dec: "decode_internal E False True batch st1 = (ok, st2)" by force
  show ?thesis
  proof (cases ok)
    case False
    then show ?thesis using nb dec by (simp add: next_logits_def Let_def st1_def)
  next
    case True
    have len: "length (ws_logits st2) = length batch * nv"
      using decode_internal_logits [OF assms(1)] dec True by (simp add: nv_def)
    have inv2: "try_inv E P m n_cur (\<lambda>d. turn_ok (vocab_of E) False i d \<and> (finished d \<or> d_i_batch d < length batch)) st2"
      using try_inv_same [OF inv1] decode_internal_keeps [OF dec] by auto
    have step: "\<exists>d'. process_decoder (fe_model E) (fp_dec P) t_cur (ws_logits st2) d = Some d' \<and>
        turn_ok (vocab_of E) True i d'"
      if "turn_ok (vocab_of E) False i d \<and> (finished d \<or> d_i_batch d < length batch)" for d
    proof (cases "finished d")
      case True
      then show ?thesis using that by (simp add: process_decoder_def turn_ok_def)
    next
      case False
      then have "d_i_batch d + 1 \<le> length batch" using that by simp
      then have "(d_i_batch d + 1) * nv \<le> length (ws_logits st2)" unfolding len by (rule mult_le_mono1)
      then show ?thesis using process_decoder_ok [OF mo] that by (simp add: nv_def) blast
    qed
    have "\<exists>ds'. those (map (process_decoder (fe_model E) (fp_dec P) t_cur (ws_logits st2)) (take n_cur (ws_decoders st2))) = Some ds' \<and>
        try_inv E P m n_cur (turn_ok (vocab_of E) True i) (st2\<lparr>ws_decoders := ds' @ drop n_cur (ws_decoders st2)\<rparr>)"
      by (rule map_prefix_ok [OF inv2 step turn_ok_decoder])
    then have "safe (try_inv E P m n_cur (turn_ok (vocab_of E) True i)) (out_opt (process_all E P t_cur n_cur st2))"
      by (intro safe_opt) (auto simp: process_all_def)
    then show ?thesis using nb dec True by (simp add: next_logits_def Let_def st1_def)
  qed
qed

lemma token_turn_ok:
  assumes "env_ok E P" "try_inv E P m n_cur (turn_ok (vocab_of E) True i) st"
  shows "safe (\<lambda>(all_done, st'). try_inv E P m n_cur (decoder_ok (vocab_of E)) st' \<and>
      (\<not> all_done \<longrightarrow> try_inv E P m n_cur (turn_ok (vocab_of E) True (Suc i)) st'))
    (token_turn E P t_cur seek seek_end n_max n_prompt n_cur i st)"
proof -
  obtain st1 where s1: "sample_all E P t_cur n_cur i st = Some st1" "try_inv E P m n_cur (sampled_ok (vocab_of E) i) st1"
    using sample_all_ok [OF assms] by blast
  obtain st2 where s2: "update_all E P seek seek_end i n_max n_cur st1 = Some st2"
    "try_inv E P m n_cur (turn_ok (vocab_of E) False (Suc i)) st2"
    using update_all_ok [OF assms(1) s1(2)] by blast
  have weak: "try_inv E P m n_cur (decoder_ok (vocab_of E)) st2"
    by (rule try_inv_mono [OF s2(2)]) (simp add: turn_ok_def)
  have go_on: "safe (\<lambda>(all_done, st'). try_inv E P m n_cur (decoder_ok (vocab_of E)) st' \<and>
      (\<not> all_done \<longrightarrow> try_inv E P m n_cur (turn_ok (vocab_of E) True (Suc i)) st'))
    (out_bind (next_logits E P t_cur (int (n_prompt + i)) n_cur st2) (\<lambda>st3. Done (False, st3)))"
    by (rule safe_bind [OF next_logits_ok [OF assms(1) s2(2)]])
      (auto simp: turn_ok_def elim!: try_inv_mono)
  show ?thesis using s1(1) s2(1) weak go_on by (simp add: token_turn_def out_opt_def)
qed

lemma token_loop_ok:
  "env_ok E P \<Longrightarrow> try_inv E P m n_cur (turn_ok (vocab_of E) True i) st \<Longrightarrow>
     safe (try_inv E P m n_cur (decoder_ok (vocab_of E))) (token_loop E P t_cur seek seek_end n_max n_prompt n_cur k i st)"
proof (induction k arbitrary: i st)
  case 0
  have "try_inv E P m n_cur (decoder_ok (vocab_of E)) st"
    by (rule try_inv_mono [OF 0(2)]) (simp add: turn_ok_def)
  then show ?case by simp
next
  case (Suc k)
  show ?case unfolding token_loop.simps
    by (rule safe_bind [OF token_turn_ok [OF Suc.prems]]) (use Suc.IH [OF Suc.prems(1)] in \<open>auto split: prod.splits\<close>)
qed


section \<open>One try\<close>

definition init_ok :: "('f, 'd, 'r, 't) full_env \<Rightarrow> int list \<Rightarrow> bool" where
  "init_ok E init \<longleftrightarrow> init \<noteq> [] \<and> length init \<le> 4 \<and> hd init = v_sot (vocab_of E)"

definition prompt_ok :: "('f, 'd, 'r, 't) full_env \<Rightarrow> int list \<Rightarrow> int list \<Rightarrow> bool" where
  "prompt_ok E init prompt \<longleftrightarrow> (prompt \<noteq> [] \<and> hd prompt = v_prev (vocab_of E) \<longrightarrow> 1 + length init \<le> length prompt)"

text \<open>The prompt fits into half of the context and its fixed part.\<close>

lemma build_prompt_bound:
  assumes "past0_ok E P past0" "fp_carry_initial_prompt P \<longrightarrow> max_prompt_ctx E P \<noteq> 1"
  shows "\<exists>prompt. build_prompt E P t_cur past0 past1 init = Some prompt \<and>
    int (length prompt) \<le> max 0 (max_prompt_ctx E P) + int (length init) \<and>
    (prompt = init \<or> (hd prompt = v_prev (vocab_of E) \<and> 1 + length init \<le> length prompt))"
  using assms by (auto simp: build_prompt_def Let_def past0_ok_def)

lemma mpc_le: "0 \<le> n_text_ctx E \<Longrightarrow> max_prompt_ctx E P \<le> n_text_ctx E div 2"
  by (simp add: max_prompt_ctx_def tdiv_nonneg)

lemma build_prompt_ok:
  assumes "env_ok E P" "past0_ok E P past0" "init_ok E init"
  shows "\<exists>prompt. build_prompt E P t_cur past0 past1 init = Some prompt \<and> prompt \<noteq> [] \<and>
    int (length prompt) \<le> n_text_ctx E \<and> prompt_ok E init prompt"
proof -
  have n: "8 \<le> n_text_ctx E" "v_sot (vocab_of E) \<noteq> v_prev (vocab_of E)" "fp_carry_initial_prompt P \<longrightarrow> max_prompt_ctx E P \<noteq> 1"
    using assms(1) by (simp_all add: env_ok_def)
  have "max_prompt_ctx E P \<le> n_text_ctx E div 2" using mpc_le n(1) by (metis order_trans zero_le_numeral)
  then have "max 0 (max_prompt_ctx E P) + 4 \<le> n_text_ctx E" using n(1) by linarith
  then show ?thesis using build_prompt_bound [OF assms(2) n(3), of t_cur past1 init] assms(3) n(2)
    by (fastforce simp: init_ok_def prompt_ok_def)
qed

lemma init_decoders_ok:
  assumes "env_ok E P" "window_inv E P m st" "n_cur \<le> 8"
  shows "\<exists>ds. init_decoders (fe_model E) (fp_dec P) n_cur (ws_decoders st) = Some ds \<and>
    try_inv E P (max m n_cur) n_cur (\<lambda>d. turn_ok (vocab_of E) False 0 d \<and> \<not> finished d) (st\<lparr>ws_decoders := ds\<rparr>)"
proof -
  have g: "dp_grammar_rules (fp_dec P) = None" using assms(1) by (simp add: env_ok_def model_ok_def Let_def)
  have len: "length (ws_decoders st) = 8" using assms(2) by (simp add: window_inv_def)
  have "\<exists>ds'. those (map (decoder_init (fe_model E) (fp_dec P)) (take n_cur (ws_decoders st))) = Some ds' \<and>
      list_all2 (\<lambda>d d'. turn_ok (vocab_of E) False 0 d' \<and> \<not> finished d') (take n_cur (ws_decoders st)) ds'"
    by (rule those_map_ok)
      (simp add: decoder_init_def decoder_grammar_def g turn_ok_def decoder_ok_def chunk_frames_def finished_def)
  then obtain ds' where ds': "those (map (decoder_init (fe_model E) (fp_dec P)) (take n_cur (ws_decoders st))) = Some ds'"
    "list_all2 (\<lambda>d d'. turn_ok (vocab_of E) False 0 d' \<and> \<not> finished d') (take n_cur (ws_decoders st)) ds'" by blast
  then have l: "length ds' = n_cur" "list_all (\<lambda>d'. turn_ok (vocab_of E) False 0 d' \<and> \<not> finished d') ds'"
    using len assms(3) by (auto simp: list_all2_conv_all_nth list_all_length)
  have "decoder_ok (vocab_of E) ((ds' @ drop n_cur (ws_decoders st)) ! j)" if "j < max m n_cur" for j
    using that l len assms(2,3) nth_replaced [of ds' n_cur "ws_decoders st" j]
    by (auto simp: window_inv_def list_all_length turn_ok_def)
  then show ?thesis using ds'(1) l len assms(2,3)
    by (simp add: init_decoders_def try_inv_def window_inv_def)
qed

lemma batch_prep_ok:
  assumes "toks \<noteq> []" "int (length toks) \<le> n_text_ctx E"
  shows "\<exists>batch. batch_prep_legacy (batch_alloc E) (Some toks) (length toks) n_past 0 = Some batch \<and> length batch = length toks"
proof -
  have "length toks \<le> length (batch_alloc E)" using assms(2) by (simp add: batch_alloc_def)
  then show ?thesis using assms(1) by (simp add: batch_prep_legacy_def)
qed

lemma recreate_kv_ok:
  "try_inv E P m n_cur Q st \<Longrightarrow> safe (try_inv E P m n_cur Q) (recreate_kv E k st)"
  by (auto simp: recreate_kv_def Let_def elim: try_inv_same)

lemma no_speech_prob_ok:
  assumes "vocab_ok v" "nat (v_n_vocab v) \<le> length logits"
  shows "\<exists>p. no_speech_prob F v logits = Some p"
proof -
  have n: "0 \<le> v_nosp v" "v_nosp v < v_n_vocab v" using assms(1) by (auto simp: vocab_ok_def)
  then have "logits \<noteq> []" using assms(2) by auto
  then obtain m where "max_element F logits = Some m" by (cases logits) (auto simp: max_element_def)
  then show ?thesis using n assms(2) by (simp add: no_speech_prob_def Let_def)
qed

lemma turn_ok_probs:
  "turn_ok v False i d \<Longrightarrow> length (pr_probs p) = nat (v_n_vocab v) \<Longrightarrow> turn_ok v True i (d\<lparr>d_probs := p\<rparr>)"
  by (simp add: turn_ok_def decoder_ok_def)

lemma first_logits_ok:
  assumes "env_ok E P" "try_inv E P m n_cur (\<lambda>d. turn_ok (vocab_of E) False 0 d \<and> \<not> finished d) st" "1 \<le> n_cur"
    and "0 < n" "n * nat (v_n_vocab (vocab_of E)) \<le> length (ws_logits st)"
  shows "\<exists>st'. first_logits E P t_cur n st = Some st' \<and> try_inv E P m n_cur (turn_ok (vocab_of E) True 0) (share_first n_cur st')"
proof -
  have mo: "model_ok (fe_model E) (fp_dec P)" using assms(1) by (simp add: env_ok_def)
  obtain d ds where ds: "ws_decoders st = d # ds" "length ds = 7"
    using assms(2) by (cases "ws_decoders st") (auto simp: try_inv_def window_inv_def)
  obtain k where k: "n_cur = Suc k" using assms(3) by (cases n_cur) auto
  have d: "turn_ok (vocab_of E) False 0 d" "\<not> finished d" using assms(2) ds k by (simp_all add: try_inv_def)
  have "turn_ok (vocab_of E) False 0 (d\<lparr>d_i_batch := n - 1\<rparr>)" using d by (auto simp: turn_ok_def decoder_ok_def)
  then obtain d' where d': "process_decoder (fe_model E) (fp_dec P) t_cur (ws_logits st) (d\<lparr>d_i_batch := n - 1\<rparr>) = Some d'"
    "turn_ok (vocab_of E) True 0 d'" "finished d' = finished d"
    using process_decoder_ok [OF mo, of 0 "d\<lparr>d_i_batch := n - 1\<rparr>" "ws_logits st" t_cur] assms(4,5) by auto
  define st' where "st' = st\<lparr>ws_decoders := d' # ds\<rparr>"
  have probs: "length (pr_probs (d_probs d')) = nat (v_n_vocab (vocab_of E))" using d' d(2) by (simp add: turn_ok_def)
  have nth: "ws_decoders (share_first n_cur st') ! j =
      (if j = 0 then d' else if j < n_cur then (ws_decoders st ! j)\<lparr>d_probs := d_probs d'\<rparr> else ws_decoders st ! j)"
    if "j < 8" for j
    using that ds by (auto simp: share_first_def st'_def nth_enumerate_eq)
  have len: "length (ws_decoders (share_first n_cur st')) = 8" using ds by (simp add: share_first_def st'_def)
  have old: "turn_ok (vocab_of E) False 0 (ws_decoders st ! j) \<and> \<not> finished (ws_decoders st ! j)" if "j < n_cur" for j
  proof -
    have "j < length (take n_cur (ws_decoders st))" using assms(2) that by (simp add: try_inv_def window_inv_def)
    then show ?thesis using assms(2) that unfolding try_inv_def list_all_length by fastforce
  qed
  have n8: "n_cur \<le> m" "m \<le> 8" "\<forall>j < m. decoder_ok (vocab_of E) (ws_decoders st ! j)"
    using assms(2) by (simp_all add: try_inv_def window_inv_def)
  have new: "turn_ok (vocab_of E) True 0 (ws_decoders (share_first n_cur st') ! j)" if "j < n_cur" for j
    using that nth [of j] n8 d'(2) turn_ok_probs [OF _ probs] old [of j] by (cases "j = 0") auto
  have "decoder_ok (vocab_of E) (ws_decoders (share_first n_cur st') ! j)" if "j < m" for j
    using that nth [of j] n8 new [of j] d'(2) by (cases "j < n_cur") (auto simp: turn_ok_def)
  then have "try_inv E P m n_cur (turn_ok (vocab_of E) True 0) (share_first n_cur st')"
    using new len n8 assms(2) by (auto simp: try_inv_def window_inv_def list_all_length share_first_def st'_def)
  then show ?thesis using d'(1) ds(1) by (auto simp: first_logits_def st'_def)
qed

lemma start_try_ok:
  assumes "env_ok E P" "window_inv E P m st" "1 \<le> n_cur" "n_cur \<le> 8" "init_ok E init"
  shows "safe (\<lambda>(prompt, st'). prompt_ok E init prompt \<and> try_inv E P (max m n_cur) n_cur (turn_ok (vocab_of E) True 0) st')
    (start_try E P init t_cur n_cur st)"
proof -
  define I where "I = try_inv E P (max m n_cur) n_cur (\<lambda>d. turn_ok (vocab_of E) False 0 d \<and> \<not> finished d)"
  have vo: "vocab_ok (vocab_of E)" using assms(1) by (simp add: env_ok_def model_ok_def Let_def)
  obtain ds where ds: "init_decoders (fe_model E) (fp_dec P) n_cur (ws_decoders st) = Some ds" "I (st\<lparr>ws_decoders := ds\<rparr>)"
    using init_decoders_ok [OF assms(1,2,4)] by (auto simp: I_def)
  obtain prompt where p: "build_prompt E P t_cur (ws_past0 st) (ws_past1 st) init = Some prompt" "prompt \<noteq> []"
    "int (length prompt) \<le> n_text_ctx E" "prompt_ok E init prompt"
    using build_prompt_ok [OF assms(1) _ assms(5)] assms(2) by (metis window_inv_def)
  obtain batch where b: "batch_prep_legacy (batch_alloc E) (Some prompt) (length prompt) 0 0 = Some batch" "length batch = length prompt"
    using batch_prep_ok [OF p(2,3)] by blast
  have rest: "safe (\<lambda>(prompt, st'). prompt_ok E init prompt \<and> try_inv E P (max m n_cur) n_cur (turn_ok (vocab_of E) True 0) st')
    (let (ok, st2) = decode_internal E False True batch (st1\<lparr>ws_kv := kv_cache_clear (ws_kv st1)\<rparr>)
      in if \<not> ok then Fail (-8) st2
         else out_bind (out_opt (no_speech_prob (flt_of E) (vocab_of E) (ws_logits st2))) (\<lambda>ns.
              out_bind (out_opt (first_logits E P t_cur (length prompt) (st2\<lparr>ws_no_speech := ns\<rparr>))) (\<lambda>st3.
              Done (prompt, share_first n_cur st3))))" if "I st1" for st1
  proof -
    obtain ok st2 where d: "decode_internal E False True batch (st1\<lparr>ws_kv := kv_cache_clear (ws_kv st1)\<rparr>) = (ok, st2)" by force
    have I2: "I (st2\<lparr>ws_no_speech := ns\<rparr>)" for ns
      using decode_internal_keeps [OF d] try_inv_same [OF that [unfolded I_def]] by (simp add: I_def)
    show ?thesis
    proof (cases ok)
      case True
      then have t: "ok = True" by simp
      have len: "length (ws_logits st2) = length prompt * nat (v_n_vocab (vocab_of E))"
        using decode_internal_logits [OF assms(1) d [unfolded t]] unfolding b(2) .
      have pos: "0 < length prompt" using p(2) by simp
      then have "nat (v_n_vocab (vocab_of E)) \<le> length (ws_logits st2)" unfolding len by (cases "length prompt") auto
      then obtain ns where ns: "no_speech_prob (flt_of E) (vocab_of E) (ws_logits st2) = Some ns"
        using no_speech_prob_ok [OF vo] by blast
      obtain st3 where "first_logits E P t_cur (length prompt) (st2\<lparr>ws_no_speech := ns\<rparr>) = Some st3"
        "try_inv E P (max m n_cur) n_cur (turn_ok (vocab_of E) True 0) (share_first n_cur st3)"
        using first_logits_ok [OF assms(1) I2 [of ns, unfolded I_def] assms(3) pos, of t_cur] len by auto
      then show ?thesis using d True ns p(4) by (simp add: out_opt_def)
    qed (simp add: d)
  qed
  have kv: "safe I (recreate_kv E n_cur (st\<lparr>ws_decoders := ds\<rparr>))"
    using recreate_kv_ok ds(2) unfolding I_def by blast
  show ?thesis unfolding start_try_def ds(1) p(1) out_opt_def option.case out_bind.simps b(1)
    by (rule safe_bind [OF kv]) (rule rest [unfolded out_opt_def])
qed

lemma decoders_at_bounds:
  "decoders_wanted P \<le> 8 \<Longrightarrow> 1 \<le> decoders_at F P t_cur \<and> decoders_at F P t_cur \<le> 8"
  by (auto simp: decoders_wanted_def decoders_at_def split: if_splits)

lemma rank_all_ok:
  assumes "try_inv E P m n_cur (decoder_ok (vocab_of E)) st"
  shows "\<exists>best' st'. rank_all E P n_cur best st = Some (best', st') \<and> window_inv E P m st' \<and> (best' = best \<or> best' < n_cur)"
proof -
  have "list_all (decoder_ok (vocab_of E)) (take n_cur (ws_decoders st))" using assms by (simp add: try_inv_def)
  then obtain ds best' n where r: "rank_decoders (fe_model E) (fp_dec P) best (take n_cur (ws_decoders st)) = Some (ds, best', n)"
    "list_all (decoder_ok (vocab_of E)) ds" "length ds = n_cur" "best' = best \<or> best' < n_cur"
    using rank_decoders_ok [of "vocab_of E" "take n_cur (ws_decoders st)" "fe_model E" "fp_dec P" best] try_inv_len [OF assms] by auto
  define st' where "st' = st\<lparr>ws_decoders := ds @ drop n_cur (ws_decoders st), ws_n_fail_h := ws_n_fail_h st + n\<rparr>"
  have "try_inv E P m n_cur (decoder_ok (vocab_of E)) st'"
    by (rule try_inv_replace [OF assms r(3,2)]) (simp_all add: st'_def)
  then have "window_inv E P m st'" by (simp add: try_inv_def)
  then show ?thesis using r(1,4) by (auto simp: rank_all_def st'_def)
qed

lemma one_try_ok:
  assumes "env_ok E P" "window_inv E P m st" "decoders_wanted (fp_dec P) \<le> 8" "init_ok E init"
  shows "safe (\<lambda>(prompt, best', st'). prompt_ok E init prompt \<and>
      (\<exists>m' > 0. m \<le> m' \<and> window_inv E P m' st' \<and> (best' = best \<or> best' < m')))
    (one_try E P init seek seek_end t_cur best st)"
proof -
  define n_cur where "n_cur = decoders_at (flt_of E) (fp_dec P) t_cur"
  have n: "1 \<le> n_cur" "n_cur \<le> 8" using decoders_at_bounds [OF assms(3)] by (simp_all add: n_cur_def)
  have rest: "safe (\<lambda>(prompt, best', st'). prompt_ok E init prompt \<and>
      (\<exists>m' > 0. m \<le> m' \<and> window_inv E P m' st' \<and> (best' = best \<or> best' < m')))
    (out_bind (token_loop E P t_cur seek seek_end (max_new_tokens E) (length prompt) n_cur (nat (max_new_tokens E)) 0 st1) (\<lambda>st2.
      out_bind (out_opt (rank_all E P n_cur best st2)) (\<lambda>(best', st3). Done (prompt, best', st3))))"
    if "prompt_ok E init prompt" "try_inv E P (max m n_cur) n_cur (turn_ok (vocab_of E) True 0) st1" for prompt st1
  proof (rule safe_bind [OF token_loop_ok [OF assms(1) that(2)]])
    fix st2 assume "try_inv E P (max m n_cur) n_cur (decoder_ok (vocab_of E)) st2"
    then obtain best' st3 where "rank_all E P n_cur best st2 = Some (best', st3)" "window_inv E P (max m n_cur) st3"
      "best' = best \<or> best' < n_cur"
      using rank_all_ok by blast
    then show "safe (\<lambda>(prompt, best', st'). prompt_ok E init prompt \<and>
        (\<exists>m' > 0. m \<le> m' \<and> window_inv E P m' st' \<and> (best' = best \<or> best' < m')))
      (out_bind (out_opt (rank_all E P n_cur best st2)) (\<lambda>(best', st3). Done (prompt, best', st3)))"
      using that(1) n(1) by (auto simp: out_opt_def intro!: exI [of _ "max m n_cur"])
  qed
  show ?thesis unfolding one_try_def Let_def n_cur_def [symmetric]
    by (rule safe_bind [OF start_try_ok [OF assms(1,2) n assms(4)]]) (use rest in auto)
qed

lemma window_inv_same: "window_inv E P m st \<Longrightarrow> ws_decoders st' = ws_decoders st \<Longrightarrow> ws_past0 st' = ws_past0 st \<Longrightarrow>
    ws_mel st' = ws_mel st \<Longrightarrow> window_inv E P m st'"
  by (simp add: window_inv_def)

lemma tries_ok:
  assumes "env_ok E P" "decoders_wanted (fp_dec P) \<le> 8" "init_ok E init"
  shows "window_inv E P m st \<Longrightarrow> best < m \<or> best = 0 \<Longrightarrow> temps \<noteq> [] \<Longrightarrow>
    safe (\<lambda>(prompt', best', st'). prompt_ok E init prompt' \<and> (\<exists>m'. window_inv E P m' st' \<and> best' < m'))
      (tries E P init seek seek_end temps prompt best st)"
proof (induction temps arbitrary: prompt best st m)
  case (Cons t_cur rest)
  have go_on: "safe (\<lambda>(prompt', best', st'). prompt_ok E init prompt' \<and> (\<exists>m'. window_inv E P m' st' \<and> best' < m'))
    (if rest \<noteq> [] \<and> try_failed E P (ws_decoders st1 ! best1) (ws_no_speech st1)
       then tries E P init seek seek_end rest prompt1 best1 (st1\<lparr>ws_n_fail_p := ws_n_fail_p st1 + 1\<rparr>)
       else Done (prompt1, best1, st1))"
    if "prompt_ok E init prompt1" "0 < m'" "m \<le> m'" "window_inv E P m' st1" "best1 = best \<or> best1 < m'" for prompt1 best1 st1 m'
  proof -
    have b: "best1 < m'" using that(2,3,5) Cons.prems(2) by auto
    have "window_inv E P m' (st1\<lparr>ws_n_fail_p := ws_n_fail_p st1 + 1\<rparr>)" by (rule window_inv_same [OF that(4)]) simp_all
    then show ?thesis using that(1,4) b Cons.IH by auto
  qed
  show ?case unfolding tries.simps
    by (rule safe_bind [OF one_try_ok [OF assms(1) Cons.prems(1) assms(2,3)]]) (use go_on in auto)
qed simp


section \<open>The result of a window\<close>

lemma finish_window_ok:
  assumes "env_ok E P" "window_inv E P m st" "best < m" "prompt_ok E init prompt"
    and "seek + delta_min < seek_end"
  shows "\<exists>seek1 st'. finish_window E P language init seek seek_end prompt best st = Some (seek1, st') \<and>
    seek + 2 \<le> seek1 \<and> window_inv E P 0 st'"
proof -
  define d where "d = ws_decoders st ! best"
  define quiet where "quiet = is_no_speech E P d (ws_no_speech st)"
  have d: "decoder_ok (vocab_of E) d" "best < length (ws_decoders st)" "m \<le> 8"
    using assms(2,3) by (auto simp: window_inv_def d_def)
  have known: "all_known (vocab_of E) (d_tokens d)"
    using d(1) assms(1) by (auto simp: all_known_def decoder_ok_def tok_ok_def env_ok_def model_ok_def Let_def token_to_str_def)
  have "\<exists>past. rolling_context E P init prompt = Some past"
    using assms(4) unfolding rolling_context_def prompt_ok_def by auto
  then obtain past where past: "rolling_context E P init prompt = Some past" ..
  define st1 where "st1 = st\<lparr>ws_past1 := past @ (if quiet then [] else map td_id (take (d_result_len d) (d_tokens d)))\<rparr>"
  define energy where "energy = ws_energy st1"
  obtain segs calls ck where segs: "(if d_tokens d \<noteq> [] \<and> dm_n_loaded (fe_model E) > 0 \<and> \<not> quiet
      then cut_segments (vocab_of E) (seg_params_of E P energy) (ws_no_speech st1) seek (d_seek_delta d) (d_tokens d)
        (ws_result st1) (ws_clock st1)
      else Some (ws_result st1, [], ws_clock st1)) = Some (segs, calls, ck)"
  proof (cases "d_tokens d \<noteq> [] \<and> dm_n_loaded (fe_model E) > 0 \<and> \<not> quiet")
    case True
    have "sp_stamp (seg_params_of E P energy) = compute_token_times (dm_arith (fe_model E)) (vocab_of E) (fp_time P) energy"
      by (simp add: seg_params_of_def)
    then obtain new calls ck where "cut_segments (vocab_of E) (seg_params_of E P energy) (ws_no_speech st1) seek (d_seek_delta d)
        (d_tokens d) (ws_result st1) (ws_clock st1) = Some (ws_result st1 @ new, calls, ck)"
      using times.cut_segments_ok [OF _ known] True by blast
    then show ?thesis using that True by simp
  next
    case False
    show ?thesis by (rule that [OF if_not_P [OF False]])
  qed
  define delta where "delta = (if single_timestamp_ending (vocab_of E) (map td_id (d_tokens d))
      then min (seek_end - seek) chunk_frames else d_seek_delta d)"
  define st2 where "st2 = st1\<lparr>ws_result := segs, ws_calls := ws_calls st1 @ calls, ws_clock := ck\<rparr>"
  have guard: "\<not> (best \<ge> length (ws_decoders st) \<or> (\<not> quiet \<and> length (d_tokens d) < d_result_len d))"
    using d by (auto simp: decoder_ok_def)
  have align: "align_window E language k seek f s = Some s" for k f s
    using assms(1) by (simp add: align_window_def env_ok_def)
  have "finish_window E P language init seek seek_end prompt best st = Some (seek + delta, st2)"
    unfolding finish_window_def Let_def d_def [symmetric] quiet_def [symmetric] if_not_P [OF guard] past option.case
      st1_def [symmetric] energy_def [symmetric] segs prod.case align delta_def [symmetric] st2_def [symmetric]
    by simp
  moreover have "2 \<le> delta" using d(1) assms(5) by (simp add: delta_def decoder_ok_def chunk_frames_def delta_min_def)
  moreover have "window_inv E P 0 st2" using assms(2) by (simp add: st2_def st1_def window_inv_def)
  ultimately show ?thesis by auto
qed

section \<open>The main loop\<close>

lemma encode_internal_ok:
  assumes "mel_ok (fe_n_mels E) (ws_mel st)" "0 \<le> seek"
  shows "\<exists>ok st'. encode_internal E a seek st = Some (ok, st') \<and> ws_decoders st' = ws_decoders st \<and>
    ws_past0 st' = ws_past0 st \<and> ws_mel st' = ws_mel st"
proof -
  obtain inp where "encode_input (fl_zero (flt_of E)) (audio_ctx E st) (fe_n_mels E) seek (ws_mel st) = Some inp"
    using encode_input_window [OF assms] by blast
  then show ?thesis by (auto simp: encode_internal_def split: option.splits)
qed

lemma window_turn_ok:
  assumes "env_ok E P" "decoders_wanted (fp_dec P) \<le> 8" "init_ok E init" "temps \<noteq> []" "window_inv E P 0 st" "0 \<le> seek"
  shows "safe (\<lambda>(over, seek1, prompt1, st1). window_inv E P 0 st1 \<and>
      (\<not> over \<longrightarrow> seek + delta_min < seek_end \<and> seek + 2 \<le> seek1))
    (window_turn E P language init temps seek_start seek_end (seek, prompt, st))"
proof -
  define st1 where "st1 = st\<lparr>ws_progress := ws_progress st @ [tdiv (100 * (seek - seek_start)) (seek_end - seek_start)]\<rparr>"
  obtain go w where go: "fe_begin E (ws_world st1) = (go, w)" by force
  define st2 where "st2 = st1\<lparr>ws_world := w\<rparr>"
  have inv: "window_inv E P 0 st1" "window_inv E P 0 st2" using assms(5) by (simp_all add: st1_def st2_def window_inv_def)
  obtain ok st3 where enc: "encode_internal E True seek st2 = Some (ok, st3)"
    "ws_decoders st3 = ws_decoders st2" "ws_past0 st3 = ws_past0 st2" "ws_mel st3 = ws_mel st2"
    using encode_internal_ok [of E st2 seek True] inv(2) assms(6) by (auto simp: window_inv_def)
  have inv4: "window_inv E P 0 (forget_context seek seek_start seek_end st3)"
    using inv(2) enc by (simp add: forget_context_def window_inv_def past0_ok_def)
  note turn = window_turn_def [of E P language init temps seek_start seek_end "(seek, prompt, st)",
      unfolded Let_def prod.case st1_def [symmetric] go, unfolded prod.case st2_def [symmetric] enc(1) out_opt_def option.case out_bind.simps prod.case]
  show ?thesis
  proof (cases "seek + delta_min \<ge> seek_end \<or> \<not> go \<or> \<not> ok")
    case True
    then show ?thesis unfolding turn using inv by auto
  next
    case False
    have eq: "window_turn E P language init temps seek_start seek_end (seek, prompt, st) =
      out_bind (tries E P init seek seek_end temps prompt 0 (forget_context seek seek_start seek_end st3))
        (\<lambda>(prompt1, best, st4). out_bind (out_opt (finish_window E P language init seek seek_end prompt1 best st4))
          (\<lambda>(seek1, st5). Done (False, seek1, prompt1, st5)))"
      unfolding turn using False by (simp add: out_opt_def)
    have fin: "safe (\<lambda>(over, seek1, prompt1, st1). window_inv E P 0 st1 \<and>
        (\<not> over \<longrightarrow> seek + delta_min < seek_end \<and> seek + 2 \<le> seek1))
      (out_bind (out_opt (finish_window E P language init seek seek_end prompt1 best st4))
          (\<lambda>(seek1, st5). Done (False, seek1, prompt1, st5)))"
      if p: "prompt_ok E init prompt1" and m: "window_inv E P m' st4" "best < m'" for prompt1 best st4 m'
      using finish_window_ok [OF assms(1) m p, of seek seek_end language] False by (auto simp: out_opt_def)
    show ?thesis unfolding eq
      by (rule safe_bind [OF tries_ok [OF assms(1-3) inv4 _ assms(4)]]) (use fin in auto)
  qed
qed

lemma main_windows_ok:
  assumes "env_ok E P" "decoders_wanted (fp_dec P) \<le> 8" "init_ok E init" "temps \<noteq> []"
  shows "window_inv E P 0 st \<Longrightarrow> 0 \<le> seek \<Longrightarrow> nat (seek_end - seek) < fuel \<Longrightarrow>
    \<exists>r. main_windows E P language init temps seek_start seek_end fuel (seek, prompt, st) = Some r \<and> r \<noteq> Bad"
proof (induction fuel arbitrary: seek prompt st)
  case (Suc fuel)
  note s = window_turn_ok [OF assms Suc.prems(1,2), of seek_end language seek_start prompt]
  show ?case
  proof (cases "window_turn E P language init temps seek_start seek_end (seek, prompt, st)")
    case (Done x)
    obtain over seek1 prompt1 st1 where x: "x = (over, seek1, prompt1, st1)" by (cases x)
    show ?thesis
    proof (cases over)
      case True
      then show ?thesis using Done x by simp
    next
      case False
      then have "window_inv E P 0 st1" "seek + delta_min < seek_end" "seek + 2 \<le> seek1" using s Done x by simp_all
      then show ?thesis using Suc.IH [of st1 seek1 prompt1] Suc.prems(2,3) Done x False by (simp add: delta_min_def)
    qed
  qed (use s in simp_all)
qed simp


section \<open>The whole call\<close>

lemma env_ok_force: "env_ok E P \<Longrightarrow> env_ok E (force_no_timestamps E P)"
  by (auto simp: env_ok_def force_no_timestamps_def model_ok_def Let_def max_prompt_ctx_def)

lemma force_keeps: "fp_dec (force_no_timestamps E P) = (fp_dec P)\<lparr>dp_logit := dp_logit (fp_dec (force_no_timestamps E P))\<rparr>"
  "past0_ok E (force_no_timestamps E P) = past0_ok E P"
  by (auto simp: force_no_timestamps_def past0_ok_def max_prompt_ctx_def)

lemma decoders_wanted_force: "decoders_wanted (fp_dec (force_no_timestamps E P)) = decoders_wanted (fp_dec P)"
  by (simp add: decoders_wanted_def force_no_timestamps_def)

lemma prompt_init_ok: "init_ok E (prompt_init (vocab_of E) P language)"
  by (simp add: init_ok_def prompt_init_def)

lemma store_prompt_ok:
  assumes "past0_ok E P (ws_past0 st)" "fp_carry_initial_prompt P \<longrightarrow> max_prompt_ctx E P \<noteq> 1"
  shows "past0_ok E P (ws_past0 (store_prompt E P st)) \<and> ws_mel (store_prompt E P st) = ws_mel st \<and> ws_decoders (store_prompt E P st) = ws_decoders st"
  using assms by (auto simp: store_prompt_def past0_ok_def Let_def)

lemma lang_logits_ok:
  assumes "vocab_ok v" "length logits = nat (v_n_vocab v)"
  shows "\<exists>ls. lang_logits v logits = Some ls \<and> length ls = length g_lang \<and> (\<forall>p \<in> set ls. snd p \<in> (\<lambda>e. fst (snd e)) ` set g_lang)"
proof -
  define f where "f = (\<lambda>e :: string \<times> int \<times> string. let i = whisper_token_lang v (fst (snd e))
        in if 0 \<le> i \<and> i < int (length logits) then Some (logits ! nat i, fst (snd e)) else None)"
  have ids: "0 \<le> fst (snd e) \<and> fst (snd e) \<le> 99" if "e \<in> set g_lang" for e
    using lang_ids that by (metis atLeastAtMost_iff imageI set_map set_upto)
  have "\<exists>y. f e = Some y \<and> snd y = fst (snd e)" if "e \<in> set g_lang" for e
  proof -
    have "0 \<le> v_sot v" "v_sot v + 100 < v_n_vocab v" using assms(1) by (auto simp: vocab_ok_def)
    then show ?thesis using ids [OF that] assms(2) by (simp add: f_def Let_def whisper_token_lang_def)
  qed
  then obtain ls where ls: "those (map f g_lang) = Some ls" "list_all2 (\<lambda>e y. snd y = fst (snd e)) g_lang ls"
    using those_map_ok [of g_lang f "\<lambda>e y. snd y = fst (snd e)"] by blast
  have "snd p \<in> (\<lambda>e. fst (snd e)) ` set g_lang" if "p \<in> set ls" for p
    using ls(2) that by (auto simp: list_all2_conv_all_nth in_set_conv_nth) (metis imageI nth_mem snd_conv fst_conv)
  then show ?thesis using ls list_all2_lengthD [OF ls(2)] by (auto simp: lang_logits_def f_def)
qed

lemma lang_str_known:
  assumes "i \<in> (\<lambda>e. fst (snd e)) ` set g_lang"
  shows "\<exists>s. whisper_lang_str i = Some s"
proof -
  have "List.find (\<lambda>e. fst (snd e) = i) g_lang \<noteq> None" unfolding find_None_iff using assms by blast
  then show ?thesis by (auto simp: whisper_lang_str_def)
qed

lemma lang_auto_detect_ok:
  assumes "env_ok E P" "mel_ok (fe_n_mels E) (ws_mel st)"
  shows "\<exists>lang_id probs st'. lang_auto_detect E offset_ms st = Some ((lang_id, probs), st') \<and>
    (0 \<le> lang_id \<longrightarrow> (\<exists>s. whisper_lang_str lang_id = Some s)) \<and> ws_decoders st' = ws_decoders st \<and>
    ws_past0 st' = ws_past0 st \<and> ws_mel st' = ws_mel st"
proof -
  have vo: "vocab_ok (vocab_of E)" using assms by (simp add: env_ok_def model_ok_def Let_def)
  define seek where "seek = tdiv offset_ms 10"
  show ?thesis
  proof (cases "seek < 0 \<or> seek \<ge> ml_n_len_org (ws_mel st)")
    case True
    then show ?thesis by (auto simp: lang_auto_detect_def seek_def Let_def)
  next
    case pos: False
    then have early: "\<not> seek < 0" "\<not> seek \<ge> ml_n_len_org (ws_mel st)" by simp_all
    obtain ok st1 where enc: "encode_internal E False seek st = Some (ok, st1)"
      and st1: "ws_decoders st1 = ws_decoders st" "ws_past0 st1 = ws_past0 st" "ws_mel st1 = ws_mel st"
      using encode_internal_ok [OF assms(2), of seek False] pos by auto
    obtain batch where b: "batch_prep_legacy (batch_alloc E) (Some [v_sot (vocab_of E)]) (length [v_sot (vocab_of E)]) 0 0 = Some batch"
      "length batch = 1"
      using batch_prep_ok [of "[v_sot (vocab_of E)]" E 0] assms by (auto simp: env_ok_def)
    obtain ok2 st2 where dec: "decode_internal E False False batch (st1\<lparr>ws_kv := kv_cache_seq_rm (ws_kv st1) 0 0 (-1)\<rparr>) = (ok2, st2)" by force
    have st2: "ws_decoders st2 = ws_decoders st" "ws_past0 st2 = ws_past0 st" "ws_mel st2 = ws_mel st"
      using decode_internal_keeps [OF dec] st1 by simp_all
    have dws: "decode_with_state E [v_sot (vocab_of E)] 0 st1 = Some (if ok2 then 0 else 1, st2)"
      using b(1) dec by (simp add: decode_with_state_def)
    note detect = lang_auto_detect_def [of E offset_ms st, unfolded Let_def seek_def [symmetric] if_not_P [OF early(1)]
        if_not_P [OF early(2)] enc option.case prod.case dws]
    show ?thesis
    proof (cases "\<not> ok \<or> \<not> ok2")
      case True
      then show ?thesis unfolding detect using st1 st2 by auto
    next
      case False
      then have t: "ok2 = True" by simp
      have "length (ws_logits st2) = nat (v_n_vocab (vocab_of E))"
        using decode_internal_logits [OF assms(1) dec [unfolded t]] b(2) by simp
      then obtain ls where ls: "lang_logits (vocab_of E) (ws_logits st2) = Some ls" "length ls = length g_lang"
        "\<forall>p \<in> set ls. snd p \<in> (\<lambda>e. fst (snd e)) ` set g_lang"
        using lang_logits_ok [OF vo] by blast
      have same: "set (fe_sort_langs E ls) = set ls" using assms by (simp add: env_ok_def)
      have "ls \<noteq> []" using ls(2) length_g_lang by auto
      then have "fe_sort_langs E ls \<noteq> []" using same by (metis set_empty)
      then have "snd (hd (fe_sort_langs E ls)) \<in> (\<lambda>e. fst (snd e)) ` set g_lang" using ls(3) same by (metis hd_in_set)
      then show ?thesis unfolding detect using False ls(1) st2 lang_str_known by simp
    qed
  qed
qed

definition call_inv :: "('f, 'd, 'r, 't) full_env \<Rightarrow> 'f full_params \<Rightarrow> int \<Rightarrow> ('f, 'd, 'r, 't) wstate \<Rightarrow> bool" where
  "call_inv E P fuel st \<longleftrightarrow> length (ws_decoders st) = 8 \<and> past0_ok E P (ws_past0 st) \<and>
     mel_ok (fe_n_mels E) (ws_mel st) \<and> ml_n_len_org (ws_mel st) < fuel"

lemma compute_mel_ok:
  assumes "env_ok E P" "length (ws_decoders st) = 8" "past0_ok E P (ws_past0 st)" "audio_ok E P samples (ws_mel st) fuel"
  shows "safe (call_inv E P (int fuel)) (compute_mel E P samples st)"
proof (cases "samples = []")
  case True
  then show ?thesis using assms by (simp add: compute_mel_def call_inv_def audio_ok_def)
next
  case False
  then have a: "200 < length samples" "0 < fp_n_threads P" "int (length samples) div 160 + 1 < int fuel"
    using assms(4) by (simp_all add: audio_ok_def)
  have f: "tables_ok (fe_fourier E)" "length (fe_hann E) = 400" "filters_ok (fe_filters E)" "mf_n_mel (fe_filters E) = fe_n_mels E"
    using assms(1) by (simp_all add: env_ok_def front_ok_def)
  obtain m where m: "pcm_to_mel (dm_arith (fe_model E)) (fe_fourier E) (fe_log10 E) (fe_hann E) (fp_n_threads P) (fe_filters E)
      (ml_data (ws_mel st)) samples = Some m" "mel_ok (mf_n_mel (fe_filters E)) m"
      "ml_n_len_org m = 1 + tdiv (int (length samples) - 200) 160"
    using pcm_to_mel_ok [OF f(1-3) a(2,1), of "dm_arith (fe_model E)" "fe_log10 E" "ml_data (ws_mel st)"] by blast
  have "tdiv (int (length samples) - 200) 160 = (int (length samples) - 200) div 160" using a(1) by (simp add: tdiv_nonneg)
  also have "\<dots> \<le> int (length samples) div 160" by (intro zdiv_mono1) simp_all
  finally have "ml_n_len_org m < int fuel" using m(3) a(3) by linarith
  then show ?thesis using m(1,2) f(4) False assms(2,3) by (simp add: compute_mel_def call_inv_def out_opt_def)
qed

lemma choose_language_ok:
  assumes "env_ok E P" "call_inv E P fuel st"
  shows "safe (\<lambda>r. case r of Inr st1 \<Rightarrow> True | Inl (l, st1) \<Rightarrow> call_inv E P fuel st1) (choose_language E P st)"
proof (cases "language_unknown P")
  case True
  have "mel_ok (fe_n_mels E) (ws_mel st)" using assms(2) by (simp add: call_inv_def)
  then obtain lang_id probs st' where d: "lang_auto_detect E 0 st = Some ((lang_id, probs), st')"
    "0 \<le> lang_id \<longrightarrow> (\<exists>s. whisper_lang_str lang_id = Some s)" "ws_decoders st' = ws_decoders st" "ws_past0 st' = ws_past0 st"
    "ws_mel st' = ws_mel st"
    using lang_auto_detect_ok [OF assms(1)] by blast
  then show ?thesis using True assms(2) by (auto simp: choose_language_def out_opt_def Let_def call_inv_def)
qed (use assms in \<open>simp add: choose_language_def\<close>)

lemma start_clock_keeps [simp]: "call_inv E P fuel (start_clock E P samples st) = call_inv E P fuel st"
  by (simp add: start_clock_def call_inv_def)

lemma full_decode_ok:
  assumes "env_ok E P" "call_inv E P fuel st" "0 \<le> seek_start"
    and "temperatures (flt_of E) (fst bounds) (fp_temperature P) (fp_temperature_inc P) = Some temps" "temps \<noteq> []"
    and "nat (seek_end - seek_start) < snd bounds"
  shows "\<exists>r. full_decode E P seed bounds language seek_start seek_end st = Some r \<and> r \<noteq> Bad"
proof (cases "decoders_wanted (fp_dec P) > whisper_max_decoders \<or> fp_audio_ctx P > dm_n_audio_ctx (fe_model E)")
  case True
  then show ?thesis using assms(4) by (auto simp: full_decode_def Let_def)
next
  case False
  define st1 where "st1 = store_prompt E P (clear_context P (seed_decoders seed (decoders_wanted (fp_dec P)) st))"
  define st2 where "st2 = note_language E language (st1\<lparr>ws_exp_audio_ctx := fp_audio_ctx P\<rparr>)"
  define P1 where "P1 = force_no_timestamps E P"
  have "past0_ok E P (ws_past0 (clear_context P (seed_decoders seed (decoders_wanted (fp_dec P)) st)))"
    using assms(2) by (auto simp: clear_context_def seed_decoders_def past0_ok_def call_inv_def)
  then have "past0_ok E P (ws_past0 st1)" "length (ws_decoders st1) = 8" "mel_ok (fe_n_mels E) (ws_mel st1)"
    using store_prompt_ok [of E P] assms(1,2) by (auto simp: st1_def env_ok_def clear_context_def seed_decoders_def call_inv_def)
  then have "window_inv E P1 0 st2"
    by (simp add: st2_def note_language_def window_inv_def P1_def force_keeps)
  moreover have "env_ok E P1" "decoders_wanted (fp_dec P1) \<le> 8"
    using env_ok_force [OF assms(1)] False by (simp_all add: P1_def decoders_wanted_force whisper_max_decoders_def)
  ultimately show ?thesis
    using main_windows_ok [OF _ _ prompt_init_ok assms(5) _ assms(3,6)] assms(4) False
    by (simp add: full_decode_def Let_def st1_def [symmetric] st2_def [symmetric] P1_def [symmetric])
qed

lemma full_with_state_returns:
  assumes "env_ok E P" "length (ws_decoders st) = 8" "past0_ok E P (ws_past0 st)" "audio_ok E P samples (ws_mel st) (snd bounds)"
    and "temperatures (flt_of E) (fst bounds) (fp_temperature P) (fp_temperature_inc P) = Some temps" "temps \<noteq> []"
    and "0 < snd bounds" "0 \<le> fp_offset_ms P" "tdiv (fp_duration_ms P) 10 < int (snd bounds)"
  shows "\<exists>r. full_with_state E P seed bounds samples st = Some r \<and> r \<noteq> Bad"
proof -
  let ?start = "out_bind (compute_mel E P samples (st\<lparr>ws_result := []\<rparr>)) (choose_language E P)"
  have mel: "safe (call_inv E P (int (snd bounds))) (compute_mel E P samples (st\<lparr>ws_result := []\<rparr>))"
    by (rule compute_mel_ok) (use assms in simp_all)
  have lang: "safe (\<lambda>r. case r of Inr st1 \<Rightarrow> True | Inl (l, st1) \<Rightarrow> call_inv E P (int (snd bounds)) st1) ?start"
    by (rule safe_bind [OF mel choose_language_ok [OF assms(1)]])
  have start: "0 \<le> tdiv (fp_offset_ms P) 10" using assms(8) by (simp add: tdiv_nonneg)
  have run: "\<exists>r. full_decode E P seed bounds l (tdiv (fp_offset_ms P) 10) seek_end st1 = Some r \<and> r \<noteq> Bad"
    if "call_inv E P (int (snd bounds)) st1"
      "seek_end = (if fp_duration_ms P = 0 then ml_n_len_org (ws_mel st1) else tdiv (fp_offset_ms P) 10 + tdiv (fp_duration_ms P) 10)"
    for l st1 seek_end
  proof -
    have "ml_n_len_org (ws_mel st1) < int (snd bounds)" using that(1) by (simp add: call_inv_def)
    then have "seek_end - tdiv (fp_offset_ms P) 10 < int (snd bounds)" using that(2) start assms(9) by (auto split: if_splits)
    then have "nat (seek_end - tdiv (fp_offset_ms P) 10) < snd bounds" using assms(7) by linarith
    then show ?thesis using full_decode_ok [OF assms(1) that(1) start assms(5,6)] by blast
  qed
  show ?thesis
  proof (cases ?start)
    case (Done r)
    show ?thesis
    proof (cases r)
      case (Inl q)
      obtain l st1 where q: "q = (l, st1)" by (cases q)
      have "call_inv E P (int (snd bounds)) (start_clock E P samples st1)" using lang Done Inl q by simp
      then show ?thesis using run Done Inl q by (simp add: full_with_state_def Let_def)
    qed (use Done in \<open>simp add: full_with_state_def\<close>)
  qed (use lang in \<open>simp_all add: full_with_state_def\<close>)
qed


section \<open>A small model\<close>

text \<open>The English vocabulary with words made up, and a network that gives every token the same logit.\<close>

definition demo_words :: vocab where
  "demo_words = (place_special vocab_default 51864)\<lparr>v_token_to_id := ['' '' \<mapsto> 220],
     v_id_to_token := (\<lambda>i. if 0 \<le> i \<and> i < 51864 then Some (if i = 220 then '' '' else ''word'') else None)\<rparr>"

definition demo_dec_params :: "rat option dec_params" where
  "demo_dec_params = \<lparr>dp_logit = \<lparr>lp_suppress_blank = True, lp_no_timestamps = False, lp_tdrz_enable = False,
       lp_callback = id, lp_suppress_regex = None, lp_suppress_nst = True, lp_max_initial_ts = Some 1, lp_n_grammar_rules = 0\<rparr>,
     dp_beam_search = True, dp_best_of = 5, dp_beam_size = 5, dp_single_segment = False, dp_max_tokens = 0,
     dp_length_penalty = Some (-1), dp_entropy_thold = Some (12 / 5), dp_logprob_thold = Some (-1),
     dp_no_speech_thold = Some (3 / 5), dp_grammar_rules = None, dp_i_start_rule = 0\<rparr>"

definition demo_env :: "(rat option, rat option, nat, nat) full_env" where
  "demo_env = \<lparr>fe_model = \<lparr>dm_arith = demo_arith, dm_vocab = demo_words, dm_draw = (\<lambda>ps r. (r mod max 1 (length ps), r + 1)),
       dm_sort = id, dm_n_audio_ctx = 1500, dm_n_text_ctx = 448, dm_n_loaded = 1, dm_depth = (0, 0), dm_penalize = id\<rparr>,
     fe_fourier = demo_fourier, fe_hann = replicate 400 (Some 1), fe_log10 = id, fe_fabs = map_option abs,
     fe_filters = demo_filters, fe_n_mels = 2, fe_encode = (\<lambda>inp. Some),
     fe_net = (\<lambda>save batch g w. Some (w + 1, map (\<lambda>b. replicate 51864 (Some 0)) batch)), fe_abort = (\<lambda>w. False),
     fe_begin = (\<lambda>w. (True, w)), fe_alloc = (\<lambda>n. True), fe_sort_langs = id, fe_pad = 1, fe_n_text_layer = 4, fe_dtw = False,
     fe_aheads = \<lparr>da_preset = Aheads_None, da_n_top = -1, da_custom = None\<rparr>, fe_qks = (\<lambda>w. None),
     fe_align = \<lparr>al_infinity = None, al_norm = id, al_mean = hd, al_sort = id\<rparr>\<rparr>"

definition demo_full_params :: "rat option full_params" where
  "demo_full_params = \<lparr>fp_dec = demo_dec_params, fp_n_max_text_ctx = 16384, fp_offset_ms = 0, fp_duration_ms = 0,
     fp_translate = False, fp_no_context = True, fp_print_special = False, fp_token_timestamps = True,
     fp_time = \<lparr>tp_thold_pt = Some (1 / 100), tp_thold_ptsum = Some (1 / 100)\<rparr>, fp_max_len = 60,
     fp_split_on_word = True, fp_audio_ctx = 0, fp_n_threads = 4, fp_initial_prompt = None, fp_carry_initial_prompt = True,
     fp_prompt_tokens = Some [1, 2], fp_language = Some ''en'', fp_detect_language = False,
     fp_temperature = Some 0, fp_temperature_inc = Some (1 / 5)\<rparr>"

definition demo_decoder :: "(rat option, rat option, nat) decoder" where
  "demo_decoder = \<lparr>d_sequence = \<lparr>sq_tokens = [], sq_result_len = 0, sq_sum_logprobs_all = None, sq_sum_logprobs = None,
       sq_avg_logprobs = None, sq_entropy = None, sq_score = None\<rparr>,
     d_grammar = no_grammar, d_i_batch = 0, d_seek_delta = 0, d_failed = False, d_completed = False, d_has_ts = False,
     d_probs = \<lparr>pr_logits = [], pr_logprobs = [], pr_probs = []\<rparr>, d_rng = 0\<rparr>"

definition demo_state :: "(rat option, rat option, nat, nat) wstate" where
  "demo_state = \<lparr>ws_decoders = replicate 8 demo_decoder, ws_kv = kv_cache_init 512, ws_kv_n_dec = 1, ws_logits = [],
     ws_no_speech = None, ws_past0 = [], ws_past1 = [], ws_result = [], ws_calls = [], ws_progress = [], ws_lang_id = 0,
     ws_exp_audio_ctx = 0, ws_mel = \<lparr>ml_n_len = 0, ml_n_len_org = 0, ml_n_mel = 0, ml_data = []\<rparr>, ws_energy = [],
     ws_clock = \<lparr>tc_beg = 0, tc_last = 0, tc_tid_last = 0\<rparr>, ws_n_decode = 0, ws_n_batchd = 0, ws_n_prompt = 0, ws_n_sample = 0, ws_n_fail_p = 0,
     ws_n_fail_h = 0, ws_world = 0\<rparr>"

lemma demo_words_specials: "v_n_vocab demo_words = 51864" "v_beg demo_words = 50363" "v_sot demo_words = 50257"
  "v_prev demo_words = 50360" "v_eot demo_words = 50256" "vocab_ok demo_words"
proof -
  show s: "v_n_vocab demo_words = 51864" "v_beg demo_words = 50363" "v_sot demo_words = 50257"
    "v_prev demo_words = 50360" "v_eot demo_words = 50256"
    by (simp_all add: demo_words_def place_special_def vocab_default_def is_multilingual_def Let_def)
  show "vocab_ok demo_words"
    by (auto simp: vocab_ok_def demo_words_def place_special_def vocab_default_def is_multilingual_def Let_def)
qed

lemma demo_words_known: "v_id_to_token demo_words i \<noteq> None \<longleftrightarrow> 0 \<le> i \<and> i < 51864"
  "0 \<le> i \<and> i < 51864 \<longrightarrow> (\<exists>w. v_id_to_token demo_words i = Some w)"
  by (simp_all add: demo_words_def)

lemma demo_env_simps [simp]: "dm_vocab (fe_model demo_env) = demo_words" "flt (fe_model demo_env) = rat_ops"
  "dm_n_audio_ctx (fe_model demo_env) = 1500" "n_text_ctx demo_env = 448" "dm_sort (fe_model demo_env) = id"
  "dm_draw (fe_model demo_env) = (\<lambda>ps r. (r mod max 1 (length ps), r + 1))"
  by (simp_all add: demo_env_def demo_arith_def)

lemma demo_env_ok: "env_ok demo_env demo_full_params"
proof -
  have draw: "fst (r mod max 1 (length ps), r + 1) < length ps" if "ps \<noteq> []" for ps :: "rat option list" and r :: nat
    using that by (cases ps) auto
  have "model_ok (fe_model demo_env) (fp_dec demo_full_params)"
    using draw by (simp add: model_ok_def demo_full_params_def demo_dec_params_def demo_words_specials demo_words_known
        rat_ops_def lift2_def)
  then show ?thesis
    by (simp add: env_ok_def front_ok_def demo_words_specials max_prompt_ctx_def tables_ok_def filters_ok_def)
      (simp add: demo_fourier_def demo_filters_def sin_cos_n_count_def demo_full_params_def tdiv_def demo_env_def)
qed

lemma temperature_step: "temperature_loop rat_ops (Suc n) (Some t) (Some d) =
    (if t < 1 + 1 / 10 ^ 6 then map_option ((#) (Some t)) (temperature_loop rat_ops n (Some (t + d)) (Some d)) else Some [])"
  by (simp add: rat_ops_def lift2_def rat_lt_def)

lemma demo_temperatures: "temperatures (flt_of demo_env) 7 (fp_temperature demo_full_params) (fp_temperature_inc demo_full_params) =
    Some [Some 0, Some (1 / 5), Some (2 / 5), Some (3 / 5), Some (4 / 5), Some 1]"
proof -
  have seven: "(7 :: nat) = Suc (Suc (Suc (Suc (Suc (Suc (Suc 0))))))" by simp
  have pos: "fl_lt rat_ops (fl_zero rat_ops) (Some (1 / 5))" by (simp add: rat_ops_def rat_lt_def)
  have "temperature_loop rat_ops 7 (Some 0) (Some (1 / 5)) =
      Some [Some 0, Some (1 / 5), Some (2 / 5), Some (3 / 5), Some (4 / 5), Some 1]"
    unfolding seven by (simp only: temperature_step) simp
  then have "temperatures rat_ops 7 (Some 0) (Some (1 / 5)) =
      Some [Some 0, Some (1 / 5), Some (2 / 5), Some (3 / 5), Some (4 / 5), Some 1]"
    by (simp only: temperatures_def if_P [OF pos])
  then show ?thesis by (simp add: demo_full_params_def)
qed


end
