(* ===== verification/Transcribe_Facts.thy ===== *)
theory Transcribe_Facts
  imports Transcribe_Safe
begin

text \<open>
  What single parts of \<open>whisper_full_with_state\<close> do: the room for the prompt, the best decoder, timestamps that
  never go back, and the places where the code does something else than it is meant to.
\<close>

section \<open>The room for the prompt\<close>

text \<open>
  Every position at which the decoder runs lies inside the text context.  The prompt takes at most half of
  it and four tokens, and the tokens that follow the other half less four.
\<close>

theorem prompt_leaves_room:
  assumes "past0_ok E P past0" "fp_carry_initial_prompt P \<longrightarrow> max_prompt_ctx E P \<noteq> 1" "0 \<le> n_text_ctx E"
    and "i < nat (max_new_tokens E)"
  shows "\<exists>prompt. build_prompt E P t_cur past0 past1 (prompt_init (vocab_of E) P language) = Some prompt \<and>
    int (length prompt + i) < n_text_ctx E"
proof -
  obtain prompt where p: "build_prompt E P t_cur past0 past1 (prompt_init (vocab_of E) P language) = Some prompt"
    "int (length prompt) \<le> max 0 (max_prompt_ctx E P) + int (length (prompt_init (vocab_of E) P language))"
    using build_prompt_bound [OF assms(1,2)] by blast
  have "length (prompt_init (vocab_of E) P language) \<le> 4" by (simp add: prompt_init_def)
  moreover have "max_prompt_ctx E P \<le> n_text_ctx E div 2" by (rule mpc_le [OF assms(3)])
  moreover have "int i < n_text_ctx E div 2 - 4" using assms(3,4) by (simp add: max_new_tokens_def tdiv_nonneg)
  ultimately show ?thesis using p by (intro exI [of _ prompt]) linarith
qed

theorem prompt_leaves_room_witness:
  "\<exists>prompt. build_prompt demo_env demo_full_params (Some 0) [1, 2] [3] (prompt_init demo_words demo_full_params ''en'') = Some prompt \<and>
    int (length prompt + 219) < 448"
  using prompt_leaves_room [of demo_env demo_full_params "[1, 2]" 219 "Some 0" "[3]" "''en''"]
  by (simp add: past0_ok_def max_prompt_ctx_def tdiv_def demo_full_params_def max_new_tokens_def)

text \<open>
  With room for one token of history the prompt that is carried along leaves a negative number of places
  for the rest: the insertion of its range begins one past the end of the vector.
\<close>

theorem carried_prompt_overruns:
  assumes "fp_carry_initial_prompt P" "given_prompt (vocab_of E) P \<noteq> []" "ws_past0 st = []"
    and "fp_n_max_text_ctx P = 1" "2 \<le> n_text_ctx E" "fl_lt (flt_of E) t_cur (history_cutoff (flt_of E))"
  shows "build_prompt E P t_cur (ws_past0 (store_prompt E P st)) past1 init = None"
proof -
  have m: "max_prompt_ctx E P = 1" using assms(4,5) by (simp add: max_prompt_ctx_def tdiv_nonneg)
  have "length (ws_past0 (store_prompt E P st)) = 1"
    using assms(1-3) m by (cases "given_prompt (vocab_of E) P") (auto simp: store_prompt_def Let_def)
  then show ?thesis using assms(1,4,6) m by (auto simp: build_prompt_def Let_def)
qed

theorem carried_prompt_overruns_witness:
  "build_prompt demo_env (demo_full_params\<lparr>fp_n_max_text_ctx := 1\<rparr>) (Some 0)
     (ws_past0 (store_prompt demo_env (demo_full_params\<lparr>fp_n_max_text_ctx := 1\<rparr>) demo_state)) [] [1] = None"
  by (rule carried_prompt_overruns)
    (simp_all add: demo_full_params_def given_prompt_def demo_state_def history_cutoff_def rat_ops_def rat_lt_def)

section \<open>The best decoder\<close>

lemma best_decoder_spec:
  assumes "float_laws D"
  shows "(i, s) = best_decoder D ds k (j, m) \<Longrightarrow>
     (i = j \<and> s = m \<or> k \<le> i \<and> i < k + length ds \<and> \<not> d_failed (ds ! (i - k)) \<and> s = sq_score (d_sequence (ds ! (i - k))) \<and> fl_lt D m s) \<and>
     \<not> fl_lt D s m \<and> (\<forall>d \<in> set ds. \<not> d_failed d \<longrightarrow> \<not> fl_lt D s (sq_score (d_sequence d)))"
proof (induction ds arbitrary: k j m)
  case Nil
  then show ?case by (simp add: float_irrefl [OF assms])
next
  case (Cons d ds)
  define b where "b = (if \<not> d_failed d \<and> fl_lt D m (sq_score (d_sequence d)) then (k, sq_score (d_sequence d)) else (j, m))"
  have "(i, s) = best_decoder D ds (Suc k) (fst b, snd b)" using Cons.prems by (simp add: b_def)
  note IH = Cons.IH [OF this]
  have step: "\<not> fl_lt D (snd b) m" "\<not> d_failed d \<Longrightarrow> \<not> fl_lt D (snd b) (sq_score (d_sequence d))"
    using float_irrefl [OF assms] float_trans [OF assms] by (auto simp: b_def)
  have top: "\<not> fl_lt D s (snd b)" using IH by blast
  have "\<not> fl_lt D s m" using float_not_lt_trans [OF assms step(1) top] .
  moreover have "\<not> d_failed d \<Longrightarrow> \<not> fl_lt D s (sq_score (d_sequence d))" using float_not_lt_trans [OF assms step(2) top] .
  moreover have "i = j \<and> s = m \<or> k \<le> i \<and> i < k + length (d # ds) \<and> \<not> d_failed ((d # ds) ! (i - k)) \<and>
      s = sq_score (d_sequence ((d # ds) ! (i - k))) \<and> fl_lt D m s"
  proof -
    from IH consider "i = fst b" "s = snd b" | "Suc k \<le> i" "i < Suc k + length ds" "\<not> d_failed (ds ! (i - Suc k))"
      "s = sq_score (d_sequence (ds ! (i - Suc k)))" "fl_lt D (snd b) s" by blast
    then show ?thesis
    proof cases
      case 1
      then show ?thesis by (auto simp: b_def)
    next
      case 2
      have "fl_lt D m s" using 2(5) step(1) float_trans [OF assms] float_total [OF assms] by metis
      moreover have "(d # ds) ! (i - k) = ds ! (i - Suc k)" using 2(1) by (simp add: nth_Cons' Suc_diff_le)
      ultimately show ?thesis using 2 by simp
    qed
  qed
  ultimately show ?case using IH by auto
qed

text \<open>
  The decoder chosen by the ranking has not failed and no other one that has not failed has a greater
  score; the choice of the last temperature stays only where every decoder has failed or has no score.
\<close>

theorem ranking_chooses_best:
  assumes "rank_decoders M P best ds = Some (ds', best', n)" "float_laws (dbl M)" "d \<in> set ds'" "\<not> d_failed d"
    and "sq_score (d_sequence d) \<noteq> fl_ninf (dbl M)"
  shows "best' < length ds' \<and> \<not> d_failed (ds' ! best') \<and>
    \<not> fl_lt (dbl M) (sq_score (d_sequence (ds' ! best'))) (sq_score (d_sequence d))"
proof -
  obtain s where b: "(best', s) = best_decoder (dbl M) ds' 0 (best, fl_ninf (dbl M))"
    using assms(1) by (auto simp: rank_decoders_def) (metis surj_pair fst_conv)
  have "fl_lt (dbl M) (fl_ninf (dbl M)) (sq_score (d_sequence d))" using float_above_ninf [OF assms(2)] assms(5) by blast
  then have "s \<noteq> fl_ninf (dbl M)" using best_decoder_spec [OF assms(2) b] assms(3,4) by metis
  then show ?thesis using best_decoder_spec [OF assms(2) b] assms(3,4) by auto
qed

definition demo_scored :: "rat \<Rightarrow> (rat option, rat option, nat) decoder" where
  "demo_scored x = demo_decoder\<lparr>d_sequence := (d_sequence demo_decoder)\<lparr>sq_score := Some x\<rparr>\<rparr>"

lemma demo_rank: "rank_decoders (fe_model demo_env) demo_dec_params 0 [demo_scored (-2), demo_scored (-1)] =
    Some ([demo_scored (-2), demo_scored (-1)], 1, 0)"
proof -
  have "rank_decoder (fe_model demo_env) demo_dec_params (demo_scored x) = Some (demo_scored x, False)" for x
    by (simp add: rank_decoder_def demo_scored_def demo_decoder_def sequence_score_def resize_tokens_def Let_def)
  then show ?thesis
    by (simp add: rank_decoders_def demo_scored_def demo_decoder_def) (simp add: demo_env_def demo_arith_def rat_ops_def rat_lt_def)
qed

theorem ranking_chooses_best_witness:
  "\<not> d_failed ([demo_scored (-2), demo_scored (-1)] ! 1) \<and>
   \<not> fl_lt rat_ops (sq_score (d_sequence ([demo_scored (-2), demo_scored (-1)] ! 1))) (sq_score (d_sequence (demo_scored (-2))))"
proof -
  have d: "dbl (fe_model demo_env) = rat_ops" by (simp add: demo_env_def demo_arith_def)
  show ?thesis
    using ranking_chooses_best [OF demo_rank, of "demo_scored (-2)"] rat_ops_laws unfolding d
    by (simp add: demo_scored_def demo_decoder_def rat_ops_def)
qed

section \<open>Timestamps do not go back\<close>

lemma sample_best_positive:
  assumes "float_laws (a_flt A)" "sample_token A v draw True pr rng = (r, rng')"
  shows "td_id r = 0 \<or> (fl_lt (a_flt A) (fl_zero (a_flt A)) (pr_probs pr ! nat (td_id r)) \<and>
    0 \<le> td_id r \<and> td_id r < int (length (pr_probs pr)))"
proof -
  obtain i p where b: "(i, p) = best_from (a_flt A) (pr_probs pr) 0 (0, fl_zero (a_flt A))"
    by (metis surj_pair)
  have "td_id r = int i"
    using assms(2) unfolding sample_token_def by (auto simp: Let_def simp flip: b split: prod.splits)
  then show ?thesis using best_from_spec [OF assms(1) b] by auto
qed

text \<open>
  Greedy decoding never goes back in time.  When a decoder has sampled timestamps up to the window shift,
  the filters leave no smaller one, so that the check by which such a decoder is failed never fires.
\<close>

theorem greedy_never_goes_back:
  assumes "decoder_logits M P t_cur logits d = Some (d_probs d)" "\<not> finished d"
    and "float_laws (flt M)" "keeps_suppressed (flt M) (lp_callback (dp_logit P))"
    and "keeps_suppressed_opt (flt M) (grammar_suppress M (d_grammar d))" "0 < v_beg (dm_vocab M)"
    and "v_beg (dm_vocab M) \<le> v_n_vocab (dm_vocab M)" "fl_lt (flt M) t_low (fl_lit (flt M) (1 / 10 ^ 6))"
    and "0 \<le> d_seek_delta d" "even (d_seek_delta d)"
  shows "(let tk = td_id (last (d_tokens (greedy_sample M t_low d)))
    in \<not> (tk > v_beg (dm_vocab M) \<and> d_has_ts d \<and> d_seek_delta d > 2 * (tk - v_beg (dm_vocab M))))"
proof -
  define v where "v = dm_vocab M"
  obtain tok rng where s: "sample_token (dm_arith M) v (dm_draw M) True (d_probs d) (d_rng d) = (tok, rng)" by force
  have tok: "last (d_tokens (greedy_sample M t_low d)) = tok"
    using assms(2,8) s by (simp add: greedy_sample_def v_def)
  note sup = process_logits_suppresses [OF assms(1) [unfolded decoder_logits_def] assms(3-5,7), folded v_def]
  have no: False if t: "td_id tok > v_beg v" "d_has_ts d" "d_seek_delta d > 2 * (td_id tok - v_beg v)"
  proof -
    have "tdiv (d_seek_delta d) 2 = d_seek_delta d div 2" using assms(9) by (simp add: tdiv_nonneg)
    moreover have "td_id tok - v_beg v < d_seek_delta d div 2" using t(3) assms(10) by presburger
    ultimately have "td_id tok \<in> set (increasing_ids v (d_has_ts d) (d_seek_delta d))"
      using t(1,2) by (simp add: increasing_ids_def)
    then have "td_id tok \<in> suppressed (flt M) (dp_logit P) v (dm_n_audio_ctx M) (map td_id (d_tokens d)) (d_has_ts d)
        (d_seek_delta d) (v_n_vocab v)"
      by (simp add: suppressed_def late_ids_def)
    then have "pr_probs (d_probs d) ! nat (td_id tok) = fl_zero (flt M)" using sup by blast
    then show False using sample_best_positive [OF assms(3) s] t(1) assms(6) float_irrefl [OF assms(3)] by (auto simp: v_def)
  qed
  show ?thesis unfolding Let_def tok v_def [symmetric] using no by blast
qed

section \<open>Where the code does not do what it means to\<close>

lemma write_rows_take:
  "0 < i \<Longrightarrow> (i + length rows) * nv \<le> length ls \<Longrightarrow> \<forall>p \<in> set rows. length (snd p) = nv \<Longrightarrow>
     take nv (write_rows nv i rows ls) = take nv ls"
proof (induction rows arbitrary: i ls)
  case (Cons p rows)
  obtain b row where p: "p = (b, row)" by force
  define ls1 where "ls1 = (if b_logits b then take (i * nv) ls @ row @ drop (i * nv + nv) ls else ls)"
  have room: "i * nv + nv \<le> length ls" using Cons.prems(2) by (simp add: algebra_simps)
  have "nv \<le> i * nv" using Cons.prems(1) by (cases i) auto
  then have "take nv ls1 = take nv ls" using room by (auto simp: ls1_def)
  moreover have "length ls1 = length ls" using room Cons.prems(3) p by (simp add: ls1_def)
  ultimately show ?case using Cons.IH [of "Suc i" ls1] Cons.prems p by (simp add: ls1_def)
qed simp



lemma window_turn_stuck:
  assumes "ws_decoders st = d # ds" "d_seek_delta d = 0" "d_tokens d = []" "d_result_len d = 0"
    and "\<forall>w. fst (fe_begin E w)" "\<forall>s w. \<exists>w'. fe_encode E s w = Some w' \<and> \<not> fe_abort E w'" "seek + delta_min < seek_end"
    and "mel_ok (fe_n_mels E) (ws_mel st)" "0 \<le> seek"
  shows "\<exists>st'. window_turn E P language init [] seek_start seek_end (seek, [], st) = Done (False, seek, [], st') \<and>
    ws_decoders st' = ws_decoders st \<and> ws_mel st' = ws_mel st"
proof -
  define st1 where "st1 = st\<lparr>ws_progress := ws_progress st @ [tdiv (100 * (seek - seek_start)) (seek_end - seek_start)]\<rparr>"
  obtain w where go: "fe_begin E (ws_world st1) = (True, w)" using assms(5) by (metis prod.collapse)
  define st2 where "st2 = st1\<lparr>ws_world := w\<rparr>"
  have mel: "ws_mel st2 = ws_mel st" by (simp add: st2_def st1_def)
  obtain inp where inp: "encode_input (fl_zero (flt_of E)) (audio_ctx E st2) (fe_n_mels E) seek (ws_mel st2) = Some inp"
    using encode_input_window [OF assms(8,9)] unfolding mel by blast
  obtain w' where "fe_encode E inp (ws_world st2) = Some w'" "\<not> fe_abort E w'" using assms(6) by blast
  then have enc: "encode_internal E True seek st2 = Some (True, st2\<lparr>ws_world := w'\<rparr>)" by (simp add: encode_internal_def inp)
  define st3 where "st3 = forget_context seek seek_start seek_end (st2\<lparr>ws_world := w'\<rparr>)"
  have ds: "ws_decoders st3 = d # ds" "ws_mel st3 = ws_mel st" using assms(1) by (simp_all add: st3_def forget_context_def st2_def st1_def)
  have "\<exists>st'. finish_window E P language init seek seek_end [] 0 st3 = Some (seek, st') \<and>
      ws_decoders st' = d # ds \<and> ws_mel st' = ws_mel st"
    using ds assms(2-4) by (simp add: finish_window_def rolling_context_def Let_def single_timestamp_ending_def align_window_def)
  then obtain st' where fin: "finish_window E P language init seek seek_end [] 0 st3 = Some (seek, st')" "ws_decoders st' = d # ds"
      "ws_mel st' = ws_mel st"
    by blast
  note turn = window_turn_def [of E P language init "[]" seek_start seek_end "(seek, [], st)",
      unfolded Let_def prod.case st1_def [symmetric] go, unfolded prod.case st2_def [symmetric] enc out_opt_def option.case out_bind.simps prod.case]
  show ?thesis unfolding turn using assms(1,7) fin by (simp add: out_opt_def st3_def)
qed

text \<open>
  Without a temperature there is no progress.  A temperature above one with a positive increment gives an
  empty list; no token is decoded, the window shift is what decoder 0 has from before, and if that is zero,
  no number of turns ends the main loop.
\<close>

theorem no_temperature_never_ends:
  assumes "temperatures (flt_of E) (fst bounds) (fp_temperature P) (fp_temperature_inc P) = Some []"
    and "decoders_wanted (fp_dec P) \<le> whisper_max_decoders" "fp_audio_ctx P \<le> dm_n_audio_ctx (fe_model E)"
    and "ws_decoders st = d # ds" "d_seek_delta d = 0" "d_tokens d = []" "d_result_len d = 0"
    and "\<forall>w. fst (fe_begin E w)" "\<forall>s w. \<exists>w'. fe_encode E s w = Some w' \<and> \<not> fe_abort E w'" "seek_start + delta_min < seek_end"
    and "mel_ok (fe_n_mels E) (ws_mel st)" "0 \<le> seek_start"
  shows "full_decode E P seed bounds language seek_start seek_end st = None"
proof -
  have loop: "main_windows E P1 language init [] seek_start seek_end fuel (seek_start, [], s) = None"
    if "ws_decoders s = d # ds'" "ws_mel s = ws_mel st" for fuel P1 init ds' s
    using that
  proof (induction fuel arbitrary: s)
    case (Suc fuel)
    obtain s' where "window_turn E P1 language init [] seek_start seek_end (seek_start, [], s) = Done (False, seek_start, [], s')"
      "ws_decoders s' = d # ds'" "ws_mel s' = ws_mel st"
      using window_turn_stuck [OF Suc.prems(1) assms(5-10) _ assms(12)] Suc.prems assms(11) by metis
    then show ?case using Suc.IH by simp
  qed simp
  define st2 where "st2 = note_language E language (store_prompt E P (clear_context P
      (seed_decoders seed (decoders_wanted (fp_dec P)) st))\<lparr>ws_exp_audio_ctx := fp_audio_ctx P\<rparr>)"
  have "(\<exists>ds'. ws_decoders st2 = d # ds') \<and> ws_mel st2 = ws_mel st"
    using assms(4) by (simp add: st2_def note_language_def store_prompt_def clear_context_def seed_decoders_def Let_def)
  then show ?thesis using assms(1-3) loop by (auto simp: full_decode_def Let_def st2_def)
qed

theorem no_temperature_never_ends_witness:
  "full_decode demo_env (demo_full_params\<lparr>fp_temperature := Some 2\<rparr>) id (1, 100) ''en'' 0 3000
     (demo_state\<lparr>ws_mel := \<lparr>ml_n_len = 0, ml_n_len_org = 3000, ml_n_mel = 2, ml_data = []\<rparr>\<rparr>) = None"
proof (rule no_temperature_never_ends)
  have "temperature_loop rat_ops 1 (Some 2) (Some (1 / 5)) = Some []"
    unfolding One_nat_def temperature_step by simp
  moreover have "fl_lt rat_ops (fl_zero rat_ops) (Some (1 / 5))" by (simp add: rat_ops_def rat_lt_def)
  ultimately have "temperatures rat_ops 1 (Some 2) (Some (1 / 5)) = Some []" by (simp only: temperatures_def if_True)
  then show "temperatures (flt_of demo_env) (fst (1, 100)) (fp_temperature (demo_full_params\<lparr>fp_temperature := Some 2\<rparr>))
      (fp_temperature_inc (demo_full_params\<lparr>fp_temperature := Some 2\<rparr>)) = Some []"
    by (simp add: demo_full_params_def)
  show "ws_decoders (demo_state\<lparr>ws_mel := \<lparr>ml_n_len = 0, ml_n_len_org = 3000, ml_n_mel = 2, ml_data = []\<rparr>\<rparr>) = demo_decoder # replicate 7 demo_decoder" by (simp add: demo_state_def numeral_eq_Suc)
qed (simp_all add: demo_full_params_def demo_dec_params_def decoders_wanted_def whisper_max_decoders_def
      demo_decoder_def demo_env_def delta_min_def mel_ok_def)

lemma cut_loop_plain:
  assumes "\<not> sp_token_timestamps P" "\<not> sp_print_special P"
  shows "\<forall>t \<in> set toks. td_id t \<le> v_beg v \<and> token_to_str v (td_id t) \<noteq> None \<Longrightarrow>
    \<exists>turn'. cut_loop v P ns seek sd pend t0 s turn toks out =
      (if s @ plain_text v toks = [] then Some out
       else emit_segment v P \<lparr>sg_t0 = t0, sg_t1 = seek + sd, sg_text = s @ plain_text v toks, sg_no_speech = ns,
              sg_tokens = pend @ toks, sg_turn = turn'\<rparr> out)"
proof (induction toks arbitrary: pend s turn)
  case Nil
  then show ?case by (auto simp: cut_loop.simps plain_text_def)
next
  case (Cons t toks)
  obtain w where w: "(if sp_print_special P \<or> td_id t < v_eot v then token_to_str v (td_id t) else Some []) = Some w"
    using Cons.prems by (cases "td_id t < v_eot v") (auto simp: assms(2))
  have pt: "s @ plain_text v (t # toks) = (s @ w) @ plain_text v toks"
    using w assms(2) by (auto simp: plain_text_def split: if_splits)
  have "cut_loop v P ns seek sd pend t0 s turn (t # toks) out =
      cut_loop v P ns seek sd (pend @ [t]) t0 (s @ w) (turn \<or> sp_tdrz_enable P \<and> td_id t = v_solm v) toks out"
    unfolding cut_loop.simps(2) w option.case Let_def using Cons.prems by simp
  then show ?case using Cons.IH [of "pend @ [t]" "s @ w" "turn \<or> sp_tdrz_enable P \<and> td_id t = v_solm v"] Cons.prems pt by auto
qed

text \<open>The search for the best timestamp finds none when all have probability zero.\<close>

lemma ts_stats_zero:
  assumes "float_laws (a_dbl A)" "a_widen A (fl_zero (a_flt A)) = fl_zero (a_dbl A)"
    and "\<forall>i \<in> {beg ..< length probs}. probs ! i = fl_zero (a_flt A)"
  shows "snd (snd (ts_stats A probs beg tid0)) = tid0"
proof -
  have "fst (snd (foldl (ts_turn A probs) acc is)) = fl_zero (a_dbl A) \<and> snd (snd (foldl (ts_turn A probs) acc is)) = snd (snd acc)"
    if "fst (snd acc) = fl_zero (a_dbl A)" "set is \<subseteq> {beg ..< length probs}" for acc "is"
    using that
  proof (induction "is" arbitrary: acc)
    case (Cons i "is")
    have i: "probs ! i = fl_zero (a_flt A)" using assms(3) Cons.prems(2) by simp
    obtain x y z where acc: "acc = (x, y, z)" by (cases acc)
    have y: "y = fl_zero (a_dbl A)" using Cons.prems(1) acc by simp
    have "fst (snd (ts_turn A probs acc i)) = fl_zero (a_dbl A) \<and> snd (snd (ts_turn A probs acc i)) = snd (snd acc)"
      using float_irrefl [OF assms(1)] by (simp add: ts_turn_def Let_def acc i assms(2) y)
    then show ?case using Cons.IH [of "ts_turn A probs acc i"] Cons.prems(2) by simp
  qed simp
  then show ?thesis by (simp add: ts_stats_def)
qed


text \<open>
  Without timestamps greedy decoding gives its segment a start before the audio.  All timestamps are
  suppressed, the search for the likeliest leaves its token at 0 instead of the first timestamp, and the
  segment begins at the window less twice the number of the tokens before the timestamps.
\<close>

theorem no_timestamps_start_negative:
  assumes "process_logits (a_flt A) P v n_audio_ctx suppress cur has_ts seek_delta temperature raw = Some pr"
    and "lp_no_timestamps P" "float_laws (a_flt A)" "float_laws (a_dbl A)" "a_widen A (fl_zero (a_flt A)) = fl_zero (a_dbl A)"
    and "keeps_suppressed (a_flt A) (lp_callback P)" "keeps_suppressed_opt (a_flt A) suppress"
    and "0 < v_beg v" "v_beg v \<le> v_n_vocab v" "sample_token A v draw True pr rng = (t, rng')"
    and "\<not> sp_token_timestamps Q" "\<not> sp_print_special Q"
    and "\<forall>x \<in> set (t # rest). td_id x \<le> v_beg v \<and> token_to_str v (td_id x) \<noteq> None" "plain_text v (t # rest) \<noteq> []"
    and "seek < 2 * v_beg v"
  shows "\<exists>segs calls. cut_segments v Q no_speech seek sd (t # rest) [] ck = Some (segs, calls, ck) \<and>
    sg_t0 (hd segs) = seek - 2 * v_beg v \<and> sg_t0 (hd segs) < 0"
proof -
  note sup = process_logits_suppresses [OF assms(1,3,6,7,9)]
  have n: "int (length raw) = v_n_vocab v" using assms(1) by (auto simp: process_logits_def split: if_splits)
  obtain e where e: "early_ids P v cur (v_n_vocab v) = Some e"
    using assms(1) unfolding n [symmetric] by (auto simp: process_logits_def filter_logits_def Let_def split: if_splits option.splits)
  have stamps: "pr_probs pr ! i = fl_zero (a_flt A)" if "nat (v_beg v) \<le> i" "i < length (pr_probs pr)" for i
  proof -
    have "int i \<in> {v_beg v .. v_n_vocab v - 1}" using that sup n by auto
    then have "int i \<in> set e" using e assms(2) by (auto simp: early_ids_def control_ids_def split: option.splits)
    then have "int i \<in> suppressed (a_flt A) P v n_audio_ctx cur has_ts seek_delta (v_n_vocab v)" by (simp add: suppressed_def e)
    then show ?thesis using sup by fastforce
  qed
  have tid: "snd (snd (ts_stats A (pr_probs pr) (nat (v_beg v)) 0)) = 0"
    by (rule ts_stats_zero [OF assms(4,5)]) (use stamps in auto)
  have "td_id t < v_beg v"
  proof (rule ccontr)
    assume a: "\<not> td_id t < v_beg v"
    then have "fl_lt (a_flt A) (fl_zero (a_flt A)) (pr_probs pr ! nat (td_id t))" "td_id t < int (length (pr_probs pr))"
      using sample_best_positive [OF assms(3,10)] assms(8) by auto
    then show False using stamps [of "nat (td_id t)"] a float_irrefl [OF assms(3)] assms(8) by auto
  qed
  then have "td_tid t = 0"
    using assms(10) tid by (auto simp: sample_token_def Let_def take_timestamp_def split: prod.splits if_splits)
  then have "cut_segments v Q no_speech seek sd (t # rest) [] ck =
      cut_loop v Q no_speech seek sd [] (seek - 2 * v_beg v) [] False (t # rest) ([], [], ck)"
    by (simp add: cut_segments_def)
  moreover obtain turn' where "cut_loop v Q no_speech seek sd [] (seek - 2 * v_beg v) [] False (t # rest) ([], [], ck) =
      emit_segment v Q \<lparr>sg_t0 = seek - 2 * v_beg v, sg_t1 = seek + sd, sg_text = [] @ plain_text v (t # rest),
        sg_no_speech = no_speech, sg_tokens = [] @ t # rest, sg_turn = turn'\<rparr> ([], [], ck)"
    using cut_loop_plain [OF assms(11-13), of no_speech seek sd "[]" "seek - 2 * v_beg v" "[]" False "([], [], ck)"] assms(14) by auto
  ultimately show ?thesis using assms(11,15) by (simp add: emit_segment_def)
qed

lemma demo_no_stamps: "case process_logits rat_ops (demo_lparams\<lparr>lp_no_timestamps := True\<rparr>) demo_small 1500 Some [] False 3000 (Some 0) demo_raw of
    None \<Rightarrow> False | Some pr \<Rightarrow> td_id (fst (sample_token demo_arith demo_small (\<lambda>_ s. (0 :: nat, s)) True pr ())) = 0"
  by code_simp

theorem no_timestamps_start_negative_witness:
  "\<exists>t segs calls. cut_segments demo_small demo_seg_params (Some 0) 100 3000 [t] [] \<lparr>tc_beg = 0, tc_last = 0, tc_tid_last = 0\<rparr> = Some (segs, calls, \<lparr>tc_beg = 0, tc_last = 0, tc_tid_last = 0\<rparr>) \<and> sg_t0 (hd segs) = -124"
proof -
  define P where "P = demo_lparams\<lparr>lp_no_timestamps := True\<rparr>"
  obtain pr where pr: "process_logits (a_flt demo_arith) P demo_small 1500 Some [] False 3000 (Some 0) demo_raw = Some pr"
    "td_id (fst (sample_token demo_arith demo_small (\<lambda>_ s. (0 :: nat, s)) True pr ())) = 0"
    using demo_no_stamps by (auto simp: P_def demo_arith_def split: option.splits)
  obtain t where t: "sample_token demo_arith demo_small (\<lambda>_ s. (0 :: nat, s)) True pr () = (t, ())" by (metis surj_pair unit.exhaust)
  have p: "lp_no_timestamps P" "keeps_suppressed (a_flt demo_arith) (lp_callback P)" by (simp_all add: P_def keeps_suppressed_def demo_lparams_def)
  have f: "float_laws (a_flt demo_arith)" "float_laws (a_dbl demo_arith)" "keeps_suppressed_opt (a_flt demo_arith) Some"
    "a_widen demo_arith (fl_zero (a_flt demo_arith)) = fl_zero (a_dbl demo_arith)"
    using rat_ops_laws demo_keeps by (simp_all add: demo_arith_def)
  have v: "0 < v_beg demo_small" "v_beg demo_small \<le> v_n_vocab demo_small" "100 < 2 * v_beg demo_small"
    "v_eot demo_small = 4"
    by (simp_all add: demo_small_def)
  have a: "token_to_str demo_small 0 = Some ''a''" by code_simp
  have q: "\<not> sp_token_timestamps demo_seg_params" "\<not> sp_print_special demo_seg_params" by (simp_all add: demo_seg_params_def)
  have id: "td_id t = 0" using pr(2) t by simp
  have "\<exists>segs calls. cut_segments demo_small demo_seg_params (Some 0) 100 3000 [t] [] \<lparr>tc_beg = 0, tc_last = 0, tc_tid_last = 0\<rparr> = Some (segs, calls, \<lparr>tc_beg = 0, tc_last = 0, tc_tid_last = 0\<rparr>) \<and>
      sg_t0 (hd segs) = 100 - 2 * v_beg demo_small \<and> sg_t0 (hd segs) < 0"
    by (rule no_timestamps_start_negative [OF pr(1) p(1) f(1,2,4) p(2) f(3) v(1,2) t q])
      (use id v a in \<open>simp_all add: plain_text_def\<close>)
  then show ?thesis by (auto simp: demo_small_def)
qed

section \<open>Witnesses\<close>


theorem greedy_never_goes_back_witness:
  "\<exists>pr. let d = demo_decoder\<lparr>d_seek_delta := 100, d_has_ts := True, d_probs := pr\<rparr>;
        tk = td_id (last (d_tokens (greedy_sample (fe_model demo_env) (Some 0) d)))
      in decoder_logits (fe_model demo_env) demo_dec_params (Some 0) (replicate 51864 (Some 0)) d = Some pr \<and>
        \<not> (tk > v_beg demo_words \<and> 100 > 2 * (tk - v_beg demo_words))"
proof -
  define d0 where "d0 = demo_decoder\<lparr>d_seek_delta := 100, d_has_ts := True\<rparr>"
  have mo: "model_ok (fe_model demo_env) demo_dec_params" using demo_env_ok by (simp add: env_ok_def demo_full_params_def)
  have "turn_ok (dm_vocab (fe_model demo_env)) False 0 d0"
    by (simp add: turn_ok_def decoder_ok_def d0_def demo_decoder_def chunk_frames_def)
  then obtain d' where "process_decoder (fe_model demo_env) demo_dec_params (Some 0) (replicate 51864 (Some 0)) d0 = Some d'"
    using process_decoder_ok [OF mo, of 0 d0 "replicate 51864 (Some 0)" "Some 0"]
    by (auto simp: d0_def demo_decoder_def demo_words_specials)
  then obtain pr where pr: "decoder_logits (fe_model demo_env) demo_dec_params (Some 0) (replicate 51864 (Some 0)) d0 = Some pr"
    by (auto simp: process_decoder_def d0_def demo_decoder_def finished_def split: if_splits)
  define d where "d = d0\<lparr>d_probs := pr\<rparr>"
  have run: "decoder_logits (fe_model demo_env) demo_dec_params (Some 0) (replicate 51864 (Some 0)) d = Some (d_probs d)"
    using pr by (simp add: d_def decoder_logits_def d0_def)
  have "let tk = td_id (last (d_tokens (greedy_sample (fe_model demo_env) (Some 0) d)))
    in \<not> (tk > v_beg (dm_vocab (fe_model demo_env)) \<and> d_has_ts d \<and> d_seek_delta d > 2 * (tk - v_beg (dm_vocab (fe_model demo_env))))"
  proof (rule greedy_never_goes_back [OF run])
    show "keeps_suppressed_opt (flt (fe_model demo_env)) (grammar_suppress (fe_model demo_env) (d_grammar d))"
      by (auto simp: keeps_suppressed_opt_def d_def d0_def demo_decoder_def grammar_suppress_none)
  qed (use rat_ops_laws in \<open>simp_all add: d_def d0_def demo_decoder_def finished_def demo_words_specials demo_dec_params_def
      keeps_suppressed_def, simp add: rat_ops_def rat_lt_def\<close>)
  then show ?thesis using run by (intro exI [of _ pr]) (simp add: d_def d0_def Let_def)
qed

end
