(* ===== verification/Vad_Filter.thy ===== *)
theory Vad_Filter
  imports Vad_Detect "HOL-Library.Multiset"
begin

text \<open>
  \<open>whisper_vad\<close>: the audio of the segments of speech is copied into one shorter vector, and a table maps
  times in that vector to times in the original; then the mapping of the results back to original time.
  \<open>std::sort\<close> leaves the order of entries with equal keys open, so the sort is a parameter of which only
  its specification is used.
\<close>

section \<open>State\<close>

type_synonym vad_time_mapping = "int \<times> int"

record vad_segment_info =
  vi_orig_start :: int
  vi_orig_end :: int
  vi_vad_start :: int
  vi_vad_end :: int

text \<open>The vector under construction: \<open>filtered_samples\<close>, \<open>offset\<close> and what the loop appends.\<close>

record 'f vad_out =
  vo_samples :: "'f list"
  vo_offset :: nat
  vo_table :: "vad_time_mapping list"
  vo_infos :: "vad_segment_info list"

record vad_state =
  vs_has :: bool
  vs_infos :: "vad_segment_info list"
  vs_table :: "vad_time_mapping list"

text \<open>
  \<open>resize\<close> of a negative count throws \<open>std::length_error\<close>, which the handler for \<open>std::bad_alloc\<close> does not
  catch; a copy out of range is undefined.
\<close>

datatype vad_error = Length_Error | Out_Of_Bounds

section \<open>Copying the segments\<close>

definition silence_samples :: nat where
  "silence_samples = 1600"

definition overlap_samples :: "'f float_ops \<Rightarrow> 'f \<Rightarrow> int" where
  "overlap_samples F seconds = fl_trunc F (fl_mul F seconds (fl_lit F (of_int whisper_sample_rate)))"

definition seg_end_samples :: "int \<Rightarrow> int \<Rightarrow> seg \<Rightarrow> bool \<Rightarrow> int" where
  "seg_end_samples ov n seg is_last = min (cs_to_samples (snd seg) + (if is_last then 0 else ov)) (n - 1)"

text \<open>The first pass: the number of samples needed.\<close>

fun filtered_total :: "int \<Rightarrow> int \<Rightarrow> seg list \<Rightarrow> int" where
  "filtered_total ov n [] = 0"
| "filtered_total ov n (seg # rest) =
     seg_end_samples ov n seg (rest = []) - cs_to_samples (fst seg) + filtered_total ov n rest"

definition total_samples_needed :: "int \<Rightarrow> int \<Rightarrow> seg list \<Rightarrow> int" where
  "total_samples_needed ov n segs =
     filtered_total ov n segs + (if length segs > 1 then (int (length segs) - 1) * int silence_samples else 0)"

definition mapping_points :: "vad_segment_info \<Rightarrow> vad_time_mapping list" where
  "mapping_points i =
     (let vs = vi_vad_start i; ve = vi_vad_end i; os = vi_orig_start i; oe = vi_orig_end i
      in if ve - vs > 100
         then map (\<lambda>j. (vs + j * 20, os + tdiv (j * 20 * (oe - os)) (ve - vs)))
                (filter (\<lambda>j. vs + j * 20 < ve) [1 .. tdiv (ve - vs) 20 - 1])
         else [])"

definition add_segment :: "(int \<Rightarrow> bool) \<Rightarrow> 'f list \<Rightarrow> 'f \<Rightarrow> seg \<Rightarrow> seg list \<Rightarrow> int \<Rightarrow> int
    \<Rightarrow> 'f vad_out \<Rightarrow> 'f vad_out option" where
  "add_segment down samples zero seg rest start len out =
     (let off = vo_offset out;
          i = \<lparr>vi_orig_start = fst seg, vi_orig_end = snd seg,
               vi_vad_start = samples_to_cs down (int off), vi_vad_end = samples_to_cs down (int off + len)\<rparr>;
          table = vo_table out @ [(vi_vad_start i, fst seg), (vi_vad_end i, snd seg)] @ mapping_points i
      in case (if start < 0 then None else mem_read samples (nat start) (nat len)) of
           None \<Rightarrow> None
         | Some piece \<Rightarrow>
             (case mem_write (vo_samples out) off piece of
                None \<Rightarrow> None
              | Some m \<Rightarrow>
                  (let off1 = off + nat len;
                       out1 = \<lparr>vo_samples = m, vo_offset = off1, vo_table = table, vo_infos = vo_infos out @ [i]\<rparr>
                   in case rest of
                        [] \<Rightarrow> Some out1
                      | next_seg # _ \<Rightarrow>
                          (case mem_write m off1 (replicate silence_samples zero) of
                             None \<Rightarrow> None
                           | Some m' \<Rightarrow> Some (out1\<lparr>vo_samples := m', vo_offset := off1 + silence_samples,
                               vo_table := table @
                                 [(samples_to_cs down (int off1), vi_orig_end i),
                                  (samples_to_cs down (int (off1 + silence_samples)), fst next_seg)]\<rparr>)))))"

text \<open>The second pass.\<close>

fun vad_loop :: "(int \<Rightarrow> bool) \<Rightarrow> int \<Rightarrow> 'f list \<Rightarrow> 'f \<Rightarrow> seg list \<Rightarrow> 'f vad_out \<Rightarrow> 'f vad_out option" where
  "vad_loop down ov samples zero [] out = Some out"
| "vad_loop down ov samples zero (seg # rest) out =
     (let n = int (length samples);
          start = min (cs_to_samples (fst seg)) (n - 1);
          len = seg_end_samples ov n seg (rest = []) - start
      in if len > 0
         then (case add_segment down samples zero seg rest start len out of
                 None \<Rightarrow> None
               | Some out' \<Rightarrow> vad_loop down ov samples zero rest out')
         else vad_loop down ov samples zero rest out)"

text \<open>\<open>std::unique\<close> by processed time: of each group of neighbours with one time the first stays.\<close>

fun unique_times :: "vad_time_mapping list \<Rightarrow> vad_time_mapping list" where
  "unique_times (x # y # r) = (if fst x = fst y then unique_times (x # r) else x # unique_times (y # r))"
| "unique_times r = r"

text \<open>
  The whole function.  \<open>segs\<close> is the result of the detection, \<^term>\<open>None\<close> when it failed; the result is
  the boolean returned, the state and the vector of the caller.
\<close>

definition whisper_vad :: "'f float_ops \<Rightarrow> (int \<Rightarrow> bool) \<Rightarrow> (vad_time_mapping list \<Rightarrow> vad_time_mapping list) \<Rightarrow> 'f
    \<Rightarrow> 'f vad_params \<Rightarrow> seg list option \<Rightarrow> 'f list \<Rightarrow> vad_state \<Rightarrow> 'f list
    \<Rightarrow> vad_error + bool \<times> vad_state \<times> 'f list" where
  "whisper_vad F down sorter zero params segs samples st filtered =
     (let st0 = st\<lparr>vs_table := [], vs_has := False\<rparr>
      in case segs of
           None \<Rightarrow> Inr (False, st0, filtered)
         | Some [] \<Rightarrow> Inr (True, st0, filtered)
         | Some (s # r) \<Rightarrow>
             (let ov = overlap_samples F (v_samples_overlap params);
                  total = total_samples_needed ov (int (length samples)) (s # r)
              in if total < 0 then Inl Length_Error
                 else case vad_loop down ov samples zero (s # r)
                       \<lparr>vo_samples = take (nat total) (filtered @ replicate (nat total - length filtered) zero),
                        vo_offset = 0, vo_table = [], vo_infos = []\<rparr> of
                   None \<Rightarrow> Inl Out_Of_Bounds
                 | Some out \<Rightarrow>
                     Inr (True, st0\<lparr>vs_has := True, vs_infos := vo_infos out,
                                vs_table := unique_times (sorter (vo_table out))\<rparr>, vo_samples out)))"

section \<open>Mapping back\<close>

text \<open>\<open>std::lower_bound\<close> on a table in order: the number of entries before the time.\<close>

definition lower_bound :: "int \<Rightarrow> vad_time_mapping list \<Rightarrow> nat" where
  "lower_bound t table = length (takeWhile (\<lambda>e. fst e < t) table)"

definition map_processed_to_original :: "int \<Rightarrow> vad_time_mapping list \<Rightarrow> int" where
  "map_processed_to_original t table =
     (if table = [] then t
      else if t \<le> fst (hd table) then snd (hd table)
      else if t \<ge> fst (last table) then snd (last table)
      else (let k = lower_bound t table; upper = table ! k; lower = table ! (k - 1)
            in if fst upper = t then snd upper
               else (let pd = fst upper - fst lower; od = snd upper - snd lower; off = t - fst lower
                     in if pd = 0 then snd lower else snd lower + tdiv (off * od) pd)))"

definition segment_t0 :: "vad_state \<Rightarrow> int \<Rightarrow> int" where
  "segment_t0 st t0 =
     (if \<not> vs_has st \<or> vs_table st = [] then t0 else map_processed_to_original t0 (vs_table st))"

definition segment_t1 :: "vad_state \<Rightarrow> int \<Rightarrow> int \<Rightarrow> int" where
  "segment_t1 st t0 t1 =
     (if \<not> vs_has st \<or> vs_table st = [] then t1
      else (let o1 = map_processed_to_original t1 (vs_table st); o0 = segment_t0 st t0
            in if o1 - o0 < 10 then o0 + 10 else o1))"

section \<open>The copy\<close>

text \<open>The specification of the shorter vector.\<close>

fun vad_audio :: "int \<Rightarrow> 'f list \<Rightarrow> 'f \<Rightarrow> seg list \<Rightarrow> 'f list" where
  "vad_audio ov samples zero [] = []"
| "vad_audio ov samples zero (seg # rest) =
     (let st = nat (cs_to_samples (fst seg));
          en = nat (seg_end_samples ov (int (length samples)) seg (rest = []));
          piece = take (en - st) (drop st samples)
      in (if piece = [] then [] else piece @ (if rest = [] then [] else replicate silence_samples zero)) @
         vad_audio ov samples zero rest)"

definition starts_ok :: "'f list \<Rightarrow> seg list \<Rightarrow> bool" where
  "starts_ok samples segs \<longleftrightarrow> (\<forall>s \<in> set segs. cs_to_samples (fst s) \<le> int (length samples) - 1)"

lemma seg_span:
  assumes "chain lo (seg # rest) hi" "0 \<le> lo" "0 \<le> ov" "starts_ok samples (seg # rest)"
  defines "st \<equiv> cs_to_samples (fst seg)" and "en \<equiv> seg_end_samples ov (int (length samples)) seg (rest = [])"
  shows "0 \<le> st" "st \<le> en" "en \<le> int (length samples) - 1" "min st (int (length samples) - 1) = st"
    "length (take (nat en - nat st) (drop (nat st) samples)) = nat (en - st)"
proof -
  have le: "lo \<le> fst seg" "fst seg \<le> snd seg" using assms(1) by auto
  show s: "0 \<le> st" using le assms(2) by (simp add: st_def cs_to_samples_eq)
  show e: "en \<le> int (length samples) - 1" by (simp add: en_def seg_end_samples_def)
  have top: "st \<le> int (length samples) - 1" using assms(4) by (simp add: starts_ok_def st_def)
  then show "min st (int (length samples) - 1) = st" by simp
  show se: "st \<le> en" using le assms(2,3) top by (auto simp: st_def en_def seg_end_samples_def cs_to_samples_eq)
  show "length (take (nat en - nat st) (drop (nat st) samples)) = nat (en - st)"
    using s e se by auto
qed

lemma mem_write_zeros:
  "length xs \<le> k \<Longrightarrow> mem_write (a @ replicate k z) (length a) xs = Some (a @ xs @ replicate (k - length xs) z)"
  by (simp add: mem_simps)

lemma total_Cons: "total_samples_needed ov n (seg # rest) =
    (seg_end_samples ov n seg (rest = []) - cs_to_samples (fst seg)) +
    (if rest = [] then 0 else int silence_samples) + total_samples_needed ov n rest"
  by (cases rest) (simp_all add: total_samples_needed_def algebra_simps)

lemma audio_Cons:
  assumes "chain lo (seg # rest) hi" "0 \<le> lo" "0 \<le> ov" "starts_ok samples (seg # rest)"
  shows "int (length (vad_audio ov samples zero (seg # rest))) \<le>
    (seg_end_samples ov (int (length samples)) seg (rest = []) - cs_to_samples (fst seg)) +
    (if rest = [] then 0 else int silence_samples) + int (length (vad_audio ov samples zero rest))"
proof -
  define e where "e = seg_end_samples ov (int (length samples)) seg (rest = [])"
  note span = seg_span [OF assms, folded e_def]
  define piece where "piece = take (nat e - nat (cs_to_samples (fst seg))) (drop (nat (cs_to_samples (fst seg))) samples)"
  have "vad_audio ov samples zero (seg # rest) =
      (if piece = [] then [] else piece @ (if rest = [] then [] else replicate silence_samples zero)) @
        vad_audio ov samples zero rest"
    by (simp only: vad_audio.simps Let_def piece_def e_def)
  then show ?thesis using span(2) span(5) [folded piece_def] unfolding e_def [symmetric] by simp
qed

lemma audio_length:
  assumes "0 \<le> ov"
  shows "chain lo segs hi \<Longrightarrow> 0 \<le> lo \<Longrightarrow> starts_ok samples segs \<Longrightarrow>
    int (length (vad_audio ov samples zero segs)) \<le> total_samples_needed ov (int (length samples)) segs"
proof (induction segs arbitrary: lo)
  case (Cons seg rest)
  have "0 \<le> snd seg" "chain (snd seg) rest hi" "starts_ok samples rest"
    using Cons.prems by (auto simp: starts_ok_def)
  then have "int (length (vad_audio ov samples zero rest)) \<le> total_samples_needed ov (int (length samples)) rest"
    using Cons.IH by blast
  then show ?case
    using audio_Cons [OF Cons.prems(1,2) assms Cons.prems(3), of zero] unfolding total_Cons by linarith
qed (simp add: total_samples_needed_def)

lemma add_segment_copies:
  assumes span: "0 \<le> st" "0 < len" "st + len \<le> int (length samples)"
    and out: "vo_samples out = a @ replicate k zero" "vo_offset out = length a"
    and room: "length p \<le> k" and p: "p = take (nat len) (drop (nat st) samples) @
        (if rest = [] then [] else replicate silence_samples zero)"
  shows "\<exists>out'. add_segment down samples zero seg rest st len out = Some out' \<and>
    vo_samples out' = (a @ p) @ replicate (k - length p) zero \<and> vo_offset out' = length (a @ p)"
proof -
  define piece where "piece = take (nat len) (drop (nat st) samples)"
  have len: "length piece = nat len" using span by (auto simp: piece_def)
  have rd: "mem_read samples (nat st) (nat len) = Some piece"
    using span by (simp add: mem_read_def piece_def)
  have wr: "mem_write (a @ replicate k zero) (length a) piece = Some (a @ piece @ replicate (k - nat len) zero)"
    using mem_write_zeros [of piece k a zero] room by (simp add: p len flip: piece_def)
  show ?thesis
  proof (cases rest)
    case Nil
    then show ?thesis using span out rd wr len
      by (simp add: add_segment_def Let_def p flip: piece_def)
  next
    case (Cons r rs)
    have "mem_write ((a @ piece) @ replicate (k - nat len) zero) (length (a @ piece)) (replicate silence_samples zero) =
        Some ((a @ piece) @ replicate silence_samples zero @ replicate (k - nat len - silence_samples) zero)"
      using mem_write_zeros [of "replicate silence_samples zero" "k - nat len" "a @ piece" zero] room Cons
      by (simp add: p len flip: piece_def)
    then show ?thesis using span out rd wr len Cons
      by (simp add: add_segment_def Let_def p algebra_simps flip: piece_def)
  qed
qed

lemma vad_loop_copies:
  assumes "0 \<le> ov"
  shows "chain lo segs hi \<Longrightarrow> 0 \<le> lo \<Longrightarrow> starts_ok samples segs \<Longrightarrow>
    vo_samples out = a @ replicate k zero \<Longrightarrow> vo_offset out = length a \<Longrightarrow>
    length (vad_audio ov samples zero segs) \<le> k \<Longrightarrow>
    \<exists>out'. vad_loop down ov samples zero segs out = Some out' \<and>
      vo_samples out' = (a @ vad_audio ov samples zero segs) @
        replicate (k - length (vad_audio ov samples zero segs)) zero"
proof (induction segs arbitrary: lo out a k)
  case (Cons seg rest)
  define st en where "st = cs_to_samples (fst seg)"
    and "en = seg_end_samples ov (int (length samples)) seg (rest = [])"
  define piece where "piece = take (nat en - nat st) (drop (nat st) samples)"
  note span = seg_span [OF Cons.prems(1,2) assms Cons.prems(3), folded st_def en_def, folded piece_def]
  have next_seg: "0 \<le> snd seg" "chain (snd seg) rest hi" "starts_ok samples rest"
    using Cons.prems by (auto simp: starts_ok_def)
  show ?case
  proof (cases "en - st > 0")
    case True
    define p where "p = piece @ (if rest = [] then [] else replicate silence_samples zero)"
    have audio: "vad_audio ov samples zero (seg # rest) = p @ vad_audio ov samples zero rest"
      using True span by (auto simp: Let_def p_def piece_def st_def en_def)
    have "nat en - nat st = nat (en - st)" using span by simp
    then have piece: "piece = take (nat (en - st)) (drop (nat st) samples)" by (simp add: piece_def)
    have room: "length p \<le> k" "length (vad_audio ov samples zero rest) \<le> k - length p"
      using Cons.prems(6) unfolding audio by auto
    obtain out1 where out1: "add_segment down samples zero seg rest st (en - st) out = Some out1"
        "vo_samples out1 = (a @ p) @ replicate (k - length p) zero" "vo_offset out1 = length (a @ p)"
      using add_segment_copies [of st "en - st" samples out a k zero p rest down seg] span True
        Cons.prems(4,5) room(1) p_def piece by auto
    obtain out' where "vad_loop down ov samples zero rest out1 = Some out'"
        "vo_samples out' = ((a @ p) @ vad_audio ov samples zero rest) @
           replicate (k - length p - length (vad_audio ov samples zero rest)) zero"
      using Cons.IH [OF next_seg(2,1,3) out1(2,3) room(2)] by blast
    moreover have "vad_loop down ov samples zero (seg # rest) out = vad_loop down ov samples zero rest out1"
      using True span(4) out1(1) by (simp add: Let_def flip: st_def en_def)
    ultimately show ?thesis unfolding audio by simp
  next
    case False
    have "piece = []" using False by (simp add: piece_def)
    then have audio: "vad_audio ov samples zero (seg # rest) = vad_audio ov samples zero rest"
      by (simp add: Let_def piece_def st_def en_def)
    have "vad_loop down ov samples zero (seg # rest) out = vad_loop down ov samples zero rest out"
      using False span(4) by (simp add: Let_def flip: st_def en_def)
    then show ?thesis using Cons.IH [OF next_seg(2,1,3) Cons.prems(4,5)] Cons.prems(6) unfolding audio by simp
  qed
qed simp


definition frames_cover :: "int \<Rightarrow> nat \<Rightarrow> nat \<Rightarrow> bool" where
  "frames_cover n_window n_probs n_samples \<longleftrightarrow> int n_probs * n_window < int n_samples + n_window"

lemma detected_starts_ok:
  assumes "vad_params_ok params n_window" "n_window + 80 \<le> 16 * v_min_speech_ms params"
    and "frames_cover n_window (length probs) (length samples)"
  shows "starts_ok samples (vad_segments_from_probs F down params n_window probs)"
proof -
  note ok = sample_segments_ok [OF assms(1), of F probs]
  have "cs_to_samples (samples_to_cs down (fst x)) \<le> int (length samples) - 1"
    if x: "x \<in> set (vad_sample_segments F params n_window probs)" for x
  proof -
    have "0 \<le> fst x \<and> snd x \<le> int (length probs) * n_window" using chain_within ok x by blast
    moreover have "16 * v_min_speech_ms params \<le> snd x - fst x" using ok x by blast
    moreover have "0 \<le> samples_to_cs down (fst x)"
      using samples_to_cs_mono [of 0 "fst x" down] calculation by (simp add: samples_to_cs_0)
    ultimately show ?thesis using samples_to_cs_near [of "fst x" down] assms(2,3)
      by (simp add: cs_to_samples_eq frames_cover_def)
  qed
  then show ?thesis by (auto simp: starts_ok_def vad_segments_from_probs_def)
qed

lemma whisper_vad_copies:
  assumes "chain 0 segs hi" "segs \<noteq> []" "0 \<le> overlap_samples F (v_samples_overlap params)" "starts_ok samples segs"
  shows "\<exists>st' k out. whisper_vad F down sorter zero params (Some segs) samples st [] = Inr (True, st',
      vad_audio (overlap_samples F (v_samples_overlap params)) samples zero segs @ replicate k zero) \<and>
    vs_has st' \<and> vs_table st' = unique_times (sorter (vo_table out)) \<and>
    vad_loop down (overlap_samples F (v_samples_overlap params)) samples zero segs
      \<lparr>vo_samples = replicate (k + length (vad_audio (overlap_samples F (v_samples_overlap params)) samples zero segs)) zero,
       vo_offset = 0, vo_table = [], vo_infos = []\<rparr> = Some out"
proof -
  let ?ov = "overlap_samples F (v_samples_overlap params)"
  let ?total = "total_samples_needed ?ov (int (length samples)) segs"
  let ?audio = "vad_audio ?ov samples zero segs"
  have room: "int (length ?audio) \<le> ?total" using audio_length [OF assms(3,1) _ assms(4)] by simp
  then have room': "length ?audio \<le> nat ?total" by linarith
  then have k: "nat ?total - length ?audio + length ?audio = nat ?total" by simp
  obtain out where out: "vad_loop down ?ov samples zero segs
      \<lparr>vo_samples = replicate (nat ?total) zero, vo_offset = 0, vo_table = [], vo_infos = []\<rparr> = Some out"
      "vo_samples out = ?audio @ replicate (nat ?total - length ?audio) zero"
    using vad_loop_copies [OF assms(3,1) _ assms(4), of
      "\<lparr>vo_samples = replicate (nat ?total) zero, vo_offset = 0, vo_table = [], vo_infos = []\<rparr>"
      "[]" "nat ?total" zero down] room' by auto
  obtain s r where s: "segs = s # r" using assms(2) by (cases segs) auto
  have "whisper_vad F down sorter zero params (Some segs) samples st [] = Inr (True,
      st\<lparr>vs_has := True, vs_infos := vo_infos out, vs_table := unique_times (sorter (vo_table out))\<rparr>,
      ?audio @ replicate (nat ?total - length ?audio) zero)"
    using out room by (simp add: whisper_vad_def Let_def s)
  then show ?thesis using out(1) k
    by (intro exI [of _ "st\<lparr>vs_has := True, vs_infos := vo_infos out, vs_table := unique_times (sorter (vo_table out))\<rparr>"]
        exI [of _ "nat ?total - length ?audio"] exI [of _ out]) simp
qed

section \<open>The table\<close>

definition mono_rel :: "vad_time_mapping set \<Rightarrow> bool" where
  "mono_rel T \<longleftrightarrow> (\<forall>x \<in> T. \<forall>y \<in> T. fst x < fst y \<longrightarrow> snd x \<le> snd y)"

definition below :: "int \<Rightarrow> int \<Rightarrow> vad_time_mapping set \<Rightarrow> bool" where
  "below v o1 T \<longleftrightarrow> (\<forall>x \<in> T. fst x \<le> v \<and> snd x \<le> o1)"

definition above :: "int \<Rightarrow> int \<Rightarrow> vad_time_mapping set \<Rightarrow> bool" where
  "above v o1 T \<longleftrightarrow> (\<forall>x \<in> T. v \<le> fst x \<and> o1 \<le> snd x)"

lemma mono_rel_Un: "mono_rel A \<Longrightarrow> mono_rel B \<Longrightarrow> below v o1 A \<Longrightarrow> above v o1 B \<Longrightarrow> mono_rel (A \<union> B)"
  unfolding mono_rel_def below_def above_def
  by (metis Un_iff order.trans order.strict_trans2 not_less)

lemma below_Un: "below v o1 A \<Longrightarrow> below v' o1' B \<Longrightarrow> v \<le> v' \<Longrightarrow> o1 \<le> o1' \<Longrightarrow> below v' o1' (A \<union> B)"
  unfolding below_def by (meson Un_iff order_trans)

text \<open>The points inside a segment lie on a line from its start to its end.\<close>

lemma line_between:
  assumes "0 \<le> x" "x \<le> (n :: int)" "0 < n" "0 \<le> d"
  shows "0 \<le> (x * d) div n \<and> (x * d) div n \<le> d"
proof -
  have "(x * d) div n \<le> (n * d) div n" using assms by (intro zdiv_mono1 mult_right_mono) auto
  then show ?thesis using assms by (simp add: pos_imp_zdiv_nonneg_iff)
qed

lemma line_mono:
  assumes "x \<le> y" "0 < (n :: int)" "0 \<le> d"
  shows "(x * d) div n \<le> (y * d) div n"
  using assms by (intro zdiv_mono1 mult_right_mono) auto

lemma mapping_points_ok:
  assumes "vi_vad_start i \<le> vi_vad_end i" "vi_orig_start i \<le> vi_orig_end i"
  defines "T \<equiv> set ([(vi_vad_start i, vi_orig_start i), (vi_vad_end i, vi_orig_end i)] @ mapping_points i)"
  shows "mono_rel T \<and> below (vi_vad_end i) (vi_orig_end i) T \<and> above (vi_vad_start i) (vi_orig_start i) T"
proof -
  define vs ve os d where "vs = vi_vad_start i" and "ve = vi_vad_end i" and "os = vi_orig_start i"
    and "d = vi_orig_end i - vi_orig_start i"
  have d: "0 \<le> d" and oe: "vi_orig_end i = os + d" using assms by (auto simp: d_def os_def)
  have pts: "\<exists>z. 0 \<le> z \<and> z < ve - vs \<and> x = (vs + z, os + (z * d) div (ve - vs))"
    if x: "x \<in> set (mapping_points i)" for x
  proof -
    obtain j where j: "1 \<le> j" "vs + j * 20 < ve" "x = (vs + j * 20, os + tdiv (j * 20 * d) (ve - vs))"
      using x by (auto simp: mapping_points_def Let_def vs_def ve_def os_def d_def split: if_splits)
    then show ?thesis using d by (intro exI [of _ "j * 20"]) (simp add: tdiv_nonneg)
  qed
  have shape: "x = (vs, os) \<or> x = (ve, os + d) \<or>
      (\<exists>z. 0 \<le> z \<and> z < ve - vs \<and> x = (vs + z, os + (z * d) div (ve - vs)))" if "x \<in> T" for x
  proof -
    have "x = (vs, os) \<or> x = (ve, os + d) \<or> x \<in> set (mapping_points i)"
      using that oe by (auto simp: T_def vs_def ve_def os_def)
    then show ?thesis using pts by blast
  qed
  have range: "vs \<le> fst x \<and> fst x \<le> ve \<and> os \<le> snd x \<and> snd x \<le> os + d" if "x \<in> T" for x
    using shape [OF that] assms d line_between [of _ "ve - vs" d] by (auto simp: vs_def ve_def)
  have "snd x \<le> snd y" if xy: "x \<in> T" "y \<in> T" "fst x < fst y" for x y
    using shape [OF xy(1)] shape [OF xy(2)] range [OF xy(1)] range [OF xy(2)] xy(3)
      line_mono [of _ _ "ve - vs" d] d by fastforce
  then show ?thesis using range oe by (auto simp: mono_rel_def below_def above_def vs_def ve_def os_def)
qed

definition table_ok :: "(int \<Rightarrow> bool) \<Rightarrow> int \<Rightarrow> 'f vad_out \<Rightarrow> bool" where
  "table_ok down o1 out \<longleftrightarrow> mono_rel (set (vo_table out)) \<and>
     below (samples_to_cs down (int (vo_offset out))) o1 (set (vo_table out))"

lemma add_segment_table:
  assumes ok: "table_ok down o1 out" and seg: "o1 \<le> fst seg" "fst seg \<le> snd seg" and len: "0 < len"
    and next_ok: "rest \<noteq> [] \<Longrightarrow> snd seg \<le> fst (hd rest)"
    and run: "add_segment down samples zero seg rest st len out = Some out'"
  shows "table_ok down (if rest = [] then snd seg else fst (hd rest)) out'"
proof -
  define off where "off = vo_offset out"
  define i where "i = \<lparr>vi_orig_start = fst seg, vi_orig_end = snd seg,
      vi_vad_start = samples_to_cs down (int off), vi_vad_end = samples_to_cs down (int off + len)\<rparr>"
  define B where "B = set ([(vi_vad_start i, vi_orig_start i), (vi_vad_end i, vi_orig_end i)] @ mapping_points i)"
  have order: "vi_vad_start i \<le> vi_vad_end i" using len by (auto simp: i_def intro: samples_to_cs_mono)
  have B: "mono_rel B \<and> below (vi_vad_end i) (snd seg) B \<and> above (vi_vad_start i) (fst seg) B"
    using mapping_points_ok [of i] order seg(2) by (simp add: B_def i_def)
  have A: "mono_rel (set (vo_table out))" "below (vi_vad_start i) (fst seg) (set (vo_table out))"
    using ok seg by (auto simp: table_ok_def below_def i_def off_def)
  define T where "T = set (vo_table out) \<union> B"
  have T: "mono_rel T" "below (vi_vad_end i) (snd seg) T"
    using mono_rel_Un [OF A(1) _ A(2)] below_Un [OF A(2)] B order seg(2) by (auto simp: T_def)
  show ?thesis
  proof (cases rest)
    case Nil
    then have "set (vo_table out') = T \<and> vo_offset out' = off + nat len"
      using run by (auto simp: add_segment_def Let_def T_def B_def i_def off_def split: option.splits)
    then show ?thesis using T Nil len by (simp add: table_ok_def i_def)
  next
    case (Cons r rs)
    define v where "v = samples_to_cs down (int (off + nat len + silence_samples))"
    define C where "C = {(vi_vad_end i, snd seg), (v, fst r)}"
    have out': "set (vo_table out') = T \<union> C \<and> vo_offset out' = off + nat len + silence_samples"
      using run Cons len
      by (auto simp: add_segment_def Let_def T_def B_def C_def i_def off_def v_def split: option.splits if_splits)
    have v: "vi_vad_end i \<le> v" "snd seg \<le> fst r"
      using next_ok Cons len by (auto simp: i_def v_def intro: samples_to_cs_mono)
    have "mono_rel C" "above (vi_vad_end i) (snd seg) C" "below v (fst r) C"
      using v by (auto simp: C_def mono_rel_def above_def below_def)
    then have "mono_rel (T \<union> C)" "below v (fst r) (T \<union> C)"
      using mono_rel_Un [OF T(1) _ T(2)] below_Un [OF T(2)] v by auto
    then show ?thesis using out' Cons by (simp add: table_ok_def v_def)
  qed
qed

lemma vad_loop_table:
  "chain o1 segs hi \<Longrightarrow> table_ok down o1 out \<Longrightarrow> vad_loop down ov samples zero segs out = Some out' \<Longrightarrow>
     mono_rel (set (vo_table out'))"
proof (induction segs arbitrary: o1 out)
  case (Cons seg rest)
  let ?st = "min (cs_to_samples (fst seg)) (int (length samples) - 1)"
  let ?len = "seg_end_samples ov (int (length samples)) seg (rest = []) - ?st"
  have seg: "o1 \<le> fst seg" "fst seg \<le> snd seg" "chain (snd seg) rest hi" using Cons.prems(1) by auto
  show ?case
  proof (cases "?len > 0")
    case True
    then obtain out1 where out1: "add_segment down samples zero seg rest ?st ?len out = Some out1"
        "vad_loop down ov samples zero rest out1 = Some out'"
      using Cons.prems(3) by (auto simp: Let_def split: option.splits)
    have hd: "rest \<noteq> [] \<Longrightarrow> snd seg \<le> fst (hd rest)" using seg(3) by (cases rest) auto
    have "table_ok down (if rest = [] then snd seg else fst (hd rest)) out1"
      by (rule add_segment_table [OF Cons.prems(2) seg(1,2) True hd out1(1)])
    moreover have "chain (if rest = [] then snd seg else fst (hd rest)) rest hi"
      using seg(3) by (cases rest) auto
    ultimately show ?thesis using Cons.IH out1(2) by blast
  next
    case False
    moreover have "chain o1 rest hi" using seg chain_mono [of "snd seg" rest hi o1 hi] by simp
    ultimately show ?thesis using Cons.IH [of o1 out] Cons.prems(2,3) by (simp add: Let_def)
  qed
qed (simp add: table_ok_def)


text \<open>What the code asks of \<open>std::sort\<close> here.\<close>

definition sorts_times :: "(vad_time_mapping list \<Rightarrow> vad_time_mapping list) \<Rightarrow> bool" where
  "sorts_times sorter \<longleftrightarrow> (\<forall>T. mset (sorter T) = mset T \<and> sorted (map fst (sorter T)))"

abbreviation ascending :: "vad_time_mapping list \<Rightarrow> bool" where
  "ascending \<equiv> sorted_wrt (\<lambda>x y. fst x < fst y)"

lemma set_unique_times: "set (unique_times T) \<subseteq> set T"
  by (induction T rule: unique_times.induct) auto

lemma ascending_unique: "sorted (map fst T) \<Longrightarrow> ascending (unique_times T)"
proof (induction T rule: unique_times.induct)
  case (1 x y r)
  show ?case
  proof (cases "fst x = fst y")
    case False
    then have "fst x < fst y" "sorted (map fst (y # r))" using "1.prems" by auto
    moreover have "\<forall>z \<in> set (y # r). fst y \<le> fst z" using "1.prems" by auto
    ultimately show ?thesis using "1.IH"(2) [OF False] set_unique_times [of "y # r"] False by fastforce
  qed (use 1 in auto)
qed auto

definition table_good :: "vad_time_mapping list \<Rightarrow> bool" where
  "table_good T \<longleftrightarrow> ascending T \<and> mono_rel (set T)"

lemma table_good_sorted:
  assumes "sorts_times sorter" "mono_rel (set T)"
  shows "table_good (unique_times (sorter T))"
proof -
  have "set (sorter T) = set T" using assms(1) by (metis sorts_times_def set_mset_mset)
  then have "set (unique_times (sorter T)) \<subseteq> set T" using set_unique_times by metis
  then have "mono_rel (set (unique_times (sorter T)))"
    using assms(2) unfolding mono_rel_def by (meson subsetD)
  then show ?thesis using assms(1) ascending_unique by (simp add: table_good_def sorts_times_def)
qed

lemma table_good_nth:
  assumes "table_good T" "i < j" "j < length T"
  shows "fst (T ! i) < fst (T ! j) \<and> snd (T ! i) \<le> snd (T ! j)"
proof -
  have "fst (T ! i) < fst (T ! j)" using assms by (simp add: table_good_def sorted_wrt_iff_nth_less)
  moreover have "T ! i \<in> set T" "T ! j \<in> set T" using assms(2,3) by auto
  ultimately show ?thesis using assms(1) by (auto simp: table_good_def mono_rel_def)
qed

lemma table_good_le: "table_good T \<Longrightarrow> i \<le> j \<Longrightarrow> j < length T \<Longrightarrow> snd (T ! i) \<le> snd (T ! j)"
  using table_good_nth by (cases "i = j") (auto simp: le_less)

lemma lower_bound_facts:
  assumes "T \<noteq> []" "fst (hd T) < t" "t < fst (last T)"
  shows "0 < lower_bound t T" "lower_bound t T < length T"
    "fst (T ! (lower_bound t T - 1)) < t" "t \<le> fst (T ! lower_bound t T)"
proof -
  let ?P = "\<lambda>e. fst e < t"
  show pos: "0 < lower_bound t T" using assms by (cases T) (auto simp: lower_bound_def)
  show len: "lower_bound t T < length T"
  proof (rule ccontr)
    assume "\<not> lower_bound t T < length T"
    then have "length (takeWhile ?P T) = length T" using length_takeWhile_le [of ?P T] by (simp add: lower_bound_def)
    then have "takeWhile ?P T = T" by (metis takeWhile_eq_take take_all order_refl)
    then have "fst (last T) < t" using set_takeWhileD [of "last T" ?P T] assms(1) by simp
    then show False using assms(3) by simp
  qed
  have "T ! (lower_bound t T - 1) \<in> set (takeWhile ?P T)"
    using pos by (metis diff_less lower_bound_def nth_mem takeWhile_nth zero_less_one)
  then show "fst (T ! (lower_bound t T - 1)) < t" by (auto dest: set_takeWhileD)
  show "t \<le> fst (T ! lower_bound t T)"
    using nth_length_takeWhile [of ?P T] len by (simp add: lower_bound_def not_less)
qed

definition on_line :: "vad_time_mapping list \<Rightarrow> nat \<Rightarrow> int \<Rightarrow> int" where
  "on_line T k t = snd (T ! (k - 1)) +
     ((t - fst (T ! (k - 1))) * (snd (T ! k) - snd (T ! (k - 1)))) div (fst (T ! k) - fst (T ! (k - 1)))"

lemma map_between:
  assumes "table_good T" "T \<noteq> []" "fst (hd T) < t" "t < fst (last T)"
  defines "k \<equiv> lower_bound t T"
  shows "map_processed_to_original t T = on_line T k t"
    "snd (T ! (k - 1)) \<le> on_line T k t \<and> on_line T k t \<le> snd (T ! k)"
proof -
  note f = lower_bound_facts [OF assms(2-4), folded k_def]
  have step: "fst (T ! (k - 1)) < fst (T ! k) \<and> snd (T ! (k - 1)) \<le> snd (T ! k)"
    using table_good_nth [OF assms(1), of "k - 1" k] f by simp
  show "map_processed_to_original t T = on_line T k t"
  proof (cases "fst (T ! k) = t")
    case True
    then have "on_line T k t = snd (T ! k)" using f(3) by (auto simp: on_line_def)
    then show ?thesis using True assms(2-4) by (simp add: map_processed_to_original_def Let_def flip: k_def)
  next
    case False
    have "tdiv ((t - fst (T ! (k - 1))) * (snd (T ! k) - snd (T ! (k - 1)))) (fst (T ! k) - fst (T ! (k - 1))) =
        ((t - fst (T ! (k - 1))) * (snd (T ! k) - snd (T ! (k - 1)))) div (fst (T ! k) - fst (T ! (k - 1)))"
      using step f(3) by (intro tdiv_nonneg mult_nonneg_nonneg) auto
    then show ?thesis using False assms(2-4) step
      by (simp add: map_processed_to_original_def Let_def on_line_def flip: k_def)
  qed
  show "snd (T ! (k - 1)) \<le> on_line T k t \<and> on_line T k t \<le> snd (T ! k)"
    using line_between [of "t - fst (T ! (k - 1))" "fst (T ! k) - fst (T ! (k - 1))" "snd (T ! k) - snd (T ! (k - 1))"]
      step f by (simp add: on_line_def)
qed

lemma lower_bound_mono: "t \<le> t' \<Longrightarrow> lower_bound t T \<le> lower_bound t' T"
  by (induction T) (auto simp: lower_bound_def)

lemma map_in_range:
  assumes "table_good T" "T \<noteq> []"
  shows "snd (hd T) \<le> map_processed_to_original t T \<and> map_processed_to_original t T \<le> snd (last T)"
proof (cases "fst (hd T) < t \<and> t < fst (last T)")
  case True
  note f = lower_bound_facts [OF assms(2) conjunct1 [OF True] conjunct2 [OF True]]
  note m = map_between [OF assms conjunct1 [OF True] conjunct2 [OF True]]
  have "snd (T ! 0) \<le> snd (T ! (lower_bound t T - 1))" "snd (T ! lower_bound t T) \<le> snd (T ! (length T - 1))"
    using f by (auto intro: table_good_le [OF assms(1)])
  then show ?thesis using m assms(2) by (simp add: hd_conv_nth last_conv_nth)
next
  case False
  have "snd (T ! 0) \<le> snd (T ! (length T - 1))" using assms by (auto intro: table_good_le)
  then show ?thesis using False assms(2) by (auto simp: map_processed_to_original_def hd_conv_nth last_conv_nth)
qed

lemma map_processed_mono:
  assumes good: "table_good T" and le: "t \<le> t'"
  shows "map_processed_to_original t T \<le> map_processed_to_original t' T"
proof (cases "T = []")
  case False
  note range = map_in_range [OF good False]
  consider "t \<le> fst (hd T)" | "fst (last T) \<le> t'" | "fst (hd T) < t" "t' < fst (last T)" by linarith
  then show ?thesis
  proof cases
    case 1
    then have "map_processed_to_original t T = snd (hd T)"
      using False unfolding map_processed_to_original_def by simp
    then show ?thesis using range [of t'] by simp
  next
    case 2
    have "map_processed_to_original t' T = snd (last T)"
    proof (cases "t' \<le> fst (hd T)")
      case True
      have "\<not> fst (T ! 0) < fst (T ! (length T - 1))"
        using 2 True False by (simp add: hd_conv_nth last_conv_nth)
      then have "\<not> 0 < length T - 1" using table_good_nth [OF good, of 0 "length T - 1"] by linarith
      then have "hd T = last T" using False by (simp add: hd_conv_nth last_conv_nth)
      then show ?thesis using True False by (simp add: map_processed_to_original_def)
    qed (use 2 False in \<open>simp add: map_processed_to_original_def\<close>)
    then show ?thesis using range [of t] by simp
  next
    case 3
    let ?k = "lower_bound t T" and ?k' = "lower_bound t' T"
    have t: "fst (hd T) < t" "t < fst (last T)" and t': "fst (hd T) < t'" "t' < fst (last T)" using 3 le by auto
    note m = map_between [OF good False t] and m' = map_between [OF good False t']
    note f = lower_bound_facts [OF False t] and f' = lower_bound_facts [OF False t']
    have step: "fst (T ! (?k - 1)) < fst (T ! ?k) \<and> snd (T ! (?k - 1)) \<le> snd (T ! ?k)"
      using table_good_nth [OF good, of "?k - 1" ?k] f by simp
    show ?thesis
    proof (cases "?k = ?k'")
      case True
      have "on_line T ?k t \<le> on_line T ?k t'"
        unfolding on_line_def using step le by (intro add_left_mono line_mono) auto
      then show ?thesis using m(1) m'(1) True by simp
    next
      case False
      then have "?k \<le> ?k' - 1" using lower_bound_mono [OF le, of T] by simp
      then have "snd (T ! ?k) \<le> snd (T ! (?k' - 1))" using f' by (intro table_good_le [OF good]) auto
      then show ?thesis using m m' by simp
    qed
  qed
qed (simp add: map_processed_to_original_def le)


section \<open>The whole\<close>


text \<open>
  C17: the times reported after voice activity detection never run backwards: mapping back to original
  time is monotone, so a result that begins later in the shortened audio begins no earlier in the
  original, and every result lasts at least ten centiseconds.
\<close>

theorem vad_times_monotone:
  assumes "chain 0 segs hi" "starts_ok samples segs" "0 \<le> overlap_samples F (v_samples_overlap params)"
    and "sorts_times sorter" "whisper_vad F down sorter zero params (Some segs) samples st [] = Inr (ok, st', audio)"
    and "t \<le> t'"
  shows "segment_t0 st' t \<le> segment_t0 st' t' \<and>
    (if vs_has st' \<and> vs_table st' \<noteq> [] then segment_t0 st' t + 10 \<le> segment_t1 st' t t'
     else segment_t1 st' t t' = t')"
proof -
  have "table_good (vs_table st')"
  proof (cases "segs = []")
    case True
    then have "vs_table st' = []" using assms(5) by (auto simp: whisper_vad_def Let_def)
    then show ?thesis by (simp add: table_good_def mono_rel_def)
  next
    case False
    obtain k out where out: "vs_table st' = unique_times (sorter (vo_table out))"
      "vad_loop down (overlap_samples F (v_samples_overlap params)) samples zero segs
        \<lparr>vo_samples = replicate k zero, vo_offset = 0, vo_table = [], vo_infos = []\<rparr> = Some out"
      using whisper_vad_copies [OF assms(1) False assms(3,2), of down sorter zero st] assms(5) by auto
    have "mono_rel (set (vo_table out))"
      by (rule vad_loop_table [OF assms(1) _ out(2)]) (simp add: table_ok_def mono_rel_def below_def)
    then show ?thesis using table_good_sorted [OF assms(4)] out(1) by simp
  qed
  then show ?thesis using map_processed_mono [OF _ assms(6)] assms(6)
    by (auto simp: segment_t0_def segment_t1_def Let_def)
qed

section \<open>Witnesses\<close>

definition demo_segs :: "seg list" where
  "demo_segs = [(0, 1), (2, 3)]"

definition demo_sorter :: "vad_time_mapping list \<Rightarrow> vad_time_mapping list" where
  "demo_sorter = sort_key fst"

lemma demo_sorter_sorts: "sorts_times demo_sorter"
  by (simp add: sorts_times_def demo_sorter_def)

definition demo_fast_params :: "rat option vad_params" where
  "demo_fast_params = demo_vad_params\<lparr>v_samples_overlap := Some 0\<rparr>"

lemma demo_fast_ok: "vad_params_ok demo_fast_params 512"
  by (simp add: demo_fast_params_def demo_vad_params_def vad_default_params_def vad_params_ok_def)

lemma demo_overlap: "overlap_samples rat_ops (v_samples_overlap demo_fast_params) = 0"
  by (simp add: overlap_samples_def demo_fast_params_def rat_ops_def lift2_def whisper_sample_rate_def)


lemma demo_segs_run: "\<exists>st' k. whisper_vad rat_ops (\<lambda>_. False) demo_sorter None demo_fast_params (Some demo_segs)
      (replicate 1500 (Some 1)) \<lparr>vs_has = False, vs_infos = [], vs_table = []\<rparr> [] = Inr (True, st', k)"
  using whisper_vad_copies [of demo_segs 3 rat_ops demo_fast_params "replicate 1500 (Some 1)" "\<lambda>_. False" demo_sorter None
      "\<lparr>vs_has = False, vs_infos = [], vs_table = []\<rparr>"]
  by (auto simp: demo_segs_def demo_overlap starts_ok_def cs_to_samples_eq)

theorem vad_times_monotone_witness:
  "\<exists>st' audio. whisper_vad rat_ops (\<lambda>_. False) demo_sorter None demo_fast_params (Some demo_segs)
      (replicate 1500 (Some 1)) \<lparr>vs_has = False, vs_infos = [], vs_table = []\<rparr> [] = Inr (True, st', audio) \<and>
    segment_t0 st' 1 \<le> segment_t0 st' 2"
proof -
  obtain st' audio where run: "whisper_vad rat_ops (\<lambda>_. False) demo_sorter None demo_fast_params (Some demo_segs)
      (replicate 1500 (Some 1)) \<lparr>vs_has = False, vs_infos = [], vs_table = []\<rparr> [] = Inr (True, st', audio)"
    using demo_segs_run by blast
  have "chain 0 demo_segs 3" "starts_ok (replicate 1500 (Some (1 :: rat))) demo_segs"
    by (auto simp: demo_segs_def starts_ok_def cs_to_samples_eq)
  then have "segment_t0 st' 1 \<le> segment_t0 st' 2"
    using vad_times_monotone [OF _ _ _ demo_sorter_sorts run, of 3 1 2] by (simp add: demo_overlap)
  then show ?thesis using run by blast
qed

definition short_params :: "rat option vad_params" where
  "short_params = (vad_default_params rat_ops (Some 1000000))
     \<lparr>v_min_speech_ms := 0, v_speech_pad_ms := 0, v_samples_overlap := Some 0\<rparr>"

lemma short_segments:
  "vad_segments_from_probs rat_ops (\<lambda>_. False) short_params 512 [Some 0, Some 0, Some 0, Some 1] = [(10, 13)]"
  by (simp add: vad_segments_from_probs_def vad_sample_segments_def vad_limits_of_def Let_def short_params_def
      vad_default_params_def rat_ops_def rat_lt_def lift2_def neg_threshold_def scan_step_def start_speech_def
      back_to_speech_def limit_speech_def end_speech_def scan_init_def close_scan_def drop_short_def
      pad_first_def pad_start_def pad_end_def whisper_sample_rate_def max_speech_samples_def vad_int_max_def
      tdiv_def samples_to_cs_def)

text \<open>
  With no minimal length of speech and no padding the copy can fail.  A segment that starts in the last
  frame of the network may, after its conversion to centiseconds and back, begin past the last sample; the
  first pass then subtracts what the second does not, and the size asked for is negative.
\<close>

theorem vad_short_speech_fails:
  "frames_cover 512 4 1537 \<and>
   whisper_vad rat_ops (\<lambda>_. False) sorter zero short_params
     (Some (vad_segments_from_probs rat_ops (\<lambda>_. False) short_params 512 [Some 0, Some 0, Some 0, Some 1]))
     (replicate 1537 x) st [] = Inl Length_Error"
  unfolding short_segments
  by (simp add: frames_cover_def whisper_vad_def Let_def total_samples_needed_def seg_end_samples_def cs_to_samples_eq
      overlap_samples_def)

end
