(* ===== verification/Vad_Speech.thy ===== *)
theory Vad_Speech
  imports Vad_Filter
begin

text \<open>
  \<open>whisper_vad_detect_speech\<close> and \<open>whisper_vad_segments_from_samples\<close> of \<open>src/src/whisper.cpp\<close>: the audio is cut into
  windows, each window goes through the network, and the network's state is carried from one to the next.  The
  network, the scheduler and the model file are parameters.
\<close>

section \<open>The windows\<close>

text \<open>
  \<open>ve_net\<close> gives the probability of a window and the next state of the network, unless its graph cannot be
  computed; \<open>ve_start\<close> is the cleared state; \<open>ve_on\<close> is \<open>params.vad\<close> and \<open>ve_load\<close> tells whether the model can be loaded.
\<close>

record ('f, 'w) vad_env =
  ve_on :: bool
  ve_load :: bool
  ve_n_window :: nat
  ve_start :: 'w
  ve_alloc :: bool
  ve_net :: "'f list \<Rightarrow> 'w \<Rightarrow> ('f \<times> 'w) option"
  ve_params :: "'f vad_params"
  ve_down :: "int \<Rightarrow> bool"
  ve_sort :: "vad_time_mapping list \<Rightarrow> vad_time_mapping list"

definition n_chunks :: "nat \<Rightarrow> nat \<Rightarrow> nat" where
  "n_chunks n_window n = n div n_window + (if n mod n_window \<noteq> 0 then 1 else 0)"

text \<open>The last window is filled up with zeros.\<close>

definition chunk_window :: "'f \<Rightarrow> nat \<Rightarrow> 'f list \<Rightarrow> nat \<Rightarrow> 'f list" where
  "chunk_window zero n_window samples i =
     (let c = take n_window (drop (i * n_window) samples) in c @ replicate (n_window - length c) zero)"

text \<open>The loop leaves at the first failure; \<open>k\<close> windows are left, \<open>i\<close> is the next one.\<close>

fun detect_loop :: "('f list \<Rightarrow> 'w \<Rightarrow> ('f \<times> 'w) option) \<Rightarrow> 'f \<Rightarrow> nat \<Rightarrow> 'f list \<Rightarrow> nat \<Rightarrow> nat \<Rightarrow> 'w \<Rightarrow> 'f list \<Rightarrow> 'f list" where
  "detect_loop net zero n_window samples 0 i s probs = probs"
| "detect_loop net zero n_window samples (Suc k) i s probs =
     (case net (chunk_window zero n_window samples i) s of
        None \<Rightarrow> probs
      | Some (p, s') \<Rightarrow> detect_loop net zero n_window samples k (Suc i) s' (probs[i := p]))"

text \<open>The boolean returned and the probabilities, which are kept in the context; a window of no samples divides by zero.\<close>

definition detect_speech :: "('f, 'w) vad_env \<Rightarrow> 'f \<Rightarrow> 'f list \<Rightarrow> 'f list \<Rightarrow> (bool \<times> 'f list) option" where
  "detect_speech V zero samples probs =
     (if ve_n_window V = 0 then None
      else let n = n_chunks (ve_n_window V) (length samples);
               probs0 = take n probs @ replicate (n - length probs) zero
           in if \<not> ve_alloc V then Some (False, probs0)
              else Some (True, detect_loop (ve_net V) zero (ve_n_window V) samples n 0 (ve_start V) probs0))"

text \<open>\<open>whisper_vad_segments_from_samples\<close>; the inner \<^term>\<open>None\<close> is the null pointer.\<close>

definition segments_from_samples :: "'f float_ops \<Rightarrow> ('f, 'w) vad_env \<Rightarrow> 'f list \<Rightarrow> 'f list \<Rightarrow> (seg list option \<times> 'f list) option" where
  "segments_from_samples F V samples probs =
     map_option (\<lambda>(ok, probs1).
         (if ok then Some (vad_segments_from_probs F (ve_down V) (ve_params V) (int (ve_n_window V)) probs1) else None, probs1))
       (detect_speech V (fl_zero F) samples probs)"

section \<open>What the probabilities are\<close>

text \<open>The windows together are the audio, filled up with zeros.\<close>

lemma windows_cover:
  assumes "0 < w"
  shows "concat (map (chunk_window zero w samples) [0 ..< n_chunks w (length samples)]) =
    samples @ replicate (n_chunks w (length samples) * w - length samples) zero"
proof -
  let ?n = "n_chunks w (length samples)"
  define padded where "padded = samples @ replicate (?n * w - length samples) zero"
  have whole: "concat (map (chunk_window zero w samples) [0 ..< k]) = take (k * w) padded"
    if "k \<le> ?n" for k
    using that
  proof (induction k)
    case (Suc k)
    have "k * w + w \<le> ?n * w" using mult_le_mono1 [OF Suc.prems, of w] by simp
    then have "chunk_window zero w samples k = take w (drop (k * w) padded)"
      by (auto simp: chunk_window_def padded_def Let_def min_def)
    then show ?case using Suc take_add [of "k * w" w padded] by (simp add: add.commute)
  qed simp
  have "length samples \<le> ?n * w"
  proof (cases "length samples mod w = 0")
    case False
    have "length samples div w * w + length samples mod w = length samples" by (rule div_mult_mod_eq)
    moreover have "length samples mod w < w" using assms by simp
    ultimately have "length samples \<le> length samples div w * w + w" by linarith
    then show ?thesis using False by (simp add: n_chunks_def)
  qed (simp add: n_chunks_def mod_0_imp_dvd)
  then show ?thesis using whole [OF order_refl] by (simp add: padded_def)
qed

text \<open>The states of the network along the windows, as long as it does not fail.\<close>

fun net_run :: "('f list \<Rightarrow> 'w \<Rightarrow> ('f \<times> 'w) option) \<Rightarrow> 'f list list \<Rightarrow> 'w \<Rightarrow> 'f list" where
  "net_run net [] s = []"
| "net_run net (x # xs) s = (case net x s of None \<Rightarrow> [] | Some (p, s') \<Rightarrow> p # net_run net xs s')"

lemma detect_loop_run:
  "i + k \<le> length probs \<Longrightarrow>
     (let r = net_run net (map (chunk_window zero w samples) [i ..< i + k]) s
      in detect_loop net zero w samples k i s probs = take i probs @ r @ drop (i + length r) probs)"
proof (induction k arbitrary: i s probs)
  case (Suc k)
  have l: "[i ..< Suc (i + k)] = i # [Suc i ..< Suc (i + k)]" by (simp add: upt_conv_Cons)
  show ?case
  proof (cases "net (chunk_window zero w samples i) s")
    case (Some q)
    obtain p s' where q: "q = (p, s')" by force
    have i: "i < length probs" using Suc.prems by simp
    show ?thesis using Suc.IH [of "Suc i" "probs[i := p]" s'] Suc.prems i
      by (simp add: l Some q Let_def take_Suc_conv_app_nth del: upt_Suc)
  qed (simp add: l del: upt_Suc)
qed simp

text \<open>
  The probabilities are those that the network gives along the windows, which together are the audio
  filled up with zeros.  When the network fails at a window, the call still succeeds, and from that window on the
  probabilities are what an earlier call left there, or zero.
\<close>

theorem detect_speech_probs:
  assumes "0 < ve_n_window V" "ve_alloc V" "n = n_chunks (ve_n_window V) (length samples)"
    and "r = net_run (ve_net V) (map (chunk_window zero (ve_n_window V) samples) [0 ..< n]) (ve_start V)"
  shows "detect_speech V zero samples probs =
      Some (True, r @ drop (length r) (take n probs @ replicate (n - length probs) zero)) \<and>
    concat (map (chunk_window zero (ve_n_window V) samples) [0 ..< n]) =
      samples @ replicate (n * ve_n_window V - length samples) zero"
  using detect_loop_run [of 0 n "take n probs @ replicate (n - length probs) zero" "ve_net V" zero "ve_n_window V" samples "ve_start V"]
    windows_cover [OF assms(1), of zero samples] assms
  by (simp add: detect_speech_def Let_def)

definition demo_vad_env :: "(rat option, nat) vad_env" where
  "demo_vad_env = \<lparr>ve_on = True, ve_load = True, ve_n_window = 2, ve_start = 0, ve_alloc = True,
     ve_net = (\<lambda>xs k. if k < 1 then Some (hd xs, k + 1) else None), ve_params = vad_default_params rat_ops None,
     ve_down = (\<lambda>i. False), ve_sort = id\<rparr>"

lemma demo_vad_run:
  "net_run (ve_net demo_vad_env) (map (chunk_window (Some 0) (ve_n_window demo_vad_env) [Some 1, Some 2, Some 3]) [0 ..< 2])
     (ve_start demo_vad_env) = [Some 1]"
  by (simp add: demo_vad_env_def chunk_window_def numeral_2_eq_2)

theorem detect_speech_probs_witness:
  "detect_speech demo_vad_env (Some 0) [Some 1, Some 2, Some 3] [Some 7, Some 8, Some 9] = Some (True, [Some 1, Some 8])"
proof -
  have n: "2 = n_chunks (ve_n_window demo_vad_env) (length [Some 1, Some 2, Some (3 :: rat)])"
    by (simp add: n_chunks_def demo_vad_env_def)
  have "0 < ve_n_window demo_vad_env" "ve_alloc demo_vad_env" by (simp_all add: demo_vad_env_def)
  from detect_speech_probs [OF this n demo_vad_run [symmetric], of "[Some 7, Some 8, Some 9]"] show ?thesis
    by (simp add: numeral_2_eq_2)
qed

end
