(* ===== verification/Whisper_Full.thy ===== *)
theory Whisper_Full
  imports Transcribe_Safe Vad_Speech
begin

text \<open>
  The entry points of \<open>src/src/whisper.cpp\<close> around \<open>whisper_full_with_state\<close>: \<open>whisper_init_state\<close>, \<open>whisper_full\<close> with
  or without voice activity detection, and \<open>whisper_full_parallel\<close>, which splits the audio among states of their own
  and puts the results together.
\<close>

section \<open>A new state\<close>

text \<open>
  What the allocation of a state depends on.  A state is made by \<open>new\<close>: the members without an initialiser, among them
  the sizes of the spectrogram and the counters of the decoders, hold what the memory held before.
\<close>

record ('f, 'd, 'r, 't) init_env =
  ie_backends :: bool
  ie_kv_cross :: bool
  ie_kv_pad :: bool
  ie_masks :: bool
  ie_scheds :: "bool list"
  ie_n_text_head :: int
  ie_seed :: "nat \<Rightarrow> 'r"
  ie_rng :: 'r
  ie_old_decoder :: "nat \<Rightarrow> ('f, 'd, 'r) decoder"
  ie_old_mel :: "'f mel"
  ie_old_tid :: int
  ie_world :: 't

definition fresh_decoder :: "('f, 'd, 'r, 't) init_env \<Rightarrow> nat \<Rightarrow> ('f, 'd, 'r) decoder" where
  "fresh_decoder I j =
     (let d = ie_old_decoder I j
      in d\<lparr>d_sequence := (d_sequence d)\<lparr>sq_tokens := []\<rparr>, d_grammar := (d_grammar d)\<lparr>g_rules := [], g_stacks := []\<rparr>,
           d_probs := \<lparr>pr_logits = [], pr_logprobs = [], pr_probs = []\<rparr>,
           d_rng := (if j = 0 then ie_seed I 0 else ie_rng I)\<rparr>)"

definition fresh_state :: "('f, 'd, 'r, 't) full_env \<Rightarrow> ('f, 'd, 'r, 't) init_env \<Rightarrow> nat \<Rightarrow> ('f, 'd, 'r, 't) wstate" where
  "fresh_state E I n_kv =
     \<lparr>ws_decoders = map (fresh_decoder I) [0 ..< 8], ws_kv = kv_cache_init n_kv, ws_kv_n_dec = 1, ws_logits = [],
      ws_no_speech = fl_zero (flt_of E), ws_past0 = [], ws_past1 = [], ws_result = [], ws_calls = [], ws_progress = [],
      ws_lang_id = 0, ws_exp_audio_ctx = 0, ws_mel = (ie_old_mel I)\<lparr>ml_data := []\<rparr>, ws_energy = [],
      ws_clock = \<lparr>tc_beg = 0, tc_last = 0, tc_tid_last = ie_old_tid I\<rparr>, ws_n_decode = 0, ws_n_batchd = 0,
      ws_n_prompt = 0, ws_n_sample = 0, ws_n_fail_p = 0, ws_n_fail_h = 0, ws_world = ie_world I\<rparr>"

text \<open>The outer \<^term>\<open>None\<close> is an exception, the inner one the null pointer.\<close>

definition init_state :: "('f, 'd, 'r, 't) full_env \<Rightarrow> ('f, 'd, 'r, 't) init_env \<Rightarrow> ('f, 'd, 'r, 't) wstate option option" where
  "init_state E I =
     (let n_kv = ggml_pad (nat (n_text_ctx E)) 256
      in if \<not> ie_backends I \<or> \<not> fe_alloc E n_kv \<or> \<not> ie_kv_cross I \<or> \<not> ie_kv_pad I then Some None
         else case (if fe_dtw E then aheads_masks_init (fe_aheads E) (fe_n_text_layer E) (ie_n_text_head I) (ie_masks I)
                    else Some (Some [])) of
             None \<Rightarrow> None
           | Some None \<Rightarrow> Some None
           | Some (Some masks) \<Rightarrow> Some (if list_all id (ie_scheds I) then Some (fresh_state E I n_kv) else None))"

section \<open>The call with voice activity detection\<close>

text \<open>The state of a context with what the detection keeps: its table, the probabilities, and whether its model is loaded.\<close>

record ('f, 'd, 'r, 't) ctx_state =
  cx_full :: "('f, 'd, 'r, 't) wstate"
  cx_vad :: vad_state
  cx_probs :: "'f list"
  cx_loaded :: bool

definition run_vad :: "'f float_ops \<Rightarrow> ('f, 'w) vad_env \<Rightarrow> 'f list \<Rightarrow> ('f, 'd, 'r, 't) ctx_state
    \<Rightarrow> (bool \<times> ('f, 'd, 'r, 't) ctx_state \<times> 'f list) option" where
  "run_vad F V samples cx =
     (if \<not> cx_loaded cx \<and> \<not> ve_load V
      then Some (False, cx\<lparr>cx_vad := (cx_vad cx)\<lparr>vs_table := [], vs_has := False\<rparr>\<rparr>, [])
      else Option.bind (segments_from_samples F V samples (cx_probs cx)) (\<lambda>(segs, probs).
        case whisper_vad F (ve_down V) (ve_sort V) (fl_zero F) (ve_params V) segs samples (cx_vad cx) [] of
          Inl e \<Rightarrow> None
        | Inr (ok, vs, out) \<Rightarrow> Some (ok, cx\<lparr>cx_vad := vs, cx_probs := probs, cx_loaded := True\<rparr>, out)))"

fun map_outcome :: "('a \<Rightarrow> 'b) \<Rightarrow> ('a, 'a) outcome \<Rightarrow> ('b, 'b) outcome" where
  "map_outcome f (Done x) = Done (f x)"
| "map_outcome f (Fail c x) = Fail c (f x)"
| "map_outcome f Bad = Bad"

definition on_full :: "('f, 'd, 'r, 't) ctx_state \<Rightarrow> (('f, 'd, 'r, 't) wstate, ('f, 'd, 'r, 't) wstate) outcome
    \<Rightarrow> (('f, 'd, 'r, 't) ctx_state, ('f, 'd, 'r, 't) ctx_state) outcome" where
  "on_full cx = map_outcome (\<lambda>st. cx\<lparr>cx_full := st\<rparr>)"

definition whisper_full :: "('f, 'd, 'r, 't) full_env \<Rightarrow> ('f, 'w) vad_env \<Rightarrow> 'f full_params \<Rightarrow> (nat \<Rightarrow> 'r) \<Rightarrow> nat \<times> nat
    \<Rightarrow> 'f list \<Rightarrow> ('f, 'd, 'r, 't) ctx_state \<Rightarrow> (('f, 'd, 'r, 't) ctx_state, ('f, 'd, 'r, 't) ctx_state) outcome option" where
  "whisper_full E V P seed bounds samples cx =
     (if ve_on V
      then (case run_vad (flt_of E) V samples cx of
              None \<Rightarrow> Some Bad
            | Some (ok, cx1, out) \<Rightarrow>
                (if \<not> ok then Some (Fail (-1) cx1)
                 else if out = [] then Some (Done (cx1\<lparr>cx_full := (cx_full cx1)\<lparr>ws_result := []\<rparr>\<rparr>))
                 else map_option (on_full cx1) (full_with_state E P seed bounds out (cx_full cx1))))
      else map_option (on_full cx) (full_with_state E P seed bounds samples (cx_full cx)))"

section \<open>The call with several processors\<close>

text \<open>A product of two \<open>int\<close>s; \<^term>\<open>None\<close> is the overflow, which is undefined.\<close>

definition mul32 :: "int \<Rightarrow> int \<Rightarrow> int option" where
  "mul32 a b = (if - (2 ^ 31) \<le> a * b \<and> a * b < 2 ^ 31 then Some (a * b) else None)"

text \<open>The first sample, the samples per processor, and the times by which the results of the others are moved.\<close>

definition split_audio :: "int \<Rightarrow> int \<Rightarrow> int \<Rightarrow> (int \<times> int \<times> int list) option" where
  "split_audio n offset_ms n_processors =
     Option.bind (mul32 16000 offset_ms) (\<lambda>m.
       let off = tdiv m 1000; per = tdiv (n - off) n_processors
       in map_option (\<lambda>shifts. (off, per, shifts))
            (those (map (\<lambda>i. Option.bind (mul32 i per) (\<lambda>p. map_option (\<lambda>x. tdiv x 16000 + tdiv offset_ms 10) (mul32 100 p)))
              [1 .. n_processors - 1])))"

text \<open>The part of the audio that a call gets; a length that is not positive reads nothing.\<close>

definition chunk_of :: "'f list \<Rightarrow> int \<Rightarrow> int \<Rightarrow> 'f list option" where
  "chunk_of samples start len =
     (if len \<le> 0 then Some [] else if start < 0 then None else mem_read samples (nat start) (nat len))"

fun state_of :: "('s, 's) outcome \<Rightarrow> 's option" where
  "state_of (Done s) = Some s"
| "state_of (Fail c s) = Some s"
| "state_of Bad = None"

text \<open>A worker; what it returns is not looked at.  The outer \<^term>\<open>None\<close> is not having ended.\<close>

definition worker :: "('f, 'd, 'r, 't) full_env \<Rightarrow> 'f full_params \<Rightarrow> (nat \<Rightarrow> 'r) \<Rightarrow> nat \<times> nat \<Rightarrow> (nat \<Rightarrow> ('f, 'd, 'r, 't) init_env)
    \<Rightarrow> 'f list \<Rightarrow> int \<Rightarrow> int \<Rightarrow> int \<Rightarrow> nat \<Rightarrow> ('f, 'd, 'r, 't) wstate option option" where
  "worker E P seed bounds I samples off per n_processors i =
     (let start = off + (int i + 1) * per;
          len = (if int i = n_processors - 2 then int (length samples) - start else per)
      in case (init_state E (I i), chunk_of samples start len) of
           (Some (Some s0), Some xs) \<Rightarrow> map_option state_of (full_with_state E (P\<lparr>fp_offset_ms := 0\<rparr>) seed bounds xs s0)
         | _ \<Rightarrow> Some None)"

fun add_segments :: "int \<Rightarrow> 'f segment list \<Rightarrow> 'f segment list \<Rightarrow> 'f segment list" where
  "add_segments shift acc [] = acc"
| "add_segments shift acc (s # ss) =
     (let t0 = sg_t0 s + shift;
          s1 = s\<lparr>sg_t0 := (if acc = [] then t0 else max t0 (sg_t1 (last acc))), sg_t1 := sg_t1 s + shift\<rparr>
      in add_segments shift (acc @ [s1]) ss)"

definition add_state :: "int \<times> ('f, 'd, 'r, 't) wstate \<Rightarrow> ('f, 'd, 'r, 't) wstate \<Rightarrow> ('f, 'd, 'r, 't) wstate" where
  "add_state sw st =
     (let (shift, w) = sw
      in st\<lparr>ws_result := add_segments shift (ws_result st) (ws_result w),
            ws_calls := ws_calls st @ replicate (length (ws_result w)) 1,
            ws_n_sample := ws_n_sample st + ws_n_sample w, ws_n_decode := ws_n_decode st + ws_n_decode w,
            ws_n_batchd := ws_n_batchd st + ws_n_batchd w, ws_n_prompt := ws_n_prompt st + ws_n_prompt w\<rparr>)"

text \<open>
  The workers have states of their own and share only what no one writes, so they are run here one after another.
  Without a processor the division or the vector of workers fails.
\<close>

definition parallel_run :: "('f, 'd, 'r, 't) full_env \<Rightarrow> 'f full_params \<Rightarrow> (nat \<Rightarrow> 'r) \<Rightarrow> nat \<times> nat \<Rightarrow> (nat \<Rightarrow> ('f, 'd, 'r, 't) init_env)
    \<Rightarrow> 'f list \<Rightarrow> int \<Rightarrow> ('f, 'd, 'r, 't) wstate \<Rightarrow> (('f, 'd, 'r, 't) wstate, ('f, 'd, 'r, 't) wstate) outcome option" where
  "parallel_run E P seed bounds I samples n_processors st =
     (if n_processors < 1 then Some Bad
      else case split_audio (int (length samples)) (fp_offset_ms P) n_processors of
          None \<Rightarrow> Some Bad
        | Some (off, per, shifts) \<Rightarrow>
            (case chunk_of samples 0 (off + per) of
               None \<Rightarrow> Some Bad
             | Some xs \<Rightarrow>
                 Option.bind (full_with_state E P seed bounds xs st) (\<lambda>r.
                 map_option (\<lambda>ws.
                     case those ws of
                       None \<Rightarrow> Bad
                     | Some sts \<Rightarrow> map_outcome (fold add_state (zip shifts sts)) r)
                   (those (map (worker E P seed bounds I samples off per n_processors) [0 ..< nat (n_processors - 1)])))))"

definition whisper_full_parallel :: "('f, 'd, 'r, 't) full_env \<Rightarrow> ('f, 'w) vad_env \<Rightarrow> 'f full_params \<Rightarrow> (nat \<Rightarrow> 'r) \<Rightarrow> nat \<times> nat
    \<Rightarrow> (nat \<Rightarrow> ('f, 'd, 'r, 't) init_env) \<Rightarrow> 'f list \<Rightarrow> int \<Rightarrow> ('f, 'd, 'r, 't) ctx_state
    \<Rightarrow> (('f, 'd, 'r, 't) ctx_state, ('f, 'd, 'r, 't) ctx_state) outcome option" where
  "whisper_full_parallel E V P seed bounds I samples n_processors cx =
     (if n_processors = 1 then whisper_full E V P seed bounds samples cx
      else if ve_on V
      then (case run_vad (flt_of E) V samples cx of
              None \<Rightarrow> Some Bad
            | Some (ok, cx1, out) \<Rightarrow>
                (if \<not> ok then Some (Fail (-1) cx1)
                 else if out = [] then Some (Done cx1)
                 else map_option (on_full cx1) (parallel_run E P seed bounds I out n_processors (cx_full cx1))))
      else map_option (on_full cx) (parallel_run E P seed bounds I samples n_processors (cx_full cx)))"

text \<open>The times of a segment as the caller of the library reads them.\<close>

definition full_segment_times :: "('f, 'd, 'r, 't) ctx_state \<Rightarrow> nat \<Rightarrow> int \<times> int" where
  "full_segment_times cx i =
     (let s = ws_result (cx_full cx) ! i in (segment_t0 (cx_vad cx) (sg_t0 s), segment_t1 (cx_vad cx) (sg_t0 s) (sg_t1 s)))"

section \<open>Putting the results together\<close>

lemma those_eq_Some: "those xs = Some ys \<longleftrightarrow> xs = map Some ys"
  by (induction xs arbitrary: ys) (auto split: option.splits)

lemma those_eq_None: "those xs = None \<longleftrightarrow> None \<in> set xs"
  by (induction xs) (auto split: option.splits)

text \<open>From index \<open>n\<close> on no segment starts before the one in front of it ends.\<close>

definition joined :: "nat \<Rightarrow> 'f segment list \<Rightarrow> bool" where
  "joined n xs \<longleftrightarrow> (\<forall>k. n \<le> k \<and> 0 < k \<and> k < length xs \<longrightarrow> sg_t1 (xs ! (k - 1)) \<le> sg_t0 (xs ! k))"

lemma joined_snoc: "joined n xs \<Longrightarrow> xs \<noteq> [] \<longrightarrow> sg_t1 (last xs) \<le> sg_t0 s \<Longrightarrow> joined n (xs @ [s])"
  by (auto simp: joined_def nth_append last_conv_nth less_Suc_eq)

lemma add_segments_spec:
  "joined n acc \<Longrightarrow> \<exists>new. add_segments shift acc ss = acc @ new \<and> map sg_text new = map sg_text ss \<and>
     map sg_tokens new = map sg_tokens ss \<and> joined n (acc @ new)"
proof (induction ss arbitrary: acc)
  case (Cons s ss)
  define s1 where "s1 = s\<lparr>sg_t0 := (if acc = [] then sg_t0 s + shift else max (sg_t0 s + shift) (sg_t1 (last acc))),
      sg_t1 := sg_t1 s + shift\<rparr>"
  have "joined n (acc @ [s1])" by (rule joined_snoc [OF Cons.prems]) (simp add: s1_def)
  then obtain new where "add_segments shift (acc @ [s1]) ss = (acc @ [s1]) @ new" "map sg_text new = map sg_text ss"
    "map sg_tokens new = map sg_tokens ss" "joined n ((acc @ [s1]) @ new)"
    using Cons.IH by blast
  then show ?case by (intro exI [of _ "s1 # new"]) (simp add: s1_def [symmetric] Let_def, simp add: s1_def)
qed simp

lemma add_states_spec:
  "length shifts = length sts \<Longrightarrow> joined n (ws_result st) \<Longrightarrow> st' = fold add_state (zip shifts sts) st \<Longrightarrow>
     map sg_text (ws_result st') = map sg_text (ws_result st) @ concat (map (\<lambda>w. map sg_text (ws_result w)) sts) \<and>
     map sg_tokens (ws_result st') = map sg_tokens (ws_result st) @ concat (map (\<lambda>w. map sg_tokens (ws_result w)) sts) \<and>
     joined n (ws_result st') \<and>
     ws_calls st' = ws_calls st @ replicate (sum_list (map (\<lambda>w. length (ws_result w)) sts)) 1"
proof (induction shifts sts arbitrary: st rule: list_induct2)
  case (Cons shift shifts w sts)
  obtain new where new: "add_segments shift (ws_result st) (ws_result w) = ws_result st @ new"
    "map sg_text new = map sg_text (ws_result w)" "map sg_tokens new = map sg_tokens (ws_result w)" "joined n (ws_result st @ new)"
    using add_segments_spec [OF Cons.prems(1)] by blast
  have r: "ws_result (add_state (shift, w) st) = ws_result st @ new"
    "ws_calls (add_state (shift, w) st) = ws_calls st @ replicate (length (ws_result w)) 1"
    using new(1) by (simp_all add: add_state_def)
  show ?case using Cons.IH [of "add_state (shift, w) st"] Cons.prems(2) new(2-4) r by (simp add: replicate_add)
qed simp

lemma split_audio_shifts:
  assumes "split_audio n offset_ms n_processors = Some (off, per, shifts)"
  shows "length shifts = nat (n_processors - 1)"
  using assms
  by (auto simp: split_audio_def Let_def bind_eq_Some_conv those_eq_Some dest: map_eq_imp_length_eq [where g = Some] arg_cong [where f = length])


section \<open>The parallel call returns\<close>

lemma env_ok_offset: "env_ok E (P\<lparr>fp_offset_ms := n\<rparr>) = env_ok E P"
  by (simp add: env_ok_def max_prompt_ctx_def)

lemma worker_returns:
  assumes "env_ok E P" "0 < fp_n_threads P" "init_state E (I i) = Some (Some s0)"
    and "temperatures (flt_of E) (fst bounds) (fp_temperature P) (fp_temperature_inc P) = Some temps" "temps \<noteq> []"
    and "tdiv (fp_duration_ms P) 10 < int (snd bounds)" "int (length samples) div 160 + 1 < int (snd bounds)"
    and "start = off + (int i + 1) * per" "len = (if int i = n_processors - 2 then int (length samples) - start else per)"
    and "0 \<le> start" "200 < len" "start + len \<le> int (length samples)"
  shows "\<exists>w. worker E P seed bounds I samples off per n_processors i = Some (Some w)"
proof -
  let ?P = "P\<lparr>fp_offset_ms := 0\<rparr>"
  let ?xs = "take (nat len) (drop (nat start) samples)"
  have c: "chunk_of samples start len = Some ?xs" using assms(10-12) by (simp add: chunk_of_def mem_read_def)
  have l: "length ?xs = nat len" using assms(10-12) by simp
  have s0: "length (ws_decoders s0) = 8" "past0_ok E ?P (ws_past0 s0)"
    using assms(3) by (auto simp: init_state_def fresh_state_def past0_ok_def Let_def split: if_splits option.splits)
  have "int (length ?xs) div 160 \<le> int (length samples) div 160" by (intro zdiv_mono1) (use l assms(10-12) in simp_all)
  moreover have "?xs \<noteq> []" "200 < length ?xs" using l assms(11) by (auto simp del: length_take length_drop)
  ultimately have "audio_ok E ?P ?xs (ws_mel s0) (snd bounds)" using assms(2,7) by (simp add: audio_ok_def del: length_take length_drop take_eq_Nil)
  moreover have b: "0 < snd bounds" using assms(7) by (cases "snd bounds") auto
  ultimately obtain r where r: "full_with_state E ?P seed bounds ?xs s0 = Some r" "r \<noteq> Bad"
    using full_with_state_returns [of E ?P s0 ?xs bounds temps seed] s0 assms(1,4-7) by (auto simp: env_ok_offset)
  have "worker E P seed bounds I samples off per n_processors i = Some (state_of r)"
    unfolding worker_def Let_def assms(8) [symmetric] assms(9) [symmetric] assms(3) c by (simp add: r(1))
  moreover have "\<exists>w. state_of r = Some w" using r(2) by (cases r) auto
  ultimately show ?thesis by simp
qed

lemma parts_inside:
  assumes "1 \<le> n_processors" "0 \<le> n" "0 \<le> i" "i \<le> n_processors - 1"
  shows "0 \<le> i * (n div n_processors)" "i * (n div n_processors) + n div n_processors \<le> (n :: int)"
proof -
  have per: "0 \<le> n div n_processors" using assms(1,2) by (simp add: pos_imp_zdiv_nonneg_iff)
  then show "0 \<le> i * (n div n_processors)" using assms(3) by simp
  have "n_processors * (n div n_processors) + n mod n_processors = n" by (rule mult_div_mod_eq)
  moreover have "0 \<le> n mod n_processors" using assms(1) by simp
  moreover have "(i + 1) * (n div n_processors) \<le> n_processors * (n div n_processors)"
    by (rule mult_right_mono) (use assms(4) per in simp_all)
  ultimately show "i * (n div n_processors) + n div n_processors \<le> n" unfolding distrib_right by linarith
qed

lemma split_audio_defined:
  assumes "2 \<le> n_processors" "0 \<le> n" "100 * n < 2 ^ 31"
  shows "\<exists>shifts. split_audio n 0 n_processors = Some (0, n div n_processors, shifts)"
proof -
  let ?per = "n div n_processors"
  let ?f = "\<lambda>i. Option.bind (mul32 i ?per) (\<lambda>p. map_option (\<lambda>x. tdiv x 16000 + 0) (mul32 100 p))"
  have per: "0 \<le> ?per" using assms(1,2) by (simp add: pos_imp_zdiv_nonneg_iff)
  have "?f i \<noteq> None" if "i \<in> {1 .. n_processors - 1}" for i
  proof -
    have "0 \<le> i * ?per" "i * ?per \<le> n" using parts_inside [of n_processors n i] that assms(1,2) per by simp_all
    then show ?thesis using assms(2,3) by (simp add: mul32_def)
  qed
  then have "None \<notin> set (map ?f [1 .. n_processors - 1])" unfolding set_map set_upto by (metis (no_types, lifting) imageE)
  then obtain shifts where "those (map ?f [1 .. n_processors - 1]) = Some shifts" unfolding those_eq_None [symmetric] by blast
  moreover have "tdiv n n_processors = ?per" using assms(1,2) by (simp add: tdiv_nonneg)
  moreover have "mul32 16000 0 = Some 0" "tdiv 0 1000 = (0 :: int)" "tdiv 0 10 = (0 :: int)" by (simp_all add: mul32_def tdiv_def)
  ultimately show ?thesis by (simp add: split_audio_def)
qed


section \<open>Where the split goes wrong\<close>

text \<open>
  The times of the later parts are computed in \<open>int\<close>: when the last part begins behind sample 21474836
  (22 minutes and 22 seconds), the product with 100 overflows.
\<close>

theorem parallel_overflows:
  assumes "2 \<le> n_processors" "fp_offset_ms P = 0" "21474836 < (n_processors - 1) * (int (length samples) div n_processors)"
  shows "parallel_run E P seed bounds I samples n_processors st = Some Bad"
proof -
  let ?per = "tdiv (int (length samples)) n_processors"
  have per: "?per = int (length samples) div n_processors" using assms(1) by (simp add: tdiv_nonneg)
  have "those (map (\<lambda>i. Option.bind (mul32 i ?per) (\<lambda>p. map_option (\<lambda>x. tdiv x 16000 + 0) (mul32 100 p))) [1 .. n_processors - 1]) = None"
    unfolding those_eq_None set_map
  proof (rule image_eqI)
    show "n_processors - 1 \<in> set [1 .. n_processors - 1]" using assms(1) by simp
    show "None = Option.bind (mul32 (n_processors - 1) ?per) (\<lambda>p. map_option (\<lambda>x. tdiv x 16000 + 0) (mul32 100 p))"
      using assms(3) by (simp add: mul32_def per)
  qed
  moreover have "mul32 16000 0 = Some 0" "tdiv 0 1000 = (0 :: int)" "tdiv 0 10 = (0 :: int)" by (simp_all add: mul32_def tdiv_def)
  ultimately have "split_audio (int (length samples)) (fp_offset_ms P) n_processors = None"
    by (simp add: split_audio_def assms(2))
  then show ?thesis by (simp add: parallel_run_def)
qed

text \<open>
  An offset behind the end of the audio makes the first part longer than the audio, which is then read
  beyond its end.
\<close>

theorem parallel_offset_overread:
  assumes "2 \<le> n_processors" "int (length samples) < 16 * fp_offset_ms P" "0 < fp_offset_ms P"
  shows "parallel_run E P seed bounds I samples n_processors st = Some Bad"
proof (cases "split_audio (int (length samples)) (fp_offset_ms P) n_processors")
  case None
  then show ?thesis by (simp add: parallel_run_def)
next
  case (Some q)
  obtain off per shifts where q: "q = (off, per, shifts)" by (cases q)
  let ?n = "int (length samples)"
  have off: "off = 16 * fp_offset_ms P"
    using Some q assms(3) by (auto simp: split_audio_def Let_def bind_eq_Some_conv mul32_def tdiv_nonneg split: if_splits)
  have per: "per = - ((off - ?n) div n_processors)"
    using Some q assms(1,2) off by (auto simp: split_audio_def Let_def bind_eq_Some_conv mul32_def tdiv_def split: if_splits)
  have "(off - ?n) div n_processors < off - ?n" using assms(1,2) off by (intro int_div_less_self) simp_all
  then have "?n < off + per" using per by linarith
  then have "chunk_of samples 0 (off + per) = None" by (auto simp: chunk_of_def mem_read_def)
  then show ?thesis using Some q assms(1) by (simp add: parallel_run_def)
qed

section \<open>Times of an earlier call\<close>


section \<open>A small context\<close>

definition demo_init :: "nat \<Rightarrow> (rat option, rat option, nat, nat) init_env" where
  "demo_init i = \<lparr>ie_backends = True, ie_kv_cross = True, ie_kv_pad = True, ie_masks = True, ie_scheds = [True, True, True, True],
     ie_n_text_head = 6, ie_seed = id, ie_rng = 5489, ie_old_decoder = (\<lambda>j. demo_decoder), ie_old_mel = ws_mel demo_state,
     ie_old_tid = 0, ie_world = i\<rparr>"

definition demo_ctx :: "(rat option, rat option, nat, nat) ctx_state" where
  "demo_ctx = \<lparr>cx_full = demo_state, cx_vad = \<lparr>vs_has = True, vs_infos = [],
     vs_table = [(0, 300)]\<rparr>, cx_probs = [], cx_loaded = True\<rparr>"

lemma demo_init_state: "init_state demo_env (demo_init i) = Some (Some (fresh_state demo_env (demo_init i) 512))"
  by (simp add: init_state_def demo_init_def ggml_pad_def) (simp add: demo_env_def)

lemma demo_no_audio:
  assumes "ml_n_len_org (ws_mel st) = 0"
  shows "\<exists>st'. full_with_state demo_env demo_full_params id (7, 3002) [] st = Some (Done st') \<and> ws_result st' = []"
proof -
  have "\<not> language_unknown demo_full_params" "fp_language demo_full_params = Some ''en''" "fp_offset_ms demo_full_params = 0"
    "fp_duration_ms demo_full_params = 0" by (simp_all add: language_unknown_def demo_full_params_def)
  then show ?thesis
    using assms by (simp add: full_with_state_def compute_mel_def choose_language_def start_clock_def Let_def delta_min_def tdiv_def)
qed


theorem parallel_overflows_witness:
  "parallel_run demo_env demo_full_params id (7, 3002) demo_init (replicate 42949674 (Some 0)) 2 demo_state = Some Bad"
  by (rule parallel_overflows) (simp_all add: demo_full_params_def)

theorem parallel_offset_overread_witness:
  "parallel_run demo_env (demo_full_params\<lparr>fp_offset_ms := 1000\<rparr>) id (7, 3002) demo_init (replicate 8000 (Some 0)) 2 demo_state = Some Bad"
  by (rule parallel_offset_overread) (simp_all add: demo_full_params_def)

lemma demo_worker:
  "\<exists>w. worker demo_env demo_full_params id (7, 3002) demo_init [] 0 0 2 0 = Some (Some w)"
proof -
  have "demo_full_params\<lparr>fp_offset_ms := 0\<rparr> = demo_full_params" by (simp add: demo_full_params_def)
  moreover have "ml_n_len_org (ws_mel (fresh_state demo_env (demo_init 0) 512)) = 0"
    by (simp add: fresh_state_def demo_init_def demo_state_def)
  ultimately show ?thesis
    using demo_no_audio [of "fresh_state demo_env (demo_init 0) 512"]
    by (auto simp: worker_def demo_init_state chunk_of_def)
qed



end
