(* ===== verification/Tensor_Alloc.thy ===== *)
theory Tensor_Alloc
  imports Arrays Prelude "HOL-Library.Multiset"
begin

text \<open>
  The allocator of memory for tensors, \<open>ggml_dyn_tallocr\<close> of \<open>src/ggml/src/ggml-alloc.c\<close>.  It does not touch memory:
  it hands out addresses in chunks that are allocated later, keeps the free blocks of every chunk in a small
  array ordered by address, and remembers how large each chunk has to be.
\<close>

section \<open>Arithmetic of \<open>size_t\<close>\<close>

definition add64 :: "nat \<Rightarrow> nat \<Rightarrow> nat" where
  "add64 a b = (a + b) mod 2 ^ 64"

definition sub64 :: "nat \<Rightarrow> nat \<Rightarrow> nat" where
  "sub64 a b = to_size_t (int a - int b)"

definition size_max :: nat where
  "size_max = 2 ^ 64 - 1"

definition to_int64 :: "int \<Rightarrow> int" where
  "to_int64 x = (x + 2 ^ 63) mod 2 ^ 64 - 2 ^ 63"

text \<open>The alignment is a power of two.\<close>

definition aligned_offset :: "nat \<Rightarrow> nat \<Rightarrow> nat \<Rightarrow> nat" where
  "aligned_offset buffer offset alignment =
     add64 offset ((alignment - add64 buffer offset mod alignment) mod alignment)"

section \<open>The state\<close>

record free_block =
  fb_offset :: nat
  fb_size :: nat

text \<open>The list holds the \<open>n_free_blocks\<close> entries of the array that are in use.\<close>

record tallocr_chunk =
  ck_free :: "free_block list"
  ck_max :: nat

text \<open>\<open>dt_calloc\<close> tells whether the bookkeeping of one more chunk can be allocated.\<close>

record dyn_tallocr =
  dt_alignment :: nat
  dt_max_chunk :: nat
  dt_chunks :: "tallocr_chunk list"
  dt_calloc :: "nat \<Rightarrow> bool"

definition max_free_blocks :: nat where
  "max_free_blocks = 256"

definition max_chunks :: nat where
  "max_chunks = 16"

record buffer_address =
  ba_chunk :: nat
  ba_offset :: nat

section \<open>Free blocks\<close>

text \<open>The assertion that there is a free entry is not removed by \<open>NDEBUG\<close>.\<close>

definition insert_block :: "free_block list \<Rightarrow> nat \<Rightarrow> nat \<Rightarrow> free_block list option" where
  "insert_block bs offset sz =
     (if length bs \<ge> max_free_blocks then None
      else Some (takeWhile (\<lambda>b. fb_offset b < offset) bs @ \<lparr>fb_offset = offset, fb_size = sz\<rparr> #
                 dropWhile (\<lambda>b. fb_offset b < offset) bs))"

definition remove_block :: "free_block list \<Rightarrow> nat \<Rightarrow> free_block list" where
  "remove_block bs idx = take idx bs @ drop (Suc idx) bs"

text \<open>The chunk with the index of the old length; \<^term>\<open>None\<close> is \<open>-1\<close>.\<close>

definition new_chunk :: "dyn_tallocr \<Rightarrow> nat \<Rightarrow> dyn_tallocr option" where
  "new_chunk alloc min_size =
     (let n = length (dt_chunks alloc)
      in if n \<ge> max_chunks \<or> \<not> dt_calloc alloc n then None
         else (let sz = (if n = max_chunks - 1 then size_max div 2 else max min_size (dt_max_chunk alloc))
               in Some (alloc\<lparr>dt_chunks := dt_chunks alloc @
                    [\<lparr>ck_free = [\<lparr>fb_offset = 0, fb_size = sz\<rparr>], ck_max = 0\<rparr>]\<rparr>)))"

section \<open>Allocation\<close>

text \<open>The last of the smallest blocks that are large enough; \<open>i\<close> is the index of the next block.\<close>

fun fit_blocks :: "nat \<Rightarrow> nat \<Rightarrow> free_block list \<Rightarrow> nat option \<times> nat \<Rightarrow> nat option" where
  "fit_blocks sz i [] (best, best_size) = best"
| "fit_blocks sz i (b # bs) (best, best_size) =
     fit_blocks sz (Suc i) bs
       (if fb_size b \<ge> sz \<and> fb_size b \<le> best_size then (Some i, fb_size b) else (best, best_size))"

text \<open>
  All blocks but the last one of each chunk.  The size of the best block is forgotten at the end of each
  chunk, so that a later chunk always wins over an earlier one.
\<close>

fun best_fit :: "nat \<Rightarrow> nat \<Rightarrow> tallocr_chunk list \<Rightarrow> (nat \<times> nat) option \<Rightarrow> (nat \<times> nat) option" where
  "best_fit sz c [] best = best"
| "best_fit sz c (ck # cks) best =
     best_fit sz (Suc c) cks
       (case fit_blocks sz 0 (butlast (ck_free ck)) (None, size_max) of None \<Rightarrow> best | Some i \<Rightarrow> Some (c, i))"

text \<open>The last blocks: the one that wastes or extends its chunk the least.\<close>

fun best_last :: "nat \<Rightarrow> nat \<Rightarrow> tallocr_chunk list \<Rightarrow> (nat \<times> nat) option \<times> int \<Rightarrow> (nat \<times> nat) option" where
  "best_last sz c [] (best, best_reuse) = best"
| "best_last sz c (ck # cks) (best, best_reuse) =
     best_last sz (Suc c) cks
       (if ck_free ck = [] then (best, best_reuse)
        else (let b = last (ck_free ck);
                  reuse = to_int64 (int (ck_max ck) - int (fb_offset b) - int sz)
              in if fb_size b \<ge> sz \<and> ((best_reuse < 0 \<and> reuse > best_reuse) \<or> (reuse \<ge> 0 \<and> reuse < best_reuse))
                 then (Some (c, length (ck_free ck) - 1), reuse) else (best, best_reuse)))"

definition take_block :: "dyn_tallocr \<Rightarrow> nat \<Rightarrow> nat \<Rightarrow> nat \<Rightarrow> (buffer_address \<times> dyn_tallocr) option" where
  "take_block alloc sz c i =
     Option.bind (rd (dt_chunks alloc) c) (\<lambda>ck.
       map_option (\<lambda>b.
           (let b' = \<lparr>fb_offset = add64 (fb_offset b) sz, fb_size = sub64 (fb_size b) sz\<rparr>;
                bs = (if fb_size b' = 0 then remove_block (ck_free ck) i else (ck_free ck)[i := b']);
                ck' = \<lparr>ck_free = bs, ck_max = max (ck_max ck) (add64 (fb_offset b) sz)\<rparr>
            in (\<lparr>ba_chunk = c, ba_offset = fb_offset b\<rparr>, alloc\<lparr>dt_chunks := (dt_chunks alloc)[c := ck']\<rparr>)))
         (rd (ck_free ck) i))"

text \<open>Failure ends the process.\<close>

definition dyn_tallocr_alloc :: "dyn_tallocr \<Rightarrow> nat \<Rightarrow> (buffer_address \<times> dyn_tallocr) option" where
  "dyn_tallocr_alloc alloc sz0 =
     (let sz = aligned_offset 0 sz0 (dt_alignment alloc)
      in case best_fit sz 0 (dt_chunks alloc) None of
           Some (c, i) \<Rightarrow> take_block alloc sz c i
         | None \<Rightarrow>
             (case best_last sz 0 (dt_chunks alloc) (None, - (2 ^ 63)) of
                Some (c, i) \<Rightarrow> take_block alloc sz c i
              | None \<Rightarrow>
                  (case new_chunk alloc sz of
                     None \<Rightarrow> None
                   | Some alloc' \<Rightarrow> take_block alloc' sz (length (dt_chunks alloc)) 0)))"

section \<open>Release\<close>

definition merge_next :: "free_block \<Rightarrow> free_block list \<Rightarrow> free_block list" where
  "merge_next b rest =
     (case rest of
        [] \<Rightarrow> [b]
      | n # r \<Rightarrow> if add64 (fb_offset b) (fb_size b) = fb_offset n
                 then b\<lparr>fb_size := add64 (fb_size b) (fb_size n)\<rparr> # r else b # rest)"

definition merge_prev :: "free_block list \<Rightarrow> free_block \<Rightarrow> free_block list" where
  "merge_prev pre b =
     (if pre \<noteq> [] \<and> add64 (fb_offset (last pre)) (fb_size (last pre)) = fb_offset b
      then butlast pre @ [(last pre)\<lparr>fb_size := add64 (fb_size (last pre)) (fb_size b)\<rparr>]
      else pre @ [b])"

text \<open>The block that the bytes lie next to, if there is one; \<open>pre\<close> are the blocks already looked at.\<close>

fun free_scan :: "free_block list \<Rightarrow> free_block list \<Rightarrow> nat \<Rightarrow> nat \<Rightarrow> free_block list option" where
  "free_scan pre [] offset sz = None"
| "free_scan pre (b # rest) offset sz =
     (if add64 (fb_offset b) (fb_size b) = offset
      then Some (pre @ merge_next (b\<lparr>fb_size := add64 (fb_size b) sz\<rparr>) rest)
      else if add64 offset sz = fb_offset b
      then Some (merge_prev pre \<lparr>fb_offset = offset, fb_size = add64 (fb_size b) sz\<rparr> @ rest)
      else free_scan (pre @ [b]) rest offset sz)"

definition dyn_tallocr_free_bytes :: "dyn_tallocr \<Rightarrow> buffer_address \<Rightarrow> nat \<Rightarrow> dyn_tallocr option" where
  "dyn_tallocr_free_bytes alloc addr sz0 =
     (let sz = aligned_offset 0 sz0 (dt_alignment alloc)
      in Option.bind (rd (dt_chunks alloc) (ba_chunk addr)) (\<lambda>ck.
         map_option (\<lambda>bs. alloc\<lparr>dt_chunks := (dt_chunks alloc)[ba_chunk addr := ck\<lparr>ck_free := bs\<rparr>]\<rparr>)
           (case free_scan [] (ck_free ck) (ba_offset addr) sz of
              Some bs \<Rightarrow> Some bs
            | None \<Rightarrow> insert_block (ck_free ck) (ba_offset addr) sz)))"

definition dyn_tallocr_reset :: "dyn_tallocr \<Rightarrow> dyn_tallocr" where
  "dyn_tallocr_reset alloc = alloc\<lparr>dt_chunks := []\<rparr>"

definition dyn_tallocr_new :: "nat \<Rightarrow> nat \<Rightarrow> (nat \<Rightarrow> bool) \<Rightarrow> dyn_tallocr" where
  "dyn_tallocr_new alignment max_buffer_size calloc =
     dyn_tallocr_reset \<lparr>dt_alignment = alignment, dt_max_chunk = min max_buffer_size (size_max div 2),
       dt_chunks = [], dt_calloc = calloc\<rparr>"

definition dyn_tallocr_max_size :: "dyn_tallocr \<Rightarrow> nat \<Rightarrow> nat" where
  "dyn_tallocr_max_size alloc c = (if c < length (dt_chunks alloc) then ck_max (dt_chunks alloc ! c) else 0)"

section \<open>Arithmetic without overflow\<close>

lemma add64_id [cint_simps]: "a + b < 2 ^ 64 \<Longrightarrow> add64 a b = a + b"
  by (simp add: add64_def)

lemma sub64_id [cint_simps]: "b \<le> a \<Longrightarrow> a < 2 ^ 64 \<Longrightarrow> sub64 a b = a - b"
  unfolding sub64_def by (subst to_size_t_id) simp_all

lemma to_int64_id [cint_simps]: "- (2 ^ 63) \<le> x \<Longrightarrow> x < 2 ^ 63 \<Longrightarrow> to_int64 x = x"
  by (simp add: to_int64_def)

lemma aligned_offset_spec:
  assumes "0 < al" "sz + al \<le> 2 ^ 64"
  shows "al dvd aligned_offset 0 sz al" "sz \<le> aligned_offset 0 sz al" "aligned_offset 0 sz al < sz + al"
proof -
  define r where "r = sz mod al"
  have r: "r < al" "al dvd sz - r" "r \<le> sz" using assms(1) by (simp_all add: r_def dvd_minus_mod)
  have z: "add64 0 sz = sz" using assms by (simp add: add64_id)
  have "(al - r) mod al < al" using assms(1) by simp
  then have "sz + (al - r) mod al < 2 ^ 64" using assms(2) by linarith
  then have a: "aligned_offset 0 sz al = sz + (al - r) mod al"
    unfolding aligned_offset_def z r_def [symmetric] by (rule add64_id)
  have "al dvd sz + (al - r) mod al"
  proof (cases "r = 0")
    case True
    then show ?thesis using r(2) by simp
  next
    case False
    then have "sz + (al - r) mod al = (sz - r) + al" using r by simp
    then show ?thesis using r(2) by simp
  qed
  then show "al dvd aligned_offset 0 sz al" by (simp add: a)
  show "sz \<le> aligned_offset 0 sz al" "aligned_offset 0 sz al < sz + al" using assms(1) by (simp_all add: a)
qed

section \<open>Which bytes are free and which are handed out\<close>

text \<open>How often a byte is covered.\<close>

definition covers :: "nat \<Rightarrow> nat \<Rightarrow> nat \<Rightarrow> nat" where
  "covers start len p = (if start \<le> p \<and> p < start + len then 1 else 0)"

definition free_cover :: "free_block list \<Rightarrow> nat \<Rightarrow> nat" where
  "free_cover bs p = (\<Sum>b \<leftarrow> bs. covers (fb_offset b) (fb_size b) p)"

definition live_cover :: "(buffer_address \<times> nat) list \<Rightarrow> nat \<Rightarrow> nat \<Rightarrow> nat" where
  "live_cover live c p = (\<Sum>(a, s) \<leftarrow> live. if ba_chunk a = c then covers (ba_offset a) s p else 0)"

text \<open>
  Every byte of a chunk below its end is either in one free block or in one block handed out, and what is handed out lies
  below the size that the chunk is going to have.
\<close>

definition chunk_ok :: "nat \<Rightarrow> (buffer_address \<times> nat) list \<Rightarrow> nat \<Rightarrow> tallocr_chunk \<Rightarrow> nat \<Rightarrow> bool" where
  "chunk_ok al live c ck lim \<longleftrightarrow> lim < 2 ^ 64 \<and>
     (\<forall>b \<in> set (ck_free ck). fb_offset b + fb_size b \<le> lim \<and> al dvd fb_offset b) \<and>
     (\<forall>p. free_cover (ck_free ck) p + live_cover live c p = (if p < lim then 1 else 0)) \<and>
     (\<forall>(a, s) \<in> set live. ba_chunk a = c \<longrightarrow> ba_offset a + s \<le> min lim (ck_max ck) \<and> al dvd ba_offset a)"

definition alloc_ok :: "dyn_tallocr \<Rightarrow> (buffer_address \<times> nat) list \<Rightarrow> bool" where
  "alloc_ok A live \<longleftrightarrow> 0 < dt_alignment A \<and> dt_max_chunk A < 2 ^ 63 \<and>
     (\<forall>c < length (dt_chunks A). \<exists>lim. chunk_ok (dt_alignment A) live c (dt_chunks A ! c) lim) \<and>
     (\<forall>(a, s) \<in> set live. ba_chunk a < length (dt_chunks A))"

lemma free_cover_simps [simp]:
  "free_cover [] p = 0" "free_cover (b # bs) p = covers (fb_offset b) (fb_size b) p + free_cover bs p"
  "free_cover (bs @ bs') p = free_cover bs p + free_cover bs' p"
  by (simp_all add: free_cover_def)

lemma live_cover_simps [simp]:
  "live_cover [] c p = 0"
  "live_cover ((a, s) # live) c p = (if ba_chunk a = c then covers (ba_offset a) s p else 0) + live_cover live c p"
  by (simp_all add: live_cover_def)

lemma covers_split: "covers start (m + n) p = covers start m p + covers (start + m) n p"
  by (simp add: covers_def)

lemma covers_0 [simp]: "covers start 0 p = 0"
  by (simp add: covers_def)

lemma free_cover_at: "i < length bs \<Longrightarrow>
    free_cover bs p = free_cover (take i bs) p + covers (fb_offset (bs ! i)) (fb_size (bs ! i)) p + free_cover (drop (Suc i) bs) p"
  by (subst id_take_nth_drop [of i bs]) simp_all

lemma free_cover_remove: "i < length bs \<Longrightarrow>
    free_cover bs p = covers (fb_offset (bs ! i)) (fb_size (bs ! i)) p + free_cover (remove_block bs i) p"
  using free_cover_at [of i bs p] by (simp add: remove_block_def)

lemma free_cover_update: "i < length bs \<Longrightarrow>
    free_cover (bs[i := b]) p + covers (fb_offset (bs ! i)) (fb_size (bs ! i)) p =
    free_cover bs p + covers (fb_offset b) (fb_size b) p"
  using free_cover_at [of i bs p] by (simp add: upd_conv_take_nth_drop)

lemma live_cover_remove1: "(a, s) \<in> set live \<Longrightarrow>
    live_cover live c p = (if ba_chunk a = c then covers (ba_offset a) s p else 0) + live_cover (remove1 (a, s) live) c p"
  by (induction live) auto

text \<open>What the partition means for two blocks handed out.\<close>

lemma alloc_ok_disjoint:
  assumes "alloc_ok A (x # y # live)" "x = (a, s)" "y = (b, t)" "ba_chunk a = ba_chunk b" "0 < s" "0 < t"
  shows "ba_offset a + s \<le> ba_offset b \<or> ba_offset b + t \<le> ba_offset a"
proof -
  have c: "ba_chunk a < length (dt_chunks A)" using assms(1,2) by (auto simp: alloc_ok_def)
  then obtain lim where "chunk_ok (dt_alignment A) (x # y # live) (ba_chunk a) (dt_chunks A ! ba_chunk a) lim"
    using assms(1) by (auto simp: alloc_ok_def)
  then have "covers (ba_offset a) s p + covers (ba_offset b) t p \<le> 1" for p
    using assms(2-4) unfolding chunk_ok_def by (auto dest!: spec [of _ p] split: if_splits)
  from this [of "max (ba_offset a) (ba_offset b)"] show ?thesis using assms(5,6)
    by (auto simp: covers_def max_def split: if_splits)
qed

section \<open>Allocation keeps the partition\<close>

lemma chunk_ok_other: "ba_chunk a \<noteq> c \<Longrightarrow> chunk_ok al ((a, s) # live) c ck lim = chunk_ok al live c ck lim"
  by (simp add: chunk_ok_def)

lemma set_remove_block: "set (remove_block bs i) \<subseteq> set bs"
  by (auto simp: remove_block_def dest: in_set_takeD in_set_dropD)

lemma take_block_chunk:
  assumes "chunk_ok al live c ck lim" "i < length (ck_free ck)" "b = ck_free ck ! i" "sz \<le> fb_size b" "al dvd sz"
    and "b' = \<lparr>fb_offset = add64 (fb_offset b) sz, fb_size = sub64 (fb_size b) sz\<rparr>"
    and "bs = (if fb_size b' = 0 then remove_block (ck_free ck) i else (ck_free ck)[i := b'])"
    and "ck' = \<lparr>ck_free = bs, ck_max = max (ck_max ck) (add64 (fb_offset b) sz)\<rparr>"
    and "addr = \<lparr>ba_chunk = c, ba_offset = fb_offset b\<rparr>"
  shows "chunk_ok al ((addr, sz) # live) c ck' lim" "fb_offset b + sz \<le> lim"
proof -
  have mem: "b \<in> set (ck_free ck)" using assms(2,3) by simp
  have b: "fb_offset b + fb_size b \<le> lim" "al dvd fb_offset b" and lim: "lim < 2 ^ 64"
    using assms(1) mem unfolding chunk_ok_def by blast+
  have b': "b' = \<lparr>fb_offset = fb_offset b + sz, fb_size = fb_size b - sz\<rparr>" and up: "add64 (fb_offset b) sz = fb_offset b + sz"
    using b lim assms(4,6) by (simp_all add: add64_id sub64_id)
  have cover: "free_cover bs p + covers (fb_offset b) sz p = free_cover (ck_free ck) p" for p
    using free_cover_update [OF assms(2), of b' p] free_cover_remove [OF assms(2), of p]
      covers_split [of "fb_offset b" sz "fb_size b - sz" p] assms(3,4)
    by (simp add: assms(7) b')
  have bounds: "\<forall>x \<in> set bs. fb_offset x + fb_size x \<le> lim \<and> al dvd fb_offset x"
  proof
    fix x
    assume "x \<in> set bs"
    then have "x = b' \<or> x \<in> set (ck_free ck)"
      using set_remove_block [of "ck_free ck" i] set_update_subset_insert [of "ck_free ck" i b'] by (auto simp: assms(7) split: if_splits)
    then show "fb_offset x + fb_size x \<le> lim \<and> al dvd fb_offset x"
      using assms(1,4,5) b by (auto simp: b' chunk_ok_def)
  qed
  show "fb_offset b + sz \<le> lim" using b(1) assms(4) by simp
  moreover have "free_cover bs p + live_cover ((addr, sz) # live) c p = (if p < lim then 1 else 0)" for p
  proof -
    have "free_cover bs p + (covers (fb_offset b) sz p + live_cover live c p) = free_cover (ck_free ck) p + live_cover live c p"
      using cover [of p] by simp
    also have "\<dots> = (if p < lim then 1 else 0)" using assms(1) unfolding chunk_ok_def by blast
    finally show ?thesis by (simp add: assms(9))
  qed
  ultimately show "chunk_ok al ((addr, sz) # live) c ck' lim"
    using assms(1) lim bounds b(2) unfolding chunk_ok_def
    by (simp add: assms(8,9) up) (auto simp: max_def)
qed

lemma take_block_ok:
  assumes "alloc_ok A live" "c < length (dt_chunks A)" "i < length (ck_free (dt_chunks A ! c))"
    and "sz \<le> fb_size (ck_free (dt_chunks A ! c) ! i)" "dt_alignment A dvd sz"
  shows "\<exists>addr A'. take_block A sz c i = Some (addr, A') \<and> alloc_ok A' ((addr, sz) # live) \<and> dt_alignment A' = dt_alignment A \<and>
    dt_alignment A dvd ba_offset addr \<and> dt_calloc A' = dt_calloc A \<and> length (dt_chunks A') = length (dt_chunks A)"
proof -
  obtain lim where ck: "chunk_ok (dt_alignment A) live c (dt_chunks A ! c) lim" using assms(1,2) by (auto simp: alloc_ok_def)
  define b where "b = ck_free (dt_chunks A ! c) ! i"
  define b' where "b' = \<lparr>fb_offset = add64 (fb_offset b) sz, fb_size = sub64 (fb_size b) sz\<rparr>"
  define bs where "bs = (if fb_size b' = 0 then remove_block (ck_free (dt_chunks A ! c)) i else (ck_free (dt_chunks A ! c))[i := b'])"
  define ck' where "ck' = \<lparr>ck_free = bs, ck_max = max (ck_max (dt_chunks A ! c)) (add64 (fb_offset b) sz)\<rparr>"
  define addr where "addr = \<lparr>ba_chunk = c, ba_offset = fb_offset b\<rparr>"
  define A' where "A' = A\<lparr>dt_chunks := (dt_chunks A)[c := ck']\<rparr>"
  have sz: "sz \<le> fb_size b" using assms(4) by (simp add: b_def)
  have new: "chunk_ok (dt_alignment A) ((addr, sz) # live) c ck' lim"
    by (rule take_block_chunk(1) [OF ck assms(3) b_def sz assms(5) b'_def bs_def ck'_def addr_def])
  have "b \<in> set (ck_free (dt_chunks A ! c))" using assms(3) by (simp add: b_def)
  then have dvd: "dt_alignment A dvd ba_offset addr" using ck unfolding chunk_ok_def addr_def by simp
  have "\<exists>lim. chunk_ok (dt_alignment A) ((addr, sz) # live) k (dt_chunks A' ! k) lim" if "k < length (dt_chunks A')" for k
  proof (cases "k = c")
    case True
    then show ?thesis using new assms(2) by (auto simp: A'_def)
  next
    case False
    then show ?thesis using assms(1) that chunk_ok_other [of addr k] by (auto simp: A'_def addr_def alloc_ok_def)
  qed
  then have "alloc_ok A' ((addr, sz) # live)" using assms(1,2) by (auto simp: alloc_ok_def A'_def addr_def)
  moreover have "take_block A sz c i = Some (addr, A')"
    using assms(2,3) by (simp add: take_block_def Let_def A'_def addr_def ck'_def bs_def b'_def b_def)
  ultimately show ?thesis using dvd by (auto simp: A'_def)
qed

lemma fit_blocks_ok:
  "(\<forall>j. best = Some j \<longrightarrow> j < length xs \<and> sz \<le> fb_size (xs ! j)) \<Longrightarrow> xs = ys @ bs \<Longrightarrow> k = length ys \<Longrightarrow>
     fit_blocks sz k bs (best, m) = Some i \<Longrightarrow> i < length xs \<and> sz \<le> fb_size (xs ! i)"
proof (induction bs arbitrary: ys k best m)
  case (Cons b bs)
  show ?case
    by (rule Cons.IH [of "if fb_size b \<ge> sz \<and> fb_size b \<le> m then Some k else best" "ys @ [b]" "Suc k"
          "if fb_size b \<ge> sz \<and> fb_size b \<le> m then fb_size b else m"])
      (use Cons.prems in \<open>auto split: if_splits\<close>)
qed simp

definition fits :: "dyn_tallocr \<Rightarrow> nat \<Rightarrow> nat \<times> nat \<Rightarrow> bool" where
  "fits A sz ci \<longleftrightarrow> (let (c, i) = ci
     in c < length (dt_chunks A) \<and> i < length (ck_free (dt_chunks A ! c)) \<and> sz \<le> fb_size (ck_free (dt_chunks A ! c) ! i))"

lemma best_fit_ok:
  "(\<forall>r. best = Some r \<longrightarrow> fits A sz r) \<Longrightarrow> dt_chunks A = done_cks @ cks \<Longrightarrow> c = length done_cks \<Longrightarrow>
     best_fit sz c cks best = Some r \<Longrightarrow> fits A sz r"
proof (induction cks arbitrary: done_cks c best)
  case (Cons ck cks)
  let ?f = "fit_blocks sz 0 (butlast (ck_free ck)) (None, size_max)"
  have "fits A sz (c, i)" if "?f = Some i" for i
    using fit_blocks_ok [of None "butlast (ck_free ck)" sz "[]" "butlast (ck_free ck)" 0 size_max i] that Cons.prems
    by (auto simp: fits_def nth_butlast)
  then show ?case
    by (intro Cons.IH [of "case ?f of None \<Rightarrow> best | Some i \<Rightarrow> Some (c, i)" "done_cks @ [ck]" "Suc c"])
      (use Cons.prems in \<open>auto split: option.splits\<close>)
qed (cases r, simp)

lemma best_last_ok:
  "(\<forall>r. best = Some r \<longrightarrow> fits A sz r) \<Longrightarrow> dt_chunks A = done_cks @ cks \<Longrightarrow> c = length done_cks \<Longrightarrow>
     best_last sz c cks (best, m) = Some r \<Longrightarrow> fits A sz r"
proof (induction cks arbitrary: done_cks c best m)
  case (Cons ck cks)
  define b where "b = last (ck_free ck)"
  define reuse where "reuse = to_int64 (int (ck_max ck) - int (fb_offset b) - int sz)"
  define take_it where "take_it \<longleftrightarrow> ck_free ck \<noteq> [] \<and> fb_size b \<ge> sz \<and>
    ((m < 0 \<and> reuse > m) \<or> (reuse \<ge> 0 \<and> reuse < m))"
  have "fits A sz (c, length (ck_free ck) - 1)" if take_it
    using that Cons.prems by (auto simp: fits_def take_it_def b_def last_conv_nth)
  moreover have "best_last sz c (ck # cks) (best, m) = best_last sz (Suc c) cks
      (if take_it then Some (c, length (ck_free ck) - 1) else best, if take_it then reuse else m)"
    unfolding best_last.simps Let_def b_def [symmetric] reuse_def [symmetric]
    by (cases take_it) (auto simp: take_it_def)
  ultimately show ?case
    by (intro Cons.IH [of "if take_it then Some (c, length (ck_free ck) - 1) else best" "done_cks @ [ck]" "Suc c"
          "if take_it then reuse else m"])
      (use Cons.prems in \<open>auto split: if_splits\<close>)
qed (cases r, simp)

lemma live_cover_none: "\<forall>(a, s) \<in> set live. ba_chunk a \<noteq> c \<Longrightarrow> live_cover live c p = 0"
  by (induction live) auto

lemma new_chunk_ok:
  assumes "alloc_ok A live" "new_chunk A sz = Some A'" "sz < 2 ^ 63"
  shows "alloc_ok A' live" "fits A' sz (length (dt_chunks A), 0)" "dt_alignment A' = dt_alignment A" "dt_calloc A' = dt_calloc A"
    "length (dt_chunks A') = Suc (length (dt_chunks A))"
proof -
  let ?n = "length (dt_chunks A)"
  define S where "S = (if ?n = max_chunks - 1 then size_max div 2 else max sz (dt_max_chunk A))"
  define ck where "ck = \<lparr>ck_free = [\<lparr>fb_offset = 0, fb_size = S\<rparr>], ck_max = 0\<rparr>"
  have A': "A' = A\<lparr>dt_chunks := dt_chunks A @ [ck]\<rparr>" using assms(2)
    by (auto simp: new_chunk_def Let_def ck_def S_def split: if_splits)
  have S: "sz \<le> S" "S < 2 ^ 64" using assms(1,3) by (auto simp: S_def size_max_def alloc_ok_def)
  have old: "\<forall>(a, s) \<in> set live. ba_chunk a < ?n" using assms(1) by (auto simp: alloc_ok_def)
  then have "live_cover live ?n p = 0" for p by (intro live_cover_none) auto
  then have "chunk_ok (dt_alignment A) live ?n ck S"
    using S(2) old by (auto simp: chunk_ok_def ck_def covers_def)
  then have "\<exists>lim. chunk_ok (dt_alignment A) live k (dt_chunks A' ! k) lim" if "k < Suc ?n" for k
    using assms(1) that by (cases "k = ?n") (auto simp: A' alloc_ok_def nth_append)
  then show "alloc_ok A' live" using assms(1) old by (auto simp: alloc_ok_def A')
  show "fits A' sz (?n, 0)" using S(1) by (simp add: fits_def A' ck_def)
qed (use assms(2) in \<open>auto simp: new_chunk_def Let_def split: if_splits\<close>)

text \<open>The room that is asked for, with its alignment, is far from the end of \<open>size_t\<close>.\<close>

definition fair_size :: "dyn_tallocr \<Rightarrow> nat \<Rightarrow> bool" where
  "fair_size A sz \<longleftrightarrow> sz + dt_alignment A \<le> 2 ^ 63"

abbreviation padded :: "dyn_tallocr \<Rightarrow> nat \<Rightarrow> nat" where
  "padded A sz \<equiv> aligned_offset 0 sz (dt_alignment A)"

lemma padded_ok:
  assumes "alloc_ok A live" "fair_size A sz"
  shows "dt_alignment A dvd padded A sz" "sz \<le> padded A sz" "padded A sz < 2 ^ 63"
  using aligned_offset_spec [of "dt_alignment A" sz] assms by (auto simp: alloc_ok_def fair_size_def)

lemma alloc_keeps:
  assumes "alloc_ok A live" "fair_size A sz"
  shows "case dyn_tallocr_alloc A sz of
      None \<Rightarrow> length (dt_chunks A) \<ge> max_chunks \<or> \<not> dt_calloc A (length (dt_chunks A))
    | Some (addr, A') \<Rightarrow> alloc_ok A' ((addr, padded A sz) # live) \<and> dt_alignment A' = dt_alignment A \<and>
        dt_alignment A dvd ba_offset addr \<and> dt_calloc A' = dt_calloc A \<and> length (dt_chunks A) \<le> length (dt_chunks A')"
proof -
  let ?sz = "padded A sz"
  note pad = padded_ok [OF assms]
  have use_block: "\<exists>addr A'. take_block A ?sz c i = Some (addr, A') \<and> alloc_ok A' ((addr, ?sz) # live) \<and>
      dt_alignment A' = dt_alignment A \<and> dt_alignment A dvd ba_offset addr \<and> dt_calloc A' = dt_calloc A \<and>
      length (dt_chunks A) \<le> length (dt_chunks A')" if "fits A ?sz (c, i)" for c i
    using take_block_ok [OF assms(1), of c i ?sz] that pad(1) by (auto simp: fits_def)
  consider (fit) c i where "best_fit ?sz 0 (dt_chunks A) None = Some (c, i)"
    | (last) c i where "best_fit ?sz 0 (dt_chunks A) None = None" "best_last ?sz 0 (dt_chunks A) (None, - (2 ^ 63)) = Some (c, i)"
    | (fresh) "best_fit ?sz 0 (dt_chunks A) None = None" "best_last ?sz 0 (dt_chunks A) (None, - (2 ^ 63)) = None"
    by (metis option.exhaust surj_pair)
  then show ?thesis
  proof cases
    case fit
    then have "fits A ?sz (c, i)" using best_fit_ok [of None A ?sz "[]" "dt_chunks A"] by simp
    then show ?thesis using use_block [of c i] fit by (auto simp: dyn_tallocr_alloc_def)
  next
    case last
    then have "fits A ?sz (c, i)" using best_last_ok [of None A ?sz "[]" "dt_chunks A"] by simp
    then show ?thesis using use_block [of c i] last by (auto simp: dyn_tallocr_alloc_def)
  next
    case fresh
    show ?thesis
    proof (cases "new_chunk A ?sz")
      case None
      then show ?thesis using fresh by (auto simp: dyn_tallocr_alloc_def new_chunk_def Let_def split: if_splits)
    next
      case (Some A1)
      note A1 = new_chunk_ok [OF assms(1) Some pad(3)]
      then obtain addr A' where "take_block A1 ?sz (length (dt_chunks A)) 0 = Some (addr, A')"
        "alloc_ok A' ((addr, ?sz) # live)" "dt_alignment A' = dt_alignment A1" "dt_alignment A1 dvd ba_offset addr"
        "dt_calloc A' = dt_calloc A1" "length (dt_chunks A') = length (dt_chunks A1)"
        using take_block_ok [OF A1(1), of "length (dt_chunks A)" 0 ?sz] pad(1) by (auto simp: fits_def)
      then show ?thesis using fresh Some A1(3-5) by (simp add: dyn_tallocr_alloc_def)
    qed
  qed
qed

section \<open>Release keeps the partition\<close>

text \<open>Blocks that end below the limit, at multiples of the alignment.\<close>

definition blocks_below :: "nat \<Rightarrow> nat \<Rightarrow> free_block list \<Rightarrow> bool" where
  "blocks_below al lim bs \<longleftrightarrow> (\<forall>b \<in> set bs. fb_offset b + fb_size b \<le> lim \<and> al dvd fb_offset b)"

lemma blocks_below_simps [simp]:
  "blocks_below al lim []"
  "blocks_below al lim (b # bs) \<longleftrightarrow> fb_offset b + fb_size b \<le> lim \<and> al dvd fb_offset b \<and> blocks_below al lim bs"
  "blocks_below al lim (bs @ bs') \<longleftrightarrow> blocks_below al lim bs \<and> blocks_below al lim bs'"
  by (auto simp: blocks_below_def)

lemma merge_next_ok:
  assumes "lim < 2 ^ 64" "blocks_below al lim (b # rest)"
  shows "blocks_below al lim (merge_next b rest) \<and> (\<forall>p. free_cover (merge_next b rest) p = free_cover (b # rest) p)"
proof (cases rest)
  case (Cons n r)
  have "add64 (fb_offset b) (fb_size b) = fb_offset b + fb_size b" using assms by (simp add: add64_id)
  moreover have "fb_offset b + fb_size b = fb_offset n \<Longrightarrow> add64 (fb_size b) (fb_size n) = fb_size b + fb_size n"
    using assms Cons by (simp add: add64_id)
  ultimately show ?thesis using assms Cons
    by (auto simp: merge_next_def covers_split)
qed (use assms in \<open>simp add: merge_next_def\<close>)

lemma merge_prev_ok:
  assumes "lim < 2 ^ 64" "blocks_below al lim (pre @ [b])"
  shows "blocks_below al lim (merge_prev pre b) \<and> (\<forall>p. free_cover (merge_prev pre b) p = free_cover (pre @ [b]) p)"
proof (cases "pre = []")
  case False
  then obtain pr l where pre: "pre = pr @ [l]" by (metis rev_exhaust)
  have "add64 (fb_offset l) (fb_size l) = fb_offset l + fb_size l" using assms pre by (simp add: add64_id)
  moreover have "fb_offset l + fb_size l = fb_offset b \<Longrightarrow> add64 (fb_size l) (fb_size b) = fb_size l + fb_size b"
    using assms pre by (simp add: add64_id)
  ultimately show ?thesis using assms pre
    by (auto simp: merge_prev_def covers_split)
qed (use assms in \<open>simp add: merge_prev_def\<close>)

lemma free_scan_ok:
  assumes "lim < 2 ^ 64" "o' + sz \<le> lim" "al dvd o'"
  shows "blocks_below al lim (pre @ rest) \<Longrightarrow> free_scan pre rest o' sz = Some bs \<Longrightarrow>
     blocks_below al lim bs \<and> (\<forall>p. free_cover bs p = free_cover (pre @ rest) p + covers o' sz p)"
proof (induction rest arbitrary: pre)
  case (Cons b rest)
  have e: "add64 (fb_offset b) (fb_size b) = fb_offset b + fb_size b" "add64 o' sz = o' + sz"
    using Cons.prems(1) assms by (simp_all add: add64_id)
  consider (behind) "fb_offset b + fb_size b = o'" | (before) "fb_offset b + fb_size b \<noteq> o'" "o' + sz = fb_offset b"
    | (other) "fb_offset b + fb_size b \<noteq> o'" "o' + sz \<noteq> fb_offset b" by blast
  then show ?case
  proof cases
    case behind
    define b' where "b' = b\<lparr>fb_size := add64 (fb_size b) sz\<rparr>"
    have b': "fb_offset b' = fb_offset b" "fb_size b' = fb_size b + sz"
      using behind assms by (simp_all add: b'_def add64_id)
    have "bs = pre @ merge_next b' rest" using Cons.prems(2) behind e by (simp add: b'_def)
    moreover have "blocks_below al lim (b' # rest)" using Cons.prems(1) b' behind assms(2) by simp
    ultimately show ?thesis using merge_next_ok [OF assms(1), of al b' rest] Cons.prems(1) b' behind
      by (simp add: covers_split)
  next
    case before
    define b' where "b' = \<lparr>fb_offset = o', fb_size = add64 (fb_size b) sz\<rparr>"
    have "fb_size b + sz \<le> lim" using before Cons.prems(1) by simp
    then have b': "fb_offset b' = o'" "fb_size b' = sz + fb_size b"
      using assms(1) by (simp_all add: b'_def add64_id add.commute)
    have "bs = merge_prev pre b' @ rest" using Cons.prems(2) before e by (simp add: b'_def)
    moreover have "blocks_below al lim (pre @ [b'])" using Cons.prems(1) b' before assms(3) by simp
    ultimately show ?thesis using merge_prev_ok [OF assms(1), of al pre b'] Cons.prems(1) b' before
      by (simp add: covers_split)
  next
    case other
    then show ?thesis using Cons.IH [of "pre @ [b]"] Cons.prems e by simp
  qed
qed simp

lemma insert_block_ok:
  assumes "o' + sz \<le> lim" "al dvd o'" "blocks_below al lim bs" "insert_block bs o' sz = Some bs'"
  shows "blocks_below al lim bs' \<and> (\<forall>p. free_cover bs' p = free_cover bs p + covers o' sz p)"
proof -
  let ?P = "\<lambda>b. fb_offset b < o'"
  have split: "bs = takeWhile ?P bs @ dropWhile ?P bs" by simp
  have bs': "bs' = takeWhile ?P bs @ \<lparr>fb_offset = o', fb_size = sz\<rparr> # dropWhile ?P bs"
    using assms(4) by (auto simp: insert_block_def split: if_splits)
  have "blocks_below al lim (takeWhile ?P bs)" "blocks_below al lim (dropWhile ?P bs)"
    using assms(3) split by (metis blocks_below_simps(3))+
  moreover have "free_cover bs p = free_cover (takeWhile ?P bs) p + free_cover (dropWhile ?P bs) p" for p
    using split free_cover_simps(3) by metis
  ultimately show ?thesis using assms(1,2) by (simp add: bs')
qed

lemma chunk_ok_release:
  assumes "chunk_ok al live c ck lim" "(a, sz) \<in> set live" "ba_chunk a = c"
    and "(case free_scan [] (ck_free ck) (ba_offset a) sz of Some bs \<Rightarrow> Some bs
          | None \<Rightarrow> insert_block (ck_free ck) (ba_offset a) sz) = Some bs"
  shows "chunk_ok al (remove1 (a, sz) live) c (ck\<lparr>ck_free := bs\<rparr>) lim"
proof -
  have lim: "lim < 2 ^ 64" "blocks_below al lim (ck_free ck)" using assms(1) by (auto simp: chunk_ok_def blocks_below_def)
  have a: "ba_offset a + sz \<le> lim" "al dvd ba_offset a" using assms(1-3) by (auto simp: chunk_ok_def)
  have bs: "blocks_below al lim bs \<and> (\<forall>p. free_cover bs p = free_cover (ck_free ck) p + covers (ba_offset a) sz p)"
  proof (cases "free_scan [] (ck_free ck) (ba_offset a) sz")
    case None
    then show ?thesis using insert_block_ok [OF a lim(2)] assms(4) by simp
  next
    case (Some bs')
    then show ?thesis using free_scan_ok [OF lim(1) a, of "[]"] lim(2) assms(4) by simp
  qed
  have "free_cover bs p + live_cover (remove1 (a, sz) live) c p = (if p < lim then 1 else 0)" for p
  proof -
    have "free_cover bs p + live_cover (remove1 (a, sz) live) c p = free_cover (ck_free ck) p + live_cover live c p"
      using bs live_cover_remove1 [OF assms(2), of c p] assms(3) by simp
    then show ?thesis using assms(1) by (simp add: chunk_ok_def)
  qed
  moreover have "set (remove1 (a, sz) live) \<subseteq> set live" by (rule set_remove1_subset)
  ultimately show ?thesis using assms(1) lim(1) bs unfolding chunk_ok_def blocks_below_def by auto
qed

lemma chunk_ok_remove_other:
  assumes "chunk_ok al live c ck lim" "ba_chunk a \<noteq> c"
  shows "chunk_ok al (remove1 (a, sz) live) c ck lim"
proof -
  have "live_cover (remove1 (a, sz) live) c p = live_cover live c p" for p
    using assms(2) by (induction live) auto
  moreover have "set (remove1 (a, sz) live) \<subseteq> set live" by (rule set_remove1_subset)
  ultimately show ?thesis using assms(1) unfolding chunk_ok_def by auto
qed

text \<open>Only the assertion that there is room for one more free block can fail.\<close>

lemma free_keeps:
  assumes "alloc_ok A live" "(addr, padded A sz) \<in> set live"
  shows "case dyn_tallocr_free_bytes A addr sz of
      None \<Rightarrow> length (ck_free (dt_chunks A ! ba_chunk addr)) \<ge> max_free_blocks
    | Some A' \<Rightarrow> alloc_ok A' (remove1 (addr, padded A sz) live) \<and> dt_alignment A' = dt_alignment A \<and>
        dt_calloc A' = dt_calloc A \<and> length (dt_chunks A') = length (dt_chunks A)"
proof -
  let ?c = "ba_chunk addr"
  let ?ck = "dt_chunks A ! ?c"
  have c: "?c < length (dt_chunks A)" using assms by (auto simp: alloc_ok_def)
  then obtain lim where lim: "chunk_ok (dt_alignment A) live ?c ?ck lim" using assms(1) by (auto simp: alloc_ok_def)
  define r where "r = (case free_scan [] (ck_free ?ck) (ba_offset addr) (padded A sz) of Some bs \<Rightarrow> Some bs
    | None \<Rightarrow> insert_block (ck_free ?ck) (ba_offset addr) (padded A sz))"
  have run: "dyn_tallocr_free_bytes A addr sz =
      map_option (\<lambda>bs. A\<lparr>dt_chunks := (dt_chunks A)[?c := ?ck\<lparr>ck_free := bs\<rparr>]\<rparr>) r"
    using c by (simp add: dyn_tallocr_free_bytes_def r_def Let_def)
  show ?thesis
  proof (cases r)
    case None
    then show ?thesis using run by (auto simp: r_def insert_block_def split: option.splits if_splits)
  next
    case (Some bs)
    define A' where "A' = A\<lparr>dt_chunks := (dt_chunks A)[?c := ?ck\<lparr>ck_free := bs\<rparr>]\<rparr>"
    have new: "chunk_ok (dt_alignment A) (remove1 (addr, padded A sz) live) ?c (?ck\<lparr>ck_free := bs\<rparr>) lim"
      by (rule chunk_ok_release [OF lim assms(2) refl]) (use Some in \<open>simp add: r_def\<close>)
    have "\<exists>lim. chunk_ok (dt_alignment A) (remove1 (addr, padded A sz) live) k (dt_chunks A' ! k) lim"
      if k: "k < length (dt_chunks A)" for k
    proof (cases "k = ?c")
      case False
      obtain lim' where "chunk_ok (dt_alignment A) live k (dt_chunks A ! k) lim'" using assms(1) k by (auto simp: alloc_ok_def)
      then have "chunk_ok (dt_alignment A) (remove1 (addr, padded A sz) live) k (dt_chunks A ! k) lim'"
        using False by (intro chunk_ok_remove_other) simp_all
      then show ?thesis using False by (auto simp: A'_def)
    qed (use new c in \<open>auto simp: A'_def\<close>)
    moreover have "set (remove1 (addr, padded A sz) live) \<subseteq> set live" by (rule set_remove1_subset)
    ultimately have "alloc_ok A' (remove1 (addr, padded A sz) live)"
      using assms(1) unfolding alloc_ok_def by (auto simp: A'_def)
    then show ?thesis using run Some by (simp add: A'_def [symmetric]) (simp add: A'_def)
  qed
qed

text \<open>Giving back the end of a block that was handed out.\<close>

lemma alloc_ok_shorten:
  assumes "alloc_ok A ((addr, m + n) # live)" "dt_alignment A dvd m"
  shows "alloc_ok A ((addr, m) # (addr\<lparr>ba_offset := ba_offset addr + m\<rparr>, n) # live)"
proof -
  let ?new = "(addr, m) # (addr\<lparr>ba_offset := ba_offset addr + m\<rparr>, n) # live"
  have same: "live_cover ?new c p = live_cover ((addr, m + n) # live) c p" for c p by (simp add: covers_split)
  have "chunk_ok (dt_alignment A) ?new c ck lim" if "chunk_ok (dt_alignment A) ((addr, m + n) # live) c ck lim" for c ck lim
    unfolding chunk_ok_def same
  proof (intro conjI)
    show "\<forall>(a, s) \<in> set ?new. ba_chunk a = c \<longrightarrow> ba_offset a + s \<le> min lim (ck_max ck) \<and> dt_alignment A dvd ba_offset a"
      using that assms(2) unfolding chunk_ok_def by auto
  qed (use that in \<open>unfold chunk_ok_def, blast\<close>)+
  then show ?thesis using assms(1) by (fastforce simp: alloc_ok_def)
qed

lemma alloc_ok_perm: "mset live = mset live' \<Longrightarrow> alloc_ok A live = alloc_ok A live'"
proof -
  assume m: "mset live = mset live'"
  then have "set live = set live'" by (rule mset_eq_setD)
  moreover have "live_cover live c p = live_cover live' c p" for c p
    unfolding live_cover_def sum_mset_sum_list [symmetric] mset_map m ..
  ultimately show ?thesis unfolding alloc_ok_def chunk_ok_def by simp
qed

lemma alloc_ok_inside:
  assumes "alloc_ok A live" "(a, s) \<in> set live"
  shows "dt_alignment A dvd ba_offset a" "ba_offset a + s \<le> dyn_tallocr_max_size A (ba_chunk a)"
proof -
  have c: "ba_chunk a < length (dt_chunks A)" using assms by (auto simp: alloc_ok_def)
  then obtain lim where "chunk_ok (dt_alignment A) live (ba_chunk a) (dt_chunks A ! ba_chunk a) lim"
    using assms(1) by (auto simp: alloc_ok_def)
  then have "ba_offset a + s \<le> ck_max (dt_chunks A ! ba_chunk a)" "dt_alignment A dvd ba_offset a"
    using assms(2) unfolding chunk_ok_def by auto
  then show "dt_alignment A dvd ba_offset a" "ba_offset a + s \<le> dyn_tallocr_max_size A (ba_chunk a)"
    using c by (simp_all add: dyn_tallocr_max_size_def)
qed

text \<open>The sizes of the chunks only grow.\<close>

lemma take_block_max:
  assumes "take_block A sz c i = Some (ad, A')"
  shows "dyn_tallocr_max_size A k \<le> dyn_tallocr_max_size A' k"
  using assms by (auto simp: take_block_def bind_eq_Some_conv rd_eq_Some dyn_tallocr_max_size_def nth_list_update)

lemma new_chunk_max:
  assumes "new_chunk A sz = Some A'"
  shows "dyn_tallocr_max_size A k \<le> dyn_tallocr_max_size A' k"
  using assms by (auto simp: new_chunk_def Let_def dyn_tallocr_max_size_def nth_append split: if_splits)

lemma alloc_max:
  assumes "dyn_tallocr_alloc A sz = Some (ad, A')"
  shows "dyn_tallocr_max_size A k \<le> dyn_tallocr_max_size A' k"
  using assms take_block_max [of _ _ _ _ ad A' k] new_chunk_max [of A _ _ k]
  by (fastforce simp: dyn_tallocr_alloc_def Let_def split: option.splits intro: le_trans)

lemma free_bytes_max: "dyn_tallocr_free_bytes A addr sz = Some A' \<Longrightarrow> dyn_tallocr_max_size A' k = dyn_tallocr_max_size A k"
  by (auto simp: dyn_tallocr_free_bytes_def Let_def bind_eq_Some_conv rd_eq_Some dyn_tallocr_max_size_def nth_list_update)

lemma alloc_ok_end: "alloc_ok A ((addr, s) # live) \<Longrightarrow> ba_offset addr + s < 2 ^ 64"
  unfolding alloc_ok_def chunk_ok_def by fastforce

lemma dyn_tallocr_new_ok: "0 < al \<Longrightarrow> alloc_ok (dyn_tallocr_new al n calloc) []"
  by (simp add: alloc_ok_def dyn_tallocr_new_def dyn_tallocr_reset_def size_max_def)

section \<open>Any use of the allocator\<close>

datatype tensor_op = Take nat | Give nat

text \<open>The blocks handed out are listed with the sizes that were asked for; \<open>Give\<close> releases the one with that index.\<close>

fun run_ops :: "tensor_op list \<Rightarrow> dyn_tallocr \<times> (buffer_address \<times> nat) list
    \<Rightarrow> (dyn_tallocr \<times> (buffer_address \<times> nat) list) option" where
  "run_ops [] st = Some st"
| "run_ops (Take sz # ops) (A, live) =
     (case dyn_tallocr_alloc A sz of None \<Rightarrow> None | Some (addr, A') \<Rightarrow> run_ops ops (A', (addr, sz) # live))"
| "run_ops (Give k # ops) (A, live) =
     (if k < length live
      then (case dyn_tallocr_free_bytes A (fst (live ! k)) (snd (live ! k)) of
              None \<Rightarrow> None
            | Some A' \<Rightarrow> run_ops ops (A', take k live @ drop (Suc k) live))
      else None)"

definition pad_all :: "dyn_tallocr \<Rightarrow> (buffer_address \<times> nat) list \<Rightarrow> (buffer_address \<times> nat) list" where
  "pad_all A live = map (\<lambda>(a, s). (a, padded A s)) live"

fun fair_op :: "dyn_tallocr \<Rightarrow> tensor_op \<Rightarrow> bool" where
  "fair_op A (Take sz) = fair_size A sz"
| "fair_op A (Give k) = True"

lemma mset_at: "k < length xs \<Longrightarrow> mset xs = add_mset (xs ! k) (mset (take k xs @ drop (Suc k) xs))"
  by (subst id_take_nth_drop [of k xs]) simp_all

lemma run_ops_ok:
  "run_ops ops (A, live) = Some (A', live') \<Longrightarrow> alloc_ok A (pad_all A live) \<Longrightarrow> \<forall>x \<in> set ops. fair_op A x \<Longrightarrow>
     (\<forall>(a, s) \<in> set live. fair_size A s) \<Longrightarrow>
     alloc_ok A' (pad_all A' live') \<and> dt_alignment A' = dt_alignment A \<and> (\<forall>(a, s) \<in> set live'. fair_size A' s)"
proof (induction ops "(A, live)" arbitrary: A live rule: run_ops.induct)
  case (2 sz ops A live)
  then obtain addr A1 where A1: "dyn_tallocr_alloc A sz = Some (addr, A1)" "run_ops ops (A1, (addr, sz) # live) = Some (A', live')"
    by (auto split: option.splits)
  have fair: "fair_size A sz" using 2 by simp
  have k: "alloc_ok A1 ((addr, padded A sz) # pad_all A live)" "dt_alignment A1 = dt_alignment A"
    using alloc_keeps [OF "2.prems"(2) fair] A1(1) by simp_all
  have al: "fair_size A1 = fair_size A" using k(2) by (auto simp: fair_size_def)
  have "fair_op A1 x = fair_op A x" for x using al by (cases x) simp_all
  then have "alloc_ok A' (pad_all A' live') \<and> dt_alignment A' = dt_alignment A1 \<and> (\<forall>(a, s) \<in> set live'. fair_size A' s)"
    using "2.hyps" [OF A1(1) refl A1(2)] k "2.prems"(3,4) fair al by (auto simp: pad_all_def)
  then show ?case using k(2) by simp
next
  case (3 k ops A live)
  obtain a s where as: "live ! k = (a, s)" by (cases "live ! k")
  then obtain A1 where A1: "k < length live" "dyn_tallocr_free_bytes A a s = Some A1"
    "run_ops ops (A1, take k live @ drop (Suc k) live) = Some (A', live')"
    using "3.prems"(1) by (auto split: if_splits option.splits)
  have mem: "(a, padded A s) \<in> set (pad_all A live)" using A1(1) as by (force simp: pad_all_def in_set_conv_nth)
  have r: "alloc_ok A1 (remove1 (a, padded A s) (pad_all A live))" "dt_alignment A1 = dt_alignment A"
    using free_keeps [OF "3.prems"(2) mem] A1(2) by simp_all
  have "mset (remove1 (a, padded A s) (pad_all A live)) = mset (pad_all A1 (take k live @ drop (Suc k) live))"
    using mset_at [OF A1(1)] as r(2) by (simp add: pad_all_def)
  then have ok: "alloc_ok A1 (pad_all A1 (take k live @ drop (Suc k) live))" using r(1) alloc_ok_perm by blast
  have al: "fair_size A1 = fair_size A" using r(2) by (auto simp: fair_size_def)
  have "fair_op A1 x = fair_op A x" for x using al by (cases x) simp_all
  moreover have "\<forall>(b, t) \<in> set (take k live @ drop (Suc k) live). fair_size A1 t"
    using "3.prems"(4) al by (auto dest!: in_set_takeD in_set_dropD)
  ultimately have "alloc_ok A' (pad_all A' live') \<and> dt_alignment A' = dt_alignment A1 \<and> (\<forall>(a, s) \<in> set live'. fair_size A' s)"
    using "3.hyps" [of A1] A1 as ok "3.prems"(3) by auto
  then show ?case using r(2) by simp
qed simp

lemma run_ops_blocks:
  assumes "run_ops ops (dyn_tallocr_new al n calloc, []) = Some (A, live)" "0 < al"
    and "\<forall>sz. Take sz \<in> set ops \<longrightarrow> sz + al \<le> 2 ^ 63"
  shows "alloc_ok A (pad_all A live)" "dt_alignment A = al" "\<forall>(a, s) \<in> set live. fair_size A s"
proof -
  have "fair_op (dyn_tallocr_new al n calloc) x" if "x \<in> set ops" for x
  proof (cases x)
    case (Take sz)
    then have "sz + al \<le> 2 ^ 63" using that assms(3) by simp
    then show ?thesis using Take by (simp add: fair_size_def dyn_tallocr_new_def dyn_tallocr_reset_def)
  qed simp
  moreover have "dt_alignment (dyn_tallocr_new al n calloc) = al" by (simp add: dyn_tallocr_new_def dyn_tallocr_reset_def)
  ultimately show "alloc_ok A (pad_all A live)" "dt_alignment A = al" "\<forall>(a, s) \<in> set live. fair_size A s"
    using run_ops_ok [OF assms(1)] dyn_tallocr_new_ok [OF assms(2), of n calloc] by (auto simp: pad_all_def)
qed

lemma block_inside:
  assumes "alloc_ok A (pad_all A live)" "\<forall>(a, s) \<in> set live. fair_size A s" "(a, s) \<in> set live"
  shows "dt_alignment A dvd ba_offset a" "ba_offset a + s \<le> dyn_tallocr_max_size A (ba_chunk a)"
proof -
  have mem: "(a, padded A s) \<in> set (pad_all A live)" using assms(3) by (force simp: pad_all_def)
  have "s \<le> padded A s" using padded_ok(2) [OF assms(1)] assms(2,3) by auto
  then show "dt_alignment A dvd ba_offset a" "ba_offset a + s \<le> dyn_tallocr_max_size A (ba_chunk a)"
    using alloc_ok_inside [OF assms(1) mem] by simp_all
qed

lemma mset_two:
  assumes "i < j" "j < length xs"
  shows "\<exists>ys. mset xs = mset (xs ! i # xs ! j # ys)"
proof -
  define zs where "zs = take i xs @ drop (Suc i) xs"
  have "\<not> j - 1 < i" using assms by simp
  then have "zs ! (j - 1) = xs ! j" "j - 1 < length zs" using assms by (simp_all add: zs_def nth_append)
  then have "xs ! j \<in> set zs" by (metis nth_mem)
  then have "mset zs = mset (xs ! j # remove1 (xs ! j) zs)" by simp
  moreover have "mset xs = add_mset (xs ! i) (mset zs)" using assms mset_at [of i xs] by (simp add: zs_def)
  ultimately show ?thesis by (intro exI [of _ "remove1 (xs ! j) zs"]) simp
qed

text \<open>
  However tensors are allocated and released, no two of those that are alive overlap, all of them are
  aligned, and all lie below the size that the chunk will be given.
\<close>

theorem live_tensors_disjoint:
  assumes "run_ops ops (dyn_tallocr_new al n calloc, []) = Some (A, live)" "0 < al"
    and "\<forall>sz. Take sz \<in> set ops \<longrightarrow> sz + al \<le> 2 ^ 63"
  shows "(\<forall>i j. i < j \<and> j < length live \<and> live ! i = (a, s) \<and> live ! j = (b, t) \<and> ba_chunk a = ba_chunk b \<and> 0 < s \<and> 0 < t \<longrightarrow>
      ba_offset a + s \<le> ba_offset b \<or> ba_offset b + t \<le> ba_offset a) \<and>
    ((a, s) \<in> set live \<longrightarrow> al dvd ba_offset a \<and> ba_offset a + s \<le> dyn_tallocr_max_size A (ba_chunk a))"
proof -
  note ok = run_ops_blocks [OF assms]
  have inside: "(a, s) \<in> set live \<Longrightarrow> al dvd ba_offset a \<and> ba_offset a + s \<le> dyn_tallocr_max_size A (ba_chunk a)"
    using block_inside [OF ok(1,3)] ok(2) by auto
  have "ba_offset a + s \<le> ba_offset b \<or> ba_offset b + t \<le> ba_offset a"
    if "i < j" "j < length live" "live ! i = (a, s)" "live ! j = (b, t)" "ba_chunk a = ba_chunk b" "0 < s" "0 < t" for i j
  proof -
    note ij = that
    have mem: "(a, s) \<in> set live" "(b, t) \<in> set live" using that by (metis nth_mem order_less_trans)+
    have p: "s \<le> padded A s" "t \<le> padded A t" using padded_ok(2) [OF ok(1)] ok(3) mem by fastforce+
    obtain ys where "mset live = mset ((a, s) # (b, t) # ys)" using mset_two [OF ij(1,2)] ij(3,4) by auto
    then have "mset (pad_all A live) = mset (pad_all A ((a, s) # (b, t) # ys))" unfolding pad_all_def mset_map by simp
    then have "mset (pad_all A live) = mset ((a, padded A s) # (b, padded A t) # pad_all A ys)"
      by (simp add: pad_all_def)
    from alloc_ok_perm [OF this, of A] have "alloc_ok A ((a, padded A s) # (b, padded A t) # pad_all A ys)" using ok(1) by simp
    from alloc_ok_disjoint [OF this refl refl ij(5)] show ?thesis using p ij(6,7) by linarith
  qed
  then show ?thesis using inside by blast
qed

lemma demo_run_ops:
  "map_option snd (run_ops [Take 100, Take 30, Give 1, Take 50] (dyn_tallocr_new 32 (2 ^ 20) (\<lambda>n. True), [])) =
    Some [(\<lparr>ba_chunk = 0, ba_offset = 0\<rparr>, 50), (\<lparr>ba_chunk = 0, ba_offset = 128\<rparr>, 30)]"
  by (simp add: dyn_tallocr_new_def dyn_tallocr_reset_def dyn_tallocr_alloc_def dyn_tallocr_free_bytes_def aligned_offset_def
      add64_def sub64_def to_size_t_def to_int64_def size_max_def new_chunk_def max_chunks_def max_free_blocks_def
      take_block_def remove_block_def insert_block_def merge_next_def merge_prev_def)

theorem live_tensors_disjoint_witness:
  "\<exists>A live a s b t. run_ops [Take 100, Take 30, Give 1, Take 50] (dyn_tallocr_new 32 (2 ^ 20) (\<lambda>n. True), []) = Some (A, live) \<and>
     live = [(a, s), (b, t)] \<and> (ba_offset a + s \<le> ba_offset b \<or> ba_offset b + t \<le> ba_offset a)"
proof -
  obtain A where A: "run_ops [Take 100, Take 30, Give 1, Take 50] (dyn_tallocr_new 32 (2 ^ 20) (\<lambda>n. True), []) =
      Some (A, [(\<lparr>ba_chunk = 0, ba_offset = 0\<rparr>, 50), (\<lparr>ba_chunk = 0, ba_offset = 128\<rparr>, 30)])"
    using demo_run_ops by auto
  show ?thesis
    using live_tensors_disjoint [OF A, of "\<lparr>ba_chunk = 0, ba_offset = 0\<rparr>" 50 "\<lparr>ba_chunk = 0, ba_offset = 128\<rparr>" 30] A by auto
qed

section \<open>Best fit and chunks\<close>

text \<open>
  A fitting block of the last chunk that has one is taken, whatever the blocks of the chunks before it are:
  the search forgets the best size with every chunk.
\<close>

lemma best_fit_later_chunk:
  "fit_blocks sz 0 (butlast (ck_free ck)) (None, size_max) = Some i \<Longrightarrow>
     best_fit sz c (cks @ [ck]) best = Some (c + length cks, i)"
  by (induction cks arbitrary: c best) simp_all

end
