(* ===== verification/Hash_Set.thy ===== *)
theory Hash_Set
  imports Arrays Prelude
begin

unbundle bit_operations_syntax

text \<open>
  The hash set of tensors, \<open>ggml_hash_set\<close> of \<open>src/ggml/src/ggml-impl.h\<close> and \<open>src/ggml/src/ggml.c\<close>: a bitset tells
  which slots are in use, a key is looked for from the slot of its hash on, slot by slot around the table.
  Graphs and their allocator keep what they know of a tensor at the index of its slot.
\<close>

section \<open>The bitset\<close>

definition ggml_bitset_size :: "nat \<Rightarrow> nat" where
  "ggml_bitset_size n = drop_bit 5 (n + 31)"

definition ggml_bitset_get :: "u32 list \<Rightarrow> nat \<Rightarrow> bool option" where
  "ggml_bitset_get bs i = map_option (\<lambda>w. w AND push_bit (i AND 31) 1 \<noteq> 0) (rd bs (drop_bit 5 i))"

definition ggml_bitset_set :: "u32 list \<Rightarrow> nat \<Rightarrow> u32 list option" where
  "ggml_bitset_set bs i =
     Option.bind (rd bs (drop_bit 5 i)) (\<lambda>w. wr (drop_bit 5 i) (w OR push_bit (i AND 31) 1) bs)"

definition ggml_bitset_clear :: "u32 list \<Rightarrow> nat \<Rightarrow> u32 list option" where
  "ggml_bitset_clear bs i =
     Option.bind (rd bs (drop_bit 5 i)) (\<lambda>w. wr (drop_bit 5 i) (w AND NOT (push_bit (i AND 31) 1)) bs)"

section \<open>The table\<close>

text \<open>A tensor is known by its address.  A key is defined only where its slot is in use.\<close>

record hash_set =
  hs_size :: nat
  hs_used :: "u32 list"
  hs_keys :: "nat list"

definition ggml_hash :: "nat \<Rightarrow> nat" where
  "ggml_hash p = drop_bit 4 p"

definition hash_primes :: "nat list" where
  "hash_primes = [2, 3, 5, 11, 17, 37, 67, 131, 257, 521, 1031, 2053, 4099, 8209, 16411, 32771, 65537, 131101,
     262147, 524309, 1048583, 2097169, 4194319, 8388617, 16777259, 33554467, 67108879, 134217757, 268435459,
     536870923, 1073741827, 2147483659]"

function prime_search :: "nat \<Rightarrow> nat \<Rightarrow> nat \<Rightarrow> nat" where
  "prime_search min_sz l r =
     (if l < r
      then (let m = (l + r) div 2
            in if hash_primes ! m < min_sz then prime_search min_sz (m + 1) r else prime_search min_sz l m)
      else l)"
  by pat_completeness auto
termination
  by (relation "measure (\<lambda>(min_sz, l, r). r - l)") auto

declare prime_search.simps [simp del]

definition ggml_hash_size :: "nat \<Rightarrow> nat" where
  "ggml_hash_size min_sz =
     (let l = prime_search min_sz 0 (length hash_primes)
      in if l < length hash_primes then hash_primes ! l else min_sz OR 1)"

text \<open>The keys are not initialised; \<open>old\<close> is what the memory held.\<close>

definition ggml_hash_set_new :: "nat \<Rightarrow> (nat \<Rightarrow> nat) \<Rightarrow> hash_set" where
  "ggml_hash_set_new n old =
     (let size = ggml_hash_size n
      in \<lparr>hs_size = size, hs_used = replicate (ggml_bitset_size size) 0, hs_keys = map old [0 ..< size]\<rparr>)"

definition ggml_hash_set_reset :: "hash_set \<Rightarrow> hash_set" where
  "ggml_hash_set_reset hs = hs\<lparr>hs_used := replicate (ggml_bitset_size (hs_size hs)) 0\<rparr>"

text \<open>
  The probing loops.  The inner \<^term>\<open>None\<close> of a search is \<open>GGML_HASHSET_FULL\<close>, that of an insertion
  \<open>GGML_HASHSET_ALREADY_EXISTS\<close>; the outer one is an access out of bounds, the abort on a full table, or no end.
\<close>

partial_function (option) find_from :: "hash_set \<Rightarrow> nat \<Rightarrow> nat \<Rightarrow> nat \<Rightarrow> nat option option" where
  "find_from hs h key i =
     Option.bind (ggml_bitset_get (hs_used hs) i) (\<lambda>used.
       if \<not> used then Some (Some i)
       else Option.bind (rd (hs_keys hs) i) (\<lambda>k.
         if k = key then Some (Some i)
         else (let i' = (i + 1) mod hs_size hs in if i' = h then Some None else find_from hs h key i')))"

definition ggml_hash_find :: "hash_set \<Rightarrow> nat \<Rightarrow> nat option option" where
  "ggml_hash_find hs key =
     (if hs_size hs = 0 then None
      else (let h = ggml_hash key mod hs_size hs in find_from hs h key h))"

definition ggml_hash_contains :: "hash_set \<Rightarrow> nat \<Rightarrow> bool option" where
  "ggml_hash_contains hs key =
     Option.bind (ggml_hash_find hs key) (\<lambda>r.
       case r of None \<Rightarrow> Some False | Some i \<Rightarrow> ggml_bitset_get (hs_used hs) i)"

definition put_key :: "hash_set \<Rightarrow> nat \<Rightarrow> nat \<Rightarrow> hash_set option" where
  "put_key hs i key =
     Option.bind (ggml_bitset_set (hs_used hs) i) (\<lambda>used.
       map_option (\<lambda>keys. hs\<lparr>hs_used := used, hs_keys := keys\<rparr>) (wr i key (hs_keys hs)))"

partial_function (option) insert_from :: "hash_set \<Rightarrow> nat \<Rightarrow> nat \<Rightarrow> nat \<Rightarrow> (nat option \<times> hash_set) option" where
  "insert_from hs h key i =
     Option.bind (ggml_bitset_get (hs_used hs) i) (\<lambda>used.
       if \<not> used then map_option (\<lambda>hs'. (Some i, hs')) (put_key hs i key)
       else Option.bind (rd (hs_keys hs) i) (\<lambda>k.
         if k = key then Some (None, hs)
         else (let i' = (i + 1) mod hs_size hs in if i' = h then None else insert_from hs h key i')))"

definition ggml_hash_insert :: "hash_set \<Rightarrow> nat \<Rightarrow> (nat option \<times> hash_set) option" where
  "ggml_hash_insert hs key =
     (if hs_size hs = 0 then None
      else (let h = ggml_hash key mod hs_size hs in insert_from hs h key h))"

partial_function (option) find_or_insert_from :: "hash_set \<Rightarrow> nat \<Rightarrow> nat \<Rightarrow> nat \<Rightarrow> (nat \<times> hash_set) option" where
  "find_or_insert_from hs h key i =
     Option.bind (ggml_bitset_get (hs_used hs) i) (\<lambda>used.
       if \<not> used then map_option (\<lambda>hs'. (i, hs')) (put_key hs i key)
       else Option.bind (rd (hs_keys hs) i) (\<lambda>k.
         if k = key then Some (i, hs)
         else (let i' = (i + 1) mod hs_size hs in if i' = h then None else find_or_insert_from hs h key i')))"

definition ggml_hash_find_or_insert :: "hash_set \<Rightarrow> nat \<Rightarrow> (nat \<times> hash_set) option" where
  "ggml_hash_find_or_insert hs key =
     (if hs_size hs = 0 then None
      else (let h = ggml_hash key mod hs_size hs in find_or_insert_from hs h key h))"

section \<open>The bits\<close>

lemma slot_bit: "i AND 31 = i mod 32" "drop_bit 5 i = i div 32" for i :: nat
proof -
  have "i AND 31 = i AND mask 5" by (simp add: mask_eq_exp_minus_1)
  then show "i AND 31 = i mod 32" by (simp add: take_bit_eq_mask [symmetric] take_bit_eq_mod)
  show "drop_bit 5 i = i div 32" by (simp add: drop_bit_eq_div)
qed

lemma test_bit: "w AND push_bit j 1 \<noteq> 0 \<longleftrightarrow> bit w j" for w :: u32
  by (simp add: and_exp_eq_0_iff_not_bit push_bit_of_1)

lemma bitset_get_eq: "ggml_bitset_get bs i = (if i div 32 < length bs then Some (bit (bs ! (i div 32)) (i mod 32)) else None)"
  by (simp add: ggml_bitset_get_def slot_bit test_bit rd_def del: push_bit_of_1)

lemma slots_differ: "j \<noteq> i \<Longrightarrow> j div 32 = i div 32 \<Longrightarrow> j mod 32 \<noteq> i mod 32" for i j :: nat
  by (metis div_mult_mod_eq)

lemma bitset_set_get:
  assumes "i div 32 < length bs"
  shows "\<exists>bs'. ggml_bitset_set bs i = Some bs' \<and> length bs' = length bs \<and>
    ggml_bitset_get bs' j = (if j = i then Some True else ggml_bitset_get bs j)"
  using assms
  by (auto simp: ggml_bitset_set_def bitset_get_eq slot_bit bit_or_iff push_bit_of_1 bit_exp_iff nth_list_update
      dest: slots_differ)

lemma bitset_clear_get:
  assumes "i div 32 < length bs"
  shows "\<exists>bs'. ggml_bitset_clear bs i = Some bs' \<and> length bs' = length bs \<and>
    ggml_bitset_get bs' j = (if j = i then Some False else ggml_bitset_get bs j)"
  using assms
  by (auto simp: ggml_bitset_clear_def bitset_get_eq slot_bit bit_and_iff bit_not_iff push_bit_of_1 bit_exp_iff
      nth_list_update dest: slots_differ)

lemma bitset_size_covers: "i < n \<Longrightarrow> i div 32 < ggml_bitset_size n"
  by (simp add: ggml_bitset_size_def slot_bit div_less_iff_less_mult)

lemma bitset_get_new: "i div 32 < n \<Longrightarrow> ggml_bitset_get (replicate n 0) i = Some False"
  by (simp add: bitset_get_eq)

section \<open>The size of a table\<close>

lemma hash_primes_sorted: "i < j \<Longrightarrow> j < length hash_primes \<Longrightarrow> hash_primes ! i < hash_primes ! j"
proof -
  have "sorted_wrt (<) hash_primes" by (simp add: hash_primes_def)
  then show "i < j \<Longrightarrow> j < length hash_primes \<Longrightarrow> hash_primes ! i < hash_primes ! j" by (simp add: sorted_wrt_iff_nth_less)
qed

lemma prime_search_spec:
  "l \<le> r \<Longrightarrow> r \<le> length hash_primes \<Longrightarrow> (\<forall>i < l. hash_primes ! i < min_sz) \<Longrightarrow>
     (\<forall>i. r \<le> i \<and> i < length hash_primes \<longrightarrow> min_sz \<le> hash_primes ! i) \<Longrightarrow>
     (let k = prime_search min_sz l r
      in k \<le> length hash_primes \<and> (\<forall>i < k. hash_primes ! i < min_sz) \<and>
         (\<forall>i. k \<le> i \<and> i < length hash_primes \<longrightarrow> min_sz \<le> hash_primes ! i))"
proof (induction min_sz l r rule: prime_search.induct)
  case (1 min_sz l r)
  show ?case
  proof (cases "l < r")
    case True
    define m where "m = (l + r) div 2"
    have m: "l \<le> m" "m < r" using True by (simp_all add: m_def)
    show ?thesis
    proof (cases "hash_primes ! m < min_sz")
      case True
      then have "\<forall>i < m + 1. hash_primes ! i < min_sz"
        using hash_primes_sorted [of _ m] m "1.prems"(2) by (metis less_Suc_eq Suc_eq_plus1 less_le_trans order_less_trans)
      then show ?thesis using "1.IH"(1) [OF \<open>l < r\<close> m_def True] "1.prems" m True \<open>l < r\<close>
        by (subst prime_search.simps) (simp add: m_def [symmetric] Let_def)
    next
      case False
      then have "\<forall>i. m \<le> i \<and> i < length hash_primes \<longrightarrow> min_sz \<le> hash_primes ! i"
        using hash_primes_sorted [of m] by (metis le_neq_implies_less less_imp_le not_less order_trans)
      then show ?thesis using "1.IH"(2) [OF \<open>l < r\<close> m_def False] "1.prems" m False \<open>l < r\<close>
        by (subst prime_search.simps) (simp add: m_def [symmetric] Let_def)
    qed
  qed (use "1.prems" in \<open>subst prime_search.simps, auto\<close>)
qed

lemma hash_size_spec:
  "min_sz \<le> ggml_hash_size min_sz" "0 < ggml_hash_size min_sz"
  "p \<in> set hash_primes \<Longrightarrow> min_sz \<le> p \<Longrightarrow> ggml_hash_size min_sz \<le> p"
proof -
  define k where "k = prime_search min_sz 0 (length hash_primes)"
  have k: "k \<le> length hash_primes" "\<forall>i < k. hash_primes ! i < min_sz"
    "\<forall>i. k \<le> i \<and> i < length hash_primes \<longrightarrow> min_sz \<le> hash_primes ! i"
    using prime_search_spec [of 0 "length hash_primes" min_sz] by (simp_all add: k_def Let_def)
  have sz: "ggml_hash_size min_sz = (if k < length hash_primes then hash_primes ! k else min_sz OR 1)"
    by (simp add: ggml_hash_size_def k_def)
  have o: "min_sz \<le> min_sz OR 1" "0 < min_sz OR 1" using or_one_eq [of min_sz] by (cases "min_sz = 0"; simp)+
  have pos: "0 < hash_primes ! i" if "i < length hash_primes" for i
    using hash_primes_sorted [of 0 i] that by (cases "i = 0") (simp_all add: hash_primes_def)
  show "min_sz \<le> ggml_hash_size min_sz" "0 < ggml_hash_size min_sz" using k(3) o pos by (simp_all add: sz)
  assume p: "p \<in> set hash_primes" "min_sz \<le> p"
  then obtain i where i: "i < length hash_primes" "hash_primes ! i = p" by (auto simp: in_set_conv_nth)
  then have "k \<le> i" using k(2) p(2) by (meson not_less)
  then show "ggml_hash_size min_sz \<le> p" using i hash_primes_sorted [of k i] by (auto simp: sz le_less)
qed

section \<open>The table as a set\<close>

definition in_use :: "hash_set \<Rightarrow> nat \<Rightarrow> bool" where
  "in_use hs i \<longleftrightarrow> i < hs_size hs \<and> ggml_bitset_get (hs_used hs) i = Some True"

text \<open>The \<open>d\<close>-th slot that is looked at for a key.\<close>

definition probe :: "hash_set \<Rightarrow> nat \<Rightarrow> nat \<Rightarrow> nat" where
  "probe hs key d = (ggml_hash key mod hs_size hs + d) mod hs_size hs"

definition passed :: "hash_set \<Rightarrow> nat \<Rightarrow> nat \<Rightarrow> bool" where
  "passed hs key d \<longleftrightarrow> (\<forall>e < d. in_use hs (probe hs key e) \<and> hs_keys hs ! probe hs key e \<noteq> key)"

text \<open>Every key is where looking for it arrives.\<close>

definition hash_ok :: "hash_set \<Rightarrow> bool" where
  "hash_ok hs \<longleftrightarrow> 0 < hs_size hs \<and> length (hs_used hs) = ggml_bitset_size (hs_size hs) \<and>
     length (hs_keys hs) = hs_size hs \<and>
     (\<forall>i. in_use hs i \<longrightarrow> (\<exists>d < hs_size hs. i = probe hs (hs_keys hs ! i) d \<and> passed hs (hs_keys hs ! i) d))"

definition elems :: "hash_set \<Rightarrow> nat set" where
  "elems hs = (\<lambda>i. hs_keys hs ! i) ` {i. in_use hs i}"

lemma probe_less: "0 < hs_size hs \<Longrightarrow> probe hs key d < hs_size hs"
  by (simp add: probe_def)

lemma probe_0: "probe hs key 0 = ggml_hash key mod hs_size hs"
  by (simp add: probe_def)

lemma probe_Suc: "(probe hs key d + 1) mod hs_size hs = probe hs key (Suc d)"
  unfolding probe_def by (metis add.assoc mod_add_left_eq plus_1_eq_Suc add.commute)

lemma probe_inj: "d < hs_size hs \<Longrightarrow> e < hs_size hs \<Longrightarrow> probe hs key d = probe hs key e \<Longrightarrow> d = e"
proof (induction d e rule: linorder_wlog)
  case (le d e)
  have "(ggml_hash key mod hs_size hs + e) mod hs_size hs = (ggml_hash key mod hs_size hs + d) mod hs_size hs"
    using le by (simp add: probe_def)
  then have "hs_size hs dvd (ggml_hash key mod hs_size hs + e) - (ggml_hash key mod hs_size hs + d)"
    using le(1) by (simp only: mod_eq_dvd_iff_nat)
  then have "hs_size hs dvd e - d" by simp
  then show ?case using le by (auto dest: dvd_imp_le)
qed simp

lemma probe_onto: "i < hs_size hs \<Longrightarrow> \<exists>d < hs_size hs. probe hs key d = i"
proof -
  assume i: "i < hs_size hs"
  have "inj_on (probe hs key) {..< hs_size hs}" using probe_inj by (auto intro: inj_onI)
  moreover have "probe hs key ` {..< hs_size hs} \<subseteq> {..< hs_size hs}" using i probe_less by auto
  ultimately have "probe hs key ` {..< hs_size hs} = {..< hs_size hs}" by (intro endo_inj_surj) simp_all
  then show ?thesis using i by (metis imageE lessThan_iff)
qed

lemma used_in_range: "hash_ok hs \<Longrightarrow> i < hs_size hs \<Longrightarrow> ggml_bitset_get (hs_used hs) i = Some (in_use hs i)"
  using bitset_size_covers [of i "hs_size hs"] by (auto simp: hash_ok_def in_use_def bitset_get_eq)

lemma keys_distinct:
  assumes "hash_ok hs" "in_use hs i" "in_use hs j" "hs_keys hs ! i = hs_keys hs ! j"
  shows "i = j"
proof -
  obtain d where d: "d < hs_size hs" "i = probe hs (hs_keys hs ! i) d" "passed hs (hs_keys hs ! i) d"
    using assms(1,2) unfolding hash_ok_def by blast
  obtain e where e: "e < hs_size hs" "j = probe hs (hs_keys hs ! j) e" "passed hs (hs_keys hs ! j) e"
    using assms(1,3) unfolding hash_ok_def by blast
  have "\<not> d < e" "\<not> e < d" using d e assms(4) unfolding passed_def by metis+
  then show ?thesis using d(2) e(2) assms(4) by simp
qed

lemma card_elems: "hash_ok hs \<Longrightarrow> card (elems hs) = card {i. in_use hs i}"
  unfolding elems_def by (rule card_image) (auto intro: inj_onI keys_distinct)

lemma finite_in_use: "finite {i. in_use hs i}"
  by (rule finite_subset [of _ "{..< hs_size hs}"]) (auto simp: in_use_def)

text \<open>Where looking for a key ends.\<close>

definition stops_at :: "hash_set \<Rightarrow> nat \<Rightarrow> nat \<Rightarrow> bool" where
  "stops_at hs key d \<longleftrightarrow> d < hs_size hs \<and> passed hs key d \<and>
     (\<not> in_use hs (probe hs key d) \<or> hs_keys hs ! probe hs key d = key)"

lemma stops_or_full: "(\<exists>d. stops_at hs key d) \<or> passed hs key (hs_size hs)"
proof (cases "passed hs key (hs_size hs)")
  case False
  then obtain d where d: "d < hs_size hs" "\<not> in_use hs (probe hs key d) \<or> hs_keys hs ! probe hs key d = key"
    by (auto simp: passed_def)
  define P where "P d \<longleftrightarrow> \<not> in_use hs (probe hs key d) \<or> hs_keys hs ! probe hs key d = key" for d
  have Pd: "P d" using d(2) by (simp add: P_def)
  have "P (LEAST d. P d)" using Pd by (rule LeastI)
  moreover have "(LEAST d. P d) < hs_size hs" using Least_le [of P, OF Pd] d(1) by simp
  moreover have "\<not> P e" if "e < (LEAST d. P d)" for e using not_less_Least [OF that] .
  ultimately have "stops_at hs key (LEAST d. P d)" unfolding stops_at_def passed_def P_def by blast
  then show ?thesis by blast
qed simp

lemma stops_at_elem: "hash_ok hs \<Longrightarrow> stops_at hs key d \<Longrightarrow> in_use hs (probe hs key d) \<longleftrightarrow> key \<in> elems hs"
proof
  assume hs: "hash_ok hs" "stops_at hs key d"
  show "in_use hs (probe hs key d) \<Longrightarrow> key \<in> elems hs" using hs(2) by (auto simp: stops_at_def elems_def intro: rev_image_eqI)
  assume "key \<in> elems hs"
  then obtain i where i: "in_use hs i" "key = hs_keys hs ! i" by (auto simp: elems_def)
  then obtain e where e: "e < hs_size hs" "i = probe hs key e" "passed hs key e" using hs(1) unfolding hash_ok_def by blast
  have "\<not> e < d" using hs(2) i(2) e(2) unfolding stops_at_def passed_def by metis
  moreover have "\<not> in_use hs (probe hs key d) \<Longrightarrow> \<not> d < e" using e(3) unfolding passed_def by blast
  ultimately show "in_use hs (probe hs key d)" using i(1) e(2) by (metis linorder_neqE_nat)
qed

lemma full_no_elem: "hash_ok hs \<Longrightarrow> passed hs key (hs_size hs) \<Longrightarrow> key \<notin> elems hs \<and> card (elems hs) = hs_size hs"
proof
  assume hs: "hash_ok hs" "passed hs key (hs_size hs)"
  have all: "in_use hs i \<and> hs_keys hs ! i \<noteq> key" if "i < hs_size hs" for i
    using probe_onto [OF that, of key] hs(2) by (auto simp: passed_def)
  then show "key \<notin> elems hs" by (auto simp: elems_def in_use_def)
  have "{i. in_use hs i} = {..< hs_size hs}" using all by (auto simp: in_use_def)
  then show "card (elems hs) = hs_size hs" using card_elems [OF hs(1)] by simp
qed

lemma room_stops: "hash_ok hs \<Longrightarrow> key \<in> elems hs \<or> card (elems hs) < hs_size hs \<Longrightarrow> \<exists>d. stops_at hs key d"
  using stops_or_full [of hs key] full_no_elem [of hs key] by auto

section \<open>The loops\<close>

text \<open>What the three loops have in common: they go on around the table as long as they meet other keys.\<close>

lemma walk:
  assumes "hash_ok hs" and step: "\<And>i. in_use hs i \<Longrightarrow> hs_keys hs ! i \<noteq> key \<Longrightarrow>
      f i = (if (i + 1) mod hs_size hs = probe hs key 0 then stop else f ((i + 1) mod hs_size hs))"
  shows "d < hs_size hs \<Longrightarrow> passed hs key d \<Longrightarrow> f (probe hs key 0) = f (probe hs key d)"
    and "passed hs key (hs_size hs) \<Longrightarrow> f (probe hs key 0) = stop"
proof -
  have size: "0 < hs_size hs" using assms(1) by (simp add: hash_ok_def)
  have next_one: "f (probe hs key d) = (if probe hs key (Suc d) = probe hs key 0 then stop else f (probe hs key (Suc d)))"
    if "d < e" "passed hs key e" for d e
    using step [of "probe hs key d"] that by (simp add: passed_def probe_Suc [symmetric])
  show main: "f (probe hs key 0) = f (probe hs key d)" if "d < hs_size hs" "passed hs key d" for d
    using that
  proof (induction d)
    case (Suc d)
    have "probe hs key (Suc d) \<noteq> probe hs key 0" using probe_inj [of "Suc d" hs 0 key] Suc.prems(1) size by auto
    then show ?case using Suc next_one [of d "Suc d"] by (simp add: passed_def)
  qed simp
  assume p: "passed hs key (hs_size hs)"
  then have "f (probe hs key 0) = f (probe hs key (hs_size hs - 1))"
    by (intro main) (use size in \<open>simp_all add: passed_def\<close>)
  moreover have "probe hs key (Suc (hs_size hs - 1)) = probe hs key 0" using size by (simp add: probe_def)
  ultimately show "f (probe hs key 0) = stop" using next_one [OF _ p, of "hs_size hs - 1"] size by simp
qed

lemma slot_known:
  assumes "hash_ok hs" "i < hs_size hs"
  shows "ggml_bitset_get (hs_used hs) i = Some (in_use hs i)" "rd (hs_keys hs) i = Some (hs_keys hs ! i)"
  using used_in_range [OF assms] assms by (simp_all add: hash_ok_def)

lemma find_spec:
  assumes "hash_ok hs"
  shows "stops_at hs key d \<Longrightarrow> ggml_hash_find hs key = Some (Some (probe hs key d))"
    and "passed hs key (hs_size hs) \<Longrightarrow> ggml_hash_find hs key = Some None"
proof -
  let ?f = "find_from hs (probe hs key 0) key"
  have eq: "ggml_hash_find hs key = ?f (probe hs key 0)" using assms by (simp add: ggml_hash_find_def probe_0 hash_ok_def Let_def)
  have step: "?f i = (if (i + 1) mod hs_size hs = probe hs key 0 then Some None else ?f ((i + 1) mod hs_size hs))"
    if "in_use hs i" "hs_keys hs ! i \<noteq> key" for i
    using slot_known [OF assms, of i] that by (subst find_from.simps) (simp add: in_use_def Let_def)
  show "passed hs key (hs_size hs) \<Longrightarrow> ggml_hash_find hs key = Some None" using walk(2) [OF assms step] eq by simp
  assume d: "stops_at hs key d"
  then have "ggml_hash_find hs key = ?f (probe hs key d)" using walk(1) [OF assms step] eq by (simp add: stops_at_def)
  also have "\<dots> = Some (Some (probe hs key d))"
    using slot_known [OF assms, of "probe hs key d"] d assms
    by (subst find_from.simps) (auto simp: stops_at_def hash_ok_def probe_less)
  finally show "ggml_hash_find hs key = Some (Some (probe hs key d))" .
qed

lemma find_or_insert_spec:
  assumes "hash_ok hs"
  shows "stops_at hs key d \<Longrightarrow> ggml_hash_find_or_insert hs key =
      (if key \<in> elems hs then Some (probe hs key d, hs)
       else map_option (\<lambda>hs'. (probe hs key d, hs')) (put_key hs (probe hs key d) key))"
    and "passed hs key (hs_size hs) \<Longrightarrow> ggml_hash_find_or_insert hs key = None"
proof -
  let ?f = "find_or_insert_from hs (probe hs key 0) key"
  have eq: "ggml_hash_find_or_insert hs key = ?f (probe hs key 0)"
    using assms by (simp add: ggml_hash_find_or_insert_def probe_0 hash_ok_def Let_def)
  have step: "?f i = (if (i + 1) mod hs_size hs = probe hs key 0 then None else ?f ((i + 1) mod hs_size hs))"
    if "in_use hs i" "hs_keys hs ! i \<noteq> key" for i
    using slot_known [OF assms, of i] that by (subst find_or_insert_from.simps) (simp add: in_use_def Let_def)
  show "passed hs key (hs_size hs) \<Longrightarrow> ggml_hash_find_or_insert hs key = None" using walk(2) [OF assms step] eq by simp
  assume d: "stops_at hs key d"
  then have "ggml_hash_find_or_insert hs key = ?f (probe hs key d)" using walk(1) [OF assms step] eq by (simp add: stops_at_def)
  also have "\<dots> = (if key \<in> elems hs then Some (probe hs key d, hs)
      else map_option (\<lambda>hs'. (probe hs key d, hs')) (put_key hs (probe hs key d) key))"
    using slot_known [OF assms, of "probe hs key d"] d assms stops_at_elem [OF assms d]
    by (subst find_or_insert_from.simps) (auto simp: stops_at_def hash_ok_def probe_less)
  finally show "ggml_hash_find_or_insert hs key = (if key \<in> elems hs then Some (probe hs key d, hs)
      else map_option (\<lambda>hs'. (probe hs key d, hs')) (put_key hs (probe hs key d) key))" .
qed

lemma insert_spec:
  assumes "hash_ok hs"
  shows "stops_at hs key d \<Longrightarrow> ggml_hash_insert hs key =
      (if key \<in> elems hs then Some (None, hs)
       else map_option (\<lambda>hs'. (Some (probe hs key d), hs')) (put_key hs (probe hs key d) key))"
    and "passed hs key (hs_size hs) \<Longrightarrow> ggml_hash_insert hs key = None"
proof -
  let ?f = "insert_from hs (probe hs key 0) key"
  have eq: "ggml_hash_insert hs key = ?f (probe hs key 0)" using assms by (simp add: ggml_hash_insert_def probe_0 hash_ok_def Let_def)
  have step: "?f i = (if (i + 1) mod hs_size hs = probe hs key 0 then None else ?f ((i + 1) mod hs_size hs))"
    if "in_use hs i" "hs_keys hs ! i \<noteq> key" for i
    using slot_known [OF assms, of i] that by (subst insert_from.simps) (simp add: in_use_def Let_def)
  show "passed hs key (hs_size hs) \<Longrightarrow> ggml_hash_insert hs key = None" using walk(2) [OF assms step] eq by simp
  assume d: "stops_at hs key d"
  then have "ggml_hash_insert hs key = ?f (probe hs key d)" using walk(1) [OF assms step] eq by (simp add: stops_at_def)
  also have "\<dots> = (if key \<in> elems hs then Some (None, hs)
      else map_option (\<lambda>hs'. (Some (probe hs key d), hs')) (put_key hs (probe hs key d) key))"
    using slot_known [OF assms, of "probe hs key d"] d assms stops_at_elem [OF assms d]
    by (subst insert_from.simps) (auto simp: stops_at_def hash_ok_def probe_less)
  finally show "ggml_hash_insert hs key = (if key \<in> elems hs then Some (None, hs)
      else map_option (\<lambda>hs'. (Some (probe hs key d), hs')) (put_key hs (probe hs key d) key))" .
qed

section \<open>Putting a key in\<close>

lemma put_key_ok:
  assumes "hash_ok hs" "stops_at hs key d" "key \<notin> elems hs"
  shows "\<exists>hs'. put_key hs (probe hs key d) key = Some hs' \<and> hash_ok hs' \<and> hs_size hs' = hs_size hs \<and>
    elems hs' = insert key (elems hs) \<and> in_use hs' (probe hs key d) \<and> hs_keys hs' ! probe hs key d = key \<and>
    (\<forall>i. in_use hs i \<longrightarrow> in_use hs' i \<and> hs_keys hs' ! i = hs_keys hs ! i) \<and>
    (\<forall>i. in_use hs' i \<longrightarrow> i = probe hs key d \<or> in_use hs i)"
proof -
  let ?p = "probe hs key d"
  have size: "0 < hs_size hs" "length (hs_keys hs) = hs_size hs" "length (hs_used hs) = ggml_bitset_size (hs_size hs)"
    using assms(1) by (simp_all add: hash_ok_def)
  have p: "?p < hs_size hs" using probe_less size(1) by simp
  then have "?p div 32 < length (hs_used hs)" using bitset_size_covers size(3) by simp
  then obtain used where used: "ggml_bitset_set (hs_used hs) ?p = Some used" "length used = length (hs_used hs)"
    "\<And>j. ggml_bitset_get used j = (if j = ?p then Some True else ggml_bitset_get (hs_used hs) j)"
    using bitset_set_get by (metis option.inject)
  define hs' where "hs' = hs\<lparr>hs_used := used, hs_keys := (hs_keys hs)[?p := key]\<rparr>"
  have put: "put_key hs ?p key = Some hs'" using p size(2) used(1) by (simp add: put_key_def hs'_def)
  have use: "in_use hs' j \<longleftrightarrow> j = ?p \<or> in_use hs j" for j using used(3) p by (simp add: in_use_def hs'_def)
  have new: "\<not> in_use hs ?p" using stops_at_elem assms by simp
  have keys: "hs_keys hs' ! ?p = key" "in_use hs j \<Longrightarrow> hs_keys hs' ! j = hs_keys hs ! j" for j
    using p size(2) new by (auto simp: hs'_def nth_list_update)
  have probes: "probe hs' k e = probe hs k e" "hs_size hs' = hs_size hs" for k e by (simp_all add: probe_def hs'_def)
  have passes: "passed hs k e \<Longrightarrow> passed hs' k e" for k e using use keys(2) by (auto simp: passed_def probes)
  have "\<exists>e < hs_size hs'. j = probe hs' (hs_keys hs' ! j) e \<and> passed hs' (hs_keys hs' ! j) e" if j: "in_use hs' j" for j
  proof (cases "j = ?p")
    case True
    then show ?thesis using assms(2) passes [of key d] keys(1) by (auto simp: stops_at_def probes)
  next
    case False
    then have "in_use hs j" using j use by simp
    moreover from this obtain e where "e < hs_size hs" "j = probe hs (hs_keys hs ! j) e" "passed hs (hs_keys hs ! j) e"
      using assms(1) unfolding hash_ok_def by blast
    ultimately show ?thesis using passes keys(2) by (auto simp: probes)
  qed
  then have ok: "hash_ok hs'" using size used(2) by (simp add: hash_ok_def) (simp add: hs'_def)
  have "elems hs' = insert key (elems hs)"
  proof -
    have "{i. in_use hs' i} = insert ?p {i. in_use hs i}" using use by auto
    moreover have "(\<lambda>i. hs_keys hs' ! i) ` {i. in_use hs i} = elems hs" unfolding elems_def by (rule image_cong) (auto simp: keys(2))
    ultimately show ?thesis by (simp add: elems_def keys(1))
  qed
  then show ?thesis using put ok use keys probes(2) by blast
qed

lemma new_table:
  "hash_ok (ggml_hash_set_new n old)" "elems (ggml_hash_set_new n old) = {}" "n \<le> hs_size (ggml_hash_set_new n old)"
proof -
  let ?hs = "ggml_hash_set_new n old"
  have "\<not> in_use ?hs i" for i
    using bitset_get_new [OF bitset_size_covers [of i "ggml_hash_size n"]]
    by (auto simp: in_use_def ggml_hash_set_new_def Let_def)
  then show "hash_ok ?hs" "elems ?hs = {}" using hash_size_spec(2) [of n]
    by (simp_all add: hash_ok_def elems_def) (simp add: ggml_hash_set_new_def Let_def)
  show "n \<le> hs_size ?hs" using hash_size_spec(1) by (simp add: ggml_hash_set_new_def Let_def)
qed

lemma reset_table:
  assumes "hash_ok hs"
  shows "hash_ok (ggml_hash_set_reset hs)" "elems (ggml_hash_set_reset hs) = {}"
proof -
  have "\<not> in_use (ggml_hash_set_reset hs) i" for i
    using bitset_get_new [OF bitset_size_covers [of i "hs_size hs"]] by (auto simp: in_use_def ggml_hash_set_reset_def)
  then show "hash_ok (ggml_hash_set_reset hs)" "elems (ggml_hash_set_reset hs) = {}" using assms
    by (simp_all add: hash_ok_def elems_def) (simp add: ggml_hash_set_reset_def)
qed

lemma find_or_insert_cases:
  assumes "hash_ok hs" "key \<in> elems hs \<or> card (elems hs) < hs_size hs"
  shows "\<exists>i hs'. ggml_hash_find_or_insert hs key = Some (i, hs') \<and> hash_ok hs' \<and> hs_size hs' = hs_size hs \<and>
    elems hs' = insert key (elems hs) \<and> in_use hs' i \<and> hs_keys hs' ! i = key \<and>
    (\<forall>j. in_use hs j \<longrightarrow> in_use hs' j \<and> hs_keys hs' ! j = hs_keys hs ! j) \<and> (\<forall>j. in_use hs' j \<longrightarrow> j = i \<or> in_use hs j)"
proof -
  obtain d where d: "stops_at hs key d" using room_stops [OF assms] by blast
  show ?thesis
  proof (cases "key \<in> elems hs")
    case True
    then have u: "in_use hs (probe hs key d)" "hs_keys hs ! probe hs key d = key"
      using stops_at_elem [OF assms(1) d] d by (auto simp: stops_at_def)
    then show ?thesis using find_or_insert_spec(1) [OF assms(1) d] True assms(1) by (auto simp: insert_absorb)
  next
    case False
    then show ?thesis using find_or_insert_spec(1) [OF assms(1) d] put_key_ok [OF assms(1) d False] by auto
  qed
qed

lemma contains_iff: "hash_ok hs \<Longrightarrow> ggml_hash_contains hs key = Some (key \<in> elems hs)"
proof -
  assume hs: "hash_ok hs"
  consider (stop) d where "stops_at hs key d" | (full) "passed hs key (hs_size hs)" using stops_or_full by blast
  then show ?thesis
  proof cases
    case stop
    then have "probe hs key d < hs_size hs" using probe_less hs by (simp add: hash_ok_def)
    then show ?thesis using find_spec(1) [OF hs stop] slot_known(1) [OF hs] stops_at_elem [OF hs stop]
      by (simp add: ggml_hash_contains_def)
  next
    case full
    then show ?thesis using find_spec(2) [OF hs full] full_no_elem [OF hs full] by (simp add: ggml_hash_contains_def)
  qed
qed

lemma elems_at_most: "hash_ok hs \<Longrightarrow> card (elems hs) \<le> hs_size hs"
  using card_elems card_mono [of "{..< hs_size hs}" "{i. in_use hs i}"] by (auto simp: in_use_def)

lemma find_or_insert_full:
  assumes "hash_ok hs" "key \<notin> elems hs" "card (elems hs) = hs_size hs"
  shows "ggml_hash_find_or_insert hs key = None"
proof -
  have "\<not> stops_at hs key d" for d
  proof
    assume d: "stops_at hs key d"
    have "{i. in_use hs i} = {..< hs_size hs}"
      by (rule card_subset_eq) (use card_elems [OF assms(1)] assms(3) in \<open>auto simp: in_use_def\<close>)
    then have "in_use hs (probe hs key d)" using probe_less assms(1) by (auto simp: hash_ok_def)
    then show False using stops_at_elem [OF assms(1) d] assms(2) by simp
  qed
  then show ?thesis using stops_or_full find_or_insert_spec(2) [OF assms(1)] by blast
qed

text \<open>
  The table is a set of at most as many keys as it has slots: looking a key up answers whether it
  is in the set, and finding or inserting gives the slot of the key, which later insertions do not move; it fails
  only for a new key in a full table.
\<close>

theorem hash_set_refines:
  assumes "hash_ok hs"
  shows "ggml_hash_contains hs key = Some (key \<in> elems hs) \<and>
    (case ggml_hash_find_or_insert hs key of
       None \<Rightarrow> key \<notin> elems hs \<and> card (elems hs) = hs_size hs
     | Some (i, hs') \<Rightarrow> hash_ok hs' \<and> elems hs' = insert key (elems hs) \<and> in_use hs' i \<and> hs_keys hs' ! i = key \<and>
         (\<forall>j. in_use hs j \<longrightarrow> in_use hs' j \<and> hs_keys hs' ! j = hs_keys hs ! j))"
proof -
  have "card (elems hs) \<le> hs_size hs" using elems_at_most [OF assms] .
  then consider "key \<in> elems hs \<or> card (elems hs) < hs_size hs" | "key \<notin> elems hs" "card (elems hs) = hs_size hs" by linarith
  then show ?thesis
  proof cases
    case 1
    then show ?thesis using find_or_insert_cases [OF assms 1] contains_iff [OF assms] by auto
  next
    case 2
    then show ?thesis using find_or_insert_full [OF assms] contains_iff [OF assms] by simp
  qed
qed

definition demo_table :: hash_set where
  "demo_table = ggml_hash_set_new 3 (\<lambda>i. 7)"

theorem hash_set_refines_witness:
  "ggml_hash_contains demo_table 7 = Some False"
  using hash_set_refines [of demo_table 7] new_table by (simp add: demo_table_def)

section \<open>Values by key\<close>

text \<open>A store that is read and written under keys, as long as it has room for them.\<close>

fun accesses :: "('s \<Rightarrow> 'k \<Rightarrow> ('v \<Rightarrow> 'v) \<Rightarrow> ('v \<times> 's) option) \<Rightarrow> ('k \<times> ('v \<Rightarrow> 'v)) list \<Rightarrow> 's \<Rightarrow> ('v list \<times> 's) option" where
  "accesses acc [] s = Some ([], s)"
| "accesses acc ((k, f) # ks) s =
     Option.bind (acc s k f) (\<lambda>(v, s1). map_option (\<lambda>(vs, s2). (v # vs, s2)) (accesses acc ks s1))"

fun map_accesses :: "('k \<times> ('v \<Rightarrow> 'v)) list \<Rightarrow> ('k \<Rightarrow> 'v) \<Rightarrow> 'v list \<times> ('k \<Rightarrow> 'v)" where
  "map_accesses [] m = ([], m)"
| "map_accesses ((k, f) # ks) m = (let (vs, m') = map_accesses ks (m(k := f (m k))) in (m k # vs, m'))"

locale keyed_store =
  fixes acc :: "'s \<Rightarrow> 'k \<Rightarrow> ('v \<Rightarrow> 'v) \<Rightarrow> ('v \<times> 's) option" and content :: "'s \<Rightarrow> 'k \<Rightarrow> 'v"
    and keys :: "'s \<Rightarrow> 'k set" and room :: "'s \<Rightarrow> nat" and good :: "'s \<Rightarrow> bool"
  assumes access_ok: "good s \<Longrightarrow> k \<in> keys s \<or> card (keys s) < room s \<Longrightarrow>
    \<exists>s'. acc s k f = Some (content s k, s') \<and> good s' \<and> content s' = (content s)(k := f (content s k)) \<and>
      keys s' = insert k (keys s) \<and> room s' = room s"
    and finite_keys: "good s \<Longrightarrow> finite (keys s)"
begin

lemma accesses_ok:
  "good s \<Longrightarrow> card (keys s \<union> fst ` set ks) \<le> room s \<Longrightarrow>
     \<exists>s'. accesses acc ks s = Some (fst (map_accesses ks (content s)), s') \<and>
       content s' = snd (map_accesses ks (content s)) \<and> keys s' = keys s \<union> fst ` set ks \<and> good s'"
proof (induction ks arbitrary: s)
  case (Cons a ks)
  obtain k f where a: "a = (k, f)" by (cases a)
  have "card (insert k (keys s)) \<le> card (keys s \<union> fst ` set (a # ks))"
    by (rule card_mono) (use finite_keys [OF Cons.prems(1)] a in auto)
  then have "k \<in> keys s \<or> card (keys s) < room s"
    using Cons.prems(2) finite_keys [OF Cons.prems(1)] by (cases "k \<in> keys s") simp_all
  then obtain s1 where s1: "acc s k f = Some (content s k, s1)" "good s1" "content s1 = (content s)(k := f (content s k))"
    "keys s1 = insert k (keys s)" "room s1 = room s"
    using access_ok [OF Cons.prems(1)] by blast
  have "keys s1 \<union> fst ` set ks = keys s \<union> fst ` set (a # ks)" using s1(4) a by auto
  then obtain s2 where s2: "accesses acc ks s1 = Some (fst (map_accesses ks (content s1)), s2)"
    "content s2 = snd (map_accesses ks (content s1))" "keys s2 = keys s \<union> fst ` set (a # ks)" "good s2"
    using Cons.IH [OF s1(2)] Cons.prems(2) s1(5) by auto
  then show ?case using s1(1,3) a by (simp add: split_beta Let_def)
qed simp

end

text \<open>An array beside the table, indexed by the slots of the keys; the slots of a fresh one hold zeros.\<close>

record 'v hash_values =
  hv_set :: hash_set
  hv_values :: "'v list"

definition value_access :: "'v hash_values \<Rightarrow> nat \<Rightarrow> ('v \<Rightarrow> 'v) \<Rightarrow> ('v \<times> 'v hash_values) option" where
  "value_access t key f =
     Option.bind (ggml_hash_find_or_insert (hv_set t) key) (\<lambda>(i, hs).
       Option.bind (rd (hv_values t) i) (\<lambda>v.
         map_option (\<lambda>vs. (v, \<lparr>hv_set = hs, hv_values = vs\<rparr>)) (wr i (f v) (hv_values t))))"

definition values_reset :: "'v \<Rightarrow> 'v hash_values \<Rightarrow> 'v hash_values" where
  "values_reset zero t = \<lparr>hv_set = ggml_hash_set_reset (hv_set t), hv_values = replicate (hs_size (hv_set t)) zero\<rparr>"

definition value_of :: "'v \<Rightarrow> 'v hash_values \<Rightarrow> nat \<Rightarrow> 'v" where
  "value_of zero t key =
     (case ggml_hash_find (hv_set t) key of Some (Some i) \<Rightarrow> hv_values t ! i | _ \<Rightarrow> zero)"

definition values_ok :: "'v \<Rightarrow> 'v hash_values \<Rightarrow> bool" where
  "values_ok zero t \<longleftrightarrow> hash_ok (hv_set t) \<and> length (hv_values t) = hs_size (hv_set t) \<and>
     (\<forall>i < hs_size (hv_set t). \<not> in_use (hv_set t) i \<longrightarrow> hv_values t ! i = zero)"

lemma value_of_in_use:
  assumes "values_ok zero t" "in_use (hv_set t) i" "hs_keys (hv_set t) ! i = key"
  shows "value_of zero t key = hv_values t ! i"
proof -
  let ?hs = "hv_set t"
  have hs: "hash_ok ?hs" using assms(1) by (simp add: values_ok_def)
  then obtain d where d: "d < hs_size ?hs" "i = probe ?hs key d" "passed ?hs key d"
    using assms(2,3) unfolding hash_ok_def by blast
  then have "stops_at ?hs key d" using assms(3) by (simp add: stops_at_def)
  then show ?thesis using find_spec(1) [OF hs] d(2) by (simp add: value_of_def)
qed

lemma value_of_absent:
  assumes "values_ok zero t" "key \<notin> elems (hv_set t)"
  shows "value_of zero t key = zero"
proof -
  have hs: "hash_ok (hv_set t)" using assms(1) by (simp add: values_ok_def)
  consider (stop) d where "stops_at (hv_set t) key d" | (full) "passed (hv_set t) key (hs_size (hv_set t))"
    using stops_or_full by blast
  then show ?thesis
  proof cases
    case stop
    then have "\<not> in_use (hv_set t) (probe (hv_set t) key d)" "probe (hv_set t) key d < hs_size (hv_set t)"
      using stops_at_elem [OF hs stop] assms(2) hs probe_less by (auto simp: hash_ok_def)
    then show ?thesis using find_spec(1) [OF hs stop] assms(1) by (simp add: value_of_def values_ok_def)
  qed (use find_spec(2) [OF hs] in \<open>simp add: value_of_def\<close>)
qed

lemma value_access_ok:
  assumes "values_ok zero t" "key \<in> elems (hv_set t) \<or> card (elems (hv_set t)) < hs_size (hv_set t)"
  shows "\<exists>t'. value_access t key f = Some (value_of zero t key, t') \<and> values_ok zero t' \<and>
    value_of zero t' = (value_of zero t)(key := f (value_of zero t key)) \<and>
    elems (hv_set t') = insert key (elems (hv_set t)) \<and> hs_size (hv_set t') = hs_size (hv_set t)"
proof -
  let ?hs = "hv_set t"
  have hs: "hash_ok ?hs" "length (hv_values t) = hs_size ?hs" using assms(1) by (simp_all add: values_ok_def)
  obtain i hs' where i: "ggml_hash_find_or_insert ?hs key = Some (i, hs')" "hash_ok hs'" "hs_size hs' = hs_size ?hs"
    "elems hs' = insert key (elems ?hs)" "in_use hs' i" "hs_keys hs' ! i = key"
    "\<And>j. in_use ?hs j \<Longrightarrow> in_use hs' j \<and> hs_keys hs' ! j = hs_keys ?hs ! j" "\<And>j. in_use hs' j \<Longrightarrow> j = i \<or> in_use ?hs j"
    using find_or_insert_cases [OF hs(1) assms(2)] by blast
  have len: "i < hs_size ?hs" using i(3,5) by (simp add: in_use_def)
  define t' where "t' = \<lparr>hv_set = hs', hv_values = (hv_values t)[i := f (hv_values t ! i)]\<rparr>"
  have v: "hv_values t ! i = value_of zero t key"
  proof (cases "in_use ?hs i")
    case True
    then show ?thesis using value_of_in_use [OF assms(1)] i(6,7) by metis
  next
    case False
    have "key \<notin> elems ?hs"
    proof
      assume "key \<in> elems ?hs"
      then obtain j where j: "in_use ?hs j" "hs_keys ?hs ! j = key" by (auto simp: elems_def)
      then have "j = i" using keys_distinct [OF i(2), of j i] i(5-7) by metis
      then show False using j(1) False by simp
    qed
    then show ?thesis using value_of_absent [OF assms(1)] False len assms(1) by (simp add: values_ok_def)
  qed
  have ok: "values_ok zero t'"
    unfolding values_ok_def t'_def hash_values.simps
  proof (intro conjI allI impI)
    fix j
    assume "j < hs_size hs'" "\<not> in_use hs' j"
    then show "(hv_values t)[i := f (hv_values t ! i)] ! j = zero"
      using i(3,5,7) assms(1) by (cases "j = i") (auto simp: values_ok_def)
  qed (use i(2,3) hs(2) in simp_all)
  have "value_of zero t' k = ((value_of zero t)(key := f (value_of zero t key))) k" for k
  proof (cases "k = key")
    case True
    then show ?thesis using value_of_in_use [OF ok, of i key] i(5,6) len hs(2) v by (simp add: t'_def)
  next
    case False
    show ?thesis
    proof (cases "k \<in> elems ?hs")
      case True
      then obtain j where j: "in_use ?hs j" "hs_keys ?hs ! j = k" by (auto simp: elems_def)
      then have "j \<noteq> i" using i(6,7) False by metis
      then show ?thesis using value_of_in_use [OF ok, of j k] value_of_in_use [OF assms(1) j] i(7) [OF j(1)] j(2) False
        by (simp add: t'_def)
    next
      case k: False
      then show ?thesis using value_of_absent [OF ok, of k] value_of_absent [OF assms(1) k] i(4) False by (simp add: t'_def)
    qed
  qed
  moreover have "value_access t key f = Some (value_of zero t key, t')"
    using i(1) len hs(2) by (simp add: value_access_def t'_def v)
  ultimately show ?thesis using ok i(3,4) by (auto simp: t'_def)
qed

text \<open>An access that succeeds had room.\<close>

lemma value_accessD:
  assumes "values_ok zero t" "value_access t key f = Some (v, t')"
  shows "v = value_of zero t key" "values_ok zero t'" "value_of zero t' = (value_of zero t)(key := f v)"
proof -
  have hs: "hash_ok (hv_set t)" using assms(1) by (simp add: values_ok_def)
  have "ggml_hash_find_or_insert (hv_set t) key \<noteq> None" using assms(2) by (auto simp: value_access_def bind_eq_Some_conv)
  then have "key \<in> elems (hv_set t) \<or> card (elems (hv_set t)) < hs_size (hv_set t)"
    using find_or_insert_full [OF hs] elems_at_most [OF hs] by fastforce
  from value_access_ok [OF assms(1) this, of f] show "v = value_of zero t key" "values_ok zero t'"
    "value_of zero t' = (value_of zero t)(key := f v)" using assms(2) by auto
qed

lemma values_reset_ok:
  assumes "hash_ok (hv_set t)"
  shows "values_ok zero (values_reset zero t)" "value_of zero (values_reset zero t) = (\<lambda>_. zero)"
proof -
  let ?t = "values_reset zero t"
  have e: "elems (hv_set ?t) = {}" "hash_ok (hv_set ?t)"
    using reset_table [OF assms] by (simp_all add: values_reset_def)
  then show ok: "values_ok zero ?t" by (simp add: values_ok_def) (simp add: values_reset_def ggml_hash_set_reset_def)
  show "value_of zero ?t = (\<lambda>_. zero)" using value_of_absent [OF ok] e(1) by auto
qed

interpretation slots: keyed_store value_access "value_of zero" "\<lambda>t. elems (hv_set t)" "\<lambda>t. hs_size (hv_set t)"
  "values_ok zero" for zero
proof
  show "values_ok zero s \<Longrightarrow> k \<in> elems (hv_set s) \<or> card (elems (hv_set s)) < hs_size (hv_set s) \<Longrightarrow>
    \<exists>s'. value_access s k f = Some (value_of zero s k, s') \<and> values_ok zero s' \<and>
      value_of zero s' = (value_of zero s)(k := f (value_of zero s k)) \<and> elems (hv_set s') = insert k (elems (hv_set s)) \<and>
      hs_size (hv_set s') = hs_size (hv_set s)" for s k f
    by (rule value_access_ok)
  show "values_ok zero s \<Longrightarrow> finite (elems (hv_set s))" for s
    by (simp add: elems_def finite_in_use)
qed

text \<open>
  The array indexed by slots, from a reset on, behaves like a function from tensors that is zero
  everywhere at first, for as many tensors as the table has slots.
\<close>

theorem hash_values_is_map:
  assumes "hash_ok (hv_set t)" "card (fst ` set ks) \<le> hs_size (hv_set t)"
  shows "map_option fst (accesses value_access ks (values_reset zero t)) = Some (fst (map_accesses ks (\<lambda>_. zero)))"
proof -
  note ok = values_reset_ok [OF assms(1), of zero]
  have "elems (hv_set (values_reset zero t)) = {}" "hs_size (hv_set (values_reset zero t)) = hs_size (hv_set t)"
    using reset_table [OF assms(1)] by (simp_all add: values_reset_def) (simp add: ggml_hash_set_reset_def)
  then show ?thesis using slots.accesses_ok [OF ok(1), of ks] assms(2) ok(2) by auto
qed

theorem hash_values_is_map_witness:
  "map_option fst (accesses value_access [(32, \<lambda>n. n + 1), (16, \<lambda>n. n + 5), (32, \<lambda>n. n)]
     (values_reset 0 \<lparr>hv_set = demo_table, hv_values = []\<rparr>)) = Some [0, 0, 1 :: nat]"
proof -
  let ?ks = "[(32, \<lambda>n. n + 1), (16, \<lambda>n. n + 5), (32, \<lambda>n. n)] :: (nat \<times> (nat \<Rightarrow> nat)) list"
  have "card (fst ` set ?ks) \<le> 3" by (simp add: card_insert_if)
  then have "map_option fst (accesses value_access ?ks (values_reset 0 \<lparr>hv_set = demo_table, hv_values = []\<rparr>)) =
      Some (fst (map_accesses ?ks (\<lambda>_. 0)))"
    using new_table(1,3) [of 3 "\<lambda>i. 7"] by (intro hash_values_is_map) (simp_all add: demo_table_def)
  then show ?thesis by simp
qed

end
