(* ===== verification/Compute_Graph.thy ===== *)
theory Compute_Graph
  imports Hash_Set
begin

text \<open>
  The graph of a computation, \<open>ggml_cgraph\<close> of \<open>src/ggml/src/ggml-impl.h\<close>, and how \<open>src/ggml/src/ggml.c\<close> builds it: the
  tensors that a result depends on are visited depth first, and each is appended behind its sources, so that
  computing the nodes in order computes every tensor after what it reads.
\<close>

section \<open>Tensors\<close>

text \<open>An operation is the number of its constant in the enumeration of \<open>src/ggml/include/ggml.h\<close>.\<close>

type_synonym ggml_op = nat

definition GGML_OP_NONE :: ggml_op where
  "GGML_OP_NONE = 0"

text \<open>
  What the graph and its allocator look at.  The bits of \<open>flags\<close> are booleans, except \<open>GGML_TENSOR_FLAG_COMPUTE\<close>,
  which the graph sets and which is kept with the graph; a null pointer is \<^term>\<open>None\<close>.
\<close>

record ggml_tensor =
  t_type :: nat
  t_ne :: "int list"
  t_nb :: "nat list"
  t_op :: ggml_op
  t_input :: bool
  t_output :: bool
  t_param :: bool
  t_src :: "nat option list"
  t_view_src :: "nat option"
  t_data :: "nat option"
  t_buffer :: "nat option"

type_synonym heap = "nat \<Rightarrow> ggml_tensor"

definition sources :: "heap \<Rightarrow> nat \<Rightarrow> nat list" where
  "sources T t = concat (map (\<lambda>s. case s of None \<Rightarrow> [] | Some p \<Rightarrow> [p]) (t_src (T t)))"

section \<open>The graph\<close>

record cgraph =
  cg_size :: nat
  cg_nodes :: "nat list"
  cg_leafs :: "nat list"
  cg_use_counts :: "int list"
  cg_visited :: hash_set
  cg_left_to_right :: bool
  cg_compute :: "nat \<Rightarrow> bool"

text \<open>\<open>old\<close> is what the memory held: use counts and keys are not initialised.\<close>

definition ggml_new_graph_custom :: "nat \<Rightarrow> (nat \<Rightarrow> nat) \<Rightarrow> (nat \<Rightarrow> bool) \<Rightarrow> cgraph" where
  "ggml_new_graph_custom n old compute =
     (let hash_size = ggml_hash_size (n * 2)
      in \<lparr>cg_size = n, cg_nodes = [], cg_leafs = [], cg_use_counts = map (int \<circ> old) [0 ..< hash_size],
          cg_visited = ggml_hash_set_reset \<lparr>hs_size = hash_size,
             hs_used = replicate (ggml_bitset_size hash_size) 0, hs_keys = map old [0 ..< hash_size]\<rparr>,
          cg_left_to_right = True, cg_compute = compute\<rparr>)"

definition is_leaf :: "heap \<Rightarrow> nat \<Rightarrow> bool" where
  "is_leaf T t \<longleftrightarrow> t_op (T t) = GGML_OP_NONE \<and> \<not> t_param (T t)"

primrec each :: "('a \<Rightarrow> 's \<Rightarrow> 's option) \<Rightarrow> 'a list \<Rightarrow> 's \<Rightarrow> 's option" where
  "each f [] s = Some s"
| "each f (x # xs) s = Option.bind (f x s) (each f xs)"

text \<open>The end of a visit: the tensor becomes a leaf or a node; a full graph fails an assertion.\<close>

definition append_tensor :: "heap \<Rightarrow> nat \<Rightarrow> cgraph \<Rightarrow> cgraph option" where
  "append_tensor T t g =
     (if is_leaf T t
      then (if length (cg_leafs g) < cg_size g then Some (g\<lparr>cg_leafs := cg_leafs g @ [t]\<rparr>) else None)
      else (if length (cg_nodes g) < cg_size g then Some (g\<lparr>cg_nodes := cg_nodes g @ [t]\<rparr>) else None))"

definition count_use :: "nat \<Rightarrow> cgraph \<Rightarrow> cgraph option" where
  "count_use pos g =
     Option.bind (rd (cg_use_counts g) pos) (\<lambda>n.
       map_option (\<lambda>uc. g\<lparr>cg_use_counts := uc\<rparr>) (wr pos (n + 1) (cg_use_counts g)))"

text \<open>
  The slot of the tensor and the graph; \<open>d\<close> bounds the depth of the recursion.
\<close>

primrec visit_parents :: "heap \<Rightarrow> nat \<Rightarrow> bool \<Rightarrow> nat \<Rightarrow> cgraph \<Rightarrow> (nat \<times> cgraph) option" where
  "visit_parents T 0 compute node g = None"
| "visit_parents T (Suc d) compute node g =
     (let g1 = (if t_op (T node) \<noteq> GGML_OP_NONE \<and> compute then g\<lparr>cg_compute := (cg_compute g)(node := True)\<rparr> else g)
      in case ggml_hash_find (cg_visited g1) node of
           Some (Some pos) \<Rightarrow>
             Option.bind (ggml_bitset_get (hs_used (cg_visited g1)) pos) (\<lambda>visited.
               if visited
               then (if compute
                     then map_option (\<lambda>g2. (pos, g2))
                       (each (\<lambda>s g. if cg_compute g s then Some g else map_option snd (visit_parents T d True s g))
                         (sources T node) g1)
                     else Some (pos, g1))
               else Option.bind (put_key (cg_visited g1) pos node) (\<lambda>hs.
                    Option.bind (wr pos 0 (cg_use_counts g1)) (\<lambda>uc.
                    Option.bind (each (\<lambda>s g. Option.bind (visit_parents T d compute s g) (\<lambda>(p, g'). count_use p g'))
                       ((if cg_left_to_right g1 then id else rev) (sources T node))
                       (g1\<lparr>cg_visited := hs, cg_use_counts := uc\<rparr>)) (\<lambda>g2.
                    map_option (\<lambda>g3. (pos, g3)) (append_tensor T node g2)))))
         | _ \<Rightarrow> None)"

definition ggml_build_forward_impl :: "heap \<Rightarrow> nat \<Rightarrow> bool \<Rightarrow> nat \<Rightarrow> cgraph \<Rightarrow> cgraph option" where
  "ggml_build_forward_impl T d compute node g =
     Option.bind (visit_parents T d compute node g) (\<lambda>(pos, g').
       if length (cg_nodes g') > length (cg_nodes g) \<and> last (cg_nodes g') \<noteq> node then None else Some g')"

definition ggml_build_forward_expand :: "heap \<Rightarrow> nat \<Rightarrow> nat \<Rightarrow> cgraph \<Rightarrow> cgraph option" where
  "ggml_build_forward_expand T d node g = ggml_build_forward_impl T d True node g"

section \<open>What a graph is\<close>

definition source_rel :: "heap \<Rightarrow> (nat \<times> nat) set" where
  "source_rel T = {(t, s). s \<in> set (sources T t)}"

definition needed :: "heap \<Rightarrow> nat \<Rightarrow> nat set" where
  "needed T t = {s. (t, s) \<in> (source_rel T)\<^sup>*}"

definition ranked :: "heap \<Rightarrow> (nat \<Rightarrow> nat) \<Rightarrow> bool" where
  "ranked T r \<longleftrightarrow> (\<forall>t. \<forall>s \<in> set (sources T t). r s < r t)"

abbreviation tensors_of :: "cgraph \<Rightarrow> nat set" where
  "tensors_of g \<equiv> set (cg_nodes g) \<union> set (cg_leafs g)"

text \<open>\<open>open_ts\<close> are the tensors whose visit has begun and not ended.\<close>

definition graph_inv :: "heap \<Rightarrow> nat set \<Rightarrow> cgraph \<Rightarrow> bool" where
  "graph_inv T open_ts g \<longleftrightarrow> hash_ok (cg_visited g) \<and> elems (cg_visited g) = tensors_of g \<union> open_ts \<and>
     tensors_of g \<inter> open_ts = {} \<and> distinct (cg_nodes g @ cg_leafs g) \<and>
     length (cg_use_counts g) = hs_size (cg_visited g) \<and> (\<forall>t \<in> set (cg_leafs g). is_leaf T t) \<and>
     (\<forall>t \<in> set (cg_nodes g). \<not> is_leaf T t) \<and>
     (\<forall>i < length (cg_nodes g). set (sources T (cg_nodes g ! i)) \<subseteq> set (take i (cg_nodes g)) \<union> set (cg_leafs g)) \<and>
     (\<forall>t \<in> set (cg_leafs g). set (sources T t) \<subseteq> tensors_of g)"

text \<open>How a visit changes the graph.\<close>

definition graph_grows :: "cgraph \<Rightarrow> nat set \<Rightarrow> cgraph \<Rightarrow> bool" where
  "graph_grows g new g' \<longleftrightarrow> cg_size g' = cg_size g \<and> hs_size (cg_visited g') = hs_size (cg_visited g) \<and>
     (\<exists>ns. cg_nodes g' = cg_nodes g @ ns) \<and> (\<exists>ls. cg_leafs g' = cg_leafs g @ ls) \<and> tensors_of g' \<subseteq> tensors_of g \<union> new"

lemma graph_grows_refl [simp]: "graph_grows g new g"
  by (simp add: graph_grows_def)

lemma graph_grows_trans: "graph_grows g new g' \<Longrightarrow> graph_grows g' new g'' \<Longrightarrow> graph_grows g new g''"
  unfolding graph_grows_def by (auto 0 3)

lemma graph_grows_mono: "graph_grows g new g' \<Longrightarrow> new \<subseteq> new' \<Longrightarrow> graph_grows g new' g'"
  unfolding graph_grows_def by blast

lemma graph_grows_tensors: "graph_grows g new g' \<Longrightarrow> tensors_of g \<subseteq> tensors_of g'"
  unfolding graph_grows_def by auto

lemma needed_refl [simp]: "t \<in> needed T t"
  by (simp add: needed_def)

lemma needed_source: "s \<in> set (sources T t) \<Longrightarrow> needed T s \<subseteq> needed T t"
  by (auto simp: needed_def source_rel_def intro: converse_rtrancl_into_rtrancl)

text \<open>A loop over the sources.\<close>

lemma each_ok:
  assumes "\<And>x s. x \<in> set xs \<Longrightarrow> I s \<Longrightarrow> \<exists>s'. f x s = Some s' \<and> I s' \<and> R s s' \<and> P x s'"
    and "\<And>s. R s s" "\<And>s s' s''. R s s' \<Longrightarrow> R s' s'' \<Longrightarrow> R s s''" "\<And>x s s'. P x s \<Longrightarrow> R s s' \<Longrightarrow> P x s'"
  shows "I s \<Longrightarrow> \<exists>s'. each f xs s = Some s' \<and> I s' \<and> R s s' \<and> (\<forall>x \<in> set xs. P x s')"
  using assms(1)
proof (induction xs arbitrary: s)
  case (Cons x xs)
  obtain s1 where s1: "f x s = Some s1" "I s1" "R s s1" "P x s1" using Cons.prems by fastforce
  obtain s2 where s2: "each f xs s1 = Some s2" "I s2" "R s1 s2" "\<forall>x \<in> set xs. P x s2"
    using Cons.IH [OF s1(2)] Cons.prems(2) by fastforce
  then show ?case using s1 assms(3,4) by (auto intro!: exI [of _ s2])
qed (use assms(2) in simp)

lemma append_tensor_ok:
  assumes "graph_inv T (insert t os) g" "t \<notin> os" "set (sources T t) \<subseteq> tensors_of g" "tensors_of g \<union> insert t os \<subseteq> U"
    and "finite U" "card U \<le> cg_size g"
  shows "\<exists>g'. append_tensor T t g = Some g' \<and> graph_inv T os g' \<and> graph_grows g {t} g' \<and> t \<in> tensors_of g' \<and>
    cg_visited g' = cg_visited g"
proof -
  have t: "t \<notin> tensors_of g" using assms(1) unfolding graph_inv_def by blast
  have d: "distinct (cg_nodes g @ cg_leafs g)" using assms(1) by (simp add: graph_inv_def)
  have "card (tensors_of g) < card U"
    by (rule psubset_card_mono [OF assms(5)]) (use assms(4) t in auto)
  moreover have "length (cg_nodes g) + length (cg_leafs g) = card (tensors_of g)"
    using distinct_card [OF d] by simp
  ultimately have room: "length (cg_leafs g) < cg_size g" "length (cg_nodes g) < cg_size g" using assms(6) by linarith+
  show ?thesis
  proof (cases "is_leaf T t")
    case True
    define g' where "g' = g\<lparr>cg_leafs := cg_leafs g @ [t]\<rparr>"
    have order: "set (sources T (cg_nodes g' ! i)) \<subseteq> set (take i (cg_nodes g')) \<union> set (cg_leafs g')"
      if "i < length (cg_nodes g')" for i
      using assms(1) that unfolding graph_inv_def by (auto simp: g'_def)
    have "graph_inv T os g'" using assms(1-3) True t order unfolding graph_inv_def
      by (auto simp: g'_def)
    moreover have "append_tensor T t g = Some g'" using True room by (simp add: append_tensor_def g'_def)
    moreover have "graph_grows g {t} g'" by (auto simp: graph_grows_def g'_def)
    ultimately show ?thesis by (intro exI [of _ g']) (simp, simp add: g'_def)
  next
    case False
    define g' where "g' = g\<lparr>cg_nodes := cg_nodes g @ [t]\<rparr>"
    have order: "set (sources T (cg_nodes g' ! i)) \<subseteq> set (take i (cg_nodes g')) \<union> set (cg_leafs g')"
      if "i < length (cg_nodes g')" for i
    proof (cases "i < length (cg_nodes g)")
      case True
      then show ?thesis using assms(1) by (simp add: graph_inv_def g'_def nth_append)
    next
      case False
      then have "i = length (cg_nodes g)" using that by (simp add: g'_def)
      then show ?thesis using assms(3) by (simp add: g'_def)
    qed
    have "graph_inv T os g'" using assms(1,2) False t order unfolding graph_inv_def
      by (auto simp: g'_def)
    moreover have "append_tensor T t g = Some g'" using False room by (simp add: append_tensor_def g'_def)
    moreover have "graph_grows g {t} g'" by (auto simp: graph_grows_def g'_def)
    ultimately show ?thesis by (intro exI [of _ g']) (simp, simp add: g'_def)
  qed
qed

section \<open>A visit\<close>

lemma graph_inv_side [simp]:
  "graph_inv T os (g\<lparr>cg_compute := c\<rparr>) = graph_inv T os g"
  "length uc = length (cg_use_counts g) \<Longrightarrow> graph_inv T os (g\<lparr>cg_use_counts := uc\<rparr>) = graph_inv T os g"
  by (simp_all add: graph_inv_def)

lemma graph_grows_side [simp]:
  "graph_grows g new (g'\<lparr>cg_compute := c\<rparr>) = graph_grows g new g'" "graph_grows g new (g'\<lparr>cg_use_counts := uc\<rparr>) = graph_grows g new g'"
  "graph_grows (g\<lparr>cg_compute := c\<rparr>) new g' = graph_grows g new g'" "graph_grows (g\<lparr>cg_use_counts := uc\<rparr>) new g' = graph_grows g new g'"
  by (simp_all add: graph_grows_def)

text \<open>There is room for all tensors that are going to be visited.\<close>

definition room_for :: "heap \<Rightarrow> nat set \<Rightarrow> nat set \<Rightarrow> cgraph \<Rightarrow> bool" where
  "room_for T U os g \<longleftrightarrow> finite U \<and> card U \<le> cg_size g \<and> card U \<le> hs_size (cg_visited g) \<and>
     tensors_of g \<union> os \<subseteq> U \<and> (\<forall>t \<in> U. set (sources T t) \<subseteq> U)"

lemma room_grows: "room_for T U os g \<Longrightarrow> graph_grows g new g' \<Longrightarrow> new \<subseteq> U \<Longrightarrow> room_for T U os g'"
  unfolding room_for_def graph_grows_def by auto

lemma needed_in:
  assumes "\<forall>t \<in> U. set (sources T t) \<subseteq> U" "t \<in> U"
  shows "needed T t \<subseteq> U"
proof
  fix s
  assume "s \<in> needed T t"
  then have "(t, s) \<in> (source_rel T)\<^sup>*" by (simp add: needed_def)
  then show "s \<in> U" by induction (use assms in \<open>auto simp: source_rel_def\<close>)
qed

definition visit_good :: "heap \<Rightarrow> (nat \<Rightarrow> nat) \<Rightarrow> nat set \<Rightarrow> nat \<Rightarrow> bool" where
  "visit_good T r U d \<longleftrightarrow> (\<forall>compute node os g.
     graph_inv T os g \<longrightarrow> (\<forall>x \<in> os. r node < r x) \<longrightarrow> r node < d \<longrightarrow> node \<in> U \<longrightarrow> room_for T U os g \<longrightarrow>
     (\<exists>pos g'. visit_parents T d compute node g = Some (pos, g') \<and> graph_inv T os g' \<and> graph_grows g (needed T node) g' \<and>
        node \<in> tensors_of g' \<and> pos < hs_size (cg_visited g')))"

lemma visit_goodD:
  assumes "visit_good T r U d" "graph_inv T os g" "\<forall>x \<in> os. r node < r x" "r node < d" "node \<in> U" "room_for T U os g"
  shows "\<exists>pos g'. visit_parents T d compute node g = Some (pos, g') \<and> graph_inv T os g' \<and> graph_grows g (needed T node) g' \<and>
    node \<in> tensors_of g' \<and> pos < hs_size (cg_visited g')"
  using assms unfolding visit_good_def by blast

text \<open>The sources of a tensor, each visited by \<open>f\<close>.\<close>

lemma each_source_ok:
  assumes "graph_inv T os g" "room_for T U os g" "node \<in> U"
    and f: "\<And>s g. s \<in> set (sources T node) \<Longrightarrow> graph_inv T os g \<Longrightarrow> room_for T U os g \<Longrightarrow>
      \<exists>g'. f s g = Some g' \<and> graph_inv T os g' \<and> graph_grows g (needed T s) g' \<and> s \<in> tensors_of g'"
    and "set xs = set (sources T node)"
  shows "\<exists>g'. each f xs g = Some g' \<and> graph_inv T os g' \<and> graph_grows g (needed T node) g' \<and>
    set (sources T node) \<subseteq> tensors_of g' \<and> room_for T U os g'"
proof -
  have U: "needed T node \<subseteq> U" using needed_in [of U T node] assms(2,3) by (simp add: room_for_def)
  have "\<exists>g'. each f xs g = Some g' \<and> (graph_inv T os g' \<and> room_for T U os g') \<and> graph_grows g (needed T node) g' \<and>
      (\<forall>s \<in> set xs. s \<in> tensors_of g')"
  proof (rule each_ok)
    fix s g
    assume s: "s \<in> set xs" and g: "graph_inv T os g \<and> room_for T U os g"
    then obtain g' where g': "f s g = Some g'" "graph_inv T os g'" "graph_grows g (needed T s) g'" "s \<in> tensors_of g'"
      using f [of s g] assms(5) by auto
    have "graph_grows g (needed T node) g'" using graph_grows_mono [OF g'(3)] needed_source s assms(5) by blast
    then show "\<exists>g'. f s g = Some g' \<and> (graph_inv T os g' \<and> room_for T U os g') \<and> graph_grows g (needed T node) g' \<and> s \<in> tensors_of g'"
      using g' g room_grows [OF _ _ U] by blast
  next
    show "x \<in> tensors_of s \<Longrightarrow> graph_grows s (needed T node) s' \<Longrightarrow> x \<in> tensors_of s'" for x s s'
      using graph_grows_tensors by blast
  qed (use assms(1,2) in \<open>auto intro: graph_grows_trans\<close>)
  then show ?thesis using assms(5) by auto
qed

lemma count_use_ok:
  assumes "graph_inv T os g" "pos < hs_size (cg_visited g)"
  shows "\<exists>g'. count_use pos g = Some g' \<and> graph_inv T os g' \<and> tensors_of g' = tensors_of g \<and> (\<forall>g0 new. graph_grows g0 new g' = graph_grows g0 new g)"
  using assms by (simp add: count_use_def graph_inv_def)

lemma find_known:
  assumes "hash_ok hs" "t \<in> elems hs"
  shows "\<exists>pos. ggml_hash_find hs t = Some (Some pos) \<and> pos < hs_size hs \<and> ggml_bitset_get (hs_used hs) pos = Some True"
proof -
  obtain d where d: "stops_at hs t d" using room_stops [OF assms(1)] assms(2) by blast
  then have "in_use hs (probe hs t d)" using stops_at_elem [OF assms(1)] assms(2) by simp
  then show ?thesis using find_spec(1) [OF assms(1) d] by (auto simp: in_use_def)
qed

lemma find_new:
  assumes "hash_ok hs" "t \<notin> elems hs" "card (elems hs) < hs_size hs"
  shows "\<exists>pos hs'. ggml_hash_find hs t = Some (Some pos) \<and> pos < hs_size hs \<and> ggml_bitset_get (hs_used hs) pos = Some False \<and>
    put_key hs pos t = Some hs' \<and> hash_ok hs' \<and> hs_size hs' = hs_size hs \<and> elems hs' = insert t (elems hs)"
proof -
  obtain d where d: "stops_at hs t d" using room_stops [OF assms(1)] assms(3) by blast
  have p: "probe hs t d < hs_size hs" using probe_less assms(1) by (simp add: hash_ok_def)
  then have "ggml_bitset_get (hs_used hs) (probe hs t d) = Some False"
    using slot_known(1) [OF assms(1)] stops_at_elem [OF assms(1) d] assms(2) by simp
  then show ?thesis using find_spec(1) [OF assms(1) d] put_key_ok [OF assms(1) d assms(2)] p by blast
qed

lemma sources_closed:
  assumes "graph_inv T os g" "t \<in> tensors_of g"
  shows "set (sources T t) \<subseteq> tensors_of g"
proof (cases "t \<in> set (cg_leafs g)")
  case True
  then show ?thesis using assms(1) unfolding graph_inv_def by blast
next
  case False
  then obtain i where "i < length (cg_nodes g)" "cg_nodes g ! i = t" using assms(2) by (auto simp: in_set_conv_nth)
  then have "set (sources T t) \<subseteq> set (take i (cg_nodes g)) \<union> set (cg_leafs g)" using assms(1) unfolding graph_inv_def by blast
  then show ?thesis using set_take_subset by fastforce
qed

lemma visit_again:
  assumes IH: "visit_good T r U d" and ok: "graph_inv T os g" "\<forall>x \<in> os. r node < r x" "r node < Suc d" "room_for T U os g"
    and "ranked T r" "node \<in> tensors_of g"
  shows "\<exists>pos g'. visit_parents T (Suc d) compute node g = Some (pos, g') \<and> graph_inv T os g' \<and> graph_grows g (needed T node) g' \<and>
    node \<in> tensors_of g' \<and> pos < hs_size (cg_visited g')"
proof -
  define g1 where "g1 = (if t_op (T node) \<noteq> GGML_OP_NONE \<and> compute then g\<lparr>cg_compute := (cg_compute g)(node := True)\<rparr> else g)"
  have g1: "graph_inv T os g1" "room_for T U os g1" "cg_visited g1 = cg_visited g" "tensors_of g1 = tensors_of g"
    "graph_grows g new g' = graph_grows g1 new g'" for new g'
    using ok(1,4) by (simp_all add: g1_def room_for_def)
  have node: "node \<in> U" using assms(7) ok(4) by (auto simp: room_for_def)
  obtain pos where pos: "ggml_hash_find (cg_visited g1) node = Some (Some pos)" "pos < hs_size (cg_visited g1)"
    "ggml_bitset_get (hs_used (cg_visited g1)) pos = Some True"
    using find_known [of "cg_visited g1" node] g1(1) assms(7) g1(4) by (auto simp: graph_inv_def)
  let ?f = "\<lambda>s g. if cg_compute g s then Some g else map_option snd (visit_parents T d True s g)"
  have f: "\<exists>g'. ?f s h = Some g' \<and> graph_inv T os g' \<and> graph_grows h (needed T s) g' \<and> s \<in> tensors_of g'"
    if "s \<in> set (sources T node)" "graph_inv T os h" "room_for T U os h" "tensors_of g1 \<subseteq> tensors_of h" for s h
  proof -
    have "s \<in> tensors_of g1" using sources_closed [OF g1(1)] assms(7) g1(4) that(1) by blast
    moreover have "s \<in> U" using node that(1) ok(4) by (auto simp: room_for_def)
    moreover have "r s < r node" using assms(6) that(1) by (simp add: ranked_def)
    ultimately have s: "s \<in> tensors_of h" "\<forall>x \<in> os. r s < r x" "r s < d" "s \<in> U" using that(4) ok(2,3) by auto
    note st = that
    show ?thesis
    proof (cases "cg_compute h s")
      case False
      obtain p h' where "visit_parents T d True s h = Some (p, h')" "graph_inv T os h'" "graph_grows h (needed T s) h'" "s \<in> tensors_of h'"
        using visit_goodD [OF IH st(2) s(2-4) st(3), of True] by blast
      then show ?thesis using False by simp
    qed (use st(2) s(1) in simp)
  qed
  show ?thesis
  proof (cases compute)
    case True
    have "\<exists>g'. each ?f (sources T node) g1 = Some g' \<and> graph_inv T os g' \<and> graph_grows g1 (needed T node) g' \<and> tensors_of g1 \<subseteq> tensors_of g'"
    proof -
      have "\<exists>g'. each ?f (sources T node) g1 = Some g' \<and> (graph_inv T os g' \<and> room_for T U os g' \<and> tensors_of g1 \<subseteq> tensors_of g') \<and>
          graph_grows g1 (needed T node) g' \<and> (\<forall>s \<in> set (sources T node). True)"
      proof (rule each_ok)
        fix s h
        assume s: "s \<in> set (sources T node)" and h: "graph_inv T os h \<and> room_for T U os h \<and> tensors_of g1 \<subseteq> tensors_of h"
        then obtain g' where g': "?f s h = Some g'" "graph_inv T os g'" "graph_grows h (needed T s) g'" using f [of s h] by blast
        have m: "graph_grows h (needed T node) g'" using graph_grows_mono [OF g'(3) needed_source [OF s]] .
        then show "\<exists>g'. ?f s h = Some g' \<and> (graph_inv T os g' \<and> room_for T U os g' \<and> tensors_of g1 \<subseteq> tensors_of g') \<and>
            graph_grows h (needed T node) g' \<and> True"
          using g' h graph_grows_tensors [OF m] room_grows [OF _ m needed_in [of U T node]] node by (auto simp: room_for_def)
      qed (use g1(1,2) in \<open>auto intro: graph_grows_trans\<close>)
      then show ?thesis by blast
    qed
    then obtain g' where g': "each ?f (sources T node) g1 = Some g'" "graph_inv T os g'" "graph_grows g1 (needed T node) g'"
      "tensors_of g1 \<subseteq> tensors_of g'" by blast
    have "visit_parents T (Suc d) compute node g = Some (pos, g')"
      using pos g'(1) True by (simp add: g1_def [symmetric, unfolded True, simplified] g1_def Let_def)
    then show ?thesis using g' g1(4,5) assms(7) pos(2) by (auto simp: graph_grows_def)
  next
    case False
    have "visit_parents T (Suc d) compute node g = Some (pos, g1)"
      using pos False by (simp add: g1_def)
    then show ?thesis using g1 assms(7) pos(2) by auto
  qed
qed

lemma card_known_less:
  assumes "room_for T U os g" "elems (cg_visited g) = tensors_of g \<union> os" "node \<in> U" "node \<notin> elems (cg_visited g)"
  shows "card (elems (cg_visited g)) < hs_size (cg_visited g)"
proof -
  have "card (elems (cg_visited g)) < card U"
    by (rule psubset_card_mono) (use assms in \<open>auto simp: room_for_def\<close>)
  then show ?thesis using assms(1) by (simp add: room_for_def)
qed

lemma visit_new:
  assumes IH: "visit_good T r U d" and ok: "graph_inv T os g" "\<forall>x \<in> os. r node < r x" "r node < Suc d" "room_for T U os g"
    and "ranked T r" "node \<in> U" "node \<notin> tensors_of g"
  shows "\<exists>pos g'. visit_parents T (Suc d) compute node g = Some (pos, g') \<and> graph_inv T os g' \<and> graph_grows g (needed T node) g' \<and>
    node \<in> tensors_of g' \<and> pos < hs_size (cg_visited g') \<and> (\<not> is_leaf T node \<longrightarrow> last (cg_nodes g') = node)"
proof -
  define g1 where "g1 = (if t_op (T node) \<noteq> GGML_OP_NONE \<and> compute then g\<lparr>cg_compute := (cg_compute g)(node := True)\<rparr> else g)"
  have g1: "graph_inv T os g1" "room_for T U os g1" "cg_visited g1 = cg_visited g" "tensors_of g1 = tensors_of g"
    "graph_grows g new g' = graph_grows g1 new g'" for new g'
    using ok(1,4) by (simp_all add: g1_def room_for_def)
  have os: "node \<notin> os" using ok(2) by blast
  have new: "node \<notin> elems (cg_visited g1)" and el: "elems (cg_visited g1) = tensors_of g1 \<union> os"
    using g1(1,4) os assms(8) by (auto simp: graph_inv_def)
  obtain pos hs where pos: "ggml_hash_find (cg_visited g1) node = Some (Some pos)" "pos < hs_size (cg_visited g1)"
    "ggml_bitset_get (hs_used (cg_visited g1)) pos = Some False" "put_key (cg_visited g1) pos node = Some hs"
    "hash_ok hs" "hs_size hs = hs_size (cg_visited g1)" "elems hs = insert node (elems (cg_visited g1))"
    using find_new [OF _ new card_known_less [OF g1(2) el assms(7) new]] g1(1) by (auto simp: graph_inv_def)
  define uc where "uc = (cg_use_counts g1)[pos := 0]"
  define g2 where "g2 = g1\<lparr>cg_visited := hs, cg_use_counts := uc\<rparr>"
  have g2: "graph_inv T (insert node os) g2" "room_for T U (insert node os) g2" "graph_grows g1 new g' = graph_grows g2 new g'"
    "cg_left_to_right g2 = cg_left_to_right g1" for new g'
    using g1(1,2) pos(5-7) new os assms(7,8) g1(4) by (auto simp: graph_inv_def room_for_def graph_grows_def g2_def uc_def)
  let ?f = "\<lambda>s g. Option.bind (visit_parents T d compute s g) (\<lambda>(p, g'). count_use p g')"
  let ?xs = "(if cg_left_to_right g1 then id else rev) (sources T node)"
  have f: "\<exists>g'. ?f s h = Some g' \<and> graph_inv T (insert node os) g' \<and> graph_grows h (needed T s) g' \<and> s \<in> tensors_of g'"
    if "s \<in> set (sources T node)" "graph_inv T (insert node os) h" "room_for T U (insert node os) h" for s h
  proof -
    have s: "r s < r node" "s \<in> U" using assms(6,7) that(1) ok(4) by (auto simp: ranked_def room_for_def)
    have below: "\<forall>x \<in> insert node os. r s < r x" "r s < d" using s(1) ok(2,3) by auto
    note st = that
    obtain p h' where h': "visit_parents T d compute s h = Some (p, h')" "graph_inv T (insert node os) h'"
      "graph_grows h (needed T s) h'" "s \<in> tensors_of h'" "p < hs_size (cg_visited h')"
      using visit_goodD [OF IH st(2) below s(2) st(3), of compute] by blast
    then show ?thesis using count_use_ok [OF h'(2,5)] by auto
  qed
  have "set ?xs = set (sources T node)" by simp
  then obtain g3 where g3: "each ?f ?xs g2 = Some g3" "graph_inv T (insert node os) g3" "graph_grows g2 (needed T node) g3"
    "set (sources T node) \<subseteq> tensors_of g3" "room_for T U (insert node os) g3"
    using each_source_ok [OF g2(1,2) assms(7) f, of ?xs] by blast
  obtain g4 where g4: "append_tensor T node g3 = Some g4" "graph_inv T os g4" "graph_grows g3 {node} g4" "node \<in> tensors_of g4"
    "cg_visited g4 = cg_visited g3"
    using append_tensor_ok [OF g3(2) os g3(4), of U] g3(5) unfolding room_for_def by blast
  have "visit_parents T (Suc d) compute node g = Some (pos, g4)"
    unfolding visit_parents.simps Let_def g1_def [symmetric] pos(1) option.case bind.bind_lunit pos(3,4)
    using g3(1) g4(1) pos(2) g1(1) by (simp add: graph_inv_def uc_def [symmetric] g2_def [symmetric])
  moreover have "graph_grows g (needed T node) g4"
    using graph_grows_trans [OF g3(3) graph_grows_mono [OF g4(3)]] g1(5) g2(3) by simp
  moreover have "pos < hs_size (cg_visited g4)" using pos(2,6) g3(3) g4(5) by (simp add: graph_grows_def g2_def)
  moreover have "\<not> is_leaf T node \<longrightarrow> last (cg_nodes g4) = node"
    using g4(1) by (auto simp: append_tensor_def split: if_splits)
  ultimately show ?thesis using g4(2,4) by blast
qed

lemma visit_all_good: "ranked T r \<Longrightarrow> visit_good T r U d"
proof (induction d)
  case (Suc d)
  then have IH: "visit_good T r U d" by simp
  show ?case
    unfolding visit_good_def
  proof (intro allI impI)
    fix compute node os g
    assume a: "graph_inv T os g" "\<forall>x \<in> os. r node < r x" "r node < Suc d" "node \<in> U" "room_for T U os g"
    show "\<exists>pos g'. visit_parents T (Suc d) compute node g = Some (pos, g') \<and> graph_inv T os g' \<and> graph_grows g (needed T node) g' \<and>
        node \<in> tensors_of g' \<and> pos < hs_size (cg_visited g')"
      using visit_again [OF IH a(1-3,5) Suc.prems] visit_new [OF IH a(1-3,5) Suc.prems a(4)]
      by (cases "node \<in> tensors_of g") blast+
  qed
qed (simp add: visit_good_def)

lemma graph_closed:
  assumes "graph_inv T {} g" "t \<in> tensors_of g"
  shows "needed T t \<subseteq> tensors_of g"
  by (rule needed_in) (use assms sources_closed in blast)+

text \<open>A graph in which every node comes behind what it reads.\<close>

definition in_order :: "heap \<Rightarrow> cgraph \<Rightarrow> bool" where
  "in_order T g \<longleftrightarrow> distinct (cg_nodes g @ cg_leafs g) \<and>
     (\<forall>i < length (cg_nodes g). set (sources T (cg_nodes g ! i)) \<subseteq> set (take i (cg_nodes g)) \<union> set (cg_leafs g)) \<and>
     (\<forall>t \<in> set (cg_leafs g). is_leaf T t) \<and> (\<forall>t \<in> set (cg_nodes g). \<not> is_leaf T t)"

lemma graph_inv_order: "graph_inv T os g \<Longrightarrow> in_order T g"
  by (simp add: graph_inv_def in_order_def)

lemma new_graph_inv: "graph_inv T {} (ggml_new_graph_custom n old compute)"
proof -
  let ?hs = "ggml_hash_set_new (n * 2) old"
  have v: "cg_visited (ggml_new_graph_custom n old compute) = ggml_hash_set_reset ?hs"
    by (simp add: ggml_new_graph_custom_def ggml_hash_set_new_def Let_def)
  have "hash_ok (ggml_hash_set_reset ?hs)" "elems (ggml_hash_set_reset ?hs) = {}"
    by (rule reset_table(1) [OF new_table(1)], rule reset_table(2) [OF new_table(1)])
  then show ?thesis unfolding graph_inv_def v
    by (simp add: ggml_new_graph_custom_def ggml_hash_set_reset_def ggml_hash_set_new_def Let_def)
qed

lemma new_graph_room:
  assumes "finite U" "card U \<le> n" "\<forall>t \<in> U. set (sources T t) \<subseteq> U"
  shows "room_for T U {} (ggml_new_graph_custom n old compute)"
proof -
  have "n * 2 \<le> ggml_hash_size (n * 2)" by (rule hash_size_spec(1))
  then have "card U \<le> ggml_hash_size (n * 2)" using assms(2) by linarith
  then show ?thesis using assms by (simp add: room_for_def ggml_new_graph_custom_def ggml_hash_set_reset_def Let_def)
qed

lemma build_forward_ok:
  assumes "ranked T r" "graph_inv T {} g" "room_for T U {} g" "node \<in> U" "r node < d"
    and "is_leaf T node \<longrightarrow> sources T node = []"
  shows "\<exists>g'. ggml_build_forward_impl T d compute node g = Some g' \<and> graph_inv T {} g' \<and> graph_grows g (needed T node) g' \<and>
    tensors_of g' = tensors_of g \<union> needed T node"
proof -
  obtain pos g' where g': "visit_parents T d compute node g = Some (pos, g')" "graph_inv T {} g'" "graph_grows g (needed T node) g'"
    "node \<in> tensors_of g'"
    using visit_goodD [OF visit_all_good [OF assms(1)] assms(2) _ assms(5,4,3), of compute] by blast
  have all: "tensors_of g' = tensors_of g \<union> needed T node"
    using g'(3) graph_closed [OF g'(2,4)] graph_grows_tensors [OF g'(3)] by (auto simp: graph_grows_def)
  obtain ns ls where ns: "cg_nodes g' = cg_nodes g @ ns" "cg_leafs g' = cg_leafs g @ ls" using g'(3) by (auto simp: graph_grows_def)
  have d: "distinct (cg_nodes g' @ cg_leafs g')" using g'(2) by (simp add: graph_inv_def)
  have fresh: "x \<in> needed T node - tensors_of g" if "x \<in> set ns" for x
    using that all d ns by auto
  have "last (cg_nodes g') = node" if "ns \<noteq> []"
  proof (cases "is_leaf T node")
    case True
    then have leaf: "needed T node = {node}"
      using assms(6) by (auto simp: needed_def source_rel_def elim: converse_rtranclE)
    have "hd ns \<in> set ns" using that by simp
    then obtain x where "x \<in> set ns" by blast
    then have "node \<in> set (cg_nodes g')" using fresh leaf ns(1) by auto
    then show ?thesis using True g'(2) by (simp add: graph_inv_def)
  next
    case False
    have "node \<notin> tensors_of g"
    proof
      assume "node \<in> tensors_of g"
      then show False using fresh graph_closed [OF assms(2)] that by (cases ns) auto
    qed
    then obtain n where "d = Suc n" "r node < Suc n" using assms(5) by (cases d) auto
    then show ?thesis
      using visit_new [OF visit_all_good [OF assms(1)] assms(2) _ _ assms(3,1,4), of n compute] \<open>node \<notin> tensors_of g\<close> g'(1) False
      by fastforce
  qed
  then have "ggml_build_forward_impl T d compute node g = Some g'" using g'(1) ns(1)
    by (cases "ns = []") (simp_all add: ggml_build_forward_impl_def)
  then show ?thesis using g'(2,3) all by blast
qed

text \<open>
  Building a graph for a result gives exactly the tensors that the result depends on, each once, and
  every node comes behind the tensors it reads; no assertion fails and the recursion ends, if the sources have no cycle and
  the graph is large enough.
\<close>

theorem forward_graph_in_order:
  assumes "ranked T r" "finite (needed T node)" "card (needed T node) \<le> n" "r node < d"
    and "is_leaf T node \<longrightarrow> sources T node = []"
  shows "\<exists>g. ggml_build_forward_expand T d node (ggml_new_graph_custom n old compute) = Some g \<and> in_order T g \<and>
    tensors_of g = needed T node"
proof -
  let ?g = "ggml_new_graph_custom n old compute"
  have "\<forall>t \<in> needed T node. set (sources T t) \<subseteq> needed T node"
    by (auto simp: needed_def source_rel_def intro: rtrancl_into_rtrancl)
  then have "room_for T (needed T node) {} ?g" using assms(2,3) by (intro new_graph_room)
  then obtain g where "ggml_build_forward_impl T d True node ?g = Some g" "graph_inv T {} g"
    "tensors_of g = tensors_of ?g \<union> needed T node"
    using build_forward_ok [OF assms(1) new_graph_inv _ needed_refl assms(4,5)] by blast
  moreover have "tensors_of ?g = {}" by (simp add: ggml_new_graph_custom_def Let_def)
  ultimately show ?thesis using graph_inv_order by (auto simp: ggml_build_forward_expand_def)
qed

definition demo_tensor :: "ggml_op \<Rightarrow> nat option list \<Rightarrow> ggml_tensor" where
  "demo_tensor op src = \<lparr>t_type = 0, t_ne = [4, 1, 1, 1], t_nb = [4, 16, 16, 16], t_op = op, t_input = False, t_output = False,
     t_param = False, t_src = src, t_view_src = None, t_data = None, t_buffer = None\<rparr>"

definition demo_heap :: heap where
  "demo_heap t = (if t = 48 then demo_tensor 2 [Some 16, Some 32, None] else if t = 32 then demo_tensor 7 [Some 16, None]
     else demo_tensor 0 [])"

lemma demo_heap_sources: "sources demo_heap t = (if t = 48 then [16, 32] else if t = 32 then [16] else [])"
  by (simp add: sources_def demo_heap_def demo_tensor_def)

lemma demo_needed: "needed demo_heap 48 \<subseteq> {16, 32, 48}"
  by (rule needed_in) (auto simp: demo_heap_sources)

theorem forward_graph_in_order_witness:
  "\<exists>g. ggml_build_forward_expand demo_heap 49 48 (ggml_new_graph_custom 3 id (\<lambda>t. False)) = Some g \<and> in_order demo_heap g"
proof -
  have "finite (needed demo_heap 48)" using demo_needed by (rule finite_subset) simp
  moreover have "card (needed demo_heap 48) \<le> 3" using card_mono [OF _ demo_needed] by simp
  moreover have "ranked demo_heap id" by (simp add: ranked_def demo_heap_sources)
  moreover have "\<not> is_leaf demo_heap 48" by (simp add: is_leaf_def GGML_OP_NONE_def demo_heap_def demo_tensor_def)
  ultimately show ?thesis
    using forward_graph_in_order [of demo_heap id 48 3 49 id "\<lambda>t. False"] by (auto simp: demo_heap_sources)
qed

end
