(* ===== verification/Graph_Alloc.thy ===== *)
theory Graph_Alloc
  imports Tensor_Alloc Compute_Graph "HOL-Library.Monad_Syntax"
begin

text \<open>
  The allocator of a graph, \<open>ggml_gallocr\<close> of \<open>src/ggml/src/ggml-alloc.c\<close>: it walks the nodes in the order in which they
  will be computed, takes memory for every tensor before it is written, gives it back after its last use, and
  lets an operation write its result over a source that nothing else needs.
\<close>

section \<open>Tensors\<close>

definition inplace_ops :: "ggml_op list" where
  "inplace_ops = [72, 32, 45, 44, 2, 3, 4, 6, 7, 8, 9, 10, 11, 86, 48, 49, 23, 25, 26, 46, 47]"

definition ggml_op_can_inplace :: "ggml_op \<Rightarrow> bool" where
  "ggml_op_can_inplace op \<longleftrightarrow> op \<in> set inplace_ops"

definition ggml_are_same_layout :: "ggml_tensor \<Rightarrow> ggml_tensor \<Rightarrow> bool" where
  "ggml_are_same_layout a b \<longleftrightarrow> t_type a = t_type b \<and> t_ne a = t_ne b \<and> t_nb a = t_nb b"

definition ggml_impl_is_view :: "ggml_tensor \<Rightarrow> bool" where
  "ggml_impl_is_view t \<longleftrightarrow> t_view_src t \<noteq> None"

section \<open>The state\<close>

record hash_node =
  hn_children :: int
  hn_views :: int
  hn_buffer :: nat
  hn_addr :: buffer_address
  hn_allocated :: bool

definition zero_node :: hash_node where
  "zero_node = \<lparr>hn_children = 0, hn_views = 0, hn_buffer = 0, hn_addr = \<lparr>ba_chunk = 0, ba_offset = 0\<rparr>, hn_allocated = False\<rparr>"

text \<open>
  Buffers of the same type share one allocator: \<open>ga_tallocs\<close> has the index of the allocator of every buffer.
\<close>

record galloc =
  ga_bufts :: "nat list"
  ga_tallocs :: "nat list"
  ga_allocs :: "dyn_tallocr list"
  ga_values :: "hash_node hash_values"

text \<open>What is known of a tensor, and how it is changed; the table aborts when it is full.\<close>

definition hash_get :: "galloc \<Rightarrow> nat \<Rightarrow> (hash_node \<Rightarrow> hash_node) \<Rightarrow> (hash_node \<times> galloc) option" where
  "hash_get ga t f = map_option (\<lambda>(hn, vs). (hn, ga\<lparr>ga_values := vs\<rparr>)) (value_access (ga_values ga) t f)"

definition hash_set_node :: "nat \<Rightarrow> (hash_node \<Rightarrow> hash_node) \<Rightarrow> galloc \<Rightarrow> galloc option" where
  "hash_set_node t f ga = map_option snd (hash_get ga t f)"

definition is_own :: "galloc \<Rightarrow> nat \<Rightarrow> (bool \<times> galloc) option" where
  "is_own ga t = map_option (\<lambda>(hn, ga'). (hn_allocated hn, ga')) (hash_get ga t id)"

definition is_allocated :: "heap \<Rightarrow> galloc \<Rightarrow> nat \<Rightarrow> (bool \<times> galloc) option" where
  "is_allocated T ga t =
     (if t_data (T t) \<noteq> None \<or> t_buffer (T t) \<noteq> None then Some (True, ga) else is_own ga t)"

text \<open>
  \<open>asz buft t\<close> is what \<open>ggml_backend_buft_get_alloc_size\<close> answers for the tensor: the back end decides.
\<close>

definition alloc_bytes :: "(nat \<Rightarrow> nat \<Rightarrow> nat) \<Rightarrow> galloc \<Rightarrow> nat \<Rightarrow> nat \<Rightarrow> nat option" where
  "alloc_bytes asz ga b t = map_option (\<lambda>buft. asz buft t) (rd (ga_bufts ga) b)"

definition buf_alloc :: "galloc \<Rightarrow> nat \<Rightarrow> (nat \<times> dyn_tallocr) option" where
  "buf_alloc ga b = do { i \<leftarrow> rd (ga_tallocs ga) b; A \<leftarrow> rd (ga_allocs ga) i; Some (i, A) }"

section \<open>One tensor\<close>

definition free_at :: "galloc \<Rightarrow> nat \<Rightarrow> buffer_address \<Rightarrow> nat \<Rightarrow> galloc option" where
  "free_at ga b addr sz = do {
     (i, A) \<leftarrow> buf_alloc ga b;
     A' \<leftarrow> dyn_tallocr_free_bytes A addr sz;
     Some (ga\<lparr>ga_allocs := (ga_allocs ga)[i := A']\<rparr>) }"

definition free_extra_space :: "(nat \<Rightarrow> nat \<Rightarrow> nat) \<Rightarrow> nat \<Rightarrow> nat \<Rightarrow> galloc \<Rightarrow> galloc option" where
  "free_extra_space asz node parent ga = do {
     (hn, ga) \<leftarrow> hash_get ga node id;
     (p_hn, ga) \<leftarrow> hash_get ga parent id;
     parent_size \<leftarrow> alloc_bytes asz ga (hn_buffer p_hn) parent;
     node_size \<leftarrow> alloc_bytes asz ga (hn_buffer hn) node;
     (i, A) \<leftarrow> buf_alloc ga (hn_buffer p_hn);
     if parent_size < node_size then None
     else (let p = aligned_offset 0 parent_size (dt_alignment A); n = aligned_offset 0 node_size (dt_alignment A)
           in if p > n
              then free_at ga (hn_buffer p_hn) ((hn_addr p_hn)\<lparr>ba_offset := add64 (ba_offset (hn_addr p_hn)) n\<rparr>) (p - n)
              else Some ga) }"

text \<open>The node takes over the memory that the parent holds at \<open>vs\<close>, which is the parent or what it is a view of.\<close>

definition take_over :: "(nat \<Rightarrow> nat \<Rightarrow> nat) \<Rightarrow> nat \<Rightarrow> hash_node \<Rightarrow> nat list \<Rightarrow> nat \<Rightarrow> galloc \<Rightarrow> galloc option" where
  "take_over asz node p_hn released vs ga = do {
     ga \<leftarrow> hash_set_node node (\<lambda>hn. hn\<lparr>hn_buffer := hn_buffer p_hn, hn_addr := hn_addr p_hn\<rparr>) ga;
     ga \<leftarrow> each (\<lambda>t. hash_set_node t (\<lambda>hn. hn\<lparr>hn_allocated := False\<rparr>)) released ga;
     free_extra_space asz node vs ga }"

definition is_output :: "heap \<Rightarrow> nat \<Rightarrow> bool" where
  "is_output T t \<longleftrightarrow> t_output (T t) \<or> (case t_view_src (T t) of None \<Rightarrow> False | Some vs \<Rightarrow> t_output (T vs))"

definition reuse_parent :: "heap \<Rightarrow> (nat \<Rightarrow> nat \<Rightarrow> nat) \<Rightarrow> nat \<Rightarrow> nat \<Rightarrow> galloc \<Rightarrow> (bool \<times> galloc) option" where
  "reuse_parent T asz node parent ga = do {
     (own, ga) \<leftarrow> is_own ga parent;
     if \<not> own \<or> is_output T parent \<or> \<not> ggml_are_same_layout (T node) (T parent) then Some (False, ga)
     else do {
       (p_hn, ga) \<leftarrow> hash_get ga parent id;
       if hn_children p_hn = 1 \<and> hn_views p_hn = 0
       then (case t_view_src (T parent) of
               Some vs \<Rightarrow> do {
                 (v_hn, ga) \<leftarrow> hash_get ga vs id;
                 if hn_views v_hn = 1 \<and> hn_children v_hn = 0 \<and> t_data (T vs) = t_data (T parent)
                 then map_option (Pair True) (take_over asz node p_hn [parent, vs] vs ga)
                 else Some (False, ga) }
             | None \<Rightarrow> map_option (Pair True) (take_over asz node p_hn [parent] parent ga))
       else Some (False, ga) } }"

primrec reuse_parents :: "heap \<Rightarrow> (nat \<Rightarrow> nat \<Rightarrow> nat) \<Rightarrow> nat \<Rightarrow> nat list \<Rightarrow> galloc \<Rightarrow> (bool \<times> galloc) option" where
  "reuse_parents T asz node [] ga = Some (False, ga)"
| "reuse_parents T asz node (p # ps) ga = do {
     (r, ga) \<leftarrow> reuse_parent T asz node p ga;
     if r then Some (True, ga) else reuse_parents T asz node ps ga }"

definition take_fresh :: "(nat \<Rightarrow> nat \<Rightarrow> nat) \<Rightarrow> nat \<Rightarrow> nat \<Rightarrow> galloc \<Rightarrow> galloc option" where
  "take_fresh asz node b ga = do {
     (i, A) \<leftarrow> buf_alloc ga b;
     sz \<leftarrow> alloc_bytes asz ga b node;
     (addr, A') \<leftarrow> dyn_tallocr_alloc A sz;
     hash_set_node node (\<lambda>hn. hn\<lparr>hn_buffer := b, hn_addr := addr\<rparr>) (ga\<lparr>ga_allocs := (ga_allocs ga)[i := A']\<rparr>) }"

definition allocate_node :: "heap \<Rightarrow> (nat \<Rightarrow> nat \<Rightarrow> nat) \<Rightarrow> nat \<Rightarrow> int \<Rightarrow> galloc \<Rightarrow> galloc option" where
  "allocate_node T asz node buffer_id ga =
     (if buffer_id < 0 then None
      else do {
        (hn, ga) \<leftarrow> hash_get ga node id;
        (a, ga) \<leftarrow> is_allocated T ga node;
        if a \<or> ggml_impl_is_view (T node) then Some ga
        else do {
          ga \<leftarrow> hash_set_node node (\<lambda>hn. hn\<lparr>hn_allocated := True\<rparr>) ga;
          (r, ga) \<leftarrow> (if ggml_op_can_inplace (t_op (T node)) then reuse_parents T asz node (sources T node) ga else Some (False, ga));
          if r then Some ga else take_fresh asz node (nat buffer_id) ga } })"

definition free_node :: "heap \<Rightarrow> (nat \<Rightarrow> nat \<Rightarrow> nat) \<Rightarrow> nat \<Rightarrow> galloc \<Rightarrow> galloc option" where
  "free_node T asz node ga =
     (if t_output (T node) then Some ga
      else do {
        (hn, ga) \<leftarrow> hash_get ga node id;
        sz \<leftarrow> alloc_bytes asz ga (hn_buffer hn) node;
        ga \<leftarrow> free_at ga (hn_buffer hn) (hn_addr hn) sz;
        hash_set_node node (\<lambda>hn. hn\<lparr>hn_allocated := False\<rparr>) ga })"

section \<open>The graph\<close>

definition get_node_buffer_id :: "int list option \<Rightarrow> nat \<Rightarrow> int option" where
  "get_node_buffer_id ids i = (case ids of None \<Rightarrow> Some 0 | Some xs \<Rightarrow> rd xs i)"

definition leaf_turn :: "heap \<Rightarrow> (nat \<Rightarrow> nat \<Rightarrow> nat) \<Rightarrow> int list option \<Rightarrow> nat \<times> nat \<Rightarrow> galloc \<Rightarrow> galloc option" where
  "leaf_turn T asz ids = (\<lambda>(i, leaf) ga. do { b \<leftarrow> get_node_buffer_id ids i; allocate_node T asz leaf b ga })"

definition count_source :: "heap \<Rightarrow> (nat \<Rightarrow> nat \<Rightarrow> nat) \<Rightarrow> int list option \<Rightarrow> nat \<Rightarrow> nat \<Rightarrow> galloc \<Rightarrow> galloc option" where
  "count_source T asz ids i src ga = do {
     ga \<leftarrow> hash_set_node src (\<lambda>hn. hn\<lparr>hn_children := hn_children hn + 1\<rparr>) ga;
     if t_input (T src) then do { b \<leftarrow> get_node_buffer_id ids i; allocate_node T asz src b ga } else Some ga }"

definition count_turn :: "heap \<Rightarrow> (nat \<Rightarrow> nat \<Rightarrow> nat) \<Rightarrow> int list option \<Rightarrow> nat \<times> nat \<Rightarrow> galloc \<Rightarrow> galloc option" where
  "count_turn T asz ids = (\<lambda>(i, node) ga. do {
     ga \<leftarrow> (case t_view_src (T node) of
             Some vs \<Rightarrow> if t_op (T node) \<noteq> GGML_OP_NONE
                       then hash_set_node vs (\<lambda>hn. hn\<lparr>hn_views := hn_views hn + 1\<rparr>) ga else Some ga
           | None \<Rightarrow> Some ga);
     ga \<leftarrow> (if t_input (T node) then do { b \<leftarrow> get_node_buffer_id ids i; allocate_node T asz node b ga } else Some ga);
     each (count_source T asz ids i) (sources T node) ga })"

definition release_parent :: "heap \<Rightarrow> (nat \<Rightarrow> nat \<Rightarrow> nat) \<Rightarrow> nat \<Rightarrow> galloc \<Rightarrow> galloc option" where
  "release_parent T asz parent ga = do {
     ga \<leftarrow> hash_set_node parent (\<lambda>hn. hn\<lparr>hn_children := hn_children hn - 1\<rparr>) ga;
     (p_hn, ga) \<leftarrow> hash_get ga parent id;
     if hn_children p_hn = 0 \<and> hn_views p_hn = 0
     then (case t_view_src (T parent) of
             Some vs \<Rightarrow> do {
               ga \<leftarrow> hash_set_node vs (\<lambda>hn. hn\<lparr>hn_views := hn_views hn - 1\<rparr>) ga;
               (v_hn, ga) \<leftarrow> hash_get ga vs id;
               if hn_views v_hn = 0 \<and> hn_children v_hn = 0 \<and> hn_allocated v_hn then free_node T asz vs ga else Some ga }
           | None \<Rightarrow> if hn_allocated p_hn then free_node T asz parent ga else Some ga)
     else Some ga }"

definition node_turn :: "heap \<Rightarrow> (nat \<Rightarrow> nat \<Rightarrow> nat) \<Rightarrow> int list option \<Rightarrow> nat \<times> nat \<Rightarrow> galloc \<Rightarrow> galloc option" where
  "node_turn T asz ids = (\<lambda>(i, node) ga. do {
     b \<leftarrow> get_node_buffer_id ids i;
     ga \<leftarrow> each (\<lambda>parent. allocate_node T asz parent b) (sources T node) ga;
     ga \<leftarrow> allocate_node T asz node b ga;
     each (release_parent T asz) (sources T node) ga })"

definition alloc_graph_impl ::
    "heap \<Rightarrow> (nat \<Rightarrow> nat \<Rightarrow> nat) \<Rightarrow> cgraph \<Rightarrow> int list option \<Rightarrow> int list option \<Rightarrow> galloc \<Rightarrow> galloc option" where
  "alloc_graph_impl T asz g node_ids leaf_ids ga = do {
     ga \<leftarrow> each (leaf_turn T asz leaf_ids) (enumerate 0 (cg_leafs g)) (ga\<lparr>ga_values := values_reset zero_node (ga_values ga)\<rparr>);
     ga \<leftarrow> each (count_turn T asz node_ids) (enumerate 0 (cg_nodes g)) ga;
     each (node_turn T asz node_ids) (enumerate 0 (cg_nodes g)) ga }"

section \<open>What is known of the tensors\<close>

abbreviation node_of :: "galloc \<Rightarrow> nat \<Rightarrow> hash_node" where
  "node_of ga \<equiv> value_of zero_node (ga_values ga)"

abbreviation table_ok :: "galloc \<Rightarrow> bool" where
  "table_ok ga \<equiv> values_ok zero_node (ga_values ga)"

definition same_store :: "galloc \<Rightarrow> galloc \<Rightarrow> bool" where
  "same_store ga ga' \<longleftrightarrow> ga_bufts ga' = ga_bufts ga \<and> ga_tallocs ga' = ga_tallocs ga \<and> ga_allocs ga' = ga_allocs ga"

lemma same_store_refl [simp]: "same_store ga ga"
  by (simp add: same_store_def)

lemma same_store_trans: "same_store ga ga' \<Longrightarrow> same_store ga' ga'' \<Longrightarrow> same_store ga ga''"
  by (simp add: same_store_def)

lemma hash_getD:
  assumes "hash_get ga t f = Some (v, ga')" "table_ok ga"
  shows "v = node_of ga t" "table_ok ga'" "node_of ga' = (node_of ga)(t := f (node_of ga t))" "same_store ga ga'"
  using assms value_accessD [OF assms(2)] by (auto simp: hash_get_def same_store_def)

lemma hash_readD:
  assumes "hash_get ga t id = Some (v, ga')" "table_ok ga"
  shows "v = node_of ga t" "table_ok ga'" "node_of ga' = node_of ga" "same_store ga ga'"
  using hash_getD [OF assms] by auto

lemma hash_set_nodeD:
  assumes "hash_set_node t f ga = Some ga'" "table_ok ga"
  shows "table_ok ga'" "node_of ga' = (node_of ga)(t := f (node_of ga t))" "same_store ga ga'"
  using assms hash_getD by (fastforce simp: hash_set_node_def)+

lemma is_ownD:
  assumes "is_own ga t = Some (r, ga')" "table_ok ga"
  shows "r = hn_allocated (node_of ga t)" "table_ok ga'" "node_of ga' = node_of ga" "same_store ga ga'"
  using assms hash_readD by (fastforce simp: is_own_def)+

section \<open>The blocks that tensors hold\<close>

text \<open>The memory of a tensor: allocator, chunk and byte.\<close>

definition memory :: "(nat \<Rightarrow> nat \<Rightarrow> nat) \<Rightarrow> galloc \<Rightarrow> (nat \<Rightarrow> hash_node) \<Rightarrow> nat \<Rightarrow> (nat \<times> nat \<times> nat) set" where
  "memory asz ga m t = {(i, c, p). i = ga_tallocs ga ! hn_buffer (m t) \<and> c = ba_chunk (hn_addr (m t)) \<and>
     ba_offset (hn_addr (m t)) \<le> p \<and> p < ba_offset (hn_addr (m t)) + asz (ga_bufts ga ! hn_buffer (m t)) t}"

definition held_by :: "galloc \<Rightarrow> (nat \<Rightarrow> hash_node) \<Rightarrow> nat \<Rightarrow> nat" where
  "held_by ga m t = ga_tallocs ga ! hn_buffer (m t)"

definition block :: "(nat \<Rightarrow> nat \<Rightarrow> nat) \<Rightarrow> galloc \<Rightarrow> (nat \<Rightarrow> hash_node) \<Rightarrow> nat \<Rightarrow> buffer_address \<times> nat" where
  "block asz ga m t = (hn_addr (m t), padded (ga_allocs ga ! held_by ga m t) (asz (ga_bufts ga ! hn_buffer (m t)) t))"

definition buffers_ok :: "(nat \<Rightarrow> nat \<Rightarrow> nat) \<Rightarrow> galloc \<Rightarrow> bool" where
  "buffers_ok asz ga \<longleftrightarrow> length (ga_tallocs ga) = length (ga_bufts ga) \<and>
     (\<forall>b < length (ga_bufts ga). ga_tallocs ga ! b < length (ga_allocs ga)) \<and>
     (\<forall>b < length (ga_bufts ga). \<forall>t. fair_size (ga_allocs ga ! (ga_tallocs ga ! b)) (asz (ga_bufts ga ! b) t))"

definition blocks_ok :: "(nat \<Rightarrow> nat \<Rightarrow> nat) \<Rightarrow> galloc \<Rightarrow> (nat \<Rightarrow> hash_node) \<Rightarrow> nat list \<Rightarrow> bool" where
  "blocks_ok asz ga m L \<longleftrightarrow> buffers_ok asz ga \<and> (\<forall>t \<in> set L. hn_buffer (m t) < length (ga_bufts ga)) \<and>
     (\<forall>i < length (ga_allocs ga). alloc_ok (ga_allocs ga ! i) (map (block asz ga m) (filter (\<lambda>t. held_by ga m t = i) L)))"

lemma same_store_memory: "same_store ga ga' \<Longrightarrow> memory asz ga' m = memory asz ga m"
  by (simp add: same_store_def memory_def fun_eq_iff)

lemma same_store_blocks: "same_store ga ga' \<Longrightarrow> blocks_ok asz ga' m L = blocks_ok asz ga m L"
  by (simp add: same_store_def blocks_ok_def buffers_ok_def block_def [abs_def] held_by_def)

lemma blocks_ok_perm: "mset L = mset L' \<Longrightarrow> blocks_ok asz ga m L = blocks_ok asz ga m L'"
proof -
  assume m: "mset L = mset L'"
  have "set L = set L'" using m by (rule mset_eq_setD)
  moreover have "alloc_ok A (map f (filter P L)) = alloc_ok A (map f (filter P L'))" for A f P
    by (rule alloc_ok_perm) (simp add: m)
  ultimately show ?thesis by (simp add: blocks_ok_def)
qed

lemma blocks_ok_cong:
  assumes "\<forall>t \<in> set L. hn_buffer (m' t) = hn_buffer (m t) \<and> hn_addr (m' t) = hn_addr (m t)"
  shows "blocks_ok asz ga m' L = blocks_ok asz ga m L"
proof -
  have "map (block asz ga m') (filter (\<lambda>t. held_by ga m' t = i) L) = map (block asz ga m) (filter (\<lambda>t. held_by ga m t = i) L)" for i
    using assms by (induction L) (auto simp: block_def held_by_def)
  then show ?thesis using assms by (simp add: blocks_ok_def)
qed

lemma memory_cong:
  "hn_buffer (m' t) = hn_buffer (m t) \<Longrightarrow> hn_addr (m' t) = hn_addr (m t) \<Longrightarrow> memory asz ga m' t = memory asz ga m t"
  by (simp add: memory_def)

lemma blocks_ok_disjoint:
  assumes "blocks_ok asz ga m (t # u # L)"
  shows "memory asz ga m t \<inter> memory asz ga m u = {}"
proof (rule ccontr)
  assume "memory asz ga m t \<inter> memory asz ga m u \<noteq> {}"
  then obtain i c p where p: "(i, c, p) \<in> memory asz ga m t" "(i, c, p) \<in> memory asz ga m u" by auto
  let ?A = "ga_allocs ga ! i"
  have i: "held_by ga m t = i" "held_by ga m u = i" using p by (auto simp: memory_def held_by_def)
  have b: "hn_buffer (m t) < length (ga_bufts ga)" "hn_buffer (m u) < length (ga_bufts ga)" "buffers_ok asz ga"
    using assms by (simp_all add: blocks_ok_def)
  then have len: "i < length (ga_allocs ga)" using i by (auto simp: buffers_ok_def held_by_def)
  let ?live = "map (block asz ga m) (filter (\<lambda>t. held_by ga m t = i) L)"
  have ok: "alloc_ok ?A (block asz ga m t # block asz ga m u # ?live)"
    using assms len i unfolding blocks_ok_def by auto
  have fair: "fair_size ?A (asz (ga_bufts ga ! hn_buffer (m t)) t)" "fair_size ?A (asz (ga_bufts ga ! hn_buffer (m u)) u)"
    using b i by (auto simp: buffers_ok_def held_by_def)
  note pad = padded_ok(2) [OF ok fair(1)] padded_ok(2) [OF ok fair(2)]
  have "ba_chunk (hn_addr (m t)) = ba_chunk (hn_addr (m u))" using p by (auto simp: memory_def)
  moreover have "0 < snd (block asz ga m t)" "0 < snd (block asz ga m u)"
    using p pad i by (auto simp: memory_def block_def)
  ultimately show False
    using alloc_ok_disjoint [OF ok, of "hn_addr (m t)" _ "hn_addr (m u)"] p pad i by (force simp: memory_def block_def)
qed

text \<open>One allocator changes.\<close>

lemma blocks_ok_update:
  assumes "blocks_ok asz ga m L" "i < length (ga_allocs ga)" "dt_alignment A' = dt_alignment (ga_allocs ga ! i)"
    and "alloc_ok A' (map (block asz ga m') (filter (\<lambda>t. held_by ga m' t = i) L'))"
    and "\<And>k. k \<noteq> i \<Longrightarrow> map (block asz ga m') (filter (\<lambda>t. held_by ga m' t = k) L') =
      map (block asz ga m) (filter (\<lambda>t. held_by ga m t = k) L)"
    and "\<forall>t \<in> set L'. hn_buffer (m' t) < length (ga_bufts ga)"
  shows "blocks_ok asz (ga\<lparr>ga_allocs := (ga_allocs ga)[i := A']\<rparr>) m' L'"
proof -
  let ?ga = "ga\<lparr>ga_allocs := (ga_allocs ga)[i := A']\<rparr>"
  have al: "dt_alignment (ga_allocs ?ga ! k) = dt_alignment (ga_allocs ga ! k)" for k
    using assms(2,3) by (cases "k = i") simp_all
  have same: "block asz ?ga m' = block asz ga m'" "held_by ?ga m' = held_by ga m'"
    using al by (simp_all add: block_def held_by_def fun_eq_iff)
  have "buffers_ok asz ?ga" using assms(1) al unfolding blocks_ok_def buffers_ok_def fair_size_def by simp
  moreover have "alloc_ok (ga_allocs ?ga ! k) (map (block asz ga m') (filter (\<lambda>t. held_by ga m' t = k) L'))"
    if "k < length (ga_allocs ga)" for k
    using that assms(1,2,4,5) by (cases "k = i") (simp_all add: blocks_ok_def)
  ultimately show ?thesis using assms(6) same by (simp add: blocks_ok_def)
qed

lemma blocks_ok_take:
  assumes "blocks_ok asz ga m L" "b < length (ga_bufts ga)" "i = ga_tallocs ga ! b"
    and "dyn_tallocr_alloc (ga_allocs ga ! i) (asz (ga_bufts ga ! b) w) = Some (ad, A')"
    and "hn_buffer (m' w) = b" "hn_addr (m' w) = ad"
    and "\<forall>t \<in> set L. hn_buffer (m' t) = hn_buffer (m t) \<and> hn_addr (m' t) = hn_addr (m t)"
  shows "blocks_ok asz (ga\<lparr>ga_allocs := (ga_allocs ga)[i := A']\<rparr>) m' (w # L)"
proof -
  have L: "blocks_ok asz ga m' L" using blocks_ok_cong [OF assms(7)] assms(1) by simp
  have i: "i < length (ga_allocs ga)" "fair_size (ga_allocs ga ! i) (asz (ga_bufts ga ! b) w)"
    using L assms(2,3) by (auto simp: blocks_ok_def buffers_ok_def)
  have live: "alloc_ok (ga_allocs ga ! i) (map (block asz ga m') (filter (\<lambda>t. held_by ga m' t = i) L))"
    using L i(1) by (simp add: blocks_ok_def)
  note k = alloc_keeps [OF live i(2), unfolded assms(4) option.case prod.case]
  have w: "held_by ga m' w = i" "block asz ga m' w = (ad, padded (ga_allocs ga ! i) (asz (ga_bufts ga ! b) w))"
    using assms(3,5,6) by (simp_all add: held_by_def block_def)
  show ?thesis
    by (rule blocks_ok_update [OF L i(1)]) (use k w L assms(2,5) in \<open>simp_all add: blocks_ok_def\<close>)
qed

lemma blocks_ok_free:
  assumes "blocks_ok asz ga m (t # L)" "i = held_by ga m t"
    and "dyn_tallocr_free_bytes (ga_allocs ga ! i) (hn_addr (m t)) (asz (ga_bufts ga ! hn_buffer (m t)) t) = Some A'"
  shows "blocks_ok asz (ga\<lparr>ga_allocs := (ga_allocs ga)[i := A']\<rparr>) m L"
proof -
  have i: "i < length (ga_allocs ga)" using assms(1,2) by (auto simp: blocks_ok_def buffers_ok_def held_by_def)
  let ?live = "map (block asz ga m) (filter (\<lambda>t. held_by ga m t = i) L)"
  have b: "block asz ga m t = (hn_addr (m t), padded (ga_allocs ga ! i) (asz (ga_bufts ga ! hn_buffer (m t)) t))"
    using assms(2) by (simp add: block_def)
  have "alloc_ok (ga_allocs ga ! i) (block asz ga m t # ?live)" using assms(1,2) i by (auto simp: blocks_ok_def)
  from free_keeps [OF this, of "hn_addr (m t)" "asz (ga_bufts ga ! hn_buffer (m t)) t"] b assms(3)
  have "alloc_ok A' ?live" "dt_alignment A' = dt_alignment (ga_allocs ga ! i)" by simp_all
  then show ?thesis using assms(1,2) i by (intro blocks_ok_update [OF assms(1)]) (simp_all add: blocks_ok_def)
qed

lemma aligned_offset_dvd: "al dvd sz \<Longrightarrow> 0 < al \<Longrightarrow> sz + al \<le> 2 ^ 64 \<Longrightarrow> aligned_offset 0 sz al = sz"
proof -
  assume a: "al dvd sz" "0 < al" "sz + al \<le> 2 ^ 64"
  note s = aligned_offset_spec [OF a(2,3)]
  have "al dvd aligned_offset 0 sz al - sz" using s(1) a(1) by (rule dvd_diff_nat)
  moreover have "aligned_offset 0 sz al - sz < al" using s a(2) by linarith
  ultimately have "aligned_offset 0 sz al - sz = 0" using nat_dvd_not_less by blast
  then show ?thesis using s(2) by simp
qed

text \<open>One tensor takes over the block of another and gives back the end of it.\<close>

lemma blocks_ok_over:
  assumes "blocks_ok asz ga m (p # L)" "hn_buffer (m' w) = hn_buffer (m p)" "hn_addr (m' w) = hn_addr (m p)"
    and "\<forall>t \<in> set L. hn_buffer (m' t) = hn_buffer (m t) \<and> hn_addr (m' t) = hn_addr (m t)"
    and "i = held_by ga m p" "A = ga_allocs ga ! i"
    and "P = padded A (asz (ga_bufts ga ! hn_buffer (m p)) p)" "N = padded A (asz (ga_bufts ga ! hn_buffer (m p)) w)"
  shows "P = N \<Longrightarrow> blocks_ok asz ga m' (w # L)"
    and "N < P \<Longrightarrow> dyn_tallocr_free_bytes A ((hn_addr (m p))\<lparr>ba_offset := add64 (ba_offset (hn_addr (m p))) N\<rparr>) (P - N) = Some A' \<Longrightarrow>
      blocks_ok asz (ga\<lparr>ga_allocs := (ga_allocs ga)[i := A']\<rparr>) m' (w # L)"
proof -
  let ?ad = "hn_addr (m p)"
  have b: "hn_buffer (m p) < length (ga_bufts ga)" "buffers_ok asz ga" using assms(1) by (simp_all add: blocks_ok_def)
  then have i: "i < length (ga_allocs ga)" using assms(5) by (auto simp: buffers_ok_def held_by_def)
  define live where "live = map (block asz ga m) (filter (\<lambda>t. held_by ga m t = i) L)"
  have live: "alloc_ok A ((?ad, P) # live)"
    using assms(1,5-7) i by (auto simp: blocks_ok_def live_def block_def)
  have buf: "\<forall>t \<in> set (w # L). hn_buffer (m' t) < length (ga_bufts ga)" using assms(1,2,4) by (simp add: blocks_ok_def)
  have same: "map (block asz ga m') (filter (\<lambda>t. held_by ga m' t = k) L) = map (block asz ga m) (filter (\<lambda>t. held_by ga m t = k) L)" for k
    using assms(4) by (induction L) (auto simp: block_def held_by_def)
  have w: "held_by ga m' w = i" "block asz ga m' w = (?ad, N)"
    using assms(2,3,5,6,8) by (simp_all add: held_by_def block_def)
  show "blocks_ok asz ga m' (w # L)" if "P = N"
    using assms(1,5,6) w same buf live that unfolding blocks_ok_def live_def by auto
  show "blocks_ok asz (ga\<lparr>ga_allocs := (ga_allocs ga)[i := A']\<rparr>) m' (w # L)"
    if N: "N < P" and f: "dyn_tallocr_free_bytes A (?ad\<lparr>ba_offset := add64 (ba_offset ?ad) N\<rparr>) (P - N) = Some A'"
  proof -
    have fair: "fair_size A (asz (ga_bufts ga ! hn_buffer (m p)) p)" "fair_size A (asz (ga_bufts ga ! hn_buffer (m p)) w)"
      using b assms(5,6) by (auto simp: buffers_ok_def held_by_def)
    note P = padded_ok [OF live fair(1), folded assms(7)] and N' = padded_ok [OF live fair(2), folded assms(8)]
    have al: "0 < dt_alignment A" using live by (simp add: alloc_ok_def)
    have "dt_alignment A \<le> 2 ^ 63" using fair(1) by (simp add: fair_size_def)
    then have pad: "padded A (P - N) = P - N"
      by (intro aligned_offset_dvd dvd_diff_nat P(1) N'(1) al) (use P(3) in simp)
    have "ba_offset ?ad + P < 2 ^ 64" using alloc_ok_end [OF live] .
    then have off: "add64 (ba_offset ?ad) N = ba_offset ?ad + N" using N by (simp add: add64_id)
    have "alloc_ok A ((?ad, N) # (?ad\<lparr>ba_offset := ba_offset ?ad + N\<rparr>, P - N) # live)"
      using alloc_ok_shorten [of A ?ad N "P - N" live] live N N'(1) by simp
    from free_keeps [OF this, of "?ad\<lparr>ba_offset := ba_offset ?ad + N\<rparr>" "P - N"] f pad off
    have A': "alloc_ok A' (remove1 (?ad\<lparr>ba_offset := ba_offset ?ad + N\<rparr>, P - N)
        ((?ad, N) # (?ad\<lparr>ba_offset := ba_offset ?ad + N\<rparr>, P - N) # live))" "dt_alignment A' = dt_alignment A" by simp_all
    have "alloc_ok A' ((?ad, N) # live)" 
      using A'(1) by (rule alloc_ok_perm [THEN iffD1, rotated]) simp
    then show ?thesis
      by (intro blocks_ok_update [OF assms(1) i]) (use A'(2) assms(5,6) w same buf in \<open>simp_all add: live_def\<close>)
  qed
qed

section \<open>One tensor\<close>

text \<open>Tensors that this allocator places: not views, and not placed by somebody else.\<close>

definition local :: "heap \<Rightarrow> nat \<Rightarrow> bool" where
  "local T t \<longleftrightarrow> t_data (T t) = None \<and> t_buffer (T t) = None \<and> t_view_src (T t) = None"

text \<open>The tensors marked as allocated hold their blocks.\<close>

definition holds :: "heap \<Rightarrow> (nat \<Rightarrow> nat \<Rightarrow> nat) \<Rightarrow> galloc \<Rightarrow> bool" where
  "holds T asz ga \<longleftrightarrow> table_ok ga \<and> (\<forall>t. hn_allocated (node_of ga t) \<longrightarrow> local T t) \<and>
     (\<exists>L. distinct L \<and> set L = {t. hn_allocated (node_of ga t)} \<and> blocks_ok asz ga (node_of ga) L)"

text \<open>The same buffers; their chunks may have grown.\<close>

definition chunk_size :: "galloc \<Rightarrow> nat \<Rightarrow> nat \<Rightarrow> nat" where
  "chunk_size ga i c = dyn_tallocr_max_size (ga_allocs ga ! i) c"

definition same_bufs :: "galloc \<Rightarrow> galloc \<Rightarrow> bool" where
  "same_bufs ga ga' \<longleftrightarrow> ga_bufts ga' = ga_bufts ga \<and> ga_tallocs ga' = ga_tallocs ga \<and>
     (\<forall>i c. chunk_size ga i c \<le> chunk_size ga' i c)"

lemma same_bufs_refl [simp]: "same_bufs ga ga"
  by (simp add: same_bufs_def)

lemma same_bufs_trans: "same_bufs ga ga' \<Longrightarrow> same_bufs ga' ga'' \<Longrightarrow> same_bufs ga ga''"
  unfolding same_bufs_def by (simp, meson le_trans)

lemma same_store_bufs: "same_store ga ga' \<Longrightarrow> same_bufs ga ga'"
  by (simp add: same_store_def same_bufs_def chunk_size_def)

lemma same_bufs_update:
  assumes "\<And>c. dyn_tallocr_max_size (ga_allocs ga ! i) c \<le> dyn_tallocr_max_size A' c"
  shows "same_bufs ga (ga\<lparr>ga_allocs := (ga_allocs ga)[i := A']\<rparr>)"
proof -
  have "chunk_size ga k c \<le> dyn_tallocr_max_size ((ga_allocs ga)[i := A'] ! k) c" for k c
    using assms by (cases "k = i \<and> i < length (ga_allocs ga)") (auto simp: chunk_size_def list_update_beyond not_less)
  then show ?thesis by (simp add: same_bufs_def) (simp add: chunk_size_def)
qed

lemma same_bufs_memory: "same_bufs ga ga' \<Longrightarrow> memory asz ga' m = memory asz ga m"
  by (simp add: same_bufs_def memory_def fun_eq_iff)

lemma holds_store: "holds T asz ga \<Longrightarrow> same_store ga ga' \<Longrightarrow> table_ok ga' \<Longrightarrow> node_of ga' = node_of ga \<Longrightarrow> holds T asz ga'"
  using same_store_blocks unfolding holds_def by metis

text \<open>A change that concerns neither which tensors hold memory nor where.\<close>

lemma holds_counts:
  assumes "holds T asz ga" "hash_set_node t f ga = Some ga'"
    and "\<And>hn. hn_buffer (f hn) = hn_buffer hn \<and> hn_addr (f hn) = hn_addr hn \<and> hn_allocated (f hn) = hn_allocated hn"
  shows "holds T asz ga'" "same_store ga ga'" "node_of ga' = (node_of ga)(t := f (node_of ga t))"
proof -
  have "table_ok ga" using assms(1) by (simp add: holds_def)
  note h = hash_set_nodeD [OF assms(2) this]
  then show "same_store ga ga'" "node_of ga' = (node_of ga)(t := f (node_of ga t))" by simp_all
  have same: "hn_allocated (node_of ga' u) = hn_allocated (node_of ga u)"
    "hn_buffer (node_of ga' u) = hn_buffer (node_of ga u)" "hn_addr (node_of ga' u) = hn_addr (node_of ga u)" for u
    using assms(3) h(2) by simp_all
  have "blocks_ok asz ga' (node_of ga') L = blocks_ok asz ga (node_of ga) L" for L
    using same_store_blocks [OF h(3)] blocks_ok_cong [of L "node_of ga'" "node_of ga"] same by simp
  then show "holds T asz ga'" using assms(1) h(1) same by (simp add: holds_def)
qed

lemma holds_pick:
  assumes "holds T asz ga" "hn_allocated (node_of ga t)"
  shows "\<exists>L. distinct (t # L) \<and> set (t # L) = {t. hn_allocated (node_of ga t)} \<and> blocks_ok asz ga (node_of ga) (t # L)"
proof -
  obtain L where L: "distinct L" "set L = {t. hn_allocated (node_of ga t)}" "blocks_ok asz ga (node_of ga) L"
    using assms(1) unfolding holds_def by blast
  then have t: "t \<in> set L" using assms(2) by simp
  then have "mset L = mset (t # remove1 t L)" by simp
  from blocks_ok_perm [OF this] L t show ?thesis by (intro exI [of _ "remove1 t L"]) auto
qed

lemma holds_disjoint:
  assumes "holds T asz ga" "hn_allocated (node_of ga t)" "hn_allocated (node_of ga u)" "t \<noteq> u"
  shows "memory asz ga (node_of ga) t \<inter> memory asz ga (node_of ga) u = {}"
proof -
  obtain L where L: "distinct (t # L)" "set (t # L) = {t. hn_allocated (node_of ga t)}" "blocks_ok asz ga (node_of ga) (t # L)"
    using holds_pick [OF assms(1,2)] by blast
  then have u: "u \<in> set L" using assms(3,4) by auto
  then have "mset (t # L) = mset (t # u # remove1 u L)" by simp
  from blocks_ok_perm [OF this] L(3) show ?thesis using blocks_ok_disjoint by blast
qed

text \<open>The memory of a tensor lies inside its chunk.\<close>

definition inside :: "(nat \<Rightarrow> nat \<Rightarrow> nat) \<Rightarrow> galloc \<Rightarrow> nat \<Rightarrow> bool" where
  "inside asz ga t \<longleftrightarrow> (\<forall>(i, c, p) \<in> memory asz ga (node_of ga) t. p < chunk_size ga i c)"

lemma holds_inside:
  assumes "holds T asz ga" "hn_allocated (node_of ga t)"
  shows "inside asz ga t"
proof -
  let ?m = "node_of ga" and ?i = "held_by ga (node_of ga) t"
  obtain L where L: "blocks_ok asz ga ?m (t # L)" using holds_pick [OF assms] by blast
  then have b: "buffers_ok asz ga" "hn_buffer (?m t) < length (ga_bufts ga)" by (simp_all add: blocks_ok_def)
  then have i: "?i < length (ga_allocs ga)" by (simp add: buffers_ok_def held_by_def)
  let ?live = "map (block asz ga ?m) (filter (\<lambda>u. held_by ga ?m u = ?i) (t # L))"
  have ok: "alloc_ok (ga_allocs ga ! ?i) ?live" using L i unfolding blocks_ok_def by blast
  have "fair_size (ga_allocs ga ! ?i) (asz (ga_bufts ga ! hn_buffer (?m t)) t)" using b by (simp add: buffers_ok_def held_by_def)
  note pad = padded_ok(2) [OF ok this]
  have "block asz ga ?m t \<in> set ?live" by simp
  then have "ba_offset (hn_addr (?m t)) + snd (block asz ga ?m t) \<le> chunk_size ga ?i (ba_chunk (hn_addr (?m t)))"
    using alloc_ok_inside(2) [OF ok, of "fst (block asz ga ?m t)" "snd (block asz ga ?m t)"]
    by (simp add: chunk_size_def) (simp add: block_def)
  then show ?thesis using pad by (auto simp: inside_def memory_def block_def held_by_def)
qed

lemma free_atD:
  assumes "free_at ga b addr sz = Some ga'"
  shows "\<exists>A'. dyn_tallocr_free_bytes (ga_allocs ga ! (ga_tallocs ga ! b)) addr sz = Some A' \<and>
    ga' = ga\<lparr>ga_allocs := (ga_allocs ga)[ga_tallocs ga ! b := A']\<rparr>"
  using assms by (auto simp: free_at_def buf_alloc_def bind_eq_Some_conv rd_eq_Some)

lemma alloc_bytesD: "alloc_bytes asz ga b t = Some sz \<Longrightarrow> sz = asz (ga_bufts ga ! b) t \<and> b < length (ga_bufts ga)"
  by (auto simp: alloc_bytes_def rd_eq_Some)

lemma buf_allocD: "buf_alloc ga b = Some (i, A) \<Longrightarrow> i = ga_tallocs ga ! b \<and> A = ga_allocs ga ! i"
  by (auto simp: buf_alloc_def bind_eq_Some_conv rd_eq_Some)

lemma free_node_spec:
  assumes "free_node T asz t ga = Some ga'" "holds T asz ga" "hn_allocated (node_of ga t)"
  shows "holds T asz ga' \<and> same_bufs ga ga' \<and>
    node_of ga' = (if t_output (T t) then node_of ga else (node_of ga)(t := (node_of ga t)\<lparr>hn_allocated := False\<rparr>))"
proof (cases "t_output (T t)")
  case True
  then show ?thesis using assms by (simp add: free_node_def)
next
  case False
  have tab: "table_ok ga" using assms(2) by (simp add: holds_def)
  obtain hn ga1 sz ga2 where run: "hash_get ga t id = Some (hn, ga1)" "alloc_bytes asz ga1 (hn_buffer hn) t = Some sz"
    "free_at ga1 (hn_buffer hn) (hn_addr hn) sz = Some ga2"
    "hash_set_node t (\<lambda>hn. hn\<lparr>hn_allocated := False\<rparr>) ga2 = Some ga'"
    using assms(1) False by (auto simp: free_node_def bind_eq_Some_conv)
  note h = hash_readD [OF run(1) tab]
  obtain L where L: "distinct (t # L)" "set (t # L) = {t. hn_allocated (node_of ga t)}" "blocks_ok asz ga1 (node_of ga) (t # L)"
    using holds_pick [OF assms(2,3)] same_store_blocks [OF h(4)] by blast
  obtain A' where A': "dyn_tallocr_free_bytes (ga_allocs ga1 ! (ga_tallocs ga1 ! hn_buffer hn)) (hn_addr hn) sz = Some A'"
    "ga2 = ga1\<lparr>ga_allocs := (ga_allocs ga1)[ga_tallocs ga1 ! hn_buffer hn := A']\<rparr>"
    using free_atD [OF run(3)] by blast
  have B2: "blocks_ok asz ga2 (node_of ga) L"
    unfolding A'(2) using A'(1) alloc_bytesD [OF run(2)] h(1) by (intro blocks_ok_free [OF L(3)]) (simp_all add: held_by_def)
  have tab2: "table_ok ga2" "node_of ga2 = node_of ga" using h A'(2) by simp_all
  note h' = hash_set_nodeD [OF run(4) tab2(1), unfolded tab2(2)]
  have "blocks_ok asz ga' (node_of ga') L"
    using B2 same_store_blocks [OF h'(3)] blocks_ok_cong [of L "node_of ga'" "node_of ga"] L(1) h'(2) by auto
  moreover have "set L = {t. hn_allocated (node_of ga' t)}" using L(1,2) h'(2) by auto
  ultimately have "holds T asz ga'" using assms(2) L(1) h'(1,2) unfolding holds_def by auto
  moreover have "same_bufs ga1 ga2" unfolding A'(2) using free_bytes_max [OF A'(1)] by (intro same_bufs_update) simp
  then have "same_bufs ga ga'" using same_store_bufs [OF h(4)] same_store_bufs [OF h'(3)] same_bufs_trans by blast
  ultimately show ?thesis using False h'(2) by simp
qed

lemma padded_mono:
  assumes "0 < al" "a \<le> b" "b + al \<le> 2 ^ 64"
  shows "aligned_offset 0 a al \<le> aligned_offset 0 b al"
proof (rule ccontr)
  assume neg: "\<not> aligned_offset 0 a al \<le> aligned_offset 0 b al"
  note A = aligned_offset_spec [OF assms(1), of a] and B = aligned_offset_spec [OF assms(1,3)]
  have "al dvd aligned_offset 0 a al - aligned_offset 0 b al" using A(1) B(1) assms by (intro dvd_diff_nat) simp_all
  moreover have "aligned_offset 0 a al - aligned_offset 0 b al < al" "0 < aligned_offset 0 a al - aligned_offset 0 b al"
    using A(2,3) B(2) assms neg by linarith+
  ultimately show False using nat_dvd_not_less by blast
qed

lemma free_extra_spaceD:
  assumes "free_extra_space asz w p ga = Some ga'" "table_ok ga" "m = node_of ga"
    and "b = hn_buffer (m p)" "hn_buffer (m w) = b" "i = ga_tallocs ga ! b" "A = ga_allocs ga ! i"
    and "P = padded A (asz (ga_bufts ga ! b) p)" "N = padded A (asz (ga_bufts ga ! b) w)"
  shows "table_ok ga'" "node_of ga' = m" "same_bufs ga ga'" "asz (ga_bufts ga ! b) w \<le> asz (ga_bufts ga ! b) p"
    and "P \<le> N \<Longrightarrow> same_store ga ga'"
    and "N < P \<Longrightarrow> \<exists>A' ga1. dyn_tallocr_free_bytes A ((hn_addr (m p))\<lparr>ba_offset := add64 (ba_offset (hn_addr (m p))) N\<rparr>) (P - N) = Some A' \<and>
      same_store ga ga1 \<and> ga' = ga1\<lparr>ga_allocs := (ga_allocs ga1)[i := A']\<rparr>"
proof -
  obtain hn ga1 ph ga2 ps ns j B where run: "hash_get ga w id = Some (hn, ga1)" "hash_get ga1 p id = Some (ph, ga2)"
    "alloc_bytes asz ga2 (hn_buffer ph) p = Some ps" "alloc_bytes asz ga2 (hn_buffer hn) w = Some ns"
    "buf_alloc ga2 (hn_buffer ph) = Some (j, B)" "\<not> ps < ns"
    and res: "(let p = aligned_offset 0 ps (dt_alignment B); n = aligned_offset 0 ns (dt_alignment B)
           in if p > n
              then free_at ga2 (hn_buffer ph) ((hn_addr ph)\<lparr>ba_offset := add64 (ba_offset (hn_addr ph)) n\<rparr>) (p - n)
              else Some ga2) = Some ga'"
    using assms(1) by (auto simp: free_extra_space_def bind_eq_Some_conv split: if_splits)
  note h1 = hash_readD [OF run(1) assms(2)]
  note h2 = hash_readD [OF run(2) h1(2)]
  have eq: "hn = m w" "ph = m p" "same_store ga ga2" "node_of ga2 = m" using h1 h2 assms(3) same_store_trans by auto
  have ps: "ps = asz (ga_bufts ga ! b) p" "ns = asz (ga_bufts ga ! b) w" "j = i" "B = A"
    using alloc_bytesD [OF run(3)] alloc_bytesD [OF run(4)] buf_allocD [OF run(5)] eq assms(4-7) by (simp_all add: same_store_def)
  have P: "aligned_offset 0 ps (dt_alignment B) = P" "aligned_offset 0 ns (dt_alignment B) = N"
    using ps assms(8,9) by simp_all
  show "asz (ga_bufts ga ! b) w \<le> asz (ga_bufts ga ! b) p" using run(6) ps by simp
  show same: "P \<le> N \<Longrightarrow> same_store ga ga'" using res P eq(3) by simp
  show ex: "N < P \<Longrightarrow> \<exists>A' ga1. dyn_tallocr_free_bytes A ((hn_addr (m p))\<lparr>ba_offset := add64 (ba_offset (hn_addr (m p))) N\<rparr>) (P - N) = Some A' \<and>
      same_store ga ga1 \<and> ga' = ga1\<lparr>ga_allocs := (ga_allocs ga1)[i := A']\<rparr>"
  proof -
    assume "N < P"
    then have "free_at ga2 b ((hn_addr (m p))\<lparr>ba_offset := add64 (ba_offset (hn_addr (m p))) N\<rparr>) (P - N) = Some ga'"
      using res P eq(2) assms(4) by simp
    then obtain A' where "dyn_tallocr_free_bytes A ((hn_addr (m p))\<lparr>ba_offset := add64 (ba_offset (hn_addr (m p))) N\<rparr>) (P - N) = Some A'"
      "ga' = ga2\<lparr>ga_allocs := (ga_allocs ga2)[i := A']\<rparr>"
      using free_atD eq(3) assms(6,7) by (fastforce simp: same_store_def)
    then show ?thesis using eq(3) by blast
  qed
  show "table_ok ga'" "node_of ga' = m" "same_bufs ga ga'"
  proof (atomize(full), cases "N < P")
    case True
    then obtain addr where "free_at ga2 b addr (P - N) = Some ga'" using res P eq(2) assms(4) by auto
    from free_atD [OF this] obtain A' where A': "dyn_tallocr_free_bytes (ga_allocs ga2 ! (ga_tallocs ga2 ! b)) addr (P - N) = Some A'"
      "ga' = ga2\<lparr>ga_allocs := (ga_allocs ga2)[ga_tallocs ga2 ! b := A']\<rparr>" by blast
    have "same_bufs ga2 ga'" unfolding A'(2) using free_bytes_max [OF A'(1)] by (intro same_bufs_update) simp
    then show "table_ok ga' \<and> node_of ga' = m \<and> same_bufs ga ga'"
      using h2(2) eq(4) A'(2) same_bufs_trans [OF same_store_bufs [OF eq(3)]] by simp
  next
    case False
    then show "table_ok ga' \<and> node_of ga' = m \<and> same_bufs ga ga'"
      using res P h2(2) eq(4) same_store_bufs [OF eq(3)] by simp
  qed
qed

lemma take_over_spec:
  assumes "take_over asz w (node_of ga p) [p] p ga = Some ga'" "table_ok ga" "w \<noteq> p" "w \<notin> set L" "p \<notin> set L"
    and "blocks_ok asz ga (node_of ga) (p # L)"
  shows "table_ok ga'" "same_bufs ga ga'" "blocks_ok asz ga' (node_of ga') (w # L)"
    and "node_of ga' = (node_of ga)(w := (node_of ga w)\<lparr>hn_buffer := hn_buffer (node_of ga p), hn_addr := hn_addr (node_of ga p)\<rparr>,
      p := (node_of ga p)\<lparr>hn_allocated := False\<rparr>)"
    and "memory asz ga' (node_of ga') w \<subseteq> memory asz ga (node_of ga) p"
proof -
  let ?m = "node_of ga"
  obtain ga1 ga2 where run: "hash_set_node w (\<lambda>hn. hn\<lparr>hn_buffer := hn_buffer (?m p), hn_addr := hn_addr (?m p)\<rparr>) ga = Some ga1"
    "hash_set_node p (\<lambda>hn. hn\<lparr>hn_allocated := False\<rparr>) ga1 = Some ga2" "free_extra_space asz w p ga2 = Some ga'"
    using assms(1) by (auto simp: take_over_def bind_eq_Some_conv)
  note h1 = hash_set_nodeD [OF run(1) assms(2)]
  note h2 = hash_set_nodeD [OF run(2) h1(1)]
  have st: "same_store ga ga2" using same_store_trans [OF h1(3) h2(3)] .
  let ?m' = "node_of ga2"
  have m': "?m' = ?m(w := (?m w)\<lparr>hn_buffer := hn_buffer (?m p), hn_addr := hn_addr (?m p)\<rparr>, p := (?m p)\<lparr>hn_allocated := False\<rparr>)"
    using h1(2) h2(2) assms(3) by simp
  define b where "b = hn_buffer (?m p)"
  have B: "b = hn_buffer (?m' p)" "hn_buffer (?m' w) = b" using m' assms(3) by (simp_all add: b_def)
  define i A where "i = ga_tallocs ga2 ! b" and "A = ga_allocs ga2 ! i"
  note f = free_extra_spaceD [OF run(3) h2(1) refl B i_def A_def refl refl]
  have blocks: "blocks_ok asz ga2 ?m (p # L)" using assms(6) same_store_blocks [OF st] by simp
  have p: "b < length (ga_bufts ga2)" "buffers_ok asz ga2" using blocks by (simp_all add: blocks_ok_def b_def)
  have "alloc_ok A (map (block asz ga2 ?m) (filter (\<lambda>t. held_by ga2 ?m t = i) (p # L)))"
    using blocks p unfolding blocks_ok_def buffers_ok_def A_def i_def by blast
  then have al: "0 < dt_alignment A" by (simp add: alloc_ok_def)
  have "fair_size A (asz (ga_bufts ga2 ! b) p)" using p unfolding buffers_ok_def A_def i_def by blast
  then have le: "padded A (asz (ga_bufts ga2 ! b) w) \<le> padded A (asz (ga_bufts ga2 ! b) p)"
    by (intro padded_mono al f(4)) (simp add: fair_size_def)
  have same: "\<forall>t \<in> set L. hn_buffer (?m' t) = hn_buffer (?m t) \<and> hn_addr (?m' t) = hn_addr (?m t)"
    using m' assms(4,5) by auto
  have addr: "hn_addr (?m' w) = hn_addr (?m p)" "hn_addr (?m' p) = hn_addr (?m p)" using m' assms(3) by simp_all
  have i: "i = held_by ga2 ?m p" by (simp add: i_def b_def held_by_def)
  note over = blocks_ok_over [OF blocks _ addr(1) same i A_def refl refl, folded b_def, OF B(2)]
  show "blocks_ok asz ga' (node_of ga') (w # L)"
  proof (cases "padded A (asz (ga_bufts ga2 ! b) p) = padded A (asz (ga_bufts ga2 ! b) w)")
    case True
    then show ?thesis using over(1) f(2,5) same_store_blocks by auto
  next
    case False
    then obtain A' ga3 where 3: "dyn_tallocr_free_bytes A ((hn_addr (?m' p))\<lparr>ba_offset := add64 (ba_offset (hn_addr (?m' p)))
        (padded A (asz (ga_bufts ga2 ! b) w))\<rparr>) (padded A (asz (ga_bufts ga2 ! b) p) - padded A (asz (ga_bufts ga2 ! b) w)) = Some A'"
      "same_store ga2 ga3" "ga' = ga3\<lparr>ga_allocs := (ga_allocs ga3)[i := A']\<rparr>"
      using f(6) le by auto
    have "same_store (ga2\<lparr>ga_allocs := (ga_allocs ga2)[i := A']\<rparr>) ga'" using 3(2,3) by (simp add: same_store_def)
    then show ?thesis using over(2) False le 3(1) f(2) addr(2) same_store_blocks by auto
  qed
  show "table_ok ga'" "same_bufs ga ga'" using f(1,3) same_bufs_trans [OF same_store_bufs [OF st]] by simp_all
  show m2: "node_of ga' = ?m(w := (?m w)\<lparr>hn_buffer := hn_buffer (?m p), hn_addr := hn_addr (?m p)\<rparr>, p := (?m p)\<lparr>hn_allocated := False\<rparr>)"
    using m' by (simp only: f(2))
  have "ga_bufts ga' = ga_bufts ga" "ga_tallocs ga' = ga_tallocs ga" "ga_bufts ga2 = ga_bufts ga"
    using f(3) st by (simp_all add: same_store_def same_bufs_def)
  then show "memory asz ga' (node_of ga') w \<subseteq> memory asz ga ?m p" using f(4) B(2) addr(1) f(2) by (auto simp: memory_def b_def)
qed

text \<open>How a tensor gets its memory: a block of its own, or the block of a source that nothing else needs.\<close>

definition fresh_at :: "(nat \<Rightarrow> nat \<Rightarrow> nat) \<Rightarrow> galloc \<Rightarrow> nat \<Rightarrow> galloc \<Rightarrow> bool" where
  "fresh_at asz ga w ga' \<longleftrightarrow>
     (\<exists>b ad. node_of ga' = (node_of ga)(w := (node_of ga w)\<lparr>hn_buffer := b, hn_addr := ad, hn_allocated := True\<rparr>)) \<and>
     (\<forall>t. hn_allocated (node_of ga t) \<longrightarrow> memory asz ga' (node_of ga') w \<inter> memory asz ga (node_of ga) t = {})"

definition may_reuse :: "heap \<Rightarrow> galloc \<Rightarrow> nat \<Rightarrow> nat \<Rightarrow> bool" where
  "may_reuse T ga w p \<longleftrightarrow> hn_allocated (node_of ga p) \<and> hn_children (node_of ga p) = 1 \<and> hn_views (node_of ga p) = 0 \<and>
     \<not> is_output T p \<and> ggml_are_same_layout (T w) (T p)"

definition over_at :: "heap \<Rightarrow> (nat \<Rightarrow> nat \<Rightarrow> nat) \<Rightarrow> galloc \<Rightarrow> nat \<Rightarrow> nat \<Rightarrow> galloc \<Rightarrow> bool" where
  "over_at T asz ga w p ga' \<longleftrightarrow> p \<in> set (sources T w) \<and> ggml_op_can_inplace (t_op (T w)) \<and> may_reuse T ga w p \<and>
     node_of ga' = (node_of ga)(w := (node_of ga w)\<lparr>hn_buffer := hn_buffer (node_of ga p), hn_addr := hn_addr (node_of ga p),
       hn_allocated := True\<rparr>, p := (node_of ga p)\<lparr>hn_allocated := False\<rparr>) \<and>
     memory asz ga' (node_of ga') w \<subseteq> memory asz ga (node_of ga) p"

lemma reuse_parent_no:
  assumes "reuse_parent T asz w p ga = Some (False, ga')" "table_ok ga"
  shows "table_ok ga' \<and> node_of ga' = node_of ga \<and> same_store ga ga'"
proof -
  obtain own ga1 where 1: "is_own ga p = Some (own, ga1)" using assms(1) by (auto simp: reuse_parent_def bind_eq_Some_conv)
  note h1 = is_ownD [OF 1 assms(2)]
  show ?thesis
  proof (cases "\<not> own \<or> is_output T p \<or> \<not> ggml_are_same_layout (T w) (T p)")
    case True
    then show ?thesis using assms(1) 1 h1 by (auto simp: reuse_parent_def)
  next
    case False
    then obtain ph ga2 where 2: "hash_get ga1 p id = Some (ph, ga2)"
      using assms(1) 1 by (auto simp: reuse_parent_def bind_eq_Some_conv)
    note h2 = hash_readD [OF 2 h1(2)]
    have two: "table_ok ga2" "node_of ga2 = node_of ga" "same_store ga ga2"
      using h1 h2 same_store_trans by auto
    show ?thesis
    proof (cases "ga' = ga2")
      case False
      then obtain vs vh where 3: "hash_get ga2 vs id = Some (vh, ga')"
        using assms(1) 1 2 \<open>\<not> (\<not> own \<or> is_output T p \<or> \<not> ggml_are_same_layout (T w) (T p))\<close>
        by (auto simp: reuse_parent_def bind_eq_Some_conv split: if_splits option.splits)
      show ?thesis using hash_readD [OF 3 two(1)] two same_store_trans by auto
    qed (use two in simp)
  qed
qed

lemma reuse_parent_yes:
  assumes "reuse_parent T asz w p ga = Some (True, ga')" "table_ok ga" "hn_allocated (node_of ga p) \<longrightarrow> t_view_src (T p) = None"
  shows "may_reuse T ga w p \<and>
    (\<exists>ga1. table_ok ga1 \<and> node_of ga1 = node_of ga \<and> same_store ga ga1 \<and> take_over asz w (node_of ga1 p) [p] p ga1 = Some ga')"
proof -
  obtain own ga1 where 1: "is_own ga p = Some (own, ga1)" using assms(1) by (auto simp: reuse_parent_def bind_eq_Some_conv)
  note h1 = is_ownD [OF 1 assms(2)]
  have c: "own" "\<not> is_output T p" "ggml_are_same_layout (T w) (T p)"
    using assms(1) 1 by (auto simp: reuse_parent_def split: if_splits)
  then have v: "t_view_src (T p) = None" using assms(3) h1(1) by simp
  obtain ph ga2 where 2: "hash_get ga1 p id = Some (ph, ga2)"
    using assms(1) 1 c by (auto simp: reuse_parent_def bind_eq_Some_conv)
  note h2 = hash_readD [OF 2 h1(2)]
  have two: "table_ok ga2" "node_of ga2 = node_of ga" "same_store ga ga2" "ph = node_of ga2 p"
    using h1 h2 same_store_trans by auto
  have "hn_children ph = 1 \<and> hn_views ph = 0 \<and> take_over asz w ph [p] p ga2 = Some ga'"
    using assms(1) 1 2 c v by (auto simp: reuse_parent_def split: if_splits)
  then show ?thesis using two c h1(1) by (auto simp: may_reuse_def)
qed

lemma reuse_parents_cases:
  assumes "reuse_parents T asz w ps ga = Some (r, ga')" "table_ok ga"
    and "\<forall>p \<in> set ps. hn_allocated (node_of ga p) \<longrightarrow> t_view_src (T p) = None"
  shows "if r then \<exists>p \<in> set ps. may_reuse T ga w p \<and> (\<exists>ga1. table_ok ga1 \<and> node_of ga1 = node_of ga \<and> same_store ga ga1 \<and>
      take_over asz w (node_of ga1 p) [p] p ga1 = Some ga')
    else table_ok ga' \<and> node_of ga' = node_of ga \<and> same_store ga ga'"
  using assms
proof (induction ps arbitrary: ga)
  case (Cons p ps)
  obtain r1 ga1 where 1: "reuse_parent T asz w p ga = Some (r1, ga1)" using Cons.prems(1) by (auto simp: bind_eq_Some_conv)
  show ?case
  proof (cases r1)
    case True
    then have "r" "ga' = ga1" "reuse_parent T asz w p ga = Some (True, ga')" using Cons.prems(1) 1 by auto
    then show ?thesis using reuse_parent_yes [of T asz w p ga ga'] Cons.prems(2,3) by auto
  next
    case False
    then have no: "table_ok ga1" "node_of ga1 = node_of ga" "same_store ga ga1"
      using reuse_parent_no [of T asz w p ga ga1] 1 Cons.prems(2) by auto
    have "reuse_parents T asz w ps ga1 = Some (r, ga')" using Cons.prems(1) 1 False by simp
    from Cons.IH [OF this no(1)] Cons.prems(3) no same_store_trans [OF no(3)] show ?thesis
      unfolding may_reuse_def no(2) by (cases r) fastforce+
  qed
qed simp

lemma holds_mark:
  assumes "holds T asz ga" "\<not> hn_allocated (node_of ga w)" "hash_set_node w (\<lambda>hn. hn\<lparr>hn_allocated := True\<rparr>) ga = Some ga1"
  shows "\<exists>L. distinct (w # L) \<and> set L = {t. hn_allocated (node_of ga t)} \<and> blocks_ok asz ga1 (node_of ga1) L"
proof -
  have "table_ok ga" using assms(1) by (simp add: holds_def)
  note h = hash_set_nodeD [OF assms(3) this]
  obtain L where L: "distinct L" "set L = {t. hn_allocated (node_of ga t)}" "blocks_ok asz ga (node_of ga) L"
    using assms(1) unfolding holds_def by blast
  moreover have "blocks_ok asz ga1 (node_of ga1) L"
    using L(3) same_store_blocks [OF h(3)] blocks_ok_cong [of L "node_of ga1" "node_of ga"] h(2) by auto
  ultimately show ?thesis using assms(2) by auto
qed

lemma take_fresh_spec:
  assumes "take_fresh asz w b ga = Some ga'" "table_ok ga" "w \<notin> set L" "blocks_ok asz ga (node_of ga) L"
  shows "table_ok ga' \<and> same_bufs ga ga' \<and> blocks_ok asz ga' (node_of ga') (w # L) \<and>
    (\<exists>ad. node_of ga' = (node_of ga)(w := (node_of ga w)\<lparr>hn_buffer := b, hn_addr := ad\<rparr>))"
proof -
  obtain i A sz ad A' where run: "buf_alloc ga b = Some (i, A)" "alloc_bytes asz ga b w = Some sz"
    "dyn_tallocr_alloc A sz = Some (ad, A')"
    "hash_set_node w (\<lambda>hn. hn\<lparr>hn_buffer := b, hn_addr := ad\<rparr>) (ga\<lparr>ga_allocs := (ga_allocs ga)[i := A']\<rparr>) = Some ga'"
    using assms(1) by (auto simp: take_fresh_def bind_eq_Some_conv)
  note b = buf_allocD [OF run(1)] alloc_bytesD [OF run(2)]
  have "table_ok (ga\<lparr>ga_allocs := (ga_allocs ga)[i := A']\<rparr>)" using assms(2) by simp
  note h = hash_set_nodeD [OF run(4) this]
  have m: "node_of ga' = (node_of ga)(w := (node_of ga w)\<lparr>hn_buffer := b, hn_addr := ad\<rparr>)" using h(2) by simp
  have "blocks_ok asz (ga\<lparr>ga_allocs := (ga_allocs ga)[i := A']\<rparr>) (node_of ga') (w # L)"
    by (rule blocks_ok_take [OF assms(4)]) (use b run(3) m assms(3) in auto)
  moreover have "same_bufs ga (ga\<lparr>ga_allocs := (ga_allocs ga)[i := A']\<rparr>)"
    using alloc_max [OF run(3)] b by (intro same_bufs_update) simp
  ultimately show ?thesis using h(1) m same_store_blocks [OF h(3)] same_bufs_trans [OF _ same_store_bufs [OF h(3)]] by auto
qed

lemma holdsI:
  assumes "table_ok ga" "\<forall>t. hn_allocated (node_of ga t) \<longrightarrow> local T t" "blocks_ok asz ga (node_of ga) L"
    and "distinct L" "set L = {t. hn_allocated (node_of ga t)}"
  shows "holds T asz ga"
  using assms unfolding holds_def by blast

text \<open>The tensor \<open>w\<close> has just been marked, and \<open>L\<close> are those that hold blocks.\<close>

definition marked :: "(nat \<Rightarrow> nat \<Rightarrow> nat) \<Rightarrow> galloc \<Rightarrow> nat \<Rightarrow> nat list \<Rightarrow> galloc \<Rightarrow> bool" where
  "marked asz ga w L ga1 \<longleftrightarrow> table_ok ga1 \<and> same_store ga ga1 \<and>
     node_of ga1 = (node_of ga)(w := (node_of ga w)\<lparr>hn_allocated := True\<rparr>) \<and> distinct (w # L) \<and>
     set L = {t. hn_allocated (node_of ga t)} \<and> blocks_ok asz ga1 (node_of ga1) L"

lemma marked_store:
  "marked asz ga w L ga1 \<Longrightarrow> table_ok ga2 \<Longrightarrow> node_of ga2 = node_of ga1 \<Longrightarrow> same_store ga1 ga2 \<Longrightarrow> marked asz ga w L ga2"
  using same_store_blocks same_store_trans unfolding marked_def by metis

lemma take_over_marked:
  assumes "marked asz ga w L ga1" "holds T asz ga" "local T w" "p \<in> set (sources T w)" "p \<noteq> w" "may_reuse T ga1 w p"
    and "ggml_op_can_inplace (t_op (T w))" "take_over asz w (node_of ga1 p) [p] p ga1 = Some ga'"
  shows "holds T asz ga' \<and> same_bufs ga ga' \<and> over_at T asz ga w p ga'"
proof -
  note mk = assms(1) [unfolded marked_def]
  have m1: "node_of ga1 = (node_of ga)(w := (node_of ga w)\<lparr>hn_allocated := True\<rparr>)" using mk by blast
  have pm: "may_reuse T ga w p" using assms(5,6) m1 by (simp add: may_reuse_def)
  then have p: "p \<in> set L" using mk by (auto simp: may_reuse_def)
  then have perm: "mset L = mset (p # remove1 p L)" by simp
  have B: "blocks_ok asz ga1 (node_of ga1) (p # remove1 p L)" using mk unfolding blocks_ok_perm [OF perm] by blast
  have nin: "w \<notin> set (remove1 p L)" "p \<notin> set (remove1 p L)" using mk by (auto dest: notin_set_remove1)
  have tab: "table_ok ga1" using mk by blast
  note t = take_over_spec [OF assms(8) tab assms(5) [symmetric] nin B]
  have m': "node_of ga' = (node_of ga)(w := (node_of ga w)\<lparr>hn_buffer := hn_buffer (node_of ga p), hn_addr := hn_addr (node_of ga p),
      hn_allocated := True\<rparr>, p := (node_of ga p)\<lparr>hn_allocated := False\<rparr>)"
    using t(4) m1 assms(5) by auto
  have st: "same_store ga ga1" using mk by blast
  have "memory asz ga1 (node_of ga1) p = memory asz ga (node_of ga) p"
    using same_store_memory [OF st] m1 assms(5) by (simp add: memory_def)
  then have "over_at T asz ga w p ga'" using assms(4,7) pm m' t(5) by (simp add: over_at_def)
  moreover have "holds T asz ga'"
  proof (rule holdsI [OF t(1) _ t(3)])
    show "\<forall>t. hn_allocated (node_of ga' t) \<longrightarrow> local T t" using m' assms(2,3) by (auto simp: holds_def)
    show "distinct (w # remove1 p L)" using mk by (auto dest: notin_set_remove1)
    show "set (w # remove1 p L) = {t. hn_allocated (node_of ga' t)}" using mk m' assms(5) by auto
  qed
  ultimately show ?thesis using same_bufs_trans [OF same_store_bufs [OF st] t(2)] by simp
qed

lemma take_fresh_marked:
  assumes "marked asz ga w L ga1" "holds T asz ga" "local T w" "take_fresh asz w b ga1 = Some ga'"
  shows "holds T asz ga' \<and> same_bufs ga ga' \<and> fresh_at asz ga w ga'"
proof -
  note mk = assms(1) [unfolded marked_def]
  obtain ad where t: "table_ok ga'" "same_bufs ga1 ga'"
    "blocks_ok asz ga' (node_of ga') (w # L)" "node_of ga' = (node_of ga1)(w := (node_of ga1 w)\<lparr>hn_buffer := b, hn_addr := ad\<rparr>)"
    using take_fresh_spec [OF assms(4), of L] mk by auto
  have m1: "node_of ga1 = (node_of ga)(w := (node_of ga w)\<lparr>hn_allocated := True\<rparr>)" using mk by blast
  have m': "node_of ga' = (node_of ga)(w := (node_of ga w)\<lparr>hn_buffer := b, hn_addr := ad, hn_allocated := True\<rparr>)"
    using m1 by (cases "node_of ga w") (simp add: t(4))
  have ok: "holds T asz ga'"
  proof (rule holdsI [OF t(1) _ t(3)])
    show "\<forall>t. hn_allocated (node_of ga' t) \<longrightarrow> local T t" using m' assms(2,3) by (auto simp: holds_def)
  qed (use mk m' in auto)
  have sb: "same_bufs ga ga'" using mk same_store_bufs t(2) same_bufs_trans by blast
  have "memory asz ga' (node_of ga') w \<inter> memory asz ga (node_of ga) t = {}" if "hn_allocated (node_of ga t)" for t
  proof -
    have tw: "t \<noteq> w" using that mk by auto
    then have "memory asz ga' (node_of ga') w \<inter> memory asz ga' (node_of ga') t = {}"
      using holds_disjoint [OF ok, of w t] m' that by simp
    moreover have "memory asz ga' (node_of ga') t = memory asz ga (node_of ga) t"
      using same_bufs_memory [OF sb] tw m' by (simp add: memory_def)
    ultimately show ?thesis by simp
  qed
  then show ?thesis unfolding fresh_at_def using m' ok sb by blast
qed

lemma allocate_node_skip:
  assumes "hash_get ga w id = Some (hn, ga1)" "is_allocated T ga1 w = Some (a, ga2)" "table_ok ga"
  shows "a = (t_data (T w) \<noteq> None \<or> t_buffer (T w) \<noteq> None \<or> hn_allocated (node_of ga w)) \<and> table_ok ga2 \<and>
    node_of ga2 = node_of ga \<and> same_store ga ga2"
proof -
  note h1 = hash_readD [OF assms(1,3)]
  show ?thesis using assms(2) is_ownD [OF _ h1(2)] h1 same_store_trans [OF h1(4)]
    by (auto simp: is_allocated_def split: if_splits)
qed

lemma allocate_node_spec:
  assumes "allocate_node T asz w b ga = Some ga'" "holds T asz ga" "ggml_op_can_inplace (t_op (T w)) \<longrightarrow> w \<notin> set (sources T w)"
  shows "holds T asz ga' \<and> same_bufs ga ga' \<and>
    (if local T w \<and> \<not> hn_allocated (node_of ga w) then fresh_at asz ga w ga' \<or> (\<exists>p. over_at T asz ga w p ga')
     else node_of ga' = node_of ga)"
proof -
  have tab: "table_ok ga" and loc: "\<forall>t. hn_allocated (node_of ga t) \<longrightarrow> local T t" using assms(2) by (simp_all add: holds_def)
  obtain hn ga1 a ga2 where run: "hash_get ga w id = Some (hn, ga1)" "is_allocated T ga1 w = Some (a, ga2)"
    using assms(1) by (auto simp: allocate_node_def bind_eq_Some_conv split: if_splits)
  note a = allocate_node_skip [OF run tab]
  show ?thesis
  proof (cases "a \<or> ggml_impl_is_view (T w)")
    case True
    then have "ga' = ga2" using assms(1) run by (auto simp: allocate_node_def split: if_splits)
    moreover have "\<not> (local T w \<and> \<not> hn_allocated (node_of ga w))" using True a by (auto simp: local_def ggml_impl_is_view_def)
    moreover have "holds T asz ga2" using holds_store [OF assms(2)] a by blast
    ultimately show ?thesis using a same_store_bufs by auto
  next
    case False
    then have w: "local T w" "\<not> hn_allocated (node_of ga w)" using a by (auto simp: local_def ggml_impl_is_view_def)
    have "do { ga \<leftarrow> hash_set_node w (\<lambda>hn. hn\<lparr>hn_allocated := True\<rparr>) ga2;
        (r, ga) \<leftarrow> (if ggml_op_can_inplace (t_op (T w)) then reuse_parents T asz w (sources T w) ga else Some (False, ga));
        if r then Some ga else take_fresh asz w (nat b) ga } = Some ga'"
      using assms(1) run False unfolding allocate_node_def by (simp split: if_splits)
    then obtain ga3 r ga4 where run3: "hash_set_node w (\<lambda>hn. hn\<lparr>hn_allocated := True\<rparr>) ga2 = Some ga3"
      "(if ggml_op_can_inplace (t_op (T w)) then reuse_parents T asz w (sources T w) ga3 else Some (False, ga3)) = Some (r, ga4)"
      "(if r then Some ga4 else take_fresh asz w (nat b) ga4) = Some ga'"
      by (simp only: bind_eq_Some_conv split_paired_Ex prod.case) blast
    have "holds T asz ga2" "\<not> hn_allocated (node_of ga2 w)" using holds_store [OF assms(2)] a w(2) by auto
    from holds_mark [OF this run3(1)] a obtain L where L: "distinct (w # L)" "set L = {t. hn_allocated (node_of ga t)}"
      "blocks_ok asz ga3 (node_of ga3) L" by auto
    note h3 = hash_set_nodeD [OF run3(1) a [THEN conjunct2, THEN conjunct1]]
    have mk: "marked asz ga w L ga3" using h3 a same_store_trans L unfolding marked_def by auto
    have views: "\<forall>p \<in> set (sources T w). hn_allocated (node_of ga3 p) \<longrightarrow> t_view_src (T p) = None"
      using loc w(1) mk by (auto simp: local_def marked_def)
    show ?thesis
    proof (cases r)
      case True
      then have rp: "ggml_op_can_inplace (t_op (T w))" "reuse_parents T asz w (sources T w) ga3 = Some (True, ga')"
        using run3(2,3) by (auto split: if_splits)
      from reuse_parents_cases [OF this(2) h3(1) views] obtain p ga5 where p: "p \<in> set (sources T w)" "may_reuse T ga3 w p"
        "table_ok ga5" "node_of ga5 = node_of ga3" "same_store ga3 ga5" "take_over asz w (node_of ga5 p) [p] p ga5 = Some ga'"
        by auto
      moreover have "p \<noteq> w" "may_reuse T ga5 w p" using p rp(1) assms(3) by (auto simp: may_reuse_def)
      ultimately show ?thesis using take_over_marked [OF marked_store [OF mk p(3-5)] assms(2) w(1)] rp(1) w by auto
    next
      case False
      then have no: "table_ok ga4" "node_of ga4 = node_of ga3" "same_store ga3 ga4"
        using run3(2) reuse_parents_cases [OF _ h3(1) views, of asz w False ga4] h3(1) by (auto split: if_splits)
      then show ?thesis using take_fresh_marked [OF marked_store [OF mk no] assms(2) w(1)] run3(3) False w by auto
    qed
  qed
qed

section \<open>What is still needed\<close>

definition used_by :: "heap \<Rightarrow> nat list \<Rightarrow> nat list" where
  "used_by T ns = concat (map (sources T) ns)"

text \<open>The views of \<open>t\<close> that are not done with: \<open>past\<close> and \<open>rest\<close> are the sources of the nodes done and to be done.\<close>

definition open_views :: "heap \<Rightarrow> nat list \<Rightarrow> nat list \<Rightarrow> nat list \<Rightarrow> nat \<Rightarrow> nat set" where
  "open_views T ns past rest t =
     {v \<in> set ns. t_op (T v) \<noteq> GGML_OP_NONE \<and> t_view_src (T v) = Some t \<and> \<not> (v \<in> set past \<and> v \<notin> set rest)}"

definition wanted :: "heap \<Rightarrow> nat list \<Rightarrow> nat \<Rightarrow> nat list \<Rightarrow> nat list \<Rightarrow> nat \<Rightarrow> bool" where
  "wanted T ns i past rest t \<longleftrightarrow>
     t \<in> set rest \<or> open_views T ns past rest t \<noteq> {} \<or> t_output (T t) \<or> t \<in> set (drop i ns)"

definition counted :: "heap \<Rightarrow> nat list \<Rightarrow> nat list \<Rightarrow> nat list \<Rightarrow> galloc \<Rightarrow> bool" where
  "counted T ns past rest ga \<longleftrightarrow> (\<forall>t. hn_children (node_of ga t) = int (count_list rest t)) \<and>
     (\<forall>t. hn_views (node_of ga t) = int (card (open_views T ns past rest t)))"

text \<open>
  Graphs as the library builds them: in order, views only of tensors that are not views, views that are read
  have an operation, and inputs are leafs.
\<close>

definition placeable :: "heap \<Rightarrow> cgraph \<Rightarrow> bool" where
  "placeable T g \<longleftrightarrow> in_order T g \<and>
     (\<forall>t \<in> tensors_of g. \<forall>vs. t_view_src (T t) = Some vs \<longrightarrow> t_view_src (T vs) = None) \<and>
     (\<forall>t \<in> set (cg_nodes g). \<forall>s \<in> set (sources T t). t_view_src (T s) \<noteq> None \<longrightarrow> t_op (T s) \<noteq> GGML_OP_NONE) \<and>
     (\<forall>t \<in> set (cg_nodes g). \<not> t_input (T t))"

lemma finite_open_views [simp]: "finite (open_views T ns past rest t)"
  by (simp add: open_views_def)

lemma open_views_mono: "open_views T ns (past @ ps) rest t \<subseteq> open_views T ns past (ps @ rest) t"
  by (auto simp: open_views_def)

lemma wanted_mono: "wanted T ns j (past @ ps) rest t \<Longrightarrow> i \<le> j \<Longrightarrow> wanted T ns i past (ps @ rest) t"
  using open_views_mono [of T ns past ps rest t] set_drop_subset_set_drop [of i j ns] by (fastforce simp: wanted_def)

lemma counted_not_wanted:
  assumes "counted T ns past rest ga" "hn_children (node_of ga t) = 0" "hn_views (node_of ga t) = 0"
    and "\<not> t_output (T t)" "t \<notin> set (drop i ns)"
  shows "\<not> wanted T ns i past rest t"
  using assms by (simp add: counted_def wanted_def count_list_0_iff)

lemma open_views_other: "v \<noteq> p \<or> t_view_src (T p) \<noteq> Some t \<Longrightarrow>
    v \<in> open_views T ns (past @ [p]) rest t \<longleftrightarrow> v \<in> open_views T ns past (p # rest) t"
  by (auto simp: open_views_def)

text \<open>One use of \<open>p\<close> is over.\<close>

lemma open_views_step:
  assumes "p \<in> set rest \<or> t_view_src (T p) \<noteq> Some t"
  shows "open_views T ns (past @ [p]) rest t = open_views T ns past (p # rest) t"
  using assms by (auto simp: open_views_def)

lemma open_views_last:
  assumes "p \<in> set ns" "t_op (T p) \<noteq> GGML_OP_NONE" "p \<notin> set rest" "t_view_src (T p) = Some t"
  shows "int (card (open_views T ns (past @ [p]) rest t)) = int (card (open_views T ns past (p # rest) t)) - 1"
proof -
  have "open_views T ns past (p # rest) t = insert p (open_views T ns (past @ [p]) rest t)"
    using assms by (auto simp: open_views_def)
  moreover have "p \<notin> open_views T ns (past @ [p]) rest t" using assms(3) by (simp add: open_views_def)
  ultimately show ?thesis by simp
qed

section \<open>Releasing what is not needed any more\<close>

text \<open>Tensors stay where they are; those that are needed keep their memory.\<close>

definition stays :: "nat set \<Rightarrow> galloc \<Rightarrow> galloc \<Rightarrow> bool" where
  "stays E ga ga' \<longleftrightarrow> same_bufs ga ga' \<and>
     (\<forall>t \<in> E. hn_buffer (node_of ga' t) = hn_buffer (node_of ga t) \<and> hn_addr (node_of ga' t) = hn_addr (node_of ga t))"

definition released :: "heap \<Rightarrow> (nat \<Rightarrow> nat \<Rightarrow> nat) \<Rightarrow> nat list \<Rightarrow> nat \<Rightarrow> nat list \<Rightarrow> nat list \<Rightarrow> galloc \<Rightarrow> galloc \<Rightarrow> bool" where
  "released T asz ns i past rest ga ga' \<longleftrightarrow> holds T asz ga' \<and> counted T ns past rest ga' \<and> stays UNIV ga ga' \<and>
     (\<forall>t. hn_allocated (node_of ga' t) \<longrightarrow> hn_allocated (node_of ga t)) \<and>
     (\<forall>t. hn_allocated (node_of ga t) \<and> wanted T ns i past rest t \<longrightarrow> hn_allocated (node_of ga' t))"

lemma stays_refl [simp]: "stays E ga ga"
  by (simp add: stays_def)

lemma staysD:
  assumes "stays E ga ga'"
  shows "same_bufs ga ga'" "t \<in> E \<Longrightarrow> hn_buffer (node_of ga' t) = hn_buffer (node_of ga t)"
    "t \<in> E \<Longrightarrow> hn_addr (node_of ga' t) = hn_addr (node_of ga t)"
  using assms unfolding stays_def by blast+

lemma stays_trans:
  assumes "stays E ga ga'" "stays E' ga' ga''" "E \<subseteq> E'"
  shows "stays E ga ga''"
  unfolding stays_def
proof (intro conjI ballI)
  show "same_bufs ga ga''" using staysD(1) [OF assms(1)] staysD(1) [OF assms(2)] by (rule same_bufs_trans)
  fix t
  assume t: "t \<in> E"
  then have t': "t \<in> E'" using assms(3) by blast
  show "hn_buffer (node_of ga'' t) = hn_buffer (node_of ga t)" "hn_addr (node_of ga'' t) = hn_addr (node_of ga t)"
    using staysD(2,3) [OF assms(1) t] staysD(2,3) [OF assms(2) t'] by simp_all
qed

lemma stays_mono: "stays E ga ga' \<Longrightarrow> E' \<subseteq> E \<Longrightarrow> stays E' ga ga'"
  unfolding stays_def by blast

lemma stays_memory:
  assumes "stays E ga ga'" "t \<in> E"
  shows "memory asz ga' (node_of ga') t = memory asz ga (node_of ga) t"
  using staysD(1) [OF assms(1)] staysD(2,3) [OF assms] by (simp add: memory_def same_bufs_def)

lemma stays_inside:
  assumes "stays E ga ga'" "t \<in> E" "inside asz ga t"
  shows "inside asz ga' t"
  using staysD(1) [OF assms(1)] stays_memory [OF assms(1,2)] assms(3) unfolding inside_def same_bufs_def
  by (fastforce intro: less_le_trans)

lemma released_same:
  "holds T asz ga' \<Longrightarrow> counted T ns past rest ga' \<Longrightarrow> same_store ga ga' \<Longrightarrow>
     (\<And>t. hn_buffer (node_of ga' t) = hn_buffer (node_of ga t) \<and> hn_addr (node_of ga' t) = hn_addr (node_of ga t) \<and>
       hn_allocated (node_of ga' t) = hn_allocated (node_of ga t)) \<Longrightarrow> released T asz ns i past rest ga ga'"
  by (simp add: released_def stays_def same_store_bufs)

lemma released_read:
  assumes "released T asz ns i past rest ga ga1" "table_ok ga2" "node_of ga2 = node_of ga1" "same_store ga1 ga2"
  shows "released T asz ns i past rest ga ga2"
proof -
  have "holds T asz ga1" using assms(1) by (simp add: released_def)
  then have "holds T asz ga2" by (rule holds_store [OF _ assms(4,2,3)])
  moreover have "stays UNIV ga ga2"
    using assms(1,3) same_bufs_trans [OF _ same_store_bufs [OF assms(4)]] by (simp add: released_def stays_def)
  ultimately show ?thesis using assms(1,3) by (simp add: released_def counted_def)
qed

lemma released_trans:
  "released T asz ns i past rest ga ga' \<Longrightarrow> released T asz ns i past rest ga' ga'' \<Longrightarrow> released T asz ns i past rest ga ga''"
  using stays_trans [of UNIV ga ga' UNIV ga''] unfolding released_def by blast

lemma free_node_released:
  assumes "free_node T asz t ga = Some ga'" "holds T asz ga" "counted T ns past rest ga" "hn_allocated (node_of ga t)"
    and "hn_children (node_of ga t) = 0" "hn_views (node_of ga t) = 0" "t \<notin> set (drop i ns)"
  shows "released T asz ns i past rest ga ga'"
proof (cases "t_output (T t)")
  case True
  then show ?thesis using free_node_spec [OF assms(1,2,4)] assms(3) by (simp add: released_def stays_def counted_def)
next
  case False
  then have m: "holds T asz ga'" "same_bufs ga ga'" "node_of ga' = (node_of ga)(t := (node_of ga t)\<lparr>hn_allocated := False\<rparr>)"
    using free_node_spec [OF assms(1,2,4)] by simp_all
  have "counted T ns past rest ga'" using assms(3) m(3) by (simp add: counted_def)
  moreover have "\<not> wanted T ns i past rest t" by (rule counted_not_wanted [OF assms(3,5,6) False assms(7)])
  ultimately show ?thesis using m by (auto simp: released_def stays_def)
qed

lemma released_free:
  assumes "released T asz ns i past rest ga ga1" "(if c \<and> hn_allocated (node_of ga1 t) then free_node T asz t ga1 else Some ga1) = Some ga'"
    and "c \<Longrightarrow> hn_children (node_of ga1 t) = 0 \<and> hn_views (node_of ga1 t) = 0"
    and "\<forall>t. hn_allocated (node_of ga t) \<longrightarrow> t \<notin> set (drop i ns)"
  shows "released T asz ns i past rest ga ga'"
proof (cases "c \<and> hn_allocated (node_of ga1 t)")
  case True
  then have a: "c" "hn_allocated (node_of ga1 t)" by blast+
  then have f: "free_node T asz t ga1 = Some ga'" using assms(2) by simp
  have h: "holds T asz ga1" "counted T ns past rest ga1" using assms(1) by (simp_all add: released_def)
  have "t \<notin> set (drop i ns)" using assms(1,4) a(2) unfolding released_def by blast
  from free_node_released [OF f h a(2) _ _ this] have "released T asz ns i past rest ga1 ga'" using assms(3) a(1) by blast
  then show ?thesis by (rule released_trans [OF assms(1)])
qed (use assms(1,2) in auto)

text \<open>What the update of a parent needs to know of it.\<close>

definition proper_source :: "heap \<Rightarrow> nat list \<Rightarrow> nat \<Rightarrow> bool" where
  "proper_source T ns p \<longleftrightarrow> (\<forall>vs. t_view_src (T p) = Some vs \<longrightarrow> p \<in> set ns \<and> t_op (T p) \<noteq> GGML_OP_NONE \<and>
     (\<forall>v \<in> set ns. t_view_src (T v) \<noteq> Some p))"

lemma release_parent_count:
  assumes "hash_set_node p (\<lambda>hn. hn\<lparr>hn_children := hn_children hn - 1\<rparr>) ga = Some ga1" "holds T asz ga"
    and "counted T ns past (p # rest) ga" "proper_source T ns p"
    and "t_view_src (T p) = None \<or> hn_children (node_of ga1 p) \<noteq> 0 \<or> hn_views (node_of ga1 p) \<noteq> 0"
  shows "released T asz ns i (past @ [p]) rest ga ga1"
proof -
  note h = holds_counts [OF assms(2,1)]
  have m: "holds T asz ga1" "same_store ga ga1"
    "node_of ga1 = (node_of ga)(p := (node_of ga p)\<lparr>hn_children := hn_children (node_of ga p) - 1\<rparr>)" using h by simp_all
  have "p \<in> set rest \<or> t_view_src (T p) \<noteq> Some t" for t
  proof (rule ccontr)
    assume c: "\<not> (p \<in> set rest \<or> t_view_src (T p) \<noteq> Some t)"
    then have "open_views T ns past (p # rest) p = {}" using assms(4) by (auto simp: open_views_def proper_source_def)
    then have "hn_views (node_of ga p) = 0" "hn_children (node_of ga p) = 1"
      using assms(3) c by (auto simp: counted_def count_list_0_iff)
    then show False using assms(5) c m(3) by simp
  qed
  then have "counted T ns (past @ [p]) rest ga1"
    using assms(3) open_views_step m(3) by (auto simp: counted_def)
  then show ?thesis using m by (intro released_same) auto
qed

lemma release_parent_view:
  assumes "hash_set_node p (\<lambda>hn. hn\<lparr>hn_children := hn_children hn - 1\<rparr>) ga = Some ga1" "holds T asz ga"
    and "hash_set_node vs (\<lambda>hn. hn\<lparr>hn_views := hn_views hn - 1\<rparr>) ga2 = Some ga3"
    and "same_store ga1 ga2" "node_of ga2 = node_of ga1" "table_ok ga2"
    and "counted T ns past (p # rest) ga" "proper_source T ns p" "t_view_src (T p) = Some vs" "hn_children (node_of ga1 p) = 0"
  shows "released T asz ns i (past @ [p]) rest ga ga3"
proof -
  have m1: "holds T asz ga1" "same_store ga ga1"
    "node_of ga1 = (node_of ga)(p := (node_of ga p)\<lparr>hn_children := hn_children (node_of ga p) - 1\<rparr>)"
    using holds_counts [OF assms(2,1)] by simp_all
  have "holds T asz ga2" by (rule holds_store [OF m1(1) assms(4,6,5)])
  from holds_counts [OF this assms(3)] have m3: "holds T asz ga3" "same_store ga2 ga3"
    "node_of ga3 = (node_of ga1)(vs := (node_of ga1 vs)\<lparr>hn_views := hn_views (node_of ga1 vs) - 1\<rparr>)"
    using assms(5) by simp_all
  have p: "p \<in> set ns" "t_op (T p) \<noteq> GGML_OP_NONE" "vs \<noteq> p" using assms(8,9) by (auto simp: proper_source_def)
  have last: "p \<notin> set rest" using assms(7,10) m1(3) by (simp add: counted_def count_list_0_iff)
  have "hn_children (node_of ga3 t) = int (count_list rest t)" for t
    using assms(7) m3(3) m1(3) by (simp add: counted_def)
  moreover have "hn_views (node_of ga3 t) = int (card (open_views T ns (past @ [p]) rest t))" for t
    using assms(7,9) m3(3) m1(3) open_views_last [where T = T and ns = ns, OF p(1,2) last assms(9), of past] open_views_step [of p rest T t ns past]
    by (cases "t = vs") (auto simp: counted_def)
  ultimately have "counted T ns (past @ [p]) rest ga3" by (simp add: counted_def)
  moreover have "same_store ga ga3" using m1(2) assms(4) m3(2) same_store_trans by blast
  ultimately show ?thesis using m3(1,3) m1(3) by (intro released_same) auto
qed

lemma release_parent_ok:
  assumes "release_parent T asz p ga = Some ga'" "holds T asz ga" "counted T ns past (p # rest) ga" "proper_source T ns p"
    and "\<forall>t. hn_allocated (node_of ga t) \<longrightarrow> t \<notin> set (drop i ns)"
  shows "released T asz ns i (past @ [p]) rest ga ga'"
proof -
  let ?R = "released T asz ns i (past @ [p]) rest"
  obtain ga1 ph ga2 where run: "hash_set_node p (\<lambda>hn. hn\<lparr>hn_children := hn_children hn - 1\<rparr>) ga = Some ga1"
    "hash_get ga1 p id = Some (ph, ga2)"
    using assms(1) by (auto simp: release_parent_def bind_eq_Some_conv)
  have tab: "table_ok ga1" using holds_counts(1) [OF assms(2) run(1)] by (simp add: holds_def)
  note h2 = hash_readD [OF run(2) tab]
  have same2: "?R ga ga1 \<Longrightarrow> ?R ga ga2" by (rule released_read [OF _ h2(2-4)])
  show ?thesis
  proof (cases "hn_children ph = 0 \<and> hn_views ph = 0")
    case False
    then have "ga' = ga2" using assms(1) run by (auto simp: release_parent_def)
    then show ?thesis using same2 release_parent_count [OF run(1) assms(2-4)] False h2(1) by auto
  next
    case z: True
    show ?thesis
    proof (cases "t_view_src (T p)")
      case None
      then have R2: "?R ga ga2" using same2 release_parent_count [OF run(1) assms(2-4)] by simp
      have "(if True \<and> hn_allocated (node_of ga2 p) then free_node T asz p ga2 else Some ga2) = Some ga'"
        using assms(1) run z None h2 by (simp add: release_parent_def)
      from released_free [OF R2 this _ assms(5)] show ?thesis using z h2 by simp
    next
      case (Some vs)
      obtain ga3 vh ga4 where 3: "hash_set_node vs (\<lambda>hn. hn\<lparr>hn_views := hn_views hn - 1\<rparr>) ga2 = Some ga3"
        "hash_get ga3 vs id = Some (vh, ga4)"
        and res: "(if hn_views vh = 0 \<and> hn_children vh = 0 \<and> hn_allocated vh then free_node T asz vs ga4 else Some ga4) = Some ga'"
        using assms(1) run z Some by (auto simp: release_parent_def bind_eq_Some_conv)
      have R3: "?R ga ga3"
        by (rule release_parent_view [OF run(1) assms(2) 3(1) h2(4,3,2) assms(3,4) Some]) (use z h2(1) in simp)
      then have "table_ok ga3" by (simp add: released_def holds_def)
      note h4 = hash_readD [OF 3(2) this]
      have R4: "?R ga ga4" by (rule released_read [OF R3 h4(2-4)])
      have "(if (hn_views vh = 0 \<and> hn_children vh = 0) \<and> hn_allocated (node_of ga4 vs) then free_node T asz vs ga4 else Some ga4) = Some ga'"
        using res h4 by simp
      from released_free [OF R4 this _ assms(5)] show ?thesis using h4 by simp
    qed
  qed
qed

lemma release_all:
  "each (release_parent T asz) ps ga = Some ga' \<Longrightarrow> holds T asz ga \<Longrightarrow> counted T ns past (ps @ rest) ga \<Longrightarrow>
     \<forall>p \<in> set ps. proper_source T ns p \<Longrightarrow> \<forall>t. hn_allocated (node_of ga t) \<longrightarrow> t \<notin> set (drop i ns) \<Longrightarrow>
     released T asz ns i (past @ ps) rest ga ga'"
proof (induction ps arbitrary: past ga)
  case Nil
  then show ?case by (simp add: released_def)
next
  case (Cons p ps)
  obtain ga1 where 1: "release_parent T asz p ga = Some ga1" "each (release_parent T asz) ps ga1 = Some ga'"
    using Cons.prems(1) by (auto simp: bind_eq_Some_conv)
  have R: "released T asz ns i (past @ [p]) (ps @ rest) ga ga1"
    by (rule release_parent_ok [OF 1(1) Cons.prems(2)]) (use Cons.prems in simp_all)
  have R': "released T asz ns i ((past @ [p]) @ ps) rest ga1 ga'"
    by (rule Cons.IH [OF 1(2)]) (use R Cons.prems(4,5) in \<open>auto simp: released_def\<close>)
  have "wanted T ns i (past @ [p]) (ps @ rest) t" if "wanted T ns i (past @ p # ps) rest t" for t
    using wanted_mono [of T ns i "past @ [p]" ps rest t i] that by simp
  moreover have "stays UNIV ga ga'" using R R' stays_trans unfolding released_def by blast
  ultimately show ?case using R R' unfolding released_def append_assoc append.simps by blast
qed

section \<open>Placing the nodes in order\<close>

definition before :: "cgraph \<Rightarrow> nat \<Rightarrow> nat set" where
  "before g i = set (cg_leafs g) \<union> set (take i (cg_nodes g))"

definition wanted_at :: "heap \<Rightarrow> cgraph \<Rightarrow> nat \<Rightarrow> nat \<Rightarrow> bool" where
  "wanted_at T g i = wanted T (cg_nodes g) i (used_by T (take i (cg_nodes g))) (used_by T (drop i (cg_nodes g)))"

definition placed :: "heap \<Rightarrow> (nat \<Rightarrow> nat \<Rightarrow> nat) \<Rightarrow> cgraph \<Rightarrow> nat \<Rightarrow> galloc \<Rightarrow> bool" where
  "placed T asz g i ga \<longleftrightarrow> holds T asz ga \<and>
     counted T (cg_nodes g) (used_by T (take i (cg_nodes g))) (used_by T (drop i (cg_nodes g))) ga \<and>
     (\<forall>t. hn_allocated (node_of ga t) \<longrightarrow> t \<in> before g i) \<and>
     (\<forall>t \<in> before g i. local T t \<and> wanted_at T g i t \<longrightarrow> hn_allocated (node_of ga t)) \<and>
     (\<forall>t \<in> before g i. local T t \<longrightarrow> inside asz ga t)"

text \<open>The node writes over \<open>t\<close> on purpose: it reads \<open>t\<close>, and nothing needs \<open>t\<close> afterwards.\<close>

definition in_place :: "heap \<Rightarrow> cgraph \<Rightarrow> nat \<Rightarrow> nat \<Rightarrow> bool" where
  "in_place T g i t \<longleftrightarrow> t \<in> set (sources T (cg_nodes g ! i)) \<and> ggml_op_can_inplace (t_op (T (cg_nodes g ! i))) \<and>
     ggml_are_same_layout (T (cg_nodes g ! i)) (T t) \<and> \<not> wanted_at T g (Suc i) t"

definition apart :: "heap \<Rightarrow> (nat \<Rightarrow> nat \<Rightarrow> nat) \<Rightarrow> cgraph \<Rightarrow> nat \<Rightarrow> galloc \<Rightarrow> bool" where
  "apart T asz g i ga \<longleftrightarrow> (\<forall>t \<in> before g i. local T t \<and> wanted_at T g i t \<longrightarrow>
     memory asz ga (node_of ga) (cg_nodes g ! i) \<inter> memory asz ga (node_of ga) t = {} \<or>
     in_place T g i t \<and> hn_buffer (node_of ga (cg_nodes g ! i)) = hn_buffer (node_of ga t) \<and>
       hn_addr (node_of ga (cg_nodes g ! i)) = hn_addr (node_of ga t))"

lemma node_facts:
  assumes "placeable T g" "i < length (cg_nodes g)"
  shows "cg_nodes g ! i \<notin> before g i" "set (sources T (cg_nodes g ! i)) \<subseteq> before g i"
    "\<forall>p \<in> set (sources T (cg_nodes g ! i)). proper_source T (cg_nodes g) p"
    "before g (Suc i) = insert (cg_nodes g ! i) (before g i)"
proof -
  let ?ns = "cg_nodes g"
  have d: "distinct (?ns @ cg_leafs g)" and src: "set (sources T (?ns ! i)) \<subseteq> set (take i ?ns) \<union> set (cg_leafs g)"
    and leaf: "\<forall>t \<in> set (cg_leafs g). is_leaf T t" using assms unfolding placeable_def in_order_def by blast+
  have "?ns ! i \<notin> set (take i ?ns)" using d assms(2) by (auto simp: in_set_conv_nth nth_eq_iff_index_eq)
  moreover have "?ns ! i \<in> set ?ns" using assms(2) by simp
  ultimately show "?ns ! i \<notin> before g i" using d by (auto simp: before_def)
  show src': "set (sources T (?ns ! i)) \<subseteq> before g i" using src by (auto simp: before_def)
  show "before g (Suc i) = insert (?ns ! i) (before g i)" using assms(2) by (auto simp: before_def take_Suc_conv_app_nth)
  show "\<forall>p \<in> set (sources T (?ns ! i)). proper_source T ?ns p"
  proof
    fix p
    assume p: "p \<in> set (sources T (?ns ! i))"
    then have pb: "p \<in> set ?ns \<or> p \<in> set (cg_leafs g)" using src by (auto dest: in_set_takeD)
    have "t_view_src (T p) \<noteq> None \<longrightarrow> t_op (T p) \<noteq> GGML_OP_NONE"
      using assms p unfolding placeable_def by (meson nth_mem)
    moreover from this have "t_view_src (T p) \<noteq> None \<longrightarrow> p \<in> set ?ns" using pb leaf by (auto simp: is_leaf_def)
    moreover have "\<forall>v \<in> set ?ns. t_view_src (T v) = Some p \<longrightarrow> t_view_src (T p) = None"
      using assms(1) unfolding placeable_def by blast
    ultimately show "proper_source T ?ns p" by (auto simp: proper_source_def)
  qed
qed

lemma before_drop: "placeable T g \<Longrightarrow> t \<in> before g i \<Longrightarrow> t \<notin> set (drop i (cg_nodes g))"
proof -
  assume a: "placeable T g" "t \<in> before g i"
  then have d: "distinct (cg_nodes g)" "set (cg_nodes g) \<inter> set (cg_leafs g) = {}"
    by (simp_all add: placeable_def in_order_def)
  have "set (take i (cg_nodes g)) \<inter> set (drop i (cg_nodes g)) = {}" using set_take_disj_set_drop_if_distinct [OF d(1)] by simp
  with d(2) show ?thesis using a(2) by (auto simp: before_def dest: in_set_dropD)
qed

lemma used_by_drop: "i < length ns \<Longrightarrow> used_by T (drop i ns) = sources T (ns ! i) @ used_by T (drop (Suc i) ns)"
  by (subst Cons_nth_drop_Suc [symmetric]) (simp_all add: used_by_def)

lemma used_by_take: "i < length ns \<Longrightarrow> used_by T (take (Suc i) ns) = used_by T (take i ns) @ sources T (ns ! i)"
  by (simp add: used_by_def take_Suc_conv_app_nth)

lemma wanted_at_mono:
  assumes "i < length (cg_nodes g)" "wanted_at T g (Suc i) t"
  shows "wanted_at T g i t"
  using wanted_mono [of T "cg_nodes g" "Suc i" "used_by T (take i (cg_nodes g))" "sources T (cg_nodes g ! i)"
      "used_by T (drop (Suc i) (cg_nodes g))" t i] assms
  by (simp add: wanted_at_def used_by_take used_by_drop)

lemma allocate_known:
  "each (\<lambda>p. allocate_node T asz p b) ps ga = Some ga' \<Longrightarrow> holds T asz ga \<Longrightarrow>
     \<forall>p \<in> set ps. (local T p \<longrightarrow> hn_allocated (node_of ga p)) \<and> (ggml_op_can_inplace (t_op (T p)) \<longrightarrow> p \<notin> set (sources T p)) \<Longrightarrow>
     holds T asz ga' \<and> same_bufs ga ga' \<and> node_of ga' = node_of ga"
proof (induction ps arbitrary: ga)
  case (Cons p ps)
  obtain ga1 where 1: "allocate_node T asz p b ga = Some ga1" "each (\<lambda>p. allocate_node T asz p b) ps ga1 = Some ga'"
    using Cons.prems(1) by (auto simp: bind_eq_Some_conv)
  then have "holds T asz ga1 \<and> same_bufs ga ga1 \<and> node_of ga1 = node_of ga"
    using allocate_node_spec [OF 1(1) Cons.prems(2)] Cons.prems(3) by (auto split: if_splits)
  then show ?case using Cons.IH [OF 1(2)] Cons.prems(3) same_bufs_trans by auto
qed simp

text \<open>The node is placed, but its sources are not released yet.\<close>

definition between :: "heap \<Rightarrow> (nat \<Rightarrow> nat \<Rightarrow> nat) \<Rightarrow> cgraph \<Rightarrow> nat \<Rightarrow> galloc \<Rightarrow> bool" where
  "between T asz g i ga \<longleftrightarrow> holds T asz ga \<and>
     counted T (cg_nodes g) (used_by T (take i (cg_nodes g))) (used_by T (drop i (cg_nodes g))) ga \<and>
     (\<forall>t. hn_allocated (node_of ga t) \<longrightarrow> t \<in> before g (Suc i)) \<and>
     (\<forall>t \<in> before g (Suc i). local T t \<and> wanted_at T g (Suc i) t \<longrightarrow> hn_allocated (node_of ga t)) \<and>
     (\<forall>t \<in> before g (Suc i). local T t \<longrightarrow> inside asz ga t)"

text \<open>Where the tensors of \<open>before\<close> stay and the node holds memory, all are inside.\<close>

lemma all_inside:
  assumes "placeable T g" "i < length (cg_nodes g)" "placed T asz g i ga" "stays (before g i) ga ga'" "holds T asz ga'"
    and "local T (cg_nodes g ! i) \<longrightarrow> hn_allocated (node_of ga' (cg_nodes g ! i))"
  shows "\<forall>t \<in> before g (Suc i). local T t \<longrightarrow> inside asz ga' t"
  using assms(3,6) node_facts(4) [OF assms(1,2)] holds_inside [OF assms(5)] stays_inside [OF assms(4)]
  unfolding placed_def by auto

lemma place_skip:
  assumes "placeable T g" "i < length (cg_nodes g)" "placed T asz g i ga" "w = cg_nodes g ! i" "\<not> local T w"
    and "holds T asz ga'" "node_of ga' = node_of ga" "same_bufs ga ga'"
  shows "between T asz g i ga'"
proof -
  have "stays (before g i) ga ga'" using assms(7,8) by (simp add: stays_def)
  from all_inside [OF assms(1-3) this assms(6)] show ?thesis
    using assms(3,5-7) node_facts(4) [OF assms(1,2)] wanted_at_mono [OF assms(2)] assms(4)
    unfolding between_def placed_def counted_def by auto
qed

lemma place_fresh:
  assumes "placeable T g" "i < length (cg_nodes g)" "placed T asz g i ga" "w = cg_nodes g ! i"
    and "holds T asz ga'" "same_bufs ga ga'" "fresh_at asz ga w ga'"
  shows "between T asz g i ga' \<and> stays (before g i) ga ga' \<and> apart T asz g i ga'"
proof -
  note n = node_facts [OF assms(1,2), folded assms(4)]
  obtain b ad where m: "node_of ga' = (node_of ga)(w := (node_of ga w)\<lparr>hn_buffer := b, hn_addr := ad, hn_allocated := True\<rparr>)"
    using assms(7) by (auto simp: fresh_at_def)
  have st: "stays (before g i) ga ga'" using assms(6) m n(1) by (auto simp: stays_def)
  have "between T asz g i ga'"
    unfolding between_def
  proof (intro conjI)
    show "counted T (cg_nodes g) (used_by T (take i (cg_nodes g))) (used_by T (drop i (cg_nodes g))) ga'"
      using assms(3) m by (simp add: placed_def counted_def)
    show "\<forall>t. hn_allocated (node_of ga' t) \<longrightarrow> t \<in> before g (Suc i)" using assms(3) m n(4) by (auto simp: placed_def)
    show "\<forall>t \<in> before g (Suc i). local T t \<and> wanted_at T g (Suc i) t \<longrightarrow> hn_allocated (node_of ga' t)"
      using assms(3) m n(4) wanted_at_mono [OF assms(2)] by (auto simp: placed_def)
    show "\<forall>t \<in> before g (Suc i). local T t \<longrightarrow> inside asz ga' t"
      by (rule all_inside [OF assms(1-3) st assms(5)]) (use m assms(4) in simp)
  qed (rule assms(5))
  moreover have "apart T asz g i ga'"
    unfolding apart_def
  proof (intro ballI impI disjI1)
    fix t
    assume t: "t \<in> before g i" "local T t \<and> wanted_at T g i t"
    then have "hn_allocated (node_of ga t)" using assms(3) by (simp add: placed_def)
    then show "memory asz ga' (node_of ga') (cg_nodes g ! i) \<inter> memory asz ga' (node_of ga') t = {}"
      using assms(4,7) stays_memory [OF st t(1)] by (simp add: fresh_at_def)
  qed
  ultimately show ?thesis using st by simp
qed

lemma reused_not_wanted:
  assumes "placeable T g" "i < length (cg_nodes g)" "placed T asz g i ga" "w = cg_nodes g ! i"
    and "p \<in> set (sources T w)" "may_reuse T ga w p"
  shows "\<not> wanted_at T g (Suc i) p"
proof -
  let ?ns = "cg_nodes g" and ?ps = "sources T w" and ?rest = "used_by T (drop (Suc i) (cg_nodes g))"
  have c: "counted T ?ns (used_by T (take i ?ns)) (?ps @ ?rest) ga"
    using assms(2-4) by (simp add: placed_def used_by_drop)
  have "0 < count_list ?ps p" using assms(5) count_list_0_iff by fastforce
  moreover have "count_list (?ps @ ?rest) p = 1" using c assms(6) by (simp add: counted_def may_reuse_def)
  ultimately have "p \<notin> set ?rest" by (simp add: count_list_0_iff [symmetric])
  moreover have "open_views T ?ns (used_by T (take i ?ns)) (?ps @ ?rest) p = {}"
    using c assms(6) by (simp add: counted_def may_reuse_def)
  then have "open_views T ?ns (used_by T (take (Suc i) ?ns)) ?rest p = {}"
    using open_views_mono [of T ?ns "used_by T (take i ?ns)" ?ps ?rest p] assms(2,4) by (simp add: used_by_take)
  moreover have "\<not> t_output (T p)" using assms(6) by (simp add: may_reuse_def is_output_def)
  moreover have "p \<in> before g (Suc i)" using node_facts(2,4) [OF assms(1,2)] assms(4,5) by blast
  then have "p \<notin> set (drop (Suc i) ?ns)" by (rule before_drop [OF assms(1)])
  ultimately show ?thesis by (simp add: wanted_at_def wanted_def)
qed

lemma place_over:
  assumes "placeable T g" "i < length (cg_nodes g)" "placed T asz g i ga" "w = cg_nodes g ! i"
    and "holds T asz ga'" "same_bufs ga ga'" "over_at T asz ga w p ga'"
  shows "between T asz g i ga' \<and> stays (before g i) ga ga' \<and> apart T asz g i ga'"
proof -
  note n = node_facts [OF assms(1,2), folded assms(4)]
  have p: "p \<in> set (sources T w)" "ggml_op_can_inplace (t_op (T w))" "may_reuse T ga w p"
    and m: "node_of ga' = (node_of ga)(w := (node_of ga w)\<lparr>hn_buffer := hn_buffer (node_of ga p), hn_addr := hn_addr (node_of ga p),
       hn_allocated := True\<rparr>, p := (node_of ga p)\<lparr>hn_allocated := False\<rparr>)"
    and sub: "memory asz ga' (node_of ga') w \<subseteq> memory asz ga (node_of ga) p" using assms(7) unfolding over_at_def by blast+
  have pw: "p \<noteq> w" "p \<in> before g i" using p(1) n(1,2) by auto
  have off: "\<not> wanted_at T g (Suc i) p" by (rule reused_not_wanted [OF assms(1-4) p(1,3)])
  have st: "stays (before g i) ga ga'" using assms(6) m n(1) by (auto simp: stays_def)
  have "between T asz g i ga'"
    unfolding between_def
  proof (intro conjI)
    show "counted T (cg_nodes g) (used_by T (take i (cg_nodes g))) (used_by T (drop i (cg_nodes g))) ga'"
      using assms(3) m by (simp add: placed_def counted_def)
    show "\<forall>t. hn_allocated (node_of ga' t) \<longrightarrow> t \<in> before g (Suc i)" using assms(3) m n(4) by (auto simp: placed_def)
    show "\<forall>t \<in> before g (Suc i). local T t \<and> wanted_at T g (Suc i) t \<longrightarrow> hn_allocated (node_of ga' t)"
      using assms(3) m n(4) off wanted_at_mono [OF assms(2)] by (auto simp: placed_def)
    show "\<forall>t \<in> before g (Suc i). local T t \<longrightarrow> inside asz ga' t"
      by (rule all_inside [OF assms(1-3) st assms(5)]) (use m assms(4) pw in auto)
  qed (rule assms(5))
  moreover have "apart T asz g i ga'"
    unfolding apart_def
  proof (intro ballI impI)
    fix t
    assume t: "t \<in> before g i" "local T t \<and> wanted_at T g i t"
    then have a: "hn_allocated (node_of ga t)" using assms(3) by (simp add: placed_def)
    show "memory asz ga' (node_of ga') (cg_nodes g ! i) \<inter> memory asz ga' (node_of ga') t = {} \<or>
       in_place T g i t \<and> hn_buffer (node_of ga' (cg_nodes g ! i)) = hn_buffer (node_of ga' t) \<and>
       hn_addr (node_of ga' (cg_nodes g ! i)) = hn_addr (node_of ga' t)"
    proof (cases "t = p")
      case True
      then show ?thesis using p off m pw(1) assms(4) by (auto simp: in_place_def may_reuse_def)
    next
      case False
      have "holds T asz ga" "hn_allocated (node_of ga p)" using assms(3) p(3) by (simp_all add: placed_def may_reuse_def)
      from holds_disjoint [OF this a] False sub stays_memory [OF st t(1)] show ?thesis
        unfolding assms(4) [symmetric] by auto
    qed
  qed
  ultimately show ?thesis using st by simp
qed

lemma released_placed:
  assumes "between T asz g i ga"
    and "released T asz (cg_nodes g) (Suc i) (used_by T (take (Suc i) (cg_nodes g))) (used_by T (drop (Suc i) (cg_nodes g))) ga ga'"
  shows "placed T asz g (Suc i) ga'" "stays UNIV ga ga'"
proof -
  show st: "stays UNIV ga ga'" using assms(2) by (simp add: released_def)
  note b = assms(1) [unfolded between_def] and r = assms(2) [unfolded released_def, folded wanted_at_def]
  show "placed T asz g (Suc i) ga'"
    unfolding placed_def
  proof (intro conjI)
    show "\<forall>t \<in> before g (Suc i). local T t \<longrightarrow> inside asz ga' t" using b stays_inside [OF st UNIV_I] by blast
    show "\<forall>t. hn_allocated (node_of ga' t) \<longrightarrow> t \<in> before g (Suc i)" using b r by blast
    show "\<forall>t \<in> before g (Suc i). local T t \<and> wanted_at T g (Suc i) t \<longrightarrow> hn_allocated (node_of ga' t)"
      using b r by blast
  qed (use r in blast)+
qed

lemma node_turn_ok:
  assumes "placeable T g" "i < length (cg_nodes g)" "placed T asz g i ga" "w = cg_nodes g ! i"
    and "node_turn T asz ids (i, w) ga = Some ga'"
  shows "placed T asz g (Suc i) ga' \<and> stays (before g i) ga ga' \<and> (local T w \<longrightarrow> apart T asz g i ga')"
proof -
  let ?ns = "cg_nodes g" and ?past = "used_by T (take i (cg_nodes g))" and ?rest = "used_by T (drop (Suc i) (cg_nodes g))"
  note n = node_facts [OF assms(1,2), folded assms(4)]
  obtain b ga1 ga2 where run: "each (\<lambda>p. allocate_node T asz p b) (sources T w) ga = Some ga1"
    "allocate_node T asz w b ga1 = Some ga2" "each (release_parent T asz) (sources T w) ga2 = Some ga'"
    using assms(5) by (auto simp: node_turn_def bind_eq_Some_conv)
  have h: "holds T asz ga" using assms(3) by (simp add: placed_def)
  have known: "\<forall>p \<in> set (sources T w). (local T p \<longrightarrow> hn_allocated (node_of ga p)) \<and>
      (ggml_op_can_inplace (t_op (T p)) \<longrightarrow> p \<notin> set (sources T p))"
  proof
    fix p
    assume p: "p \<in> set (sources T w)"
    then have "wanted_at T g i p" using assms(2,4) by (simp add: wanted_at_def wanted_def used_by_drop)
    moreover have pb: "p \<in> before g i" using p n(2) by blast
    moreover have "p \<notin> set (sources T p)" if "ggml_op_can_inplace (t_op (T p))"
    proof -
      have "p \<notin> set (cg_leafs g)" 
        using that assms(1) by (auto simp: placeable_def in_order_def is_leaf_def GGML_OP_NONE_def ggml_op_can_inplace_def inplace_ops_def)
      then obtain k where "k < length ?ns" "p = ?ns ! k" using pb by (auto simp: before_def in_set_conv_nth)
      then show ?thesis using node_facts(1,2) [OF assms(1)] by blast
    qed
    ultimately show "(local T p \<longrightarrow> hn_allocated (node_of ga p)) \<and> (ggml_op_can_inplace (t_op (T p)) \<longrightarrow> p \<notin> set (sources T p))"
      using assms(3) by (simp add: placed_def)
  qed
  note k = allocate_known [OF run(1) h known]
  have st1: "stays (before g i) ga ga1" using k by (simp add: stays_def)
  have placed1: "placed T asz g i ga1" using assms(3) k stays_inside [OF st1] by (simp add: placed_def counted_def)
  have new: "\<not> hn_allocated (node_of ga1 w)" using placed1 n(1) by (auto simp: placed_def)
  have own: "ggml_op_can_inplace (t_op (T w)) \<longrightarrow> w \<notin> set (sources T w)" using n(1,2) by blast
  note al = allocate_node_spec [OF run(2) k [THEN conjunct1] own]
  have two: "between T asz g i ga2 \<and> stays (before g i) ga1 ga2 \<and> (local T w \<longrightarrow> apart T asz g i ga2)"
  proof (cases "local T w")
    case True
    then show ?thesis using al new place_fresh [OF assms(1,2) placed1 assms(4)] place_over [OF assms(1,2) placed1 assms(4)] by auto
  next
    case False
    then show ?thesis using al place_skip [OF assms(1,2) placed1 assms(4)] by (simp add: stays_def)
  qed
  have "released T asz ?ns (Suc i) (?past @ sources T w) ?rest ga2 ga'"
    by (rule release_all [OF run(3)])
      (use two assms(2,4) n(3) before_drop [OF assms(1)] in \<open>auto simp: between_def used_by_drop\<close>)
  then have R: "released T asz ?ns (Suc i) (used_by T (take (Suc i) ?ns)) ?rest ga2 ga'"
    using assms(2,4) by (simp add: used_by_take)
  then have st: "stays UNIV ga2 ga'" and "placed T asz g (Suc i) ga'" using released_placed two by blast+
  moreover have "stays (before g i) ga ga'" using st1 two st stays_trans [of "before g i"] by blast
  moreover have "apart T asz g i ga2 \<Longrightarrow> apart T asz g i ga'"
    unfolding apart_def using stays_memory [OF st UNIV_I] staysD(2,3) [OF st UNIV_I] by simp
  ultimately show ?thesis using two by blast
qed

lemma before_mono: "i \<le> j \<Longrightarrow> before g i \<subseteq> before g j"
  using set_take_subset_set_take [of i j "cg_nodes g"] by (auto simp: before_def)

lemma apart_stays:
  assumes "stays (before g (Suc i)) ga ga'" "apart T asz g i ga" "i < length (cg_nodes g)"
  shows "apart T asz g i ga'"
proof -
  have w: "cg_nodes g ! i \<in> before g (Suc i)" using assms(3) by (simp add: before_def take_Suc_conv_app_nth)
  have "t \<in> before g (Suc i)" if "t \<in> before g i" for t using that before_mono [of i "Suc i" g] by auto
  then show ?thesis using assms(2) stays_memory [OF assms(1)] staysD(2,3) [OF assms(1)] w unfolding apart_def by simp
qed

lemma node_loop:
  "each (node_turn T asz ids) (enumerate i (drop i (cg_nodes g))) ga = Some ga' \<Longrightarrow> placeable T g \<Longrightarrow> placed T asz g i ga \<Longrightarrow>
     placed T asz g (max i (length (cg_nodes g))) ga' \<and> stays (before g i) ga ga' \<and> (\<forall>j. i \<le> j \<and> j < length (cg_nodes g) \<and> local T (cg_nodes g ! j) \<longrightarrow> apart T asz g j ga')"
proof (induction "length (cg_nodes g) - i" arbitrary: i ga)
  case 0
  then show ?case by (auto simp: max_def)
next
  case (Suc n)
  let ?ns = "cg_nodes g"
  have i: "i < length ?ns" using Suc.hyps(2) by simp
  have "enumerate i (drop i ?ns) = (i, ?ns ! i) # enumerate (Suc i) (drop (Suc i) ?ns)"
    by (subst Cons_nth_drop_Suc [OF i, symmetric]) simp
  then obtain ga1 where 1: "node_turn T asz ids (i, ?ns ! i) ga = Some ga1"
    "each (node_turn T asz ids) (enumerate (Suc i) (drop (Suc i) ?ns)) ga1 = Some ga'"
    using Suc.prems(1) by (auto simp: bind_eq_Some_conv)
  note t = node_turn_ok [OF Suc.prems(2) i Suc.prems(3) refl 1(1)]
  have IH: "placed T asz g (max (Suc i) (length ?ns)) ga'" "stays (before g (Suc i)) ga1 ga'"
    "\<forall>j. Suc i \<le> j \<and> j < length ?ns \<and> local T (?ns ! j) \<longrightarrow> apart T asz g j ga'"
    using Suc.hyps(1) [OF _ 1(2) Suc.prems(2)] t Suc.hyps(2) by simp_all
  have "stays (before g i) ga ga'" using t IH(2) stays_trans before_mono [of i "Suc i" g] by (metis le_Suc_eq order_refl)
  moreover have "local T (?ns ! i) \<longrightarrow> apart T asz g i ga'" using t apart_stays [OF IH(2) _ i] by blast
  moreover have "placed T asz g (max i (length ?ns)) ga'" using IH(1) i by (simp add: max_def)
  ultimately show ?case using IH(3) le_neq_implies_less by (metis Suc_leI)
qed

section \<open>Before the nodes\<close>

definition store_ok :: "(nat \<Rightarrow> nat \<Rightarrow> nat) \<Rightarrow> galloc \<Rightarrow> bool" where
  "store_ok asz ga \<longleftrightarrow> buffers_ok asz ga \<and> (\<forall>A \<in> set (ga_allocs ga). alloc_ok A []) \<and> hash_ok (hv_set (ga_values ga))"

lemma reset_holds:
  assumes "store_ok asz ga" "ga0 = ga\<lparr>ga_values := values_reset zero_node (ga_values ga)\<rparr>"
  shows "holds T asz ga0" "node_of ga0 = (\<lambda>t. zero_node)"
proof -
  have "hash_ok (hv_set (ga_values ga))" using assms(1) by (simp add: store_ok_def)
  note r = values_reset_ok [OF this, of zero_node]
  have v: "table_ok ga0" "node_of ga0 = (\<lambda>t. zero_node)" using r assms(2) by simp_all
  then show "node_of ga0 = (\<lambda>t. zero_node)" by simp
  have "buffers_ok asz ga0" using assms by (simp add: store_ok_def buffers_ok_def)
  then have "blocks_ok asz ga0 (node_of ga0) []" using assms by (simp add: blocks_ok_def store_ok_def)
  then show "holds T asz ga0" by (intro holdsI [OF v(1)]) (simp_all add: v(2), simp_all add: zero_node_def)
qed

lemma leaf_not_inplace: "is_leaf T t \<Longrightarrow> \<not> ggml_op_can_inplace (t_op (T t))"
  by (simp add: is_leaf_def GGML_OP_NONE_def ggml_op_can_inplace_def inplace_ops_def)

lemma leaf_loop:
  "each (leaf_turn T asz ids) (enumerate i ls) ga = Some ga' \<Longrightarrow> holds T asz ga \<Longrightarrow> \<forall>t \<in> set ls. is_leaf T t \<Longrightarrow>
     \<forall>t. hn_children (node_of ga t) = 0 \<and> hn_views (node_of ga t) = 0 \<Longrightarrow>
     holds T asz ga' \<and> same_bufs ga ga' \<and> (\<forall>t. hn_children (node_of ga' t) = 0 \<and> hn_views (node_of ga' t) = 0) \<and>
     (\<forall>t. hn_allocated (node_of ga' t) \<longleftrightarrow> hn_allocated (node_of ga t) \<or> t \<in> set ls \<and> local T t)"
proof (induction ls arbitrary: i ga)
  case (Cons l ls)
  obtain b ga1 where 1: "allocate_node T asz l b ga = Some ga1" "each (leaf_turn T asz ids) (enumerate (Suc i) ls) ga1 = Some ga'"
    using Cons.prems(1) by (auto simp: leaf_turn_def bind_eq_Some_conv)
  have "\<not> ggml_op_can_inplace (t_op (T l))" using leaf_not_inplace Cons.prems(3) by simp
  then have s: "holds T asz ga1 \<and> same_bufs ga ga1 \<and>
      (if local T l \<and> \<not> hn_allocated (node_of ga l) then fresh_at asz ga l ga1 else node_of ga1 = node_of ga)"
    using allocate_node_spec [OF 1(1) Cons.prems(2)] by (auto simp: over_at_def split: if_splits)
  then have "(\<forall>t. hn_children (node_of ga1 t) = 0 \<and> hn_views (node_of ga1 t) = 0) \<and>
      (\<forall>t. hn_allocated (node_of ga1 t) \<longleftrightarrow> hn_allocated (node_of ga t) \<or> t = l \<and> local T l)"
    using Cons.prems(4) by (auto simp: fresh_at_def split: if_splits)
  then show ?case using Cons.IH [OF 1(2)] s Cons.prems(3) same_bufs_trans by auto
qed simp

lemma allocate_skip:
  assumes "allocate_node T asz s b ga = Some ga'" "holds T asz ga" "local T s \<longrightarrow> hn_allocated (node_of ga s)" "is_leaf T s"
  shows "holds T asz ga' \<and> same_bufs ga ga' \<and> node_of ga' = node_of ga"
  using allocate_node_spec [OF assms(1,2)] leaf_not_inplace [OF assms(4)] assms(3) by auto

lemma count_sources:
  "each (count_source T asz ids i) ss ga = Some ga' \<Longrightarrow> holds T asz ga \<Longrightarrow>
     \<forall>s \<in> set ss. t_input (T s) \<longrightarrow> is_leaf T s \<and> (local T s \<longrightarrow> hn_allocated (node_of ga s)) \<Longrightarrow>
     holds T asz ga' \<and> same_bufs ga ga' \<and>
     node_of ga' = (\<lambda>t. (node_of ga t)\<lparr>hn_children := hn_children (node_of ga t) + int (count_list ss t)\<rparr>)"
proof (induction ss arbitrary: ga)
  case (Cons s ss)
  obtain ga2 where 0: "count_source T asz ids i s ga = Some ga2" "each (count_source T asz ids i) ss ga2 = Some ga'"
    using Cons.prems(1) by (auto simp: bind_eq_Some_conv)
  obtain ga1 where 1: "hash_set_node s (\<lambda>hn. hn\<lparr>hn_children := hn_children hn + 1\<rparr>) ga = Some ga1"
    "(if t_input (T s) then do { b \<leftarrow> get_node_buffer_id ids i; allocate_node T asz s b ga1 } else Some ga1) = Some ga2"
    using 0(1) unfolding count_source_def bind_eq_Some_conv by blast
  have h: "holds T asz ga1" "same_store ga ga1"
    "node_of ga1 = (node_of ga)(s := (node_of ga s)\<lparr>hn_children := hn_children (node_of ga s) + 1\<rparr>)"
    using holds_counts [OF Cons.prems(2) 1(1)] by simp_all
  have two: "holds T asz ga2 \<and> same_bufs ga1 ga2 \<and> node_of ga2 = node_of ga1"
  proof (cases "t_input (T s)")
    case True
    then obtain b where "allocate_node T asz s b ga1 = Some ga2" using 1(2) by (auto simp: bind_eq_Some_conv)
    from allocate_skip [OF this h(1)] show ?thesis using True Cons.prems(3) h(3) by simp
  qed (use 1(2) h in simp)
  have "holds T asz ga' \<and> same_bufs ga2 ga' \<and>
      node_of ga' = (\<lambda>t. (node_of ga2 t)\<lparr>hn_children := hn_children (node_of ga2 t) + int (count_list ss t)\<rparr>)"
    by (rule Cons.IH [OF 0(2)]) (use two h(3) Cons.prems(3) in auto)
  then show ?case using two h(3) same_bufs_trans [OF same_store_bufs [OF h(2)]] same_bufs_trans by (auto simp: fun_eq_iff)
qed simp

definition counts_view :: "heap \<Rightarrow> nat \<Rightarrow> nat \<Rightarrow> bool" where
  "counts_view T t v \<longleftrightarrow> t_op (T v) \<noteq> GGML_OP_NONE \<and> t_view_src (T v) = Some t"

definition add_counts :: "(nat \<Rightarrow> int) \<Rightarrow> (nat \<Rightarrow> int) \<Rightarrow> (nat \<Rightarrow> hash_node) \<Rightarrow> nat \<Rightarrow> hash_node" where
  "add_counts c v m = (\<lambda>t. (m t)\<lparr>hn_children := hn_children (m t) + c t, hn_views := hn_views (m t) + v t\<rparr>)"

lemma add_counts_add: "add_counts c v (add_counts c' v' m) = add_counts (\<lambda>t. c' t + c t) (\<lambda>t. v' t + v t) m"
  by (simp add: add_counts_def fun_eq_iff)

lemma add_counts_0: "add_counts (\<lambda>t. 0) (\<lambda>t. 0) m = m"
  by (simp add: add_counts_def)

text \<open>The leafs are placed, so that counting places nothing.\<close>

definition leafs_placed :: "heap \<Rightarrow> nat list \<Rightarrow> galloc \<Rightarrow> bool" where
  "leafs_placed T ns ga \<longleftrightarrow> (\<forall>t \<in> set ns. \<not> t_input (T t) \<and>
     (\<forall>s \<in> set (sources T t). t_input (T s) \<longrightarrow> is_leaf T s \<and> (local T s \<longrightarrow> hn_allocated (node_of ga s))))"

lemma count_turn_ok:
  assumes "count_turn T asz ids (i, v) ga = Some ga'" "holds T asz ga" "leafs_placed T [v] ga"
  shows "holds T asz ga' \<and> same_bufs ga ga' \<and> node_of ga' =
    add_counts (\<lambda>t. int (count_list (sources T v) t)) (\<lambda>t. if counts_view T t v then 1 else 0) (node_of ga)"
proof -
  define run1 where "run1 = (case t_view_src (T v) of
             Some vs \<Rightarrow> if t_op (T v) \<noteq> GGML_OP_NONE
                       then hash_set_node vs (\<lambda>hn. hn\<lparr>hn_views := hn_views hn + 1\<rparr>) ga else Some ga
           | None \<Rightarrow> Some ga)"
  have "Option.bind run1 (each (count_source T asz ids i) (sources T v)) = Some ga'"
    using assms(1,3) by (simp add: count_turn_def leafs_placed_def run1_def)
  then obtain ga1 where run: "run1 = Some ga1" "each (count_source T asz ids i) (sources T v) ga1 = Some ga'"
    by (auto simp: bind_eq_Some_conv)
  note run = run [unfolded run1_def]
  have 1: "holds T asz ga1 \<and> same_bufs ga ga1 \<and>
      node_of ga1 = add_counts (\<lambda>t. 0) (\<lambda>t. if counts_view T t v then 1 else 0) (node_of ga)"
  proof (cases "\<exists>vs. counts_view T vs v")
    case True
    then obtain vs where vs: "t_view_src (T v) = Some vs" "t_op (T v) \<noteq> GGML_OP_NONE" by (auto simp: counts_view_def)
    then have "hash_set_node vs (\<lambda>hn. hn\<lparr>hn_views := hn_views hn + 1\<rparr>) ga = Some ga1" using run(1) by simp
    from holds_counts [OF assms(2) this] vs same_store_bufs show ?thesis
      by (auto simp: add_counts_def counts_view_def fun_eq_iff)
  next
    case False
    then have "ga1 = ga" using run(1) by (auto simp: counts_view_def split: option.splits if_splits)
    then show ?thesis using False assms(2) by (simp add: add_counts_0)
  qed
  have "holds T asz ga' \<and> same_bufs ga1 ga' \<and>
     node_of ga' = (\<lambda>t. (node_of ga1 t)\<lparr>hn_children := hn_children (node_of ga1 t) + int (count_list (sources T v) t)\<rparr>)"
    by (rule count_sources [OF run(2)]) (use 1 assms(3) in \<open>auto simp: leafs_placed_def add_counts_def\<close>)
  then show ?thesis using 1 same_bufs_trans by (auto simp: add_counts_def)
qed

lemma count_loop:
  "each (count_turn T asz ids) (enumerate i ns) ga = Some ga' \<Longrightarrow> holds T asz ga \<Longrightarrow> leafs_placed T ns ga \<Longrightarrow>
     holds T asz ga' \<and> same_bufs ga ga' \<and> node_of ga' =
       add_counts (\<lambda>t. int (count_list (used_by T ns) t)) (\<lambda>t. int (length (filter (counts_view T t) ns))) (node_of ga)"
proof (induction ns arbitrary: i ga)
  case Nil
  then show ?case by (simp add: used_by_def add_counts_0)
next
  case (Cons v ns)
  obtain ga1 where 1: "count_turn T asz ids (i, v) ga = Some ga1" "each (count_turn T asz ids) (enumerate (Suc i) ns) ga1 = Some ga'"
    using Cons.prems(1) by (auto simp: bind_eq_Some_conv)
  have c: "holds T asz ga1 \<and> same_bufs ga ga1 \<and> node_of ga1 =
      add_counts (\<lambda>t. int (count_list (sources T v) t)) (\<lambda>t. if counts_view T t v then 1 else 0) (node_of ga)"
    by (rule count_turn_ok [OF 1(1) Cons.prems(2)]) (use Cons.prems(3) in \<open>simp add: leafs_placed_def\<close>)
  have "leafs_placed T ns ga1" using Cons.prems(3) c by (simp add: leafs_placed_def add_counts_def)
  from Cons.IH [OF 1(2) c [THEN conjunct1] this] have "holds T asz ga' \<and> same_bufs ga1 ga' \<and> node_of ga' =
      add_counts (\<lambda>t. int (count_list (used_by T ns) t)) (\<lambda>t. int (length (filter (counts_view T t) ns))) (node_of ga1)" .
  then show ?case using c same_bufs_trans by (auto simp: add_counts_add used_by_def intro!: arg_cong2 [where f = "\<lambda>c v. add_counts c v (node_of ga)"])
qed

lemma start_placed:
  assumes "each (leaf_turn T asz leaf_ids) (enumerate 0 (cg_leafs g)) (ga\<lparr>ga_values := values_reset zero_node (ga_values ga)\<rparr>) = Some ga1"
    and "each (count_turn T asz node_ids) (enumerate 0 (cg_nodes g)) ga1 = Some ga2" "placeable T g" "store_ok asz ga"
  shows "placed T asz g 0 ga2"
proof -
  let ?ns = "cg_nodes g"
  have g: "distinct ?ns" "\<forall>t \<in> set (cg_leafs g). is_leaf T t" "\<forall>t \<in> set ?ns. \<not> t_input (T t)"
    using assms(3) by (auto simp: placeable_def in_order_def)
  note r = reset_holds [OF assms(4) refl]
  have l: "holds T asz ga1" "\<forall>t. hn_children (node_of ga1 t) = 0 \<and> hn_views (node_of ga1 t) = 0"
    "\<forall>t. hn_allocated (node_of ga1 t) \<longleftrightarrow> t \<in> set (cg_leafs g) \<and> local T t"
    using leaf_loop [OF assms(1) r(1) g(2)] unfolding r(2) by (simp_all add: zero_node_def)
  have "leafs_placed T ?ns ga1"
    unfolding leafs_placed_def
  proof (intro ballI conjI impI)
    fix t s
    assume ts: "t \<in> set ?ns" "s \<in> set (sources T t)" "t_input (T s)"
    then obtain k where "k < length ?ns" "t = ?ns ! k" by (auto simp: in_set_conv_nth)
    then have "s \<in> before g k" using node_facts(2) [OF assms(3)] ts(2) by blast
    then have "s \<in> set (cg_leafs g)" using ts(3) g(3) by (auto simp: before_def dest: in_set_takeD)
    then show "is_leaf T s" "local T s \<Longrightarrow> hn_allocated (node_of ga1 s)" using g(2) l(3) by simp_all
  qed (use g(3) in simp)
  note c = count_loop [OF assms(2) l(1) this]
  have "card (open_views T ?ns [] rest t) = length (filter (counts_view T t) ?ns)" for rest t
  proof -
    have "open_views T ?ns [] rest t = set (filter (counts_view T t) ?ns)" by (auto simp: open_views_def counts_view_def)
    then show ?thesis using distinct_card [of "filter (counts_view T t) ?ns"] g(1) by simp
  qed
  then have "counted T ?ns [] (used_by T ?ns) ga2" using c l(2) by (simp add: counted_def add_counts_def)
  then show ?thesis using c l(3) holds_inside [of T asz ga2] by (simp add: placed_def before_def used_by_def add_counts_def)
qed

section \<open>No tensor is overwritten while it is needed\<close>

text \<open>Node \<open>k\<close> reads the tensor or a view of it.\<close>

definition reads :: "heap \<Rightarrow> cgraph \<Rightarrow> nat \<Rightarrow> nat \<Rightarrow> bool" where
  "reads T g k t \<longleftrightarrow> k < length (cg_nodes g) \<and> (\<exists>s \<in> set (sources T (cg_nodes g ! k)). s = t \<or> t_view_src (T s) = Some t)"

lemma reads_wanted:
  assumes "placeable T g" "reads T g k t" "j \<le> k"
  shows "wanted_at T g j t"
proof -
  let ?ns = "cg_nodes g"
  obtain s where k: "k < length ?ns" and s: "s \<in> set (sources T (?ns ! k))" "s = t \<or> t_view_src (T s) = Some t"
    using assms(2) by (auto simp: reads_def)
  have "?ns ! k \<in> set (drop j ?ns)" using k assms(3) by (auto simp: in_set_conv_nth intro!: exI [of _ "k - j"])
  then have r: "s \<in> set (used_by T (drop j ?ns))" using s(1) by (auto simp: used_by_def)
  show ?thesis
  proof (cases "s = t")
    case True
    then show ?thesis using r by (simp add: wanted_at_def wanted_def)
  next
    case False
    then have v: "t_view_src (T s) = Some t" using s(2) by simp
    have "proper_source T ?ns s" using node_facts(3) [OF assms(1) k] s(1) by blast
    then have "s \<in> open_views T ?ns (used_by T (take j ?ns)) (used_by T (drop j ?ns)) t"
      using v r by (simp add: open_views_def proper_source_def)
    then show ?thesis by (auto simp: wanted_at_def wanted_def)
  qed
qed

lemma graph_placed:
  assumes "alloc_graph_impl T asz g node_ids leaf_ids ga = Some ga'" "placeable T g" "store_ok asz ga"
  shows "placed T asz g (length (cg_nodes g)) ga'"
    and "j < length (cg_nodes g) \<Longrightarrow> local T (cg_nodes g ! j) \<Longrightarrow> apart T asz g j ga'"
proof -
  obtain ga1 ga2 where run: "each (leaf_turn T asz leaf_ids) (enumerate 0 (cg_leafs g)) (ga\<lparr>ga_values := values_reset zero_node (ga_values ga)\<rparr>) = Some ga1"
    "each (count_turn T asz node_ids) (enumerate 0 (cg_nodes g)) ga1 = Some ga2"
    "each (node_turn T asz node_ids) (enumerate 0 (drop 0 (cg_nodes g))) ga2 = Some ga'"
    using assms(1) unfolding alloc_graph_impl_def bind_eq_Some_conv by auto
  note n = node_loop [OF run(3) assms(2) start_placed [OF run(1,2) assms(2,3)]]
  show "placed T asz g (length (cg_nodes g)) ga'" using n by simp
  show "j < length (cg_nodes g) \<Longrightarrow> local T (cg_nodes g ! j) \<Longrightarrow> apart T asz g j ga'" using n by blast
qed

text \<open>
  A tensor that a later node reads, itself or through a view, or that is an output, keeps its memory: no node
  computed after it writes to these bytes, except an operation that works in place on its last use.
\<close>

theorem needed_memory_kept:
  assumes "alloc_graph_impl T asz g node_ids leaf_ids ga = Some ga'" "placeable T g" "store_ok asz ga"
    and "j < length (cg_nodes g)" "w = cg_nodes g ! j" "local T w"
    and "t \<in> set (cg_leafs g) \<union> set (take j (cg_nodes g))" "local T t" "t_output (T t) \<or> (\<exists>k \<ge> j. reads T g k t)"
  shows "memory asz ga' (node_of ga') w \<inter> memory asz ga' (node_of ga') t = {} \<or>
    t \<in> set (sources T w) \<and> ggml_op_can_inplace (t_op (T w)) \<and> ggml_are_same_layout (T w) (T t) \<and>
    hn_addr (node_of ga' w) = hn_addr (node_of ga' t) \<and> \<not> t_output (T t) \<and> (\<forall>k > j. \<not> reads T g k t)"
proof -
  have "apart T asz g j ga'" using graph_placed(2) [OF assms(1-3)] assms(4-6) by simp
  moreover have "wanted_at T g j t" using assms(9) reads_wanted [OF assms(2)] by (auto simp: wanted_at_def wanted_def)
  moreover have "\<not> wanted_at T g (Suc j) t \<Longrightarrow> \<not> t_output (T t)" by (simp add: wanted_at_def wanted_def)
  moreover have "\<not> wanted_at T g (Suc j) t \<Longrightarrow> \<forall>k > j. \<not> reads T g k t"
    using reads_wanted [OF assms(2), of _ t "Suc j"] Suc_leI by blast
  ultimately show ?thesis using assms(5,7,8) unfolding apart_def in_place_def before_def by blast
qed

text \<open>
  Every byte of every tensor of the graph that is placed lies below the size that its chunk is going to have.
\<close>

theorem placed_inside_chunk:
  assumes "alloc_graph_impl T asz g node_ids leaf_ids ga = Some ga'" "placeable T g" "store_ok asz ga"
    and "t \<in> tensors_of g" "local T t" "(i, c, p) \<in> memory asz ga' (node_of ga') t"
  shows "p < dyn_tallocr_max_size (ga_allocs ga' ! i) c"
proof -
  have "inside asz ga' t" using graph_placed(1) [OF assms(1-3)] assms(4,5) by (auto simp: placed_def before_def)
  then show ?thesis using assms(6) by (auto simp: inside_def chunk_size_def)
qed

section \<open>An example\<close>

text \<open>A tensor and a product with itself as the only operand, which takes over its memory.\<close>

definition table_with :: "u32 \<Rightarrow> nat list \<Rightarrow> hash_set" where
  "table_with u ks = \<lparr>hs_size = 3, hs_used = [u], hs_keys = ks\<rparr>"

lemma demo_hash_size: "ggml_hash_size 3 = 3"
  by (simp add: ggml_hash_size_def hash_primes_def prime_search.simps)

lemma reset_demo: "ggml_hash_set_reset demo_table = table_with 0 [7, 7, 7]"
  by (simp add: demo_table_def ggml_hash_set_new_def demo_hash_size ggml_hash_set_reset_def table_with_def ggml_bitset_size_def Let_def upt_rec drop_bit_eq_div)

lemma demo_finds:
  "ggml_hash_find_or_insert (table_with 0 [7, 7, 7]) 16 = Some (1, table_with 2 [7, 16, 7])"
  "ggml_hash_find_or_insert (table_with 2 [7, 16, 7]) 16 = Some (1, table_with 2 [7, 16, 7])"
  "ggml_hash_find_or_insert (table_with 2 [7, 16, 7]) 32 = Some (2, table_with 6 [7, 16, 32])"
  "ggml_hash_find_or_insert (table_with 6 [7, 16, 32]) 16 = Some (1, table_with 6 [7, 16, 32])"
  "ggml_hash_find_or_insert (table_with 6 [7, 16, 32]) 32 = Some (2, table_with 6 [7, 16, 32])"
  by (simp_all add: table_with_def ggml_hash_find_or_insert_def find_or_insert_from.simps ggml_hash_def drop_bit_eq_div
    ggml_bitset_get_def ggml_bitset_set_def put_key_def)

definition demo_graph :: cgraph where
  "demo_graph = \<lparr>cg_size = 1, cg_nodes = [32], cg_leafs = [16], cg_use_counts = [], cg_visited = demo_table,
     cg_left_to_right = True, cg_compute = \<lambda>t. True\<rparr>"

definition demo_galloc :: galloc where
  "demo_galloc = \<lparr>ga_bufts = [0], ga_tallocs = [0], ga_allocs = [dyn_tallocr_new 32 (2 ^ 20) (\<lambda>n. True)],
     ga_values = \<lparr>hv_set = demo_table, hv_values = []\<rparr>\<rparr>"

lemma demo_tensors:
  "demo_heap 16 = demo_tensor 0 []" "demo_heap 32 = demo_tensor 7 [Some 16, None]"
  by (simp_all add: demo_heap_def)

lemmas run_defs = allocate_node_def hash_get_def hash_set_node_def is_allocated_def is_own_def value_access_def ggml_impl_is_view_def
  take_fresh_def buf_alloc_def alloc_bytes_def reuse_parent_def take_over_def free_extra_space_def free_at_def is_output_def
  ggml_are_same_layout_def count_source_def release_parent_def free_node_def get_node_buffer_id_def

lemma demo_size: "hs_size demo_table = 3" "replicate 3 x = [x, x, x]"
  by (simp add: demo_table_def ggml_hash_set_new_def demo_hash_size) (simp add: numeral_3_eq_3)

lemmas alloc_defs = dyn_tallocr_alloc_def dyn_tallocr_free_bytes_def aligned_offset_def
      add64_def sub64_def to_size_t_def to_int64_def size_max_def new_chunk_def max_chunks_def max_free_blocks_def
      take_block_def remove_block_def insert_block_def merge_next_def merge_prev_def

lemma demo_sources: "sources demo_heap 16 = []" "sources demo_heap 32 = [16]"
  by (simp_all add: demo_heap_sources)

lemma demo_ops: "\<not> ggml_op_can_inplace (t_op (demo_heap 16))" "ggml_op_can_inplace (t_op (demo_heap 32))"
  by (simp_all add: demo_tensors demo_tensor_def ggml_op_can_inplace_def inplace_ops_def)

definition demo_state :: "hash_set \<Rightarrow> hash_node list \<Rightarrow> free_block list \<Rightarrow> galloc" where
  "demo_state hs vs bs = \<lparr>ga_bufts = [0], ga_tallocs = [0],
     ga_allocs = [\<lparr>dt_alignment = 32, dt_max_chunk = 1048576, dt_chunks = [\<lparr>ck_free = bs, ck_max = 32\<rparr>], dt_calloc = \<lambda>n. True\<rparr>],
     ga_values = \<lparr>hv_set = hs, hv_values = vs\<rparr>\<rparr>"

abbreviation demo_hn :: "int \<Rightarrow> bool \<Rightarrow> hash_node" where
  "demo_hn c b \<equiv> zero_node\<lparr>hn_children := c, hn_allocated := b\<rparr>"

lemma demo_leaf:
  "leaf_turn demo_heap (\<lambda>b t. 16) None (0, 16) (demo_galloc\<lparr>ga_values := values_reset zero_node (ga_values demo_galloc)\<rparr>) =
    Some (demo_state (table_with 2 [7, 16, 7]) [zero_node, demo_hn 0 True, zero_node] [\<lparr>fb_offset = 32, fb_size = 1048544\<rparr>])"
  by (simp add: values_reset_def reset_demo demo_size demo_galloc_def dyn_tallocr_new_def dyn_tallocr_reset_def alloc_defs
    leaf_turn_def run_defs demo_tensors demo_ops demo_sources demo_tensor_def demo_finds zero_node_def demo_state_def)

lemma demo_count:
  "count_turn demo_heap (\<lambda>b t. 16) None (0, 32) (demo_state (table_with 2 [7, 16, 7]) [zero_node, demo_hn 0 True, zero_node] bs) =
    Some (demo_state (table_with 2 [7, 16, 7]) [zero_node, demo_hn 1 True, zero_node] bs)"
  by (simp add: count_turn_def run_defs demo_tensors demo_tensor_def demo_sources demo_finds zero_node_def demo_state_def)

lemma demo_node:
  "node_turn demo_heap (\<lambda>b t. 16) None (0, 32) (demo_state (table_with 2 [7, 16, 7]) [zero_node, demo_hn 1 True, zero_node] bs) =
    Some (demo_state (table_with 6 [7, 16, 32]) [zero_node, demo_hn 0 False, demo_hn 0 True] bs)"
  by (simp add: node_turn_def run_defs demo_tensors demo_tensor_def demo_sources ggml_op_can_inplace_def inplace_ops_def
    demo_finds zero_node_def demo_state_def aligned_offset_def add64_def)

lemma demo_runs: "alloc_graph_impl demo_heap (\<lambda>b t. 16) demo_graph None None demo_galloc =
  Some (demo_state (table_with 6 [7, 16, 32]) [zero_node, demo_hn 0 False, demo_hn 0 True] [\<lparr>fb_offset = 32, fb_size = 1048544\<rparr>])"
  using demo_leaf demo_count demo_node by (simp add: alloc_graph_impl_def demo_graph_def)

lemma demo_placeable: "placeable demo_heap demo_graph"
  by (simp add: placeable_def in_order_def is_leaf_def demo_graph_def demo_tensors demo_tensor_def demo_sources GGML_OP_NONE_def)

lemma demo_store: "store_ok (\<lambda>b t. 16) demo_galloc"
  using dyn_tallocr_new_ok [of 32 "2 ^ 20" "\<lambda>n. True"] new_table(1)
  by (simp add: store_ok_def buffers_ok_def demo_galloc_def demo_table_def fair_size_def dyn_tallocr_new_def dyn_tallocr_reset_def)

theorem needed_memory_kept_witness:
  "\<exists>ga'. alloc_graph_impl demo_heap (\<lambda>b t. 16) demo_graph None None demo_galloc = Some ga' \<and>
     (memory (\<lambda>b t. 16) ga' (node_of ga') 32 \<inter> memory (\<lambda>b t. 16) ga' (node_of ga') 16 = {} \<or>
      hn_addr (node_of ga' 32) = hn_addr (node_of ga' 16) \<and> (\<forall>k > 0. \<not> reads demo_heap demo_graph k 16))"
proof -
  have l: "local demo_heap 32" "local demo_heap 16" by (simp_all add: local_def demo_tensors demo_tensor_def)
  have r: "t_output (demo_heap 16) \<or> (\<exists>k \<ge> 0. reads demo_heap demo_graph k 16)"
    by (auto simp: reads_def demo_graph_def demo_sources)
  have g: "0 < length (cg_nodes demo_graph)" "32 = cg_nodes demo_graph ! 0"
    "16 \<in> set (cg_leafs demo_graph) \<union> set (take 0 (cg_nodes demo_graph))" by (simp_all add: demo_graph_def)
  show ?thesis
    using needed_memory_kept [OF demo_runs demo_placeable demo_store g(1,2) l(1) g(3) l(2) r] demo_runs by blast
qed

theorem placed_inside_chunk_witness:
  "\<exists>ga'. alloc_graph_impl demo_heap (\<lambda>b t. 16) demo_graph None None demo_galloc = Some ga' \<and>
     (\<forall>i c p. (i, c, p) \<in> memory (\<lambda>b t. 16) ga' (node_of ga') 32 \<longrightarrow> p < dyn_tallocr_max_size (ga_allocs ga' ! i) c)"
proof -
  have "local demo_heap 32" "32 \<in> tensors_of demo_graph" by (simp_all add: local_def demo_tensors demo_tensor_def demo_graph_def)
  then show ?thesis using placed_inside_chunk [OF demo_runs demo_placeable demo_store] demo_runs by blast
qed

end
