(* ===== verification/Graph_Reserve.thy ===== *)
theory Graph_Reserve
  imports Graph_Alloc
begin

text \<open>
  Reserving memory for a graph and giving its tensors their addresses: the second half of \<open>ggml_gallocr\<close> in
  \<open>src/ggml/src/ggml-alloc.c\<close>.  The places that the walk over a graph finds are recorded, the buffers are allocated with the
  sizes of the chunks, and a later graph that looks the same gets the recorded places without a new walk.
\<close>

section \<open>The state\<close>

text \<open>The invalid buffer number \<open>-1\<close> and the invalid address are \<^term>\<open>None\<close>.\<close>

record tensor_alloc =
  ta_place :: "(nat \<times> buffer_address) option"
  ta_size_max :: nat

record node_alloc =
  na_dst :: tensor_alloc
  na_src :: "tensor_alloc list"

text \<open>
  A virtual buffer is a pointer; \<open>ra_vbufs\<close> gives the sizes of its chunks while it is allocated.  The pointers
  of \<open>ra_buffers\<close> can be equal: buffers of one type share a virtual buffer.
\<close>

record reserved =
  ra_galloc :: galloc
  ra_buffers :: "nat option list"
  ra_vbufs :: "nat \<Rightarrow> nat list option"
  ra_next :: nat
  ra_nodes :: "node_alloc list"
  ra_leafs :: "tensor_alloc list"

section \<open>A new allocator\<close>

definition first_same :: "nat list \<Rightarrow> nat \<Rightarrow> nat option" where
  "first_same bufts i = List.find (\<lambda>j. bufts ! j = bufts ! i) [0 ..< i]"

text \<open>Alignment and largest size of a buffer are what the back end answers for its type.\<close>

definition add_buffer :: "(nat \<Rightarrow> nat) \<Rightarrow> (nat \<Rightarrow> nat) \<Rightarrow> (nat \<Rightarrow> bool) \<Rightarrow> nat list \<Rightarrow> nat
    \<Rightarrow> nat list \<times> dyn_tallocr list \<Rightarrow> (nat list \<times> dyn_tallocr list)" where
  "add_buffer alignment max_bytes calloc bufts i = (\<lambda>(ts, As).
     case first_same bufts i of
       Some j \<Rightarrow> (ts @ [ts ! j], As)
     | None \<Rightarrow> (ts @ [length As], As @ [dyn_tallocr_new (alignment (bufts ! i)) (max_bytes (bufts ! i)) calloc]))"

definition ggml_gallocr_new_n :: "(nat \<Rightarrow> nat) \<Rightarrow> (nat \<Rightarrow> nat) \<Rightarrow> (nat \<Rightarrow> bool) \<Rightarrow> nat list \<Rightarrow> reserved" where
  "ggml_gallocr_new_n alignment max_bytes calloc bufts =
     (let (ts, As) = fold (add_buffer alignment max_bytes calloc bufts) [0 ..< length bufts] ([], [])
      in \<lparr>ra_galloc = \<lparr>ga_bufts = bufts, ga_tallocs = ts, ga_allocs = As,
            ga_values = \<lparr>hv_set = \<lparr>hs_size = 0, hs_used = [], hs_keys = []\<rparr>, hv_values = []\<rparr>\<rparr>,
          ra_buffers = replicate (length bufts) None, ra_vbufs = (\<lambda>p. None), ra_next = 0, ra_nodes = [], ra_leafs = []\<rparr>)"

section \<open>Virtual buffers\<close>

text \<open>Freeing a null pointer does nothing; freeing what is not allocated is undefined.\<close>

definition ggml_vbuffer_free :: "nat option \<Rightarrow> reserved \<Rightarrow> reserved option" where
  "ggml_vbuffer_free buf ra =
     (case buf of
        None \<Rightarrow> Some ra
      | Some p \<Rightarrow> map_option (\<lambda>_. ra\<lparr>ra_vbufs := (ra_vbufs ra)(p := None)\<rparr>) (ra_vbufs ra p))"

definition ggml_vbuffer_chunk_size :: "reserved \<Rightarrow> nat \<Rightarrow> nat \<Rightarrow> nat option" where
  "ggml_vbuffer_chunk_size ra p c =
     map_option (\<lambda>sizes. if c < length sizes then sizes ! c else 0) (ra_vbufs ra p)"

text \<open>
  \<open>get_buffer buft size n\<close> is what \<open>ggml_backend_buft_alloc_buffer\<close> answers: the size of the new buffer, or a failure.
  The last argument is a counter, as the answer need not be the same twice.
\<close>

type_synonym back_end = "nat \<Rightarrow> nat \<Rightarrow> nat \<Rightarrow> nat option"

fun alloc_chunks :: "back_end \<Rightarrow> nat \<Rightarrow> nat \<Rightarrow> nat list \<Rightarrow> nat list option" where
  "alloc_chunks get_buffer buft n [] = Some []"
| "alloc_chunks get_buffer buft n (sz # szs) =
     Option.bind (get_buffer buft sz n) (\<lambda>s. map_option (Cons s) (alloc_chunks get_buffer buft n szs))"

definition ggml_vbuffer_alloc :: "back_end \<Rightarrow> nat \<Rightarrow> dyn_tallocr \<Rightarrow> reserved \<Rightarrow> nat option \<times> reserved" where
  "ggml_vbuffer_alloc get_buffer buft A ra =
     (let p = ra_next ra; ra' = ra\<lparr>ra_next := p + 1\<rparr>
      in case alloc_chunks get_buffer buft p (map ck_max (dt_chunks A)) of
           None \<Rightarrow> (None, ra')
         | Some sizes \<Rightarrow> (Some p, ra'\<lparr>ra_vbufs := (ra_vbufs ra')(p := Some sizes)\<rparr>))"

section \<open>Reserving\<close>

definition invalid_alloc :: tensor_alloc where
  "invalid_alloc = \<lparr>ta_place = None, ta_size_max = 0\<rparr>"

definition record_tensor :: "heap \<Rightarrow> (nat \<Rightarrow> nat \<Rightarrow> nat) \<Rightarrow> nat \<Rightarrow> galloc \<Rightarrow> (tensor_alloc \<times> galloc) option" where
  "record_tensor T asz t ga =
     (if t_view_src (T t) \<noteq> None \<or> t_data (T t) \<noteq> None then Some (invalid_alloc, ga)
      else do {
        (hn, ga) \<leftarrow> hash_get ga t id;
        sz \<leftarrow> alloc_bytes asz ga (hn_buffer hn) t;
        Some (\<lparr>ta_place = Some (hn_buffer hn, hn_addr hn), ta_size_max = sz\<rparr>, ga) })"

definition record_source :: "heap \<Rightarrow> (nat \<Rightarrow> nat \<Rightarrow> nat) \<Rightarrow> nat option \<Rightarrow> galloc \<Rightarrow> (tensor_alloc \<times> galloc) option" where
  "record_source T asz s ga = (case s of None \<Rightarrow> Some (invalid_alloc, ga) | Some t \<Rightarrow> record_tensor T asz t ga)"

definition record_leaf :: "heap \<Rightarrow> (nat \<Rightarrow> nat \<Rightarrow> nat) \<Rightarrow> nat \<Rightarrow> galloc \<Rightarrow> (tensor_alloc \<times> galloc) option" where
  "record_leaf T asz t ga = Option.bind (hash_get ga t id) (\<lambda>(hn, ga). record_tensor T asz t ga)"

text \<open>All slots for sources, used or not.\<close>

definition GGML_MAX_SRC :: nat where
  "GGML_MAX_SRC = 10"

definition src_slots :: "heap \<Rightarrow> nat \<Rightarrow> nat option list" where
  "src_slots T t = map (\<lambda>j. if j < length (t_src (T t)) then t_src (T t) ! j else None) [0 ..< GGML_MAX_SRC]"

primrec collect :: "('a \<Rightarrow> 's \<Rightarrow> ('b \<times> 's) option) \<Rightarrow> 'a list \<Rightarrow> 's \<Rightarrow> ('b list \<times> 's) option" where
  "collect f [] s = Some ([], s)"
| "collect f (x # xs) s = do { (y, s) \<leftarrow> f x s; (ys, s) \<leftarrow> collect f xs s; Some (y # ys, s) }"

definition record_node :: "heap \<Rightarrow> (nat \<Rightarrow> nat \<Rightarrow> nat) \<Rightarrow> nat \<Rightarrow> galloc \<Rightarrow> (node_alloc \<times> galloc) option" where
  "record_node T asz t ga = do {
     (dst, ga) \<leftarrow> record_tensor T asz t ga;
     (srcs, ga) \<leftarrow> collect (record_source T asz) (src_slots T t) ga;
     Some (\<lparr>na_dst = dst, na_src = srcs\<rparr>, ga) }"

text \<open>Whether the chunks of the allocator outgrow a virtual buffer with these sizes.\<close>

definition outgrown :: "dyn_tallocr \<Rightarrow> nat list \<Rightarrow> bool" where
  "outgrown A sizes \<longleftrightarrow>
     list_ex (\<lambda>c. dyn_tallocr_max_size A c > (if c < length sizes then sizes ! c else 0)) [0 ..< length (dt_chunks A)]"

text \<open>The answer of a step: an abort or undefined behaviour, a failure that is reported, or going on.\<close>

definition buffer_turn :: "back_end \<Rightarrow> bool \<Rightarrow> nat \<Rightarrow> reserved \<Rightarrow> (bool \<times> reserved) option" where
  "buffer_turn get_buffer no_alloc i ra = do {
     let ts = ga_tallocs (ra_galloc ra);
     let ra = (case List.find (\<lambda>j. ts ! j = ts ! i) [0 ..< i] of
                 Some j \<Rightarrow> ra\<lparr>ra_buffers := (ra_buffers ra)[i := ra_buffers ra ! j]\<rparr> | None \<Rightarrow> ra);
     let buf = ra_buffers ra ! i;
     (k, A) \<leftarrow> buf_alloc (ra_galloc ra) i;
     small \<leftarrow> (case buf of
                 None \<Rightarrow> Some True
               | Some p \<Rightarrow> if dt_chunks A = [] then Some False else map_option (outgrown A) (ra_vbufs ra p));
     if \<not> small then Some (True, ra)
     else do {
       ra \<leftarrow> ggml_vbuffer_free buf ra;
       if no_alloc then Some (True, ra\<lparr>ra_buffers := (ra_buffers ra)[i := None]\<rparr>)
       else do {
         buft \<leftarrow> rd (ga_bufts (ra_galloc ra)) i;
         let (q, ra) = ggml_vbuffer_alloc get_buffer buft A ra;
         let ra = ra\<lparr>ra_buffers := (ra_buffers ra)[i := q]\<rparr>;
         Some (q \<noteq> None, ra) } } }"

primrec buffer_loop :: "back_end \<Rightarrow> bool \<Rightarrow> nat list \<Rightarrow> reserved \<Rightarrow> (bool \<times> reserved) option" where
  "buffer_loop get_buffer no_alloc [] ra = Some (True, ra)"
| "buffer_loop get_buffer no_alloc (i # is') ra = do {
     (ok, ra) \<leftarrow> buffer_turn get_buffer no_alloc i ra;
     if ok then buffer_loop get_buffer no_alloc is' ra else Some (False, ra) }"

text \<open>The table grows when it is too small; its values are cleared by the walk.  Fresh memory holds \<open>old\<close>.\<close>

definition fit_table :: "(nat \<Rightarrow> nat) \<Rightarrow> cgraph \<Rightarrow> galloc \<Rightarrow> galloc" where
  "fit_table old g ga =
     (let n = length (cg_nodes g) + length (cg_leafs g); min_size = n + n div 4
      in if hs_size (hv_set (ga_values ga)) < min_size
         then ga\<lparr>ga_values := \<lparr>hv_set = ggml_hash_set_new min_size old, hv_values = []\<rparr>\<rparr> else ga)"

definition reserve_n_impl :: "back_end \<Rightarrow> (nat \<Rightarrow> nat) \<Rightarrow> heap \<Rightarrow> (nat \<Rightarrow> nat \<Rightarrow> nat) \<Rightarrow> cgraph \<Rightarrow> int list option \<Rightarrow> int list option \<Rightarrow>
    bool \<Rightarrow> reserved \<Rightarrow> (bool \<times> reserved) option" where
  "reserve_n_impl get_buffer old T asz g node_ids leaf_ids no_alloc ra = do {
     let ga = fit_table old g (ra_galloc ra);
     let ga = ga\<lparr>ga_allocs := map dyn_tallocr_reset (ga_allocs ga)\<rparr>;
     ga \<leftarrow> alloc_graph_impl T asz g node_ids leaf_ids ga;
     (nodes, ga) \<leftarrow> collect (record_node T asz) (cg_nodes g) ga;
     (leafs, ga) \<leftarrow> collect (record_leaf T asz) (cg_leafs g) ga;
     buffer_loop get_buffer no_alloc [0 ..< length (ga_bufts ga)] (ra\<lparr>ra_galloc := ga, ra_nodes := nodes, ra_leafs := leafs\<rparr>) }"

section \<open>Giving the tensors their addresses\<close>

text \<open>
  \<open>base p c\<close> is the address of chunk \<open>c\<close> of the virtual buffer \<open>p\<close>, \<open>handle p c\<close> the buffer of the back end, and \<open>offs t\<close> the
  offset of a view.  The callbacks of the back end for a new tensor change nothing that is modelled.
\<close>

definition ggml_backend_tensor_alloc :: "nat \<Rightarrow> nat \<Rightarrow> nat \<Rightarrow> nat \<Rightarrow> nat \<Rightarrow> nat \<Rightarrow> heap \<Rightarrow> heap option" where
  "ggml_backend_tensor_alloc buffer start bytes need t addr T =
     (if t_buffer (T t) = None \<and> t_data (T t) = None \<and> t_view_src (T t) = None \<and> start \<le> addr \<and> addr + need \<le> start + bytes
      then Some (T(t := (T t)\<lparr>t_buffer := Some buffer, t_data := Some addr\<rparr>)) else None)"

definition ggml_backend_view_init :: "(nat \<Rightarrow> nat) \<Rightarrow> nat \<Rightarrow> heap \<Rightarrow> heap option" where
  "ggml_backend_view_init offs t T = do {
     vs \<leftarrow> t_view_src (T t);
     b \<leftarrow> t_buffer (T vs);
     d \<leftarrow> t_data (T vs);
     if t_buffer (T t) = None then Some (T(t := (T t)\<lparr>t_buffer := Some b, t_data := Some (d + offs t)\<rparr>)) else None }"

record layout =
  lo_base :: "nat \<Rightarrow> nat \<Rightarrow> nat"
  lo_handle :: "nat \<Rightarrow> nat \<Rightarrow> nat"
  lo_offs :: "nat \<Rightarrow> nat"

definition ggml_vbuffer_tensor_alloc :: "layout \<Rightarrow> (nat \<Rightarrow> nat \<Rightarrow> nat) \<Rightarrow> reserved \<Rightarrow> nat \<Rightarrow> nat \<Rightarrow> nat \<Rightarrow> buffer_address \<Rightarrow> heap \<Rightarrow> heap option" where
  "ggml_vbuffer_tensor_alloc lo asz ra b p t addr T = do {
     sizes \<leftarrow> ra_vbufs ra p;
     bytes \<leftarrow> rd sizes (ba_chunk addr);
     buft \<leftarrow> rd (ga_bufts (ra_galloc ra)) b;
     let start = lo_base lo p (ba_chunk addr);
     ggml_backend_tensor_alloc (lo_handle lo p (ba_chunk addr)) start bytes (asz buft t) t (start + ba_offset addr) T }"

definition init_tensor :: "layout \<Rightarrow> (nat \<Rightarrow> nat \<Rightarrow> nat) \<Rightarrow> reserved \<Rightarrow> nat \<times> tensor_alloc \<Rightarrow> heap \<Rightarrow> heap option" where
  "init_tensor lo asz ra = (\<lambda>(t, ta) T.
     case t_view_src (T t) of
       Some vs \<Rightarrow> if t_buffer (T t) = None \<and> t_buffer (T vs) \<noteq> None then ggml_backend_view_init (lo_offs lo) t T else Some T
     | None \<Rightarrow>
         if t_data (T t) = None
         then (case ta_place ta of
                 None \<Rightarrow> None
               | Some (b, addr) \<Rightarrow> do { buf \<leftarrow> rd (ra_buffers ra) b; p \<leftarrow> buf; ggml_vbuffer_tensor_alloc lo asz ra b p t addr T })
         else Some T)"

definition node_fits :: "heap \<Rightarrow> (nat \<Rightarrow> nat \<Rightarrow> nat) \<Rightarrow> galloc \<Rightarrow> nat \<Rightarrow> tensor_alloc \<Rightarrow> bool" where
  "node_fits T asz ga t ta =
     (if t_data (T t) = None \<and> t_view_src (T t) = None
      then (case ta_place ta of None \<Rightarrow> False | Some (b, addr) \<Rightarrow> ta_size_max ta \<ge> asz (ga_bufts ga ! b) t)
      else True)"

definition needs_realloc :: "heap \<Rightarrow> (nat \<Rightarrow> nat \<Rightarrow> nat) \<Rightarrow> cgraph \<Rightarrow> reserved \<Rightarrow> bool" where
  "needs_realloc T asz g ra \<longleftrightarrow>
     length (ra_nodes ra) \<noteq> length (cg_nodes g) \<or> length (ra_leafs ra) \<noteq> length (cg_leafs g) \<or>
     (\<exists>(t, na) \<in> set (zip (cg_nodes g) (ra_nodes ra)).
        \<not> node_fits T asz (ra_galloc ra) t (na_dst na) \<or>
        (\<exists>(s, ta) \<in> set (zip (src_slots T t) (na_src na)). case s of None \<Rightarrow> False | Some p \<Rightarrow> \<not> node_fits T asz (ra_galloc ra) p ta))"

definition node_inits :: "heap \<Rightarrow> nat \<times> node_alloc \<Rightarrow> (nat \<times> tensor_alloc) list" where
  "node_inits T = (\<lambda>(t, na).
     concat (map (\<lambda>(s, ta). case s of None \<Rightarrow> [] | Some p \<Rightarrow> [(p, ta)]) (zip (src_slots T t) (na_src na))) @ [(t, na_dst na)])"

definition vbuffers_reset :: "reserved \<Rightarrow> unit option" where
  "vbuffers_reset ra = (if \<forall>b \<in> set (ra_buffers ra). (case b of None \<Rightarrow> True | Some p \<Rightarrow> ra_vbufs ra p \<noteq> None) then Some () else None)"

definition ggml_gallocr_alloc_graph :: "back_end \<Rightarrow> (nat \<Rightarrow> nat) \<Rightarrow> layout \<Rightarrow> (nat \<Rightarrow> nat \<Rightarrow> nat) \<Rightarrow> cgraph \<Rightarrow> heap \<Rightarrow> reserved \<Rightarrow>
    (bool \<times> heap \<times> reserved) option" where
  "ggml_gallocr_alloc_graph get_buffer old lo asz g T ra = do {
     (ok, ra) \<leftarrow> (if needs_realloc T asz g ra
                  then (if length (ga_bufts (ra_galloc ra)) = 1 then reserve_n_impl get_buffer old T asz g None None False ra
                        else Some (False, ra))
                  else Some (True, ra));
     if \<not> ok then Some (False, T, ra)
     else do {
       vbuffers_reset ra;
       T \<leftarrow> each (init_tensor lo asz ra)
         (zip (cg_leafs g) (ra_leafs ra) @ concat (map (node_inits T) (zip (cg_nodes g) (ra_nodes ra)))) T;
       Some (True, T, ra) } }"

section \<open>The end of an allocator\<close>

primrec free_buffers_from :: "nat list \<Rightarrow> reserved \<Rightarrow> reserved option" where
  "free_buffers_from [] ra = Some ra"
| "free_buffers_from (i # is') ra = do {
     ra \<leftarrow> (if \<exists>j < i. ra_buffers ra ! j = ra_buffers ra ! i then Some ra else ggml_vbuffer_free (ra_buffers ra ! i) ra);
     free_buffers_from is' ra }"

definition ggml_gallocr_free :: "reserved \<Rightarrow> reserved option" where
  "ggml_gallocr_free ra = free_buffers_from [0 ..< length (ra_buffers ra)] ra"

section \<open>A buffer that cannot grow\<close>

lemma alloc_chunks_fit:
  "alloc_chunks get_buffer buft n szs = Some sizes \<Longrightarrow> \<forall>buft sz n s. get_buffer buft sz n = Some s \<longrightarrow> sz \<le> s \<Longrightarrow>
     length sizes = length szs \<and> (\<forall>c < length szs. szs ! c \<le> sizes ! c)"
proof (induction szs arbitrary: sizes)
  case (Cons sz szs)
  then obtain s ss where "get_buffer buft sz n = Some s" "alloc_chunks get_buffer buft n szs = Some ss" "sizes = s # ss"
    by (auto simp: bind_eq_Some_conv)
  then show ?case using Cons.IH [of ss] Cons.prems(2) by (auto simp: nth_Cons split: nat.splits)
qed simp

lemma fresh_not_outgrown:
  assumes "alloc_chunks get_buffer buft n (map ck_max (dt_chunks A)) = Some sizes"
    and "\<forall>buft sz n s. get_buffer buft sz n = Some s \<longrightarrow> sz \<le> s"
  shows "\<not> outgrown A sizes"
  using alloc_chunks_fit [OF assms] by (auto simp: outgrown_def list_ex_iff not_less dyn_tallocr_max_size_def)

text \<open>A virtual buffer that is large enough.\<close>

definition serves :: "reserved \<Rightarrow> dyn_tallocr \<Rightarrow> nat \<Rightarrow> bool" where
  "serves ra A p \<longleftrightarrow> dt_chunks A = [] \<or> (\<exists>sizes. ra_vbufs ra p = Some sizes \<and> \<not> outgrown A sizes)"

lemma buffer_turn_serves:
  assumes "buf_alloc (ra_galloc ra) i = Some (k, A)" "serves ra A p"
    and "\<forall>j < i. ga_tallocs (ra_galloc ra) ! j = ga_tallocs (ra_galloc ra) ! i \<longrightarrow> ra_buffers ra ! j = Some p"
    and "i < length (ra_buffers ra)"
    and "(\<exists>j < i. ga_tallocs (ra_galloc ra) ! j = ga_tallocs (ra_galloc ra) ! i) \<or> ra_buffers ra ! i = Some p"
  shows "buffer_turn get_buffer no_alloc i ra = Some (True, ra\<lparr>ra_buffers := (ra_buffers ra)[i := Some p]\<rparr>)"
proof -
  let ?ts = "ga_tallocs (ra_galloc ra)"
  define ra1 where "ra1 = (case List.find (\<lambda>j. ?ts ! j = ?ts ! i) [0 ..< i] of
                 Some j \<Rightarrow> ra\<lparr>ra_buffers := (ra_buffers ra)[i := ra_buffers ra ! j]\<rparr> | None \<Rightarrow> ra)"
  have "ra1 = ra\<lparr>ra_buffers := (ra_buffers ra)[i := Some p]\<rparr>"
  proof (cases "List.find (\<lambda>j. ?ts ! j = ?ts ! i) [0 ..< i]")
    case None
    then have "ra_buffers ra ! i = Some p" using assms(5) by (auto simp: find_None_iff)
    then have "(ra_buffers ra)[i := Some p] = ra_buffers ra" using list_update_id by metis
    then show ?thesis using None by (simp add: ra1_def)
  next
    case (Some j)
    then have "ra_buffers ra ! j = Some p" using assms(3) by (auto simp: find_Some_iff)
    then show ?thesis using Some by (simp add: ra1_def)
  qed
  then show ?thesis using assms(1,2,4)
    unfolding buffer_turn_def Let_def ra1_def [symmetric] by (auto simp: serves_def)
qed

text \<open>
  When two buffers of one type share a virtual buffer and it cannot be reallocated with a larger size, the second pointer is
  left dangling, and freeing the allocator afterwards frees it once more.
\<close>

theorem failed_growth_double_free:
  assumes "buffer_loop get_buffer False [0 ..< 2] ra = Some (False, ra')" "ra_buffers ra = [Some p, Some p]"
    and "ga_tallocs (ra_galloc ra) = [0, 0]" "\<forall>buft sz n s. get_buffer buft sz n = Some s \<longrightarrow> sz \<le> s"
  shows "ggml_gallocr_free ra' = None"
proof -
  have loop: "[0 ..< 2] = [0, Suc 0]" by (simp add: upt_rec)
  obtain ok ra1 where 1: "buffer_turn get_buffer False 0 ra = Some (ok, ra1)"
    "(if ok then buffer_loop get_buffer False [Suc 0] ra1 else Some (False, ra1)) = Some (False, ra')"
    using assms(1) unfolding loop by (auto simp: bind_eq_Some_conv)
  obtain A where A: "buf_alloc (ra_galloc ra) 0 = Some (0, A)" "buf_alloc (ra_galloc ra) (Suc 0) = Some (0, A)"
    using 1(1) assms(3) by (auto simp: buffer_turn_def Let_def buf_alloc_def bind_eq_Some_conv rd_eq_Some)
  have stop: False if "ok" "ra_galloc ra1 = ra_galloc ra" "serves ra1 A q" "ra_buffers ra1 = [Some q, b]" for q b
    using buffer_turn_serves [of ra1 "Suc 0" 0 A q get_buffer False] that 1(2) A(2) assms(3) by auto
  have "\<not> serves ra A p"
  proof
    assume s: "serves ra A p"
    then have "buffer_turn get_buffer False 0 ra = Some (True, ra)"
      using buffer_turn_serves [of ra 0 0 A p get_buffer False] A(1) assms(2) by simp
    then show False using stop [of p "Some p"] 1(1) s assms(2) by simp
  qed
  then obtain sizes where sizes: "ra_vbufs ra p = Some sizes" "outgrown A sizes" "dt_chunks A \<noteq> []"
    using 1(1) A(1) assms(2) by (auto simp: buffer_turn_def Let_def serves_def bind_eq_Some_conv split: if_splits)
  define freed where "freed = ra\<lparr>ra_vbufs := (ra_vbufs ra)(p := None)\<rparr>"
  have turn: "buffer_turn get_buffer False 0 ra = Option.bind (rd (ga_bufts (ra_galloc ra)) 0) (\<lambda>buft.
      Some (case ggml_vbuffer_alloc get_buffer buft A freed of (q, r) \<Rightarrow> (q \<noteq> None, r\<lparr>ra_buffers := (ra_buffers r)[0 := q]\<rparr>)))"
    using A(1) assms(2) sizes
    by (simp add: buffer_turn_def Let_def ggml_vbuffer_free_def freed_def split_beta)
  obtain buft where r: "rd (ga_bufts (ra_galloc ra)) 0 = Some buft"
    using 1(1) unfolding turn by (cases "rd (ga_bufts (ra_galloc ra)) 0") auto
  have buft: "(ok, ra1) = (case ggml_vbuffer_alloc get_buffer buft A freed of (q, r) \<Rightarrow>
      (q \<noteq> None, r\<lparr>ra_buffers := (ra_buffers r)[0 := q]\<rparr>))"
    using 1(1) unfolding turn r by simp
  show ?thesis
  proof (cases "alloc_chunks get_buffer buft (ra_next ra) (map ck_max (dt_chunks A))")
    case None
    then have "\<not> ok" "ra_buffers ra1 = [None, Some p]" "ra_vbufs ra1 p = None"
      using buft assms(2) by (simp_all add: ggml_vbuffer_alloc_def freed_def Let_def)
    then show ?thesis using 1(2)
      by (simp add: ggml_gallocr_free_def upt_rec ggml_vbuffer_free_def)
  next
    case (Some ss)
    then have "ok" "ra_galloc ra1 = ra_galloc ra" "ra_buffers ra1 = [Some (ra_next ra), Some p]" "ra_vbufs ra1 (ra_next ra) = Some ss"
      using buft assms(2) by (simp_all add: ggml_vbuffer_alloc_def freed_def Let_def)
    then show ?thesis using stop [of "ra_next ra" "Some p"] fresh_not_outgrown [OF Some assms(4)] by (auto simp: serves_def)
  qed
qed

text \<open>Two buffers of one type that need 64 bytes, have 32, and a back end without memory.\<close>

definition demo_shared :: reserved where
  "demo_shared = \<lparr>ra_galloc = \<lparr>ga_bufts = [0, 0], ga_tallocs = [0, 0],
       ga_allocs = [\<lparr>dt_alignment = 32, dt_max_chunk = 1024, dt_chunks = [\<lparr>ck_free = [\<lparr>fb_offset = 64, fb_size = 960\<rparr>], ck_max = 64\<rparr>],
         dt_calloc = \<lambda>n. True\<rparr>], ga_values = \<lparr>hv_set = demo_table, hv_values = []\<rparr>\<rparr>,
     ra_buffers = [Some 0, Some 0], ra_vbufs = (\<lambda>p. None)(0 := Some [32]), ra_next = 1, ra_nodes = [], ra_leafs = []\<rparr>"

theorem failed_growth_double_free_witness:
  "\<exists>ra'. buffer_loop (\<lambda>buft sz n. None) False [0 ..< 2] demo_shared = Some (False, ra') \<and> ggml_gallocr_free ra' = None"
proof -
  have "buffer_loop (\<lambda>buft sz n. None) False [0 ..< 2] demo_shared =
      Some (False, demo_shared\<lparr>ra_vbufs := (\<lambda>p. None), ra_next := 2, ra_buffers := [None, Some 0]\<rparr>)"
    by (simp add: upt_rec demo_shared_def buffer_turn_def buf_alloc_def outgrown_def dyn_tallocr_max_size_def ggml_vbuffer_free_def
        ggml_vbuffer_alloc_def fun_eq_iff)
  from this failed_growth_double_free [OF this, of 0] show ?thesis by (simp add: demo_shared_def)
qed

section \<open>A graph of another shape\<close>

text \<open>A chain of three operations, the last of which reads the second tensor and \<open>x\<close>.\<close>

definition chain_heap :: "nat \<Rightarrow> heap" where
  "chain_heap x t = (if t = 16 then demo_tensor 0 [] else if t = 32 then demo_tensor 1 [Some 16]
     else if t = 48 then demo_tensor 1 [Some 32] else demo_tensor 1 [Some 48, Some x])"

definition chain_graph :: cgraph where
  "chain_graph = \<lparr>cg_size = 4, cg_nodes = [32, 48, 64], cg_leafs = [16], cg_use_counts = [], cg_visited = demo_table,
     cg_left_to_right = True, cg_compute = \<lambda>t. True\<rparr>"

definition chain_new :: reserved where
  "chain_new = ggml_gallocr_new_n (\<lambda>b. 32) (\<lambda>b. 2 ^ 20) (\<lambda>n. True) [0]"

definition chain_table :: "u32 \<Rightarrow> nat list \<Rightarrow> hash_set" where
  "chain_table u ks = \<lparr>hs_size = 5, hs_used = [u], hs_keys = ks\<rparr>"

lemma chain_finds:
  "ggml_hash_find_or_insert (chain_table 0 [0, 0, 0, 0, 0]) 16 = Some (1, chain_table 2 [0, 16, 0, 0, 0])"
  "ggml_hash_find_or_insert (chain_table 2 [0, 16, 0, 0, 0]) 16 = Some (1, chain_table 2 [0, 16, 0, 0, 0])"
  "ggml_hash_find_or_insert (chain_table 2 [0, 16, 0, 0, 0]) 32 = Some (2, chain_table 6 [0, 16, 32, 0, 0])"
  "ggml_hash_find_or_insert (chain_table 6 [0, 16, 32, 0, 0]) 32 = Some (2, chain_table 6 [0, 16, 32, 0, 0])"
  "ggml_hash_find_or_insert (chain_table 6 [0, 16, 32, 0, 0]) 48 = Some (3, chain_table 14 [0, 16, 32, 48, 0])"
  "ggml_hash_find_or_insert (chain_table 14 [0, 16, 32, 48, 0]) 16 = Some (1, chain_table 14 [0, 16, 32, 48, 0])"
  "ggml_hash_find_or_insert (chain_table 14 [0, 16, 32, 48, 0]) 32 = Some (2, chain_table 14 [0, 16, 32, 48, 0])"
  "ggml_hash_find_or_insert (chain_table 14 [0, 16, 32, 48, 0]) 48 = Some (3, chain_table 14 [0, 16, 32, 48, 0])"
  "ggml_hash_find_or_insert (chain_table 14 [0, 16, 32, 48, 0]) 64 = Some (4, chain_table 30 [0, 16, 32, 48, 64])"
  "ggml_hash_find_or_insert (chain_table 30 [0, 16, 32, 48, 64]) 16 = Some (1, chain_table 30 [0, 16, 32, 48, 64])"
  "ggml_hash_find_or_insert (chain_table 30 [0, 16, 32, 48, 64]) 32 = Some (2, chain_table 30 [0, 16, 32, 48, 64])"
  "ggml_hash_find_or_insert (chain_table 30 [0, 16, 32, 48, 64]) 48 = Some (3, chain_table 30 [0, 16, 32, 48, 64])"
  "ggml_hash_find_or_insert (chain_table 30 [0, 16, 32, 48, 64]) 64 = Some (4, chain_table 30 [0, 16, 32, 48, 64])"
  by (simp_all add: chain_table_def ggml_hash_find_or_insert_def find_or_insert_from.simps ggml_hash_def drop_bit_eq_div
    ggml_bitset_get_def ggml_bitset_set_def put_key_def)

definition chain_state :: "hash_set \<Rightarrow> hash_node list \<Rightarrow> free_block list \<Rightarrow> nat \<Rightarrow> galloc" where
  "chain_state hs vs bs mx = \<lparr>ga_bufts = [0], ga_tallocs = [0],
     ga_allocs = [\<lparr>dt_alignment = 32, dt_max_chunk = 1048576, dt_chunks = [\<lparr>ck_free = bs, ck_max = mx\<rparr>], dt_calloc = \<lambda>n. True\<rparr>],
     ga_values = \<lparr>hv_set = hs, hv_values = vs\<rparr>\<rparr>"

definition chain_hn :: "int \<Rightarrow> nat \<Rightarrow> bool \<Rightarrow> hash_node" where
  "chain_hn c offs b = \<lparr>hn_children = c, hn_views = 0, hn_buffer = 0, hn_addr = \<lparr>ba_chunk = 0, ba_offset = offs\<rparr>, hn_allocated = b\<rparr>"

lemma chain_zero: "zero_node = chain_hn 0 0 False"
  by (simp add: zero_node_def chain_hn_def)

lemma chain_hash_size: "ggml_hash_size 5 = 5" "replicate 5 x = [x, x, x, x, x]" "[0 ..< 5] = [0, 1, 2, 3, 4 :: nat]"
  by (simp add: ggml_hash_size_def hash_primes_def prime_search.simps) (simp_all add: eval_nat_numeral)

lemma chain_five: "Suc (Suc (Suc (Suc (Suc 0)))) = 5"
  by simp

lemma chain_first_table: "ggml_hash_set_reset (ggml_hash_set_new 5 (\<lambda>i. 0)) = chain_table 0 [0, 0, 0, 0, 0]" "hs_size (ggml_hash_set_new 5 (\<lambda>i. 0)) = 5"
  by (simp_all add: ggml_hash_set_new_def chain_hash_size ggml_hash_set_reset_def chain_table_def ggml_bitset_size_def Let_def drop_bit_eq_div)

definition chain_fitted :: galloc where
  "chain_fitted = (fit_table (\<lambda>i. 0) chain_graph (ra_galloc chain_new))\<lparr>ga_allocs :=
     map dyn_tallocr_reset (ga_allocs (fit_table (\<lambda>i. 0) chain_graph (ra_galloc chain_new)))\<rparr>"

lemma chain_fitted: "chain_fitted\<lparr>ga_values := values_reset zero_node (ga_values chain_fitted)\<rparr> = 
  \<lparr>ga_bufts = [0], ga_tallocs = [0], ga_allocs = [\<lparr>dt_alignment = 32, dt_max_chunk = 1048576, dt_chunks = [], dt_calloc = \<lambda>n. True\<rparr>],
   ga_values = \<lparr>hv_set = chain_table 0 [0, 0, 0, 0, 0], hv_values = [zero_node, zero_node, zero_node, zero_node, zero_node]\<rparr>\<rparr>"
  by (simp add: chain_fitted_def chain_new_def ggml_gallocr_new_n_def first_same_def add_buffer_def fit_table_def chain_graph_def
    values_reset_def chain_five chain_first_table chain_hash_size dyn_tallocr_new_def dyn_tallocr_reset_def size_max_def)

lemma chain_tensors: "chain_heap x 16 = demo_tensor 0 []" "chain_heap x 32 = demo_tensor 1 [Some 16]"
  "chain_heap x 48 = demo_tensor 1 [Some 32]" "chain_heap x 64 = demo_tensor 1 [Some 48, Some x]"
  by (simp_all add: chain_heap_def)

lemma chain_sources: "sources (chain_heap x) 16 = []" "sources (chain_heap x) 32 = [16]" "sources (chain_heap x) 48 = [32]"
  "sources (chain_heap x) 64 = [48, x]"
  by (simp_all add: sources_def chain_tensors demo_tensor_def)

lemma chain_ops: "\<not> ggml_op_can_inplace 0" "\<not> ggml_op_can_inplace (Suc 0)"
  by (simp_all add: ggml_op_can_inplace_def inplace_ops_def)

lemmas chain_defs = run_defs chain_tensors chain_sources chain_ops demo_tensor_def chain_finds chain_hn_def chain_state_def alloc_defs

abbreviation chain_bytes :: "nat \<Rightarrow> nat \<Rightarrow> nat" where
  "chain_bytes \<equiv> \<lambda>b t. 16"

lemma chain_leaf:
  "leaf_turn (chain_heap 32) chain_bytes None (0, 16) (chain_fitted\<lparr>ga_values := values_reset zero_node (ga_values chain_fitted)\<rparr>) =
   Some (chain_state (chain_table 2 [0, 16, 0, 0, 0]) [chain_hn 0 0 False, chain_hn 0 0 True, chain_hn 0 0 False, chain_hn 0 0 False, chain_hn 0 0 False]
     [\<lparr>fb_offset = 32, fb_size = 1048544\<rparr>] 32)"
  unfolding chain_fitted by (simp add: leaf_turn_def chain_zero chain_defs)

lemma chain_counts:
  "each (count_turn (chain_heap 32) chain_bytes None) (enumerate 0 [32, 48, 64])
     (chain_state (chain_table 2 [0, 16, 0, 0, 0]) [chain_hn 0 0 False, chain_hn 0 0 True, chain_hn 0 0 False, chain_hn 0 0 False, chain_hn 0 0 False] bs m) =
   Some (chain_state (chain_table 14 [0, 16, 32, 48, 0]) [chain_hn 0 0 False, chain_hn 1 0 True, chain_hn 2 0 False, chain_hn 1 0 False, chain_hn 0 0 False] bs m)"
  by (simp add: count_turn_def chain_defs)

lemma chain_node_1:
  "node_turn (chain_heap 32) chain_bytes None (0, 32)
     (chain_state (chain_table 14 [0, 16, 32, 48, 0]) [chain_hn 0 0 False, chain_hn 1 0 True, chain_hn 2 0 False, chain_hn 1 0 False, chain_hn 0 0 False]
       [\<lparr>fb_offset = 32, fb_size = 1048544\<rparr>] 32) =
   Some (chain_state (chain_table 14 [0, 16, 32, 48, 0]) [chain_hn 0 0 False, chain_hn 0 0 False, chain_hn 2 32 True, chain_hn 1 0 False, chain_hn 0 0 False]
       [\<lparr>fb_offset = 0, fb_size = 32\<rparr>, \<lparr>fb_offset = 64, fb_size = 1048512\<rparr>] 64)"
  by (simp add: node_turn_def chain_defs)

lemma chain_node_2:
  "node_turn (chain_heap 32) chain_bytes None (1, 48)
     (chain_state (chain_table 14 [0, 16, 32, 48, 0]) [chain_hn 0 0 False, chain_hn 0 0 False, chain_hn 2 32 True, chain_hn 1 0 False, chain_hn 0 0 False]
       [\<lparr>fb_offset = 0, fb_size = 32\<rparr>, \<lparr>fb_offset = 64, fb_size = 1048512\<rparr>] 64) =
   Some (chain_state (chain_table 14 [0, 16, 32, 48, 0]) [chain_hn 0 0 False, chain_hn 0 0 False, chain_hn 1 32 True, chain_hn 1 0 True, chain_hn 0 0 False]
       [\<lparr>fb_offset = 64, fb_size = 1048512\<rparr>] 64)"
  by (simp add: node_turn_def chain_defs)

lemma chain_node_3:
  "node_turn (chain_heap 32) chain_bytes None (2, 64)
     (chain_state (chain_table 14 [0, 16, 32, 48, 0]) [chain_hn 0 0 False, chain_hn 0 0 False, chain_hn 1 32 True, chain_hn 1 0 True, chain_hn 0 0 False]
       [\<lparr>fb_offset = 64, fb_size = 1048512\<rparr>] 64) =
   Some (chain_state (chain_table 30 [0, 16, 32, 48, 64]) [chain_hn 0 0 False, chain_hn 0 0 False, chain_hn 0 32 False, chain_hn 0 0 False, chain_hn 0 64 True]
       [\<lparr>fb_offset = 0, fb_size = 64\<rparr>, \<lparr>fb_offset = 96, fb_size = 1048480\<rparr>] 96)"
  by (simp add: node_turn_def chain_defs)

definition chain_galloc :: galloc where
  "chain_galloc = chain_state (chain_table 30 [0, 16, 32, 48, 64])
     [chain_hn 0 0 False, chain_hn 0 0 False, chain_hn 0 32 False, chain_hn 0 0 False, chain_hn 0 64 True]
     [\<lparr>fb_offset = 0, fb_size = 64\<rparr>, \<lparr>fb_offset = 96, fb_size = 1048480\<rparr>] 96"

lemma chain_walk: "alloc_graph_impl (chain_heap 32) chain_bytes chain_graph None None chain_fitted = Some chain_galloc"
proof -
  have e: "enumerate 0 [32, 48, 64] = [(0, 32), (1, 48), (2, 64 :: nat)]" "enumerate 0 [16] = [(0, 16 :: nat)]" by simp_all
  have g: "cg_nodes chain_graph = [32, 48, 64]" "cg_leafs chain_graph = [16]" by (simp_all add: chain_graph_def)
  show ?thesis
    unfolding alloc_graph_impl_def g chain_galloc_def
    by (simp only: e(2) each.simps chain_leaf bind.bind_lunit chain_counts, simp only: e(1) each.simps bind.bind_lunit
        chain_node_1 chain_node_2 chain_node_3)
qed

definition chain_place :: "nat \<Rightarrow> tensor_alloc" where
  "chain_place offs = \<lparr>ta_place = Some (0, \<lparr>ba_chunk = 0, ba_offset = offs\<rparr>), ta_size_max = 16\<rparr>"

lemma chain_slots: "[0 ..< 10] = [0, 1, 2, 3, 4, 5, 6, 7, 8, 9 :: nat]"
  by (simp add: eval_nat_numeral)

lemma chain_record: "record_tensor (chain_heap x) chain_bytes 16 chain_galloc = Some (chain_place 0, chain_galloc)"
  "record_tensor (chain_heap x) chain_bytes 32 chain_galloc = Some (chain_place 32, chain_galloc)"
  "record_tensor (chain_heap x) chain_bytes 48 chain_galloc = Some (chain_place 0, chain_galloc)"
  "record_tensor (chain_heap x) chain_bytes 64 chain_galloc = Some (chain_place 64, chain_galloc)"
  by (simp_all add: record_tensor_def chain_galloc_def chain_defs chain_place_def)

lemma chain_src_slots:
  "src_slots (chain_heap x) 32 = [Some 16, None, None, None, None, None, None, None, None, None]"
  "src_slots (chain_heap x) 48 = [Some 32, None, None, None, None, None, None, None, None, None]"
  "src_slots (chain_heap x) 64 = [Some 48, Some x, None, None, None, None, None, None, None, None]"
  by (simp_all add: src_slots_def GGML_MAX_SRC_def chain_slots chain_tensors demo_tensor_def)

definition chain_nodes :: "node_alloc list" where
  "chain_nodes = [\<lparr>na_dst = chain_place 32, na_src = chain_place 0 # replicate 9 invalid_alloc\<rparr>,
     \<lparr>na_dst = chain_place 0, na_src = chain_place 32 # replicate 9 invalid_alloc\<rparr>,
     \<lparr>na_dst = chain_place 64, na_src = chain_place 0 # chain_place 32 # replicate 8 invalid_alloc\<rparr>]"

lemma chain_nine: "replicate 9 x = [x, x, x, x, x, x, x, x, x]" "replicate 8 x = [x, x, x, x, x, x, x, x]"
  by (simp_all add: eval_nat_numeral)

lemma chain_collect: "collect (record_node (chain_heap 32) chain_bytes) [32, 48, 64] chain_galloc = Some (chain_nodes, chain_galloc)"
  by (simp add: record_node_def record_source_def chain_src_slots chain_record chain_nodes_def chain_nine)

lemma chain_collect_leafs: "collect (record_leaf (chain_heap 32) chain_bytes) [16] chain_galloc = Some ([chain_place 0], chain_galloc)"
proof -
  have "hash_get chain_galloc 16 id = Some (chain_hn 0 0 False, chain_galloc)" by (simp add: chain_galloc_def chain_defs)
  then show ?thesis by (simp add: record_leaf_def chain_record)
qed

definition chain_reserved :: reserved where
  "chain_reserved = \<lparr>ra_galloc = chain_galloc, ra_buffers = [Some 0], ra_vbufs = (\<lambda>p. None)(0 := Some [96]), ra_next = 1,
     ra_nodes = chain_nodes, ra_leafs = [chain_place 0]\<rparr>"

abbreviation chain_back_end :: back_end where
  "chain_back_end \<equiv> \<lambda>buft sz n. Some sz"

lemma chain_reserve: "reserve_n_impl chain_back_end (\<lambda>i. 0) (chain_heap 32) chain_bytes chain_graph None None False chain_new = Some (True, chain_reserved)"
proof -
  have s: "length (ga_bufts chain_galloc) = 1" "[0 ..< 1] = [0]" "cg_nodes chain_graph = [32, 48, 64]" "cg_leafs chain_graph = [16]"
    by (simp_all add: chain_galloc_def chain_state_def chain_graph_def)
  have "buffer_loop chain_back_end False [0] (chain_new\<lparr>ra_galloc := chain_galloc, ra_nodes := chain_nodes, ra_leafs := [chain_place 0]\<rparr>) =
      Some (True, chain_reserved)"
    by (simp add: buffer_turn_def chain_new_def ggml_gallocr_new_n_def add_buffer_def first_same_def chain_galloc_def chain_state_def
        buf_alloc_def ggml_vbuffer_free_def ggml_vbuffer_alloc_def chain_reserved_def)
  then show ?thesis
    unfolding reserve_n_impl_def Let_def chain_fitted_def [symmetric] chain_walk bind.bind_lunit s(3,4) chain_collect
    by (simp only: prod.case bind.bind_lunit chain_collect_leafs s(1,2))
qed

lemma chain_fits: "\<not> needs_realloc (chain_heap x) chain_bytes chain_graph chain_reserved" if "x = 16 \<or> x = 32"
  using that by (auto simp: needs_realloc_def chain_reserved_def chain_graph_def chain_nodes_def chain_src_slots chain_nine node_fits_def
    chain_place_def invalid_alloc_def)

abbreviation chain_layout :: layout where
  "chain_layout \<equiv> \<lparr>lo_base = \<lambda>p c. 4096, lo_handle = \<lambda>p c. 1, lo_offs = \<lambda>t. 0\<rparr>"


end
