(* ===== verification/Spec2Isabelle.thy ===== *)
theory Spec2Isabelle
  imports Main_Loop Grammar_System Kv_Cache Transcribe_Facts Whisper_Full Graph_Reserve
begin

text \<open>
  A verification library for wstream: a server that captures sound with SDL, transcribes it with a fork of
  whisper.cpp, and sends the text to clients over websockets.

  \<^bold>\<open>The parts and how they work together.\<close>  \<open>src/stream/stream.cpp\<close> is the server.  Its main loop waits until the
  capture ring buffer of \<open>src/stream/common-sdl.cpp\<close> has three seconds of sound, puts the tail of the window before
  in front, calls \<open>whisper_full\<close>, cleans the text, and hands it to two threads: one writes the log, one
  broadcasts to the clients.  Each client has a session of its own, which registers it, checks the control
  token of its messages and answers them.  \<open>src/src/whisper.cpp\<close> is the library: from the samples to a
  spectrogram, from its windows through the encoder and token by token through the decoder, with several
  decoders at once and rising temperatures, to segments of text with times.  It filters the logits, if asked to with a
  grammar (\<open>src/common/grammar-parser.cpp\<close>), keeps the key-value cache of the decoders, and can cut the audio to
  its speech first.

  \<^bold>\<open>Theories and code.\<close>

  \<^item> \<open>Prelude\<close>, \<open>Arrays\<close>, \<open>Strings\<close>, \<open>Floats\<close>: fixed-width conversions, checked block copies and array accesses,
    counted loops, \<open>std::string\<close> and \<open><cctype>\<close>, the record of floating-point operations.
  \<^item> \<open>Audio_Ring\<close>: the class \<open>audio_async\<close> of \<open>common-sdl.cpp\<close>; the record \<open>audio_async\<close> has its members, \<open>audio_callback\<close>,
    \<open>audio_get\<close>, \<open>audio_clear\<close> its operations.
  \<^item> \<open>Security\<close>, \<open>Shared_State\<close>, \<open>Session\<close>, \<open>Channels\<close>, \<open>Text_Cleanup\<close>, \<open>Main_Loop\<close>: \<open>stream.cpp\<close>.  The helpers against
    hostile input; the registry \<open>shared_state\<close> and the interleaving of all threads over its two kinds of
    mutexes (\<open>sys_step\<close>); \<open>do_session\<close>; logger and queue with their threads at program points; \<open>process_text\<close>;
    \<open>main\<close>.
  \<^item> \<open>Grammar_Types\<close>, \<open>Grammar_Parser\<close>, \<open>Grammar_Invariant\<close>, \<open>Grammar_Print\<close>: \<open>grammar-parser.cpp\<close> and the element
    types of \<open>whisper.h\<close>.
  \<^item> \<open>Grammar_Engine\<close>, \<open>Grammar_Decode\<close>, \<open>Grammar_Reject\<close>, \<open>Grammar_Total\<close>, \<open>Grammar_System\<close>: the grammar engine of
    \<open>whisper.cpp\<close> (lines 5400 to 5860), against the language that a grammar derives, and together with the parser.
  \<^item> \<open>Vocab\<close>, \<open>Logits\<close>: languages, special tokens, tokenizer; \<open>whisper_process_logits\<close> and the sampling functions.
  \<^item> \<open>Kv_Cache\<close>: \<open>whisper_kv_cache_*\<close>, \<open>whisper_batch\<close>, the mask of the decoder's graph, the swap of caches in beam search.
  \<^item> \<open>Fourier\<close>, \<open>Spectrogram\<close>, \<open>Mel_Window\<close>: \<open>dft\<close>, \<open>fft\<close>, \<open>log_mel_spectrogram\<close> with its workers, the input of the
    encoder.
  \<^item> \<open>Vad_Detect\<close>, \<open>Vad_Filter\<close>, \<open>Vad_Speech\<close>: \<open>whisper_vad_segments_from_probs\<close>, \<open>whisper_vad\<close> with its table of
    times and the inverse, \<open>whisper_vad_detect_speech\<close>.
  \<^item> \<open>Decoder\<close>, \<open>Segments\<close>, \<open>Token_Times\<close>, \<open>Dtw\<close>: one decoder of a transcription; the cut of its tokens into
    segments; the times of tokens, from their lengths and the energy of the sound or from the attention of the network.
  \<^item> \<open>Transcribe_State\<close>, \<open>Transcribe\<close>, \<open>Transcribe_Safe\<close>, \<open>Transcribe_Facts\<close>: \<open>whisper_full_with_state\<close>, composed of all
    the parts above; the record \<open>wstate\<close> is \<open>whisper_state\<close>, \<open>full_params\<close> is \<open>whisper_full_params\<close>.
  \<^item> \<open>Whisper_Full\<close>: \<open>whisper_init_state\<close>, \<open>whisper_full\<close>, \<open>whisper_full_parallel\<close>.
  \<^item> \<open>Hash_Set\<close>, \<open>Compute_Graph\<close>: from the tensor library, the hash set of tensors (\<open>ggml-impl.h\<close>, \<open>ggml.c\<close>) against a set and
    the array of values beside it against a function; the forward graph of a result (\<open>ggml_visit_parents_graph\<close>).
  \<^item> \<open>Tensor_Alloc\<close>, \<open>Graph_Alloc\<close>, \<open>Graph_Reserve\<close>: \<open>ggml-alloc.c\<close>.  The allocator of blocks in chunks
    (\<open>ggml_dyn_tallocr\<close>); the walk over a graph that places its tensors, with reuse in place and release after the
    last use (\<open>ggml_gallocr_alloc_graph_impl\<close>); reserving, virtual buffers, and giving the tensors their addresses.

  \<^bold>\<open>How the code is modelled.\<close>  A class or struct is a record, an operation a function from the state to the
  new state.  What C++ leaves undefined, an assertion that fails and an exception that nothing catches are
  \<^term>\<open>None\<close> (or the constructor \<open>Bad\<close> of \<open>outcome\<close>); error codes are values.  Threads are step relations or, where
  they share nothing, one after another.  Integers that can overflow are words or carry their check.
  Floating-point numbers are an abstract type with a record of operations (\<open>float_ops\<close>, \<open>arith\<close>), so that every
  rounding stays where it is; what a theorem needs of them is a hypothesis such as \<open>float_laws\<close>.  Parameters
  stand for what is not code of the repository or is kernels of tensors: what the networks compute, SDL,
  Boost and JSON, \<open>std::sort\<close>, the random generator, whether memory can be allocated, and the
  callbacks of the caller with their state \<open>'t\<close>.

  \<^bold>\<open>Interfaces.\<close>  \<open>history_buffer\<close> (a buffer that remembers the latest samples) is provided by the ring buffer,
  \<open>message_channel\<close> by the queue, \<open>longest_match\<close> by both tokenizers, \<open>exact_tables\<close> (tables of sines that satisfy the
  addition theorems) by the exact tables of the transform, \<open>token_stamp\<close> (a pass that only sets times) by the
  token-level times, \<open>keyed_store\<close> (values under keys, as long as there is room) by the array beside the hash set.

  \<^bold>\<open>Bounds and fuel.\<close>  The parser's depth is bounded by \<open>parse_fuel\<close>, twice the length of the source plus two,
  which is never reached.  The engine's depth is a parameter; for a grammar without left recursion some depth
  is enough for all, and with left recursion none is.  The main loop of a transcription needs no more turns
  than the audio has frames, because each window moves on by at least two; the loop over temperatures gets its bound as a
  parameter.  The transform has the buffers of the code, \<open>2 N\<close> and \<open>6 N\<close>.  The depth of the visit of a graph is a
  parameter; for sources without a cycle any depth above the rank of the result is enough.  Sizes of tensors with
  their alignment stay below half of \<open>size_t\<close> (\<open>fair_size\<close>).

  \<^bold>\<open>What the lemmas show.\<close>  Of every component: that its accesses are in bounds and its loops end; what it
  computes, against a specification (the language of a grammar, the discrete Fourier transform, the mask of
  attention, a path of single steps); and that its invariant is kept.  Of the memory of tensors: that the free and the live
  blocks of a chunk partition it, and that no node is written over a tensor that is still needed.  Where the code fails, the exact
  condition is a theorem too (reads beyond short audio, a step that overflows, times read through a stale
  table, a plan of memory used for a graph of another shape).

  \<^bold>\<open>Not modelled.\<close>  The branch of the server's main loop for its own voice detection (a constant disables
  it); the acceptor, which is I/O only; the loading of the model beyond its vocabulary and the graphs of
  the networks; of the tensor library under \<open>src/ggml\<close> all but the hash set, the forward graph and the placing of tensors (no
  kernels, back ends, schedulers, gradients or files); vendored code (\<open>json.hpp\<close>, \<open>miniaudio.h\<close>); bindings and examples; timings, logging and printing.
\<close>

end
